(* ===== verification/Prelude.thy ===== *)
theory Prelude
  imports Complex_Main "HOL-Library.Monad_Syntax" "HOL-Library.Stream"
begin

text \<open>
  The vocabulary the component theories share.

  \<^item> Go's run-time panics (index out of range, nil dereference, an explicit \<open>panic\<close>, a stack
    that never stops growing) are the value \<open>None\<close> of an option; statements are sequenced by
    the option monad, so a panic anywhere aborts the whole call.
  \<^item> \<open>foldM\<close> is a Go \<open>for \<dots> range\<close> loop whose body may panic; \<open>foldM_rule\<close> is its
    invariant rule, \<open>foldM_Some\<close> the rule for loops that never panic.
  \<^item> \<open>idx_list\<close> and \<open>upd_list\<close> are \<open>xs[i]\<close> and \<open>xs[i] = v\<close> on a Go slice with an
    \<open>int\<close> index; \<open>arr2\<close> is the fixed array \<open>[2]T\<close>.
  \<^item> \<open>cnt\<close> counts the elements of a slice that satisfy a predicate, with the update laws that
    the incremental counters of the game engines rest on.
  \<^item> \<open>rng\<close> is a source of random numbers: an infinite stream of raw draws. A theorem that
    holds for every stream holds for every behaviour of \<open>math/rand\<close>.
\<close>

named_theorems go_simps
named_theorems cnt_simps

section \<open>Checked indexing\<close>

definition idx_list :: "'a list \<Rightarrow> int \<Rightarrow> 'a option" where
  "idx_list xs i = (if 0 \<le> i \<and> i < int (length xs) then Some (xs ! nat i) else None)"

definition upd_list :: "'a list \<Rightarrow> int \<Rightarrow> 'a \<Rightarrow> 'a list option" where
  "upd_list xs i v = (if 0 \<le> i \<and> i < int (length xs) then Some (xs[nat i := v]) else None)"

lemma idx_list_in [go_simps]: "0 \<le> i \<Longrightarrow> i < int (length xs) \<Longrightarrow> idx_list xs i = Some (xs ! nat i)"
  by (simp add: idx_list_def)

lemma upd_list_in [go_simps]:
  "0 \<le> i \<Longrightarrow> i < int (length xs) \<Longrightarrow> upd_list xs i v = Some (xs[nat i := v])"
  by (simp add: upd_list_def)

lemma idx_list_None_iff: "idx_list xs i = None \<longleftrightarrow> i < 0 \<or> int (length xs) \<le> i"
  by (auto simp: idx_list_def)

section \<open>The fixed array of length two\<close>

text \<open>\<open>[2]T\<close> of the source; index 0 belongs to player 1 and index 1 to player 2.\<close>

datatype 'a arr2 = Arr2 (el0: 'a) (el1: 'a)

definition get2 :: "'a arr2 \<Rightarrow> int \<Rightarrow> 'a option" where
  "get2 a i = (if i = 0 then Some (el0 a) else if i = 1 then Some (el1 a) else None)"

definition set2 :: "'a arr2 \<Rightarrow> int \<Rightarrow> 'a \<Rightarrow> 'a arr2 option" where
  "set2 a i v = (if i = 0 then Some (Arr2 v (el1 a)) else if i = 1 then Some (Arr2 (el0 a) v) else None)"

text \<open>The two operations for an index known to be in range.\<close>

definition at2 :: "'a arr2 \<Rightarrow> int \<Rightarrow> 'a" where
  "at2 a i = (if i = 0 then el0 a else el1 a)"

definition put2 :: "'a arr2 \<Rightarrow> int \<Rightarrow> 'a \<Rightarrow> 'a arr2" where
  "put2 a i v = (if i = 0 then Arr2 v (el1 a) else Arr2 (el0 a) v)"

abbreviation pidx :: "int \<Rightarrow> bool" where
  "pidx p \<equiv> p = 0 \<or> p = 1"

lemma get2_in [go_simps]: "pidx i \<Longrightarrow> get2 a i = Some (at2 a i)"
  by (auto simp: get2_def at2_def)

lemma set2_in [go_simps]: "pidx i \<Longrightarrow> set2 a i v = Some (put2 a i v)"
  by (auto simp: set2_def put2_def)

lemma at2_put2: "pidx i \<Longrightarrow> pidx j \<Longrightarrow> at2 (put2 a i v) j = (if i = j then v else at2 a j)"
  by (auto simp: at2_def put2_def)

lemma at2_put2_same [simp]: "at2 (put2 a i v) i = v"
  by (simp add: at2_def put2_def)

lemma at2_Arr2 [simp]: "at2 (Arr2 x y) i = (if i = 0 then x else y)"
  by (simp add: at2_def)

section \<open>Loops over a slice\<close>

fun foldM :: "('a \<Rightarrow> 's \<Rightarrow> 's option) \<Rightarrow> 'a list \<Rightarrow> 's \<Rightarrow> 's option" where
  "foldM f [] s = Some s"
| "foldM f (x # xs) s = Option.bind (f x s) (foldM f xs)"

lemma foldM_append: "foldM f (xs @ ys) s = Option.bind (foldM f xs s) (foldM f ys)"
  by (induction xs arbitrary: s) (auto split: Option.bind_splits)

lemma foldM_snoc: "foldM f (xs @ [x]) s = Option.bind (foldM f xs s) (f x)"
  by (cases "foldM f xs s"; simp add: foldM_append split: Option.bind_splits)

text \<open>
  Invariant rule: a loop whose body keeps \<open>P\<close> and never panics from a state with \<open>P\<close> does
  not panic and ends in a state with \<open>P\<close>.
\<close>

lemma foldM_rule:
  assumes "P s" and "\<And>x t. x \<in> set xs \<Longrightarrow> P t \<Longrightarrow> \<exists>u. f x t = Some u \<and> P u"
  shows "\<exists>u. foldM f xs s = Some u \<and> P u"
  using assms
proof (induction xs arbitrary: s)
  case Nil
  then show ?case by simp
next
  case (Cons x xs)
  from Cons.prems obtain t where "f x s = Some t" "P t" by fastforce
  with Cons.IH[of t] Cons.prems(2) show ?case by auto
qed

text \<open>The same with the list prefix already processed, for loops that establish something.\<close>

lemma foldM_prefix_rule:
  assumes "P [] s"
    and "\<And>ys x zs t. xs = ys @ x # zs \<Longrightarrow> P ys t \<Longrightarrow> \<exists>u. f x t = Some u \<and> P (ys @ [x]) u"
  shows "\<exists>u. foldM f xs s = Some u \<and> P xs u"
proof -
  have "xs = ys @ zs \<Longrightarrow> P ys t \<Longrightarrow> \<exists>u. foldM f zs t = Some u \<and> P xs u" for ys zs t
  proof (induction zs arbitrary: ys t)
    case Nil
    then show ?case by simp
  next
    case (Cons x zs)
    from assms(2)[OF Cons.prems] obtain u where "f x t = Some u" "P (ys @ [x]) u" by blast
    with Cons.IH[of "ys @ [x]" u] Cons.prems(1) show ?case by auto
  qed
  from this[of "[]" xs s] assms(1) show ?thesis by simp
qed

lemma foldM_Some:
  assumes "\<And>x t. x \<in> set xs \<Longrightarrow> f x t = Some (g x t)"
  shows "foldM f xs s = Some (fold g xs s)"
  using assms by (induction xs arbitrary: s) auto

lemma foldM_cong [fundef_cong]:
  assumes "xs = ys" "s = t" "\<And>x u. x \<in> set ys \<Longrightarrow> f x u = g x u"
  shows "foldM f xs s = foldM g ys t"
  unfolding assms(1,2) using assms(3) by (induction ys arbitrary: t) (auto intro!: Option.bind_cong)

section \<open>Counting\<close>

definition cnt :: "('a \<Rightarrow> bool) \<Rightarrow> 'a list \<Rightarrow> int" where
  "cnt P xs = int (length (filter P xs))"

lemma cnt_Nil [cnt_simps, simp]: "cnt P [] = 0"
  by (simp add: cnt_def)

lemma cnt_Cons [cnt_simps]: "cnt P (x # xs) = of_bool (P x) + cnt P xs"
  by (simp add: cnt_def)

lemma cnt_append [cnt_simps]: "cnt P (xs @ ys) = cnt P xs + cnt P ys"
  by (simp add: cnt_def)

lemma cnt_nonneg [simp]: "0 \<le> cnt P xs"
  by (simp add: cnt_def)

lemma cnt_le_length: "cnt P xs \<le> int (length xs)"
  by (simp add: cnt_def)

lemma cnt_update:
  "i < length xs \<Longrightarrow> cnt P (xs[i := v]) = cnt P xs - of_bool (P (xs ! i)) + of_bool (P v)"
proof (induction xs arbitrary: i)
  case (Cons x xs)
  then show ?case by (cases i) (auto simp: cnt_Cons)
qed simp

lemma cnt_pos_iff: "0 < cnt P xs \<longleftrightarrow> (\<exists>x \<in> set xs. P x)"
  by (induction xs) (auto simp: cnt_Cons of_bool_def intro: add_pos_nonneg)

lemma cnt_zero_iff: "cnt P xs = 0 \<longleftrightarrow> (\<forall>x \<in> set xs. \<not> P x)"
  using cnt_pos_iff[of P xs] cnt_nonneg[of P xs] by (metis order_less_le)

lemma cnt_posI: "i < length xs \<Longrightarrow> P (xs ! i) \<Longrightarrow> 0 < cnt P xs"
  by (auto simp: cnt_pos_iff)

lemma cnt_map: "cnt P (map f xs) = cnt (P \<circ> f) xs"
  by (induction xs) (auto simp: cnt_Cons)

lemma cnt_cong: "(\<And>x. x \<in> set xs \<Longrightarrow> P x = Q x) \<Longrightarrow> cnt P xs = cnt Q xs"
  by (induction xs) (auto simp: cnt_Cons)

lemma cnt_mono: "(\<And>x. x \<in> set xs \<Longrightarrow> P x \<Longrightarrow> Q x) \<Longrightarrow> cnt P xs \<le> cnt Q xs"
proof (induction xs)
  case (Cons x xs)
  then have "cnt P xs \<le> cnt Q xs" by simp
  moreover have "of_bool (P x) \<le> (of_bool (Q x) :: int)" using Cons.prems by auto
  ultimately show ?case by (simp add: cnt_Cons)
qed simp

lemma cnt_split: "i < length xs \<Longrightarrow> cnt P xs = cnt P (take i xs) + of_bool (P (xs ! i)) + cnt P (drop (Suc i) xs)"
  by (subst id_take_nth_drop[of i xs]) (simp_all only: cnt_append cnt_Cons)

text \<open>A second position with \<open>P\<close> exists exactly when at least two elements satisfy it.\<close>

lemma cnt_two_iff:
  assumes "i < length xs" "P (xs ! i)"
  shows "2 \<le> cnt P xs \<longleftrightarrow> (\<exists>j < length xs. j \<noteq> i \<and> P (xs ! j))"
proof
  assume "2 \<le> cnt P xs"
  with cnt_split[of i xs P] assms have "0 < cnt P (take i xs) \<or> 0 < cnt P (drop (Suc i) xs)"
    using cnt_nonneg[of P "take i xs"] cnt_nonneg[of P "drop (Suc i) xs"] by auto
  then show "\<exists>j < length xs. j \<noteq> i \<and> P (xs ! j)"
  proof
    assume "0 < cnt P (take i xs)"
    then obtain j where "j < i" "P (xs ! j)" using assms(1) by (auto simp: cnt_pos_iff in_set_conv_nth)
    with assms(1) show ?thesis by (intro exI[of _ j]) simp
  next
    assume "0 < cnt P (drop (Suc i) xs)"
    then obtain j where "j < length xs - Suc i" "P (drop (Suc i) xs ! j)"
      by (auto simp: cnt_pos_iff in_set_conv_nth)
    then have "Suc i + j < length xs" "P (xs ! (Suc i + j))" by simp_all
    then show ?thesis by (intro exI[of _ "Suc i + j"]) simp
  qed
next
  assume "\<exists>j < length xs. j \<noteq> i \<and> P (xs ! j)"
  then obtain j where j: "j < length xs" "j \<noteq> i" "P (xs ! j)" by blast
  have two: "2 \<le> cnt P xs" if "a < b" "b < length xs" "P (xs ! a)" "P (xs ! b)" for a b
  proof -
    have "0 < cnt P (take b xs)" using that by (intro cnt_posI[of a]) simp_all
    moreover have "cnt P xs = cnt P (take b xs) + 1 + cnt P (drop (Suc b) xs)"
      using cnt_split[OF that(2), of P] that(4) by simp
    ultimately show ?thesis using cnt_nonneg[of P "drop (Suc b) xs"] by linarith
  qed
  from j assms two[of i j] two[of j i] show "2 \<le> cnt P xs" by (cases "i < j") auto
qed

lemma sum_list_update_int:
  fixes g :: "'a \<Rightarrow> int"
  shows "i < length xs \<Longrightarrow>
    sum_list (map g (xs[i := v])) = sum_list (map g xs) - g (xs ! i) + g v"
proof (induction xs arbitrary: i)
  case (Cons x xs)
  then show ?case by (cases i) auto
qed simp

section \<open>Random numbers\<close>

type_synonym rng = "nat stream"

text \<open>
  \<open>rand.Intn(n)\<close> returns a number in \<open>[0, n)\<close> and panics for \<open>n \<le> 0\<close>;
  \<open>rand.Float64()\<close> returns a multiple of \<open>2^-53\<close> in \<open>[0, 1)\<close>.
\<close>

definition Intn :: "int \<Rightarrow> rng \<Rightarrow> (int \<times> rng) option" where
  "Intn n s = (if n \<le> 0 then None else Some (int (shd s) mod n, stl s))"

definition Float64 :: "rng \<Rightarrow> rat \<times> rng" where
  "Float64 s = (of_nat (shd s mod 2 ^ 53) / 2 ^ 53, stl s)"

lemma Intn_Some: "0 < n \<Longrightarrow> \<exists>k s'. Intn n s = Some (k, s') \<and> 0 \<le> k \<and> k < n"
  by (simp add: Intn_def)

lemma Intn_SomeD: "Intn n s = Some (k, s') \<Longrightarrow> 0 < n \<and> 0 \<le> k \<and> k < n \<and> s' = stl s"
  by (auto simp: Intn_def split: if_splits)

lemma Intn_in: "0 < n \<Longrightarrow> Intn n s = Some (int (shd s) mod n, stl s)"
  by (simp add: Intn_def)

lemma Intn_reaches_all:
  "0 \<le> k \<Longrightarrow> k < n \<Longrightarrow> \<exists>s. Intn n s = Some (k, t)"
  by (rule exI[of _ "nat k ## t"]) (simp add: Intn_def)

text \<open>Mapping a function that always returns.\<close>

lemma those_map_Some: "those (map (\<lambda>x. Some (f x)) xs) = Some (map f xs)"
  by (induction xs) simp_all

end
