(* ===== verification/Api.thy ===== *)
theory Api
  imports Prelude
begin

text \<open>
  The data types of \<open>hexz/api.go\<close>: cell types, fields, resources, the game state and the move
  request of a client. A \<open>CellType\<close> is an \<open>int\<close> of the source; the engines only ever see the
  eight declared constants, because \<open>handleMove\<close> refuses every other value with
  \<open>CellType.valid\<close>. The constants are therefore a \<open>datatype\<close>, \<open>cell_iota\<close> is their number
  in the source's \<open>iota\<close> order, and the request keeps the raw integer.
\<close>

section \<open>Cell types\<close>

datatype cell_type =
    CellNormal | CellDead | CellGrass | CellRock
  | CellFire | CellFlag | CellPest | CellDeath

fun cell_iota :: "cell_type \<Rightarrow> nat" where
  "cell_iota CellNormal = 0"
| "cell_iota CellDead = 1"
| "cell_iota CellGrass = 2"
| "cell_iota CellRock = 3"
| "cell_iota CellFire = 4"
| "cell_iota CellFlag = 5"
| "cell_iota CellPest = 6"
| "cell_iota CellDeath = 7"

definition cellTypeLen :: int where
  "cellTypeLen = 8"

lemma cell_iota_inj: "cell_iota a = cell_iota b \<longleftrightarrow> a = b"
  by (cases a; cases b) simp_all

text \<open>The order of the constants, in which \<open>isPlayerPiece\<close> compares them.\<close>

instantiation cell_type :: linorder
begin
definition less_eq_cell_type :: "cell_type \<Rightarrow> cell_type \<Rightarrow> bool" where
  "less_eq_cell_type a b = (cell_iota a \<le> cell_iota b)"
definition less_cell_type :: "cell_type \<Rightarrow> cell_type \<Rightarrow> bool" where
  "less_cell_type a b = (cell_iota a < cell_iota b)"
instance
  by standard (auto simp: less_eq_cell_type_def less_cell_type_def cell_iota_inj)
end

text \<open>\<open>CellType.valid\<close> on the raw integer of a request, and the constant it stands for.\<close>

definition cellType_valid :: "int \<Rightarrow> bool" where
  "cellType_valid c = (int (cell_iota CellNormal) \<le> c \<and> c < cellTypeLen)"

definition cellType_of :: "int \<Rightarrow> cell_type" where
  "cellType_of c =
     [CellNormal, CellDead, CellGrass, CellRock, CellFire, CellFlag, CellPest, CellDeath] ! nat c"

lemma cellType_valid_iff: "cellType_valid c \<longleftrightarrow> (\<exists>t. c = int (cell_iota t))"
proof
  assume "cellType_valid c"
  then have "c \<in> {0, 1, 2, 3, 4, 5, 6, 7}" by (auto simp: cellType_valid_def cellTypeLen_def)
  then have "c = int (cell_iota (cellType_of c))" by (auto simp: cellType_of_def)
  then show "\<exists>t. c = int (cell_iota t)" ..
next
  assume "\<exists>t. c = int (cell_iota t)"
  then obtain t where "c = int (cell_iota t)" ..
  then show "cellType_valid c" by (cases t) (simp_all add: cellType_valid_def cellTypeLen_def)
qed

lemma cellType_of_iota [simp]: "cellType_of (int (cell_iota t)) = t"
  by (cases t) (simp_all add: cellType_of_def)

section \<open>Fields, resources and game states\<close>

record field =
  Type :: cell_type
  Owner :: int
  Hidden :: bool
  Value :: int
  Blocked :: "bool arr2"
  Lifetime :: int
  NextVal :: "int arr2"

text \<open>\<open>Field{}\<close>: the zero value of the struct.\<close>

definition zeroField :: field where
  "zeroField = \<lparr>Type = CellNormal, Owner = 0, Hidden = False, Value = 0,
     Blocked = Arr2 False False, Lifetime = 0, NextVal = Arr2 0 0\<rparr>"

record resource_info =
  NumPieces :: "cell_type \<Rightarrow> int"

text \<open>\<open>var ps [cellTypeLen]int\<close>: no pieces of any type.\<close>

definition noPieces :: "cell_type \<Rightarrow> int" where
  "noPieces = (\<lambda>_. 0)"

datatype game_state = Initial | Running | Finished

datatype game_type = GameTypeClassic | GameTypeFlagz | GameTypeFreeform

fun game_type_name :: "game_type \<Rightarrow> string" where
  "game_type_name GameTypeClassic = ''Classic''"
| "game_type_name GameTypeFlagz = ''Flagz''"
| "game_type_name GameTypeFreeform = ''Freeform''"

record move_request =
  ReqMove :: int
  ReqRow :: int
  ReqCol :: int
  ReqType :: int

end
