(* ===== verification/Board.thy ===== *)
theory Board
  imports Api
begin

text \<open>
  The board of \<open>hexz/engine.go\<close>. \<open>FlatFields\<close> is the backing array, and \<open>Fields\<close>, which in
  the source is a slice of sub-slices of it, is the list of its slice headers (start and length):
  \<open>b.Fields[r][c]\<close> reads and writes \<open>FlatFields\<close> at \<open>start + c\<close>, so an update through one
  view is seen through the other.

  \<open>wf_board\<close> says that the rows partition the backing array in order, which \<open>makeFields\<close> and
  \<open>copyFields\<close> establish. Under it a field access is total (\<open>getField_valid\<close>,
  \<open>setField_valid\<close>), the two access functions obey the laws of an array
  (\<open>fld_updf\<close>), and a nested loop over rows and columns (\<open>allIdx\<close>) visits every element of the
  backing array exactly once and in order (\<open>map_fld_allIdx\<close>).
\<close>

section \<open>The board and its fields\<close>

type_synonym slice = "nat \<times> nat"

record board =
  Turn :: int
  Move :: int
  LastRevealed :: int
  FlatFields :: "field list"
  Fields :: "slice list"
  Score :: "int list"
  Resources :: "resource_info list"
  State :: game_state

datatype idx = Idx (row_of: int) (col_of: int)

record game_engine_move =
  mvPlayer :: int
  mvMove :: int
  mvRow :: int
  mvCol :: int
  mvType :: cell_type

definition numFieldsFirstRow :: nat where
  "numFieldsFirstRow = 10"

definition numBoardRows :: nat where
  "numBoardRows = 11"

text \<open>Cutting an array into consecutive slices of the given lengths, from \<open>start\<close> on.\<close>

fun sliceRows :: "nat \<Rightarrow> nat list \<Rightarrow> slice list" where
  "sliceRows start [] = []"
| "sliceRows start (n # ns) = (start, n) # sliceRows (start + n) ns"

definition makeFields :: "field list \<times> slice list" where
  "makeFields =
    (let numFields = numFieldsFirstRow * ((numBoardRows + 1) div 2)
                       + (numFieldsFirstRow - 1) * (numBoardRows div 2)
     in (replicate numFields zeroField,
         sliceRows 0 (map (\<lambda>i. numFieldsFirstRow - i mod 2) [0..<numBoardRows])))"

definition copyFields :: "board \<Rightarrow> field list \<times> slice list" where
  "copyFields b = (FlatFields b, sliceRows 0 (map snd (Fields b)))"

definition NewBoard :: board where
  "NewBoard =
    (let (flatFields, fields) = makeFields
     in \<lparr>Turn = 1, Move = 0, LastRevealed = 0, FlatFields = flatFields, Fields = fields,
          Score = [], Resources = [], State = Initial\<rparr>)"

definition copyBoard :: "board \<Rightarrow> board" where
  "copyBoard b =
    (let (flt, fields) = copyFields b
     in \<lparr>Turn = Turn b, Move = Move b, LastRevealed = LastRevealed b, FlatFields = flt,
          Fields = fields, Score = Score b, Resources = Resources b, State = State b\<rparr>)"

definition occupied :: "field \<Rightarrow> bool" where
  "occupied f = (Type f \<noteq> CellNormal \<or> Owner f > 0)"

text \<open>\<open>f.NextVal[playerNum-1] > 0\<close>; the index panics for a number that is no player's.\<close>

definition isAvail :: "field \<Rightarrow> int \<Rightarrow> bool option" where
  "isAvail f playerNum = Option.bind (get2 (NextVal f) (playerNum - 1)) (\<lambda>v. Some (v > 0))"

definition valid :: "board \<Rightarrow> idx \<Rightarrow> bool" where
  "valid b x = (row_of x \<ge> 0 \<and> row_of x < int (length (Fields b)) \<and>
                col_of x \<ge> 0 \<and> col_of x < int (snd (Fields b ! nat (row_of x))))"

definition fpos :: "board \<Rightarrow> idx \<Rightarrow> nat" where
  "fpos b x = fst (Fields b ! nat (row_of x)) + nat (col_of x)"

text \<open>\<open>b.Fields[x.r][x.c]\<close> as a read and as the target of an assignment.\<close>

definition getField :: "board \<Rightarrow> idx \<Rightarrow> field option" where
  "getField b x = (if valid b x \<and> fpos b x < length (FlatFields b)
                   then Some (FlatFields b ! fpos b x) else None)"

definition setField :: "board \<Rightarrow> idx \<Rightarrow> field \<Rightarrow> board option" where
  "setField b x f = (if valid b x \<and> fpos b x < length (FlatFields b)
                     then Some (b\<lparr>FlatFields := (FlatFields b)[fpos b x := f]\<rparr>) else None)"

text \<open>
  The index pairs of \<open>for r := range b.Fields { for c := range b.Fields[r] { \<dots> } }\<close>.
\<close>

definition allIdx :: "board \<Rightarrow> idx list" where
  "allIdx b = concat (map (\<lambda>r. map (\<lambda>c. Idx (int r) (int c)) [0..<snd (Fields b ! r)])
                        [0..<length (Fields b)])"

text \<open>
  \<open>neighbors\<close> writes the six candidates to the buffer in this order and keeps the valid ones.
  \<open>x.r & 1\<close> is the row's parity.
\<close>

definition nbCandidates :: "idx \<Rightarrow> idx list" where
  "nbCandidates x =
    (let shift = row_of x mod 2; r = row_of x; c = col_of x
     in [Idx r (c + 1), Idx (r - 1) (c + shift), Idx (r - 1) (c - 1 + shift),
         Idx r (c - 1), Idx (r + 1) (c - 1 + shift), Idx (r + 1) (c + shift)])"

definition neighbors :: "board \<Rightarrow> idx \<Rightarrow> idx list" where
  "neighbors b x = filter (valid b) (nbCandidates x)"

section \<open>Well-formed boards\<close>

definition wf_board :: "board \<Rightarrow> bool" where
  "wf_board b \<longleftrightarrow> Fields b = sliceRows 0 (map snd (Fields b)) \<and>
                  length (FlatFields b) = sum_list (map snd (Fields b))"

lemma map_snd_sliceRows [simp]: "map snd (sliceRows s ns) = ns"
  by (induction ns arbitrary: s) auto

lemma length_sliceRows [simp]: "length (sliceRows s ns) = length ns"
  by (induction ns arbitrary: s) auto

lemma concat_sliceRows:
  "concat (map (\<lambda>(s, n). map (\<lambda>c. s + c) [0..<n]) (sliceRows s ns)) = [s..<s + sum_list ns]"
proof (induction ns arbitrary: s)
  case (Cons n ns)
  have "map (\<lambda>c. s + c) [0..<n] = [s..<s + n]"
    using map_add_upt[of s n] by (simp add: add.commute)
  moreover have "[s..<s + n] @ [s + n..<s + (n + sum_list ns)] = [s..<s + (n + sum_list ns)]"
    by (metis add.assoc le_add1 upt_add_eq_append)
  ultimately show ?case using Cons[of "s + n"] by (simp add: add.assoc)
qed simp

lemma map_fpos_allIdx: "wf_board b \<Longrightarrow> map (fpos b) (allIdx b) = [0..<length (FlatFields b)]"
proof -
  assume wf: "wf_board b"
  have "map (fpos b) (allIdx b) =
      concat (map (\<lambda>r. map (\<lambda>c. fst (Fields b ! r) + c) [0..<snd (Fields b ! r)])
        [0..<length (Fields b)])"
    by (simp add: allIdx_def map_concat fpos_def comp_def)
  also have "\<dots> = concat (map (\<lambda>(s, n). map (\<lambda>c. s + c) [0..<n])
                 (map ((!) (Fields b)) [0..<length (Fields b)]))"
    by (simp add: comp_def case_prod_beta)
  also have "\<dots> = concat (map (\<lambda>(s, n). map (\<lambda>c. s + c) [0..<n]) (Fields b))"
    by (simp add: map_nth)
  also have "\<dots> = concat (map (\<lambda>(s, n). map (\<lambda>c. s + c) [0..<n])
                 (sliceRows 0 (map snd (Fields b))))"
    using wf by (simp add: wf_board_def)
  also have "\<dots> = [0..<length (FlatFields b)]"
    unfolding concat_sliceRows using wf by (simp add: wf_board_def)
  finally show ?thesis .
qed

lemma valid_iff_allIdx: "valid b x \<longleftrightarrow> x \<in> set (allIdx b)"
proof
  assume "valid b x"
  then have "nat (row_of x) < length (Fields b)" "nat (col_of x) < snd (Fields b ! nat (row_of x))"
    "x = Idx (int (nat (row_of x))) (int (nat (col_of x)))"
    by (auto simp: valid_def)
  then show "x \<in> set (allIdx b)" by (force simp: allIdx_def)
next
  assume "x \<in> set (allIdx b)"
  then show "valid b x" by (auto simp: allIdx_def valid_def)
qed

lemma distinct_allIdx: "wf_board b \<Longrightarrow> distinct (allIdx b)"
  by (metis map_fpos_allIdx distinct_map distinct_upt)

lemma length_allIdx: "wf_board b \<Longrightarrow> length (allIdx b) = length (FlatFields b)"
  by (metis map_fpos_allIdx length_map length_upt minus_nat.diff_0)

lemma fpos_less: "wf_board b \<Longrightarrow> valid b x \<Longrightarrow> fpos b x < length (FlatFields b)"
proof -
  assume "wf_board b" "valid b x"
  then have "fpos b x \<in> set (map (fpos b) (allIdx b))" by (simp add: valid_iff_allIdx)
  with \<open>wf_board b\<close> show ?thesis by (simp only: map_fpos_allIdx) simp
qed

lemma fpos_inj: "wf_board b \<Longrightarrow> valid b x \<Longrightarrow> valid b y \<Longrightarrow> fpos b x = fpos b y \<longleftrightarrow> x = y"
proof -
  assume a: "wf_board b" "valid b x" "valid b y"
  have "inj_on (fpos b) (set (allIdx b))"
    using map_fpos_allIdx[OF a(1)] by (metis distinct_map distinct_upt)
  with a show ?thesis by (auto simp: valid_iff_allIdx inj_on_def)
qed

section \<open>Field access\<close>

definition fld :: "board \<Rightarrow> idx \<Rightarrow> field" where
  "fld b x = FlatFields b ! fpos b x"

definition updf :: "board \<Rightarrow> idx \<Rightarrow> field \<Rightarrow> board" where
  "updf b x f = b\<lparr>FlatFields := (FlatFields b)[fpos b x := f]\<rparr>"

lemma getField_valid [go_simps]: "wf_board b \<Longrightarrow> valid b x \<Longrightarrow> getField b x = Some (fld b x)"
  by (simp add: getField_def fld_def fpos_less)

lemma setField_valid [go_simps]: "wf_board b \<Longrightarrow> valid b x \<Longrightarrow> setField b x f = Some (updf b x f)"
  by (simp add: setField_def updf_def fpos_less)

lemma getField_invalid: "\<not> valid b x \<Longrightarrow> getField b x = None"
  by (simp add: getField_def)

lemma updf_sel [simp]:
  "Turn (updf b x f) = Turn b" "Move (updf b x f) = Move b"
  "LastRevealed (updf b x f) = LastRevealed b" "Fields (updf b x f) = Fields b"
  "Score (updf b x f) = Score b" "Resources (updf b x f) = Resources b"
  "State (updf b x f) = State b" "length (FlatFields (updf b x f)) = length (FlatFields b)"
  by (simp_all add: updf_def)

text \<open>What depends on the shape of the board only.\<close>

lemma same_shape:
  assumes "Fields b' = Fields b"
  shows "valid b' = valid b" "fpos b' = fpos b" "neighbors b' = neighbors b" "allIdx b' = allIdx b"
  using assms by (auto simp: fun_eq_iff valid_def fpos_def neighbors_def allIdx_def cong: filter_cong)

lemma wf_board_cong:
  "Fields b' = Fields b \<Longrightarrow> length (FlatFields b') = length (FlatFields b) \<Longrightarrow>
   wf_board b' = wf_board b"
  by (simp add: wf_board_def)

lemma shape_updf [simp]:
  "valid (updf b x f) = valid b" "fpos (updf b x f) = fpos b"
  "neighbors (updf b x f) = neighbors b" "allIdx (updf b x f) = allIdx b"
  "wf_board (updf b x f) = wf_board b"
  by (rule same_shape wf_board_cong; simp)+

text \<open>Boards that differ in the scalar fields only have the same cells.\<close>

lemma shape_scalar [simp]:
  "valid (b\<lparr>Turn := t\<rparr>) = valid b" "valid (b\<lparr>Move := m\<rparr>) = valid b"
  "valid (b\<lparr>Score := s\<rparr>) = valid b" "valid (b\<lparr>State := g\<rparr>) = valid b"
  "valid (b\<lparr>Resources := rs\<rparr>) = valid b" "valid (b\<lparr>LastRevealed := l\<rparr>) = valid b"
  "neighbors (b\<lparr>Turn := t\<rparr>) = neighbors b" "neighbors (b\<lparr>Move := m\<rparr>) = neighbors b"
  "neighbors (b\<lparr>Score := s\<rparr>) = neighbors b" "neighbors (b\<lparr>State := g\<rparr>) = neighbors b"
  "neighbors (b\<lparr>Resources := rs\<rparr>) = neighbors b" "neighbors (b\<lparr>LastRevealed := l\<rparr>) = neighbors b"
  "allIdx (b\<lparr>Turn := t\<rparr>) = allIdx b" "allIdx (b\<lparr>Move := m\<rparr>) = allIdx b"
  "allIdx (b\<lparr>Score := s\<rparr>) = allIdx b" "allIdx (b\<lparr>State := g\<rparr>) = allIdx b"
  "allIdx (b\<lparr>Resources := rs\<rparr>) = allIdx b" "allIdx (b\<lparr>LastRevealed := l\<rparr>) = allIdx b"
  by (rule same_shape; simp)+

lemma wf_scalar [simp]:
  "wf_board (b\<lparr>Turn := t\<rparr>) = wf_board b" "wf_board (b\<lparr>Move := m\<rparr>) = wf_board b"
  "wf_board (b\<lparr>Score := s\<rparr>) = wf_board b" "wf_board (b\<lparr>State := g\<rparr>) = wf_board b"
  "wf_board (b\<lparr>Resources := rs\<rparr>) = wf_board b" "wf_board (b\<lparr>LastRevealed := l\<rparr>) = wf_board b"
  by (rule wf_board_cong; simp)+

lemma fld_scalar [simp]:
  "fld (b\<lparr>Turn := t\<rparr>) = fld b" "fld (b\<lparr>Move := m\<rparr>) = fld b"
  "fld (b\<lparr>Score := s\<rparr>) = fld b" "fld (b\<lparr>State := g\<rparr>) = fld b"
  "fld (b\<lparr>Resources := rs\<rparr>) = fld b" "fld (b\<lparr>LastRevealed := l\<rparr>) = fld b"
  by (auto simp: fun_eq_iff fld_def fpos_def)

lemma fld_updf:
  "wf_board b \<Longrightarrow> valid b x \<Longrightarrow> valid b y \<Longrightarrow> fld (updf b x f) y = (if x = y then f else fld b y)"
  by (simp add: fld_def shape_updf) (simp add: updf_def fpos_inj fpos_less nth_list_update)

lemma fld_updf_same [simp]: "wf_board b \<Longrightarrow> valid b x \<Longrightarrow> fld (updf b x f) x = f"
  by (simp add: fld_updf)

lemma map_fld_allIdx: "wf_board b \<Longrightarrow> map (fld b) (allIdx b) = FlatFields b"
proof -
  assume wf: "wf_board b"
  have "map (fld b) (allIdx b) = map ((!) (FlatFields b)) (map (fpos b) (allIdx b))"
    by (simp add: fld_def comp_def)
  with wf show ?thesis by (simp add: map_fpos_allIdx map_nth)
qed

lemma fld_in_set [simp]: "wf_board b \<Longrightarrow> valid b x \<Longrightarrow> fld b x \<in> set (FlatFields b)"
  by (simp add: fld_def fpos_less)

text \<open>A property of all fields, read along the index pairs or along the backing array.\<close>

lemma ball_fields: "wf_board b \<Longrightarrow> (\<forall>f \<in> set (FlatFields b). P f) \<longleftrightarrow> (\<forall>x. valid b x \<longrightarrow> P (fld b x))"
  by (subst map_fld_allIdx[symmetric]) (auto simp: valid_iff_allIdx)

lemma cnt_allIdx: "wf_board b \<Longrightarrow> cnt (P \<circ> fld b) (allIdx b) = cnt P (FlatFields b)"
  by (metis cnt_map map_fld_allIdx)

lemma cnt_updf [cnt_simps]:
  "wf_board b \<Longrightarrow> valid b x \<Longrightarrow>
   cnt P (FlatFields (updf b x f)) = cnt P (FlatFields b) - of_bool (P (fld b x)) + of_bool (P f)"
  by (simp add: updf_def fld_def cnt_update fpos_less)

lemma sum_updf [cnt_simps]:
  fixes g :: "field \<Rightarrow> int"
  shows "wf_board b \<Longrightarrow> valid b x \<Longrightarrow>
   sum_list (map g (FlatFields (updf b x f))) = sum_list (map g (FlatFields b)) - g (fld b x) + g f"
  by (simp add: updf_def fld_def sum_list_update_int fpos_less)

lemma ball_updf:
  "wf_board b \<Longrightarrow> valid b x \<Longrightarrow> \<forall>f \<in> set (FlatFields b). P f \<Longrightarrow> P h \<Longrightarrow>
   \<forall>f \<in> set (FlatFields (updf b x h)). P f"
  using set_update_subset_insert by (fastforce simp: updf_def)

section \<open>Changing cells only\<close>

text \<open>\<open>b'\<close> differs from \<open>b\<close> in the contents of its cells at most.\<close>

definition same_frame :: "board \<Rightarrow> board \<Rightarrow> bool" where
  "same_frame b b' \<longleftrightarrow> length (FlatFields b') = length (FlatFields b) \<and> b' = b\<lparr>FlatFields := FlatFields b'\<rparr>"

lemma same_frame_refl [simp]: "same_frame b b"
  by (simp add: same_frame_def)

lemma same_frame_trans: "same_frame b c \<Longrightarrow> same_frame c d \<Longrightarrow> same_frame b d"
  unfolding same_frame_def by (cases b; cases c; cases d) simp

lemma same_frame_updf [simp]: "same_frame b (updf b x f)"
  by (simp add: same_frame_def updf_def)

lemma same_frame_sel:
  assumes "same_frame b b'"
  shows "Turn b' = Turn b" "Move b' = Move b" "LastRevealed b' = LastRevealed b" "Fields b' = Fields b"
    "Score b' = Score b" "Resources b' = Resources b" "State b' = State b"
    "length (FlatFields b') = length (FlatFields b)"
    "valid b' = valid b" "fpos b' = fpos b" "neighbors b' = neighbors b" "allIdx b' = allIdx b"
    "wf_board b' = wf_board b"
proof -
  obtain fs where b': "b' = b\<lparr>FlatFields := fs\<rparr>" using assms by (metis same_frame_def)
  show "Turn b' = Turn b" "Move b' = Move b" "LastRevealed b' = LastRevealed b" "Score b' = Score b"
    "Resources b' = Resources b" "State b' = State b" by (simp_all add: b')
  show Fs: "Fields b' = Fields b" by (simp add: b')
  show len: "length (FlatFields b') = length (FlatFields b)" using assms by (simp add: same_frame_def)
  show "valid b' = valid b" "fpos b' = fpos b" "neighbors b' = neighbors b" "allIdx b' = allIdx b"
    "wf_board b' = wf_board b" by (rule same_shape[OF Fs] wf_board_cong[OF Fs len])+
qed

text \<open>A loop that updates each cell by a function of its own contents.\<close>

lemma fields_eqI:
  assumes "wf_board b" "same_frame b b'" "\<And>y. valid b y \<Longrightarrow> fld b' y = h (fld b y)"
  shows "b' = b\<lparr>FlatFields := map h (FlatFields b)\<rparr>"
proof -
  note same = same_frame_sel[OF assms(2)]
  have "FlatFields b' = map (fld b') (allIdx b)" using map_fld_allIdx[of b'] assms(1) same by simp
  also have "\<dots> = map (h \<circ> fld b) (allIdx b)" using assms(3) by (simp add: valid_iff_allIdx)
  also have "\<dots> = map h (FlatFields b)" using map_fld_allIdx[OF assms(1)] by (metis map_map)
  finally show ?thesis using assms(2) by (simp add: same_frame_def)
qed

lemma foldM_fields:
  assumes wf: "wf_board b"
  shows "foldM (\<lambda>x b. do { f \<leftarrow> getField b x; setField b x (h f) }) (allIdx b) b =
    Some (b\<lparr>FlatFields := map h (FlatFields b)\<rparr>)"
proof -
  let ?step = "\<lambda>x b. do { f \<leftarrow> getField b x; setField b x (h f) }"
  have "\<exists>b'. foldM ?step (allIdx b) b = Some b' \<and> (same_frame b b' \<and>
    (\<forall>y. valid b y \<longrightarrow> fld b' y = (if y \<in> set (allIdx b) then h (fld b y) else fld b y)))"
  proof (rule foldM_prefix_rule)
    fix ys x zs t
    assume split: "allIdx b = ys @ x # zs"
      and t: "same_frame b t \<and> (\<forall>y. valid b y \<longrightarrow> fld t y = (if y \<in> set ys then h (fld b y) else fld b y))"
    have x: "valid b x" "x \<notin> set ys" using split distinct_allIdx[OF wf] by (auto simp: valid_iff_allIdx)
    note same = same_frame_sel[OF conjunct1[OF t]]
    have "?step x t = Some (updf t x (h (fld b x)))" using t x wf same by (simp add: go_simps)
    moreover have "same_frame b (updf t x (h (fld b x)))" using t same_frame_trans by (metis same_frame_updf)
    moreover have "fld (updf t x (h (fld b x))) y = (if y \<in> set (ys @ [x]) then h (fld b y) else fld b y)"
      if "valid b y" for y
      using that t x wf same by (auto simp: fld_updf)
    ultimately show "\<exists>u. ?step x t = Some u \<and> (same_frame b u \<and>
        (\<forall>y. valid b y \<longrightarrow> fld u y = (if y \<in> set (ys @ [x]) then h (fld b y) else fld b y)))" by blast
  qed simp
  then obtain b' where b': "foldM ?step (allIdx b) b = Some b'" "same_frame b b'"
      "\<And>y. valid b y \<Longrightarrow> fld b' y = h (fld b y)" by (auto simp: valid_iff_allIdx)
  with fields_eqI[OF wf b'(2,3)] show ?thesis by simp
qed

section \<open>Neighbors\<close>

lemma neighbors_valid: "y \<in> set (neighbors b x) \<Longrightarrow> valid b y"
  by (simp add: neighbors_def)

lemma length_neighbors: "length (neighbors b x) \<le> 6"
proof -
  have "length (neighbors b x) \<le> length (nbCandidates x)"
    by (simp add: neighbors_def)
  then show ?thesis by (simp add: nbCandidates_def Let_def)
qed

lemma nbCandidates_iff:
  "y \<in> set (nbCandidates x) \<longleftrightarrow>
   (row_of y = row_of x \<and> (col_of y = col_of x + 1 \<or> col_of y = col_of x - 1)) \<or>
   ((row_of y = row_of x - 1 \<or> row_of y = row_of x + 1) \<and>
    (col_of y = col_of x + row_of x mod 2 \<or> col_of y = col_of x - 1 + row_of x mod 2))"
  by (cases y) (auto simp: nbCandidates_def Let_def)

lemma nbCandidates_sym:
  assumes "y \<in> set (nbCandidates x)"
  shows "x \<in> set (nbCandidates y)"
proof -
  have par: "(row_of x - 1) mod 2 = 1 - row_of x mod 2" "(row_of x + 1) mod 2 = 1 - row_of x mod 2"
    by presburger+
  from assms consider
      "row_of y = row_of x" "col_of y = col_of x + 1 \<or> col_of y = col_of x - 1"
    | "row_of y = row_of x - 1" "col_of y = col_of x + row_of x mod 2 \<or> col_of y = col_of x - 1 + row_of x mod 2"
    | "row_of y = row_of x + 1" "col_of y = col_of x + row_of x mod 2 \<or> col_of y = col_of x - 1 + row_of x mod 2"
    unfolding nbCandidates_iff by blast
  then show ?thesis
    by cases (auto simp: nbCandidates_iff par)
qed

lemma nbCandidates_irrefl: "x \<notin> set (nbCandidates x)"
  by (simp add: nbCandidates_iff)

lemma nbCandidates_distinct: "distinct (nbCandidates x)"
  by (simp add: nbCandidates_def Let_def)

lemma neighbors_irrefl: "x \<notin> set (neighbors b x)"
  by (simp add: neighbors_def nbCandidates_irrefl)

lemma distinct_neighbors: "distinct (neighbors b x)"
  by (simp add: neighbors_def nbCandidates_distinct)

lemma neighbors_sym: "valid b x \<Longrightarrow> y \<in> set (neighbors b x) \<Longrightarrow> x \<in> set (neighbors b y)"
  by (auto simp: neighbors_def nbCandidates_sym)

text \<open>
  Hexagons in doubled coordinates: row \<open>r\<close> holds the cells at \<open>2 c + r mod 2\<close>. Two hexagons touch
  when they are two apart in the same row, or one apart in rows next to each other.
\<close>

definition hexTouch :: "idx \<Rightarrow> idx \<Rightarrow> bool" where
  "hexTouch x y \<longleftrightarrow> (let dx = \<bar>(2 * col_of x + row_of x mod 2) - (2 * col_of y + row_of y mod 2)\<bar>;
       dr = \<bar>row_of x - row_of y\<bar> in (dr = 0 \<and> dx = 2) \<or> (dr = 1 \<and> dx = 1))"

lemma nbCandidates_hexTouch: "y \<in> set (nbCandidates x) \<longleftrightarrow> hexTouch x y"
proof -
  have par: "(row_of x - 1) mod 2 = 1 - row_of x mod 2" "(row_of x + 1) mod 2 = 1 - row_of x mod 2"
    by presburger+
  consider "row_of y = row_of x" | "row_of y = row_of x - 1" | "row_of y = row_of x + 1"
    | "\<bar>row_of x - row_of y\<bar> > 1" by linarith
  then show ?thesis
  proof cases
    case 1
    then show ?thesis by (auto simp: nbCandidates_iff hexTouch_def Let_def)
  next
    case 2
    then show ?thesis unfolding nbCandidates_iff hexTouch_def Let_def 2 par by auto
  next
    case 3
    then show ?thesis unfolding nbCandidates_iff hexTouch_def Let_def 3 par by auto
  next
    case 4
    then show ?thesis by (auto simp: nbCandidates_iff hexTouch_def Let_def)
  qed
qed

text \<open>\<open>neighbors\<close> is the geometry of the board: it lists exactly the valid cells that touch the
  given one, each of them once, at most six.\<close>

theorem neighbors_are_touching_cells:
  "set (neighbors b x) = {y. valid b y \<and> hexTouch x y} \<and> distinct (neighbors b x) \<and> length (neighbors b x) \<le> 6"
  using distinct_neighbors[of b x] length_neighbors[of b x] by (auto simp: neighbors_def nbCandidates_hexTouch)

section \<open>Making and copying boards\<close>

lemma length_makeFields: "length (fst makeFields) = 105"
  by (simp add: makeFields_def numFieldsFirstRow_def numBoardRows_def)

lemma map_snd_makeFields:
  "map snd (snd makeFields) = map (\<lambda>i. numFieldsFirstRow - i mod 2) [0..<numBoardRows]"
  by (simp add: makeFields_def)

lemma sum_row_lengths:
  "sum_list (map (\<lambda>i. numFieldsFirstRow - i mod 2) [0..<numBoardRows]) = 105"
  by (simp add: numFieldsFirstRow_def numBoardRows_def upt_rec)

lemma wf_makeFields:
  "FlatFields b = fst makeFields \<Longrightarrow> Fields b = snd makeFields \<Longrightarrow> wf_board b"
  by (simp add: wf_board_def length_makeFields map_snd_makeFields sum_row_lengths)
    (simp add: makeFields_def)

lemma fields_makeFields: "f \<in> set (fst makeFields) \<Longrightarrow> f = zeroField"
  by (simp add: makeFields_def)

lemma NewBoard_sel [simp]:
  "Turn NewBoard = 1" "Move NewBoard = 0" "LastRevealed NewBoard = 0"
  "FlatFields NewBoard = fst makeFields" "Fields NewBoard = snd makeFields"
  "Score NewBoard = []" "Resources NewBoard = []" "State NewBoard = Initial"
  by (simp_all add: NewBoard_def case_prod_beta)

lemma wf_NewBoard [simp]: "wf_board NewBoard"
  by (rule wf_makeFields) simp_all

text \<open>\<open>copy\<close> rebuilds the row slices over a fresh array; for a well-formed board they are the same.\<close>

lemma copyBoard_id: "wf_board b \<Longrightarrow> copyBoard b = b"
  by (simp add: copyBoard_def copyFields_def wf_board_def)

end
