(* ===== verification/Engine.thy ===== *)
theory Engine
  imports Board
begin

text \<open>
  The parts of \<open>hexz/engine.go\<close> every game shares: the players' views of a board
  (\<open>ViewFor\<close>), the winner by score, the game types, and the two interfaces
  \<open>GameEngine\<close> and \<open>SinglePlayerGameEngine\<close>.

  The interfaces are locales. \<open>game_engine\<close> states what the game master relies on for every
  engine: a move never panics, keeps the engine's invariant, and a refused move leaves the engine
  as it was. \<open>single_player_engine\<close> adds what the Monte Carlo search relies on: while a game is
  not done a random move exists, is accepted, and brings the game closer to its end. The three
  engines interpret them in their own theories.
\<close>

section \<open>Views\<close>

record board_view =
  vTurn :: int
  vMove :: int
  vFields :: "field list list"
  vPlayerNames :: "string list"
  vScore :: "int list"
  vResources :: "resource_info list"
  vState :: game_state

text \<open>The rows that slice headers cut out of a backing array.\<close>

definition rowsOf :: "field list \<Rightarrow> slice list \<Rightarrow> field list list" where
  "rowsOf flt flds = map (\<lambda>(s, n). take n (drop s flt)) flds"

definition hideField :: "int \<Rightarrow> field \<Rightarrow> field" where
  "hideField p f = (if Owner f \<noteq> p \<and> Hidden f then zeroField else f)"

definition ViewFor :: "board \<Rightarrow> int \<Rightarrow> board_view" where
  "ViewFor b p =
    (let score = Score b;
         resources = map (\<lambda>r. \<lparr>NumPieces = NumPieces r\<rparr>) (Resources b);
         (flt, flds) = copyFields b;
         flt' = (if p > 0 then map (hideField p) flt else flt)
     in \<lparr>vTurn = Turn b, vMove = Move b, vFields = rowsOf flt' flds, vPlayerNames = [],
          vScore = score, vResources = resources, vState = State b\<rparr>)"

lemma rowsOf_sliceRows: "length flt = s + sum_list ns \<Longrightarrow> concat (rowsOf flt (sliceRows s ns)) = drop s flt"
proof (induction ns arbitrary: s)
  case (Cons n ns)
  then have "concat (rowsOf flt (sliceRows (s + n) ns)) = drop (s + n) flt" by simp
  then have "concat (rowsOf flt (sliceRows s (n # ns))) = take n (drop s flt) @ drop n (drop s flt)"
    by (simp add: rowsOf_def add.commute)
  then show ?case by (simp only: append_take_drop_id)
qed (simp add: rowsOf_def)

text \<open>The cells of a view, in order: every field of the board, with the hidden ones blanked.\<close>

lemma concat_vFields:
  "wf_board b \<Longrightarrow> concat (vFields (ViewFor b p)) =
     (if p > 0 then map (hideField p) (FlatFields b) else FlatFields b)"
  using rowsOf_sliceRows[of "FlatFields b" 0 "map snd (Fields b)"]
    rowsOf_sliceRows[of "map (hideField p) (FlatFields b)" 0 "map snd (Fields b)"]
  by (simp add: ViewFor_def copyFields_def wf_board_def)

lemma ViewFor_shows_no_foreign_hidden:
  "wf_board b \<Longrightarrow> 0 < p \<Longrightarrow> f \<in> set (concat (vFields (ViewFor b p))) \<Longrightarrow> Hidden f \<Longrightarrow> Owner f = p"
  unfolding concat_vFields by (auto simp: hideField_def zeroField_def split: if_splits)

lemma ViewFor_cong:
  assumes "0 < p" "Fields b' = Fields b" "map (hideField p) (FlatFields b') = map (hideField p) (FlatFields b)"
    "Turn b' = Turn b" "Move b' = Move b" "Score b' = Score b" "Resources b' = Resources b" "State b' = State b"
  shows "ViewFor b' p = ViewFor b p"
  using assms by (simp add: ViewFor_def copyFields_def)

text \<open>What a player is shown does not depend on what the opponent has hidden: two boards that
  differ only in hidden cells of others give the same view, and no field of a view is a hidden
  one of somebody else.\<close>

theorem view_independent_of_foreign_hidden:
  assumes "wf_board b" "0 < p" "Fields b' = Fields b" "length (FlatFields b') = length (FlatFields b)"
    "\<forall>i < length (FlatFields b). FlatFields b' ! i = FlatFields b ! i \<or>
       (Hidden (FlatFields b' ! i) \<and> Owner (FlatFields b' ! i) \<noteq> p \<and>
        Hidden (FlatFields b ! i) \<and> Owner (FlatFields b ! i) \<noteq> p)"
    "Turn b' = Turn b" "Move b' = Move b" "Score b' = Score b" "Resources b' = Resources b" "State b' = State b"
  shows "ViewFor b' p = ViewFor b p \<and>
    (\<forall>row \<in> set (vFields (ViewFor b p)). \<forall>f \<in> set row. Hidden f \<longrightarrow> Owner f = p)"
proof
  have "map (hideField p) (FlatFields b') = map (hideField p) (FlatFields b)"
    using assms(4,5) by (intro nth_equalityI) (auto simp: hideField_def)
  then show "ViewFor b' p = ViewFor b p" by (intro ViewFor_cong) (use assms in simp_all)
  show "\<forall>row \<in> set (vFields (ViewFor b p)). \<forall>f \<in> set row. Hidden f \<longrightarrow> Owner f = p"
    using ViewFor_shows_no_foreign_hidden[OF assms(1,2)] by auto
qed

definition hiddenBoard :: "cell_type \<Rightarrow> board" where
  "hiddenBoard ct = NewBoard\<lparr>Fields := [(0, 2)],
     FlatFields := [zeroField, zeroField\<lparr>Type := ct, Owner := 2, Hidden := True\<rparr>]\<rparr>"

theorem view_independent_of_foreign_hidden_witness:
  "ViewFor (hiddenBoard CellFlag) 1 = ViewFor (hiddenBoard CellPest) 1"
  using view_independent_of_foreign_hidden[of "hiddenBoard CellPest" 1 "hiddenBoard CellFlag"]
  by (simp add: hiddenBoard_def wf_board_def less_Suc_eq numeral_2_eq_2)

section \<open>The winner by score\<close>

text \<open>The loop of \<open>scoreBasedSingleWinner\<close>, its three variables as a triple.\<close>

fun winnerLoop :: "int \<Rightarrow> int list \<Rightarrow> int \<times> int \<times> bool \<Rightarrow> int \<times> int \<times> bool" where
  "winnerLoop i [] st = st"
| "winnerLoop i (s # ss) (maxIdx, maxScore, uniq) =
     winnerLoop (i + 1) ss
       (if s > maxScore then (i, s, True)
        else if s = maxScore then (maxIdx, maxScore, False)
        else (maxIdx, maxScore, uniq))"

definition scoreBasedSingleWinner :: "int list \<Rightarrow> int" where
  "scoreBasedSingleWinner score =
    (case winnerLoop 0 score (-1, -1, False) of
       (maxIdx, _, uniq) \<Rightarrow> if uniq then maxIdx + 1 else 0)"

text \<open>
  The variables after a prefix \<open>xs\<close>: \<open>maxScore\<close> is the maximum so far (or the initial \<open>-1\<close>),
  and \<open>uniq\<close> says that exactly one position holds it, which is then \<open>maxIdx\<close>.
\<close>

definition winner_inv :: "int list \<Rightarrow> int \<times> int \<times> bool \<Rightarrow> bool" where
  "winner_inv xs st \<longleftrightarrow> (case st of (mi, ms, u) \<Rightarrow>
     (\<forall>x \<in> set xs. x \<le> ms) \<and>
     (if u then 0 \<le> ms \<and> 0 \<le> mi \<and> mi < int (length xs) \<and> xs ! nat mi = ms \<and> cnt (\<lambda>x. x = ms) xs = 1
      else ms = -1 \<or> 0 \<le> ms \<and> 2 \<le> cnt (\<lambda>x. x = ms) xs))"

lemma winner_inv_step:
  assumes inv: "winner_inv xs (mi, ms, u)"
  shows "winner_inv (xs @ [s])
    (if s > ms then (int (length xs), s, True) else if s = ms then (mi, ms, False) else (mi, ms, u))"
proof -
  from inv have le: "\<forall>x \<in> set xs. x \<le> ms" and ms: "-1 \<le> ms" by (auto simp: winner_inv_def split: if_splits)
  consider "s > ms" | "s = ms" | "s < ms" by linarith
  then show ?thesis
  proof cases
    case 1
    then have "cnt (\<lambda>x. x = s) xs = 0" using le by (auto simp: cnt_zero_iff)
    with 1 le ms show ?thesis by (auto simp: winner_inv_def cnt_simps)
  next
    case 2
    with inv show ?thesis by (auto simp: winner_inv_def cnt_simps split: if_splits)
  next
    case 3
    with inv show ?thesis by (auto simp: winner_inv_def cnt_simps nth_append split: if_splits)
  qed
qed

lemma winner_inv_loop:
  "winner_inv xs st \<Longrightarrow> winner_inv (xs @ ys) (winnerLoop (int (length xs)) ys st)"
proof (induction ys arbitrary: xs st)
  case (Cons y ys)
  obtain mi ms u where st: "st = (mi, ms, u)" by (cases st)
  from winner_inv_step[OF Cons.prems[unfolded st], of y] Cons.IH[of "xs @ [y]"] show ?case
    by (simp add: st add.commute)
qed simp

text \<open>
  For scores that are not negative the result is \<open>i + 1\<close> exactly when position \<open>i\<close> is strictly
  above every other one; without such a position it is 0, a draw.
\<close>

lemma scoreBasedSingleWinner_iff:
  assumes nonneg: "\<forall>s \<in> set score. 0 \<le> s"
  shows "scoreBasedSingleWinner score = int i + 1 \<longleftrightarrow>
    i < length score \<and> (\<forall>j < length score. j \<noteq> i \<longrightarrow> score ! j < score ! i)"
proof -
  obtain mi ms u where st: "winnerLoop 0 score (-1, -1, False) = (mi, ms, u)"
    by (metis prod_cases3)
  have "winner_inv [] (-1, -1, False)" by (simp add: winner_inv_def)
  from winner_inv_loop[OF this, of score] st have inv: "winner_inv score (mi, ms, u)" by simp
  then have le: "\<And>j. j < length score \<Longrightarrow> score ! j \<le> ms" by (auto simp: winner_inv_def)
  show ?thesis
  proof (cases u)
    case True
    with inv have mi: "0 \<le> mi" "nat mi < length score" "score ! nat mi = ms"
      and one: "cnt (\<lambda>x. x = ms) score = 1"
      by (auto simp: winner_inv_def)
    have uniq: "j = nat mi" if "j < length score" "score ! j = ms" for j
      using cnt_two_iff[OF mi(2), of "\<lambda>x. x = ms"] mi(3) one that by auto
    have res: "scoreBasedSingleWinner score = mi + 1" using st True by (simp add: scoreBasedSingleWinner_def)
    have less: "score ! j < ms" if "j < length score" "j \<noteq> nat mi" for j
      using le[OF that(1)] uniq[OF that(1)] that(2) by force
    show ?thesis
    proof
      assume "scoreBasedSingleWinner score = int i + 1"
      with res have "i = nat mi" by simp
      with mi less show "i < length score \<and> (\<forall>j < length score. j \<noteq> i \<longrightarrow> score ! j < score ! i)" by simp
    next
      assume max: "i < length score \<and> (\<forall>j < length score. j \<noteq> i \<longrightarrow> score ! j < score ! i)"
      have "i = nat mi"
      proof (rule ccontr)
        assume "i \<noteq> nat mi"
        with max mi(2) have "score ! nat mi < score ! i" by auto
        with mi(3) le[of i] max show False by simp
      qed
      with res mi(1) show "scoreBasedSingleWinner score = int i + 1" by simp
    qed
  next
    case False
    have res: "scoreBasedSingleWinner score = 0" using st False by (simp add: scoreBasedSingleWinner_def)
    have "\<not> (i < length score \<and> (\<forall>j < length score. j \<noteq> i \<longrightarrow> score ! j < score ! i))"
    proof
      assume max: "i < length score \<and> (\<forall>j < length score. j \<noteq> i \<longrightarrow> score ! j < score ! i)"
      then have "0 \<le> score ! i" using nonneg by simp
      with max le[of i] have "ms \<noteq> -1" by auto
      with inv False have two: "2 \<le> cnt (\<lambda>x. x = ms) score" by (auto simp: winner_inv_def)
      then obtain a where a: "a < length score" "score ! a = ms"
        using cnt_pos_iff[of "\<lambda>x. x = ms" score] by (auto simp: in_set_conv_nth)
      with two obtain k where "k < length score" "k \<noteq> i" "score ! k = ms"
        using cnt_two_iff[OF a(1), of "\<lambda>x. x = ms"] by metis
      with max le[of i] show False by force
    qed
    with res show ?thesis by simp
  qed
qed

lemma scoreBasedSingleWinner_range:
  "0 \<le> scoreBasedSingleWinner score \<and> scoreBasedSingleWinner score \<le> int (length score)"
proof -
  obtain mi ms u where st: "winnerLoop 0 score (-1, -1, False) = (mi, ms, u)"
    by (metis prod_cases3)
  have "winner_inv [] (-1, -1, False)" by (simp add: winner_inv_def)
  from winner_inv_loop[OF this, of score] st have "winner_inv score (mi, ms, u)" by simp
  with st show ?thesis by (auto simp: scoreBasedSingleWinner_def winner_inv_def)
qed

lemma scoreBasedSingleWinner_two [simp]:
  "0 \<le> a \<Longrightarrow> 0 \<le> b \<Longrightarrow> scoreBasedSingleWinner [a, b] = (if a > b then 1 else if b > a then 2 else 0)"
  by (simp add: scoreBasedSingleWinner_def)

text \<open>The winner by score is player \<open>i + 1\<close> exactly when the score at position \<open>i\<close> is
  strictly above every other one; otherwise, on a draw, it is 0.\<close>

theorem winner_is_strict_maximum:
  assumes "\<forall>s \<in> set score. 0 \<le> s"
  shows "(scoreBasedSingleWinner score = int i + 1 \<longleftrightarrow>
      i < length score \<and> (\<forall>j < length score. j \<noteq> i \<longrightarrow> score ! j < score ! i)) \<and>
    0 \<le> scoreBasedSingleWinner score \<and> scoreBasedSingleWinner score \<le> int (length score)"
  using scoreBasedSingleWinner_iff[OF assms] scoreBasedSingleWinner_range by blast

theorem winner_is_strict_maximum_witness: "scoreBasedSingleWinner [3, 7, 5] = 2"
proof -
  have "scoreBasedSingleWinner [3, 7, 5] = int 1 + 1 \<longleftrightarrow>
      1 < length [3, 7, 5::int] \<and> (\<forall>j < length [3, 7, 5::int]. j \<noteq> 1 \<longrightarrow> [3, 7, 5::int] ! j < [3, 7, 5] ! 1)"
    using winner_is_strict_maximum[of "[3, 7, 5]" 1] by simp
  moreover have "\<forall>j < length [3, 7, 5::int]. j \<noteq> 1 \<longrightarrow> [3, 7, 5::int] ! j < [3, 7, 5] ! 1"
    by (simp add: All_less_Suc numeral_3_eq_3)
  ultimately show ?thesis by simp
qed

section \<open>Game types\<close>

definition validGameType :: "string \<Rightarrow> bool" where
  "validGameType gameType =
    (gameType \<in> set (map game_type_name [GameTypeClassic, GameTypeFlagz, GameTypeFreeform]))"

definition supportsSinglePlayer :: "game_type \<Rightarrow> bool" where
  "supportsSinglePlayer t = (t = GameTypeFlagz)"

lemma validGameType_iff: "validGameType s \<longleftrightarrow> (\<exists>t. s = game_type_name t)"
proof
  assume "\<exists>t. s = game_type_name t"
  then obtain t where "s = game_type_name t" ..
  then show "validGameType s" by (cases t) (simp_all add: validGameType_def)
next
  assume "validGameType s"
  then show "\<exists>t. s = game_type_name t"
    unfolding validGameType_def by (metis (no_types, lifting) imageE set_map)
qed

section \<open>The engine interfaces\<close>

locale game_engine =
  fixes reset :: "'e \<Rightarrow> 'e option"
    and num_players :: "'e \<Rightarrow> int"
    and make_move :: "'e \<Rightarrow> game_engine_move \<Rightarrow> ('e \<times> bool) option"
    and board_of :: "'e \<Rightarrow> board"
    and is_done :: "'e \<Rightarrow> bool"
    and winner :: "'e \<Rightarrow> int"
    and inv :: "'e \<Rightarrow> bool"
  assumes inv_board: "inv e \<Longrightarrow> wf_board (board_of e)"
    and inv_reset: "inv e \<Longrightarrow> \<exists>e'. reset e = Some e' \<and> inv e' \<and> num_players e' = num_players e"
    and inv_move: "inv e \<Longrightarrow> \<exists>e' ok. make_move e m = Some (e', ok) \<and> inv e' \<and>
                      num_players e' = num_players e \<and> (\<not> ok \<longrightarrow> e' = e)"
    and winner_range: "inv e \<Longrightarrow> 0 \<le> winner e \<and> winner e \<le> num_players e"
    and winner_done: "winner e \<noteq> 0 \<Longrightarrow> is_done e"
    and players_pos: "1 \<le> num_players e"
begin

lemma move_total: "inv e \<Longrightarrow> make_move e m \<noteq> None"
  using inv_move[of e m] by auto

lemma move_inv: "inv e \<Longrightarrow> make_move e m = Some (e', ok) \<Longrightarrow> inv e'"
  using inv_move[of e m] by auto

lemma refused_same: "inv e \<Longrightarrow> make_move e m = Some (e', False) \<Longrightarrow> e' = e"
  using inv_move[of e m] by auto

text \<open>Any sequence of moves, accepted or not, runs to its end.\<close>

lemma moves_total: "inv e \<Longrightarrow> \<exists>e'. foldM (\<lambda>m e. map_option fst (make_move e m)) ms e = Some e' \<and> inv e'"
proof (rule foldM_rule)
  fix m t
  assume "inv t"
  then show "\<exists>u. map_option fst (make_move t m) = Some u \<and> inv u" using inv_move[of t m] by auto
qed

end

text \<open>
  \<open>RandomMove\<close> also returns the engine, whose source of randomness it advances. \<open>live\<close> is the
  precondition under which the search calls it, \<open>rest\<close> bounds the number of moves left.
\<close>

locale single_player_engine = game_engine +
  fixes random_move :: "'a \<Rightarrow> ((string + game_engine_move) \<times> 'a) option"
    and rest :: "'a \<Rightarrow> nat"
  assumes random_legal: "inv e \<Longrightarrow> \<not> is_done e \<Longrightarrow>
      \<exists>m e1 e2. random_move e = Some (Inr m, e1) \<and> make_move e1 m = Some (e2, True) \<and>
                inv e2 \<and> rest e2 < rest e"
    and move_rest: "inv e \<Longrightarrow> make_move e m = Some (e', True) \<Longrightarrow> rest e' < rest e"

end
