(* ===== verification/Flagz.thy ===== *)
theory Flagz
  imports Engine
begin

text \<open>
  The Flagz engine, \<open>hexz/flagz.go\<close>: its state, the set-up of a game, the moves and the random
  player. Every read and write of an array or of the board is a checked one, and \<open>None\<close> is a
  panic. \<open>updateNeighborCells\<close> recurses along captured grass cells; the model's first argument
  bounds the depth of that recursion (running out of it is \<open>None\<close> too, a stack that
  overflows), and \<open>MakeMove\<close> starts it with one more than the number of cells. The theory
  \<open>FlagzInv\<close> shows that neither kind of \<open>None\<close> occurs.
\<close>

section \<open>State\<close>

record flagz =
  Brd :: board
  FreeCells :: int
  NormalMoves :: "int arr2"
  rnd :: rng

definition flagzNumRockCells :: int where
  "flagzNumRockCells = 15"

definition flagzNumGrassCells :: int where
  "flagzNumGrassCells = 5"

definition flagzMaxValue :: int where
  "flagzMaxValue = 5"

section \<open>Setting up a game\<close>

text \<open>
  The two placement loops of \<open>PopulateInitialCells\<close>. The first argument is \<open>n - j\<close>, the
  attempts the safeguard \<open>j < n\<close> still allows.
\<close>

fun placeRocks :: "nat \<Rightarrow> int \<Rightarrow> field list \<Rightarrow> rng \<Rightarrow> (field list \<times> rng) option" where
  "placeRocks 0 i fs s = Some (fs, s)"
| "placeRocks (Suc j) i fs s =
    (if i < flagzNumRockCells then do {
       (k, s) \<leftarrow> Intn (int (length fs)) s;
       f \<leftarrow> idx_list fs k;
       if \<not> occupied f then do {
         fs \<leftarrow> upd_list fs k (f\<lparr>Type := CellRock, Lifetime := -1\<rparr>);
         placeRocks j (i + 1) fs s
       } else placeRocks j i fs s
     } else Some (fs, s))"

fun placeGrass :: "nat \<Rightarrow> int \<Rightarrow> field list \<Rightarrow> rng \<Rightarrow> (field list \<times> rng) option" where
  "placeGrass 0 v fs s = Some (fs, s)"
| "placeGrass (Suc j) v fs s =
    (if v < flagzNumGrassCells then do {
       (k, s) \<leftarrow> Intn (int (length fs)) s;
       f \<leftarrow> idx_list fs k;
       if \<not> occupied f then do {
         fs \<leftarrow> upd_list fs k (f\<lparr>Type := CellGrass, Lifetime := -1, Value := v + 1\<rparr>);
         placeGrass j (v + 1) fs s
       } else placeGrass j v fs s
     } else Some (fs, s))"

definition countFree :: "field list \<Rightarrow> int" where
  "countFree fs = fold (\<lambda>f n. if \<not> occupied f then n + 1 else n) fs 0"

definition PopulateInitialCells :: "flagz \<Rightarrow> flagz option" where
  "PopulateInitialCells g =
    (let n = length (FlatFields (Brd g)) in do {
       (fs, s) \<leftarrow> placeRocks n 0 (FlatFields (Brd g)) (rnd g);
       (fs, s) \<leftarrow> placeGrass n 0 fs s;
       Some (g\<lparr>Brd := (Brd g)\<lparr>FlatFields := fs\<rparr>, FreeCells := countFree fs,
               NormalMoves := Arr2 0 0, rnd := s\<rparr>)
     })"

definition InitializeResources :: "flagz \<Rightarrow> flagz" where
  "InitializeResources g =
    (let ps = noPieces(CellNormal := -1, CellFlag := 3)
     in g\<lparr>Brd := (Brd g)\<lparr>Resources := replicate 2 \<lparr>NumPieces = ps\<rparr>\<rparr>\<rparr>)"

definition Flagz_NumPlayers :: "flagz \<Rightarrow> int" where
  "Flagz_NumPlayers g = 2"

definition Flagz_Reset :: "flagz \<Rightarrow> flagz option" where
  "Flagz_Reset g =
    (let g = g\<lparr>Brd := NewBoard\<lparr>Score := replicate 2 0\<rparr>\<rparr>;
         g = InitializeResources g
     in do {
       g \<leftarrow> PopulateInitialCells g;
       Some (g\<lparr>Brd := (Brd g)\<lparr>State := Running\<rparr>\<rparr>)
     })"

text \<open>
  \<open>NewGameEngineFlagz\<close> resets an engine whose other fields are zero; \<open>B\<close> is \<open>nil\<close> there,
  which \<open>Reset\<close> overwrites before anything reads it, so the board given here is not observable.
\<close>

definition NewGameEngineFlagz :: "rng \<Rightarrow> flagz option" where
  "NewGameEngineFlagz src =
    Flagz_Reset \<lparr>Brd = NewBoard, FreeCells = 0, NormalMoves = Arr2 0 0, rnd = src\<rparr>"

section \<open>Moves\<close>

text \<open>
  \<open>g.NormalMoves[p] > 0 || (g.FreeCells > 0 && b.Resources[p].NumPieces[cellFlag] > 0)\<close>, which
  \<open>recomputeState\<close> computes for both players; \<open>||\<close> and \<open>&&\<close> do not evaluate what they skip.
\<close>

definition canMove :: "flagz \<Rightarrow> int \<Rightarrow> bool option" where
  "canMove g p = do {
     nm \<leftarrow> get2 (NormalMoves g) p;
     if nm > 0 then Some True
     else if FreeCells g > 0 then do {
       r \<leftarrow> idx_list (Resources (Brd g)) p;
       Some (NumPieces r CellFlag > 0)
     } else Some False
   }"

definition recomputeState :: "flagz \<Rightarrow> flagz option" where
  "recomputeState g = do {
     canMove1 \<leftarrow> canMove g 0;
     canMove2 \<leftarrow> canMove g 1;
     let turn = (if \<not> canMove1 \<and> canMove2 then 2
                 else if canMove1 \<and> \<not> canMove2 then 1 else Turn (Brd g));
     over \<leftarrow> (if FreeCells g = 0 \<or> \<not> (canMove1 \<or> canMove2) then Some True
             else do {
               s0 \<leftarrow> idx_list (Score (Brd g)) 0;
               s1 \<leftarrow> idx_list (Score (Brd g)) 1;
               Some ((s0 > s1 \<and> \<not> canMove2) \<or> (s1 > s0 \<and> \<not> canMove1))
             });
     Some (g\<lparr>Brd := (Brd g)\<lparr>Turn := turn,
                             State := (if over then Finished else State (Brd g))\<rparr>\<rparr>)
   }"

fun Flagz_lifetime :: "cell_type \<Rightarrow> int" where
  "Flagz_lifetime CellNormal = -1"
| "Flagz_lifetime CellFlag = -1"
| "Flagz_lifetime _ = 0"

text \<open>\<open>g.NormalMoves[p] += d\<close>\<close>

definition addMoves :: "flagz \<Rightarrow> int \<Rightarrow> int \<Rightarrow> flagz option" where
  "addMoves g p d = do {
     n \<leftarrow> get2 (NormalMoves g) p;
     nm \<leftarrow> set2 (NormalMoves g) p (n + d);
     Some (g\<lparr>NormalMoves := nm\<rparr>)
   }"

text \<open>\<open>b.Score[p] += d\<close>\<close>

definition addScore :: "flagz \<Rightarrow> int \<Rightarrow> int \<Rightarrow> flagz option" where
  "addScore g p d = do {
     s \<leftarrow> idx_list (Score (Brd g)) p;
     sc \<leftarrow> upd_list (Score (Brd g)) p (s + d);
     Some (g\<lparr>Brd := (Brd g)\<lparr>Score := sc\<rparr>\<rparr>)
   }"

definition putField :: "flagz \<Rightarrow> idx \<Rightarrow> field \<Rightarrow> flagz option" where
  "putField g x f = do { b \<leftarrow> setField (Brd g) x f; Some (g\<lparr>Brd := b\<rparr>) }"

text \<open>
  One iteration of the loop in \<open>updateNeighborCells\<close>: \<open>x\<close> is the cell whose neighbors are
  updated, \<open>y\<close> the neighbor, \<open>recur\<close> the recursive call. \<open>f\<close> and \<open>nb\<close> are pointers in the
  source, so both are read from the board of this iteration.
\<close>

definition updateNeighbor ::
  "(flagz \<Rightarrow> idx \<Rightarrow> flagz option) \<Rightarrow> idx \<Rightarrow> int \<Rightarrow> idx \<Rightarrow> flagz \<Rightarrow> flagz option" where
  "updateNeighbor recur x pIdx y g = do {
     f \<leftarrow> getField (Brd g) x;
     nb \<leftarrow> getField (Brd g) y;
     if \<not> occupied nb then do {
       nv \<leftarrow> get2 (NextVal nb) pIdx;
       if Value f = flagzMaxValue then do {
         g \<leftarrow> (if nv > 0 then addMoves g pIdx (-1) else Some g);
         bl \<leftarrow> set2 (Blocked nb) pIdx True;
         nvs \<leftarrow> set2 (NextVal nb) pIdx (-1);
         putField g y (nb\<lparr>Blocked := bl, NextVal := nvs\<rparr>)
       } else if nv = 0 then do {
         g \<leftarrow> addMoves g pIdx 1;
         nvs \<leftarrow> set2 (NextVal nb) pIdx (Value f + 1);
         putField g y (nb\<lparr>NextVal := nvs\<rparr>)
       } else if nv > Value f + 1 then do {
         nvs \<leftarrow> set2 (NextVal nb) pIdx (Value f + 1);
         putField g y (nb\<lparr>NextVal := nvs\<rparr>)
       } else Some g
     } else if Type nb = CellGrass \<and> Value nb \<le> Value f then do {
       g \<leftarrow> putField g y (nb\<lparr>Type := CellNormal, Owner := Owner f\<rparr>);
       g \<leftarrow> addScore g pIdx (Value nb);
       recur g y
     } else Some g
   }"

primrec updateNeighborCells :: "nat \<Rightarrow> flagz \<Rightarrow> idx \<Rightarrow> flagz option" where
  "updateNeighborCells 0 g x = None"
| "updateNeighborCells (Suc n) g x = do {
     f \<leftarrow> getField (Brd g) x;
     if Owner f = 0 then Some g
     else foldM (updateNeighbor (updateNeighborCells n) x (Owner f - 1)) (neighbors (Brd g) x) g
   }"

definition depthBound :: "flagz \<Rightarrow> nat" where
  "depthBound g = Suc (length (FlatFields (Brd g)))"

text \<open>The part of \<open>MakeMove\<close> that places a normal cell on the free field \<open>f\<close> at \<open>x\<close>.\<close>

definition placeNormal :: "flagz \<Rightarrow> idx \<Rightarrow> field \<Rightarrow> int \<Rightarrow> flagz option" where
  "placeNormal g x f val = (let turn = Turn (Brd g); pIdx = turn - 1 in do {
     g \<leftarrow> putField g x (f\<lparr>Owner := turn, Type := CellNormal, Lifetime := Flagz_lifetime CellNormal,
                             Hidden := False, Value := val\<rparr>);
     g \<leftarrow> addScore g pIdx val;
     let g = g\<lparr>FreeCells := FreeCells g - 1\<rparr>;
     g \<leftarrow> addMoves g pIdx (-1);
     ov \<leftarrow> get2 (NextVal f) (1 - pIdx);
     g \<leftarrow> (if ov > 0 then addMoves g (1 - pIdx) (-1) else Some g);
     updateNeighborCells (depthBound g) g x
   })"

text \<open>\<open>b.Resources[p].NumPieces[ct]--\<close>\<close>

definition decPiece :: "board \<Rightarrow> int \<Rightarrow> cell_type \<Rightarrow> board option" where
  "decPiece b p ct = do {
     r \<leftarrow> idx_list (Resources b) p;
     rs \<leftarrow> upd_list (Resources b) p \<lparr>NumPieces = (NumPieces r)(ct := NumPieces r ct - 1)\<rparr>;
     Some (b\<lparr>Resources := rs\<rparr>)
   }"

text \<open>The part of \<open>MakeMove\<close> that places a flag on the free field \<open>f\<close> at \<open>x\<close>.\<close>

definition placeFlag :: "flagz \<Rightarrow> idx \<Rightarrow> field \<Rightarrow> flagz option" where
  "placeFlag g x f = (let turn = Turn (Brd g); pIdx = turn - 1 in do {
     g \<leftarrow> putField g x (f\<lparr>Owner := turn, Type := CellFlag, Lifetime := Flagz_lifetime CellFlag,
                             Hidden := False, Value := 0\<rparr>);
     b \<leftarrow> decPiece (Brd g) (turn - 1) CellFlag;
     let g = g\<lparr>Brd := b, FreeCells := FreeCells g - 1\<rparr>;
     v \<leftarrow> get2 (NextVal f) pIdx;
     g \<leftarrow> (if v > 0 then addMoves g pIdx (-1) else Some g);
     ov \<leftarrow> get2 (NextVal f) (1 - pIdx);
     g \<leftarrow> (if ov > 0 then addMoves g (1 - pIdx) (-1) else Some g);
     updateNeighborCells (depthBound g) g x
   })"

text \<open>The end of an accepted move.\<close>

definition endMove :: "flagz \<Rightarrow> (flagz \<times> bool) option" where
  "endMove g = do {
     let g = g\<lparr>Brd := (Brd g)\<lparr>Turn := 3 - Turn (Brd g), Move := Move (Brd g) + 1\<rparr>\<rparr>;
     g \<leftarrow> recomputeState g;
     Some (g, True)
   }"

definition Flagz_MakeMove :: "flagz \<Rightarrow> game_engine_move \<Rightarrow> (flagz \<times> bool) option" where
  "Flagz_MakeMove g m =
    (let b = Brd g; turn = Turn b; pIdx = turn - 1; x = Idx (mvRow m) (mvCol m) in
     if mvPlayer m \<noteq> turn \<or> mvMove m \<noteq> Move b then Some (g, False)
     else if \<not> valid b x then Some (g, False)
     else do {
       f \<leftarrow> getField b x;
       if occupied f then Some (g, False)
       else do {
         r \<leftarrow> idx_list (Resources b) pIdx;
         if NumPieces r (mvType m) = 0 then Some (g, False)
         else if mvType m = CellNormal then do {
           val \<leftarrow> get2 (NextVal f) pIdx;
           if val \<le> 0 then Some (g, False)
           else do { g \<leftarrow> placeNormal g x f val; endMove g }
         } else if mvType m = CellFlag then do {
           g \<leftarrow> placeFlag g x f;
           endMove g
         } else Some (g, False)
       }
     })"

definition Flagz_Clone :: "flagz \<Rightarrow> rng \<Rightarrow> flagz" where
  "Flagz_Clone g s = \<lparr>Brd = copyBoard (Brd g), FreeCells = FreeCells g,
                      NormalMoves = NormalMoves g, rnd = s\<rparr>"

definition Flagz_IsDone :: "flagz \<Rightarrow> bool" where
  "Flagz_IsDone g = (State (Brd g) = Finished)"

definition Flagz_Winner :: "flagz \<Rightarrow> int" where
  "Flagz_Winner g = (if \<not> Flagz_IsDone g then 0 else scoreBasedSingleWinner (Score (Brd g)))"

section \<open>The random player\<close>

text \<open>
  The two search loops: the index of the \<open>nth\<close> unoccupied cell, and of the \<open>nth\<close> one the player
  can take. The inner \<open>None\<close> is the end of the loop without a hit, after which the source panics.
\<close>

fun nthFree :: "board \<Rightarrow> idx list \<Rightarrow> int \<Rightarrow> int \<Rightarrow> idx option option" where
  "nthFree b [] n k = Some None"
| "nthFree b (x # xs) n k = do {
     f \<leftarrow> getField b x;
     if \<not> occupied f then (if n = k then Some (Some x) else nthFree b xs (n + 1) k)
     else nthFree b xs n k
   }"

fun nthAvail :: "board \<Rightarrow> idx list \<Rightarrow> int \<Rightarrow> int \<Rightarrow> idx option option" where
  "nthAvail b [] n k = Some None"
| "nthAvail b (x # xs) n k = do {
     f \<leftarrow> getField b x;
     av \<leftarrow> (if \<not> occupied f then isAvail f (Turn b) else Some False);
     if av then (if n = k then Some (Some x) else nthAvail b xs (n + 1) k)
     else nthAvail b xs n k
   }"

definition moveAt :: "board \<Rightarrow> cell_type \<Rightarrow> idx \<Rightarrow> game_engine_move" where
  "moveAt b ct x = \<lparr>mvPlayer = Turn b, mvMove = Move b, mvRow = row_of x, mvCol = col_of x, mvType = ct\<rparr>"

text \<open>\<open>panic("no legal move found")\<close> when the search loop falls through.\<close>

definition found :: "board \<Rightarrow> cell_type \<Rightarrow> idx option \<Rightarrow> game_engine_move option" where
  "found b ct r = (case r of None \<Rightarrow> None | Some x \<Rightarrow> Some (moveAt b ct x))"

definition RandomMove :: "flagz \<Rightarrow> ((string + game_engine_move) \<times> flagz) option" where
  "RandomMove g =
    (if State (Brd g) \<noteq> Running then Some (Inl ''game is not running'', g)
     else let b = Brd g; pIdx = Turn b - 1 in do {
       nMoves \<leftarrow> get2 (NormalMoves g) pIdx;
       r \<leftarrow> idx_list (Resources b) pIdx;
       let flagsLeft = NumPieces r CellFlag > 0;
       let (pickFlag, s) =
         (if FreeCells g > 0 \<and> flagsLeft then
            (if nMoves = 0 then (True, rnd g)
             else let (u, s) = Float64 (rnd g) in (u \<le> 1 / of_int (nMoves + 1), s))
          else (False, rnd g));
       if pickFlag then do {
         (k, s) \<leftarrow> Intn (FreeCells g) s;
         r \<leftarrow> nthFree b (allIdx b) 0 k;
         m \<leftarrow> found b CellFlag r;
         Some (Inr m, g\<lparr>rnd := s\<rparr>)
       } else do {
         (k, s) \<leftarrow> Intn nMoves s;
         r \<leftarrow> nthAvail b (allIdx b) 0 k;
         m \<leftarrow> found b CellNormal r;
         Some (Inr m, g\<lparr>rnd := s\<rparr>)
       }
     })"

end
