(* ===== verification/FlagzInv.thy ===== *)
theory FlagzInv
  imports Flagz
begin

text \<open>
  The invariant of the Flagz engine and its preservation by \<open>updateNeighborCells\<close>.

  \<^item> \<open>flagz_core\<close>: the cells are in range, and the three incremental summaries agree with the
    board: \<open>FreeCells\<close> counts the unoccupied cells, \<open>NormalMoves[p]\<close> the unoccupied cells player
    \<open>p\<close> can take, and \<open>Score[p]\<close> is the sum of the values of the cells \<open>p\<close> owns.
  \<^item> \<open>flagz_edges E\<close>: the cached \<open>NextVal\<close> of every unoccupied cell is what the rules say for the
    owned neighbors whose edge to the cell has been processed. \<open>E\<close> is the set of processed edges,
    a ghost variable of the proof: between moves it holds every edge out of an owned cell
    (\<open>pend\<close>, the owned cells with an unprocessed edge, is empty), and then \<open>NextVal\<close> is the
    declarative \<open>nextValSpec\<close>, and no grass cell remains that an owned neighbor should have taken.

  \<open>updateNeighborCells_ok\<close> is the total-correctness statement for the recursion: with a depth
  bound above the number of grass cells it returns, keeps both invariants, and processes every
  edge of the cell it started from and of every cell it captured.
\<close>

section \<open>Invariants\<close>

abbreviation free :: "field \<Rightarrow> bool" where
  "free f \<equiv> \<not> occupied f"

definition avail :: "int \<Rightarrow> field \<Rightarrow> bool" where
  "avail p f \<longleftrightarrow> free f \<and> at2 (NextVal f) p > 0"

definition isGrass :: "field \<Rightarrow> bool" where
  "isGrass f \<longleftrightarrow> Type f = CellGrass"

definition ownedVal :: "int \<Rightarrow> field \<Rightarrow> int" where
  "ownedVal p f = (if Owner f = p + 1 then Value f else 0)"

definition cache_ok :: "int \<Rightarrow> field \<Rightarrow> bool" where
  "cache_ok p f \<longleftrightarrow> -1 \<le> at2 (NextVal f) p \<and> at2 (NextVal f) p \<le> 5 \<and>
                   (at2 (Blocked f) p \<longleftrightarrow> at2 (NextVal f) p = -1)"

definition field_ok :: "field \<Rightarrow> bool" where
  "field_ok f \<longleftrightarrow> (Owner f = 0 \<or> Owner f = 1 \<or> Owner f = 2) \<and> 0 \<le> Value f \<and> Value f \<le> 5 \<and>
     cache_ok 0 f \<and> cache_ok 1 f \<and> \<not> Hidden f \<and>
     (case Type f of CellNormal \<Rightarrow> True | CellFlag \<Rightarrow> Owner f \<noteq> 0
        | CellGrass \<Rightarrow> Owner f = 0 | CellRock \<Rightarrow> Owner f = 0 | _ \<Rightarrow> False)"

definition flagz_core :: "flagz \<Rightarrow> bool" where
  "flagz_core g \<longleftrightarrow> wf_board (Brd g) \<and> (\<forall>f \<in> set (FlatFields (Brd g)). field_ok f) \<and>
     length (Score (Brd g)) = 2 \<and> FreeCells g = cnt free (FlatFields (Brd g)) \<and>
     (\<forall>p. pidx p \<longrightarrow> at2 (NormalMoves g) p = cnt (avail p) (FlatFields (Brd g)) \<and>
          Score (Brd g) ! nat p = sum_list (map (ownedVal p) (FlatFields (Brd g))))"

text \<open>What the rules make a free cell worth for a player who owns neighbors with values \<open>V\<close>.\<close>

definition nextVal_of :: "int set \<Rightarrow> int" where
  "nextVal_of V = (if V = {} then 0 else if 5 \<in> V then -1 else Min V + 1)"

definition vals :: "board \<Rightarrow> (idx \<times> idx) set \<Rightarrow> idx \<Rightarrow> int \<Rightarrow> int set" where
  "vals b E y p = (\<lambda>z. Value (fld b z)) ` {z \<in> set (neighbors b y). Owner (fld b z) = p + 1 \<and> (z, y) \<in> E}"

definition edge_ok :: "board \<Rightarrow> idx \<Rightarrow> idx \<Rightarrow> bool" where
  "edge_ok b z y \<longleftrightarrow> valid b z \<and> y \<in> set (neighbors b z) \<and> Owner (fld b z) \<noteq> 0 \<and>
     (isGrass (fld b y) \<longrightarrow> Value (fld b z) < Value (fld b y))"

definition flagz_edges :: "(idx \<times> idx) set \<Rightarrow> flagz \<Rightarrow> bool" where
  "flagz_edges E g \<longleftrightarrow> (\<forall>(z, y) \<in> E. edge_ok (Brd g) z y) \<and>
     (\<forall>y p. valid (Brd g) y \<longrightarrow> free (fld (Brd g) y) \<longrightarrow> pidx p \<longrightarrow>
        at2 (NextVal (fld (Brd g) y)) p = nextVal_of (vals (Brd g) E y p))"

definition pend :: "(idx \<times> idx) set \<Rightarrow> board \<Rightarrow> idx set" where
  "pend E b = {z. valid b z \<and> Owner (fld b z) \<noteq> 0 \<and> (\<exists>y \<in> set (neighbors b z). (z, y) \<notin> E)}"

section \<open>Elementary facts\<close>

lemma coreD:
  assumes "flagz_core g"
  shows core_wf: "wf_board (Brd g)"
    and core_score: "length (Score (Brd g)) = 2"
    and core_free: "FreeCells g = cnt free (FlatFields (Brd g))"
    and core_moves: "pidx p \<Longrightarrow> at2 (NormalMoves g) p = cnt (avail p) (FlatFields (Brd g))"
    and core_sum: "pidx p \<Longrightarrow> Score (Brd g) ! nat p = sum_list (map (ownedVal p) (FlatFields (Brd g)))"
    and core_field: "valid (Brd g) x \<Longrightarrow> field_ok (fld (Brd g) x)"
  using assms by (auto simp: flagz_core_def)

lemma field_okD:
  assumes "field_ok f"
  shows "0 \<le> Value f" "Value f \<le> 5" "Owner f = 0 \<or> Owner f = 1 \<or> Owner f = 2"
    "pidx p \<Longrightarrow> cache_ok p f" "free f \<longleftrightarrow> Type f = CellNormal \<and> Owner f = 0"
    "isGrass f \<Longrightarrow> occupied f \<and> Owner f = 0"
  using assms by (auto simp: field_ok_def occupied_def isGrass_def)

lemma edgesD: "flagz_edges E g \<Longrightarrow> (z, y) \<in> E \<Longrightarrow> edge_ok (Brd g) z y"
  by (auto simp: flagz_edges_def)

lemma edges_NextVal:
  "flagz_edges E g \<Longrightarrow> valid (Brd g) y \<Longrightarrow> free (fld (Brd g) y) \<Longrightarrow> pidx p \<Longrightarrow>
   at2 (NextVal (fld (Brd g) y)) p = nextVal_of (vals (Brd g) E y p)"
  unfolding flagz_edges_def by blast

lemma edge_ok_cong:
  assumes "neighbors b' = neighbors b" "valid b' = valid b"
    "Owner (fld b' z) = Owner (fld b z)" "Value (fld b' z) = Value (fld b z)"
    "isGrass (fld b' y) \<Longrightarrow> isGrass (fld b y) \<and> Value (fld b' y) = Value (fld b y)"
  shows "edge_ok b z y \<Longrightarrow> edge_ok b' z y"
  using assms by (auto simp: edge_ok_def)

lemma edge_ok_valid: "edge_ok b z y \<Longrightarrow> valid b z \<and> valid b y"
  by (auto simp: edge_ok_def dest: neighbors_valid)

lemma vals_bounds:
  assumes "flagz_core g"
  shows "finite (vals (Brd g) E y p)" "v \<in> vals (Brd g) E y p \<Longrightarrow> 0 \<le> v \<and> v \<le> 5"
  using core_field[OF assms] field_okD(1,2) neighbors_valid by (auto simp: vals_def)

definition stepNext :: "int \<Rightarrow> int \<Rightarrow> int" where
  "stepNext v n = (if v = 5 then -1 else if n = 0 then v + 1 else if n > v + 1 then v + 1 else n)"

text \<open>The case analysis of the loop body computes exactly the effect of one more owned neighbor.\<close>

lemma nextVal_of_insert:
  assumes "finite V" "\<And>w. w \<in> V \<Longrightarrow> 0 \<le> w" "0 \<le> v"
  shows "nextVal_of (insert v V) = stepNext v (nextVal_of V)"
proof (cases "V = {} \<or> 5 \<in> V \<or> v = 5")
  case True
  with assms show ?thesis by (auto simp: nextVal_of_def stepNext_def)
next
  case False
  define m where "m = Min V"
  from False assms(1,2) have "0 \<le> m" by (simp add: m_def)
  moreover from False assms(1) have "nextVal_of V = m + 1" "nextVal_of (insert v V) = min v m + 1"
    by (auto simp: nextVal_of_def m_def)
  ultimately show ?thesis using False by (simp add: stepNext_def min_def)
qed

lemma nextVal_of_range:
  assumes "finite V" "\<And>w. w \<in> V \<Longrightarrow> 0 \<le> w \<and> w \<le> 5"
  shows "-1 \<le> nextVal_of V \<and> nextVal_of V \<le> 5"
proof (cases "V = {} \<or> 5 \<in> V")
  case False
  then have "Min V \<in> V" using assms(1) by simp
  with assms(2) have "0 \<le> Min V" "Min V \<le> 5" by blast+
  moreover from False \<open>Min V \<in> V\<close> have "Min V \<noteq> 5" by auto
  ultimately show ?thesis using False by (simp add: nextVal_of_def)
qed (auto simp: nextVal_of_def)

lemma updf_fld_id [simp]: "updf b x (fld b x) = b"
  by (simp add: updf_def fld_def)

section \<open>What a recursive call leaves alone\<close>

definition cell_step :: "int \<Rightarrow> field \<Rightarrow> field \<Rightarrow> bool" where
  "cell_step p f f' \<longleftrightarrow> Value f' = Value f \<and>
     (if free f then free f' \<and> Type f' = Type f \<and> Owner f' = Owner f \<and>
                     f' = f\<lparr>NextVal := NextVal f', Blocked := Blocked f'\<rparr> \<and>
                     at2 (NextVal f') (1 - p) = at2 (NextVal f) (1 - p)
      else f' = f \<or> isGrass f \<and> f' = f\<lparr>Type := CellNormal, Owner := p + 1\<rparr>)"

definition nbframe :: "int \<Rightarrow> flagz \<Rightarrow> flagz \<Rightarrow> bool" where
  "nbframe p g g' \<longleftrightarrow>
     Fields (Brd g') = Fields (Brd g) \<and> length (FlatFields (Brd g')) = length (FlatFields (Brd g)) \<and>
     Turn (Brd g') = Turn (Brd g) \<and> Move (Brd g') = Move (Brd g) \<and>
     LastRevealed (Brd g') = LastRevealed (Brd g) \<and>
     Resources (Brd g') = Resources (Brd g) \<and> State (Brd g') = State (Brd g) \<and>
     FreeCells g' = FreeCells g \<and> rnd g' = rnd g \<and>
     at2 (NormalMoves g') (1 - p) = at2 (NormalMoves g) (1 - p) \<and>
     Score (Brd g') ! nat (1 - p) = Score (Brd g) ! nat (1 - p) \<and>
     Score (Brd g) ! nat p \<le> Score (Brd g') ! nat p \<and>
     cnt isGrass (FlatFields (Brd g')) \<le> cnt isGrass (FlatFields (Brd g)) \<and>
     (\<forall>z. valid (Brd g) z \<longrightarrow> cell_step p (fld (Brd g) z) (fld (Brd g') z))"

lemma cell_step_refl: "cell_step p f f"
  by (simp add: cell_step_def)

lemma cell_step_trans:
  assumes "0 \<le> p" "cell_step p f g" "cell_step p g h"
  shows "cell_step p f h"
proof -
  have "h = f\<lparr>NextVal := NextVal h, Blocked := Blocked h\<rparr>"
    if "g = f\<lparr>NextVal := NextVal g, Blocked := Blocked g\<rparr>" "h = g\<lparr>NextVal := NextVal h, Blocked := Blocked h\<rparr>"
    using that by (cases f; cases g; cases h) simp
  with assms show ?thesis by (auto simp: cell_step_def isGrass_def occupied_def split: if_splits)
qed

lemma nbframe_refl: "nbframe p g g"
  by (simp add: nbframe_def cell_step_refl)

lemma nbframe_shape:
  assumes "nbframe p g g'"
  shows "valid (Brd g') = valid (Brd g)" "neighbors (Brd g') = neighbors (Brd g)"
    "wf_board (Brd g') = wf_board (Brd g)"
  using assms by (auto simp: nbframe_def intro!: same_shape wf_board_cong)

lemma nbframe_trans:
  assumes "0 \<le> p" "nbframe p g h" "nbframe p h k"
  shows "nbframe p g k"
proof -
  have "cell_step p (fld (Brd g) z) (fld (Brd k) z)" if "valid (Brd g) z" for z
    using assms that nbframe_shape(1)[OF assms(2)] cell_step_trans
    unfolding nbframe_def by metis
  with assms(2,3) show ?thesis unfolding nbframe_def by auto
qed

lemma nbframe_owned:
  assumes "nbframe p g g'" "valid (Brd g) x" "Owner (fld (Brd g) x) > 0" "\<not> isGrass (fld (Brd g) x)"
  shows "fld (Brd g') x = fld (Brd g) x"
proof -
  from assms have "cell_step p (fld (Brd g) x) (fld (Brd g') x)" by (simp add: nbframe_def)
  with assms(3,4) show ?thesis by (simp add: cell_step_def occupied_def)
qed

section \<open>One neighbor\<close>

text \<open>The loop body on a free neighbor, as one update of the cell and of the move counter.\<close>

definition freeUpd :: "int \<Rightarrow> int \<Rightarrow> field \<Rightarrow> field" where
  "freeUpd p v nb = nb\<lparr>Blocked := (if v = 5 then put2 (Blocked nb) p True else Blocked nb),
                       NextVal := put2 (NextVal nb) p (stepNext v (at2 (NextVal nb) p))\<rparr>"

definition freeStep :: "int \<Rightarrow> int \<Rightarrow> idx \<Rightarrow> flagz \<Rightarrow> flagz" where
  "freeStep p v y g = (let nb = fld (Brd g) y; n = at2 (NextVal nb) p in
     g\<lparr>Brd := updf (Brd g) y (freeUpd p v nb),
       NormalMoves := put2 (NormalMoves g) p
         (at2 (NormalMoves g) p - of_bool (n > 0) + of_bool (stepNext v n > 0))\<rparr>)"

lemma put2_id [simp]: "put2 a p (at2 a p) = a"
  by (cases a) (simp add: put2_def at2_def)

lemma updateNeighbor_free:
  assumes "flagz_core g" "valid (Brd g) x" "valid (Brd g) y" "pidx p" "free (fld (Brd g) y)"
  shows "updateNeighbor rc x p y g = Some (freeStep p (Value (fld (Brd g) x)) y g)"
proof -
  note wf = core_wf[OF assms(1)]
  have "0 \<le> Value (fld (Brd g) x)" using core_field[OF assms(1,2)] by (simp add: field_okD)
  then show ?thesis
    using wf assms
    by (auto simp: updateNeighbor_def go_simps addMoves_def putField_def freeStep_def freeUpd_def
        stepNext_def flagzMaxValue_def Let_def)
qed

definition captureStep :: "int \<Rightarrow> idx \<Rightarrow> flagz \<Rightarrow> flagz" where
  "captureStep p y g = (let nb = fld (Brd g) y in
     g\<lparr>Brd := (updf (Brd g) y (nb\<lparr>Type := CellNormal, Owner := p + 1\<rparr>))
       \<lparr>Score := (Score (Brd g))[nat p := Score (Brd g) ! nat p + Value nb]\<rparr>\<rparr>)"

lemma updateNeighbor_grass:
  assumes "flagz_core g" "valid (Brd g) x" "valid (Brd g) y" "pidx p" "isGrass (fld (Brd g) y)"
    "Owner (fld (Brd g) x) = p + 1"
  shows "updateNeighbor rc x p y g =
    (if Value (fld (Brd g) y) \<le> Value (fld (Brd g) x) then rc (captureStep p y g) y else Some g)"
proof -
  note wf = core_wf[OF assms(1)] and sc = core_score[OF assms(1)]
  have "occupied (fld (Brd g) y)" using field_okD(6)[OF core_field[OF assms(1,3)]] assms(5) by simp
  then show ?thesis
    using wf sc assms
    by (auto simp: updateNeighbor_def go_simps addScore_def putField_def captureStep_def Let_def isGrass_def)
qed

lemma updateNeighbor_other:
  assumes "flagz_core g" "valid (Brd g) x" "valid (Brd g) y" "occupied (fld (Brd g) y)"
    "\<not> isGrass (fld (Brd g) y)"
  shows "updateNeighbor rc x p y g = Some g"
  using core_wf[OF assms(1)] assms by (simp add: updateNeighbor_def go_simps isGrass_def)

section \<open>The free-neighbor step keeps the invariants\<close>

lemma freeUpd_sel [simp]:
  "Type (freeUpd p v nb) = Type nb" "Owner (freeUpd p v nb) = Owner nb"
  "Value (freeUpd p v nb) = Value nb" "Hidden (freeUpd p v nb) = Hidden nb"
  "occupied (freeUpd p v nb) = occupied nb" "isGrass (freeUpd p v nb) = isGrass nb"
  "ownedVal q (freeUpd p v nb) = ownedVal q nb"
  by (simp_all add: freeUpd_def occupied_def isGrass_def ownedVal_def)

lemma freeUpd_NextVal:
  "pidx p \<Longrightarrow> pidx q \<Longrightarrow> at2 (NextVal (freeUpd p v nb)) q =
    (if q = p then stepNext v (at2 (NextVal nb) p) else at2 (NextVal nb) q)"
  by (auto simp: freeUpd_def at2_put2)

lemma freeUpd_Blocked:
  "pidx p \<Longrightarrow> pidx q \<Longrightarrow> at2 (Blocked (freeUpd p v nb)) q =
    (if q = p \<and> v = 5 then True else at2 (Blocked nb) q)"
  by (auto simp: freeUpd_def at2_put2)

lemma freeUpd_cache:
  assumes "cache_ok p nb" "0 \<le> v" "v \<le> 5" "pidx p" "pidx q" "cache_ok q nb"
  shows "cache_ok q (freeUpd p v nb)"
proof (cases "q = p")
  case True
  with assms show ?thesis
    by (auto simp: cache_ok_def freeUpd_NextVal freeUpd_Blocked stepNext_def)
next
  case False
  with assms show ?thesis by (simp add: cache_ok_def freeUpd_NextVal freeUpd_Blocked)
qed

lemma freeUpd_field_ok:
  assumes "field_ok nb" "0 \<le> v" "v \<le> 5" "pidx p"
  shows "field_ok (freeUpd p v nb)"
  using assms freeUpd_cache[of p nb v 0] freeUpd_cache[of p nb v 1] unfolding field_ok_def
  by (auto split: cell_type.splits)

lemma freeStep_sel [simp]:
  "Brd (freeStep p v y g) = updf (Brd g) y (freeUpd p v (fld (Brd g) y))"
  "FreeCells (freeStep p v y g) = FreeCells g" "rnd (freeStep p v y g) = rnd g"
  by (simp_all add: freeStep_def Let_def)

lemma freeStep_core:
  assumes core: "flagz_core g" and y: "valid (Brd g) y" "free (fld (Brd g) y)"
    and p: "pidx p" and v: "0 \<le> v" "v \<le> 5"
  shows "flagz_core (freeStep p v y g)"
proof -
  note wf = core_wf[OF core]
  let ?h = "freeUpd p v (fld (Brd g) y)"
  have ok: "field_ok ?h" using freeUpd_field_ok core_field[OF core y(1)] v p by blast
  have moves: "at2 (NormalMoves (freeStep p v y g)) q = cnt (avail q) (FlatFields (updf (Brd g) y ?h))"
    if q: "pidx q" for q
  proof (cases "q = p")
    case True
    with y core_moves[OF core q] p show ?thesis
      by (simp add: freeStep_def Let_def cnt_updf[OF wf y(1)] avail_def freeUpd_NextVal)
  next
    case False
    with y core_moves[OF core q] p q show ?thesis
      by (simp add: freeStep_def Let_def cnt_updf[OF wf y(1)] avail_def freeUpd_NextVal at2_put2)
  qed
  have sums: "Score (Brd g) ! nat q = sum_list (map (ownedVal q) (FlatFields (updf (Brd g) y ?h)))"
    if "pidx q" for q
    using core_sum[OF core that] by (simp add: sum_updf[OF wf y(1)])
  have ball: "\<forall>f \<in> set (FlatFields (updf (Brd g) y ?h)). field_ok f"
    by (rule ball_updf[OF wf y(1), where P = field_ok]) (use core ok in \<open>auto simp: flagz_core_def\<close>)
  have fc: "FreeCells g = cnt free (FlatFields (updf (Brd g) y ?h))"
    using core_free[OF core] by (simp add: cnt_updf[OF wf y(1)])
  show ?thesis
    unfolding flagz_core_def freeStep_sel using ball fc moves sums wf core_score[OF core] by simp
qed

lemma freeStep_frame:
  assumes core: "flagz_core g" and y: "valid (Brd g) y" "free (fld (Brd g) y)" and p: "pidx p"
  shows "nbframe p g (freeStep p v y g)"
proof -
  note wf = core_wf[OF core]
  have "cell_step p (fld (Brd g) z) (fld (updf (Brd g) y (freeUpd p v (fld (Brd g) y))) z)"
    if "valid (Brd g) z" for z
    using y p by (auto simp: fld_updf[OF wf y(1) that] cell_step_def freeUpd_NextVal) (simp_all add: freeUpd_def)
  moreover have "at2 (NormalMoves (freeStep p v y g)) (1 - p) = at2 (NormalMoves g) (1 - p)"
    using p by (auto simp: freeStep_def Let_def at2_put2)
  ultimately show ?thesis by (simp add: nbframe_def cnt_updf[OF wf y(1)])
qed

lemma vals_insert:
  assumes "valid b x" "y \<in> set (neighbors b x)"
  shows "vals b (insert (x, y) E) y' q =
    (if y' = y \<and> Owner (fld b x) = q + 1 then insert (Value (fld b x)) (vals b E y q) else vals b E y' q)"
  using neighbors_sym[OF assms] by (auto simp: vals_def)

lemma vals_updf:
  assumes "wf_board b" "valid b y"
    "Value h = Value (fld b y)" "Owner h = Owner (fld b y)"
  shows "vals (updf b y h) E = vals b E"
proof -
  have "Value (fld (updf b y h) z) = Value (fld b z) \<and> Owner (fld (updf b y h) z) = Owner (fld b z)"
    if "z \<in> set (neighbors b w)" for z w
    using assms neighbors_valid[OF that] by (simp add: fld_updf)
  then show ?thesis by (auto simp: fun_eq_iff vals_def intro!: image_cong)
qed

lemma freeStep_edges:
  assumes core: "flagz_core g" and edges: "flagz_edges E g"
    and x: "valid (Brd g) x" "Owner (fld (Brd g) x) = p + 1" and p: "pidx p"
    and y: "y \<in> set (neighbors (Brd g) x)" "free (fld (Brd g) y)"
  shows "flagz_edges (insert (x, y) E) (freeStep p (Value (fld (Brd g) x)) y g)"
proof -
  note wf = core_wf[OF core] and yv = neighbors_valid[OF y(1)]
  let ?v = "Value (fld (Brd g) x)" and ?nb = "fld (Brd g) y"
  let ?b = "updf (Brd g) y (freeUpd p ?v ?nb)"
  have fl: "fld ?b z = (if z = y then freeUpd p ?v ?nb else fld (Brd g) z)" if "valid (Brd g) z" for z
    by (auto simp: fld_updf[OF wf yv that])
  have vals': "vals ?b F = vals (Brd g) F" for F by (simp add: vals_updf wf yv)
  have nyg: "\<not> isGrass ?nb" using y(2) by (auto simp: occupied_def isGrass_def)
  have "at2 (NextVal (fld ?b w)) q = nextVal_of (vals (Brd g) (insert (x, y) E) w q)"
    if w: "valid (Brd g) w" "free (fld ?b w)" and q: "pidx q" for w q
  proof -
    have "free (fld (Brd g) w)" using w y(2) by (auto simp: fl split: if_splits)
    then have old: "at2 (NextVal (fld (Brd g) w)) q = nextVal_of (vals (Brd g) E w q)"
      using edges_NextVal[OF edges w(1) _ q] by simp
    show ?thesis
    proof (cases "w = y \<and> q = p")
      case True
      have "nextVal_of (insert ?v (vals (Brd g) E y p)) = stepNext ?v (nextVal_of (vals (Brd g) E y p))"
        using vals_bounds[OF core] core_field[OF core x(1)] by (intro nextVal_of_insert) (auto simp: field_okD)
      with True old x p w show ?thesis by (simp add: fl vals_insert[OF x(1) y(1)] freeUpd_NextVal)
    next
      case False
      then have "\<not> (w = y \<and> Owner (fld (Brd g) x) = q + 1)" using x(2) by auto
      with False old p q w show ?thesis
        by (auto simp: fl vals_insert[OF x(1) y(1)] freeUpd_NextVal)
    qed
  qed
  moreover have "edge_ok ?b z w" if "(z, w) \<in> insert (x, y) E" for z w
  proof (rule edge_ok_cong)
    show ok: "edge_ok (Brd g) z w"
      using that edgesD[OF edges] x y(1) p nyg by (auto simp: edge_ok_def)
    from edge_ok_valid[OF ok] show "Owner (fld ?b z) = Owner (fld (Brd g) z)" "Value (fld ?b z) = Value (fld (Brd g) z)"
      "isGrass (fld ?b w) \<Longrightarrow> isGrass (fld (Brd g) w) \<and> Value (fld ?b w) = Value (fld (Brd g) w)"
      by (auto simp: fl split: if_splits)
  qed simp_all
  ultimately show ?thesis unfolding flagz_edges_def by (auto simp: vals')
qed

section \<open>The capture of a grass cell\<close>

lemma captureStep_sel [simp]:
  "FlatFields (Brd (captureStep p y g)) =
     FlatFields (updf (Brd g) y ((fld (Brd g) y)\<lparr>Type := CellNormal, Owner := p + 1\<rparr>))"
  "Fields (Brd (captureStep p y g)) = Fields (Brd g)"
  "fld (Brd (captureStep p y g)) =
     fld (updf (Brd g) y ((fld (Brd g) y)\<lparr>Type := CellNormal, Owner := p + 1\<rparr>))"
  "valid (Brd (captureStep p y g)) = valid (Brd g)"
  "neighbors (Brd (captureStep p y g)) = neighbors (Brd g)"
  "wf_board (Brd (captureStep p y g)) = wf_board (Brd g)"
  "Score (Brd (captureStep p y g)) =
     (Score (Brd g))[nat p := Score (Brd g) ! nat p + Value (fld (Brd g) y)]"
  "NormalMoves (captureStep p y g) = NormalMoves g" "FreeCells (captureStep p y g) = FreeCells g"
  "Turn (Brd (captureStep p y g)) = Turn (Brd g)" "Move (Brd (captureStep p y g)) = Move (Brd g)"
  "State (Brd (captureStep p y g)) = State (Brd g)"
  "LastRevealed (Brd (captureStep p y g)) = LastRevealed (Brd g)"
  "Resources (Brd (captureStep p y g)) = Resources (Brd g)" "rnd (captureStep p y g) = rnd g"
  by (simp_all add: captureStep_def Let_def)

lemma captured_sel:
  assumes "pidx p" "isGrass f" "field_ok f"
  defines "h \<equiv> f\<lparr>Type := CellNormal, Owner := p + 1\<rparr>"
  shows "occupied h" "\<not> isGrass h" "Owner h = p + 1" "Value h = Value f" "field_ok h"
    "pidx q \<Longrightarrow> ownedVal q h = (if q = p then Value f else 0)" "pidx q \<Longrightarrow> ownedVal q f = 0"
  using assms by (auto simp: occupied_def isGrass_def field_ok_def cache_ok_def ownedVal_def)

lemma captureStep_core:
  assumes core: "flagz_core g" and y: "valid (Brd g) y" "isGrass (fld (Brd g) y)" and p: "pidx p"
  shows "flagz_core (captureStep p y g)"
proof -
  note wf = core_wf[OF core] and fok = core_field[OF core y(1)]
  note h = captured_sel[OF p y(2) fok]
  let ?h = "(fld (Brd g) y)\<lparr>Type := CellNormal, Owner := p + 1\<rparr>"
  have occ: "occupied (fld (Brd g) y)" using field_okD(6)[OF fok y(2)] by simp
  have ball: "\<forall>f \<in> set (FlatFields (updf (Brd g) y ?h)). field_ok f"
    by (rule ball_updf[OF wf y(1), where P = field_ok]) (use core h(5) in \<open>auto simp: flagz_core_def\<close>)
  have "FreeCells g = cnt free (FlatFields (updf (Brd g) y ?h))"
    using core_free[OF core] occ h(1) by (simp add: cnt_updf[OF wf y(1)])
  moreover have "at2 (NormalMoves g) q = cnt (avail q) (FlatFields (updf (Brd g) y ?h))" if "pidx q" for q
    using core_moves[OF core that] occ h(1) by (simp add: cnt_updf[OF wf y(1)] avail_def)
  moreover have "(Score (Brd g))[nat p := Score (Brd g) ! nat p + Value (fld (Brd g) y)] ! nat q =
      sum_list (map (ownedVal q) (FlatFields (updf (Brd g) y ?h)))" if "pidx q" for q
    using core_sum[OF core that] h(6,7)[OF that] core_score[OF core] that p
    by (auto simp: sum_updf[OF wf y(1)] nth_list_update)
  ultimately show ?thesis
    unfolding flagz_core_def using ball wf core_score[OF core] by simp
qed

lemma captureStep_grass:
  assumes "flagz_core g" "valid (Brd g) y" "isGrass (fld (Brd g) y)"
  shows "cnt isGrass (FlatFields (Brd (captureStep p y g))) = cnt isGrass (FlatFields (Brd g)) - 1"
  using assms by (simp add: cnt_updf[OF core_wf] ) (simp add: isGrass_def)

lemma captureStep_frame:
  assumes core: "flagz_core g" and y: "valid (Brd g) y" "isGrass (fld (Brd g) y)" and p: "pidx p"
  shows "nbframe p g (captureStep p y g)"
proof -
  note wf = core_wf[OF core] and fok = core_field[OF core y(1)]
  have occ: "occupied (fld (Brd g) y)" and v: "0 \<le> Value (fld (Brd g) y)"
    using field_okD(1,6)[OF fok] y(2) by auto
  have "cell_step p (fld (Brd g) z) (fld (Brd (captureStep p y g)) z)" if "valid (Brd g) z" for z
    using y(2) occ by (auto simp: fld_updf[OF wf y(1) that] cell_step_def)
  moreover have "cnt isGrass (FlatFields (Brd (captureStep p y g))) \<le> cnt isGrass (FlatFields (Brd g))"
    using captureStep_grass[OF core y] by simp
  moreover have "nat (1 - p) \<noteq> nat p" "nat p < length (Score (Brd g))"
    using p core_score[OF core] by auto
  ultimately show ?thesis using v unfolding nbframe_def by simp
qed

lemma captureStep_edges:
  assumes core: "flagz_core g" and edges: "flagz_edges E g"
    and y: "valid (Brd g) y" "isGrass (fld (Brd g) y)" and p: "pidx p"
  shows "flagz_edges E (captureStep p y g)"
proof -
  note wf = core_wf[OF core] and fok = core_field[OF core y(1)]
  note h = captured_sel[OF p y(2) fok]
  let ?h = "(fld (Brd g) y)\<lparr>Type := CellNormal, Owner := p + 1\<rparr>" and ?b = "Brd (captureStep p y g)"
  have fl: "fld ?b z = (if z = y then ?h else fld (Brd g) z)" if "valid (Brd g) z" for z
    by (auto simp: fld_updf[OF wf y(1) that])
  have yE: "(y, w) \<notin> E" for w
    using edgesD[OF edges, of y w] field_okD(6)[OF fok y(2)] by (auto simp: edge_ok_def)
  have "vals ?b E w q = vals (Brd g) E w q" for w q
  proof -
    have "(z \<in> set (neighbors ?b w) \<and> Owner (fld ?b z) = q + 1 \<and> (z, w) \<in> E) =
          (z \<in> set (neighbors (Brd g) w) \<and> Owner (fld (Brd g) z) = q + 1 \<and> (z, w) \<in> E)" for z
      using yE neighbors_valid[of z "Brd g" w] by (cases "z = y") (auto simp: fl simp del: captureStep_sel(3))
    moreover have "Value (fld ?b z) = Value (fld (Brd g) z)" if "z \<in> set (neighbors (Brd g) w)" for z
      using fl[OF neighbors_valid[OF that]] by simp
    ultimately show ?thesis unfolding vals_def by (intro image_cong) auto
  qed
  moreover have "at2 (NextVal (fld ?b w)) q = nextVal_of (vals (Brd g) E w q)"
    if "valid (Brd g) w" "free (fld ?b w)" "pidx q" for w q
    using that h(1) edges_NextVal[OF edges that(1) _ that(3)]
    by (auto simp: fl simp del: captureStep_sel(3) split: if_splits)
  moreover have "edge_ok ?b z w" if E: "(z, w) \<in> E" for z w
  proof (rule edge_ok_cong)
    show ok: "edge_ok (Brd g) z w" by (rule edgesD[OF edges E])
    have "z \<noteq> y" using yE E by auto
    with edge_ok_valid[OF ok] h(2)
    show "Owner (fld ?b z) = Owner (fld (Brd g) z)" "Value (fld ?b z) = Value (fld (Brd g) z)"
      "isGrass (fld ?b w) \<Longrightarrow> isGrass (fld (Brd g) w) \<and> Value (fld ?b w) = Value (fld (Brd g) w)"
      by (auto simp: fl simp del: captureStep_sel(3) split: if_splits)
  qed simp_all
  ultimately show ?thesis unfolding flagz_edges_def by (auto simp del: captureStep_sel(3))
qed

lemma edges_insert_occupied:
  assumes "flagz_edges E g" "valid (Brd g) x" "y \<in> set (neighbors (Brd g) x)" "Owner (fld (Brd g) x) \<noteq> 0"
    "occupied (fld (Brd g) y)" "isGrass (fld (Brd g) y) \<Longrightarrow> Value (fld (Brd g) x) < Value (fld (Brd g) y)"
  shows "flagz_edges (insert (x, y) E) g"
  using assms unfolding flagz_edges_def by (auto simp: vals_insert edge_ok_def)

section \<open>The rule of capture\<close>

text \<open>
  \<open>captures b x v z\<close>: on the board \<open>b\<close>, a piece of value \<open>v\<close> on \<open>x\<close> takes the grass cell \<open>z\<close>: \<open>z\<close> is
  next to \<open>x\<close> and worth at most \<open>v\<close>, or it is next to another captured cell and worth no more than it.
\<close>

inductive captures :: "board \<Rightarrow> idx \<Rightarrow> int \<Rightarrow> idx \<Rightarrow> bool" for b x v where
  direct: "z \<in> set (neighbors b x) \<Longrightarrow> Type (fld b z) = CellGrass \<Longrightarrow> Value (fld b z) \<le> v \<Longrightarrow> captures b x v z"
| chain: "captures b x v y \<Longrightarrow> z \<in> set (neighbors b y) \<Longrightarrow> Type (fld b z) = CellGrass \<Longrightarrow>
    Value (fld b z) \<le> Value (fld b y) \<Longrightarrow> captures b x v z"

lemma captures_grass: "captures b x v z \<Longrightarrow> valid b z \<and> isGrass (fld b z)"
  by (induction rule: captures.induct) (auto simp: isGrass_def dest: neighbors_valid)

text \<open>Grass of a later board is grass of the earlier one, with its value.\<close>

definition grass_from :: "board \<Rightarrow> board \<Rightarrow> bool" where
  "grass_from b b' \<longleftrightarrow> neighbors b' = neighbors b \<and>
     (\<forall>z. valid b z \<longrightarrow> isGrass (fld b' z) \<longrightarrow> isGrass (fld b z) \<and> Value (fld b' z) = Value (fld b z))"

lemma captures_mono:
  assumes "captures b' x v z" "grass_from b b'"
  shows "captures b x v z"
  using assms(1)
proof (induction rule: captures.induct)
  case (direct z)
  with assms(2) show ?case
    by (auto simp: grass_from_def isGrass_def intro!: captures.direct dest: neighbors_valid)
next
  case (chain y z)
  have "valid b y" using captures_grass[OF chain.IH] by simp
  with chain assms(2) captures_grass[OF chain.hyps(1)] show ?case
    by (auto simp: grass_from_def isGrass_def intro!: captures.chain[OF chain.IH] dest: neighbors_valid)
qed

lemma captures_chain:
  assumes "captures b x v y" "captures b y (Value (fld b y)) z"
  shows "captures b x v z"
  using assms(2) by (induction rule: captures.induct) (use assms(1) in \<open>auto intro: captures.chain\<close>)

lemma cell_step_grass: "cell_step p f f' \<Longrightarrow> isGrass f' \<Longrightarrow> isGrass f \<and> Value f' = Value f"
  by (cases "free f") (auto simp: cell_step_def isGrass_def occupied_def)

lemma nbframe_grass_from: "nbframe p g g' \<Longrightarrow> grass_from (Brd g) (Brd g')"
  unfolding grass_from_def using nbframe_shape(2)[of p g g'] cell_step_grass
  by (auto simp: nbframe_def)

section \<open>The recursion\<close>

text \<open>
  \<open>settles p E P x g g'\<close>: from \<open>g\<close> with processed edges \<open>E\<close>, the call for the cell \<open>x\<close> has reached
  \<open>g'\<close>, where the only owned cells with unprocessed edges are those in \<open>P\<close>, and only grass that \<open>x\<close>
  captures is gone.
\<close>

definition taken :: "idx \<Rightarrow> flagz \<Rightarrow> flagz \<Rightarrow> bool" where
  "taken x g g' \<longleftrightarrow> (\<forall>z. valid (Brd g) z \<longrightarrow> isGrass (fld (Brd g) z) \<longrightarrow> \<not> isGrass (fld (Brd g') z) \<longrightarrow>
     captures (Brd g) x (Value (fld (Brd g) x)) z)"

lemma taken_refl [simp]: "taken x g g"
  by (simp add: taken_def)

lemma taken_trans:
  assumes "nbframe p g h" "fld (Brd h) x = fld (Brd g) x" "taken x g h" "taken x h k"
  shows "taken x g k"
  unfolding taken_def
proof (intro allI impI)
  fix z assume z: "valid (Brd g) z" "isGrass (fld (Brd g) z)" "\<not> isGrass (fld (Brd k) z)"
  show "captures (Brd g) x (Value (fld (Brd g) x)) z"
  proof (cases "isGrass (fld (Brd h) z)")
    case True
    then have "captures (Brd h) x (Value (fld (Brd h) x)) z"
      using assms(4) z nbframe_shape(1)[OF assms(1)] by (auto simp: taken_def)
    with captures_mono[OF _ nbframe_grass_from[OF assms(1)]] assms(2) show ?thesis by simp
  next
    case False
    with assms(3) z show ?thesis by (auto simp: taken_def)
  qed
qed

lemma taken_capture:
  assumes fr: "nbframe p g c" and y: "y \<in> set (neighbors (Brd g) x)" "isGrass (fld (Brd g) y)"
    "Value (fld (Brd g) y) \<le> Value (fld (Brd g) x)"
    and c: "\<And>z. valid (Brd g) z \<Longrightarrow> z \<noteq> y \<Longrightarrow> fld (Brd c) z = fld (Brd g) z"
    "Value (fld (Brd c) y) = Value (fld (Brd g) y)" and t: "taken y c k"
  shows "taken x g k"
  unfolding taken_def
proof (intro allI impI)
  fix z assume z: "valid (Brd g) z" "isGrass (fld (Brd g) z)" "\<not> isGrass (fld (Brd k) z)"
  have cy: "captures (Brd g) x (Value (fld (Brd g) x)) y"
    using y by (auto simp: isGrass_def intro: captures.direct)
  show "captures (Brd g) x (Value (fld (Brd g) x)) z"
  proof (cases "z = y")
    case False
    then have "captures (Brd c) y (Value (fld (Brd g) y)) z"
      using t z c nbframe_shape(1)[OF fr] by (auto simp: taken_def)
    with captures_mono[OF _ nbframe_grass_from[OF fr]] captures_chain[OF cy] show ?thesis by blast
  qed (use cy in simp)
qed

definition settles :: "int \<Rightarrow> (idx \<times> idx) set \<Rightarrow> idx set \<Rightarrow> idx \<Rightarrow> flagz \<Rightarrow> flagz \<Rightarrow> bool" where
  "settles p E P x g g' \<longleftrightarrow> (\<exists>E'. flagz_core g' \<and> flagz_edges E' g' \<and> nbframe p g g' \<and> E \<subseteq> E' \<and>
     pend E' (Brd g') \<subseteq> P \<and> taken x g g')"

lemma pend_mono: "E \<subseteq> E' \<Longrightarrow> pend E' b \<subseteq> pend E b"
  by (auto simp: pend_def)

lemma pend_freeStep:
  assumes "flagz_core g" "valid (Brd g) y"
  shows "pend E (Brd (freeStep p v y g)) = pend E (Brd g)"
  using assms by (auto simp: pend_def fld_updf[OF core_wf] split: if_splits)

lemma pend_captureStep:
  assumes "flagz_core g" "valid (Brd g) y"
  shows "pend E (Brd (captureStep p y g)) \<subseteq> insert y (pend E (Brd g))"
  using assms by (auto simp: pend_def fld_updf[OF core_wf] split: if_splits)

text \<open>The hypothesis on the recursive call, for one depth bound and player.\<close>

definition call_ok :: "nat \<Rightarrow> int \<Rightarrow> (flagz \<Rightarrow> idx \<Rightarrow> flagz option) \<Rightarrow> bool" where
  "call_ok n p rc \<longleftrightarrow> (\<forall>g x E. flagz_core g \<longrightarrow> flagz_edges E g \<longrightarrow> valid (Brd g) x \<longrightarrow>
     Owner (fld (Brd g) x) = p + 1 \<longrightarrow> cnt isGrass (FlatFields (Brd g)) < int n \<longrightarrow>
     (\<exists>g'. rc g x = Some g' \<and> settles p E (pend E (Brd g) - {x}) x g g'))"

lemma taken_free:
  assumes "flagz_core g" "valid (Brd g) y" "free (fld (Brd g) y)"
  shows "taken x g (freeStep p v y g)"
  using assms by (auto simp: taken_def fld_updf[OF core_wf] isGrass_def freeUpd_def split: if_splits)

text \<open>One iteration processes the edge \<open>(x, y)\<close> and leaves no other owned cell pending.\<close>

lemma updateNeighbor_ok:
  assumes rc: "call_ok n p rc" and core: "flagz_core g" and edges: "flagz_edges E g"
    and x: "valid (Brd g) x" "Owner (fld (Brd g) x) = p + 1" and p: "pidx p"
    and y: "y \<in> set (neighbors (Brd g) x)" and n: "cnt isGrass (FlatFields (Brd g)) \<le> int n"
  shows "\<exists>g'. updateNeighbor rc x p y g = Some g' \<and> settles p (insert (x, y) E) (pend E (Brd g)) x g g'"
proof -
  note yv = neighbors_valid[OF y]
  have vx: "0 \<le> Value (fld (Brd g) x)" "Value (fld (Brd g) x) \<le> 5"
    using core_field[OF core x(1)] by (simp_all add: field_okD)
  have x0: "Owner (fld (Brd g) x) \<noteq> 0" using x(2) p by auto
  consider (fr) "free (fld (Brd g) y)"
    | (cap) "isGrass (fld (Brd g) y)" "Value (fld (Brd g) y) \<le> Value (fld (Brd g) x)"
    | (high) "isGrass (fld (Brd g) y)" "Value (fld (Brd g) x) < Value (fld (Brd g) y)"
    | (oth) "occupied (fld (Brd g) y)" "\<not> isGrass (fld (Brd g) y)"
    by linarith
  then show ?thesis
  proof cases
    case fr
    let ?g = "freeStep p (Value (fld (Brd g) x)) y g"
    have "pend (insert (x, y) E) (Brd ?g) \<subseteq> pend E (Brd g)"
      using pend_mono[of E "insert (x, y) E" "Brd g"] pend_freeStep[OF core yv] by (simp del: freeStep_sel) blast
    then have "settles p (insert (x, y) E) (pend E (Brd g)) x g ?g"
      using freeStep_core[OF core yv fr p vx] freeStep_edges[OF core edges x p y fr]
        freeStep_frame[OF core yv fr p] taken_free[OF core yv fr] unfolding settles_def by blast
    then show ?thesis using updateNeighbor_free[OF core x(1) yv p fr] by simp
  next
    case cap
    let ?c = "captureStep p y g"
    note ccore = captureStep_core[OF core yv cap(1) p] and cframe = captureStep_frame[OF core yv cap(1) p]
    have occ: "occupied (fld (Brd g) y)" using field_okD(6)[OF core_field[OF core yv] cap(1)] by simp
    have ny: "fld (Brd ?c) y = (fld (Brd g) y)\<lparr>Type := CellNormal, Owner := p + 1\<rparr>"
      using core_wf[OF core] yv by simp
    have nx: "fld (Brd ?c) x = fld (Brd g) x"
      using core_wf[OF core] yv x(1) y neighbors_irrefl by (auto simp: fld_updf)
    have ce: "flagz_edges (insert (x, y) E) ?c"
      using captureStep_edges[OF core edges yv cap(1) p]
      by (rule edges_insert_occupied)
        (use x y x0 nx ny captured_sel(1,2)[OF p cap(1) core_field[OF core yv]] in
          \<open>auto simp del: captureStep_sel(3)\<close>)
    have "cnt isGrass (FlatFields (Brd ?c)) < int n"
      using captureStep_grass[OF core yv cap(1)] n by simp
    moreover have "valid (Brd ?c) y" "Owner (fld (Brd ?c) y) = p + 1"
      using yv captured_sel(3)[OF p cap(1) core_field[OF core yv]] unfolding ny by simp_all
    ultimately obtain g' where g': "rc ?c y = Some g'"
        "settles p (insert (x, y) E) (pend (insert (x, y) E) (Brd ?c) - {y}) y ?c g'"
      using rc[unfolded call_ok_def, rule_format, OF ccore ce] by blast
    have "pend (insert (x, y) E) (Brd ?c) - {y} \<subseteq> pend E (Brd g)"
      using pend_captureStep[OF core yv] pend_mono[of E "insert (x, y) E" "Brd g"] by blast
    moreover have "taken x g g'" if "taken y ?c g'"
      by (rule taken_capture[OF cframe y cap _ _ that])
        (use core_wf[OF core] yv ny in \<open>auto simp: fld_updf\<close>)
    ultimately have "settles p (insert (x, y) E) (pend E (Brd g)) x g g'"
      using g'(2) nbframe_trans[OF _ cframe] p unfolding settles_def by fastforce
    with g'(1) show ?thesis using updateNeighbor_grass[OF core x(1) yv p cap(1) x(2)] cap(2) by simp
  next
    case high
    have "flagz_edges (insert (x, y) E) g"
      using edges_insert_occupied[OF edges x(1) y x0] high field_okD(6)[OF core_field[OF core yv] high(1)] by simp
    then have "settles p (insert (x, y) E) (pend E (Brd g)) x g g"
      using core nbframe_refl taken_refl pend_mono[of E "insert (x, y) E" "Brd g"] unfolding settles_def by blast
    then show ?thesis using updateNeighbor_grass[OF core x(1) yv p high(1) x(2)] high(2) by simp
  next
    case oth
    have "flagz_edges (insert (x, y) E) g"
      using edges_insert_occupied[OF edges x(1) y x0] oth by simp
    then have "settles p (insert (x, y) E) (pend E (Brd g)) x g g"
      using core nbframe_refl taken_refl pend_mono[of E "insert (x, y) E" "Brd g"] unfolding settles_def by blast
    then show ?thesis using updateNeighbor_other[OF core x(1) yv oth] by simp
  qed
qed

text \<open>The loop: after a prefix of the neighbors, their edges are processed.\<close>

lemma updateNeighbors_loop:
  assumes rc: "call_ok n p rc" and core: "flagz_core g" and edges: "flagz_edges E g"
    and x: "valid (Brd g) x" "Owner (fld (Brd g) x) = p + 1" and p: "pidx p"
    and n: "cnt isGrass (FlatFields (Brd g)) \<le> int n"
  shows "\<exists>g'. foldM (updateNeighbor rc x p) (neighbors (Brd g) x) g = Some g' \<and>
    settles p (E \<union> Pair x ` set (neighbors (Brd g) x)) (pend E (Brd g)) x g g'"
proof (rule foldM_prefix_rule)
  show "settles p (E \<union> Pair x ` set []) (pend E (Brd g)) x g g"
    using core edges nbframe_refl unfolding settles_def by auto
next
  fix ys y zs t
  assume split: "neighbors (Brd g) x = ys @ y # zs"
    and t: "settles p (E \<union> Pair x ` set ys) (pend E (Brd g)) x g t"
  then obtain F where F: "flagz_core t" "flagz_edges F t" "nbframe p g t" "E \<union> Pair x ` set ys \<subseteq> F"
    "pend F (Brd t) \<subseteq> pend E (Brd g)" "taken x g t" unfolding settles_def by blast
  have xg: "\<not> isGrass (fld (Brd g) x)" "Owner (fld (Brd g) x) > 0"
    using field_okD(6)[OF core_field[OF core x(1)]] x(2) p by auto
  note same = nbframe_owned[OF F(3) x(1) xg(2,1)] and shape = nbframe_shape[OF F(3)]
  have "cnt isGrass (FlatFields (Brd t)) \<le> int n" using F(3) n by (simp add: nbframe_def)
  moreover have "y \<in> set (neighbors (Brd t) x)" using split shape by simp
  ultimately obtain u where u: "updateNeighbor rc x p y t = Some u"
      "settles p (insert (x, y) F) (pend F (Brd t)) x t u"
    using updateNeighbor_ok[OF rc F(1,2), of x y] x p same shape by auto
  from u(2) obtain F' where F': "flagz_core u" "flagz_edges F' u" "nbframe p t u" "insert (x, y) F \<subseteq> F'"
    "pend F' (Brd u) \<subseteq> pend F (Brd t)" "taken x t u" unfolding settles_def by blast
  have "nbframe p g u" using nbframe_trans[OF _ F(3) F'(3)] p by auto
  moreover have "E \<union> Pair x ` set (ys @ [y]) \<subseteq> F'" using F(4) F'(4) by auto
  moreover have "pend F' (Brd u) \<subseteq> pend E (Brd g)" using F(5) F'(5) by blast
  moreover have "taken x g u" using taken_trans[OF F(3) same F(6) F'(6)] .
  ultimately have "settles p (E \<union> Pair x ` set (ys @ [y])) (pend E (Brd g)) x g u"
    using F'(1,2) unfolding settles_def by blast
  with u(1) show "\<exists>u. updateNeighbor rc x p y t = Some u \<and>
      settles p (E \<union> Pair x ` set (ys @ [y])) (pend E (Brd g)) x g u" by blast
qed

lemma updateNeighborCells_call_ok: "pidx p \<Longrightarrow> call_ok n p (updateNeighborCells n)"
proof (induction n)
  case 0
  show ?case by (simp add: call_ok_def not_less)
next
  case (Suc n)
  show ?case
    unfolding call_ok_def
  proof (intro allI impI)
    fix g x E
    assume a: "flagz_core g" "flagz_edges E g" "valid (Brd g) x" "Owner (fld (Brd g) x) = p + 1"
      "cnt isGrass (FlatFields (Brd g)) < int (Suc n)"
    then obtain g' where g': "foldM (updateNeighbor (updateNeighborCells n) x p) (neighbors (Brd g) x) g = Some g'"
        "settles p (E \<union> Pair x ` set (neighbors (Brd g) x)) (pend E (Brd g)) x g g'"
      using updateNeighbors_loop[OF Suc.IH[OF Suc.prems] a(1-4) Suc.prems] by auto
    then obtain F where F: "flagz_core g'" "flagz_edges F g'" "nbframe p g g'"
        "E \<union> Pair x ` set (neighbors (Brd g) x) \<subseteq> F" "pend F (Brd g') \<subseteq> pend E (Brd g)"
        "taken x g g'"
      unfolding settles_def by blast
    have "x \<notin> pend F (Brd g')" using F(4) nbframe_shape(2)[OF F(3)] by (auto simp: pend_def)
    with F have "settles p E (pend E (Brd g) - {x}) x g g'" unfolding settles_def by blast
    moreover have "updateNeighborCells (Suc n) g x = Some g'"
      using a g'(1) Suc.prems core_wf[OF a(1)] by (auto simp: go_simps)
    ultimately show "\<exists>g'. updateNeighborCells (Suc n) g x = Some g' \<and> settles p E (pend E (Brd g) - {x}) x g g'"
      by blast
  qed
qed

lemmas updateNeighborCells_ok =
  updateNeighborCells_call_ok[unfolded call_ok_def, rule_format]

end
