(* ===== verification/FlagzGame.thy ===== *)
theory FlagzGame
  imports FlagzInv
begin

text \<open>
  The Flagz game as a whole: the invariant \<open>flagz_inv\<close> that \<open>Reset\<close> establishes for every
  stream of random numbers and that every call of \<open>MakeMove\<close> keeps, and what follows from it:
  no operation panics, moves are accepted exactly when the rules allow them, the random player
  always finds a legal move in a running game, a game ends, and the early end of a game never
  changes its winner. The two engine interfaces are interpreted on the Flagz operations.
\<close>

section \<open>The invariant\<close>

definition allEdges :: "board \<Rightarrow> (idx \<times> idx) set" where
  "allEdges b = {(z, y). valid b z \<and> Owner (fld b z) \<noteq> 0 \<and> y \<in> set (neighbors b z)}"

definition flags_of :: "flagz \<Rightarrow> int \<Rightarrow> int" where
  "flags_of g p = NumPieces (Resources (Brd g) ! nat p) CellFlag"

definition able :: "flagz \<Rightarrow> int \<Rightarrow> bool" where
  "able g p \<longleftrightarrow> at2 (NormalMoves g) p > 0 \<or> FreeCells g > 0 \<and> flags_of g p > 0"

definition over :: "flagz \<Rightarrow> bool" where
  "over g \<longleftrightarrow> FreeCells g = 0 \<or> \<not> (able g 0 \<or> able g 1) \<or>
     (Score (Brd g) ! 0 > Score (Brd g) ! 1 \<and> \<not> able g 1) \<or>
     (Score (Brd g) ! 1 > Score (Brd g) ! 0 \<and> \<not> able g 0)"

definition pieces_ok :: "resource_info list \<Rightarrow> bool" where
  "pieces_ok rs \<longleftrightarrow> length rs = 2 \<and> (\<forall>r \<in> set rs. NumPieces r CellNormal = -1 \<and> 0 \<le> NumPieces r CellFlag \<and>
     (\<forall>t. t \<noteq> CellNormal \<longrightarrow> t \<noteq> CellFlag \<longrightarrow> NumPieces r t = 0))"

definition flagz_pos :: "flagz \<Rightarrow> bool" where
  "flagz_pos g \<longleftrightarrow> flagz_core g \<and> flagz_edges (allEdges (Brd g)) g \<and> pieces_ok (Resources (Brd g)) \<and>
     pidx (Turn (Brd g) - 1)"

definition flagz_inv :: "flagz \<Rightarrow> bool" where
  "flagz_inv g \<longleftrightarrow> flagz_pos g \<and> State (Brd g) = (if over g then Finished else Running) \<and>
     (\<not> over g \<longrightarrow> able g (Turn (Brd g) - 1))"

lemma posD:
  assumes "flagz_pos g"
  shows pos_core: "flagz_core g" and pos_edges: "flagz_edges (allEdges (Brd g)) g"
    and pos_pieces: "pieces_ok (Resources (Brd g))" and pos_turn: "pidx (Turn (Brd g) - 1)"
  using assms by (auto simp: flagz_pos_def)

lemma inv_pos: "flagz_inv g \<Longrightarrow> flagz_pos g"
  by (simp add: flagz_inv_def)

lemma pieces_okD:
  assumes "pieces_ok rs"
  shows "length rs = 2" "pidx p \<Longrightarrow> NumPieces (rs ! nat p) CellNormal = -1"
    "pidx p \<Longrightarrow> 0 \<le> NumPieces (rs ! nat p) CellFlag"
    "pidx p \<Longrightarrow> t \<noteq> CellNormal \<Longrightarrow> t \<noteq> CellFlag \<Longrightarrow> NumPieces (rs ! nat p) t = 0"
  using assms by (auto simp: pieces_ok_def)

text \<open>The edge relation is determined once no owned cell has an unprocessed edge.\<close>

lemma edges_complete:
  assumes "flagz_edges E g" "pend E (Brd g) = {}"
  shows "flagz_edges (allEdges (Brd g)) g"
proof -
  have "E = allEdges (Brd g)"
    using assms edgesD[OF assms(1)] by (force simp: allEdges_def pend_def edge_ok_def)
  with assms(1) show ?thesis by simp
qed

lemma pend_allEdges: "pend (allEdges b) b = {}"
  by (auto simp: pend_def allEdges_def)

text \<open>Only the cells and the counters matter for the position.\<close>

lemma position_cong:
  assumes "FlatFields (Brd g') = FlatFields (Brd g)" "Fields (Brd g') = Fields (Brd g)"
    "Score (Brd g') = Score (Brd g)" "FreeCells g' = FreeCells g" "NormalMoves g' = NormalMoves g"
  shows "flagz_core g' = flagz_core g" "flagz_edges E g' = flagz_edges E g"
    "pend E (Brd g') = pend E (Brd g)" "allEdges (Brd g') = allEdges (Brd g)"
proof -
  have fld: "fld (Brd g') = fld (Brd g)" using assms by (simp add: fun_eq_iff fld_def fpos_def)
  have wf: "wf_board (Brd g') = wf_board (Brd g)" using assms by (intro wf_board_cong) simp_all
  have vals: "vals (Brd g') = vals (Brd g)"
    using fld same_shape[OF assms(2)] by (simp add: fun_eq_iff vals_def)
  show "flagz_core g' = flagz_core g" using assms wf by (simp add: flagz_core_def)
  show "flagz_edges E g' = flagz_edges E g"
    using fld vals same_shape[OF assms(2)] by (simp add: flagz_edges_def edge_ok_def)
  show "pend E (Brd g') = pend E (Brd g)" "allEdges (Brd g') = allEdges (Brd g)"
    using fld same_shape[OF assms(2)] by (simp_all add: pend_def allEdges_def)
qed

section \<open>Placing a piece\<close>

definition placed :: "idx \<Rightarrow> field \<Rightarrow> flagz \<Rightarrow> flagz" where
  "placed x h g = (let p = Owner h - 1; f = fld (Brd g) x; nm = NormalMoves g in
     g\<lparr>Brd := (updf (Brd g) x h)\<lparr>Score := (Score (Brd g))[nat p := Score (Brd g) ! nat p + Value h]\<rparr>,
       FreeCells := FreeCells g - 1,
       NormalMoves := Arr2 (at2 nm 0 - of_bool (avail 0 f)) (at2 nm 1 - of_bool (avail 1 f))\<rparr>)"

definition piece_ok :: "int \<Rightarrow> field \<Rightarrow> bool" where
  "piece_ok p h \<longleftrightarrow> field_ok h \<and> Owner h = p + 1 \<and> occupied h \<and> \<not> isGrass h"

lemma placed_sel [simp]:
  "FlatFields (Brd (placed x h g)) = FlatFields (updf (Brd g) x h)"
  "fld (Brd (placed x h g)) = fld (updf (Brd g) x h)"
  "Fields (Brd (placed x h g)) = Fields (Brd g)" "Turn (Brd (placed x h g)) = Turn (Brd g)"
  "Move (Brd (placed x h g)) = Move (Brd g)" "Resources (Brd (placed x h g)) = Resources (Brd g)"
  "State (Brd (placed x h g)) = State (Brd g)" "LastRevealed (Brd (placed x h g)) = LastRevealed (Brd g)"
  "valid (Brd (placed x h g)) = valid (Brd g)"
  "neighbors (Brd (placed x h g)) = neighbors (Brd g)"
  "wf_board (Brd (placed x h g)) = wf_board (Brd g)"
  "Score (Brd (placed x h g)) =
     (Score (Brd g))[nat (Owner h - 1) := Score (Brd g) ! nat (Owner h - 1) + Value h]"
  "FreeCells (placed x h g) = FreeCells g - 1" "rnd (placed x h g) = rnd g"
  by (simp_all add: placed_def Let_def)

lemma placed_moves:
  "pidx q \<Longrightarrow> at2 (NormalMoves (placed x h g)) q =
    at2 (NormalMoves g) q - of_bool (avail q (fld (Brd g) x))"
  by (auto simp: placed_def Let_def)

lemma placed_core:
  assumes core: "flagz_core g" and x: "valid (Brd g) x" "free (fld (Brd g) x)"
    and p: "pidx p" and h: "piece_ok p h"
  shows "flagz_core (placed x h g)"
proof -
  note wf = core_wf[OF core]
  from h have ho: "field_ok h" "Owner h = p + 1" "occupied h" by (auto simp: piece_ok_def)
  have fo: "Owner (fld (Brd g) x) = 0" using field_okD(5)[OF core_field[OF core x(1)]] x(2) by simp
  have ball: "\<forall>f \<in> set (FlatFields (updf (Brd g) x h)). field_ok f"
    by (rule ball_updf[OF wf x(1), where P = field_ok]) (use core ho(1) in \<open>auto simp: flagz_core_def\<close>)
  have fc: "FreeCells g - 1 = cnt free (FlatFields (updf (Brd g) x h))"
    using core_free[OF core] x(2) ho(3) by (simp add: cnt_updf[OF wf x(1)])
  have moves: "at2 (NormalMoves (placed x h g)) q = cnt (avail q) (FlatFields (updf (Brd g) x h))"
    if "pidx q" for q
    using core_moves[OF core that] ho(3) by (simp add: placed_moves that cnt_updf[OF wf x(1)] avail_def)
  have "(Score (Brd g))[nat p := Score (Brd g) ! nat p + Value h] ! nat q =
      sum_list (map (ownedVal q) (FlatFields (updf (Brd g) x h)))" if "pidx q" for q
    using core_sum[OF core that] core_score[OF core] that p ho(2) fo
    by (auto simp: sum_updf[OF wf x(1)] nth_list_update ownedVal_def)
  then show ?thesis
    unfolding flagz_core_def using ball wf fc moves core_score[OF core] ho(2) by simp
qed

lemma placed_edges:
  assumes core: "flagz_core g" and edges: "flagz_edges E g"
    and x: "valid (Brd g) x" "free (fld (Brd g) x)" and p: "pidx p" and h: "piece_ok p h"
  shows "flagz_edges E (placed x h g)"
proof -
  note wf = core_wf[OF core]
  from h have ho: "occupied h" "\<not> isGrass h" by (auto simp: piece_ok_def)
  let ?b = "Brd (placed x h g)"
  have fo: "Owner (fld (Brd g) x) = 0" using field_okD(5)[OF core_field[OF core x(1)]] x(2) by simp
  have fl: "fld ?b z = (if z = x then h else fld (Brd g) z)" if "valid (Brd g) z" for z
    by (auto simp: fld_updf[OF wf x(1) that])
  have xE: "(x, w) \<notin> E" for w using edgesD[OF edges, of x w] fo by (auto simp: edge_ok_def)
  have "vals ?b E w q = vals (Brd g) E w q" for w q
  proof -
    have "(z \<in> set (neighbors ?b w) \<and> Owner (fld ?b z) = q + 1 \<and> (z, w) \<in> E) =
          (z \<in> set (neighbors (Brd g) w) \<and> Owner (fld (Brd g) z) = q + 1 \<and> (z, w) \<in> E)" for z
      using xE neighbors_valid[of z "Brd g" w] by (cases "z = x") (auto simp: fl simp del: placed_sel(2))
    moreover have "Value (fld ?b z) = Value (fld (Brd g) z)"
      if "z \<in> set (neighbors (Brd g) w)" "(z, w) \<in> E" for z
      using fl[OF neighbors_valid[OF that(1)]] xE that(2) by auto
    ultimately show ?thesis unfolding vals_def by (intro image_cong) auto
  qed
  moreover have "at2 (NextVal (fld ?b w)) q = nextVal_of (vals (Brd g) E w q)"
    if "valid (Brd g) w" "free (fld ?b w)" "pidx q" for w q
    using that ho(1) edges_NextVal[OF edges that(1) _ that(3)]
    by (auto simp: fl simp del: placed_sel(2) split: if_splits)
  moreover have "edge_ok ?b z w" if E: "(z, w) \<in> E" for z w
  proof (rule edge_ok_cong)
    show ok: "edge_ok (Brd g) z w" by (rule edgesD[OF edges E])
    have "z \<noteq> x" using xE E by auto
    with edge_ok_valid[OF ok] ho(2)
    show "Owner (fld ?b z) = Owner (fld (Brd g) z)" "Value (fld ?b z) = Value (fld (Brd g) z)"
      "isGrass (fld ?b w) \<Longrightarrow> isGrass (fld (Brd g) w) \<and> Value (fld ?b w) = Value (fld (Brd g) w)"
      by (auto simp: fl simp del: placed_sel(2) split: if_splits)
  qed simp_all
  ultimately show ?thesis unfolding flagz_edges_def by (auto simp del: placed_sel(2))
qed

lemma pend_placed:
  assumes "flagz_core g" "valid (Brd g) x"
  shows "pend E (Brd (placed x h g)) \<subseteq> insert x (pend E (Brd g))"
  using assms by (auto simp: pend_def fld_updf[OF core_wf] split: if_splits)

lemma grass_le_length: "cnt isGrass (FlatFields b) < int (Suc (length (FlatFields b)))"
  using cnt_le_length[of isGrass "FlatFields b"] by simp

text \<open>Placing a piece and propagating it returns, and every edge is processed again.\<close>

lemma place_propagate:
  assumes core: "flagz_core g" and edges: "flagz_edges (allEdges (Brd g)) g"
    and x: "valid (Brd g) x" "free (fld (Brd g) x)" and p: "pidx p" and h: "piece_ok p h"
    and g1: "FlatFields (Brd g1) = FlatFields (Brd (placed x h g))" "Fields (Brd g1) = Fields (Brd g)"
      "Score (Brd g1) = Score (Brd (placed x h g))" "FreeCells g1 = FreeCells (placed x h g)"
      "NormalMoves g1 = NormalMoves (placed x h g)"
  shows "\<exists>g'. updateNeighborCells (depthBound g1) g1 x = Some g' \<and> flagz_core g' \<and>
    flagz_edges (allEdges (Brd g')) g' \<and> nbframe p g1 g' \<and> fld (Brd g') x = h \<and> taken x g1 g'"
proof -
  let ?E = "allEdges (Brd g)"
  note cong = position_cong[of g1 "placed x h g", OF g1(1) _ g1(3-5)]
  have Fs: "Fields (Brd g1) = Fields (Brd (placed x h g))" using g1(2) by simp
  have core1: "flagz_core g1" using placed_core[OF core x p h] cong(1)[OF Fs] by simp
  have edges1: "flagz_edges ?E g1" using placed_edges[OF core edges x p h] cong(2)[OF Fs] by simp
  have v1: "valid (Brd g1) x" using x(1) same_shape(1)[OF g1(2)] by simp
  have "fld (Brd g1) = fld (Brd (placed x h g))" using g1(1) Fs by (simp add: fun_eq_iff fld_def fpos_def)
  then have fx: "fld (Brd g1) x = h" using core_wf[OF core] x(1) by simp
  have ho: "Owner h = p + 1" "\<not> isGrass h" using h by (auto simp: piece_ok_def)
  have "pend ?E (Brd g1) \<subseteq> {x}"
    using pend_placed[OF core x(1), of ?E h] cong(3)[OF Fs, of ?E] pend_allEdges[of "Brd g"] by auto
  moreover obtain g' where g': "updateNeighborCells (depthBound g1) g1 x = Some g'"
      "settles p ?E (pend ?E (Brd g1) - {x}) x g1 g'"
    using updateNeighborCells_ok[OF p core1 edges1 v1, of "depthBound g1"] fx ho(1) grass_le_length
    by (auto simp: depthBound_def)
  ultimately obtain E' where E': "flagz_core g'" "flagz_edges E' g'" "nbframe p g1 g'" "pend E' (Brd g') = {}"
      "taken x g1 g'"
    unfolding settles_def by blast
  moreover have "fld (Brd g') x = h"
    using nbframe_owned[OF E'(3) v1] fx ho p by auto
  ultimately show ?thesis using g'(1) edges_complete[OF E'(2,4)] by blast
qed

section \<open>Moves\<close>

abbreviation target :: "game_engine_move \<Rightarrow> idx" where
  "target m \<equiv> Idx (mvRow m) (mvCol m)"

text \<open>When the rules allow a move: it is the player's turn, the cell is free, and the player can
  take the cell with a normal piece or has a flag left.\<close>

definition legal :: "flagz \<Rightarrow> game_engine_move \<Rightarrow> bool" where
  "legal g m \<longleftrightarrow> mvPlayer m = Turn (Brd g) \<and> mvMove m = Move (Brd g) \<and> valid (Brd g) (target m) \<and>
     free (fld (Brd g) (target m)) \<and>
     (mvType m = CellNormal \<and> at2 (NextVal (fld (Brd g) (target m))) (Turn (Brd g) - 1) > 0 \<or>
      mvType m = CellFlag \<and> flags_of g (Turn (Brd g) - 1) > 0)"

definition pieceOf :: "flagz \<Rightarrow> game_engine_move \<Rightarrow> field" where
  "pieceOf g m = (let f = fld (Brd g) (target m); turn = Turn (Brd g) in
     f\<lparr>Owner := turn, Type := mvType m, Lifetime := -1, Hidden := False,
       Value := (if mvType m = CellNormal then at2 (NextVal f) (turn - 1) else 0)\<rparr>)"

text \<open>What an accepted move changes, \<open>p\<close> being the index of the player who moves.\<close>

definition moved :: "flagz \<Rightarrow> game_engine_move \<Rightarrow> flagz \<Rightarrow> bool" where
  "moved g m g' \<longleftrightarrow> (let p = Turn (Brd g) - 1 in
     fld (Brd g') (target m) = pieceOf g m \<and> FreeCells g' = FreeCells g - 1 \<and>
     Fields (Brd g') = Fields (Brd g) \<and> length (FlatFields (Brd g')) = length (FlatFields (Brd g)) \<and>
     LastRevealed (Brd g') = LastRevealed (Brd g) \<and> rnd g' = rnd g \<and>
     Score (Brd g') ! nat (1 - p) = Score (Brd g) ! nat (1 - p) \<and>
     Score (Brd g) ! nat p + Value (pieceOf g m) \<le> Score (Brd g') ! nat p \<and>
     at2 (NormalMoves g') (1 - p) \<le> at2 (NormalMoves g) (1 - p) \<and>
     flags_of g' (1 - p) = flags_of g (1 - p) \<and>
     flags_of g' p = flags_of g p - of_bool (mvType m = CellFlag) \<and>
     (\<forall>z. valid (Brd g) z \<longrightarrow> z \<noteq> target m \<longrightarrow> cell_step p (fld (Brd g) z) (fld (Brd g') z)) \<and>
     (\<forall>z. valid (Brd g) z \<longrightarrow> isGrass (fld (Brd g) z) \<longrightarrow> \<not> isGrass (fld (Brd g') z) \<longrightarrow>
       captures (Brd g) (target m) (Value (pieceOf g m)) z))"

lemma legal_free: "flagz_pos g \<Longrightarrow> legal g m \<Longrightarrow> FreeCells g > 0"
  using core_free[of g] core_wf[of g]
  by (auto simp: legal_def flagz_pos_def cnt_pos_iff intro!: bexI[of _ "fld (Brd g) (target m)"])

lemma legal_able: "flagz_pos g \<Longrightarrow> legal g m \<Longrightarrow> able g (Turn (Brd g) - 1)"
proof -
  assume g: "flagz_pos g" and m: "legal g m"
  note core = pos_core[OF g] and p = pos_turn[OF g]
  have "mvType m = CellNormal \<Longrightarrow> 0 < cnt (avail (Turn (Brd g) - 1)) (FlatFields (Brd g))"
    using m core_wf[OF core]
    by (auto simp: legal_def cnt_pos_iff avail_def intro!: bexI[of _ "fld (Brd g) (target m)"])
  with m legal_free[OF g m] core_moves[OF core p] show ?thesis by (auto simp: legal_def able_def)
qed

lemma pieceOf_ok:
  assumes "flagz_pos g" "legal g m"
  shows "piece_ok (Turn (Brd g) - 1) (pieceOf g m)"
proof -
  let ?f = "fld (Brd g) (target m)" and ?p = "Turn (Brd g) - 1"
  have f: "field_ok ?f" using core_field[OF pos_core[OF assms(1)]] assms(2) by (simp add: legal_def)
  have p: "pidx ?p" by (rule pos_turn[OF assms(1)])
  have "at2 (NextVal ?f) ?p \<le> 5" using field_okD(4)[OF f p] by (simp add: cache_ok_def)
  with f p assms(2) show ?thesis
    by (auto simp: piece_ok_def pieceOf_def Let_def field_ok_def cache_ok_def occupied_def isGrass_def legal_def)
qed

lemma el_at2: "el0 a = at2 a 0" "el1 a = at2 a 1"
  by (simp_all add: at2_def)

lemma Arr2_at2: "Arr2 (at2 a 0) (at2 a 1) = a"
  by (cases a) simp

lemma same_moves: "g\<lparr>Brd := b, FreeCells := n, NormalMoves := NormalMoves g\<rparr> = g\<lparr>Brd := b, FreeCells := n\<rparr>"
  by (cases g) simp

lemma placeNormal_eq:
  assumes g: "flagz_pos g" and m: "legal g m" "mvType m = CellNormal"
  defines "f \<equiv> fld (Brd g) (target m)"
  defines "g1 \<equiv> placed (target m) (pieceOf g m) g"
  shows "placeNormal g (target m) f (at2 (NextVal f) (Turn (Brd g) - 1)) =
    updateNeighborCells (depthBound g1) g1 (target m)"
proof -
  note core = pos_core[OF g] and p = pos_turn[OF g]
  have x: "valid (Brd g) (target m)" "free f" "at2 (NextVal f) (Turn (Brd g) - 1) > 0"
    using m by (auto simp: legal_def f_def)
  let ?h = "f\<lparr>Owner := Turn (Brd g), Type := CellNormal, Lifetime := -1, Hidden := False,
              Value := at2 (NextVal f) (Turn (Brd g) - 1)\<rparr>"
  have h: "pieceOf g m = ?h" using m(2) by (simp add: pieceOf_def f_def Let_def)
  show ?thesis
    using p x core_wf[OF core] core_score[OF core]
    by (auto simp: placeNormal_def putField_def addScore_def addMoves_def go_simps Let_def
        g1_def h placed_def avail_def at2_put2 put2_def el_at2 f_def[symmetric])
qed

lemma placeFlag_eq:
  assumes g: "flagz_pos g" and m: "legal g m" "mvType m = CellFlag"
  defines "g1 \<equiv> placed (target m) (pieceOf g m) g"
  obtains g2 where "placeFlag g (target m) (fld (Brd g) (target m)) =
      updateNeighborCells (depthBound g2) g2 (target m)"
    "FlatFields (Brd g2) = FlatFields (Brd g1)" "Fields (Brd g2) = Fields (Brd g)"
    "Score (Brd g2) = Score (Brd g1)" "FreeCells g2 = FreeCells g1" "NormalMoves g2 = NormalMoves g1"
    "LastRevealed (Brd g2) = LastRevealed (Brd g)" "rnd g2 = rnd g"
    "Turn (Brd g2) = Turn (Brd g)" "Move (Brd g2) = Move (Brd g)" "State (Brd g2) = State (Brd g)"
    "decPiece (Brd g) (Turn (Brd g) - 1) CellFlag = Some ((Brd g)\<lparr>Resources := Resources (Brd g2)\<rparr>)"
proof -
  note core = pos_core[OF g] and p = pos_turn[OF g] and rs = pieces_okD(1)[OF pos_pieces[OF g]]
  define f where "f = fld (Brd g) (target m)"
  have x: "valid (Brd g) (target m)" "free f" using m by (auto simp: legal_def f_def)
  let ?h = "f\<lparr>Owner := Turn (Brd g), Type := CellFlag, Lifetime := -1, Hidden := False, Value := 0\<rparr>"
  have h: "pieceOf g m = ?h" using m(2) by (simp add: pieceOf_def f_def Let_def)
  define rs' where "rs' = (Resources (Brd g))[nat (Turn (Brd g) - 1) :=
    \<lparr>NumPieces = (NumPieces (Resources (Brd g) ! nat (Turn (Brd g) - 1)))
       (CellFlag := flags_of g (Turn (Brd g) - 1) - 1)\<rparr>]"
  have dec: "decPiece b (Turn (Brd g) - 1) CellFlag = Some (b\<lparr>Resources := rs'\<rparr>)"
    if "Resources b = Resources (Brd g)" for b
    using p rs that by (auto simp: decPiece_def go_simps rs'_def flags_of_def)
  let ?nm = "\<lambda>q. at2 (NormalMoves g) q - of_bool (avail q f)"
  let ?g2 = "g\<lparr>Brd := (updf (Brd g) (target m) ?h)\<lparr>Resources := rs'\<rparr>, FreeCells := FreeCells g - 1,
    NormalMoves := Arr2 (?nm 0) (?nm 1)\<rparr>"
  have "placeFlag g (target m) f = updateNeighborCells (depthBound ?g2) ?g2 (target m)"
    using p x core_wf[OF core] core_score[OF core]
    by (auto simp: placeFlag_def putField_def addMoves_def dec go_simps Let_def
        h avail_def at2_put2 put2_def el_at2 Arr2_at2 same_moves f_def[symmetric])
  then show ?thesis
    using dec[of "Brd g"] by (intro that[of ?g2]) (simp_all add: f_def g1_def h[unfolded f_def] placed_def Let_def)
qed

lemma pieces_dec:
  assumes "pieces_ok (Resources b)" "pidx p" "NumPieces (Resources b ! nat p) CellFlag > 0"
    and "decPiece b p CellFlag = Some (b\<lparr>Resources := rs\<rparr>)"
  shows "pieces_ok rs"
    "pidx q \<Longrightarrow> NumPieces (rs ! nat q) CellFlag = NumPieces (Resources b ! nat q) CellFlag - of_bool (q = p)"
proof -
  let ?r = "Resources b ! nat p"
  have len: "length (Resources b) = 2" using assms(1) by (simp add: pieces_ok_def)
  have "b\<lparr>Resources := rs\<rparr> = b\<lparr>Resources := (Resources b)[nat p :=
      \<lparr>NumPieces = (NumPieces ?r)(CellFlag := NumPieces ?r CellFlag - 1)\<rparr>]\<rparr>"
    using assms(2,4) len by (auto simp: decPiece_def go_simps)
  then have rs: "rs = (Resources b)[nat p := \<lparr>NumPieces = (NumPieces ?r)(CellFlag := NumPieces ?r CellFlag - 1)\<rparr>]"
    by (cases b) simp
  show "pieces_ok rs" unfolding pieces_ok_def
  proof (intro conjI ballI)
    show "length rs = 2" by (simp add: rs len)
    fix r assume "r \<in> set rs"
    then have r: "r \<in> set (Resources b) \<or> r = \<lparr>NumPieces = (NumPieces ?r)(CellFlag := NumPieces ?r CellFlag - 1)\<rparr>"
      unfolding rs using set_update_subset_insert by fastforce
    have "?r \<in> set (Resources b)" using len assms(2) by auto
    with r assms(1,3) show "NumPieces r CellNormal = -1" "0 \<le> NumPieces r CellFlag"
      "\<forall>t. t \<noteq> CellNormal \<longrightarrow> t \<noteq> CellFlag \<longrightarrow> NumPieces r t = 0"
      unfolding pieces_ok_def by auto
  qed
  show "NumPieces (rs ! nat q) CellFlag = NumPieces (Resources b ! nat q) CellFlag - of_bool (q = p)" if "pidx q"
    using that assms(2) len by (auto simp: rs nth_list_update)
qed

text \<open>From the engine after the piece has been placed to the engine after the propagation.\<close>

lemma moved_frame:
  assumes g: "flagz_pos g" and m: "legal g m"
    and g2: "FlatFields (Brd g2) = FlatFields (Brd (placed (target m) (pieceOf g m) g))"
      "Fields (Brd g2) = Fields (Brd g)" "Score (Brd g2) = Score (Brd (placed (target m) (pieceOf g m) g))"
      "FreeCells g2 = FreeCells (placed (target m) (pieceOf g m) g)"
      "NormalMoves g2 = NormalMoves (placed (target m) (pieceOf g m) g)"
      "LastRevealed (Brd g2) = LastRevealed (Brd g)" "rnd g2 = rnd g"
    and fl: "flags_of g2 (Turn (Brd g) - 1) = flags_of g (Turn (Brd g) - 1) - of_bool (mvType m = CellFlag)"
      "flags_of g2 (1 - (Turn (Brd g) - 1)) = flags_of g (1 - (Turn (Brd g) - 1))"
    and fr: "nbframe (Turn (Brd g) - 1) g2 g'" "fld (Brd g') (target m) = pieceOf g m" "taken (target m) g2 g'"
  shows "moved g m g'"
proof -
  let ?p = "Turn (Brd g) - 1" and ?h = "pieceOf g m"
  note core = pos_core[OF g] and p = pos_turn[OF g]
  have h: "Owner ?h = ?p + 1" using pieceOf_ok[OF g m] by (simp add: piece_ok_def)
  have x: "valid (Brd g) (target m)" using m by (simp add: legal_def)
  have fl2: "fld (Brd g2) = fld (updf (Brd g) (target m) ?h)"
    using g2(1,2) by (simp add: fun_eq_iff fld_def fpos_def)
  have sc: "nat (1 - ?p) \<noteq> nat ?p" "nat ?p < length (Score (Brd g))" using p core_score[OF core] by auto
  have "cell_step ?p (fld (Brd g) z) (fld (Brd g') z)" if "valid (Brd g) z" "z \<noteq> target m" for z
  proof -
    have "cell_step ?p (fld (Brd g2) z) (fld (Brd g') z)"
      using fr(1) that same_shape(1)[OF g2(2)] by (simp add: nbframe_def)
    with that show ?thesis by (simp add: fl2 fld_updf[OF core_wf[OF core] x])
  qed
  moreover have "at2 (NormalMoves g') (1 - ?p) \<le> at2 (NormalMoves g) (1 - ?p)"
  proof -
    have "pidx (1 - ?p)" using p by auto
    then have "at2 (NormalMoves g2) (1 - ?p) \<le> at2 (NormalMoves g) (1 - ?p)"
      unfolding g2(5) by (subst placed_moves) auto
    with fr(1) show ?thesis by (simp add: nbframe_def)
  qed
  moreover have "captures (Brd g) (target m) (Value ?h) z"
    if z: "valid (Brd g) z" "isGrass (fld (Brd g) z)" "\<not> isGrass (fld (Brd g') z)" for z
  proof -
    note nb = same_shape(3)[OF g2(2)] and fu = fld_updf[OF core_wf[OF core] x]
    have "z \<noteq> target m" using z(2) m field_okD(6)[OF core_field[OF core x]] by (auto simp: legal_def)
    with z fr(3) x have "captures (Brd g2) (target m) (Value ?h) z"
      using same_shape(1)[OF g2(2)] by (simp add: taken_def fl2 fu)
    moreover have "grass_from (Brd g) (Brd g2)"
      using nb pieceOf_ok[OF g m] x by (simp add: grass_from_def fl2 fu piece_ok_def)
    ultimately show ?thesis by (rule captures_mono)
  qed
  moreover have "flags_of g' q = flags_of g2 q" for q using fr(1) by (simp add: nbframe_def flags_of_def)
  ultimately show ?thesis
    using fr g2 sc h fl unfolding moved_def Let_def nbframe_def by simp
qed

section \<open>The end of a move\<close>

lemma canMove_able: "pieces_ok (Resources (Brd g)) \<Longrightarrow> pidx p \<Longrightarrow> canMove g p = Some (able g p)"
  using pieces_okD(1)[of "Resources (Brd g)"]
  by (auto simp: canMove_def go_simps able_def flags_of_def)

lemma recomputeState_eq:
  assumes "pieces_ok (Resources (Brd g))" "length (Score (Brd g)) = 2"
  shows "recomputeState g = Some (g\<lparr>Brd := (Brd g)\<lparr>
    Turn := (if \<not> able g 0 \<and> able g 1 then 2 else if able g 0 \<and> \<not> able g 1 then 1 else Turn (Brd g)),
    State := (if over g then Finished else State (Brd g))\<rparr>\<rparr>)"
  using assms by (simp add: recomputeState_def canMove_able go_simps over_def)

lemma over_cong:
  assumes "Score (Brd g') = Score (Brd g)" "Resources (Brd g') = Resources (Brd g)"
    "FreeCells g' = FreeCells g" "NormalMoves g' = NormalMoves g"
  shows "able g' = able g" "over g' = over g"
  using assms by (simp_all add: able_def over_def flags_of_def fun_eq_iff)

lemma endMove_ok:
  assumes core: "flagz_core g" and edges: "flagz_edges (allEdges (Brd g)) g"
    and ps: "pieces_ok (Resources (Brd g))" and t: "pidx (Turn (Brd g) - 1)"
  shows "\<exists>g'. endMove g = Some (g', True) \<and> flagz_pos g' \<and> Move (Brd g') = Move (Brd g) + 1 \<and>
    g' = g\<lparr>Brd := (Brd g)\<lparr>Turn := Turn (Brd g'), Move := Move (Brd g'), State := State (Brd g')\<rparr>\<rparr> \<and>
    State (Brd g') = (if over g then Finished else State (Brd g)) \<and>
    (\<not> over g \<longrightarrow> able g (Turn (Brd g') - 1)) \<and>
    Turn (Brd g') = (if \<not> able g 0 \<and> able g 1 then 2 else if able g 0 \<and> \<not> able g 1 then 1
                     else 3 - Turn (Brd g))"
proof -
  let ?g1 = "g\<lparr>Brd := (Brd g)\<lparr>Turn := 3 - Turn (Brd g), Move := Move (Brd g) + 1\<rparr>\<rparr>"
  let ?t = "if \<not> able g 0 \<and> able g 1 then 2 else if able g 0 \<and> \<not> able g 1 then 1 else 3 - Turn (Brd g)"
  let ?g' = "g\<lparr>Brd := (Brd g)\<lparr>Turn := ?t, Move := Move (Brd g) + 1,
               State := (if over g then Finished else State (Brd g))\<rparr>\<rparr>"
  have cong: "able ?g1 = able g" "over ?g1 = over g" by (rule over_cong; simp)+
  have "endMove g = Some (?g', True)"
    using recomputeState_eq[of ?g1] ps core_score[OF core] by (simp add: endMove_def cong)
  moreover have "flagz_core ?g'" "flagz_edges (allEdges (Brd ?g')) ?g'"
    using core edges position_cong[of ?g' g] by simp_all
  then have "flagz_pos ?g'" using ps t by (auto simp: flagz_pos_def)
  moreover have "\<not> over g \<longrightarrow> able g (?t - 1)" using t by (auto simp: over_def)
  ultimately show ?thesis by (intro exI[of _ ?g']) simp
qed

section \<open>\<open>MakeMove\<close>\<close>

lemma MakeMove_refused:
  assumes "flagz_pos g" "\<not> legal g m"
  shows "Flagz_MakeMove g m = Some (g, False)"
proof -
  note p = pos_turn[OF assms(1)] and ps = pos_pieces[OF assms(1)]
  have "NumPieces (Resources (Brd g) ! nat (Turn (Brd g) - 1)) (mvType m) = 0"
    if "mvType m \<noteq> CellNormal" "mvType m \<noteq> CellFlag \<or> \<not> flags_of g (Turn (Brd g) - 1) > 0"
    using that pieces_okD(3,4)[OF ps p] unfolding flags_of_def by fastforce
  then show ?thesis
    using assms(2) p core_wf[OF pos_core[OF assms(1)]] pieces_okD(1)[OF ps]
    by (auto simp: Flagz_MakeMove_def go_simps Let_def legal_def)
qed

lemma MakeMove_steps:
  assumes g: "flagz_pos g" and m: "legal g m"
  defines "f \<equiv> fld (Brd g) (target m)"
  shows "Flagz_MakeMove g m = Option.bind
    (if mvType m = CellNormal then placeNormal g (target m) f (at2 (NextVal f) (Turn (Brd g) - 1))
     else placeFlag g (target m) f) endMove"
proof -
  note p = pos_turn[OF g] and ps = pos_pieces[OF g]
  have "NumPieces (Resources (Brd g) ! nat (Turn (Brd g) - 1)) (mvType m) \<noteq> 0"
    using m pieces_okD(2)[OF ps p] by (auto simp: legal_def flags_of_def)
  then show ?thesis
    using m p core_wf[OF pos_core[OF g]] pieces_okD(1)[OF ps]
    by (auto simp: Flagz_MakeMove_def go_simps Let_def legal_def f_def)
qed

lemma place_legal:
  assumes g: "flagz_pos g" and m: "legal g m"
  defines "f \<equiv> fld (Brd g) (target m)"
  shows "\<exists>g'. (if mvType m = CellNormal then placeNormal g (target m) f (at2 (NextVal f) (Turn (Brd g) - 1))
     else placeFlag g (target m) f) = Some g' \<and> flagz_core g' \<and> flagz_edges (allEdges (Brd g')) g' \<and>
     pieces_ok (Resources (Brd g')) \<and> Turn (Brd g') = Turn (Brd g) \<and> Move (Brd g') = Move (Brd g) \<and>
     State (Brd g') = State (Brd g) \<and> moved g m g'"
proof -
  note core = pos_core[OF g] and p = pos_turn[OF g] and ps = pos_pieces[OF g]
  have x: "valid (Brd g) (target m)" "free (fld (Brd g) (target m))" using m by (auto simp: legal_def)
  note prg = place_propagate[OF core pos_edges[OF g] x p pieceOf_ok[OF g m]]
  show ?thesis
  proof (cases "mvType m = CellNormal")
    case True
    let ?g1 = "placed (target m) (pieceOf g m) g"
    obtain g' where g': "updateNeighborCells (depthBound ?g1) ?g1 (target m) = Some g'" "flagz_core g'"
        "flagz_edges (allEdges (Brd g')) g'" "nbframe (Turn (Brd g) - 1) ?g1 g'"
        "fld (Brd g') (target m) = pieceOf g m" "taken (target m) ?g1 g'"
      using prg[of ?g1] by auto
    have "moved g m g'"
      by (rule moved_frame[OF g m _ _ _ _ _ _ _ _ _ g'(4-6)]) (simp_all add: flags_of_def True)
    with g' placeNormal_eq[OF g m True] ps show ?thesis
      by (simp add: True f_def nbframe_def)
  next
    case False
    then have fl: "mvType m = CellFlag" "flags_of g (Turn (Brd g) - 1) > 0" using m by (auto simp: legal_def)
    from placeFlag_eq[OF g m fl(1)] obtain g2 where g2:
      "placeFlag g (target m) (fld (Brd g) (target m)) = updateNeighborCells (depthBound g2) g2 (target m)"
      "FlatFields (Brd g2) = FlatFields (Brd (placed (target m) (pieceOf g m) g))"
      "Fields (Brd g2) = Fields (Brd g)" "Score (Brd g2) = Score (Brd (placed (target m) (pieceOf g m) g))"
      "FreeCells g2 = FreeCells (placed (target m) (pieceOf g m) g)"
      "NormalMoves g2 = NormalMoves (placed (target m) (pieceOf g m) g)"
      "LastRevealed (Brd g2) = LastRevealed (Brd g)" "rnd g2 = rnd g"
      "Turn (Brd g2) = Turn (Brd g)" "Move (Brd g2) = Move (Brd g)" "State (Brd g2) = State (Brd g)"
      "decPiece (Brd g) (Turn (Brd g) - 1) CellFlag = Some ((Brd g)\<lparr>Resources := Resources (Brd g2)\<rparr>)"
      by metis
    note pd = pieces_dec[OF ps p fl(2)[unfolded flags_of_def] g2(12)]
    obtain g' where g': "updateNeighborCells (depthBound g2) g2 (target m) = Some g'" "flagz_core g'"
        "flagz_edges (allEdges (Brd g')) g'" "nbframe (Turn (Brd g) - 1) g2 g'"
        "fld (Brd g') (target m) = pieceOf g m" "taken (target m) g2 g'"
      using prg[OF g2(2-6)] by auto
    have "moved g m g'"
      by (rule moved_frame[OF g m g2(2-8) _ _ g'(4-6)]) (use pd(2)[of 0] pd(2)[of 1] p fl in \<open>auto simp: flags_of_def\<close>)
    with g' g2 pd(1) False show ?thesis by (simp add: f_def nbframe_def)
  qed
qed

lemma MakeMove_legal:
  assumes g: "flagz_pos g" and m: "legal g m"
  shows "\<exists>g'. Flagz_MakeMove g m = Some (g', True) \<and> flagz_pos g' \<and> moved g m g' \<and>
    Move (Brd g') = Move (Brd g) + 1 \<and> State (Brd g') = (if over g' then Finished else State (Brd g)) \<and>
    (\<not> over g' \<longrightarrow> able g' (Turn (Brd g') - 1)) \<and>
    Turn (Brd g') = (if \<not> able g' 0 \<and> able g' 1 then 2 else if able g' 0 \<and> \<not> able g' 1 then 1
                     else 3 - Turn (Brd g))"
proof -
  obtain g1 where g1: "(if mvType m = CellNormal
        then placeNormal g (target m) (fld (Brd g) (target m))
               (at2 (NextVal (fld (Brd g) (target m))) (Turn (Brd g) - 1))
        else placeFlag g (target m) (fld (Brd g) (target m))) = Some g1"
      "flagz_core g1" "flagz_edges (allEdges (Brd g1)) g1" "pieces_ok (Resources (Brd g1))"
      "Turn (Brd g1) = Turn (Brd g)" "Move (Brd g1) = Move (Brd g)" "State (Brd g1) = State (Brd g)"
      "moved g m g1"
    using place_legal[OF g m] by blast
  from endMove_ok[OF g1(2-4)] g1(5) pos_turn[OF g] obtain g' where g': "endMove g1 = Some (g', True)"
      "flagz_pos g'" "Move (Brd g') = Move (Brd g1) + 1"
      "g' = g1\<lparr>Brd := (Brd g1)\<lparr>Turn := Turn (Brd g'), Move := Move (Brd g'), State := State (Brd g')\<rparr>\<rparr>"
      "State (Brd g') = (if over g1 then Finished else State (Brd g1))"
      "\<not> over g1 \<longrightarrow> able g1 (Turn (Brd g') - 1)"
      "Turn (Brd g') = (if \<not> able g1 0 \<and> able g1 1 then 2 else if able g1 0 \<and> \<not> able g1 1 then 1
                        else 3 - Turn (Brd g1))"
    by auto
  have same: "Score (Brd g') = Score (Brd g1)" "Resources (Brd g') = Resources (Brd g1)"
    "FreeCells g' = FreeCells g1" "NormalMoves g' = NormalMoves g1" "rnd g' = rnd g1"
    "Fields (Brd g') = Fields (Brd g1)" "FlatFields (Brd g') = FlatFields (Brd g1)"
    "LastRevealed (Brd g') = LastRevealed (Brd g1)"
    by (subst g'(4), simp)+
  then have fl: "fld (Brd g') = fld (Brd g1)" by (simp add: fun_eq_iff fld_def fpos_def)
  have "moved g m g'" using g1(8) same fl by (simp add: moved_def flags_of_def Let_def)
  moreover have "Flagz_MakeMove g m = Some (g', True)"
    using MakeMove_steps[OF g m] g1(1) g'(1) by simp
  ultimately show ?thesis
    using g'(2,3,5-7) g1(5-7) over_cong[of g' g1, OF same(1-4)] by (intro exI[of _ g']) simp
qed

text \<open>Once the game is over, it stays over, with the same player in the lead.\<close>

lemma over_stays:
  assumes g: "flagz_pos g" "over g" and m: "legal g m" and g': "moved g m g'"
  shows "over g'" "Score (Brd g) ! 0 > Score (Brd g) ! 1 \<longleftrightarrow> Score (Brd g') ! 0 > Score (Brd g') ! 1"
    "Score (Brd g) ! 1 > Score (Brd g) ! 0 \<longleftrightarrow> Score (Brd g') ! 1 > Score (Brd g') ! 0"
proof -
  let ?p = "Turn (Brd g) - 1" and ?s = "Score (Brd g)" and ?s' = "Score (Brd g')"
  have p: "?p = 0 \<and> 1 - ?p = 1 \<or> ?p = 1 \<and> 1 - ?p = 0" using pos_turn[OF g(1)] by auto
  have "able g ?p" "FreeCells g > 0" by (rule legal_able[OF g(1) m] legal_free[OF g(1) m])+
  with g(2) p have lead: "?s ! nat ?p > ?s ! nat (1 - ?p)" "\<not> able g (1 - ?p)"
    by (auto simp: over_def)
  have mv: "?s' ! nat (1 - ?p) = ?s ! nat (1 - ?p)" "?s ! nat ?p + Value (pieceOf g m) \<le> ?s' ! nat ?p"
    "at2 (NormalMoves g') (1 - ?p) \<le> at2 (NormalMoves g) (1 - ?p)" "flags_of g' (1 - ?p) = flags_of g (1 - ?p)"
    using g' by (auto simp: moved_def Let_def)
  have "0 \<le> Value (pieceOf g m)" using pieceOf_ok[OF g(1) m] field_okD(1) by (auto simp: piece_ok_def)
  with lead(1) mv have lead': "?s' ! nat ?p > ?s' ! nat (1 - ?p)" by linarith
  have "\<not> able g' (1 - ?p)" using lead(2) mv(3,4) \<open>FreeCells g > 0\<close> by (auto simp: able_def)
  with lead' p show "over g'" by (auto simp: over_def)
  from lead(1) lead' p show "?s ! 0 > ?s ! 1 \<longleftrightarrow> ?s' ! 0 > ?s' ! 1" "?s ! 1 > ?s ! 0 \<longleftrightarrow> ?s' ! 1 > ?s' ! 0"
    by auto
qed

lemma MakeMove_inv:
  assumes g: "flagz_inv g"
  shows "\<exists>g' ok. Flagz_MakeMove g m = Some (g', ok) \<and> flagz_inv g' \<and> (ok \<longleftrightarrow> legal g m) \<and>
    (if ok then moved g m g' \<and> Move (Brd g') = Move (Brd g) + 1 else g' = g)"
proof (cases "legal g m")
  case False
  with MakeMove_refused[OF inv_pos[OF g]] g show ?thesis by auto
next
  case True
  from MakeMove_legal[OF inv_pos[OF g] True] obtain g' where g': "Flagz_MakeMove g m = Some (g', True)"
    "flagz_pos g'" "moved g m g'" "Move (Brd g') = Move (Brd g) + 1"
    "State (Brd g') = (if over g' then Finished else State (Brd g))"
    "\<not> over g' \<longrightarrow> able g' (Turn (Brd g') - 1)" by blast
  moreover have "flagz_inv g'"
    using g' g over_stays(1)[OF inv_pos[OF g] _ True g'(3)] by (auto simp: flagz_inv_def)
  ultimately show ?thesis using True by auto
qed

lemma scores_nonneg: "flagz_core g \<Longrightarrow> \<exists>a b. Score (Brd g) = [a, b] \<and> 0 \<le> a \<and> 0 \<le> b"
proof -
  assume core: "flagz_core g"
  have nn: "0 \<le> Score (Brd g) ! nat p" if "pidx p" for p
    unfolding core_sum[OF core that] using core
    by (intro sum_list_nonneg) (auto simp: flagz_core_def ownedVal_def field_okD(1))
  have "Score (Brd g) = [Score (Brd g) ! 0, Score (Brd g) ! 1]"
    using core_score[OF core] by (auto simp: list_eq_iff_nth_eq less_2_cases_iff)
  with nn[of 0] nn[of 1] show ?thesis by (intro exI[of _ "Score (Brd g) ! 0"] exI[of _ "Score (Brd g) ! 1"]) simp
qed

lemma Winner_eq:
  assumes "flagz_inv g"
  shows "Flagz_Winner g = (if \<not> over g then 0 else if Score (Brd g) ! 0 > Score (Brd g) ! 1 then 1
    else if Score (Brd g) ! 1 > Score (Brd g) ! 0 then 2 else 0)"
proof -
  obtain a b where "Score (Brd g) = [a, b]" "0 \<le> a" "0 \<le> b"
    using scores_nonneg[OF pos_core[OF inv_pos[OF assms]]] by blast
  then show ?thesis using assms by (simp add: Flagz_Winner_def Flagz_IsDone_def flagz_inv_def)
qed

lemma Winner_frozen:
  assumes g: "flagz_inv g" "over g" and m: "Flagz_MakeMove g m = Some (g', ok)"
  shows "flagz_inv g' \<and> over g' \<and> Flagz_Winner g' = Flagz_Winner g"
proof (cases "legal g m")
  case False
  with MakeMove_refused[OF inv_pos[OF g(1)]] m g show ?thesis by simp
next
  case True
  with MakeMove_inv[OF g(1), of m] m have g': "flagz_inv g'" "moved g m g'" by auto
  with over_stays[OF inv_pos[OF g(1)] g(2) True g'(2)] g(2) show ?thesis
    by (simp add: Winner_eq[OF g(1)] Winner_eq[OF g'(1)])
qed

end
