(* ===== verification/FlagzPlay.thy ===== *)
theory FlagzPlay
  imports FlagzGame
begin

text \<open>
  Starting and playing Flagz: \<open>Reset\<close> establishes the invariant for every stream of random
  numbers, \<open>RandomMove\<close> finds a legal move in every running game and can find each of them, the
  engine satisfies both engine interfaces, and the properties of the engine as theorems.
\<close>

section \<open>Setting up\<close>

definition setup_field :: "field \<Rightarrow> bool" where
  "setup_field f \<longleftrightarrow> f = zeroField \<or> f = zeroField\<lparr>Type := CellRock, Lifetime := -1\<rparr> \<or>
     (\<exists>v. 1 \<le> v \<and> v \<le> 5 \<and> f = zeroField\<lparr>Type := CellGrass, Lifetime := -1, Value := v\<rparr>)"

lemma setup_fieldD:
  assumes "setup_field f"
  shows "field_ok f" "Owner f = 0" "NextVal f = Arr2 0 0" "free f \<Longrightarrow> f = zeroField"
  using assms by (auto simp: setup_field_def field_ok_def zeroField_def cache_ok_def occupied_def)

lemma zeroField_free [simp]: "free zeroField" "Owner zeroField = 0"
  by (simp_all add: zeroField_def occupied_def)

text \<open>Overwriting one free cell of a slice by a cell the set-up places.\<close>

lemma setup_update:
  assumes "\<forall>f \<in> set fs. setup_field f" "k < length fs" "free (fs ! k)" "setup_field h" "occupied h"
  shows "\<forall>f \<in> set (fs[k := h]). setup_field f" "cnt occupied (fs[k := h]) = cnt occupied fs + 1"
proof -
  show "\<forall>f \<in> set (fs[k := h]). setup_field f"
    using assms(1,4) set_update_subset_insert[of fs k h] by blast
  show "cnt occupied (fs[k := h]) = cnt occupied fs + 1"
    using assms(3,5) by (simp add: cnt_update[OF assms(2)])
qed

lemma placeRocks_ok:
  assumes "fs \<noteq> []" "\<forall>f \<in> set fs. setup_field f" "i \<le> 15" "cnt occupied fs = i"
  shows "\<exists>fs' s'. placeRocks j i fs s = Some (fs', s') \<and> length fs' = length fs \<and>
    (\<forall>f \<in> set fs'. setup_field f) \<and> cnt occupied fs' \<le> 15"
  using assms
proof (induction j arbitrary: i fs s)
  case 0
  then show ?case by simp
next
  case (Suc j)
  show ?case
  proof (cases "i < 15")
    case False
    with Suc.prems show ?thesis by (simp add: flagzNumRockCells_def)
  next
    case True
    let ?k = "int (shd s) mod int (length fs)"
    let ?h = "(fs ! nat ?k)\<lparr>Type := CellRock, Lifetime := -1\<rparr>"
    have k: "0 \<le> ?k" "?k < int (length fs)" using Suc.prems(1) by simp_all
    have nk: "nat ?k < length fs" using k by simp
    show ?thesis
    proof (cases "free (fs ! nat ?k)")
      case True
      have "fs ! nat ?k = zeroField"
        using Suc.prems(2) setup_fieldD(4)[OF _ True] nk by simp
      then have h: "setup_field ?h" "occupied ?h" by (auto simp: setup_field_def occupied_def)
      note up = setup_update[OF Suc.prems(2) nk True h]
      from Suc.IH[of "fs[nat ?k := ?h]" "i + 1" "stl s"] Suc.prems(1,4) up \<open>i < 15\<close> True k show ?thesis
        by (simp add: go_simps Intn_in flagzNumRockCells_def)
    next
      case False
      with Suc.IH[of fs i "stl s"] Suc.prems \<open>i < 15\<close> k show ?thesis
        by (simp add: go_simps Intn_in flagzNumRockCells_def)
    qed
  qed
qed

lemma placeGrass_ok:
  assumes "fs \<noteq> []" "\<forall>f \<in> set fs. setup_field f" "0 \<le> v" "v \<le> 5" "cnt occupied fs \<le> 15 + v"
  shows "\<exists>fs' s'. placeGrass j v fs s = Some (fs', s') \<and> length fs' = length fs \<and>
    (\<forall>f \<in> set fs'. setup_field f) \<and> cnt occupied fs' \<le> 20"
  using assms
proof (induction j arbitrary: v fs s)
  case 0
  then show ?case by simp
next
  case (Suc j)
  show ?case
  proof (cases "v < 5")
    case False
    with Suc.prems show ?thesis by (simp add: flagzNumGrassCells_def)
  next
    case True
    let ?k = "int (shd s) mod int (length fs)"
    let ?h = "(fs ! nat ?k)\<lparr>Type := CellGrass, Lifetime := -1, Value := v + 1\<rparr>"
    have k: "0 \<le> ?k" "?k < int (length fs)" using Suc.prems(1) by simp_all
    have nk: "nat ?k < length fs" using k by simp
    show ?thesis
    proof (cases "free (fs ! nat ?k)")
      case True
      have "fs ! nat ?k = zeroField"
        using Suc.prems(2) setup_fieldD(4)[OF _ True] nk by simp
      then have h: "setup_field ?h" "occupied ?h"
        using \<open>v < 5\<close> Suc.prems(3) by (auto simp: setup_field_def occupied_def intro!: exI[of _ "v + 1"])
      note up = setup_update[OF Suc.prems(2) nk True h]
      from Suc.IH[of "fs[nat ?k := ?h]" "v + 1" "stl s"] Suc.prems(1,3,5) up \<open>v < 5\<close> True k show ?thesis
        by (simp add: go_simps Intn_in flagzNumGrassCells_def)
    next
      case False
      with Suc.IH[of fs v "stl s"] Suc.prems \<open>v < 5\<close> k show ?thesis
        by (simp add: go_simps Intn_in flagzNumGrassCells_def)
    qed
  qed
qed

lemma countFree_cnt: "countFree fs = cnt free fs"
proof -
  have "fold (\<lambda>f n. if \<not> occupied f then n + 1 else n) fs n = n + cnt free fs" for n :: int
    by (induction fs arbitrary: n) (simp_all add: cnt_Cons)
  then show ?thesis by (simp add: countFree_def)
qed

lemma cnt_compl: "cnt (\<lambda>x. \<not> P x) xs = int (length xs) - cnt P xs"
  by (induction xs) (auto simp: cnt_Cons)

text \<open>A board as \<open>Reset\<close> leaves it satisfies the invariant.\<close>

lemma setup_inv:
  assumes fs: "length fs = 105" "\<forall>f \<in> set fs. setup_field f" "cnt occupied fs \<le> 20"
    and g: "Brd g = NewBoard\<lparr>Score := [0, 0], Resources := replicate 2
        \<lparr>NumPieces = noPieces(CellNormal := -1, CellFlag := 3)\<rparr>, FlatFields := fs, State := Running\<rparr>"
      "FreeCells g = countFree fs" "NormalMoves g = Arr2 0 0"
  shows "flagz_inv g"
proof -
  have wf: "wf_board (Brd g)"
    using wf_NewBoard fs(1) by (subst wf_board_cong[of _ NewBoard]) (simp_all add: g(1) length_makeFields)
  have free85: "FreeCells g \<ge> 85" using fs(1,3) by (simp add: g(2) countFree_cnt cnt_compl)
  have fl: "setup_field (fld (Brd g) x)" if "valid (Brd g) x" for x
    using fs(2) fld_in_set[OF wf that] by (simp add: g(1))
  have "cnt (avail p) fs = 0" for p
    unfolding cnt_zero_iff using fs(2) setup_fieldD(3) by (fastforce simp: avail_def)
  moreover have "sum_list (map (ownedVal p) fs) = 0" if "pidx p" for p
  proof -
    have "map (ownedVal p) fs = map (\<lambda>_. 0) fs"
      using fs(2) that setup_fieldD(2) by (fastforce simp: ownedVal_def)
    then show ?thesis by (metis sum_list_0)
  qed
  ultimately have core: "flagz_core g"
    unfolding flagz_core_def using wf fs(2) setup_fieldD(1) by (auto simp: g countFree_cnt)
  have edges: "allEdges (Brd g) = {}" "flagz_edges {} g"
    using fl setup_fieldD(2,3) by (auto simp: allEdges_def flagz_edges_def vals_def nextVal_of_def)
  have ps: "pieces_ok (Resources (Brd g))" by (auto simp: g(1) pieces_ok_def noPieces_def)
  have "able g p" if "pidx p" for p using free85 that by (auto simp: able_def flags_of_def g(1))
  then have "\<not> over g" "able g 0" using free85 by (auto simp: over_def)
  then show ?thesis using core edges ps by (simp add: flagz_inv_def flagz_pos_def g(1))
qed

lemma Reset_ok:
  "\<exists>g'. Flagz_Reset g = Some g' \<and> flagz_inv g' \<and> \<not> over g' \<and> Turn (Brd g') = 1 \<and> Move (Brd g') = 0 \<and>
    85 \<le> FreeCells g' \<and> Score (Brd g') = [0, 0] \<and> length (FlatFields (Brd g')) = 105 \<and>
    (\<forall>f \<in> set (FlatFields (Brd g')). Owner f = 0) \<and> flags_of g' 0 = 3 \<and> flags_of g' 1 = 3"
proof -
  let ?fs = "fst makeFields"
  have len: "length ?fs = 105" by (rule length_makeFields)
  then have ne: "?fs \<noteq> []" by auto
  have z: "\<forall>f \<in> set ?fs. setup_field f" "cnt occupied ?fs = 0"
    by (auto simp: cnt_zero_iff dest!: fields_makeFields) (simp add: setup_field_def)
  obtain fs1 s1 where r: "placeRocks (length ?fs) 0 ?fs (rnd g) = Some (fs1, s1)" "length fs1 = 105"
      "\<forall>f \<in> set fs1. setup_field f" "cnt occupied fs1 \<le> 15"
    using placeRocks_ok[OF ne z(1) _ z(2), of "length ?fs" "rnd g"] len by auto
  then have ne1: "fs1 \<noteq> []" by auto
  obtain fs2 s2 where f: "placeGrass (length ?fs) 0 fs1 s1 = Some (fs2, s2)" "length fs2 = 105"
      "\<forall>f \<in> set fs2. setup_field f" "cnt occupied fs2 \<le> 20"
    using placeGrass_ok[OF ne1 r(3), of 0 "length ?fs" s1] r(2,4) by auto
  define g' where "g' = g\<lparr>Brd := NewBoard\<lparr>Score := [0, 0], Resources := replicate 2
        \<lparr>NumPieces = noPieces(CellNormal := -1, CellFlag := 3)\<rparr>, FlatFields := fs2, State := Running\<rparr>,
      FreeCells := countFree fs2, NormalMoves := Arr2 0 0, rnd := s2\<rparr>"
  have "Flagz_Reset g = Some g'"
    using r(1) f(1)
    by (simp add: Flagz_Reset_def InitializeResources_def PopulateInitialCells_def Let_def g'_def numeral_2_eq_2)
  moreover have inv: "flagz_inv g'" by (rule setup_inv[OF f(2-4)]) (simp_all add: g'_def)
  moreover have "85 \<le> FreeCells g'" using f(2,4) by (simp add: g'_def countFree_cnt cnt_compl)
  moreover from this have "able g' 0" "able g' 1" by (auto simp: g'_def able_def flags_of_def)
  with \<open>85 \<le> FreeCells g'\<close> have "\<not> over g'" by (auto simp: over_def)
  ultimately show ?thesis using f(2,3) setup_fieldD(2) by (auto simp: g'_def flags_of_def)
qed

section \<open>The random player\<close>

lemma nthFree_hit:
  assumes wf: "wf_board b" and xs: "\<forall>x \<in> set xs. valid b x" "n \<le> k" "k < n + cnt (free \<circ> fld b) xs"
  shows "\<exists>x \<in> set xs. nthFree b xs n k = Some (Some x) \<and> free (fld b x)"
  using xs
proof (induction xs arbitrary: n)
  case (Cons x xs)
  show ?case
  proof (cases "free (fld b x) \<and> n = k")
    case True
    with Cons.prems wf show ?thesis by (simp add: go_simps)
  next
    case False
    with Cons.prems have "\<exists>y \<in> set xs. nthFree b xs (n + of_bool (free (fld b x))) k = Some (Some y) \<and> free (fld b y)"
      by (intro Cons.IH) (auto simp: cnt_Cons)
    with Cons.prems(1) wf False show ?thesis by (auto simp: go_simps)
  qed
qed simp

lemma nthAvail_hit:
  assumes wf: "wf_board b" and t: "pidx (Turn b - 1)"
    and xs: "\<forall>x \<in> set xs. valid b x" "n \<le> k" "k < n + cnt (avail (Turn b - 1) \<circ> fld b) xs"
  shows "\<exists>x \<in> set xs. nthAvail b xs n k = Some (Some x) \<and> avail (Turn b - 1) (fld b x)"
  using xs
proof (induction xs arbitrary: n)
  case (Cons x xs)
  have step: "nthAvail b (x # xs) n k = (if avail (Turn b - 1) (fld b x)
      then if n = k then Some (Some x) else nthAvail b xs (n + 1) k else nthAvail b xs n k)"
    using Cons.prems(1) wf t by (auto simp: go_simps isAvail_def avail_def)
  show ?case
  proof (cases "avail (Turn b - 1) (fld b x) \<and> n = k")
    case True
    with step show ?thesis by simp
  next
    case False
    with Cons.prems have "\<exists>y \<in> set xs. nthAvail b xs (n + of_bool (avail (Turn b - 1) (fld b x))) k = Some (Some y) \<and>
        avail (Turn b - 1) (fld b y)"
      by (intro Cons.IH) (auto simp: cnt_Cons)
    with step False show ?thesis by auto
  qed
qed simp

text \<open>Every free (or takeable) cell is the one the search loop finds, for its own rank.\<close>

lemma nthFree_rank:
  assumes wf: "wf_board b" and v: "\<forall>z \<in> set (xs @ x # ys). valid b z" and x: "free (fld b x)"
  shows "nthFree b (xs @ x # ys) n (n + cnt (\<lambda>a. free (fld b a)) xs) = Some (Some x)"
  using v
proof (induction xs arbitrary: n)
  case Nil
  then show ?case using wf x by (simp add: go_simps)
next
  case (Cons z zs)
  have "1 + cnt (\<lambda>a. free (fld b a)) zs \<noteq> 0" using cnt_nonneg[of "\<lambda>a. free (fld b a)" zs] by linarith
  with Cons.IH[of "n + 1"] Cons.IH[of n] Cons.prems wf show ?case
    by (simp add: go_simps cnt_Cons add.assoc)
qed

lemma nthAvail_rank:
  assumes wf: "wf_board b" and t: "pidx (Turn b - 1)"
    and v: "\<forall>z \<in> set (xs @ x # ys). valid b z" and x: "avail (Turn b - 1) (fld b x)"
  shows "nthAvail b (xs @ x # ys) n (n + cnt (\<lambda>a. avail (Turn b - 1) (fld b a)) xs) = Some (Some x)"
  using v
proof (induction xs arbitrary: n)
  case Nil
  then show ?case using wf x t by (auto simp add: go_simps isAvail_def avail_def)
next
  case (Cons z zs)
  have "nthAvail b (z # zs @ x # ys) n k = (if avail (Turn b - 1) (fld b z)
      then if n = k then Some (Some z) else nthAvail b (zs @ x # ys) (n + 1) k
      else nthAvail b (zs @ x # ys) n k)" for k
    using Cons.prems(1) wf t by (auto simp: go_simps isAvail_def avail_def)
  moreover have "1 + cnt (\<lambda>a. avail (Turn b - 1) (fld b a)) zs \<noteq> 0"
    using cnt_nonneg[of "\<lambda>a. avail (Turn b - 1) (fld b a)" zs] by linarith
  ultimately show ?case using Cons.IH[of "n + 1"] Cons.IH[of n] Cons.prems
    by (simp add: cnt_Cons add.assoc del: nthAvail.simps)
qed

lemma rnd_cong [simp]:
  "legal (g\<lparr>rnd := s\<rparr>) m = legal g m" "flagz_inv (g\<lparr>rnd := s\<rparr>) = flagz_inv g"
  "over (g\<lparr>rnd := s\<rparr>) = over g"
proof -
  have able: "able (g\<lparr>rnd := s\<rparr>) = able g" by (simp add: fun_eq_iff able_def flags_of_def)
  then show "over (g\<lparr>rnd := s\<rparr>) = over g" by (simp add: over_def)
  with able position_cong[of "g\<lparr>rnd := s\<rparr>" g] show "flagz_inv (g\<lparr>rnd := s\<rparr>) = flagz_inv g"
    by (simp add: flagz_inv_def flagz_pos_def)
  show "legal (g\<lparr>rnd := s\<rparr>) m = legal g m" by (simp add: legal_def flags_of_def)
qed

text \<open>\<open>RandomMove\<close> on a running game, its two searches apart.\<close>

definition wantsFlag :: "flagz \<Rightarrow> bool \<times> rng" where
  "wantsFlag g = (let n = at2 (NormalMoves g) (Turn (Brd g) - 1) in
     if FreeCells g > 0 \<and> flags_of g (Turn (Brd g) - 1) > 0
     then if n = 0 then (True, rnd g)
          else (fst (Float64 (rnd g)) \<le> 1 / of_int (n + 1), snd (Float64 (rnd g)))
     else (False, rnd g))"

lemma RandomMove_eq:
  assumes "flagz_inv g" "\<not> over g"
  shows "RandomMove g = (if fst (wantsFlag g)
    then do { (k, s) \<leftarrow> Intn (FreeCells g) (snd (wantsFlag g));
              r \<leftarrow> nthFree (Brd g) (allIdx (Brd g)) 0 k;
              m \<leftarrow> found (Brd g) CellFlag r; Some (Inr m, g\<lparr>rnd := s\<rparr>) }
    else do { (k, s) \<leftarrow> Intn (at2 (NormalMoves g) (Turn (Brd g) - 1)) (snd (wantsFlag g));
              r \<leftarrow> nthAvail (Brd g) (allIdx (Brd g)) 0 k;
              m \<leftarrow> found (Brd g) CellNormal r; Some (Inr m, g\<lparr>rnd := s\<rparr>) })"
proof -
  note g = inv_pos[OF assms(1)]
  have "State (Brd g) = Running" using assms by (simp add: flagz_inv_def)
  with pos_turn[OF g] pieces_okD(1)[OF pos_pieces[OF g]] show ?thesis
    by (auto simp: RandomMove_def go_simps wantsFlag_def flags_of_def Let_def case_prod_beta)
qed

lemma moveAt_sel [simp]:
  "mvPlayer (moveAt b t x) = Turn b" "mvMove (moveAt b t x) = Move b" "mvType (moveAt b t x) = t"
  "target (moveAt b t x) = x"
  by (simp_all add: moveAt_def)

lemma legal_moveAt:
  "legal g (moveAt (Brd g) CellFlag x) \<longleftrightarrow> valid (Brd g) x \<and> free (fld (Brd g) x) \<and> flags_of g (Turn (Brd g) - 1) > 0"
  "legal g (moveAt (Brd g) CellNormal x) \<longleftrightarrow> valid (Brd g) x \<and> avail (Turn (Brd g) - 1) (fld (Brd g) x)"
  unfolding legal_def moveAt_sel by (auto simp: avail_def)

lemma cnt_moves:
  assumes "flagz_inv g"
  shows "FreeCells g = cnt (\<lambda>a. free (fld (Brd g) a)) (allIdx (Brd g))"
    "at2 (NormalMoves g) (Turn (Brd g) - 1) =
       cnt (\<lambda>a. avail (Turn (Brd g) - 1) (fld (Brd g) a)) (allIdx (Brd g))"
proof -
  note core = pos_core[OF inv_pos[OF assms]]
  note eq = cnt_allIdx[OF core_wf[OF core], unfolded comp_def]
  show "FreeCells g = cnt (\<lambda>a. free (fld (Brd g) a)) (allIdx (Brd g))"
    unfolding eq[of free] by (rule core_free[OF core])
  show "at2 (NormalMoves g) (Turn (Brd g) - 1) =
      cnt (\<lambda>a. avail (Turn (Brd g) - 1) (fld (Brd g) a)) (allIdx (Brd g))"
    unfolding eq[of "avail _"] by (rule core_moves[OF core pos_turn[OF inv_pos[OF assms]]])
qed

lemma RandomMove_legal:
  assumes g: "flagz_inv g" "\<not> over g"
  shows "\<exists>m s. RandomMove g = Some (Inr m, g\<lparr>rnd := s\<rparr>) \<and> legal g m"
proof (cases "fst (wantsFlag g)")
  case True
  note core = pos_core[OF inv_pos[OF g(1)]]
  have fl: "flags_of g (Turn (Brd g) - 1) > 0" "FreeCells g > 0"
    using True by (auto simp: wantsFlag_def Let_def split: if_splits)
  from Intn_Some[OF fl(2)] obtain k s where k: "Intn (FreeCells g) (snd (wantsFlag g)) = Some (k, s)"
    "0 \<le> k" "k < FreeCells g" by blast
  obtain x where "x \<in> set (allIdx (Brd g))" "nthFree (Brd g) (allIdx (Brd g)) 0 k = Some (Some x)"
      "free (fld (Brd g) x)"
    using nthFree_hit[OF core_wf[OF core], of "allIdx (Brd g)" 0 k] k(2,3) cnt_moves(1)[OF g(1)]
    by (auto simp: valid_iff_allIdx comp_def)
  with fl(1) k(1) True show ?thesis
    by (auto simp: RandomMove_eq[OF g] found_def legal_moveAt valid_iff_allIdx)
next
  case False
  note core = pos_core[OF inv_pos[OF g(1)]] and t = pos_turn[OF inv_pos[OF g(1)]]
  have "able g (Turn (Brd g) - 1)" using g by (simp add: flagz_inv_def)
  moreover have "0 \<le> at2 (NormalMoves g) (Turn (Brd g) - 1)" unfolding cnt_moves(2)[OF g(1)] by simp
  ultimately have n: "0 < at2 (NormalMoves g) (Turn (Brd g) - 1)"
    using False by (auto simp: wantsFlag_def able_def Let_def split: if_splits)
  from Intn_Some[OF n] obtain k s where k: "Intn (at2 (NormalMoves g) (Turn (Brd g) - 1)) (snd (wantsFlag g)) = Some (k, s)"
    "0 \<le> k" "k < at2 (NormalMoves g) (Turn (Brd g) - 1)" by blast
  obtain x where "x \<in> set (allIdx (Brd g))" "nthAvail (Brd g) (allIdx (Brd g)) 0 k = Some (Some x)"
      "avail (Turn (Brd g) - 1) (fld (Brd g) x)"
    using nthAvail_hit[OF core_wf[OF core] t, of "allIdx (Brd g)" 0 k] k(2,3) cnt_moves(2)[OF g(1)]
    by (auto simp: valid_iff_allIdx comp_def)
  with k(1) False show ?thesis
    by (auto simp: RandomMove_eq[OF g] found_def legal_moveAt valid_iff_allIdx)
qed

text \<open>Every legal move is drawn for some outcome of the random numbers.\<close>

lemma legal_is_moveAt:
  "legal g m \<Longrightarrow> m = moveAt (Brd g) (mvType m) (target m) \<and> (mvType m = CellFlag \<or> mvType m = CellNormal)"
  by (cases m) (auto simp: legal_def moveAt_def)

lemma Float64_max: "fst (Float64 ((2 ^ 53 - 1) ## s)) = 1 - 1 / 2 ^ 53" "snd (Float64 (n ## s)) = s"
  "fst (Float64 (0 ## s)) = 0"
  by (simp_all add: Float64_def)

lemma RandomMove_reaches:
  assumes g: "flagz_inv g" "\<not> over g" and m: "legal g m"
  shows "\<exists>s s'. RandomMove (g\<lparr>rnd := s\<rparr>) = Some (Inr m, g\<lparr>rnd := s'\<rparr>)"
proof -
  let ?b = "Brd g" and ?x = "target m" and ?p = "Turn (Brd g) - 1"
  note wf = core_wf[OF pos_core[OF inv_pos[OF g(1)]]] and t = pos_turn[OF inv_pos[OF g(1)]]
  have x: "?x \<in> set (allIdx ?b)" "free (fld ?b ?x)" using m by (auto simp: legal_def valid_iff_allIdx)
  then obtain xs ys where xy: "allIdx ?b = xs @ ?x # ys" by (meson split_list)
  have all: "\<forall>z \<in> set (xs @ ?x # ys). valid ?b z" by (simp add: xy[symmetric] valid_iff_allIdx)
  have g': "flagz_inv (g\<lparr>rnd := s\<rparr>)" "\<not> over (g\<lparr>rnd := s\<rparr>)" for s using g by simp_all
  note rm = RandomMove_eq[OF g']
  from legal_is_moveAt[OF m] consider (flag) "mvType m = CellFlag" "m = moveAt ?b CellFlag ?x"
    | (nrml) "mvType m = CellNormal" "m = moveAt ?b CellNormal ?x" by metis
  then show ?thesis
  proof cases
    case flag
    define k where "k = cnt (\<lambda>a. free (fld ?b a)) xs"
    have k: "0 \<le> k" "k < FreeCells g"
      using cnt_nonneg[of "\<lambda>a. free (fld ?b a)" ys] x(2) unfolding cnt_moves(1)[OF g(1)] xy k_def
      by (simp_all add: cnt_simps add_pos_nonneg)
    have "flags_of g ?p > 0" using m flag(1) by (auto simp: legal_def)
    then obtain s where s: "wantsFlag (g\<lparr>rnd := s\<rparr>) = (True, nat k ## sconst 0)"
    proof (cases "at2 (NormalMoves g) ?p = 0")
      case False
      have "0 \<le> at2 (NormalMoves g) ?p" unfolding cnt_moves(2)[OF g(1)] by simp
      then have "(0::rat) \<le> 1 / of_int (at2 (NormalMoves g) ?p + 1)" by simp
      with False \<open>flags_of g ?p > 0\<close> k that[of "0 ## nat k ## sconst 0"] show ?thesis
        by (simp add: wantsFlag_def flags_of_def Float64_max)
    next
      case True
      with \<open>flags_of g ?p > 0\<close> k that[of "nat k ## sconst 0"] show ?thesis
        by (simp add: wantsFlag_def flags_of_def)
    qed
    have "nthFree ?b (allIdx ?b) 0 k = Some (Some ?x)"
      using nthFree_rank[OF wf all x(2), of 0] by (simp add: xy k_def)
    with s k flag(2) show ?thesis
      by (intro exI[of _ s] exI[of _ "sconst 0"]) (simp add: rm Intn_in found_def)
  next
    case nrml
    have av: "avail ?p (fld ?b ?x)" using m nrml(1) by (auto simp: legal_def avail_def)
    define k where "k = cnt (\<lambda>a. avail ?p (fld ?b a)) xs"
    have k: "0 \<le> k" "k < at2 (NormalMoves g) ?p"
      using cnt_nonneg[of "\<lambda>a. avail ?p (fld ?b a)" ys] av unfolding cnt_moves(2)[OF g(1)] xy k_def
      by (simp_all add: cnt_simps add_pos_nonneg)
    obtain s where s: "wantsFlag (g\<lparr>rnd := s\<rparr>) = (False, nat k ## sconst 0)"
    proof (cases "FreeCells g > 0 \<and> flags_of g ?p > 0")
      case True
      have "(2::rat) \<le> of_int (at2 (NormalMoves g) ?p + 1)" using k by linarith
      then have "(1::rat) / of_int (at2 (NormalMoves g) ?p + 1) \<le> 1 / 2"
        by (intro divide_left_mono) simp_all
      then have "\<not> (1 - 1 / 2 ^ 53 \<le> (1::rat) / of_int (at2 (NormalMoves g) ?p + 1))" by simp
      moreover obtain N where N: "fst (Float64 (N ## nat k ## sconst 0)) = 1 - 1 / 2 ^ 53"
        using Float64_max(1) by blast
      ultimately have "\<not> fst (Float64 (N ## nat k ## sconst 0)) \<le> 1 / of_int (at2 (NormalMoves g) ?p + 1)"
        by simp
      with True k that[of "N ## nat k ## sconst 0"] show ?thesis
        by (simp add: wantsFlag_def flags_of_def Float64_max(2) Let_def)
    next
      case False
      with that[of "nat k ## sconst 0"] show ?thesis by (auto simp: wantsFlag_def flags_of_def)
    qed
    have "nthAvail ?b (allIdx ?b) 0 k = Some (Some ?x)"
      using nthAvail_rank[OF wf t all av, of 0] by (simp add: xy k_def)
    with s k nrml(2) show ?thesis
      by (intro exI[of _ s] exI[of _ "sconst 0"]) (simp add: rm Intn_in found_def)
  qed
qed

section \<open>The interfaces\<close>

definition Flagz_rest :: "flagz \<Rightarrow> nat" where
  "Flagz_rest g = nat (FreeCells g)"

lemma moved_rest: "flagz_pos g \<Longrightarrow> legal g m \<Longrightarrow> moved g m g' \<Longrightarrow> Flagz_rest g' < Flagz_rest g"
  using legal_free[of g m] by (simp add: Flagz_rest_def moved_def Let_def)

lemma Flagz_isDone: "flagz_inv g \<Longrightarrow> Flagz_IsDone g \<longleftrightarrow> over g"
  by (simp add: Flagz_IsDone_def flagz_inv_def)

interpretation flagz_engine: single_player_engine Flagz_Reset Flagz_NumPlayers Flagz_MakeMove Brd
  Flagz_IsDone Flagz_Winner flagz_inv RandomMove Flagz_rest
proof unfold_locales
  fix e m
  assume e: "flagz_inv e"
  show "wf_board (Brd e)" by (rule core_wf[OF pos_core[OF inv_pos[OF e]]])
  show "\<exists>e'. Flagz_Reset e = Some e' \<and> flagz_inv e' \<and> Flagz_NumPlayers e' = Flagz_NumPlayers e"
    using Reset_ok[of e] by (auto simp: Flagz_NumPlayers_def)
  show "\<exists>e' ok. Flagz_MakeMove e m = Some (e', ok) \<and> flagz_inv e' \<and>
      Flagz_NumPlayers e' = Flagz_NumPlayers e \<and> (\<not> ok \<longrightarrow> e' = e)"
    using MakeMove_inv[OF e, of m] by (auto simp: Flagz_NumPlayers_def)
  show "0 \<le> Flagz_Winner e \<and> Flagz_Winner e \<le> Flagz_NumPlayers e"
    by (simp add: Winner_eq[OF e] Flagz_NumPlayers_def)
next
  fix e
  show "Flagz_Winner e \<noteq> 0 \<Longrightarrow> Flagz_IsDone e" by (simp add: Flagz_Winner_def split: if_splits)
  show "1 \<le> Flagz_NumPlayers e" by (simp add: Flagz_NumPlayers_def)
next
  fix e
  assume e: "flagz_inv e" "\<not> Flagz_IsDone e"
  then have no: "\<not> over e" by (simp add: Flagz_isDone)
  obtain m s where m: "RandomMove e = Some (Inr m, e\<lparr>rnd := s\<rparr>)" "legal e m"
    using RandomMove_legal[OF e(1) no] by blast
  obtain g' where "Flagz_MakeMove (e\<lparr>rnd := s\<rparr>) m = Some (g', True)" "flagz_inv g'" "moved (e\<lparr>rnd := s\<rparr>) m g'"
    using MakeMove_inv[of "e\<lparr>rnd := s\<rparr>" m] e(1) m(2) by auto
  moreover from this have "Flagz_rest g' < Flagz_rest (e\<lparr>rnd := s\<rparr>)"
    using moved_rest[of "e\<lparr>rnd := s\<rparr>" m g'] m(2) inv_pos[of "e\<lparr>rnd := s\<rparr>"] e(1) by simp
  ultimately show "\<exists>m e1 e2. RandomMove e = Some (Inr m, e1) \<and> Flagz_MakeMove e1 m = Some (e2, True) \<and>
      flagz_inv e2 \<and> Flagz_rest e2 < Flagz_rest e"
    using m(1) by (auto simp: Flagz_rest_def)
next
  fix e m e'
  assume e: "flagz_inv e" and m: "Flagz_MakeMove e m = Some (e', True)"
  with MakeMove_inv[OF e, of m] have "legal e m" "moved e m e'" by auto
  with moved_rest inv_pos[OF e] show "Flagz_rest e' < Flagz_rest e" by blast
qed

section \<open>Reachable engines\<close>

text \<open>
  The engines a server can hold: a fresh one, and what the engine's operations make of one.
\<close>

inductive flagz_reachable :: "flagz \<Rightarrow> bool" where
  reach_new: "NewGameEngineFlagz s = Some g \<Longrightarrow> flagz_reachable g"
| reach_reset: "flagz_reachable g \<Longrightarrow> Flagz_Reset g = Some g' \<Longrightarrow> flagz_reachable g'"
| reach_move: "flagz_reachable g \<Longrightarrow> Flagz_MakeMove g m = Some (g', ok) \<Longrightarrow> flagz_reachable g'"
| reach_random: "flagz_reachable g \<Longrightarrow> RandomMove g = Some (r, g') \<Longrightarrow> flagz_reachable g'"
| reach_clone: "flagz_reachable g \<Longrightarrow> flagz_reachable (Flagz_Clone g s)"

lemma Clone_eq: "flagz_inv g \<Longrightarrow> Flagz_Clone g s = g\<lparr>rnd := s\<rparr>"
  by (cases g) (use copyBoard_id core_wf inv_pos pos_core in \<open>fastforce simp: Flagz_Clone_def\<close>)

lemma RandomMove_frame:
  assumes g: "flagz_inv g" and r: "RandomMove g = Some (r, g')"
  shows "\<exists>s. g' = g\<lparr>rnd := s\<rparr>"
proof (cases "over g")
  case True
  then have "State (Brd g) \<noteq> Running" using g by (simp add: flagz_inv_def)
  with r have "g' = g" by (simp add: RandomMove_def)
  then show ?thesis by (intro exI[of _ "rnd g"]) simp
next
  case False
  with RandomMove_legal[OF g] r show ?thesis by auto
qed

lemma reachable_inv: "flagz_reachable g \<Longrightarrow> flagz_inv g"
proof (induction rule: flagz_reachable.induct)
  case (reach_new s g)
  then show ?case
    using Reset_ok[of "\<lparr>Brd = NewBoard, FreeCells = 0, NormalMoves = Arr2 0 0, rnd = s\<rparr>"]
    by (auto simp: NewGameEngineFlagz_def)
next
  case (reach_reset g g')
  then show ?case using Reset_ok[of g] by auto
next
  case (reach_move g m g' ok)
  then show ?case using MakeMove_inv[of g m] by auto
next
  case (reach_random g r g')
  then show ?case using RandomMove_frame[of g r g'] by auto
next
  case (reach_clone g s)
  then show ?case by (simp add: Clone_eq)
qed

text \<open>A concrete engine for the witnesses: a new game, all of whose random numbers are zero.\<close>

definition newFlagz :: flagz where
  "newFlagz = the (NewGameEngineFlagz (sconst 0))"

lemma newFlagz_ok:
  "flagz_reachable newFlagz" "\<not> over newFlagz" "flagz_inv newFlagz" "Turn (Brd newFlagz) = 1"
  "Move (Brd newFlagz) = 0"
proof -
  obtain g where g: "NewGameEngineFlagz (sconst 0) = Some g" "flagz_inv g" "\<not> over g"
      "Turn (Brd g) = 1" "Move (Brd g) = 0"
    using Reset_ok unfolding NewGameEngineFlagz_def by blast
  moreover from g(1) have "newFlagz = g" by (simp add: newFlagz_def)
  ultimately show "flagz_reachable newFlagz" "\<not> over newFlagz" "flagz_inv newFlagz"
    "Turn (Brd newFlagz) = 1" "Move (Brd newFlagz) = 0"
    by (auto intro: reach_new)
qed

end
