(* ===== verification/FlagzProps.thy ===== *)
theory FlagzProps
  imports FlagzPlay
begin

text \<open>
  What the Flagz engine promises, stated over the engines a server can hold
  (\<open>flagz_reachable\<close>) and over the rules of the game read off the board alone: \<open>ownedNeighborValues\<close>,
  \<open>nextValSpec\<close> and \<open>rulesAllow\<close> mention none of the engine's caches.
\<close>

section \<open>The rules, without the caches\<close>

definition ownedNeighborValues :: "board \<Rightarrow> idx \<Rightarrow> int \<Rightarrow> int set" where
  "ownedNeighborValues b y turn =
     (\<lambda>z. Value (fld b z)) ` {z \<in> set (neighbors b y). Owner (fld b z) = turn}"

text \<open>
  A cell next to an own 5 is blocked for the player (-1), a cell next to no own cell is out of
  reach (0), and any other cell is worth one more than the smallest own neighbor.
\<close>

definition nextValSpec :: "board \<Rightarrow> idx \<Rightarrow> int \<Rightarrow> int" where
  "nextValSpec b y turn = (let V = ownedNeighborValues b y turn in
     if V = {} then 0 else if 5 \<in> V then -1 else Min V + 1)"

definition rulesAllow :: "board \<Rightarrow> game_engine_move \<Rightarrow> bool" where
  "rulesAllow b m \<longleftrightarrow> mvPlayer m = Turn b \<and> mvMove m = Move b \<and> valid b (target m) \<and>
     \<not> occupied (fld b (target m)) \<and>
     (mvType m = CellNormal \<and> nextValSpec b (target m) (Turn b) > 0 \<or>
      mvType m = CellFlag \<and> NumPieces (Resources b ! nat (Turn b - 1)) CellFlag > 0)"

lemma vals_allEdges:
  assumes "valid b y" "pidx p"
  shows "vals b (allEdges b) y p = ownedNeighborValues b y (p + 1)"
proof -
  have "{z \<in> set (neighbors b y). Owner (fld b z) = p + 1 \<and> (z, y) \<in> allEdges b} =
        {z \<in> set (neighbors b y). Owner (fld b z) = p + 1}"
    using assms neighbors_sym[OF assms(1)] by (auto simp: allEdges_def dest: neighbors_valid)
  then show ?thesis by (simp add: vals_def ownedNeighborValues_def)
qed

lemma NextVal_spec:
  assumes "flagz_inv g" "valid (Brd g) y" "free (fld (Brd g) y)" "pidx p"
  shows "at2 (NextVal (fld (Brd g) y)) p = nextValSpec (Brd g) y (p + 1)"
  using edges_NextVal[OF pos_edges[OF inv_pos[OF assms(1)]] assms(2-4)] assms
  by (simp add: vals_allEdges nextVal_of_def nextValSpec_def)

lemma legal_rulesAllow: "flagz_inv g \<Longrightarrow> legal g m \<longleftrightarrow> rulesAllow (Brd g) m"
  using NextVal_spec[of g "target m" "Turn (Brd g) - 1"] pos_turn[OF inv_pos, of g]
  by (auto simp: legal_def rulesAllow_def flags_of_def)

lemma cached_NextVal:
  assumes inv: "flagz_inv g" and y: "valid (Brd g) y" "free (fld (Brd g) y)"
  shows "NextVal (fld (Brd g) y) = Arr2 (nextValSpec (Brd g) y 1) (nextValSpec (Brd g) y 2) \<and>
    Blocked (fld (Brd g) y) = Arr2 (nextValSpec (Brd g) y 1 = -1) (nextValSpec (Brd g) y 2 = -1)"
proof -
  have "cache_ok 0 (fld (Brd g) y)" "cache_ok 1 (fld (Brd g) y)"
    using field_okD(4)[OF core_field[OF pos_core[OF inv_pos[OF inv]] y(1)]] by auto
  with NextVal_spec[OF inv y, of 0] NextVal_spec[OF inv y, of 1] show ?thesis
    unfolding cache_ok_def by (cases "NextVal (fld (Brd g) y)"; cases "Blocked (fld (Brd g) y)") simp
qed

lemma no_takeable_grass:
  assumes inv: "flagz_inv g" and y: "valid (Brd g) y" "Type (fld (Brd g) y) = CellGrass"
    and z: "z \<in> set (neighbors (Brd g) y)" "Owner (fld (Brd g) z) > 0"
  shows "Value (fld (Brd g) z) < Value (fld (Brd g) y)"
proof -
  have "(z, y) \<in> allEdges (Brd g)"
    using neighbors_sym[OF y(1) z(1)] z by (auto simp: allEdges_def dest: neighbors_valid)
  from edgesD[OF pos_edges[OF inv_pos[OF inv]] this] y(2) show ?thesis
    by (simp add: edge_ok_def isGrass_def)
qed

lemma counters_ok:
  assumes inv: "flagz_inv g" and t: "turn = 1 \<or> turn = 2"
  shows "FreeCells g = cnt (\<lambda>x. \<not> occupied (fld (Brd g) x)) (allIdx (Brd g)) \<and>
    get2 (NormalMoves g) (turn - 1) =
      Some (cnt (\<lambda>x. \<not> occupied (fld (Brd g) x) \<and> nextValSpec (Brd g) x turn > 0) (allIdx (Brd g))) \<and>
    idx_list (Score (Brd g)) (turn - 1) =
      Some (sum_list (map (\<lambda>f. if Owner f = turn then Value f else 0) (FlatFields (Brd g))))"
proof (intro conjI)
  note core = pos_core[OF inv_pos[OF inv]]
  show "FreeCells g = cnt (\<lambda>x. \<not> occupied (fld (Brd g) x)) (allIdx (Brd g))" by (rule cnt_moves(1)[OF inv])
  have p: "pidx (turn - 1)" using t by auto
  have "cnt (avail (turn - 1)) (FlatFields (Brd g)) =
      cnt (\<lambda>x. \<not> occupied (fld (Brd g) x) \<and> nextValSpec (Brd g) x turn > 0) (allIdx (Brd g))"
    unfolding cnt_allIdx[OF core_wf[OF core], of "avail (turn - 1)", symmetric]
    using NextVal_spec[OF inv _ _ p] by (intro cnt_cong) (auto simp: avail_def valid_iff_allIdx)
  with core_moves[OF core p] p
  show "get2 (NormalMoves g) (turn - 1) =
      Some (cnt (\<lambda>x. \<not> occupied (fld (Brd g) x) \<and> nextValSpec (Brd g) x turn > 0) (allIdx (Brd g)))"
    by (simp add: go_simps)
  have "ownedVal (turn - 1) = (\<lambda>f. if Owner f = turn then Value f else 0)"
    by (simp add: fun_eq_iff ownedVal_def)
  with core_sum[OF core p] core_score[OF core] t
  show "idx_list (Score (Brd g)) (turn - 1) =
      Some (sum_list (map (\<lambda>f. if Owner f = turn then Value f else 0) (FlatFields (Brd g))))"
    by (auto simp: go_simps)
qed

text \<open>A cell is captured exactly when the rule of capture says so: the recursion takes no other
  grass (part of \<open>moved\<close>), and what it had left would stand next to an own cell worth as much.\<close>

lemma captured_iff:
  assumes inv: "flagz_inv g" "flagz_inv g'" and l: "legal g m" and mv: "moved g m g'" and z: "valid (Brd g) z"
  shows "captures (Brd g) (target m) (Value (pieceOf g m)) z \<longleftrightarrow>
    isGrass (fld (Brd g) z) \<and> \<not> isGrass (fld (Brd g') z)"
proof
  have shape: "valid (Brd g') = valid (Brd g)" "neighbors (Brd g') = neighbors (Brd g)"
    using mv same_shape[of "Brd g'" "Brd g"] by (auto simp: moved_def Let_def)
  have p: "Turn (Brd g) > 0" using pos_turn[OF inv_pos[OF inv(1)]] by auto
  have x: "valid (Brd g) (target m)" "\<not> isGrass (fld (Brd g) (target m))"
    using l field_okD(6)[OF core_field[OF pos_core[OF inv_pos[OF inv(1)]]]] by (auto simp: legal_def)
  have fx: "fld (Brd g') (target m) = pieceOf g m" using mv by (simp add: moved_def Let_def)
  have ox: "Owner (pieceOf g m) > 0" using p by (simp add: pieceOf_def Let_def)
  have step: "cell_step (Turn (Brd g) - 1) (fld (Brd g) w) (fld (Brd g') w)"
    if "valid (Brd g) w" "isGrass (fld (Brd g) w)" for w
    using mv that x(2) by (auto simp: moved_def Let_def)
  note top = no_takeable_grass[OF inv(2), folded isGrass_def, unfolded shape]
  assume "captures (Brd g) (target m) (Value (pieceOf g m)) z"
  then have "\<not> isGrass (fld (Brd g') z) \<and> valid (Brd g) z \<and> isGrass (fld (Brd g) z)"
  proof (induction rule: captures.induct)
    case (direct z)
    then have zv: "valid (Brd g) z" "isGrass (fld (Brd g) z)" by (auto simp: isGrass_def dest: neighbors_valid)
    with top[OF zv(1) _ neighbors_sym[OF x(1) direct(1)]] direct(3) step[OF zv] fx ox
    show ?case by (auto simp: cell_step_def)
  next
    case (chain y z)
    then have y: "valid (Brd g) y" "isGrass (fld (Brd g) y)" "\<not> isGrass (fld (Brd g') y)" by auto
    have zv: "valid (Brd g) z" "isGrass (fld (Brd g) z)" using chain by (auto simp: isGrass_def dest: neighbors_valid)
    have "Owner (fld (Brd g') y) > 0" "Value (fld (Brd g') y) = Value (fld (Brd g) y)"
      using step[OF y(1,2)] y(2,3) p by (auto simp: cell_step_def isGrass_def split: if_splits)
    with top[OF zv(1) _ neighbors_sym[OF y(1) chain(2)]] chain(4) step[OF zv] zv
    show ?case by (auto simp: cell_step_def)
  qed
  then show "isGrass (fld (Brd g) z) \<and> \<not> isGrass (fld (Brd g') z)" by blast
qed (use mv z in \<open>auto simp: moved_def Let_def\<close>)

lemma cell_after:
  assumes inv: "flagz_inv g" "flagz_inv g'" and l: "legal g m" and mv: "moved g m g'"
    and z: "valid (Brd g) z" "z \<noteq> target m"
  shows "if captures (Brd g) (target m) (Value (pieceOf g m)) z
    then fld (Brd g') z = (fld (Brd g) z)\<lparr>Type := CellNormal, Owner := Turn (Brd g)\<rparr>
    else if occupied (fld (Brd g) z) then fld (Brd g') z = fld (Brd g) z
    else fld (Brd g') z = (fld (Brd g) z)
      \<lparr>NextVal := Arr2 (nextValSpec (Brd g') z 1) (nextValSpec (Brd g') z 2),
       Blocked := Arr2 (nextValSpec (Brd g') z 1 = -1) (nextValSpec (Brd g') z 2 = -1)\<rparr>"
proof -
  have st: "cell_step (Turn (Brd g) - 1) (fld (Brd g) z) (fld (Brd g') z)"
    using mv z by (simp add: moved_def Let_def)
  have v: "valid (Brd g') z" using mv z(1) same_shape(1)[of "Brd g'" "Brd g"] by (simp add: moved_def Let_def)
  show ?thesis
  proof (cases "free (fld (Brd g) z)")
    case True
    then have "\<not> isGrass (fld (Brd g) z)" by (auto simp: isGrass_def occupied_def)
    with True st cached_NextVal[OF inv(2) v] captured_iff[OF inv l mv z(1)] show ?thesis
      by (auto simp: cell_step_def)
  next
    case False
    then have "fld (Brd g') z = fld (Brd g) z \<or> isGrass (fld (Brd g) z) \<and>
        fld (Brd g') z = (fld (Brd g) z)\<lparr>Type := CellNormal, Owner := Turn (Brd g)\<rparr>"
      using st by (simp add: cell_step_def)
    with False captured_iff[OF inv l mv z(1)] show ?thesis by (auto simp: isGrass_def)
  qed
qed

lemma sum_list_allIdx:
  fixes F :: "idx \<Rightarrow> int"
  assumes "wf_board b"
  shows "sum_list (map F (allIdx b)) = (\<Sum>z \<in> set (allIdx b). F z)"
  using distinct_allIdx[OF assms] by (simp add: sum_list_distinct_conv_sum_set)

lemma sum_cells:
  fixes F :: "field \<Rightarrow> int"
  assumes "wf_board b"
  shows "sum_list (map F (FlatFields b)) = (\<Sum>z\<leftarrow>allIdx b. F (fld b z))"
  unfolding map_fld_allIdx[OF assms, symmetric] by (simp add: comp_def)

lemma mover_score:
  assumes inv: "flagz_inv g" "flagz_inv g'" and l: "legal g m" and mv: "moved g m g'"
  shows "Score (Brd g') ! nat (Turn (Brd g) - 1) = Score (Brd g) ! nat (Turn (Brd g) - 1) + Value (pieceOf g m) +
    sum_list (map (\<lambda>z. Value (fld (Brd g) z))
      (filter (captures (Brd g) (target m) (Value (pieceOf g m))) (allIdx (Brd g))))"
proof -
  let ?p = "Turn (Brd g) - 1" and ?b = "Brd g" and ?b' = "Brd g'" and ?x = "target m" and ?v = "Value (pieceOf g m)"
  let ?C = "captures ?b ?x ?v" and ?A = "allIdx ?b"
  note core = pos_core[OF inv_pos[OF inv(1)]] and core' = pos_core[OF inv_pos[OF inv(2)]]
  have p: "pidx ?p" by (rule pos_turn[OF inv_pos[OF inv(1)]])
  have A: "allIdx ?b' = ?A" using mv same_shape(4)[of ?b' ?b] by (simp add: moved_def Let_def)
  have x: "valid ?b ?x" "free (fld ?b ?x)" using l by (auto simp: legal_def)
  have fx: "fld ?b' ?x = pieceOf g m" using mv by (simp add: moved_def Let_def)
  have pt: "ownedVal ?p (fld ?b' z) = ownedVal ?p (fld ?b z) + (if ?C z then Value (fld ?b z) else 0) +
      (if z = ?x then ?v else 0)" if "z \<in> set ?A" for z
  proof (cases "z = ?x")
    case True
    have "Owner (fld ?b ?x) = 0" using field_okD(5)[OF core_field[OF core x(1)]] x(2) by simp
    moreover have "\<not> ?C ?x" using captures_grass[of ?b ?x ?v ?x] x field_okD(6)[OF core_field[OF core x(1)]] by auto
    moreover have "Owner (pieceOf g m) = ?p + 1" by (simp add: pieceOf_def Let_def)
    ultimately show ?thesis using True fx p by (auto simp: ownedVal_def)
  next
    case False
    have z: "valid ?b z" using that by (simp add: valid_iff_allIdx)
    have "?C z \<Longrightarrow> Owner (fld ?b z) = 0"
      using captures_grass[of ?b ?x ?v z] field_okD(6)[OF core_field[OF core z]] by auto
    with cell_after[OF inv l mv z False] False p show ?thesis by (auto simp: ownedVal_def split: if_splits)
  qed
  have "Score ?b' ! nat ?p = sum_list (map (\<lambda>z. ownedVal ?p (fld ?b' z)) ?A)"
    using core_sum[OF core' p] by (simp add: A sum_cells[OF core_wf[OF core']])
  also have "\<dots> = (\<Sum>z\<leftarrow>?A. ownedVal ?p (fld ?b z) + (if ?C z then Value (fld ?b z) else 0) + (if z = ?x then ?v else 0))"
    using pt by (intro arg_cong[where f = sum_list] map_cong) auto
  also have "\<dots> = (\<Sum>z\<leftarrow>?A. ownedVal ?p (fld ?b z)) + (\<Sum>z\<leftarrow>?A. if ?C z then Value (fld ?b z) else 0) +
      (\<Sum>z\<leftarrow>?A. if z = ?x then ?v else 0)"
    by (simp add: sum_list_addf)
  also have "(\<Sum>z\<leftarrow>?A. if z = ?x then ?v else 0) = ?v"
    using x(1) by (simp add: sum_list_allIdx core_wf[OF core] valid_iff_allIdx)
  also have "(\<Sum>z\<leftarrow>?A. ownedVal ?p (fld ?b z)) = Score ?b ! nat ?p"
    using core_sum[OF core p] by (simp add: sum_cells[OF core_wf[OF core]])
  finally show ?thesis by (simp add: sum_list_map_filter')
qed

lemma accepted_effect:
  assumes inv: "flagz_inv g" and m: "Flagz_MakeMove g m = Some (g', True)"
  defines "p \<equiv> Turn (Brd g)" and "b \<equiv> Brd g" and "b' \<equiv> Brd g'" and "f \<equiv> fld (Brd g') (target m)"
  defines "cap \<equiv> captures b (target m) (Value f)"
  shows "Owner f = p \<and> Type f = mvType m \<and> \<not> Hidden f \<and>
    Value f = (if mvType m = CellNormal then nextValSpec b (target m) p else 0) \<and>
    FreeCells g' = FreeCells g - 1 \<and> Move b' = Move b + 1 \<and>
    Score b' ! nat (3 - p - 1) = Score b ! nat (3 - p - 1) \<and>
    Score b' ! nat (p - 1) = Score b ! nat (p - 1) + Value f +
      sum_list (map (\<lambda>z. Value (fld b z)) (filter cap (allIdx b))) \<and>
    flags_of g' (3 - p - 1) = flags_of g (3 - p - 1) \<and>
    flags_of g' (p - 1) = flags_of g (p - 1) - of_bool (mvType m = CellFlag) \<and>
    (\<forall>z. valid b z \<and> z \<noteq> target m \<longrightarrow>
       (if cap z then fld b' z = (fld b z)\<lparr>Type := CellNormal, Owner := p\<rparr>
        else if occupied (fld b z) then fld b' z = fld b z
        else fld b' z = (fld b z)\<lparr>NextVal := Arr2 (nextValSpec b' z 1) (nextValSpec b' z 2),
               Blocked := Arr2 (nextValSpec b' z 1 = -1) (nextValSpec b' z 2 = -1)\<rparr>)) \<and>
    (\<forall>t. t = 1 \<or> t = 2 \<longrightarrow> get2 (NormalMoves g') (t - 1) = Some (int (length (filter
       (\<lambda>z. \<not> occupied (fld b' z) \<and> nextValSpec b' z t > 0) (allIdx b'))))) \<and>
    Fields b' = Fields b \<and> LastRevealed b' = LastRevealed b \<and>
    Turn b' = (if \<not> able g' 0 \<and> able g' 1 then 2 else if able g' 0 \<and> \<not> able g' 1 then 1 else 3 - p) \<and>
    State b' = (if over g' then Finished else State b)"
proof -
  from MakeMove_inv[OF inv, of m] m have l: "legal g m" and inv': "flagz_inv g'" by auto
  from MakeMove_legal[OF inv_pos[OF inv] l] m have mv: "moved g m g'" and mm: "Move b' = Move b + 1"
    and st: "State b' = (if over g' then Finished else State b)"
    and tn: "Turn b' = (if \<not> able g' 0 \<and> able g' 1 then 2 else if able g' 0 \<and> \<not> able g' 1 then 1 else 3 - p)"
    unfolding b'_def b_def p_def by auto
  have v: "Value (pieceOf g m) = (if mvType m = CellNormal then nextValSpec b (target m) p else 0)"
    using NextVal_spec[OF inv, of "target m" "Turn (Brd g) - 1"] l pos_turn[OF inv_pos[OF inv]]
    by (simp add: pieceOf_def Let_def legal_def b_def p_def)
  have f: "f = pieceOf g m" using mv by (simp add: moved_def Let_def f_def)
  have h: "Owner f = p" "Type f = mvType m" "\<not> Hidden f"
    by (simp_all add: f pieceOf_def Let_def p_def)
  have o: "1 - (Turn (Brd g) - 1) = 3 - p - 1" by (simp add: p_def)
  note mvd = mv[unfolded moved_def Let_def o, folded p_def b_def b'_def]
  have cells: "\<forall>z. valid b z \<and> z \<noteq> target m \<longrightarrow>
       (if cap z then fld b' z = (fld b z)\<lparr>Type := CellNormal, Owner := p\<rparr>
        else if occupied (fld b z) then fld b' z = fld b z
        else fld b' z = (fld b z)\<lparr>NextVal := Arr2 (nextValSpec b' z 1) (nextValSpec b' z 2),
               Blocked := Arr2 (nextValSpec b' z 1 = -1) (nextValSpec b' z 2 = -1)\<rparr>)"
    using cell_after[OF inv inv' l mv] unfolding cap_def f b_def b'_def p_def by blast
  have moves: "\<forall>t. t = 1 \<or> t = 2 \<longrightarrow> get2 (NormalMoves g') (t - 1) = Some (int (length (filter
       (\<lambda>z. \<not> occupied (fld b' z) \<and> nextValSpec b' z t > 0) (allIdx b'))))"
    using counters_ok[OF inv'] by (auto simp: cnt_def b'_def)
  have "Score b' ! nat (p - 1) = Score b ! nat (p - 1) + Value f +
      sum_list (map (\<lambda>z. Value (fld b z)) (filter cap (allIdx b)))"
    using mover_score[OF inv inv' l mv] unfolding cap_def f b_def b'_def p_def .
  with mvd v mm st tn h cells moves show ?thesis by (simp only: f) blast
qed

lemma flag_legal:
  assumes "flagz_inv g" "FreeCells g > 0" "flags_of g (Turn (Brd g) - 1) > 0"
  shows "\<exists>x. legal g (moveAt (Brd g) CellFlag x)"
proof -
  obtain x where "x \<in> set (allIdx (Brd g))" "free (fld (Brd g) x)"
    using assms(2) unfolding cnt_moves(1)[OF assms(1)] cnt_pos_iff by blast
  with assms(3) show ?thesis by (auto simp: legal_moveAt valid_iff_allIdx)
qed

section \<open>The concrete engine of the witnesses\<close>

lemma placeRocks_stuck: "0 < length fs \<Longrightarrow> occupied (fs ! 0) \<Longrightarrow> placeRocks j i fs (sconst 0) = Some (fs, sconst 0)"
  by (induction j) (auto simp: Intn_in go_simps)

lemma placeGrass_stuck: "0 < length fs \<Longrightarrow> occupied (fs ! 0) \<Longrightarrow> placeGrass j v fs (sconst 0) = Some (fs, sconst 0)"
  by (induction j) (auto simp: Intn_in go_simps)

text \<open>All random numbers zero: one rock in the first cell, every other cell free.\<close>

lemma newFlagz_fields:
  "FlatFields (Brd newFlagz) = (fst makeFields)[0 := zeroField\<lparr>Type := CellRock, Lifetime := -1\<rparr>]"
  "Fields (Brd newFlagz) = Fields NewBoard" "flags_of newFlagz 0 = 3"
proof -
  define fs0 where "fs0 = fst makeFields"
  define fs1 where "fs1 = fs0[0 := zeroField\<lparr>Type := CellRock, Lifetime := -1\<rparr>]"
  obtain j where j: "length fs0 = Suc j" using length_makeFields by (auto simp: fs0_def)
  have z: "fs0 ! 0 = zeroField" using fields_makeFields[of "fs0 ! 0"] j by (simp add: fs0_def)
  have occ: "0 < length fs1" "occupied (fs1 ! 0)" using j by (simp_all add: fs1_def occupied_def)
  have "placeRocks (Suc j) 0 fs0 (sconst 0) = Some (fs1, sconst 0)"
    using placeRocks_stuck[OF occ] j z by (simp add: Intn_in go_simps flagzNumRockCells_def fs1_def)
  then have "\<exists>g. NewGameEngineFlagz (sconst 0) = Some g \<and> FlatFields (Brd g) = fs1 \<and>
      Fields (Brd g) = Fields NewBoard \<and> flags_of g 0 = 3"
    using placeGrass_stuck[OF occ, of "Suc j" 0] j fs0_def
    by (simp add: NewGameEngineFlagz_def Flagz_Reset_def InitializeResources_def PopulateInitialCells_def
        flags_of_def numeral_2_eq_2 Let_def del: placeRocks.simps placeGrass.simps)
  then show "FlatFields (Brd newFlagz) = (fst makeFields)[0 := zeroField\<lparr>Type := CellRock, Lifetime := -1\<rparr>]"
    "Fields (Brd newFlagz) = Fields NewBoard" "flags_of newFlagz 0 = 3"
    by (auto simp: newFlagz_def fs1_def fs0_def)
qed

text \<open>Any cell but the first can take a flag of player 1.\<close>

lemma newFlagz_flag_legal:
  assumes "valid NewBoard x" "fpos NewBoard x \<noteq> 0"
  shows "legal newFlagz (moveAt (Brd newFlagz) CellFlag x)"
proof -
  have v: "valid (Brd newFlagz) x" "fpos (Brd newFlagz) x = fpos NewBoard x"
    using assms(1) same_shape[OF newFlagz_fields(2)] by simp_all
  have "fpos NewBoard x < 105"
    using fpos_less[OF wf_NewBoard assms(1)] by (simp add: length_makeFields)
  with assms(2) v have "free (fld (Brd newFlagz) x)"
    using fields_makeFields[of "fst makeFields ! fpos NewBoard x"]
    by (simp add: fld_def newFlagz_fields length_makeFields)
  with v(1) newFlagz_fields(3) newFlagz_ok(4) show ?thesis by (simp add: legal_moveAt)
qed

lemma NewBoard_center: "valid NewBoard (Idx 5 5)" "fpos NewBoard (Idx 5 5) \<noteq> 0"
  by (simp_all add: valid_def fpos_def makeFields_def numBoardRows_def numFieldsFirstRow_def upt_rec)

abbreviation centerFlag :: game_engine_move where
  "centerFlag \<equiv> \<lparr>mvPlayer = 1, mvMove = 0, mvRow = 5, mvCol = 5, mvType = CellFlag\<rparr>"

lemma centerFlag_legal: "legal newFlagz centerFlag" "rulesAllow (Brd newFlagz) centerFlag"
proof -
  have "moveAt (Brd newFlagz) CellFlag (Idx 5 5) = centerFlag"
    using newFlagz_ok(4,5) by (simp add: moveAt_def)
  with newFlagz_flag_legal[OF NewBoard_center] show "legal newFlagz centerFlag" by simp
  then show "rulesAllow (Brd newFlagz) centerFlag" using legal_rulesAllow[OF newFlagz_ok(3)] by simp
qed

section \<open>Properties\<close>

text \<open>C1. A Flagz move never panics (no index out of range, no unbounded recursion in
  \<open>updateNeighborCells\<close>), it is accepted exactly when the rules allow it, and a refused move
  leaves the engine as it was.\<close>

theorem flagz_move_accepted_iff_allowed:
  assumes "flagz_reachable g"
  shows "\<exists>g' ok. Flagz_MakeMove g m = Some (g', ok) \<and> (ok \<longleftrightarrow> rulesAllow (Brd g) m) \<and> (\<not> ok \<longrightarrow> g' = g)"
  using MakeMove_inv[OF reachable_inv[OF assms], of m] legal_rulesAllow[OF reachable_inv[OF assms], of m]
  by (auto split: if_splits)

theorem flagz_move_accepted_iff_allowed_witness:
  "\<exists>g'. Flagz_MakeMove newFlagz centerFlag = Some (g', True)"
  using flagz_move_accepted_iff_allowed[OF newFlagz_ok(1), of centerFlag] centerFlag_legal(2) by auto

text \<open>C2. The incremental caches are right: in every reachable engine the cached \<open>NextVal\<close> of a
  free cell is what the rules say it is worth, for both players, and no grass cell is left next
  to an owned cell that is strong enough to take it.\<close>

theorem flagz_caches_follow_rules:
  assumes "flagz_reachable g" "valid (Brd g) y"
  shows "(\<not> occupied (fld (Brd g) y) \<longrightarrow>
      NextVal (fld (Brd g) y) = Arr2 (nextValSpec (Brd g) y 1) (nextValSpec (Brd g) y 2) \<and>
      Blocked (fld (Brd g) y) = Arr2 (nextValSpec (Brd g) y 1 = -1) (nextValSpec (Brd g) y 2 = -1)) \<and>
    (Type (fld (Brd g) y) = CellGrass \<longrightarrow> (\<forall>z \<in> set (neighbors (Brd g) y).
      Owner (fld (Brd g) z) > 0 \<longrightarrow> Value (fld (Brd g) z) < Value (fld (Brd g) y)))"
  using cached_NextVal[OF reachable_inv[OF assms(1)] assms(2)]
    no_takeable_grass[OF reachable_inv[OF assms(1)] assms(2)] by blast

theorem flagz_caches_follow_rules_witness:
  "NextVal (fld (Brd newFlagz) (Idx 5 5)) = Arr2 (nextValSpec (Brd newFlagz) (Idx 5 5) 1) (nextValSpec (Brd newFlagz) (Idx 5 5) 2)"
  using flagz_caches_follow_rules[OF newFlagz_ok(1), of "Idx 5 5"] centerFlag_legal(1) by (simp add: legal_def)

text \<open>The counters are right: in every reachable engine \<open>FreeCells\<close> is the number of
  unoccupied cells, \<open>NormalMoves\<close> the number of free cells a player can take by the rules, and
  \<open>Score\<close> the sum of the values of the cells a player owns.\<close>

theorem flagz_counters_correct:
  assumes "flagz_reachable g" "turn = 1 \<or> turn = 2"
  shows "FreeCells g = int (length (filter (\<lambda>x. \<not> occupied (fld (Brd g) x)) (allIdx (Brd g)))) \<and>
    get2 (NormalMoves g) (turn - 1) = Some (int (length (filter
      (\<lambda>x. \<not> occupied (fld (Brd g) x) \<and> nextValSpec (Brd g) x turn > 0) (allIdx (Brd g))))) \<and>
    idx_list (Score (Brd g)) (turn - 1) =
      Some (sum_list (map (\<lambda>f. if Owner f = turn then Value f else 0) (FlatFields (Brd g))))"
  using counters_ok[OF reachable_inv[OF assms(1)] assms(2)] by (simp add: cnt_def)

theorem flagz_counters_correct_witness:
  "FreeCells newFlagz = int (length (filter (\<lambda>x. \<not> occupied (fld (Brd newFlagz) x)) (allIdx (Brd newFlagz))))"
  using flagz_counters_correct[OF newFlagz_ok(1), of 1] by simp

text \<open>C3. The exact effect of an accepted move. The target cell gets the player's piece (worth what
  the rules say, or 0 for a flag). Grass is captured exactly as \<open>captures\<close> says, turns into the
  player's cells and keeps its value; any other occupied cell stays as it is, and of a free cell only
  the caches change, to what the rules say on the new board. The player's score grows by the value
  of the piece and of the captured cells, the opponent's stays; one free cell less, the flag is paid
  for, the move counter goes up, \<open>NormalMoves\<close> counts the cells each player can take on the new
  board. The opponent is next, unless only one of the players can move (\<open>able\<close>: a cell to take, or a
  flag and a free cell), and the game is finished when it is \<open>over\<close>: nobody can move, or the player
  behind cannot.\<close>

theorem flagz_accepted_move_effect:
  assumes "flagz_reachable g" "Flagz_MakeMove g m = Some (g', True)"
  shows "let p = Turn (Brd g); o' = 3 - p; b = Brd g; b' = Brd g'; f = fld b' (target m);
      cap = captures b (target m) (Value f) in
    Owner f = p \<and> Type f = mvType m \<and> \<not> Hidden f \<and>
    Value f = (if mvType m = CellNormal then nextValSpec b (target m) p else 0) \<and>
    FreeCells g' = FreeCells g - 1 \<and> Move b' = Move b + 1 \<and>
    Score b' ! nat (o' - 1) = Score b ! nat (o' - 1) \<and>
    Score b' ! nat (p - 1) = Score b ! nat (p - 1) + Value f +
      sum_list (map (\<lambda>z. Value (fld b z)) (filter cap (allIdx b))) \<and>
    flags_of g' (o' - 1) = flags_of g (o' - 1) \<and>
    flags_of g' (p - 1) = flags_of g (p - 1) - of_bool (mvType m = CellFlag) \<and>
    (\<forall>z. valid b z \<and> z \<noteq> target m \<longrightarrow>
       (if cap z then fld b' z = (fld b z)\<lparr>Type := CellNormal, Owner := p\<rparr>
        else if occupied (fld b z) then fld b' z = fld b z
        else fld b' z = (fld b z)\<lparr>NextVal := Arr2 (nextValSpec b' z 1) (nextValSpec b' z 2),
               Blocked := Arr2 (nextValSpec b' z 1 = -1) (nextValSpec b' z 2 = -1)\<rparr>)) \<and>
    (\<forall>t. t = 1 \<or> t = 2 \<longrightarrow> get2 (NormalMoves g') (t - 1) = Some (int (length (filter
       (\<lambda>z. \<not> occupied (fld b' z) \<and> nextValSpec b' z t > 0) (allIdx b'))))) \<and>
    Fields b' = Fields b \<and> LastRevealed b' = LastRevealed b \<and>
    Turn b' = (if \<not> able g' 0 \<and> able g' 1 then 2 else if able g' 0 \<and> \<not> able g' 1 then 1 else o') \<and>
    State b' = (if over g' then Finished else State b)"
  unfolding Let_def by (rule accepted_effect[OF reachable_inv[OF assms(1)] assms(2)])

theorem flagz_accepted_move_effect_witness:
  "\<exists>g'. Flagz_MakeMove newFlagz centerFlag = Some (g', True) \<and> FreeCells g' = FreeCells newFlagz - 1 \<and>
     flags_of g' 0 = 2 \<and> Owner (fld (Brd g') (Idx 5 5)) = 1"
proof -
  obtain g' where g': "Flagz_MakeMove newFlagz centerFlag = Some (g', True)"
    using MakeMove_inv[OF newFlagz_ok(3), of centerFlag] centerFlag_legal(1) by auto
  with flagz_accepted_move_effect[OF newFlagz_ok(1) g'] newFlagz_fields(3) newFlagz_ok(4)
  show ?thesis by (simp add: Let_def)
qed

text \<open>The engine after a sequence of moves, each of them accepted.\<close>

fun acceptAll :: "flagz \<Rightarrow> game_engine_move list \<Rightarrow> flagz option" where
  "acceptAll g [] = Some g"
| "acceptAll g (m # ms) = (case Flagz_MakeMove g m of Some (g', True) \<Rightarrow> acceptAll g' ms | _ \<Rightarrow> None)"

lemma acceptAll_free:
  "flagz_inv g \<Longrightarrow> acceptAll g ms = Some g' \<Longrightarrow> flagz_inv g' \<and> FreeCells g' = FreeCells g - int (length ms)"
proof (induction ms arbitrary: g)
  case (Cons m ms)
  then obtain h where h: "Flagz_MakeMove g m = Some (h, True)" "acceptAll h ms = Some g'"
    by (auto split: option.splits prod.splits bool.splits)
  with MakeMove_inv[OF Cons.prems(1), of m] have "flagz_inv h" "FreeCells h = FreeCells g - 1"
    by (auto simp: moved_def Let_def)
  with Cons.IH[OF this(1) h(2)] show ?case by simp
qed simp

lemma free_nonneg: "flagz_inv g \<Longrightarrow> 0 \<le> FreeCells g"
  using cnt_moves(1)[of g] by simp

text \<open>C4. A game ends: no sequence of accepted moves from a reachable engine is longer than the
  number of free cells.\<close>

theorem flagz_game_ends:
  assumes "flagz_reachable g" "acceptAll g ms = Some g'"
  shows "int (length ms) \<le> FreeCells g"
  using acceptAll_free[OF reachable_inv[OF assms(1)] assms(2)] free_nonneg[of g'] by simp

theorem flagz_game_ends_witness:
  "\<exists>g'. acceptAll newFlagz [centerFlag] = Some g' \<and> int (length [centerFlag]) \<le> FreeCells newFlagz"
proof -
  obtain g' where "Flagz_MakeMove newFlagz centerFlag = Some (g', True)"
    using MakeMove_inv[OF newFlagz_ok(3), of centerFlag] centerFlag_legal(1) by auto
  then have "acceptAll newFlagz [centerFlag] = Some g'" by simp
  with flagz_game_ends[OF newFlagz_ok(1) this] show ?thesis by blast
qed

lemma done_moves:
  assumes "flagz_inv g" "over g"
  shows "\<exists>h. foldM (\<lambda>m g. map_option fst (Flagz_MakeMove g m)) ms g = Some h \<and>
    flagz_inv h \<and> over h \<and> Flagz_Winner h = Flagz_Winner g"
proof (rule foldM_rule)
  fix m t
  assume t: "flagz_inv t \<and> over t \<and> Flagz_Winner t = Flagz_Winner g"
  then obtain u ok where "Flagz_MakeMove t m = Some (u, ok)" using MakeMove_inv[of t m] by auto
  with Winner_frozen[of t m u ok] t
  show "\<exists>u. map_option fst (Flagz_MakeMove t m) = Some u \<and> flagz_inv u \<and> over u \<and> Flagz_Winner u = Flagz_Winner g"
    by simp
qed (use assms in simp)

text \<open>C5. Finishing early is sound: when the engine says the game is done (also while cells are
  still free), its winner is the one any continuation would have, whatever moves are made.\<close>

theorem flagz_early_finish_sound:
  assumes "flagz_reachable g" "Flagz_IsDone g"
  shows "\<exists>g'. foldM (\<lambda>m g. map_option fst (Flagz_MakeMove g m)) ms g = Some g' \<and>
    Flagz_IsDone g' \<and> Flagz_Winner g' = Flagz_Winner g"
  using done_moves[of g ms] reachable_inv[OF assms(1)] assms(2) Flagz_isDone by blast

lemma plays_to_end: "flagz_reachable g \<Longrightarrow> \<exists>h. flagz_reachable h \<and> Flagz_IsDone h"
proof (induction "Flagz_rest g" arbitrary: g rule: less_induct)
  case less
  note inv = reachable_inv[OF less.prems]
  show ?case
  proof (cases "Flagz_IsDone g")
    case False
    from flagz_engine.random_legal[OF inv this] obtain m e1 e2 where
      "RandomMove g = Some (Inr m, e1)" "Flagz_MakeMove e1 m = Some (e2, True)" "Flagz_rest e2 < Flagz_rest g"
      by blast
    with less.hyps less.prems show ?thesis by (blast intro: reach_random reach_move)
  qed (use less.prems in blast)
qed

theorem flagz_early_finish_sound_witness:
  "\<exists>g g'. flagz_reachable g \<and> Flagz_IsDone g \<and>
     foldM (\<lambda>m g. map_option fst (Flagz_MakeMove g m)) [centerFlag] g = Some g' \<and> Flagz_Winner g' = Flagz_Winner g"
proof -
  obtain g where g: "flagz_reachable g" "Flagz_IsDone g" using plays_to_end[OF newFlagz_ok(1)] by blast
  with flagz_early_finish_sound[OF g, of "[centerFlag]"] show ?thesis by blast
qed

text \<open>While a game is not done, the player whose turn it is has a move the rules allow, the
  random player returns such a move, and the engine accepts it.\<close>

theorem flagz_random_move_accepted:
  assumes "flagz_reachable g" "\<not> Flagz_IsDone g"
  shows "\<exists>m g1 g2. RandomMove g = Some (Inr m, g1) \<and> rulesAllow (Brd g) m \<and> Brd g1 = Brd g \<and>
    Flagz_MakeMove g1 m = Some (g2, True)"
proof -
  note inv = reachable_inv[OF assms(1)]
  obtain m s where m: "RandomMove g = Some (Inr m, g\<lparr>rnd := s\<rparr>)" "legal g m"
    using RandomMove_legal[OF inv] assms(2) Flagz_isDone[OF inv] by blast
  moreover from m(2) MakeMove_inv[of "g\<lparr>rnd := s\<rparr>" m] inv
  obtain g2 where "Flagz_MakeMove (g\<lparr>rnd := s\<rparr>) m = Some (g2, True)" by auto
  ultimately show ?thesis using legal_rulesAllow[OF inv] by (intro exI[of _ m]) auto
qed

lemma newFlagz_running: "\<not> Flagz_IsDone newFlagz"
  using Flagz_isDone[OF newFlagz_ok(3)] newFlagz_ok(2) by simp

theorem flagz_random_move_accepted_witness:
  "\<exists>m g1 g2. RandomMove newFlagz = Some (Inr m, g1) \<and> Flagz_MakeMove g1 m = Some (g2, True)"
  using flagz_random_move_accepted[OF newFlagz_ok(1) newFlagz_running] by blast

text \<open>The random player is not biased against any move: every move the rules allow is
  returned for some outcome of the random numbers.\<close>

theorem flagz_random_move_complete:
  assumes "flagz_reachable g" "\<not> Flagz_IsDone g" "rulesAllow (Brd g) m"
  shows "\<exists>s s'. RandomMove (g\<lparr>rnd := s\<rparr>) = Some (Inr m, g\<lparr>rnd := s'\<rparr>)"
  using RandomMove_reaches[OF reachable_inv[OF assms(1)]] assms(2,3)
    Flagz_isDone[OF reachable_inv[OF assms(1)]] legal_rulesAllow[OF reachable_inv[OF assms(1)]] by blast

theorem flagz_random_move_complete_witness:
  "\<exists>s s'. RandomMove (newFlagz\<lparr>rnd := s\<rparr>) = Some (Inr centerFlag, newFlagz\<lparr>rnd := s'\<rparr>)"
  by (rule flagz_random_move_complete[OF newFlagz_ok(1) newFlagz_running centerFlag_legal(2)])

text \<open>A new game, or a reset one, is ready to play for every stream of random numbers: it does
  not panic, it is running with player 1 to move, at most 20 cells are taken by rocks and grass,
  and both players start with 3 flags and no points.\<close>

theorem flagz_reset_ready:
  "\<exists>g'. Flagz_Reset g = Some g' \<and> State (Brd g') = Running \<and> Turn (Brd g') = 1 \<and> Move (Brd g') = 0 \<and>
    length (FlatFields (Brd g')) = 105 \<and> FreeCells g' \<ge> 85 \<and> Score (Brd g') = [0, 0] \<and>
    (\<forall>f \<in> set (FlatFields (Brd g')). Owner f = 0) \<and> flags_of g' 0 = 3 \<and> flags_of g' 1 = 3"
  using Reset_ok[of g] by (auto simp: flagz_inv_def)

theorem flagz_reset_ready_witness:
  "\<exists>g'. Flagz_Reset newFlagz = Some g' \<and> State (Brd g') = Running \<and> flags_of g' 1 = 3 \<and> FreeCells g' \<ge> 85"
  using flagz_reset_ready[of newFlagz] by blast

end
