(* ===== verification/Classic.thy ===== *)
theory Classic
  imports Engine
begin

text \<open>
  The Classic engine, \<open>hexz/classic.go\<close>. The engine's only field is its board, so the model's
  engine is the board. \<open>floodFill\<close> takes the source's callback as a function on the state the
  closure captures, \<open>ms\<close> and \<open>areas\<close>, and bounds the depth of the recursion (running out of it,
  a stack overflow, is \<open>None\<close>). \<open>ClassicFill\<close> and \<open>ClassicGame\<close> show that no \<open>None\<close> occurs.
\<close>

section \<open>Setting up\<close>

definition Classic_NumPlayers :: "board \<Rightarrow> int" where
  "Classic_NumPlayers b = 2"

definition Classic_InitialResources :: resource_info where
  "Classic_InitialResources = \<lparr>NumPieces = noPieces
     (CellNormal := -1, CellFire := 1, CellFlag := 1, CellPest := 1, CellDeath := 1)\<rparr>"

definition Classic_Init :: board where
  "Classic_Init = (let (flatFields, fields) = makeFields; numPlayers = 2 in
     \<lparr>Turn = 1, Move = 0, LastRevealed = 0, FlatFields = flatFields, Fields = fields,
      Score = replicate numPlayers 0, Resources = replicate numPlayers Classic_InitialResources,
      State = Running\<rparr>)"

definition Classic_Reset :: "board \<Rightarrow> board" where
  "Classic_Reset b = Classic_Init"

definition Classic_IsDone :: "board \<Rightarrow> bool" where
  "Classic_IsDone b = (State b = Finished)"

definition Classic_Winner :: "board \<Rightarrow> int" where
  "Classic_Winner b = (if \<not> Classic_IsDone b then 0 else scoreBasedSingleWinner (Score b))"

fun Classic_lifetime :: "cell_type \<Rightarrow> int" where
  "Classic_lifetime CellFire = 1"
| "Classic_lifetime CellDead = 1"
| "Classic_lifetime CellDeath = 1"
| "Classic_lifetime CellPest = 3"
| "Classic_lifetime _ = -1"

definition isPlayerPiece :: "cell_type \<Rightarrow> bool" where
  "isPlayerPiece c = (c = CellNormal \<or> (c \<ge> CellFire \<and> c \<le> CellDeath))"

section \<open>Scores and the end of the game\<close>

definition revealHiddenMoves :: "board \<Rightarrow> board option" where
  "revealHiddenMoves b = foldM (\<lambda>x b. do {
     f \<leftarrow> getField b x; setField b x (f\<lparr>Hidden := False\<rparr>) }) (allIdx b) b"

text \<open>The loop of \<open>recomputeScoreAndState\<close> on the scores and the number of open cells.\<close>

definition scoreCell :: "board \<Rightarrow> idx \<Rightarrow> int list \<times> int \<Rightarrow> (int list \<times> int) option" where
  "scoreCell b x st = (case st of (s, openCells) \<Rightarrow> do {
     f \<leftarrow> getField b x;
     s \<leftarrow> (if Owner f > 0 \<and> \<not> Hidden f then do {
             n \<leftarrow> idx_list s (Owner f - 1);
             upd_list s (Owner f - 1) (n + 1)
           } else Some s);
     Some (s, if \<not> occupied f then openCells + 1 else openCells)
   })"

definition recomputeScoreAndState :: "board \<Rightarrow> board option" where
  "recomputeScoreAndState b = do {
     (s, openCells) \<leftarrow> foldM (scoreCell b) (allIdx b) ([0, 0], 0);
     let b = b\<lparr>Score := s\<rparr>;
     if openCells = 0 then do {
       b \<leftarrow> revealHiddenMoves b;
       Some (b\<lparr>State := Finished\<rparr>)
     } else Some b
   }"

section \<open>Flood filling\<close>

record area =
  asize :: int
  aflags :: "int arr2"
  adead :: int

text \<open>\<open>ms[x.r][x.c]\<close> as a read and as the target of an assignment.\<close>

definition ms_get :: "int list list \<Rightarrow> idx \<Rightarrow> int option" where
  "ms_get ms x = do { row \<leftarrow> idx_list ms (row_of x); idx_list row (col_of x) }"

definition ms_set :: "int list list \<Rightarrow> idx \<Rightarrow> int \<Rightarrow> int list list option" where
  "ms_set ms x v = do {
     row \<leftarrow> idx_list ms (row_of x);
     row \<leftarrow> upd_list row (col_of x) v;
     upd_list ms (row_of x) row
   }"

primrec floodFill ::
  "nat \<Rightarrow> board \<Rightarrow> (idx \<Rightarrow> 's \<Rightarrow> ('s \<times> bool) option) \<Rightarrow> idx \<Rightarrow> 's \<Rightarrow> 's option" where
  "floodFill 0 b cb x s = None"
| "floodFill (Suc n) b cb x s = do {
     (s, more) \<leftarrow> cb x s;
     if \<not> more then Some s else foldM (floodFill n b cb) (neighbors b x) s
   }"

type_synonym fill = "int list list \<times> area list"

definition addFlag :: "area list \<Rightarrow> int \<Rightarrow> int \<Rightarrow> area list option" where
  "addFlag areas k p = do {
     a \<leftarrow> idx_list areas k;
     n \<leftarrow> get2 (aflags a) p;
     fl \<leftarrow> set2 (aflags a) p (n + 1);
     upd_list areas k (a\<lparr>aflags := fl\<rparr>)
   }"

text \<open>The callback that \<open>occupyFields\<close> passes, for the area number \<open>k\<close>.\<close>

definition markCell :: "board \<Rightarrow> int \<Rightarrow> idx \<Rightarrow> fill \<Rightarrow> (fill \<times> bool) option" where
  "markCell b k x st = (case st of (ms, areas) \<Rightarrow> do {
     v \<leftarrow> ms_get ms x;
     if v = k then Some ((ms, areas), False)
     else do {
       f \<leftarrow> getField b x;
       if occupied f then do {
         areas \<leftarrow> (if Type f = CellFlag then addFlag areas k (Owner f - 1)
                  else if Type f = CellDead then do {
                    a \<leftarrow> idx_list areas k;
                    upd_list areas k (a\<lparr>adead := adead a + 1\<rparr>)
                  } else Some areas);
         ms \<leftarrow> ms_set ms x k;
         Some ((ms, areas), False)
       } else do {
         ms \<leftarrow> ms_set ms x k;
         a \<leftarrow> idx_list areas k;
         areas \<leftarrow> upd_list areas k (a\<lparr>asize := asize a + 1\<rparr>);
         Some ((ms, areas), True)
       }
     }
   })"

definition fillDepth :: "board \<Rightarrow> nat" where
  "fillDepth b = Suc (length (FlatFields b))"

text \<open>One iteration of the loop over the neighbors \<open>ns\<close> of the new piece.\<close>

definition fillFrom :: "board \<Rightarrow> idx list \<Rightarrow> nat \<Rightarrow> fill \<Rightarrow> fill option" where
  "fillFrom b ns k st = do {
     x \<leftarrow> idx_list ns (int k);
     v \<leftarrow> ms_get (fst st) x;
     if v \<noteq> -1 then Some st
     else floodFill (fillDepth b) b (markCell b (int k)) x st
   }"

text \<open>The loop that counts the areas and finds the smallest one; \<open>-1\<close> is no area.\<close>

definition countArea :: "area list \<Rightarrow> nat \<Rightarrow> int \<times> int \<Rightarrow> (int \<times> int) option" where
  "countArea areas k st = (case st of (numAreas, minK) \<Rightarrow> do {
     a \<leftarrow> idx_list areas (int k);
     if asize a > 0 \<and> adead a = 0 then
       (if minK = -1 then Some (numAreas + 1, int k)
        else do {
          am \<leftarrow> idx_list areas minK;
          Some (numAreas + 1, if asize am > asize a then int k else minK)
        })
     else Some (numAreas, minK)
   })"

text \<open>The loop that hands the free cells of area \<open>minK\<close> to their new owner.\<close>

definition occupyCell :: "int list list \<Rightarrow> int \<Rightarrow> int \<Rightarrow> idx \<Rightarrow> board \<times> int \<Rightarrow> (board \<times> int) option" where
  "occupyCell ms minK occupator x st = (case st of (b, n) \<Rightarrow> do {
     v \<leftarrow> ms_get ms x;
     f \<leftarrow> getField b x;
     if v = minK \<and> \<not> occupied f then do {
       b \<leftarrow> setField b x (f\<lparr>Owner := occupator, Lifetime := Classic_lifetime CellNormal\<rparr>);
       Some (b, n + 1)
     } else Some (b, n)
   })"

definition emptyArea :: area where
  "emptyArea = \<lparr>asize = 0, aflags = Arr2 0 0, adead = 0\<rparr>"

definition occupyFields :: "board \<Rightarrow> int \<Rightarrow> idx \<Rightarrow> cell_type \<Rightarrow> (board \<times> int) option" where
  "occupyFields b playerNum x ct = do {
     let ms = map (\<lambda>(_, n). replicate n (-1)) (Fields b);
     f \<leftarrow> getField b x;
     b \<leftarrow> setField b x (f\<lparr>Owner := playerNum, Type := ct, Hidden := True, Lifetime := Classic_lifetime ct\<rparr>);
     areas \<leftarrow> (if ct = CellFlag
              then foldM (\<lambda>i as. addFlag as (int i) (playerNum - 1)) [0..<6] (replicate 6 emptyArea)
              else Some (replicate 6 emptyArea));
     let ns = neighbors b x;
     (ms, areas) \<leftarrow> foldM (fillFrom b ns) [0..<length ns] (ms, areas);
     (numAreas, minK) \<leftarrow> foldM (countArea areas) [0..<length ns] (0, -1);
     if numAreas > 1 then do {
       a \<leftarrow> idx_list areas minK;
       theirs \<leftarrow> get2 (aflags a) (2 - playerNum);
       own \<leftarrow> get2 (aflags a) (playerNum - 1);
       let occupator = (if theirs > own then 3 - playerNum else playerNum);
       foldM (occupyCell ms minK occupator) (allIdx b) (b, 1)
     } else Some (b, 1)
   }"

section \<open>Effects of special pieces\<close>

definition applyFireEffect :: "board \<Rightarrow> idx \<Rightarrow> board option" where
  "applyFireEffect b x = foldM (\<lambda>y b. do {
     f \<leftarrow> getField b y;
     setField b y (f\<lparr>Owner := 0, Type := CellDead, Hidden := False, Lifetime := Classic_lifetime CellDead\<rparr>)
   }) (neighbors b x) b"

definition infect :: "idx \<Rightarrow> idx \<Rightarrow> board \<Rightarrow> board option" where
  "infect x y b = do {
     f \<leftarrow> getField b y;
     p \<leftarrow> getField b x;
     if Owner f > 0 \<and> Owner f \<noteq> Owner p \<and> Type f = CellNormal
     then setField b y (f\<lparr>Owner := Owner p, Type := CellPest, Lifetime := Classic_lifetime CellPest\<rparr>)
     else Some b
   }"

definition spreadPest :: "idx \<Rightarrow> board \<Rightarrow> board option" where
  "spreadPest x b = do {
     f \<leftarrow> getField b x;
     if Type f = CellPest \<and> Lifetime f < Classic_lifetime CellPest
     then foldM (infect x) (neighbors b x) b
     else Some b
   }"

definition applyPestEffect :: "board \<Rightarrow> board option" where
  "applyPestEffect b = foldM spreadPest (allIdx b) b"

definition cleanCell :: "field \<Rightarrow> field" where
  "cleanCell f =
    (let f = (if occupied f \<and> Lifetime f = 0
              then f\<lparr>Owner := 0, Hidden := False, Type := CellNormal, Lifetime := Classic_lifetime CellNormal\<rparr>
              else f)
     in if Lifetime f > 0 then f\<lparr>Lifetime := Lifetime f - 1\<rparr> else f)"

definition cleanUp :: "board \<Rightarrow> board option" where
  "cleanUp b = foldM (\<lambda>x b. do { f \<leftarrow> getField b x; setField b x (cleanCell f) }) (allIdx b) b"

section \<open>Moves\<close>

text \<open>
  The effect of the piece on the board: the board, the number of occupied fields and whether the
  move reveals the board, or a refusal.
\<close>

definition applyPiece :: "board \<Rightarrow> game_engine_move \<Rightarrow> (board \<times> int \<times> bool) option option" where
  "applyPiece b m = (let turn = Turn b; x = Idx (mvRow m) (mvCol m); ct = mvType m;
       revealBoard = (ct \<noteq> CellNormal \<and> ct \<noteq> CellFlag) in do {
     f \<leftarrow> getField b x;
     if occupied f then
       (if Hidden f \<and> Owner f = 3 - turn then do {
          b \<leftarrow> setField (b\<lparr>Move := Move b + 1\<rparr>) x
                 (f\<lparr>Owner := 0, Type := CellDead, Lifetime := Classic_lifetime CellDead\<rparr>);
          Some (Some (b, 0, True))
        } else if ct = CellDeath then do {
          b \<leftarrow> setField b x
                 (f\<lparr>Owner := turn, Type := CellDeath, Hidden := False, Lifetime := Classic_lifetime CellDeath\<rparr>);
          Some (Some (b, 0, revealBoard))
        } else Some None)
     else do {
       let b = b\<lparr>Move := Move b + 1\<rparr>;
       if ct = CellFire then do {
         b \<leftarrow> setField b x (f\<lparr>Owner := turn, Type := ct, Lifetime := Classic_lifetime CellFire\<rparr>);
         b \<leftarrow> applyFireEffect b x;
         Some (Some (b, 0, revealBoard))
       } else do {
         (b, n) \<leftarrow> occupyFields b turn x ct;
         Some (Some (b, n, revealBoard))
       }
     }
   })"

definition payPiece :: "board \<Rightarrow> int \<Rightarrow> cell_type \<Rightarrow> board option" where
  "payPiece b p ct = do {
     r \<leftarrow> idx_list (Resources b) p;
     rs \<leftarrow> upd_list (Resources b) p \<lparr>NumPieces = (NumPieces r)(ct := NumPieces r ct - 1)\<rparr>;
     Some (b\<lparr>Resources := rs\<rparr>)
   }"

definition revealAndClean :: "board \<Rightarrow> board option" where
  "revealAndClean b = do {
     b \<leftarrow> revealHiddenMoves b;
     b \<leftarrow> applyPestEffect b;
     b \<leftarrow> cleanUp b;
     Some (b\<lparr>LastRevealed := Move b\<rparr>)
   }"

definition Classic_endMove :: "board \<Rightarrow> int \<Rightarrow> cell_type \<Rightarrow> int \<Rightarrow> bool \<Rightarrow> board option" where
  "Classic_endMove b turn ct n revealBoard = do {
     b \<leftarrow> (if ct \<noteq> CellNormal then payPiece b (turn - 1) ct else Some b);
     let t = Turn b + 1;
     let b = b\<lparr>Turn := (if t > 2 then 1 else t)\<rparr>;
     b \<leftarrow> (if n > 1 \<or> Move b - LastRevealed b = 4 \<or> revealBoard then revealAndClean b else Some b);
     recomputeScoreAndState b
   }"

definition Classic_MakeMove :: "board \<Rightarrow> game_engine_move \<Rightarrow> (board \<times> bool) option" where
  "Classic_MakeMove b m = (let turn = Turn b; ct = mvType m in
     if mvPlayer m \<noteq> turn \<or> mvMove m \<noteq> Move b then Some (b, False)
     else if \<not> valid b (Idx (mvRow m) (mvCol m)) \<or> \<not> isPlayerPiece ct then Some (b, False)
     else do {
       out \<leftarrow> (if ct \<noteq> CellNormal then do {
                r \<leftarrow> idx_list (Resources b) (turn - 1); Some (NumPieces r ct = 0) } else Some False);
       if out then Some (b, False)
       else do {
         r \<leftarrow> applyPiece b m;
         case r of None \<Rightarrow> Some (b, False)
         | Some (b', n, revealBoard) \<Rightarrow> do {
             b' \<leftarrow> Classic_endMove b' turn ct n revealBoard;
             Some (b', True)
           }
       }
     })"

end
