(* ===== verification/ClassicFill.thy ===== *)
theory ClassicFill
  imports Classic
begin

text \<open>
  The flood fill of the Classic engine and what \<open>occupyFields\<close> computes with it.

  \<^item> \<open>region b x\<close> is what the fill from \<open>x\<close> should visit: the free cells connected to \<open>x\<close> and
    the occupied cells on their boundary.
  \<^item> \<open>filled b k R st st'\<close> says what a part of the fill with number \<open>k\<close> has done: it has marked
    cells of \<open>R\<close> only, accounted each of them once in area \<open>k\<close>, and has marked the neighbors
    of every free cell it has marked.
  \<^item> \<open>floodFill_region\<close>: from a state without marks \<open>k\<close> the fill returns and marks exactly
    \<open>region b x\<close>. The depth bound is the number of cells plus one.
  \<^item> \<open>occupyFields_spec\<close>: the whole routine, against a definition by regions.
\<close>

section \<open>The marks\<close>

definition shape_ok :: "board \<Rightarrow> int list list \<Rightarrow> bool" where
  "shape_ok b ms \<longleftrightarrow> map length ms = map snd (Fields b)"

definition msat :: "int list list \<Rightarrow> idx \<Rightarrow> int" where
  "msat ms x = ms ! nat (row_of x) ! nat (col_of x)"

definition msput :: "int list list \<Rightarrow> idx \<Rightarrow> int \<Rightarrow> int list list" where
  "msput ms x v = ms[nat (row_of x) := (ms ! nat (row_of x))[nat (col_of x) := v]]"

lemma shape_row:
  assumes "shape_ok b ms" "valid b x"
  shows "nat (row_of x) < length ms" "nat (col_of x) < length (ms ! nat (row_of x))"
    "0 \<le> row_of x" "0 \<le> col_of x"
proof -
  have len: "length ms = length (Fields b)" using assms(1) by (metis shape_ok_def length_map)
  with assms(2) show r: "nat (row_of x) < length ms" "0 \<le> row_of x" "0 \<le> col_of x" by (auto simp: valid_def)
  have "length (ms ! nat (row_of x)) = snd (Fields b ! nat (row_of x))"
    using assms(1) r(1) len by (metis shape_ok_def nth_map)
  with assms(2) show "nat (col_of x) < length (ms ! nat (row_of x))" by (auto simp: valid_def)
qed

lemma ms_get_valid [go_simps]: "shape_ok b ms \<Longrightarrow> valid b x \<Longrightarrow> ms_get ms x = Some (msat ms x)"
  using shape_row[of b ms x] by (simp add: ms_get_def msat_def go_simps)

lemma ms_set_valid [go_simps]: "shape_ok b ms \<Longrightarrow> valid b x \<Longrightarrow> ms_set ms x v = Some (msput ms x v)"
  using shape_row[of b ms x] by (simp add: ms_set_def msput_def go_simps)

lemma shape_msput [simp]: "shape_ok b (msput ms x v) = shape_ok b ms"
proof -
  have "map length (msput ms x v) = map length ms"
    by (simp add: msput_def map_update) (metis list_update_id map_update)
  then show ?thesis by (simp add: shape_ok_def)
qed

lemma msat_msput:
  assumes "shape_ok b ms" "valid b x" "valid b y"
  shows "msat (msput ms x v) y = (if y = x then v else msat ms y)"
  using shape_row[OF assms(1,2)] shape_row[OF assms(1,3)]
  by (cases x; cases y) (auto simp: msat_def msput_def nth_list_update)

definition marked :: "board \<Rightarrow> nat \<Rightarrow> int list list \<Rightarrow> idx set" where
  "marked b k ms = {y \<in> set (allIdx b). msat ms y = int k}"

lemma finite_marked [simp]: "finite (marked b k ms)"
  by (simp add: marked_def)

lemma marked_valid: "y \<in> marked b k ms \<longleftrightarrow> valid b y \<and> msat ms y = int k"
  by (simp add: marked_def valid_iff_allIdx)

lemma marked_msput:
  "shape_ok b ms \<Longrightarrow> valid b x \<Longrightarrow> marked b k (msput ms x (int k)) = insert x (marked b k ms)"
  by (auto simp: marked_valid msat_msput split: if_splits)

section \<open>Accounting for a set of cells\<close>

definition count :: "(field \<Rightarrow> bool) \<Rightarrow> board \<Rightarrow> idx set \<Rightarrow> int" where
  "count P b N = int (card {y \<in> N. P (fld b y)})"

definition isFlag :: "int \<Rightarrow> field \<Rightarrow> bool" where
  "isFlag p f \<longleftrightarrow> Type f = CellFlag \<and> Owner f = p"

definition isDead :: "field \<Rightarrow> bool" where
  "isDead f \<longleftrightarrow> Type f = CellDead"

abbreviation isFree :: "field \<Rightarrow> bool" where
  "isFree f \<equiv> \<not> occupied f"

definition account :: "board \<Rightarrow> idx set \<Rightarrow> area \<Rightarrow> area" where
  "account b N a = \<lparr>asize = asize a + count isFree b N,
     aflags = Arr2 (at2 (aflags a) 0 + count (isFlag 1) b N) (at2 (aflags a) 1 + count (isFlag 2) b N),
     adead = adead a + count isDead b N\<rparr>"

lemma count_Un:
  assumes "finite M" "finite N" "M \<inter> N = {}"
  shows "count P b (M \<union> N) = count P b M + count P b N"
proof -
  have "{y \<in> M \<union> N. P (fld b y)} = {y \<in> M. P (fld b y)} \<union> {y \<in> N. P (fld b y)}" by auto
  moreover have "card \<dots> = card {y \<in> M. P (fld b y)} + card {y \<in> N. P (fld b y)}"
    using assms by (intro card_Un_disjoint) auto
  ultimately show ?thesis by (simp add: count_def)
qed

lemma count_simps [simp]: "count P b {} = 0" "count P b {x} = of_bool (P (fld b x))"
proof -
  have "{y. y = x \<and> P (fld b y)} = (if P (fld b x) then {x} else {})" by auto
  then show "count P b {x} = of_bool (P (fld b x))" by (simp add: count_def)
qed (simp add: count_def)

lemma count_nonneg: "0 \<le> count P b N"
  by (simp add: count_def)

lemma count_pos_iff: "finite N \<Longrightarrow> 0 < count P b N \<longleftrightarrow> (\<exists>y \<in> N. P (fld b y))"
  by (auto simp: count_def card_gt_0_iff)

lemma account_Un:
  "finite M \<Longrightarrow> finite N \<Longrightarrow> M \<inter> N = {} \<Longrightarrow> account b (M \<union> N) a = account b N (account b M a)"
  by (simp add: account_def count_Un)

lemma account_empty [simp]: "account b {} a = a"
  by (cases a) (simp add: account_def at2_def)

section \<open>Regions\<close>

inductive_set region :: "board \<Rightarrow> idx \<Rightarrow> idx set" for b x where
  region_start: "x \<in> region b x"
| region_step: "z \<in> region b x \<Longrightarrow> isFree (fld b z) \<Longrightarrow> y \<in> set (neighbors b z) \<Longrightarrow> y \<in> region b x"

lemma region_valid: "y \<in> region b x \<Longrightarrow> valid b x \<Longrightarrow> valid b y"
  by (induction rule: region.induct) (auto dest: neighbors_valid)

lemma region_trans: "z \<in> region b y \<Longrightarrow> y \<in> region b x \<Longrightarrow> z \<in> region b x"
  by (induction rule: region.induct) (auto intro: region_step)

lemma region_sym:
  assumes "y \<in> region b x" "valid b x" "isFree (fld b x)"
  shows "isFree (fld b y) \<longrightarrow> x \<in> region b y"
  using assms
proof (induction rule: region.induct)
  case region_start
  then show ?case by (simp add: region.region_start)
next
  case (region_step z y)
  have "valid b z" using region_valid[OF region_step.hyps(1)] region_step.prems by simp
  then have "z \<in> set (neighbors b y)" using neighbors_sym region_step.hyps(3) by blast
  then have "isFree (fld b y) \<longrightarrow> z \<in> region b y" by (auto intro: region.intros)
  with region_step.IH[OF region_step.prems] region_step.hyps(2) show ?case
    by (auto intro: region_trans)
qed

lemma region_occupied: "occupied (fld b x) \<Longrightarrow> region b x = {x}"
proof -
  assume occ: "occupied (fld b x)"
  have "y = x" if "y \<in> region b x" for y using that by (induction) (use occ in auto)
  then show ?thesis by (auto intro: region_start)
qed

lemma region_eq:
  "y \<in> region b x \<Longrightarrow> isFree (fld b x) \<Longrightarrow> isFree (fld b y) \<Longrightarrow> valid b x \<Longrightarrow> region b y = region b x"
  using region_sym[of y b x] region_trans by blast

lemma finite_region: "valid b x \<Longrightarrow> finite (region b x)"
  by (rule finite_subset[of _ "set (allIdx b)"]) (auto simp: region_valid valid_iff_allIdx[symmetric])

section \<open>The fill\<close>

definition flags_ok :: "board \<Rightarrow> bool" where
  "flags_ok b \<longleftrightarrow> (\<forall>x. valid b x \<longrightarrow> Type (fld b x) = CellFlag \<longrightarrow> Owner (fld b x) = 1 \<or> Owner (fld b x) = 2)"

definition fill_ok :: "board \<Rightarrow> nat \<Rightarrow> fill \<Rightarrow> bool" where
  "fill_ok b k st \<longleftrightarrow> shape_ok b (fst st) \<and> k < length (snd st)"

definition filled :: "board \<Rightarrow> nat \<Rightarrow> idx set \<Rightarrow> fill \<Rightarrow> fill \<Rightarrow> bool" where
  "filled b k R st st' \<longleftrightarrow> (let M = marked b k (fst st); M' = marked b k (fst st') in
     shape_ok b (fst st') \<and> M \<subseteq> M' \<and> M' - M \<subseteq> R \<and>
     (\<forall>y. valid b y \<longrightarrow> msat (fst st') y = msat (fst st) y \<or> msat (fst st') y = int k) \<and>
     snd st' = (snd st)[k := account b (M' - M) (snd st ! k)] \<and>
     (\<forall>y \<in> M' - M. isFree (fld b y) \<longrightarrow> set (neighbors b y) \<subseteq> M'))"

lemma filled_ok: "fill_ok b k st \<Longrightarrow> filled b k R st st' \<Longrightarrow> fill_ok b k st'"
  by (auto simp: fill_ok_def filled_def Let_def)

lemma filled_refl: "fill_ok b k st \<Longrightarrow> filled b k R st st"
  by (simp add: filled_def fill_ok_def)

lemma filled_trans:
  assumes k: "fill_ok b k st" and f: "filled b k R st t" "filled b k R t u"
  shows "filled b k R st u"
proof -
  let ?M = "\<lambda>s. marked b k (fst s)"
  have M: "?M st \<subseteq> ?M t" "?M t \<subseteq> ?M u" using f by (auto simp: filled_def Let_def)
  then have split: "?M u - ?M st = (?M t - ?M st) \<union> (?M u - ?M t)" by auto
  have "account b (?M u - ?M st) a = account b (?M u - ?M t) (account b (?M t - ?M st) a)" for a
    unfolding split by (rule account_Un) auto
  then have "snd u = (snd st)[k := account b (?M u - ?M st) (snd st ! k)]"
    using f k by (simp add: filled_def Let_def fill_ok_def)
  moreover have "\<forall>y \<in> ?M u - ?M st. isFree (fld b y) \<longrightarrow> set (neighbors b y) \<subseteq> ?M u"
  proof (intro ballI impI)
    fix y
    assume y: "y \<in> ?M u - ?M st" "isFree (fld b y)"
    then consider "y \<in> ?M t - ?M st" | "y \<in> ?M u - ?M t" by blast
    then show "set (neighbors b y) \<subseteq> ?M u"
      using f y(2) M(2) unfolding filled_def Let_def by cases blast+
  qed
  moreover have "?M u - ?M st \<subseteq> R" unfolding split using f by (auto simp: filled_def Let_def)
  moreover have "\<forall>y. valid b y \<longrightarrow> msat (fst u) y = msat (fst st) y \<or> msat (fst u) y = int k"
    using f unfolding filled_def Let_def by metis
  ultimately show ?thesis using f M unfolding filled_def Let_def by blast
qed

text \<open>The callback marks a new cell and accounts for it.\<close>

definition markStep :: "board \<Rightarrow> nat \<Rightarrow> idx \<Rightarrow> fill \<Rightarrow> fill" where
  "markStep b k x st = (msput (fst st) x (int k), (snd st)[k := account b {x} (snd st ! k)])"

lemma markCell_eq:
  assumes "wf_board b" "flags_ok b" "valid b x" "fill_ok b k st"
  shows "markCell b (int k) x st = Some
    (if msat (fst st) x = int k then (st, False) else (markStep b k x st, isFree (fld b x)))"
proof -
  obtain ms areas where st: "st = (ms, areas)" by (cases st)
  have sh: "shape_ok b ms" and k: "k < length areas" using assms(4) by (simp_all add: st fill_ok_def)
  let ?f = "fld b x"
  have acc: "account b {x} a = (if isFree ?f then a\<lparr>asize := asize a + 1\<rparr>
      else if Type ?f = CellFlag then a\<lparr>aflags := put2 (aflags a) (Owner ?f - 1) (at2 (aflags a) (Owner ?f - 1) + 1)\<rparr>
      else if Type ?f = CellDead then a\<lparr>adead := adead a + 1\<rparr> else a)" for a
    using assms(2,3)
    by (cases a; cases "aflags a")
      (auto simp: account_def isFlag_def isDead_def occupied_def flags_ok_def put2_def)
  show ?thesis
    using assms(1,3) sh k assms(2)[unfolded flags_ok_def, rule_format, OF assms(3)]
    by (auto simp: markCell_def st go_simps addFlag_def markStep_def acc)
qed

lemma markStep_ok:
  assumes "fill_ok b k st" "valid b x"
  shows "fill_ok b k (markStep b k x st)"
    "marked b k (fst (markStep b k x st)) = insert x (marked b k (fst st))"
    "msat (fst st) x \<noteq> int k \<Longrightarrow> x \<notin> marked b k (fst st)"
  using assms by (simp_all add: fill_ok_def markStep_def marked_msput marked_valid)

definition unmarked :: "board \<Rightarrow> nat \<Rightarrow> fill \<Rightarrow> nat" where
  "unmarked b k st = card (set (allIdx b) - marked b k (fst st))"

lemma unmarked_markStep:
  assumes "fill_ok b k st" "valid b x" "msat (fst st) x \<noteq> int k"
  shows "Suc (unmarked b k (markStep b k x st)) = unmarked b k st"
proof -
  have "set (allIdx b) - marked b k (fst (markStep b k x st)) = set (allIdx b) - marked b k (fst st) - {x}"
    by (auto simp: markStep_ok(2)[OF assms(1,2)])
  moreover have "Suc (card (set (allIdx b) - marked b k (fst st) - {x})) = card (set (allIdx b) - marked b k (fst st))"
    using assms(2,3) by (intro card_Suc_Diff1) (auto simp: valid_iff_allIdx[symmetric] marked_valid)
  ultimately show ?thesis by (simp only: unmarked_def)
qed

lemma unmarked_mono: "filled b k R st st' \<Longrightarrow> unmarked b k st' \<le> unmarked b k st"
  unfolding unmarked_def filled_def Let_def by (intro card_mono) auto

text \<open>
  Marking a free cell and then filling from each of its neighbors is a fill.
\<close>

lemma filled_markStep:
  assumes k: "fill_ok b k st" and x: "valid b x" "x \<in> R" "msat (fst st) x \<noteq> int k"
    and t: "filled b k R (markStep b k x st) t"
    and nb: "isFree (fld b x) \<longrightarrow> set (neighbors b x) \<subseteq> marked b k (fst t)"
  shows "filled b k R st t"
proof -
  let ?s = "markStep b k x st" and ?M = "\<lambda>s. marked b k (fst s)"
  note ok = markStep_ok(1)[OF k x(1)] and M1 = markStep_ok(2)[OF k x(1)] and new = markStep_ok(3)[OF k x(1,3)]
  from t have M: "insert x (?M st) \<subseteq> ?M t" by (auto simp: filled_def Let_def M1)
  have split: "?M t - ?M st = {x} \<union> (?M t - ?M ?s)" using M new by (auto simp: M1)
  have "account b (?M t - ?M st) a = account b (?M t - ?M ?s) (account b {x} a)" for a
    unfolding split by (rule account_Un) (auto simp: M1)
  then have "snd t = (snd st)[k := account b (?M t - ?M st) (snd st ! k)]"
    using t k by (simp add: filled_def Let_def fill_ok_def markStep_def)
  moreover have "\<forall>y. valid b y \<longrightarrow> msat (fst t) y = msat (fst st) y \<or> msat (fst t) y = int k"
  proof (intro allI impI)
    fix y
    assume y: "valid b y"
    with t have "msat (fst t) y = msat (fst ?s) y \<or> msat (fst t) y = int k" by (auto simp: filled_def Let_def)
    moreover have "msat (fst ?s) y = msat (fst st) y \<or> msat (fst ?s) y = int k"
      using k y x(1) by (auto simp: markStep_def fill_ok_def msat_msput)
    ultimately show "msat (fst t) y = msat (fst st) y \<or> msat (fst t) y = int k" by auto
  qed
  moreover have "?M t - ?M st \<subseteq> R" unfolding split using t x(2) by (auto simp: filled_def Let_def)
  moreover have "\<forall>y \<in> ?M t - ?M st. isFree (fld b y) \<longrightarrow> set (neighbors b y) \<subseteq> ?M t"
    unfolding split using t nb by (auto simp: filled_def Let_def)
  ultimately show ?thesis using t M unfolding filled_def Let_def by blast
qed

lemma floodFill_filled:
  assumes wf: "wf_board b" and fl: "flags_ok b"
    and R: "\<And>z. z \<in> R \<Longrightarrow> isFree (fld b z) \<Longrightarrow> set (neighbors b z) \<subseteq> R"
  shows "fill_ok b k st \<Longrightarrow> valid b x \<Longrightarrow> x \<in> R \<Longrightarrow> unmarked b k st < n \<Longrightarrow>
    \<exists>st'. floodFill n b (markCell b (int k)) x st = Some st' \<and> filled b k R st st' \<and> x \<in> marked b k (fst st')"
proof (induction n arbitrary: x st)
  case (Suc n)
  note k = Suc.prems(1) and x = Suc.prems(2,3)
  note eq = markCell_eq[OF wf fl x(1) k]
  let ?s = "markStep b k x st"
  consider (seen) "msat (fst st) x = int k" | (bound) "msat (fst st) x \<noteq> int k" "occupied (fld b x)"
    | (new) "msat (fst st) x \<noteq> int k" "isFree (fld b x)" by blast
  then show ?case
  proof cases
    case seen
    then show ?thesis using eq filled_refl[OF k] x by (simp add: marked_valid)
  next
    case bound
    note ok = markStep_ok[OF k x(1)]
    show ?thesis
      using eq bound filled_markStep[OF k x bound(1) filled_refl[OF ok(1)]] ok(2) by simp
  next
    case new
    note ok = markStep_ok[OF k x(1)]
    have "\<exists>t. foldM (floodFill n b (markCell b (int k))) (neighbors b x) ?s = Some t \<and>
      (filled b k R ?s t \<and> set (neighbors b x) \<subseteq> marked b k (fst t))"
    proof (rule foldM_prefix_rule)
      show "filled b k R ?s ?s \<and> set [] \<subseteq> marked b k (fst ?s)" using filled_refl[OF ok(1)] by simp
    next
      fix ys y zs t
      assume split: "neighbors b x = ys @ y # zs" and t: "filled b k R ?s t \<and> set ys \<subseteq> marked b k (fst t)"
      have y: "y \<in> set (neighbors b x)" using split by simp
      have "unmarked b k t \<le> unmarked b k ?s" using t unmarked_mono by blast
      moreover have "Suc (unmarked b k ?s) = unmarked b k st" by (rule unmarked_markStep[OF k x(1) new(1)])
      ultimately have "unmarked b k t < n" using Suc.prems(4) by linarith
      moreover have "y \<in> R" using R[OF x(2) new(2)] y by blast
      ultimately obtain u where u: "floodFill n b (markCell b (int k)) y t = Some u" "filled b k R t u"
          "y \<in> marked b k (fst u)"
        using Suc.IH[of t y] filled_ok[OF ok(1)] t neighbors_valid[OF y] by blast
      moreover have "marked b k (fst t) \<subseteq> marked b k (fst u)" using u(2) by (simp add: filled_def Let_def)
      ultimately show "\<exists>u. floodFill n b (markCell b (int k)) y t = Some u \<and>
          filled b k R ?s u \<and> set (ys @ [y]) \<subseteq> marked b k (fst u)"
        using t filled_trans[OF ok(1), of R t u] by auto
    qed
    then obtain t where t: "foldM (floodFill n b (markCell b (int k))) (neighbors b x) ?s = Some t"
        "filled b k R ?s t" "set (neighbors b x) \<subseteq> marked b k (fst t)" by blast
    have "x \<in> marked b k (fst t)" using t(2) ok(2) by (auto simp: filled_def Let_def)
    with t eq new filled_markStep[OF k x new(1) t(2)] show ?thesis by simp
  qed
qed simp

text \<open>Without earlier marks of number \<open>k\<close>, the fill marks the region of its start, and no more.\<close>

lemma floodFill_region:
  assumes wf: "wf_board b" and fl: "flags_ok b" and k: "fill_ok b k st" and x: "valid b x"
    and none: "marked b k (fst st) = {}"
  shows "\<exists>st'. floodFill (fillDepth b) b (markCell b (int k)) x st = Some st' \<and>
    shape_ok b (fst st') \<and> marked b k (fst st') = region b x \<and>
    (\<forall>y. valid b y \<longrightarrow> msat (fst st') y = (if y \<in> region b x then int k else msat (fst st) y)) \<and>
    snd st' = (snd st)[k := account b (region b x) (snd st ! k)]"
proof -
  have "unmarked b k st < fillDepth b"
    using length_allIdx[OF wf] distinct_card[OF distinct_allIdx[OF wf]]
    by (simp add: unmarked_def none fillDepth_def)
  then obtain st' where st': "floodFill (fillDepth b) b (markCell b (int k)) x st = Some st'"
      "filled b k (region b x) st st'" "x \<in> marked b k (fst st')"
    using floodFill_filled[OF wf fl _ k x region_start, where n = "fillDepth b"] region_step[of _ b x] by blast
  have sub: "marked b k (fst st') \<subseteq> region b x" using st'(2) none by (auto simp: filled_def Let_def)
  have "y \<in> marked b k (fst st')" if "y \<in> region b x" for y
    using that
  proof induction
    case (region_step z y)
    with st'(2) none show ?case by (auto simp: filled_def Let_def)
  qed (rule st'(3))
  with sub have M: "marked b k (fst st') = region b x" by blast
  have "msat (fst st') y = (if y \<in> region b x then int k else msat (fst st) y)" if "valid b y" for y
    using st'(2) that M[symmetric] by (auto simp: filled_def Let_def marked_valid)
  with st' M none show ?thesis by (auto simp: filled_def Let_def)
qed

section \<open>The areas around a piece\<close>

text \<open>\<open>fresh b ns i\<close>: the \<open>i\<close>-th neighbor is free and in no area of an earlier one.\<close>

definition fresh :: "board \<Rightarrow> idx list \<Rightarrow> nat \<Rightarrow> bool" where
  "fresh b ns i \<longleftrightarrow> isFree (fld b (ns ! i)) \<and> (\<forall>j < i. ns ! i \<notin> region b (ns ! j))"

definition scanned :: "board \<Rightarrow> idx list \<Rightarrow> area list \<Rightarrow> nat \<Rightarrow> fill \<Rightarrow> bool" where
  "scanned b ns as0 n st \<longleftrightarrow> shape_ok b (fst st) \<and> length (snd st) = length as0 \<and>
     (\<forall>y. valid b y \<longrightarrow> msat (fst st) y = -1 \<or> (\<exists>i < n. msat (fst st) y = int i)) \<and>
     (\<forall>y. valid b y \<longrightarrow> isFree (fld b y) \<longrightarrow>
        (if \<exists>i < n. y \<in> region b (ns ! i) then msat (fst st) y = int (LEAST i. y \<in> region b (ns ! i))
         else msat (fst st) y = -1)) \<and>
     (\<forall>i < n. if fresh b ns i then snd st ! i = account b (region b (ns ! i)) (as0 ! i)
              else asize (snd st ! i) = asize (as0 ! i)) \<and>
     (\<forall>i. n \<le> i \<longrightarrow> i < length as0 \<longrightarrow> snd st ! i = as0 ! i)"

lemma scanned_cell:
  "scanned b ns as0 n st \<Longrightarrow> valid b y \<Longrightarrow> isFree (fld b y) \<Longrightarrow>
   if \<exists>i < n. y \<in> region b (ns ! i) then msat (fst st) y = int (LEAST i. y \<in> region b (ns ! i))
   else msat (fst st) y = -1"
  unfolding scanned_def by blast

lemma scanned_area:
  "scanned b ns as0 n st \<Longrightarrow> i < n \<Longrightarrow>
   if fresh b ns i then snd st ! i = account b (region b (ns ! i)) (as0 ! i) else asize (snd st ! i) = asize (as0 ! i)"
  unfolding scanned_def by blast

lemma scanned_0: "shape_ok b ms \<Longrightarrow> \<forall>y. valid b y \<longrightarrow> msat ms y = -1 \<Longrightarrow> scanned b ns as0 0 (ms, as0)"
  by (auto simp: scanned_def)

lemma region_disjoint:
  assumes "valid b x" "valid b z" "y \<in> region b x" "y \<in> region b z" "isFree (fld b y)" "isFree (fld b x)"
  shows "x \<in> region b z"
  using region_sym[OF assms(3,1,6)] assms(4,5) region_trans by blast

lemma fillFrom_scanned:
  assumes wf: "wf_board b" and fl: "flags_ok b" and n: "n < length ns" "length ns \<le> length as0"
    and ns: "\<And>y. y \<in> set ns \<Longrightarrow> valid b y" and st: "scanned b ns as0 n st"
  shows "\<exists>st'. fillFrom b ns n st = Some st' \<and> scanned b ns as0 (Suc n) st'"
proof -
  let ?x = "ns ! n"
  have x: "valid b ?x" using ns n by simp
  have sh: "shape_ok b (fst st)" using st by (simp add: scanned_def)
  have old: "(\<exists>i < n. y \<in> region b (ns ! i)) \<longleftrightarrow> msat (fst st) y \<noteq> -1"
      "(\<exists>i < n. y \<in> region b (ns ! i)) \<Longrightarrow> msat (fst st) y = int (LEAST i. y \<in> region b (ns ! i))"
    if "valid b y" "isFree (fld b y)" for y
    using st that by (auto simp: scanned_def split: if_splits)
  show ?thesis
  proof (cases "msat (fst st) ?x = -1")
    case False
    then have nf: "\<not> fresh b ns n" using old(1)[OF x] by (auto simp: fresh_def)
    have cov: "(\<exists>i < Suc n. y \<in> region b (ns ! i)) \<longleftrightarrow> (\<exists>i < n. y \<in> region b (ns ! i))"
      if y: "valid b y" "isFree (fld b y)" for y
    proof -
      have "\<exists>i < n. y \<in> region b (ns ! i)" if yx: "y \<in> region b ?x"
      proof (cases "isFree (fld b ?x)")
        case True
        with old(1)[OF x True] False obtain i where "i < n" "?x \<in> region b (ns ! i)" by blast
        with yx show ?thesis using region_trans by blast
      next
        case occ: False
        then have "y = ?x" using region_occupied yx by blast
        with y occ show ?thesis by simp
      qed
      then show ?thesis by (auto simp: less_Suc_eq)
    qed
    have "scanned b ns as0 (Suc n) st"
      unfolding scanned_def
    proof (intro conjI allI impI)
      fix y assume "valid b y"
      then show "msat (fst st) y = -1 \<or> (\<exists>i < Suc n. msat (fst st) y = int i)"
        using st by (auto simp: scanned_def less_Suc_eq)
    next
      fix y assume y: "valid b y" "isFree (fld b y)"
      show "if \<exists>i < Suc n. y \<in> region b (ns ! i) then msat (fst st) y = int (LEAST i. y \<in> region b (ns ! i))
         else msat (fst st) y = -1"
        unfolding cov[OF y] using old[OF y] by (metis (lifting))
    next
      fix i assume "i < Suc n"
      then show "if fresh b ns i then snd st ! i = account b (region b (ns ! i)) (as0 ! i)
         else asize (snd st ! i) = asize (as0 ! i)"
        using st nf n by (auto simp: scanned_def less_Suc_eq split: if_splits)
    qed (use st in \<open>auto simp: scanned_def\<close>)
    then show ?thesis using False sh x n by (simp add: fillFrom_def go_simps)
  next
    case True
    have none: "marked b n (fst st) = {}" using st by (fastforce simp: marked_valid scanned_def)
    have ok: "fill_ok b n st" using st n by (simp add: fill_ok_def scanned_def)
    obtain st' where st': "floodFill (fillDepth b) b (markCell b (int n)) ?x st = Some st'"
        "shape_ok b (fst st')" "marked b n (fst st') = region b ?x"
        "\<And>y. valid b y \<Longrightarrow> msat (fst st') y = (if y \<in> region b ?x then int n else msat (fst st) y)"
        "snd st' = (snd st)[n := account b (region b ?x) (snd st ! n)]"
      using floodFill_region[OF wf fl ok x none] by blast
    have sep: "\<not> (\<exists>i < n. y \<in> region b (ns ! i))" if y: "y \<in> region b ?x" "isFree (fld b y)" for y
    proof (cases "isFree (fld b ?x)")
      case fr: True
      have "?x \<notin> region b (ns ! i)" if "i < n" for i using old(1)[OF x fr] True that by blast
      moreover have "valid b (ns ! i)" if "i < n" for i using ns n that by simp
      ultimately show ?thesis using region_disjoint[OF x _ y(1) _ y(2) fr] by blast
    next
      case False
      then have "y = ?x" using region_occupied y(1) by blast
      with y False show ?thesis by simp
    qed
    have fresh: "fresh b ns n \<longleftrightarrow> isFree (fld b ?x)"
      using sep[OF region_start] by (auto simp: fresh_def)
    have len: "n < length (snd st)" and same: "snd st ! n = as0 ! n" using st n by (auto simp: scanned_def)
    have occ_size: "\<not> isFree (fld b ?x) \<Longrightarrow> asize (account b (region b ?x) a) = asize a" for a
      using region_occupied[of b ?x] by (simp add: account_def)
    have "scanned b ns as0 (Suc n) st'"
      unfolding scanned_def
    proof (intro conjI allI impI)
      show "shape_ok b (fst st')" "length (snd st') = length as0" using st st'(2,5) by (simp_all add: scanned_def)
      fix y assume y: "valid b y"
      show "msat (fst st') y = -1 \<or> (\<exists>i < Suc n. msat (fst st') y = int i)"
        using st y unfolding st'(4)[OF y] scanned_def by (auto simp: less_Suc_eq)
      assume f: "isFree (fld b y)"
      show "if \<exists>i < Suc n. y \<in> region b (ns ! i) then msat (fst st') y = int (LEAST i. y \<in> region b (ns ! i))
         else msat (fst st') y = -1"
      proof (cases "y \<in> region b ?x")
        case yx: True
        have "(LEAST i. y \<in> region b (ns ! i)) = n"
          using yx sep[OF yx f] by (intro Least_equality) (auto simp: not_less[symmetric])
        with yx st'(4)[OF y] show ?thesis by auto
      next
        case False
        then have "(\<exists>i < Suc n. y \<in> region b (ns ! i)) \<longleftrightarrow> (\<exists>i < n. y \<in> region b (ns ! i))"
          by (auto simp: less_Suc_eq)
        then show ?thesis using False old[OF y f] st'(4)[OF y] by (metis (lifting))
      qed
    next
      fix i assume "i < Suc n"
      then show "if fresh b ns i then snd st' ! i = account b (region b (ns ! i)) (as0 ! i)
         else asize (snd st' ! i) = asize (as0 ! i)"
        using st len same fresh occ_size unfolding st'(5)
        by (auto simp: scanned_def less_Suc_eq nth_list_update split: if_splits)
    next
      fix i assume "Suc n \<le> i" "i < length as0"
      then show "snd st' ! i = as0 ! i" using st unfolding st'(5) by (simp add: scanned_def)
    qed
    with True st'(1) sh x n show ?thesis by (simp add: fillFrom_def go_simps)
  qed
qed

lemma fill_loop:
  assumes wf: "wf_board b" and fl: "flags_ok b" and ns: "\<And>y. y \<in> set ns \<Longrightarrow> valid b y"
    and len: "length ns \<le> length as0" and ms: "shape_ok b ms" "\<forall>y. valid b y \<longrightarrow> msat ms y = -1"
  shows "n \<le> length ns \<Longrightarrow>
    \<exists>st. foldM (fillFrom b ns) [0..<n] (ms, as0) = Some st \<and> scanned b ns as0 n st"
proof (induction n)
  case 0
  then show ?case using scanned_0[OF ms] by simp
next
  case (Suc n)
  then obtain st where "foldM (fillFrom b ns) [0..<n] (ms, as0) = Some st" "scanned b ns as0 n st" by auto
  with fillFrom_scanned[OF wf fl _ len ns, of n st] Suc.prems show ?case
    by (auto simp: foldM_snoc)
qed

definition elig :: "area list \<Rightarrow> nat \<Rightarrow> bool" where
  "elig areas i \<longleftrightarrow> asize (areas ! i) > 0 \<and> adead (areas ! i) = 0"

lemma countArea_loop:
  "n \<le> length areas \<Longrightarrow> \<exists>minK. foldM (countArea areas) [0..<n] (0, -1) = Some (int (card {i. i < n \<and> elig areas i}), minK) \<and>
    (if \<exists>i < n. elig areas i then \<exists>i < n. minK = int i \<and> elig areas i \<and>
        (\<forall>j < n. elig areas j \<longrightarrow> asize (areas ! i) \<le> asize (areas ! j)) else minK = -1)"
proof (induction n)
  case (Suc n)
  then obtain minK where IH: "foldM (countArea areas) [0..<n] (0, -1) = Some (int (card {i. i < n \<and> elig areas i}), minK)"
      "if \<exists>i < n. elig areas i then \<exists>i < n. minK = int i \<and> elig areas i \<and>
        (\<forall>j < n. elig areas j \<longrightarrow> asize (areas ! i) \<le> asize (areas ! j)) else minK = -1" by auto
  have n: "n < length areas" using Suc.prems by simp
  have card: "card {i. i < Suc n \<and> elig areas i} = card {i. i < n \<and> elig areas i} + of_bool (elig areas n)"
  proof -
    have "{i. i < Suc n \<and> elig areas i} =
        (if elig areas n then insert n {i. i < n \<and> elig areas i} else {i. i < n \<and> elig areas i})"
      by (auto simp: less_Suc_eq)
    then show ?thesis by auto
  qed
  have fold: "foldM (countArea areas) [0..<Suc n] (0, -1) =
      countArea areas n (int (card {i. i < n \<and> elig areas i}), minK)"
    by (simp add: foldM_snoc IH(1))
  consider (skip) "\<not> elig areas n" | (first) "elig areas n" "\<not> (\<exists>i < n. elig areas i)"
    | (later) i where "elig areas n" "i < n" "minK = int i" "elig areas i"
        "\<forall>j < n. elig areas j \<longrightarrow> asize (areas ! i) \<le> asize (areas ! j)"
    using IH(2) by (auto split: if_splits)
  then show ?case
  proof cases
    case skip
    then have "countArea areas n (int (card {i. i < n \<and> elig areas i}), minK) =
        Some (int (card {i. i < Suc n \<and> elig areas i}), minK)"
      unfolding card using n by (auto simp: countArea_def go_simps elig_def)
    with skip IH(2) show ?thesis unfolding fold by (auto simp: less_Suc_eq split: if_splits)
  next
    case first
    with IH(2) have "minK = -1" by auto
    then have "countArea areas n (int (card {i. i < n \<and> elig areas i}), minK) =
        Some (int (card {i. i < Suc n \<and> elig areas i}), int n)"
      unfolding card using n first by (auto simp: countArea_def go_simps elig_def)
    with first show ?thesis unfolding fold by (auto simp: less_Suc_eq)
  next
    case later
    then have "countArea areas n (int (card {i. i < n \<and> elig areas i}), minK) =
        Some (int (card {i. i < Suc n \<and> elig areas i}),
              if asize (areas ! i) > asize (areas ! n) then int n else int i)"
      unfolding card using n by (auto simp: countArea_def go_simps elig_def)
    with later show ?thesis unfolding fold
      by (cases "asize (areas ! i) > asize (areas ! n)")
        (auto simp: less_Suc_eq intro: exI[of _ n] exI[of _ i] order_trans[OF less_imp_le])
  qed
qed simp

lemma occupyCell_loop:
  fixes k :: int
  assumes wf: "wf_board b" and ms: "shape_ok b ms"
  defines "C \<equiv> \<lambda>y. msat ms y = k \<and> isFree (fld b y)"
  shows "\<exists>b'. foldM (occupyCell ms k p) (allIdx b) (b, n) = Some (b', n + int (card {y. valid b y \<and> C y})) \<and>
    same_frame b b' \<and> (\<forall>y. valid b y \<longrightarrow> fld b' y =
      (if C y then (fld b y)\<lparr>Owner := p, Lifetime := -1\<rparr> else fld b y))"
proof -
  have "\<exists>st. foldM (occupyCell ms k p) (allIdx b) (b, n) = Some st \<and>
    (snd st = n + int (card {y \<in> set (allIdx b). C y}) \<and> same_frame b (fst st) \<and>
     (\<forall>y. valid b y \<longrightarrow> fld (fst st) y =
       (if y \<in> set (allIdx b) \<and> C y then (fld b y)\<lparr>Owner := p, Lifetime := -1\<rparr> else fld b y)))"
  proof (rule foldM_prefix_rule)
    fix ys x zs t
    assume split: "allIdx b = ys @ x # zs"
      and t: "snd t = n + int (card {y \<in> set ys. C y}) \<and> same_frame b (fst t) \<and>
        (\<forall>y. valid b y \<longrightarrow> fld (fst t) y =
          (if y \<in> set ys \<and> C y then (fld b y)\<lparr>Owner := p, Lifetime := -1\<rparr> else fld b y))"
    have x: "valid b x" "x \<notin> set ys" using split distinct_allIdx[OF wf] by (auto simp: valid_iff_allIdx)
    note same = same_frame_sel[OF conjunct1[OF conjunct2[OF t]]]
    have fx: "fld (fst t) x = fld b x" using t x by simp
    have card: "card {y \<in> set (ys @ [x]). C y} = card {y \<in> set ys. C y} + of_bool (C x)"
    proof -
      have "{y \<in> set (ys @ [x]). C y} = (if C x then insert x {y \<in> set ys. C y} else {y \<in> set ys. C y})" by auto
      then show ?thesis using x(2) by auto
    qed
    let ?u = "if C x then (updf (fst t) x ((fld b x)\<lparr>Owner := p, Lifetime := -1\<rparr>), snd t + 1) else t"
    have "occupyCell ms k p x t = Some ?u"
      using t x wf same fx ms by (cases t) (auto simp: occupyCell_def go_simps C_def)
    moreover have "same_frame b (fst ?u)" using t same_frame_trans[OF _ same_frame_updf] by auto
    moreover have "fld (fst ?u) y =
        (if y \<in> set (ys @ [x]) \<and> C y then (fld b y)\<lparr>Owner := p, Lifetime := -1\<rparr> else fld b y)" if "valid b y" for y
      using that t x wf same by (auto simp: fld_updf)
    ultimately show "\<exists>u. occupyCell ms k p x t = Some u \<and>
        (snd u = n + int (card {y \<in> set (ys @ [x]). C y}) \<and> same_frame b (fst u) \<and>
         (\<forall>y. valid b y \<longrightarrow> fld (fst u) y =
           (if y \<in> set (ys @ [x]) \<and> C y then (fld b y)\<lparr>Owner := p, Lifetime := -1\<rparr> else fld b y)))"
      unfolding card using t by (intro exI[of _ ?u]) (simp split: if_splits)
  qed simp
  then obtain st where "foldM (occupyCell ms k p) (allIdx b) (b, n) = Some st"
      "snd st = n + int (card {y \<in> set (allIdx b). C y})" "same_frame b (fst st)"
      "\<And>y. valid b y \<Longrightarrow> fld (fst st) y =
       (if y \<in> set (allIdx b) \<and> C y then (fld b y)\<lparr>Owner := p, Lifetime := -1\<rparr> else fld b y)" by blast
  then show ?thesis by (cases st) (auto simp: valid_iff_allIdx)
qed

section \<open>\<open>occupyFields\<close>\<close>

definition pieceAt :: "board \<Rightarrow> int \<Rightarrow> idx \<Rightarrow> cell_type \<Rightarrow> board" where
  "pieceAt b p x ct = updf b x ((fld b x)\<lparr>Owner := p, Type := ct, Hidden := True, Lifetime := Classic_lifetime ct\<rparr>)"

text \<open>The free areas next to \<open>x\<close> that no dead cell touches.\<close>

definition splitAreas :: "board \<Rightarrow> idx \<Rightarrow> idx set set" where
  "splitAreas b x = region b ` {y \<in> set (neighbors b x). isFree (fld b y) \<and> count isDead b (region b y) = 0}"

text \<open>
  Who gets an area: the player with more flags on its boundary, the player who moves on a tie. A
  flag that is placed by the move itself counts twice, as one flag of the boundary and once more.
\<close>

definition areaWinner :: "board \<Rightarrow> int \<Rightarrow> cell_type \<Rightarrow> idx set \<Rightarrow> int" where
  "areaWinner b p ct R =
    (if count (isFlag (3 - p)) b R > count (isFlag p) b R + of_bool (ct = CellFlag) then 3 - p else p)"

definition startArea :: "int \<Rightarrow> cell_type \<Rightarrow> area" where
  "startArea p ct = emptyArea\<lparr>aflags := (if ct = CellFlag then put2 (Arr2 0 0) (p - 1) 1 else Arr2 0 0)\<rparr>"

lemma startAreas:
  "p = 1 \<or> p = 2 \<Longrightarrow> (if ct = CellFlag
     then foldM (\<lambda>i as. addFlag as (int i) (p - 1)) [0..<6] (replicate 6 emptyArea)
     else Some (replicate 6 emptyArea)) = Some (replicate 6 (startArea p ct))"
  by (auto simp: upt_rec numeral_eq_Suc addFlag_def idx_list_def upd_list_def get2_def set2_def
      emptyArea_def startArea_def put2_def)

lemma startMarks:
  fixes b :: board
  defines "ms \<equiv> map (\<lambda>(_, n). replicate n (-1)) (Fields b)"
  shows "shape_ok b ms" "valid b y \<Longrightarrow> msat ms y = -1"
proof -
  show "shape_ok b ms" by (auto simp: shape_ok_def ms_def)
  show "msat ms y = -1" if "valid b y"
    using that by (auto simp: msat_def ms_def valid_def case_prod_beta nat_less_iff)
qed

text \<open>What the scan of all neighbors has computed.\<close>

lemma scan_elig:
  assumes st: "scanned b ns (replicate 6 (startArea p ct)) (length ns) (ms, areas)" and len: "length ns \<le> 6"
    and ns: "\<And>y. y \<in> set ns \<Longrightarrow> valid b y" and i: "i < length ns"
  shows "elig areas i \<longleftrightarrow> fresh b ns i \<and> count isDead b (region b (ns ! i)) = 0"
    "elig areas i \<Longrightarrow> areas ! i = account b (region b (ns ! i)) (startArea p ct)"
proof -
  have ar: "if fresh b ns i then areas ! i = account b (region b (ns ! i)) (startArea p ct) else asize (areas ! i) = 0"
    using scanned_area[OF st i] i len by (auto simp: startArea_def emptyArea_def split: if_splits)
  have "0 < count isFree b (region b (ns ! i))" if "fresh b ns i"
    using that ns i finite_region[of b "ns ! i"]
    by (auto simp: count_pos_iff fresh_def intro!: bexI[of _ "ns ! i"] region_start)
  with ar show "elig areas i \<longleftrightarrow> fresh b ns i \<and> count isDead b (region b (ns ! i)) = 0"
    by (auto simp: elig_def account_def startArea_def emptyArea_def split: if_splits)
  with ar show "elig areas i \<Longrightarrow> areas ! i = account b (region b (ns ! i)) (startArea p ct)" by simp
qed

lemma fresh_cover:
  assumes ns: "\<And>y. y \<in> set ns \<Longrightarrow> valid b y" and j: "j < length ns" "isFree (fld b (ns ! j))"
  shows "\<exists>i < length ns. fresh b ns i \<and> region b (ns ! i) = region b (ns ! j)"
proof -
  let ?P = "\<lambda>i. ns ! j \<in> region b (ns ! i)"
  define i where "i = (LEAST i. ?P i)"
  have P: "?P i" unfolding i_def by (rule LeastI[of ?P j]) (rule region_start)
  have le: "i \<le> j" unfolding i_def by (rule Least_le) (rule region_start)
  have fr: "isFree (fld b (ns ! i))" using P j(2) region_occupied by fastforce
  have "ns ! i \<notin> region b (ns ! i')" if "i' < i" for i'
    using not_less_Least[of i' ?P] that P region_trans by (auto simp: i_def[symmetric])
  with fr have "fresh b ns i" by (simp add: fresh_def)
  moreover have "region b (ns ! i) = region b (ns ! j)"
    using region_eq[OF P fr j(2)] ns le j(1) by simp
  ultimately show ?thesis using le j(1) by (intro exI[of _ i]) simp
qed

lemma splitAreas_elig:
  assumes st: "scanned b ns (replicate 6 (startArea p ct)) (length ns) (ms, areas)"
    and ns: "ns = neighbors b x"
  shows "splitAreas b x = (\<lambda>i. region b (ns ! i)) ` {i. i < length ns \<and> elig areas i}"
    "card (splitAreas b x) = card {i. i < length ns \<and> elig areas i}"
proof -
  have len: "length ns \<le> 6" using length_neighbors ns by simp
  have val: "y \<in> set ns \<Longrightarrow> valid b y" for y using neighbors_valid ns by blast
  note el = scan_elig(1)[OF st len val]
  show eq: "splitAreas b x = (\<lambda>i. region b (ns ! i)) ` {i. i < length ns \<and> elig areas i}"
  proof (intro equalityI subsetI)
    fix R assume "R \<in> splitAreas b x"
    then obtain j where j: "j < length ns" "isFree (fld b (ns ! j))" "count isDead b (region b (ns ! j)) = 0"
        "R = region b (ns ! j)" by (auto simp: splitAreas_def ns in_set_conv_nth)
    from fresh_cover[OF val j(1,2)] obtain i where "i < length ns" "fresh b ns i" "region b (ns ! i) = R"
      using j(4) by blast
    with j(3,4) el show "R \<in> (\<lambda>i. region b (ns ! i)) ` {i. i < length ns \<and> elig areas i}" by auto
  next
    fix R assume "R \<in> (\<lambda>i. region b (ns ! i)) ` {i. i < length ns \<and> elig areas i}"
    then show "R \<in> splitAreas b x" using el by (auto simp: splitAreas_def ns fresh_def)
  qed
  have "inj_on (\<lambda>i. region b (ns ! i)) {i. i < length ns \<and> elig areas i}"
  proof (rule inj_onI)
    fix i j assume "i \<in> {i. i < length ns \<and> elig areas i}" "j \<in> {i. i < length ns \<and> elig areas i}"
      "region b (ns ! i) = region b (ns ! j)"
    moreover from this have "ns ! i \<in> region b (ns ! j)" "ns ! j \<in> region b (ns ! i)"
      using region_start by metis+
    ultimately show "i = j" using el unfolding fresh_def by (metis linorder_neqE_nat mem_Collect_eq)
  qed
  then show "card (splitAreas b x) = card {i. i < length ns \<and> elig areas i}"
    unfolding eq by (rule card_image)
qed

lemma scan_cells:
  assumes st: "scanned b ns as0 (length ns) (ms, areas)" and i: "i < length ns" "fresh b ns i"
    and ns: "\<And>y. y \<in> set ns \<Longrightarrow> valid b y" and y: "valid b y" "isFree (fld b y)"
  shows "msat ms y = int i \<longleftrightarrow> y \<in> region b (ns ! i)"
proof -
  have "if \<exists>i < length ns. y \<in> region b (ns ! i) then msat ms y = int (LEAST i. y \<in> region b (ns ! i)) else msat ms y = -1"
    using scanned_cell[OF st y] unfolding fst_conv .
  moreover have "(LEAST i. y \<in> region b (ns ! i)) = i" if yi: "y \<in> region b (ns ! i)"
  proof (rule Least_equality)
    show "y \<in> region b (ns ! i)" by (rule yi)
    fix j assume j: "y \<in> region b (ns ! j)"
    show "i \<le> j"
    proof (rule ccontr)
      assume "\<not> i \<le> j"
      with region_disjoint[OF _ _ yi j y(2)] i ns show False by (simp add: fresh_def)
    qed
  qed
  moreover have "y \<in> region b (ns ! (LEAST i. y \<in> region b (ns ! i)))" if "\<exists>i < length ns. y \<in> region b (ns ! i)"
    using that LeastI[of "\<lambda>i. y \<in> region b (ns ! i)"] by blast
  ultimately show ?thesis using i(1) by (auto split: if_splits)
qed

lemma pieceAt_simps:
  assumes "wf_board b" "valid b x" "p = 1 \<or> p = 2"
  shows "wf_board (pieceAt b p x ct)" "valid (pieceAt b p x ct) = valid b"
    "neighbors (pieceAt b p x ct) = neighbors b" "Fields (pieceAt b p x ct) = Fields b"
    "same_frame b (pieceAt b p x ct)" "occupied (fld (pieceAt b p x ct) x)"
    "valid b y \<Longrightarrow> fld (pieceAt b p x ct) y =
      (if y = x then (fld b x)\<lparr>Owner := p, Type := ct, Hidden := True, Lifetime := Classic_lifetime ct\<rparr> else fld b y)"
  using assms by (auto simp: pieceAt_def fld_updf occupied_def)

lemma flags_ok_pieceAt:
  assumes "wf_board b" "valid b x" "p = 1 \<or> p = 2" "flags_ok b"
  shows "flags_ok (pieceAt b p x ct)"
  using assms pieceAt_simps[OF assms(1-3)] by (simp add: flags_ok_def)

lemma occupyFields_spec:
  fixes ct :: cell_type
  assumes wf: "wf_board b" and fl: "flags_ok b" and x: "valid b x" and p: "p = 1 \<or> p = 2"
  defines "b1 \<equiv> pieceAt b p x ct"
  shows "\<exists>b' n. occupyFields b p x ct = Some (b', n) \<and> same_frame b1 b' \<and>
    (if card (splitAreas b1 x) \<le> 1 then b' = b1 \<and> n = 1
     else \<exists>R \<in> splitAreas b1 x. (\<forall>R' \<in> splitAreas b1 x. count isFree b1 R \<le> count isFree b1 R') \<and>
       n = 1 + count isFree b1 R \<and>
       (\<forall>y. valid b y \<longrightarrow> fld b' y = (if y \<in> R \<and> isFree (fld b1 y)
          then (fld b1 y)\<lparr>Owner := areaWinner b1 p ct R, Lifetime := -1\<rparr> else fld b1 y)))"
proof -
  note b1 = pieceAt_simps[OF wf x p, where ct = ct, folded b1_def]
  define ns where "ns = neighbors b1 x"
  have val: "y \<in> set ns \<Longrightarrow> valid b1 y" for y using neighbors_valid ns_def by blast
  have len: "length ns \<le> 6" using length_neighbors ns_def by simp
  have fl1: "flags_ok b1" unfolding b1_def by (rule flags_ok_pieceAt[OF wf x p fl])
  let ?ms0 = "map (\<lambda>(_, n). replicate n (-1)) (Fields b1) :: int list list"
  let ?as0 = "replicate 6 (startArea p ct)"
  obtain ms areas where st: "foldM (fillFrom b1 ns) [0..<length ns] (?ms0, ?as0) = Some (ms, areas)"
      "scanned b1 ns ?as0 (length ns) (ms, areas)"
    using fill_loop[OF b1(1) fl1 val _ startMarks(1) allI[OF impI[OF startMarks(2)]], of ns ?as0 "length ns"] len by auto
  have alen: "length areas = 6" and sh: "shape_ok b1 ms" using st(2) by (simp_all add: scanned_def)
  note split = splitAreas_elig[OF st(2) ns_def]
  have el1: "elig areas j \<longleftrightarrow> fresh b1 ns j \<and> count isDead b1 (region b1 (ns ! j)) = 0" if "j < length ns" for j
    using scan_elig(1)[OF st(2) len val that] .
  have el2: "areas ! j = account b1 (region b1 (ns ! j)) (startArea p ct)" if "j < length ns" "elig areas j" for j
    using scan_elig(2)[OF st(2) len val that] .
  let ?E = "{i. i < length ns \<and> elig areas i}"
  obtain minK where minK: "foldM (countArea areas) [0..<length ns] (0, -1) = Some (int (card ?E), minK)"
      "if \<exists>i < length ns. elig areas i then \<exists>i < length ns. minK = int i \<and> elig areas i \<and>
        (\<forall>j < length ns. elig areas j \<longrightarrow> asize (areas ! i) \<le> asize (areas ! j)) else minK = -1"
    using countArea_loop[of "length ns" areas] len alen by auto
  have eq: "occupyFields b p x ct = (if int (card ?E) > 1 then do {
       a \<leftarrow> idx_list areas minK;
       theirs \<leftarrow> get2 (aflags a) (2 - p);
       own \<leftarrow> get2 (aflags a) (p - 1);
       foldM (occupyCell ms minK (if theirs > own then 3 - p else p)) (allIdx b1) (b1, 1)
     } else Some (b1, 1))"
  proof -
    have get: "getField b x = Some (fld b x)" using wf x by (simp add: go_simps)
    have set: "setField b x ((fld b x)\<lparr>Owner := p, Type := ct, Hidden := True, Lifetime := Classic_lifetime ct\<rparr>) = Some b1"
      using wf x by (simp add: go_simps b1_def pieceAt_def)
    note st' = st(1)[unfolded b1(4) ns_def] and mk = minK(1)[unfolded ns_def]
    show ?thesis
      by (simp only: occupyFields_def Let_def get set startAreas[OF p] Option.bind.simps st' prod.case mk ns_def)
  qed
  show ?thesis
  proof (cases "card (splitAreas b1 x) \<le> 1")
    case True
    then show ?thesis using eq split(2) by simp
  next
    case False
    then have two: "1 < int (card ?E)" using split(2) by simp
    then have "?E \<noteq> {}" by (intro notI) simp
    then obtain i where i: "i < length ns" "minK = int i" "elig areas i"
        "\<And>j. j < length ns \<Longrightarrow> elig areas j \<Longrightarrow> asize (areas ! i) \<le> asize (areas ! j)"
      using minK(2) by (auto split: if_splits)
    let ?R = "region b1 (ns ! i)"
    note ai = el2[OF i(1,3)]
    have fr: "fresh b1 ns i" using el1[OF i(1)] i(3) by simp
    have R: "?R \<in> splitAreas b1 x" using split(1) i(1,3) by blast
    have size: "asize (areas ! j) = count isFree b1 (region b1 (ns ! j))" if "j < length ns" "elig areas j" for j
      using el2[OF that] by (simp add: account_def startArea_def emptyArea_def)
    have min: "count isFree b1 ?R \<le> count isFree b1 R'" if "R' \<in> splitAreas b1 x" for R'
      using that i size unfolding split(1) by auto
    have win: "occupyFields b p x ct = foldM (occupyCell ms (int i) (areaWinner b1 p ct ?R)) (allIdx b1) (b1, 1)"
      using p eq two i(1,2) len alen ai
      by (auto simp: go_simps account_def startArea_def emptyArea_def areaWinner_def put2_def)
    obtain b' where b': "occupyFields b p x ct = Some (b', 1 + int (card {y. valid b1 y \<and> msat ms y = int i \<and> isFree (fld b1 y)}))"
        "same_frame b1 b'" "\<And>y. valid b1 y \<Longrightarrow> fld b' y = (if msat ms y = int i \<and> isFree (fld b1 y)
          then (fld b1 y)\<lparr>Owner := areaWinner b1 p ct ?R, Lifetime := -1\<rparr> else fld b1 y)"
      unfolding win using occupyCell_loop[OF b1(1) sh, of "int i" "areaWinner b1 p ct ?R" 1] by blast
    have cell: "msat ms y = int i \<and> isFree (fld b1 y) \<longleftrightarrow> y \<in> ?R \<and> isFree (fld b1 y)" if "valid b1 y" for y
      using scan_cells[OF st(2) i(1) fr val that] by blast
    have "{y. valid b1 y \<and> msat ms y = int i \<and> isFree (fld b1 y)} = {y \<in> ?R. isFree (fld b1 y)}"
      using cell region_valid[OF _ val[OF nth_mem[OF i(1)]]] by auto
    then have n: "1 + int (card {y. valid b1 y \<and> msat ms y = int i \<and> isFree (fld b1 y)}) = 1 + count isFree b1 ?R"
      by (simp add: count_def)
    have cells: "fld b' y = (if y \<in> ?R \<and> isFree (fld b1 y)
        then (fld b1 y)\<lparr>Owner := areaWinner b1 p ct ?R, Lifetime := -1\<rparr> else fld b1 y)" if "valid b y" for y
      using b'(3)[unfolded b1(2), OF that] cell[unfolded b1(2), OF that] by presburger
    from b'(1)[unfolded n] b'(2) False R min cells show ?thesis by auto
  qed
qed

end
