(* ===== verification/ClassicGame.thy ===== *)
theory ClassicGame
  imports ClassicFill
begin

text \<open>
  The Classic game as a whole: the invariant \<open>classic_inv\<close>, that no move panics and which moves
  are accepted, how scores, the end of the game and the disclosure of hidden moves are kept, and
  the interpretation of the engine interface.
\<close>

section \<open>The invariant\<close>

definition classic_cell :: "field \<Rightarrow> bool" where
  "classic_cell f \<longleftrightarrow> (Owner f = 0 \<or> Owner f = 1 \<or> Owner f = 2) \<and>
     Type f \<noteq> CellGrass \<and> Type f \<noteq> CellRock \<and> (Type f = CellDead \<longrightarrow> Owner f = 0) \<and>
     (Type f \<noteq> CellNormal \<longrightarrow> Type f \<noteq> CellDead \<longrightarrow> Owner f > 0)"

definition hidden_owned :: "field \<Rightarrow> bool" where
  "hidden_owned f \<longleftrightarrow> (Hidden f \<longrightarrow> Owner f > 0)"

definition cells_ok :: "board \<Rightarrow> bool" where
  "cells_ok b \<longleftrightarrow> wf_board b \<and> (\<forall>f \<in> set (FlatFields b). classic_cell f)"

definition classic_pieces :: "resource_info list \<Rightarrow> bool" where
  "classic_pieces rs \<longleftrightarrow> length rs = 2 \<and> (\<forall>r \<in> set rs. \<forall>t. NumPieces r t \<ge> (if t = CellNormal then -1 else 0))"

definition classic_inv :: "board \<Rightarrow> bool" where
  "classic_inv b \<longleftrightarrow> cells_ok b \<and> (\<forall>f \<in> set (FlatFields b). hidden_owned f) \<and>
     length (Score b) = 2 \<and> (\<forall>s \<in> set (Score b). 0 \<le> s) \<and> classic_pieces (Resources b) \<and>
     (Turn b = 1 \<or> Turn b = 2) \<and> LastRevealed b \<le> Move b \<and> Move b < LastRevealed b + 4 \<and>
     (State b = Finished \<or> State b = Running \<and> 0 < cnt isFree (FlatFields b))"

lemma cells_okD:
  assumes "cells_ok b"
  shows "wf_board b" "valid b x \<Longrightarrow> classic_cell (fld b x)" "flags_ok b"
  using assms by (auto simp: cells_ok_def flags_ok_def classic_cell_def dest!: bspec[OF _ fld_in_set])

lemma classic_cellD:
  assumes "classic_cell f"
  shows "Owner f = 0 \<or> Owner f = 1 \<or> Owner f = 2" "isFree f \<longleftrightarrow> Type f = CellNormal \<and> Owner f = 0"
    "Type f = CellPest \<Longrightarrow> Owner f > 0"
  using assms by (auto simp: classic_cell_def occupied_def)

lemma cells_ok_updf:
  assumes "cells_ok b" "valid b x" "classic_cell f"
  shows "cells_ok (updf b x f)"
  using assms ball_updf[of b x classic_cell f] by (simp add: cells_ok_def)

lemma cells_ok_scalar [simp]:
  "cells_ok (b\<lparr>Turn := t\<rparr>) = cells_ok b" "cells_ok (b\<lparr>Move := m\<rparr>) = cells_ok b"
  "cells_ok (b\<lparr>Score := s\<rparr>) = cells_ok b" "cells_ok (b\<lparr>State := g\<rparr>) = cells_ok b"
  "cells_ok (b\<lparr>Resources := rs\<rparr>) = cells_ok b" "cells_ok (b\<lparr>LastRevealed := l\<rparr>) = cells_ok b"
  by (simp_all add: cells_ok_def)

lemma cells_ok_map:
  assumes "cells_ok b" "\<And>f. classic_cell f \<Longrightarrow> classic_cell (h f)"
  shows "cells_ok (b\<lparr>FlatFields := map h (FlatFields b)\<rparr>)"
  using assms wf_board_cong[of "b\<lparr>FlatFields := map h (FlatFields b)\<rparr>" b] by (auto simp: cells_ok_def)

lemma cells_okI:
  assumes "wf_board b" "\<And>x. valid b x \<Longrightarrow> classic_cell (fld b x)"
  shows "cells_ok b"
  using assms by (simp add: cells_ok_def ball_fields)

section \<open>The passes over the whole board\<close>

definition showCell :: "field \<Rightarrow> field" where
  "showCell f = f\<lparr>Hidden := False\<rparr>"

lemma revealHiddenMoves_eq:
  "wf_board b \<Longrightarrow> revealHiddenMoves b = Some (b\<lparr>FlatFields := map showCell (FlatFields b)\<rparr>)"
  unfolding revealHiddenMoves_def showCell_def by (rule foldM_fields)

lemma cleanUp_eq: "wf_board b \<Longrightarrow> cleanUp b = Some (b\<lparr>FlatFields := map cleanCell (FlatFields b)\<rparr>)"
  unfolding cleanUp_def by (rule foldM_fields)

lemma showCell_cell [simp]: "classic_cell (showCell f) = classic_cell f" "hidden_owned (showCell f)"
  "occupied (showCell f) = occupied f" "\<not> Hidden (showCell f)" "Owner (showCell f) = Owner f"
  by (simp_all add: showCell_def classic_cell_def hidden_owned_def occupied_def)

lemma cleanCell_cell: "classic_cell f \<Longrightarrow> classic_cell (cleanCell f)" "\<not> Hidden f \<Longrightarrow> \<not> Hidden (cleanCell f)"
  by (auto simp: cleanCell_def classic_cell_def Let_def)

text \<open>Pest: only the opponent's normal cells next to an old enough pest cell change.\<close>

definition pest_cell :: "field \<Rightarrow> field \<Rightarrow> bool" where
  "pest_cell f f' \<longleftrightarrow> f' = f \<or> Type f = CellNormal \<and> Owner f > 0 \<and>
     (\<exists>p. (p = 1 \<or> p = 2) \<and> f' = f\<lparr>Owner := p, Type := CellPest, Lifetime := 3\<rparr>)"

lemma pest_cell_trans: "pest_cell f g \<Longrightarrow> pest_cell g h \<Longrightarrow> pest_cell f h"
  by (auto simp: pest_cell_def)

lemma pest_cellD:
  assumes "pest_cell f f'"
  shows "classic_cell f \<Longrightarrow> classic_cell f'" "Hidden f' = Hidden f" "Type f \<noteq> CellNormal \<Longrightarrow> f' = f"
    "occupied f' = occupied f"
  using assms by (auto simp: pest_cell_def classic_cell_def occupied_def)

definition pest_board :: "board \<Rightarrow> board \<Rightarrow> bool" where
  "pest_board b b' \<longleftrightarrow> same_frame b b' \<and> cells_ok b' \<and> (\<forall>y. valid b y \<longrightarrow> pest_cell (fld b y) (fld b' y))"

lemma pest_board_refl: "cells_ok b \<Longrightarrow> pest_board b b"
  by (simp add: pest_board_def pest_cell_def)

lemma pest_board_trans: "pest_board b c \<Longrightarrow> pest_board c d \<Longrightarrow> pest_board b d"
  unfolding pest_board_def using same_frame_trans same_frame_sel(9) pest_cell_trans by metis

lemma infect_ok:
  assumes "cells_ok b" "valid b x" "valid b y" "Type (fld b x) = CellPest"
  shows "\<exists>b'. infect x y b = Some b' \<and> pest_board b b' \<and> Type (fld b' x) = CellPest"
proof (cases "Owner (fld b y) > 0 \<and> Owner (fld b y) \<noteq> Owner (fld b x) \<and> Type (fld b y) = CellNormal")
  case True
  note wf = cells_okD(1)[OF assms(1)] and cx = classic_cellD[OF cells_okD(2)[OF assms(1,2)]]
  let ?h = "(fld b y)\<lparr>Owner := Owner (fld b x), Type := CellPest, Lifetime := 3\<rparr>"
  have "Owner (fld b x) = 1 \<or> Owner (fld b x) = 2" using cx(1,3) assms(4) by auto
  then have "classic_cell ?h" "pest_cell (fld b y) ?h" using True by (auto simp: classic_cell_def pest_cell_def)
  then have "pest_board b (updf b y ?h)"
    using cells_ok_updf[OF assms(1,3)] wf assms(3) by (auto simp: pest_board_def fld_updf pest_cell_def)
  with True wf assms(2-4) show ?thesis by (auto simp: infect_def go_simps fld_updf)
next
  case False
  with assms cells_okD(1)[OF assms(1)] pest_board_refl[OF assms(1)] show ?thesis
    by (auto simp: infect_def go_simps)
qed

lemma spreadPest_ok:
  assumes "cells_ok b" "valid b x"
  shows "\<exists>b'. spreadPest x b = Some b' \<and> pest_board b b'"
proof (cases "Type (fld b x) = CellPest \<and> Lifetime (fld b x) < 3")
  case True
  have "\<exists>b'. foldM (infect x) (neighbors b x) b = Some b' \<and> (pest_board b b' \<and> Type (fld b' x) = CellPest)"
  proof (rule foldM_rule)
    fix y t
    assume y: "y \<in> set (neighbors b x)" and t: "pest_board b t \<and> Type (fld t x) = CellPest"
    then have v: "valid t x" "valid t y" "cells_ok t"
      using assms(2) neighbors_valid[OF y] same_frame_sel(9) by (metis pest_board_def)+
    with infect_ok[OF v(3,1,2)] t show "\<exists>u. infect x y t = Some u \<and> (pest_board b u \<and> Type (fld u x) = CellPest)"
      using pest_board_trans by blast
  qed (use True pest_board_refl[OF assms(1)] in blast)
  with True assms cells_okD(1)[OF assms(1)] show ?thesis by (auto simp: spreadPest_def go_simps)
next
  case False
  with assms cells_okD(1)[OF assms(1)] pest_board_refl[OF assms(1)] show ?thesis
    by (auto simp: spreadPest_def go_simps)
qed

lemma applyPestEffect_ok:
  assumes "cells_ok b"
  shows "\<exists>b'. applyPestEffect b = Some b' \<and> pest_board b b'"
  unfolding applyPestEffect_def
proof (rule foldM_rule)
  fix x t
  assume "x \<in> set (allIdx b)" "pest_board b t"
  moreover from this have "valid t x" "cells_ok t"
    using same_frame_sel(9) by (auto simp: pest_board_def valid_iff_allIdx[symmetric])
  ultimately show "\<exists>u. spreadPest x t = Some u \<and> pest_board b u"
    using spreadPest_ok pest_board_trans by blast
qed (rule pest_board_refl[OF assms])

text \<open>A reveal shows every cell.\<close>

lemma revealAndClean_ok:
  assumes "cells_ok b"
  shows "\<exists>b'. revealAndClean b = Some b' \<and> cells_ok b' \<and> (\<forall>f \<in> set (FlatFields b'). \<not> Hidden f) \<and>
    same_frame (b\<lparr>LastRevealed := Move b\<rparr>) b' \<and>
    (\<forall>y. valid b y \<longrightarrow> (\<exists>f. pest_cell (showCell (fld b y)) f \<and> fld b' y = cleanCell f))"
proof -
  let ?b1 = "b\<lparr>FlatFields := map showCell (FlatFields b)\<rparr>"
  note wf = cells_okD(1)[OF assms]
  have b1: "cells_ok ?b1" by (rule cells_ok_map[OF assms]) simp
  obtain b2 where b2: "applyPestEffect ?b1 = Some b2" "pest_board ?b1 b2"
    using applyPestEffect_ok[OF b1] by blast
  then have c2: "cells_ok b2" and s2: "same_frame ?b1 b2"
    and p2: "\<And>y. valid ?b1 y \<Longrightarrow> pest_cell (fld ?b1 y) (fld b2 y)" by (auto simp: pest_board_def)
  note wf2 = cells_okD(1)[OF c2] and same2 = same_frame_sel[OF s2]
  let ?b3 = "b2\<lparr>FlatFields := map cleanCell (FlatFields b2)\<rparr>"
  let ?b' = "?b3\<lparr>LastRevealed := Move ?b3\<rparr>"
  have run: "revealAndClean b = Some ?b'"
    by (simp add: revealAndClean_def revealHiddenMoves_eq[OF wf] b2(1) cleanUp_eq[OF wf2])
  have c3: "cells_ok ?b'" using cells_ok_map[OF c2 cleanCell_cell(1)] by simp
  have v1: "valid ?b1 = valid b" "fpos ?b1 = fpos b" "fpos b2 = fpos b"
    using same_shape[of ?b1 b] same2 by auto
  have hid: "\<not> Hidden (fld b2 y)" if "valid b y" for y
  proof -
    have "fld ?b1 y = showCell (fld b y)" using fpos_less[OF wf that] by (simp add: fld_def v1)
    with p2[of y] that v1 show ?thesis by (simp add: pest_cellD(2))
  qed
  have nh: "\<forall>f \<in> set (FlatFields ?b'). \<not> Hidden f"
    using hid cleanCell_cell(2) ball_fields[OF wf2, of "\<lambda>f. \<not> Hidden f"] same2(9) v1(1) by auto
  have "\<exists>f. pest_cell (showCell (fld b y)) f \<and> fld ?b' y = cleanCell f" if y: "valid b y" for y
  proof -
    have "fld ?b1 y = showCell (fld b y)" using fpos_less[OF wf y] by (simp add: fld_def v1)
    moreover have "fld ?b' y = cleanCell (fld b2 y)"
      using fpos_less[OF wf y] same2(8) by (simp add: fld_def fpos_def[of ?b3] fpos_def[of ?b'] v1 same2(4) flip: fpos_def)
    ultimately show ?thesis using p2[of y] y v1(1) by auto
  qed
  moreover have "same_frame (b\<lparr>LastRevealed := Move b\<rparr>) ?b'"
  proof -
    from s2 obtain fs where "b2 = ?b1\<lparr>FlatFields := fs\<rparr>" "length fs = length (FlatFields b)"
      by (auto simp: same_frame_def)
    then show ?thesis by (simp add: same_frame_def)
  qed
  ultimately show ?thesis using run c3 nh by blast
qed

section \<open>Scores and the end of the game\<close>

definition shown :: "int \<Rightarrow> field \<Rightarrow> bool" where
  "shown p f \<longleftrightarrow> Owner f = p \<and> \<not> Hidden f"

definition shownScore :: "board \<Rightarrow> int list" where
  "shownScore b = [cnt (shown 1) (FlatFields b), cnt (shown 2) (FlatFields b)]"

lemma scoreCell_loop:
  assumes "cells_ok b"
  shows "\<forall>x \<in> set xs. valid b x \<Longrightarrow> foldM (scoreCell b) xs ([s, t], n) =
    Some ([s + cnt (\<lambda>x. shown 1 (fld b x)) xs, t + cnt (\<lambda>x. shown 2 (fld b x)) xs],
          n + cnt (\<lambda>x. isFree (fld b x)) xs)"
proof (induction xs arbitrary: s t n)
  case (Cons x xs)
  then have x: "valid b x" by simp
  have "scoreCell b x ([s, t], n) = Some ([s + of_bool (shown 1 (fld b x)), t + of_bool (shown 2 (fld b x))],
      n + of_bool (isFree (fld b x)))"
    using classic_cellD(1)[OF cells_okD(2)[OF assms x]] x cells_okD(1)[OF assms]
    by (auto simp: scoreCell_def go_simps shown_def)
  with Cons show ?case by (simp add: cnt_Cons add.assoc)
qed simp

lemma recompute_eq:
  assumes "cells_ok b"
  shows "recomputeScoreAndState b = Some (if cnt isFree (FlatFields b) = 0
     then b\<lparr>Score := shownScore b, FlatFields := map showCell (FlatFields b), State := Finished\<rparr>
     else b\<lparr>Score := shownScore b\<rparr>)"
proof -
  note wf = cells_okD(1)[OF assms]
  have c: "cnt (\<lambda>x. P (fld b x)) (allIdx b) = cnt P (FlatFields b)" for P
    using cnt_allIdx[OF wf, of P] by (simp add: comp_def)
  have "foldM (scoreCell b) (allIdx b) ([0, 0], 0) = Some (shownScore b, cnt isFree (FlatFields b))"
    using scoreCell_loop[OF assms, of "allIdx b" 0 0 0]
    by (simp add: valid_iff_allIdx c[of "shown _"] c[of isFree] shownScore_def)
  then show ?thesis
    using revealHiddenMoves_eq[of "b\<lparr>Score := shownScore b\<rparr>"] wf
    by (simp add: recomputeScoreAndState_def)
qed

section \<open>What a piece does to the board\<close>

text \<open>The rules: whose turn it is, which pieces exist and are left, and where they may go.\<close>

definition classicAllows :: "board \<Rightarrow> game_engine_move \<Rightarrow> bool" where
  "classicAllows b m \<longleftrightarrow> (let f = fld b (Idx (mvRow m) (mvCol m)); turn = Turn b in
     mvPlayer m = turn \<and> mvMove m = Move b \<and> valid b (Idx (mvRow m) (mvCol m)) \<and>
     mvType m \<in> {CellNormal, CellFire, CellFlag, CellPest, CellDeath} \<and>
     (mvType m \<noteq> CellNormal \<longrightarrow> NumPieces (Resources b ! nat (turn - 1)) (mvType m) > 0) \<and>
     (\<not> occupied f \<or> Hidden f \<and> Owner f = 3 - turn \<or> mvType m = CellDeath))"

lemma isPlayerPiece_iff:
  "isPlayerPiece c \<longleftrightarrow> c \<in> {CellNormal, CellFire, CellFlag, CellPest, CellDeath}"
  by (cases c) (simp_all add: isPlayerPiece_def less_eq_cell_type_def)

lemma piece_cell:
  "turn = 1 \<or> turn = 2 \<Longrightarrow> isPlayerPiece ct \<Longrightarrow> Owner f = turn \<Longrightarrow> Type f = ct \<Longrightarrow> classic_cell f"
  by (auto simp: isPlayerPiece_iff classic_cell_def)

lemma fire_ok:
  assumes b: "cells_ok b"
  shows "\<exists>b'. applyFireEffect b x = Some b' \<and> same_frame b b' \<and> cells_ok b' \<and>
    (\<forall>y. valid b y \<longrightarrow> fld b' y = (if y \<in> set (neighbors b x)
       then (fld b y)\<lparr>Owner := 0, Type := CellDead, Hidden := False, Lifetime := 1\<rparr> else fld b y))"
proof -
  let ?h = "\<lambda>f :: field. f\<lparr>Owner := 0, Type := CellDead, Hidden := False, Lifetime := 1\<rparr>"
  have "\<exists>b'. applyFireEffect b x = Some b' \<and> (same_frame b b' \<and> cells_ok b' \<and>
    (\<forall>y. valid b y \<longrightarrow> fld b' y = (if y \<in> set (neighbors b x) then ?h (fld b y) else fld b y)))"
    unfolding applyFireEffect_def
  proof (rule foldM_prefix_rule)
    fix ys y zs t
    assume split: "neighbors b x = ys @ y # zs" and t: "same_frame b t \<and> cells_ok t \<and>
      (\<forall>z. valid b z \<longrightarrow> fld t z = (if z \<in> set ys then ?h (fld b z) else fld b z))"
    note same = same_frame_sel[OF conjunct1[OF t]]
    have y: "valid b y" "y \<notin> set ys"
      using split distinct_neighbors[of b x] neighbors_valid[of y b x] by auto
    have fy: "fld t y = fld b y" using t y by simp
    have u: "cells_ok (updf t y (?h (fld b y)))"
      using t y same by (intro cells_ok_updf) (auto simp: classic_cell_def)
    have "same_frame b (updf t y (?h (fld b y)))" using t same_frame_trans same_frame_updf by blast
    moreover have "fld (updf t y (?h (fld b y))) z = (if z \<in> set (ys @ [y]) then ?h (fld b z) else fld b z)"
      if "valid b z" for z
      using that t y same cells_okD(1) by (auto simp: fld_updf)
    ultimately show "\<exists>u. (do { f \<leftarrow> getField t y; setField t y (f\<lparr>Owner := 0, Type := CellDead, Hidden := False,
        Lifetime := Classic_lifetime CellDead\<rparr>) }) = Some u \<and> (same_frame b u \<and> cells_ok u \<and>
        (\<forall>z. valid b z \<longrightarrow> fld u z = (if z \<in> set (ys @ [y]) then ?h (fld b z) else fld b z)))"
      using t y same fy u cells_okD(1) by (intro exI[of _ "updf t y (?h (fld b y))"]) (simp add: go_simps)
  qed (use b in simp)
  then show ?thesis by blast
qed

lemma occupy_ok:
  assumes b: "cells_ok b" and x: "valid b x" and p: "p = 1 \<or> p = 2" and ct: "isPlayerPiece ct"
  shows "\<exists>b' n. occupyFields b p x ct = Some (b', n) \<and> same_frame b b' \<and> cells_ok b' \<and>
    (\<forall>y. valid b y \<longrightarrow> fld b' y = fld (pieceAt b p x ct) y \<or>
       (\<exists>q. (q = 1 \<or> q = 2) \<and> isFree (fld b y) \<and> fld b' y = (fld b y)\<lparr>Owner := q, Lifetime := -1\<rparr>))"
proof -
  note wf = cells_okD(1)[OF b] and pa = pieceAt_simps[OF cells_okD(1)[OF b] x p, where ct = ct]
  let ?b1 = "pieceAt b p x ct"
  have c1: "cells_ok ?b1"
    unfolding pieceAt_def by (rule cells_ok_updf[OF b x]) (rule piece_cell[OF p ct], simp_all)
  obtain b' n where b': "occupyFields b p x ct = Some (b', n)" "same_frame ?b1 b'"
    "if card (splitAreas ?b1 x) \<le> 1 then b' = ?b1 \<and> n = 1
     else \<exists>R \<in> splitAreas ?b1 x. (\<forall>R' \<in> splitAreas ?b1 x. count isFree ?b1 R \<le> count isFree ?b1 R') \<and>
       n = 1 + count isFree ?b1 R \<and>
       (\<forall>y. valid b y \<longrightarrow> fld b' y = (if y \<in> R \<and> isFree (fld ?b1 y)
          then (fld ?b1 y)\<lparr>Owner := areaWinner ?b1 p ct R, Lifetime := -1\<rparr> else fld ?b1 y))"
    using occupyFields_spec[OF wf cells_okD(3)[OF b] x p] by blast
  have win: "areaWinner ?b1 p ct R = 1 \<or> areaWinner ?b1 p ct R = 2" for R using p by (auto simp: areaWinner_def)
  have cell: "fld b' y = fld ?b1 y \<or>
      (\<exists>q. (q = 1 \<or> q = 2) \<and> isFree (fld b y) \<and> fld b' y = (fld b y)\<lparr>Owner := q, Lifetime := -1\<rparr>)"
    if y: "valid b y" for y
  proof (cases "y = x")
    case True
    with b'(3) y pa(6) show ?thesis by (auto split: if_splits)
  next
    case False
    then have same: "fld ?b1 y = fld b y" using pa(7)[OF y] by simp
    show ?thesis
    proof (cases "card (splitAreas ?b1 x) \<le> 1")
      case True
      with b'(3) show ?thesis by simp
    next
      case False
      with b'(3) obtain R where "\<forall>y. valid b y \<longrightarrow> fld b' y = (if y \<in> R \<and> isFree (fld ?b1 y)
          then (fld ?b1 y)\<lparr>Owner := areaWinner ?b1 p ct R, Lifetime := -1\<rparr> else fld ?b1 y)" by auto
      then have "fld b' y = (if y \<in> R \<and> isFree (fld b y)
          then (fld b y)\<lparr>Owner := areaWinner ?b1 p ct R, Lifetime := -1\<rparr> else fld ?b1 y)" using y same by presburger
      with win[of R] show ?thesis by (auto split: if_splits)
    qed
  qed
  have "same_frame b b'" using same_frame_trans[OF _ b'(2)] pa(5) by blast
  moreover from this have same: "valid b' = valid b" "wf_board b'" using same_frame_sel wf by simp_all
  have "cells_ok b'"
  proof (rule cells_okI[OF same(2)])
    fix y assume "valid b' y"
    then have y: "valid b y" "valid ?b1 y" using same pa(2) by simp_all
    have "classic_cell (fld b y)" "classic_cell (fld ?b1 y)" using cells_okD(2) b c1 y by blast+
    then show "classic_cell (fld b' y)"
    proof (cases "fld b' y = fld ?b1 y")
      case False
      then obtain q where "q = 1 \<or> q = 2" "isFree (fld b y)" "fld b' y = (fld b y)\<lparr>Owner := q, Lifetime := -1\<rparr>"
        using cell[OF y(1)] by blast
      then show ?thesis by (auto simp: classic_cell_def occupied_def)
    qed simp
  qed
  ultimately show ?thesis using b'(1) cell by blast
qed

lemma inv_cells:
  assumes "classic_inv b"
  shows "cells_ok b" "valid b x \<Longrightarrow> hidden_owned (fld b x)" "Turn b = 1 \<or> Turn b = 2"
    "classic_pieces (Resources b)"
  using assms fld_in_set cells_okD(1) by (auto simp: classic_inv_def)

lemma hidden_ball:
  "wf_board b \<Longrightarrow> (\<And>y. valid b y \<Longrightarrow> hidden_owned (fld b y)) \<Longrightarrow> \<forall>f \<in> set (FlatFields b). hidden_owned f"
  by (simp add: ball_fields)

text \<open>What \<open>applyPiece\<close> guarantees of its result.\<close>

definition piece_done :: "board \<Rightarrow> game_engine_move \<Rightarrow> board \<Rightarrow> bool \<Rightarrow> bool" where
  "piece_done b m b' reveal \<longleftrightarrow> (let f = fld b (Idx (mvRow m) (mvCol m)) in
     same_frame (b\<lparr>Move := Move b + of_bool (isFree f \<or> Hidden f \<and> Owner f = 3 - Turn b)\<rparr>) b' \<and> cells_ok b' \<and>
     (reveal \<or> (\<forall>f \<in> set (FlatFields b'). hidden_owned f)) \<and>
     (mvType m \<noteq> CellNormal \<and> mvType m \<noteq> CellFlag \<longrightarrow> reveal))"

lemma move_frame: "same_frame b b' \<Longrightarrow> same_frame (b\<lparr>Move := k\<rparr>) (b'\<lparr>Move := k\<rparr>)"
  unfolding same_frame_def by (cases b; cases b') simp

lemma applyPiece_refuse:
  assumes "classic_inv b" "valid b (Idx (mvRow m) (mvCol m))"
    "\<not> (let f = fld b (Idx (mvRow m) (mvCol m)) in isFree f \<or> Hidden f \<and> Owner f = 3 - Turn b \<or> mvType m = CellDeath)"
  shows "applyPiece b m = Some None"
  using assms cells_okD(1)[OF inv_cells(1)[OF assms(1)]] by (auto simp: applyPiece_def go_simps Let_def)

lemma applyPiece_ok:
  assumes inv: "classic_inv b" and x: "valid b (Idx (mvRow m) (mvCol m))" and ct: "isPlayerPiece (mvType m)"
    and ok: "let f = fld b (Idx (mvRow m) (mvCol m)) in isFree f \<or> Hidden f \<and> Owner f = 3 - Turn b \<or> mvType m = CellDeath"
  shows "\<exists>b' n reveal. applyPiece b m = Some (Some (b', n, reveal)) \<and> piece_done b m b' reveal"
proof -
  let ?x = "Idx (mvRow m) (mvCol m)" and ?ct = "mvType m"
  let ?f = "fld b ?x" and ?b1 = "b\<lparr>Move := Move b + 1\<rparr>"
  note cells = inv_cells(1)[OF inv] and t = inv_cells(3)[OF inv]
  note wf = cells_okD(1)[OF cells]
  have wf1: "wf_board ?b1" "valid ?b1 = valid b" "fld ?b1 = fld b" "neighbors ?b1 = neighbors b" "cells_ok ?b1"
    using wf cells by simp_all
  consider (conflict) "occupied ?f" "Hidden ?f \<and> Owner ?f = 3 - Turn b"
    | (death) "occupied ?f" "\<not> (Hidden ?f \<and> Owner ?f = 3 - Turn b)" "?ct = CellDeath"
    | (fire) "isFree ?f" "?ct = CellFire" | (occupy) "isFree ?f" "?ct \<noteq> CellFire"
    using ok by (auto simp: Let_def)
  then show ?thesis
  proof cases
    case conflict
    let ?h = "?f\<lparr>Owner := 0, Type := CellDead, Lifetime := 1\<rparr>"
    have "applyPiece b m = Some (Some (updf ?b1 ?x ?h, 0, True))"
      using conflict wf wf1 x by (simp add: applyPiece_def go_simps Let_def)
    moreover have "cells_ok (updf ?b1 ?x ?h)"
      using x wf1 by (intro cells_ok_updf) (auto simp: classic_cell_def)
    ultimately show ?thesis using conflict by (auto simp: piece_done_def)
  next
    case death
    let ?h = "?f\<lparr>Owner := Turn b, Type := CellDeath, Hidden := False, Lifetime := 1\<rparr>"
    have "applyPiece b m = Some (Some (updf b ?x ?h, 0, True))"
      using death wf x by (auto simp: applyPiece_def go_simps Let_def)
    moreover have "cells_ok (updf b ?x ?h)"
      using x cells t by (intro cells_ok_updf) (auto simp: classic_cell_def)
    moreover have no: "(isFree ?f \<or> Hidden ?f \<and> Owner ?f = 3 - Turn b) = False" using death by blast
    ultimately have "piece_done b m (updf b ?x ?h) True" unfolding piece_done_def Let_def no by simp
    with \<open>applyPiece b m = _\<close> show ?thesis by blast
  next
    case fire
    let ?b2 = "updf ?b1 ?x (?f\<lparr>Owner := Turn b, Type := CellFire, Lifetime := 1\<rparr>)"
    have c2: "cells_ok ?b2" using x wf1 t by (intro cells_ok_updf) (auto simp: classic_cell_def)
    from fire_ok[OF c2, of ?x] obtain b' where b': "applyFireEffect ?b2 ?x = Some b'" "same_frame ?b2 b'" "cells_ok b'"
      by blast
    have "applyPiece b m = Some (Some (b', 0, True))"
      using fire wf wf1 x b'(1) by (simp add: applyPiece_def go_simps Let_def)
    moreover have "same_frame ?b1 b'" using same_frame_trans[OF same_frame_updf b'(2)] .
    ultimately show ?thesis using fire b'(3) by (auto simp: piece_done_def)
  next
    case occupy
    have x1: "valid ?b1 ?x" using x by simp
    from occupy_ok[OF wf1(5) x1 t ct] obtain b' n where b': "occupyFields ?b1 (Turn b) ?x ?ct = Some (b', n)"
      "same_frame ?b1 b'" "cells_ok b'"
      "\<And>y. valid ?b1 y \<Longrightarrow> fld b' y = fld (pieceAt ?b1 (Turn b) ?x ?ct) y \<or>
       (\<exists>q. (q = 1 \<or> q = 2) \<and> isFree (fld ?b1 y) \<and> fld b' y = (fld ?b1 y)\<lparr>Owner := q, Lifetime := -1\<rparr>)"
      by blast
    have "hidden_owned (fld b' y)" if "valid b' y" for y
    proof -
      have y: "valid ?b1 y" using that same_frame_sel(9)[OF b'(2)] by simp
      then have "hidden_owned (fld b y)" using inv_cells(2)[OF inv] by simp
      with b'(4)[OF y] pieceAt_simps(7)[OF wf1(1) x1 t y, where ct = ?ct] t show ?thesis
        by (auto simp: hidden_owned_def split: if_splits)
    qed
    then have "\<forall>f \<in> set (FlatFields b'). hidden_owned f" using hidden_ball cells_okD(1)[OF b'(3)] by blast
    moreover have "applyPiece b m = Some (Some (b', n, ?ct \<noteq> CellNormal \<and> ?ct \<noteq> CellFlag))"
      using occupy wf x b'(1) by (simp add: applyPiece_def go_simps Let_def)
    ultimately show ?thesis using occupy b'(2,3) by (auto simp: piece_done_def)
  qed
qed

section \<open>The end of a move\<close>

lemma payPiece_ok:
  assumes "classic_pieces (Resources b)" "p = 0 \<or> p = 1" "0 < NumPieces (Resources b ! nat p) ct" "ct \<noteq> CellNormal"
  shows "\<exists>rs. payPiece b p ct = Some (b\<lparr>Resources := rs\<rparr>) \<and> classic_pieces rs \<and>
    rs ! nat p = \<lparr>NumPieces = (NumPieces (Resources b ! nat p))(ct := NumPieces (Resources b ! nat p) ct - 1)\<rparr> \<and>
    rs ! nat (1 - p) = Resources b ! nat (1 - p)"
proof -
  let ?r = "Resources b ! nat p"
  let ?r' = "\<lparr>NumPieces = (NumPieces ?r)(ct := NumPieces ?r ct - 1)\<rparr>"
  let ?rs = "(Resources b)[nat p := ?r']"
  have len: "length (Resources b) = 2" using assms(1) by (simp add: classic_pieces_def)
  have "?r \<in> set (Resources b)" using len assms(2) by auto
  then have "NumPieces ?r' t \<ge> (if t = CellNormal then -1 else 0)" for t
    using assms(1,3,4) by (auto simp: classic_pieces_def)
  then have "classic_pieces ?rs"
    using assms(1) set_update_subset_insert[of "Resources b" "nat p" ?r'] unfolding classic_pieces_def by fastforce
  moreover have "payPiece b p ct = Some (b\<lparr>Resources := ?rs\<rparr>)" using assms(2) len by (auto simp: payPiece_def go_simps)
  ultimately show ?thesis using assms(2) len by (intro exI[of _ ?rs]) auto
qed

text \<open>The part of \<open>endMove\<close> between the payment and the scores.\<close>

lemma reveal_step_ok:
  assumes b: "cells_ok b" and h: "reveal \<or> (\<forall>f \<in> set (FlatFields b). hidden_owned f)"
    and mv: "LastRevealed b \<le> Move b" "Move b \<le> LastRevealed b + 4"
  shows "\<exists>b'. (if n > 1 \<or> Move b - LastRevealed b = 4 \<or> reveal then revealAndClean b else Some b) = Some b' \<and>
    cells_ok b' \<and> (\<forall>f \<in> set (FlatFields b'). hidden_owned f) \<and>
    same_frame (b\<lparr>LastRevealed := LastRevealed b'\<rparr>) b' \<and>
    LastRevealed b' \<le> Move b \<and> Move b < LastRevealed b' + 4 \<and>
    (n > 1 \<or> reveal \<longrightarrow> LastRevealed b' = Move b) \<and>
    (LastRevealed b' \<noteq> LastRevealed b \<or> reveal \<longrightarrow> (\<forall>f \<in> set (FlatFields b'). \<not> Hidden f))"
proof (cases "n > 1 \<or> Move b - LastRevealed b = 4 \<or> reveal")
  case True
  obtain b' where b': "revealAndClean b = Some b'" "cells_ok b'" "\<forall>f \<in> set (FlatFields b'). \<not> Hidden f"
      "same_frame (b\<lparr>LastRevealed := Move b\<rparr>) b'"
    using revealAndClean_ok[OF b] by blast
  moreover from this have "LastRevealed b' = Move b" using same_frame_sel(3) by fastforce
  ultimately show ?thesis using True by (auto simp: hidden_owned_def)
next
  case False
  moreover have "b\<lparr>LastRevealed := LastRevealed b\<rparr> = b" by simp
  ultimately show ?thesis using assms by auto
qed

lemma recompute_inv:
  assumes b: "cells_ok b" "\<forall>f \<in> set (FlatFields b). hidden_owned f" "classic_pieces (Resources b)"
    "Turn b = 1 \<or> Turn b = 2" "LastRevealed b \<le> Move b" "Move b < LastRevealed b + 4"
    "State b = Finished \<or> State b = Running"
  shows "\<exists>b'. recomputeScoreAndState b = Some b' \<and> classic_inv b' \<and> Turn b' = Turn b \<and> Move b' = Move b \<and>
    Resources b' = Resources b \<and> Fields b' = Fields b \<and> LastRevealed b' = LastRevealed b \<and> Score b' = shownScore b \<and>
    State b' = (if cnt isFree (FlatFields b) = 0 then Finished else State b) \<and>
    FlatFields b' = (if cnt isFree (FlatFields b) = 0 then map showCell (FlatFields b) else FlatFields b)"
proof (cases "cnt isFree (FlatFields b) = 0")
  case True
  let ?b' = "b\<lparr>Score := shownScore b, FlatFields := map showCell (FlatFields b), State := Finished\<rparr>"
  have "cells_ok ?b'"
    using cells_ok_map[OF b(1), of showCell] by (simp add: cells_ok_def wf_board_def)
  then have "classic_inv ?b'" using b by (simp add: classic_inv_def shownScore_def)
  with True show ?thesis using recompute_eq[OF b(1)] by simp
next
  case False
  have "0 < cnt isFree (FlatFields b)" using False cnt_nonneg[of isFree "FlatFields b"] by linarith
  moreover have "cells_ok (b\<lparr>Score := shownScore b\<rparr>)" using b(1) by simp
  ultimately have "classic_inv (b\<lparr>Score := shownScore b\<rparr>)" using b by (auto simp: classic_inv_def shownScore_def)
  with False show ?thesis using recompute_eq[OF b(1)] by simp
qed

lemma showCell_id: "\<not> Hidden f \<Longrightarrow> showCell f = f"
  by (cases f) (simp add: showCell_def)

lemma endMove_classic:
  assumes b: "cells_ok b" and h: "reveal \<or> (\<forall>f \<in> set (FlatFields b). hidden_owned f)"
    and ps: "classic_pieces (Resources b)" "ct \<noteq> CellNormal \<longrightarrow> 0 < NumPieces (Resources b ! nat (turn - 1)) ct"
    and t: "turn = 1 \<or> turn = 2" "Turn b = turn"
    and mv: "LastRevealed b \<le> Move b" "Move b \<le> LastRevealed b + 4"
    and s: "State b = Finished \<or> State b = Running"
  shows "\<exists>b'. Classic_endMove b turn ct n reveal = Some b' \<and> classic_inv b' \<and> Turn b' = 3 - turn \<and>
    Move b' = Move b \<and> Fields b' = Fields b \<and>
    NumPieces (Resources b' ! nat (turn - 1)) ct =
      NumPieces (Resources b ! nat (turn - 1)) ct - of_bool (ct \<noteq> CellNormal) \<and>
    Resources b' ! nat (2 - turn) = Resources b ! nat (2 - turn) \<and>
    (State b = Running \<longrightarrow> (if State b' = Finished then cnt isFree (FlatFields b') = 0 \<and> (\<forall>f \<in> set (FlatFields b'). \<not> Hidden f)
       else Score b' = shownScore b')) \<and>
    (reveal \<longrightarrow> (\<forall>f \<in> set (FlatFields b'). \<not> Hidden f) \<and>
       (\<forall>y. valid b y \<longrightarrow> (\<exists>f. pest_cell (showCell (fld b y)) f \<and> fld b' y = cleanCell f)))"
proof -
  obtain rs where rs: "(if ct \<noteq> CellNormal then payPiece b (turn - 1) ct else Some b) = Some (b\<lparr>Resources := rs\<rparr>)"
      "classic_pieces rs" "NumPieces (rs ! nat (turn - 1)) ct =
         NumPieces (Resources b ! nat (turn - 1)) ct - of_bool (ct \<noteq> CellNormal)"
      "rs ! nat (2 - turn) = Resources b ! nat (2 - turn)"
  proof (cases "ct = CellNormal")
    case True
    with ps(1) that[of "Resources b"] show ?thesis by simp
  next
    case False
    have "turn - 1 = 0 \<or> turn - 1 = 1" "1 - (turn - 1) = 2 - turn" using t by auto
    with payPiece_ok[OF ps(1), of "turn - 1" ct] ps(2) False that show ?thesis by auto
  qed
  let ?b1 = "b\<lparr>Resources := rs, Turn := 3 - turn\<rparr>"
  have turn: "(if Turn (b\<lparr>Resources := rs\<rparr>) + 1 > 2 then 1 else Turn (b\<lparr>Resources := rs\<rparr>) + 1) = 3 - turn"
    using t by auto
  have b1: "cells_ok ?b1" "LastRevealed ?b1 \<le> Move ?b1" "Move ?b1 \<le> LastRevealed ?b1 + 4"
    "reveal \<or> (\<forall>f \<in> set (FlatFields ?b1). hidden_owned f)" using b mv h by simp_all
  from reveal_step_ok[OF b1(1,4,2,3), of n] obtain b2 where
    b2: "(if n > 1 \<or> Move ?b1 - LastRevealed ?b1 = 4 \<or> reveal then revealAndClean ?b1 else Some ?b1) = Some b2"
      "cells_ok b2" "\<forall>f \<in> set (FlatFields b2). hidden_owned f"
      "same_frame (?b1\<lparr>LastRevealed := LastRevealed b2\<rparr>) b2"
      "LastRevealed b2 \<le> Move ?b1" "Move ?b1 < LastRevealed b2 + 4"
      "reveal \<longrightarrow> (\<forall>f \<in> set (FlatFields b2). \<not> Hidden f)" by blast
  note same = same_frame_sel[OF b2(4)]
  have b2': "Resources b2 = rs" "Turn b2 = 3 - turn" "Move b2 = Move b" "State b2 = State b" "Fields b2 = Fields b"
    using same by simp_all
  obtain b' where b': "recomputeScoreAndState b2 = Some b'" "classic_inv b'" "Turn b' = 3 - turn" "Move b' = Move b"
      "Resources b' = rs" "Fields b' = Fields b" "Score b' = shownScore b2"
      "State b' = (if cnt isFree (FlatFields b2) = 0 then Finished else State b)"
      "FlatFields b' = (if cnt isFree (FlatFields b2) = 0 then map showCell (FlatFields b2) else FlatFields b2)"
    using recompute_inv[OF b2(2,3)] b2' b2(5,6) rs(2) t(1) s by auto
  have run: "Classic_endMove b turn ct n reveal = Some b'"
    by (simp only: Classic_endMove_def Let_def rs(1) Option.bind.simps turn b2(1) b'(1))
  have c0: "cnt isFree (map showCell fs) = cnt isFree fs" for fs by (simp add: cnt_map comp_def)
  have fin: "State b = Running \<longrightarrow> (if State b' = Finished
      then cnt isFree (FlatFields b') = 0 \<and> (\<forall>f \<in> set (FlatFields b'). \<not> Hidden f) else Score b' = shownScore b')"
    using b'(7-9) by (auto simp: c0 shownScore_def)
  have rev: "(\<forall>f \<in> set (FlatFields b'). \<not> Hidden f) \<and>
       (\<forall>y. valid b y \<longrightarrow> (\<exists>f. pest_cell (showCell (fld b y)) f \<and> fld b' y = cleanCell f))" if reveal
  proof -
    have nh: "\<forall>f \<in> set (FlatFields b2). \<not> Hidden f" using b2(7) that by simp
    then have "map showCell (FlatFields b2) = FlatFields b2" by (simp add: showCell_id map_idI)
    then have ff: "FlatFields b' = FlatFields b2" using b'(9) by simp
    then have fld: "fld b' = fld b2" using b'(6) b2'(5) by (simp add: fun_eq_iff fld_def fpos_def)
    have "revealAndClean ?b1 = Some b2" using b2(1) that by simp
    with revealAndClean_ok[OF b1(1)] have "\<forall>y. valid ?b1 y \<longrightarrow> (\<exists>f. pest_cell (showCell (fld ?b1 y)) f \<and> fld b2 y = cleanCell f)"
      by auto
    with nh ff fld show ?thesis by simp
  qed
  show ?thesis using run b' rs fin rev by auto
qed

section \<open>\<open>MakeMove\<close>\<close>

lemma Classic_MakeMove_refused:
  assumes inv: "classic_inv b" and no: "\<not> classicAllows b m"
  shows "Classic_MakeMove b m = Some (b, False)"
proof -
  note t = inv_cells(3)[OF inv] and ps = inv_cells(4)[OF inv]
  have len: "length (Resources b) = 2" using ps by (simp add: classic_pieces_def)
  have zero: "NumPieces (Resources b ! nat (Turn b - 1)) ct = 0"
    if "ct \<noteq> CellNormal" "\<not> 0 < NumPieces (Resources b ! nat (Turn b - 1)) ct" for ct
  proof -
    have "Resources b ! nat (Turn b - 1) \<in> set (Resources b)" using t len by auto
    with ps have "(if ct = CellNormal then -1 else 0) \<le> NumPieces (Resources b ! nat (Turn b - 1)) ct"
      unfolding classic_pieces_def by blast
    with that show ?thesis by simp
  qed
  show ?thesis
  proof (cases "mvPlayer m = Turn b \<and> mvMove m = Move b \<and> valid b (Idx (mvRow m) (mvCol m)) \<and>
      isPlayerPiece (mvType m) \<and> (mvType m \<noteq> CellNormal \<longrightarrow> NumPieces (Resources b ! nat (Turn b - 1)) (mvType m) \<noteq> 0)")
    case True
    then have "\<not> (let f = fld b (Idx (mvRow m) (mvCol m)) in isFree f \<or> Hidden f \<and> Owner f = 3 - Turn b \<or> mvType m = CellDeath)"
      using no zero[of "mvType m"] by (auto simp: classicAllows_def isPlayerPiece_iff Let_def)
    from applyPiece_refuse[OF inv _ this] True len t show ?thesis
      by (auto simp: Classic_MakeMove_def go_simps Let_def)
  next
    case False
    with len t show ?thesis by (auto simp: Classic_MakeMove_def go_simps Let_def)
  qed
qed

definition classic_moved :: "board \<Rightarrow> game_engine_move \<Rightarrow> board \<Rightarrow> bool" where
  "classic_moved b m b' \<longleftrightarrow> (let x = Idx (mvRow m) (mvCol m); f = fld b x; turn = Turn b; ct = mvType m;
       clash = (Hidden f \<and> Owner f = 3 - turn) in
     Turn b' = 3 - turn \<and> Move b' = Move b + of_bool (isFree f \<or> clash) \<and> Fields b' = Fields b \<and>
     NumPieces (Resources b' ! nat (turn - 1)) ct = NumPieces (Resources b ! nat (turn - 1)) ct - of_bool (ct \<noteq> CellNormal) \<and>
     Resources b' ! nat (2 - turn) = Resources b ! nat (2 - turn) \<and>
     (State b = Running \<longrightarrow> (if State b' = Finished then cnt isFree (FlatFields b') = 0 \<and> (\<forall>f \<in> set (FlatFields b'). \<not> Hidden f)
       else Score b' = shownScore b')) \<and>
     (clash \<or> ct \<noteq> CellNormal \<and> ct \<noteq> CellFlag \<longrightarrow> (\<forall>f \<in> set (FlatFields b'). \<not> Hidden f)) \<and>
     (clash \<longrightarrow> Type (fld b' x) = CellDead \<and> Owner (fld b' x) = 0))"

lemma clash_applied:
  assumes inv: "classic_inv b" and x: "valid b (Idx (mvRow m) (mvCol m))"
    and clash: "Hidden (fld b (Idx (mvRow m) (mvCol m))) \<and> Owner (fld b (Idx (mvRow m) (mvCol m))) = 3 - Turn b"
    and r: "applyPiece b m = Some (Some (b', n, reveal))"
  shows "reveal" "Type (fld b' (Idx (mvRow m) (mvCol m))) = CellDead"
    "Owner (fld b' (Idx (mvRow m) (mvCol m))) = 0" "Lifetime (fld b' (Idx (mvRow m) (mvCol m))) = 1"
proof -
  let ?x = "Idx (mvRow m) (mvCol m)"
  have wf: "wf_board b" by (rule cells_okD(1)[OF inv_cells(1)[OF inv]])
  have "occupied (fld b ?x)" using clash inv_cells(3)[OF inv] by (auto simp: occupied_def)
  with r clash wf x have eq: "b' = updf (b\<lparr>Move := Move b + 1\<rparr>) ?x
      ((fld b ?x)\<lparr>Owner := 0, Type := CellDead, Lifetime := 1\<rparr>) \<and> reveal"
    by (auto simp: applyPiece_def go_simps Let_def)
  then show reveal by simp
  have "fld b' ?x = (fld b ?x)\<lparr>Owner := 0, Type := CellDead, Lifetime := 1\<rparr>"
    using eq wf x by (simp add: fld_updf_same)
  then show "Type (fld b' ?x) = CellDead" "Owner (fld b' ?x) = 0" "Lifetime (fld b' ?x) = 1" by simp_all
qed

lemma dead_stays:
  assumes "Type f = CellDead" "Owner f = 0" "Lifetime f = 1" "pest_cell (showCell f) g"
  shows "Type (cleanCell g) = CellDead \<and> Owner (cleanCell g) = 0"
proof -
  have "g = showCell f" using pest_cellD(3)[OF assms(4)] assms(1) by (simp add: showCell_def)
  with assms(1-3) show ?thesis by (simp add: cleanCell_def showCell_def Let_def)
qed

lemma Classic_MakeMove_allowed:
  assumes inv: "classic_inv b" and ok: "classicAllows b m"
  shows "\<exists>b'. Classic_MakeMove b m = Some (b', True) \<and> classic_inv b' \<and> classic_moved b m b'"
proof -
  let ?x = "Idx (mvRow m) (mvCol m)"
  let ?f = "fld b ?x" and ?d = "isFree (fld b ?x) \<or> Hidden (fld b ?x) \<and> Owner (fld b ?x) = 3 - Turn b"
  note t = inv_cells(3)[OF inv] and ps = inv_cells(4)[OF inv]
  have len: "length (Resources b) = 2" using ps by (simp add: classic_pieces_def)
  have x: "valid b ?x" and ct: "isPlayerPiece (mvType m)"
    and pl: "mvPlayer m = Turn b" "mvMove m = Move b"
      "mvType m \<noteq> CellNormal \<longrightarrow> 0 < NumPieces (Resources b ! nat (Turn b - 1)) (mvType m)"
    and tgt: "let f = ?f in isFree f \<or> Hidden f \<and> Owner f = 3 - Turn b \<or> mvType m = CellDeath"
    using ok unfolding classicAllows_def Let_def isPlayerPiece_iff by blast+
  from applyPiece_ok[OF inv x ct tgt] obtain b1 n reveal where
    r: "applyPiece b m = Some (Some (b1, n, reveal))" and pd: "piece_done b m b1 reveal" by blast
  have sf: "same_frame (b\<lparr>Move := Move b + of_bool ?d\<rparr>) b1" and c1: "cells_ok b1"
    and hid: "reveal \<or> (\<forall>f \<in> set (FlatFields b1). hidden_owned f)"
    and rev: "mvType m \<noteq> CellNormal \<and> mvType m \<noteq> CellFlag \<longrightarrow> reveal"
    using pd unfolding piece_done_def Let_def by blast+
  note same = same_frame_sel[OF sf]
  have b1: "Turn b1 = Turn b" "Move b1 = Move b + of_bool ?d" "LastRevealed b1 = LastRevealed b"
    "Resources b1 = Resources b" "State b1 = State b" "Fields b1 = Fields b" "valid b1 = valid b"
    using same by simp_all
  have mv: "LastRevealed b1 \<le> Move b1" "Move b1 \<le> LastRevealed b1 + 4"
    using inv by (auto simp: b1(2,3) classic_inv_def)
  have st: "State b1 = Finished \<or> State b1 = Running" using inv by (auto simp: b1(5) classic_inv_def)
  have ps1: "classic_pieces (Resources b1)"
    "mvType m \<noteq> CellNormal \<longrightarrow> 0 < NumPieces (Resources b1 ! nat (Turn b - 1)) (mvType m)"
    using ps pl(3) b1(4) by simp_all
  from endMove_classic[OF c1 hid ps1 t b1(1) mv st, of n] obtain b' where
    e: "Classic_endMove b1 (Turn b) (mvType m) n reveal = Some b'" "classic_inv b'" "Turn b' = 3 - Turn b"
      "Move b' = Move b1" "Fields b' = Fields b1"
      "NumPieces (Resources b' ! nat (Turn b - 1)) (mvType m) =
         NumPieces (Resources b1 ! nat (Turn b - 1)) (mvType m) - of_bool (mvType m \<noteq> CellNormal)"
      "Resources b' ! nat (2 - Turn b) = Resources b1 ! nat (2 - Turn b)"
      "State b1 = Running \<longrightarrow> (if State b' = Finished then cnt isFree (FlatFields b') = 0 \<and> (\<forall>f \<in> set (FlatFields b'). \<not> Hidden f)
         else Score b' = shownScore b')"
      "reveal \<longrightarrow> (\<forall>f \<in> set (FlatFields b'). \<not> Hidden f) \<and>
         (\<forall>y. valid b1 y \<longrightarrow> (\<exists>f. pest_cell (showCell (fld b1 y)) f \<and> fld b' y = cleanCell f))"
    by blast
  have "Type (fld b' ?x) = CellDead \<and> Owner (fld b' ?x) = 0" and "reveal"
    if "Hidden ?f \<and> Owner ?f = 3 - Turn b"
  proof -
    note cl = clash_applied[OF inv x that r]
    show reveal by (rule cl(1))
    with e(9) x b1(7) obtain g where "pest_cell (showCell (fld b1 ?x)) g" "fld b' ?x = cleanCell g" by auto
    with dead_stays[OF cl(2-4)] show "Type (fld b' ?x) = CellDead \<and> Owner (fld b' ?x) = 0" by simp
  qed
  then have "classic_moved b m b'"
    using e(3-9) b1(2,4-6) rev unfolding classic_moved_def Let_def by auto
  moreover have "Classic_MakeMove b m = Some (b', True)"
    using x ct pl len t r e(1) by (auto simp: Classic_MakeMove_def go_simps Let_def)
  ultimately show ?thesis using e(2) by blast
qed

lemma Classic_Init_inv: "classic_inv Classic_Init" "State Classic_Init = Running"
proof -
  let ?b = "Classic_Init"
  have sel: "FlatFields ?b = fst makeFields" "Fields ?b = snd makeFields" "Turn ?b = 1" "Move ?b = 0"
    "LastRevealed ?b = 0" "Score ?b = [0, 0]" "Resources ?b = [Classic_InitialResources, Classic_InitialResources]"
    "State ?b = Running"
    by (simp_all add: Classic_Init_def case_prod_beta numeral_2_eq_2)
  have z: "f \<in> set (FlatFields ?b) \<Longrightarrow> f = zeroField" for f using fields_makeFields sel(1) by simp
  have wf: "wf_board ?b" by (rule wf_makeFields[OF sel(1,2)])
  have z': "classic_cell f" "hidden_owned f" "isFree f" if "f \<in> set (FlatFields ?b)" for f
    unfolding z[OF that] by (simp_all add: classic_cell_def hidden_owned_def zeroField_def occupied_def)
  then have "cells_ok ?b" using wf by (simp add: cells_ok_def)
  moreover have "fst makeFields ! 0 \<in> set (FlatFields ?b)" using length_makeFields by (simp add: sel(1))
  then have "0 < cnt isFree (FlatFields ?b)" unfolding cnt_pos_iff using z'(3) by blast
  ultimately show "classic_inv ?b" "State ?b = Running"
    using z'(2) by (auto simp: classic_inv_def sel(2-8) classic_pieces_def Classic_InitialResources_def noPieces_def)
qed

end
