(* ===== verification/ClassicProps.thy ===== *)
theory ClassicProps
  imports ClassicGame
begin

text \<open>
  The Classic engine against the engine interface, the boards it can reach, and its properties.
\<close>

section \<open>The interface\<close>

lemma Classic_MakeMove_total:
  assumes "classic_inv b"
  shows "\<exists>b' ok. Classic_MakeMove b m = Some (b', ok) \<and> classic_inv b' \<and> (ok \<longleftrightarrow> classicAllows b m) \<and>
    (if ok then classic_moved b m b' else b' = b)"
  using Classic_MakeMove_allowed[OF assms, of m] Classic_MakeMove_refused[OF assms, of m] assms
  by (cases "classicAllows b m") auto

interpretation classic_engine: game_engine "\<lambda>b. Some (Classic_Reset b)" Classic_NumPlayers Classic_MakeMove
  "\<lambda>b. b" Classic_IsDone Classic_Winner classic_inv
proof unfold_locales
  fix e m
  assume e: "classic_inv e"
  show "wf_board e" by (rule cells_okD(1)[OF inv_cells(1)[OF e]])
  show "\<exists>e'. Some (Classic_Reset e) = Some e' \<and> classic_inv e' \<and> Classic_NumPlayers e' = Classic_NumPlayers e"
    using Classic_Init_inv(1) by (simp add: Classic_Reset_def Classic_NumPlayers_def)
  show "\<exists>e' ok. Classic_MakeMove e m = Some (e', ok) \<and> classic_inv e' \<and>
      Classic_NumPlayers e' = Classic_NumPlayers e \<and> (\<not> ok \<longrightarrow> e' = e)"
    using Classic_MakeMove_total[OF e, of m] by (auto simp: Classic_NumPlayers_def split: if_splits)
  have "length (Score e) = 2" using e by (simp add: classic_inv_def)
  then show "0 \<le> Classic_Winner e \<and> Classic_Winner e \<le> Classic_NumPlayers e"
    using scoreBasedSingleWinner_range[of "Score e"] by (simp add: Classic_Winner_def Classic_NumPlayers_def)
next
  fix e
  show "Classic_Winner e \<noteq> 0 \<Longrightarrow> Classic_IsDone e" by (simp add: Classic_Winner_def split: if_splits)
  show "1 \<le> Classic_NumPlayers e" by (simp add: Classic_NumPlayers_def)
qed

section \<open>Reachable boards\<close>

inductive classic_reachable :: "board \<Rightarrow> bool" where
  creach_init: "classic_reachable Classic_Init"
| creach_move: "classic_reachable b \<Longrightarrow> Classic_MakeMove b m = Some (b', ok) \<Longrightarrow> classic_reachable b'"

lemma classic_reachable_inv: "classic_reachable b \<Longrightarrow> classic_inv b"
proof (induction rule: classic_reachable.induct)
  case (creach_move b m b' ok)
  then show ?case using classic_engine.move_inv by blast
qed (rule Classic_Init_inv(1))

lemma Classic_Init_free: "valid Classic_Init x \<Longrightarrow> fld Classic_Init x = zeroField"
proof -
  assume x: "valid Classic_Init x"
  have "wf_board Classic_Init" using Classic_Init_inv(1) classic_engine.inv_board by blast
  from fld_in_set[OF this x] show ?thesis
    by (simp add: Classic_Init_def case_prod_beta fields_makeFields)
qed

text \<open>The move of the witnesses: player 1 occupies the cell in the middle.\<close>

abbreviation centerMove :: game_engine_move where
  "centerMove \<equiv> \<lparr>mvPlayer = 1, mvMove = 0, mvRow = 5, mvCol = 5, mvType = CellNormal\<rparr>"

lemma centerMove_allowed: "classicAllows Classic_Init centerMove"
proof -
  have v: "valid Classic_Init (Idx 5 5)"
    by (simp add: valid_def Classic_Init_def makeFields_def numBoardRows_def numFieldsFirstRow_def upt_rec)
  have "Turn Classic_Init = 1" "Move Classic_Init = 0" by (simp_all add: Classic_Init_def case_prod_beta)
  with v Classic_Init_free[OF v] show ?thesis by (simp add: classicAllows_def zeroField_def occupied_def)
qed

lemma free_cell_move:
  assumes inv: "classic_inv b" and free: "0 < cnt isFree (FlatFields b)"
  shows "\<exists>m. classicAllows b m \<and> mvType m = CellNormal"
proof -
  note wf = cells_okD(1)[OF inv_cells(1)[OF inv]]
  from free obtain x where x: "valid b x" "isFree (fld b x)"
    using ball_fields[OF wf, of occupied] by (auto simp: cnt_pos_iff)
  let ?m = "\<lparr>mvPlayer = Turn b, mvMove = Move b, mvRow = row_of x, mvCol = col_of x, mvType = CellNormal\<rparr>"
  from x have "classicAllows b ?m" by (simp add: classicAllows_def)
  then show ?thesis by (intro exI[of _ ?m]) simp
qed

text \<open>A board of one row with three free cells: a piece in the middle splits it.\<close>

definition rowOf3 :: board where
  "rowOf3 = NewBoard\<lparr>FlatFields := replicate 3 zeroField, Fields := [(0, 3)]\<rparr>"

lemma rowOf3_ok: "wf_board rowOf3" "flags_ok rowOf3" "valid rowOf3 (Idx 0 1)"
proof -
  show wf: "wf_board rowOf3" and "valid rowOf3 (Idx 0 1)"
    by (simp_all add: rowOf3_def wf_board_def valid_def)
  have "fld rowOf3 x = zeroField" if "valid rowOf3 x" for x
    using fld_in_set[OF wf that] by (simp add: rowOf3_def)
  then show "flags_ok rowOf3" by (simp add: flags_ok_def zeroField_def)
qed

lemma rowOf3_split: "map_option snd (occupyFields rowOf3 1 (Idx 0 1) CellNormal) = Some 2"
  by code_simp

section \<open>Properties\<close>

text \<open>C6. A Classic move never panics: the flood fill returns, every index is in range. The move is
  accepted exactly when the rules allow it (its player's turn, a piece that is left, a free cell, a
  clash with a hidden piece of the opponent, or a death cell), and a refused move changes nothing.\<close>

theorem classic_move_accepted_iff_allowed:
  assumes "classic_reachable b"
  shows "\<exists>b' ok. Classic_MakeMove b m = Some (b', ok) \<and> (ok \<longleftrightarrow> classicAllows b m) \<and> (\<not> ok \<longrightarrow> b' = b)"
  using Classic_MakeMove_total[OF classic_reachable_inv[OF assms], of m] by (auto split: if_splits)

theorem classic_move_accepted_iff_allowed_witness:
  "\<exists>b'. Classic_MakeMove Classic_Init centerMove = Some (b', True)"
  using classic_move_accepted_iff_allowed[OF creach_init, of centerMove] centerMove_allowed by auto

text \<open>C7. What \<open>occupyFields\<close> does: it puts the hidden piece on the cell, and if that splits the
  surrounding free cells into several areas no dead cell touches, it hands all free cells of a
  smallest one to the player with more flags on its boundary, and changes nothing else. It returns
  the number of cells it has occupied.\<close>

theorem classic_occupies_smallest_area:
  assumes "wf_board b" "flags_ok b" "valid b x" "p = 1 \<or> p = 2"
  shows "let b1 = pieceAt b p x ct; areas = splitAreas b1 x in
    \<exists>b' n. occupyFields b p x ct = Some (b', n) \<and>
    (if card areas \<le> 1 then b' = b1 \<and> n = 1
     else \<exists>R \<in> areas. (\<forall>R' \<in> areas. count isFree b1 R \<le> count isFree b1 R') \<and> n = 1 + count isFree b1 R \<and>
       (\<forall>y. valid b y \<longrightarrow> fld b' y = (if y \<in> R \<and> isFree (fld b1 y)
          then (fld b1 y)\<lparr>Owner := areaWinner b1 p ct R, Lifetime := -1\<rparr> else fld b1 y)))"
  unfolding Let_def using occupyFields_spec[OF assms] by blast

theorem classic_occupies_smallest_area_witness:
  "1 < card (splitAreas (pieceAt rowOf3 1 (Idx 0 1) CellNormal) (Idx 0 1))"
  using classic_occupies_smallest_area[OF rowOf3_ok, of 1 CellNormal] rowOf3_split
  by (auto simp: Let_def split: if_splits)

text \<open>C8. The scores and the end of a game: while a game goes on, the score after an accepted move
  is the number of visible cells each player owns; the game is finished exactly when no free cell
  is left, and then no cell is hidden.\<close>

theorem classic_score_and_end:
  assumes "classic_reachable b" "State b = Running" "Classic_MakeMove b m = Some (b', True)"
  shows "if State b' = Finished
    then (\<forall>f \<in> set (FlatFields b'). occupied f \<and> \<not> Hidden f)
    else (\<exists>f \<in> set (FlatFields b'). \<not> occupied f) \<and> State b' = Running \<and>
      Score b' = [int (length (filter (\<lambda>f. Owner f = 1 \<and> \<not> Hidden f) (FlatFields b'))),
                  int (length (filter (\<lambda>f. Owner f = 2 \<and> \<not> Hidden f) (FlatFields b')))]"
proof -
  from Classic_MakeMove_total[OF classic_reachable_inv[OF assms(1)], of m] assms(3)
  have inv: "classic_inv b'" and mv: "classic_moved b m b'" by auto
  then have "if State b' = Finished then cnt isFree (FlatFields b') = 0 \<and> (\<forall>f \<in> set (FlatFields b'). \<not> Hidden f)
       else Score b' = shownScore b'"
    using assms(2) by (simp add: classic_moved_def Let_def)
  with inv show ?thesis
    by (auto simp: classic_inv_def shownScore_def cnt_def shown_def[abs_def] filter_empty_conv split: if_splits)
qed

theorem classic_score_and_end_witness:
  "\<exists>b'. Classic_MakeMove Classic_Init centerMove = Some (b', True) \<and>
    (State b' \<noteq> Finished \<longrightarrow> length (Score b') = 2)"
proof -
  obtain b' where b': "Classic_MakeMove Classic_Init centerMove = Some (b', True)"
    using Classic_MakeMove_allowed[OF Classic_Init_inv(1) centerMove_allowed] by blast
  with classic_score_and_end[OF creach_init Classic_Init_inv(2) b'] show ?thesis by (auto split: if_splits)
qed

text \<open>A running game is never stuck: the player whose turn it is can place a normal piece.\<close>

theorem classic_running_not_stuck:
  assumes "classic_reachable b" "\<not> Classic_IsDone b"
  shows "\<exists>m b'. mvPlayer m = Turn b \<and> mvType m = CellNormal \<and> Classic_MakeMove b m = Some (b', True)"
proof -
  note inv = classic_reachable_inv[OF assms(1)]
  have "0 < cnt isFree (FlatFields b)" using inv assms(2) by (auto simp: classic_inv_def Classic_IsDone_def)
  then obtain m where "classicAllows b m" "mvType m = CellNormal" using free_cell_move[OF inv] by blast
  with Classic_MakeMove_allowed[OF inv] show ?thesis by (metis classicAllows_def)
qed

theorem classic_running_not_stuck_witness:
  "\<exists>m b'. mvType m = CellNormal \<and> Classic_MakeMove Classic_Init m = Some (b', True)"
  using classic_running_not_stuck[OF creach_init] Classic_Init_inv(2) by (auto simp: Classic_IsDone_def)

text \<open>C9. Hidden moves do not stay hidden: at any time fewer than four moves have been made since
  the board was last revealed, only owned cells are hidden, and a move that clashes with a hidden
  piece of the opponent turns the cell into a dead cell and shows the whole board.\<close>

theorem classic_hidden_moves_bounded:
  assumes "classic_reachable b"
  shows "0 \<le> Move b - LastRevealed b \<and> Move b - LastRevealed b < 4 \<and>
    (\<forall>f \<in> set (FlatFields b). Hidden f \<longrightarrow> Owner f > 0) \<and>
    (\<forall>m b'. Classic_MakeMove b m = Some (b', True) \<and> Hidden (fld b (Idx (mvRow m) (mvCol m))) \<and>
        Owner (fld b (Idx (mvRow m) (mvCol m))) = 3 - Turn b \<longrightarrow>
      Type (fld b' (Idx (mvRow m) (mvCol m))) = CellDead \<and> Owner (fld b' (Idx (mvRow m) (mvCol m))) = 0 \<and>
      (\<forall>f \<in> set (FlatFields b'). \<not> Hidden f))"
proof -
  note inv = classic_reachable_inv[OF assms]
  have "Type (fld b' (Idx (mvRow m) (mvCol m))) = CellDead \<and> Owner (fld b' (Idx (mvRow m) (mvCol m))) = 0 \<and>
      (\<forall>f \<in> set (FlatFields b'). \<not> Hidden f)"
    if "Classic_MakeMove b m = Some (b', True)" "Hidden (fld b (Idx (mvRow m) (mvCol m)))"
      "Owner (fld b (Idx (mvRow m) (mvCol m))) = 3 - Turn b" for m b'
    using Classic_MakeMove_total[OF inv, of m] that unfolding classic_moved_def Let_def by auto
  with inv show ?thesis by (auto simp: classic_inv_def hidden_owned_def)
qed

theorem classic_hidden_moves_bounded_witness:
  "\<exists>b'. Classic_MakeMove Classic_Init centerMove = Some (b', True) \<and> Move b' - LastRevealed b' < 4"
proof -
  obtain b' where b': "Classic_MakeMove Classic_Init centerMove = Some (b', True)"
    using Classic_MakeMove_allowed[OF Classic_Init_inv(1) centerMove_allowed] by blast
  with classic_hidden_moves_bounded[OF creach_move[OF creach_init b']] show ?thesis by blast
qed

end
