(* ===== verification/Freeform.thy ===== *)
theory Freeform
  imports Engine
begin

text \<open>
  The Freeform engine, \<open>hexz/freeform.go\<close>, whose only field is its board: any cell can be
  overwritten by any piece at any time, and the game never ends.
\<close>

definition Freeform_NumPlayers :: "board \<Rightarrow> int" where
  "Freeform_NumPlayers b = 1"

definition Freeform_InitialResources :: resource_info where
  "Freeform_InitialResources = \<lparr>NumPieces = noPieces
     (CellNormal := -1, CellFire := -1, CellFlag := -1, CellPest := -1, CellDeath := -1)\<rparr>"

definition Freeform_Init :: board where
  "Freeform_Init = (let (flatFields, fields) = makeFields; numPlayers = 1 in
     \<lparr>Turn = 1, Move = 0, LastRevealed = 0, FlatFields = flatFields, Fields = fields,
      Score = replicate numPlayers 0, Resources = replicate numPlayers Freeform_InitialResources,
      State = Initial\<rparr>)"

definition Freeform_Start :: "board \<Rightarrow> board" where
  "Freeform_Start b = b\<lparr>State := Running\<rparr>"

definition Freeform_Reset :: "board \<Rightarrow> board" where
  "Freeform_Reset b = Freeform_Init"

definition Freeform_IsDone :: "board \<Rightarrow> bool" where
  "Freeform_IsDone b = False"

definition Freeform_Winner :: "board \<Rightarrow> int" where
  "Freeform_Winner b = 0"

definition Freeform_MakeMove :: "board \<Rightarrow> game_engine_move \<Rightarrow> (board \<times> bool) option" where
  "Freeform_MakeMove b m = (let x = Idx (mvRow m) (mvCol m) in
     if \<not> valid b x then Some (b, False)
     else do {
       let b = b\<lparr>Move := Move b + 1\<rparr>;
       f \<leftarrow> getField b x;
       let t = Turn b + 1;
       b' \<leftarrow> setField b x (f\<lparr>Owner := Turn b, Type := mvType m, Value := 1\<rparr>);
       Some (b'\<lparr>Turn := (if t > 2 then 1 else t)\<rparr>, True)
     })"

definition freeform_inv :: "board \<Rightarrow> bool" where
  "freeform_inv b \<longleftrightarrow> wf_board b \<and> (Turn b = 1 \<or> Turn b = 2)"

lemma Freeform_MakeMove_eq:
  assumes "freeform_inv b"
  shows "Freeform_MakeMove b m = Some (let x = Idx (mvRow m) (mvCol m) in
    if valid b x then ((updf b x ((fld b x)\<lparr>Owner := Turn b, Type := mvType m, Value := 1\<rparr>))
      \<lparr>Move := Move b + 1, Turn := 3 - Turn b\<rparr>, True) else (b, False))"
proof -
  have "updf (b\<lparr>Move := k\<rparr>) x f = (updf b x f)\<lparr>Move := k\<rparr>" for k x f by (simp add: updf_def fpos_def)
  then show ?thesis using assms by (auto simp: freeform_inv_def Freeform_MakeMove_def go_simps Let_def)
qed

interpretation freeform_engine: game_engine "\<lambda>b. Some (Freeform_Reset b)" Freeform_NumPlayers Freeform_MakeMove
  "\<lambda>b. b" Freeform_IsDone Freeform_Winner freeform_inv
proof unfold_locales
  fix e m
  assume e: "freeform_inv e"
  show "wf_board e" using e by (simp add: freeform_inv_def)
  have "wf_board Freeform_Init" by (rule wf_makeFields) (simp_all add: Freeform_Init_def case_prod_beta)
  then show "\<exists>e'. Some (Freeform_Reset e) = Some e' \<and> freeform_inv e' \<and> Freeform_NumPlayers e' = Freeform_NumPlayers e"
    by (simp add: Freeform_Reset_def freeform_inv_def Freeform_NumPlayers_def Freeform_Init_def case_prod_beta)
  show "\<exists>e' ok. Freeform_MakeMove e m = Some (e', ok) \<and> freeform_inv e' \<and>
      Freeform_NumPlayers e' = Freeform_NumPlayers e \<and> (\<not> ok \<longrightarrow> e' = e)"
    using e by (auto simp: Freeform_MakeMove_eq[OF e] Let_def freeform_inv_def Freeform_NumPlayers_def)
  show "0 \<le> Freeform_Winner e \<and> Freeform_Winner e \<le> Freeform_NumPlayers e"
    by (simp add: Freeform_Winner_def Freeform_NumPlayers_def)
qed (simp_all add: Freeform_Winner_def Freeform_NumPlayers_def)

end
