(* ===== verification/Games.thy ===== *)
theory Games
  imports FlagzPlay ClassicProps Freeform
begin

text \<open>
  The engine a game holds, \<open>GameEngine\<close> of \<open>hexz/engine.go\<close>, as the sum of the three engines;
  its methods dispatch on the engine, as Go's interface calls do. \<open>NewGameEngine\<close> makes one.
  The interpretation of \<open>game_engine\<close> on the sum is what the game master relies on.
\<close>

datatype game_engine = EngineClassic board | EngineFlagz flagz | EngineFreeform board

primrec engineType :: "game_engine \<Rightarrow> game_type" where
  "engineType (EngineClassic b) = GameTypeClassic"
| "engineType (EngineFlagz g) = GameTypeFlagz"
| "engineType (EngineFreeform b) = GameTypeFreeform"

primrec engineBoard :: "game_engine \<Rightarrow> board" where
  "engineBoard (EngineClassic b) = b"
| "engineBoard (EngineFlagz g) = Brd g"
| "engineBoard (EngineFreeform b) = b"

primrec engineReset :: "game_engine \<Rightarrow> game_engine option" where
  "engineReset (EngineClassic b) = Some (EngineClassic (Classic_Reset b))"
| "engineReset (EngineFlagz g) = map_option EngineFlagz (Flagz_Reset g)"
| "engineReset (EngineFreeform b) = Some (EngineFreeform (Freeform_Reset b))"

primrec engineNumPlayers :: "game_engine \<Rightarrow> int" where
  "engineNumPlayers (EngineClassic b) = Classic_NumPlayers b"
| "engineNumPlayers (EngineFlagz g) = Flagz_NumPlayers g"
| "engineNumPlayers (EngineFreeform b) = Freeform_NumPlayers b"

primrec engineMakeMove :: "game_engine \<Rightarrow> game_engine_move \<Rightarrow> (game_engine \<times> bool) option" where
  "engineMakeMove (EngineClassic b) m = map_option (map_prod EngineClassic id) (Classic_MakeMove b m)"
| "engineMakeMove (EngineFlagz g) m = map_option (map_prod EngineFlagz id) (Flagz_MakeMove g m)"
| "engineMakeMove (EngineFreeform b) m = map_option (map_prod EngineFreeform id) (Freeform_MakeMove b m)"

primrec engineIsDone :: "game_engine \<Rightarrow> bool" where
  "engineIsDone (EngineClassic b) = Classic_IsDone b"
| "engineIsDone (EngineFlagz g) = Flagz_IsDone g"
| "engineIsDone (EngineFreeform b) = Freeform_IsDone b"

primrec engineWinner :: "game_engine \<Rightarrow> int" where
  "engineWinner (EngineClassic b) = Classic_Winner b"
| "engineWinner (EngineFlagz g) = Flagz_Winner g"
| "engineWinner (EngineFreeform b) = Freeform_Winner b"

fun NewGameEngine :: "game_type \<Rightarrow> rng \<Rightarrow> game_engine option" where
  "NewGameEngine GameTypeClassic src = Some (EngineClassic Classic_Init)"
| "NewGameEngine GameTypeFlagz src = map_option EngineFlagz (NewGameEngineFlagz src)"
| "NewGameEngine GameTypeFreeform src = Some (EngineFreeform Freeform_Init)"

primrec engine_inv :: "game_engine \<Rightarrow> bool" where
  "engine_inv (EngineClassic b) = classic_inv b"
| "engine_inv (EngineFlagz g) = flagz_inv g"
| "engine_inv (EngineFreeform b) = freeform_inv b"

interpretation any_engine: game_engine engineReset engineNumPlayers engineMakeMove engineBoard
  engineIsDone engineWinner engine_inv
proof unfold_locales
  fix e m
  assume e: "engine_inv e"
  show "wf_board (engineBoard e)"
    using e classic_engine.inv_board flagz_engine.inv_board freeform_engine.inv_board by (cases e) auto
  show "\<exists>e'. engineReset e = Some e' \<and> engine_inv e' \<and> engineNumPlayers e' = engineNumPlayers e"
    using e classic_engine.inv_reset flagz_engine.inv_reset freeform_engine.inv_reset by (cases e) fastforce+
  show "\<exists>e' ok. engineMakeMove e m = Some (e', ok) \<and> engine_inv e' \<and>
      engineNumPlayers e' = engineNumPlayers e \<and> (\<not> ok \<longrightarrow> e' = e)"
    using e classic_engine.inv_move[of _ m] flagz_engine.inv_move[of _ m] freeform_engine.inv_move[of _ m]
    by (cases e) fastforce+
  show "0 \<le> engineWinner e \<and> engineWinner e \<le> engineNumPlayers e"
    using e classic_engine.winner_range flagz_engine.winner_range freeform_engine.winner_range by (cases e) auto
next
  fix e
  show "engineWinner e \<noteq> 0 \<Longrightarrow> engineIsDone e"
    using classic_engine.winner_done flagz_engine.winner_done freeform_engine.winner_done by (cases e) auto
  show "1 \<le> engineNumPlayers e"
    using classic_engine.players_pos flagz_engine.players_pos freeform_engine.players_pos by (cases e) auto
qed

lemma NewGameEngine_ok:
  "\<exists>e. NewGameEngine t src = Some e \<and> engine_inv e \<and> engineType e = t \<and>
     State (engineBoard e) = (if t = GameTypeFreeform then Initial else Running)"
proof (cases t)
  case GameTypeClassic
  then show ?thesis using Classic_Init_inv by simp
next
  case GameTypeFlagz
  from Reset_ok[of "\<lparr>Brd = NewBoard, FreeCells = 0, NormalMoves = Arr2 0 0, rnd = src\<rparr>"]
  obtain g where "NewGameEngineFlagz src = Some g" "flagz_inv g" "\<not> over g" by (auto simp: NewGameEngineFlagz_def)
  with GameTypeFlagz show ?thesis by (simp add: flagz_inv_def)
next
  case GameTypeFreeform
  have "freeform_inv Freeform_Init"
    using wf_makeFields[of Freeform_Init] by (simp add: freeform_inv_def Freeform_Init_def case_prod_beta)
  with GameTypeFreeform show ?thesis by (simp add: Freeform_Init_def case_prod_beta)
qed

lemma engineMakeMove_type: "engineMakeMove e m = Some (e', ok) \<Longrightarrow> engineType e' = engineType e"
  by (cases e) auto

section \<open>Properties\<close>

text \<open>What the game master relies on for every kind of game: a new engine is made without a
  panic for each valid game type, and any sequence of moves, legal or not, by any player, runs to
  its end without a panic; at every point the winner is a player or 0.\<close>

theorem every_engine_survives_any_moves:
  "\<exists>e e'. NewGameEngine t src = Some e \<and>
     foldM (\<lambda>m e. map_option fst (engineMakeMove e m)) ms e = Some e' \<and>
     0 \<le> engineWinner e' \<and> engineWinner e' \<le> engineNumPlayers e'"
proof -
  obtain e where e: "NewGameEngine t src = Some e" "engine_inv e" using NewGameEngine_ok[of t src] by blast
  from any_engine.moves_total[OF e(2), of ms] obtain e' where
    "foldM (\<lambda>m e. map_option fst (engineMakeMove e m)) ms e = Some e'" "engine_inv e'" by blast
  with any_engine.winner_range[of e'] e(1) show ?thesis by blast
qed

end
