(* ===== verification/Mcts.thy ===== *)
theory Mcts
  imports FlagzProps
begin

text \<open>
  The Monte Carlo tree search, \<open>hexz/mcts.go\<close>, on the one engine that supports it, Flagz.

  The search tree is a \<open>mc_node\<close>. In the source \<open>run\<close> passes the path from the root, a slice of
  pointers, down its recursion, and \<open>backpropagate\<close> adds a result to every node on it. Those nodes
  are the nodes of the calls on the stack: the model's \<open>run\<close> gets a node and returns it updated,
  together with the winner, and each call adds the winner to its own node (\<open>addResult\<close>, the body
  of the loop of \<open>backpropagate\<close>). \<open>len(path)\<close> is passed as a number.

  \<open>mcts.rnd\<close> is the source of randomness of the cloned engine, too (\<open>Clone(mcts.rnd)\<close>), so the
  model keeps one stream, in the engine's field \<open>rnd\<close>. Floating point numbers are real numbers
  here, their rounding is not modelled; \<open>+Inf\<close> is a constructor of its own. Running out of the
  depth bound of \<open>run\<close>, a panic and \<open>log.Fatalf\<close> are \<open>None\<close>.
\<close>

section \<open>Nodes\<close>

record mc_data =
  mcR :: int
  mcC :: int
  mcCellType :: cell_type
  mcWins :: real
  mcCount :: real
  mcDone :: bool
  mcTurn :: int
  mcLive :: int

datatype mc_node = MCNode (nd: mc_data) (children: "mc_node list")

definition leaf :: "idx \<Rightarrow> int \<Rightarrow> cell_type \<Rightarrow> mc_node" where
  "leaf x turn ct = MCNode \<lparr>mcR = row_of x, mcC = col_of x, mcCellType = ct, mcWins = 0, mcCount = 0,
     mcDone = False, mcTurn = turn, mcLive = 0\<rparr> []"

definition mcQ :: "mc_data \<Rightarrow> real" where
  "mcQ d = (if mcCount d = 0 then 0 else mcWins d / mcCount d)"

datatype uct = Fin real | Inf

fun uct_less :: "uct \<Rightarrow> uct \<Rightarrow> bool" where
  "uct_less (Fin a) (Fin b) = (a < b)"
| "uct_less (Fin a) Inf = True"
| "uct_less Inf _ = False"

definition mcU :: "mc_data \<Rightarrow> real \<Rightarrow> real \<Rightarrow> uct" where
  "mcU d parentCount uctFactor = (if mcCount d = 0 then Inf
     else Fin (mcWins d / mcCount d + uctFactor * sqrt (ln parentCount / mcCount d)))"

text \<open>\<open>size\<close>: the loop with an explicit stack, whose top is the end of the slice.\<close>

fun nodes :: "mc_node \<Rightarrow> nat" where
  "nodes (MCNode d cs) = Suc (sum_list (map nodes cs))"

lemma nodes_pos: "0 < nodes n"
  by (cases n) simp

function sizeLoop :: "mc_node list \<Rightarrow> int \<Rightarrow> int" where
  "sizeLoop q s = (if q = [] then s else sizeLoop (butlast q @ children (last q)) (s + 1))"
  by auto

lemma nodes_pop:
  assumes "q \<noteq> []"
  shows "Suc (sum_list (map nodes (butlast q @ children (last q)))) = sum_list (map nodes q)"
proof (cases q rule: rev_cases)
  case (snoc ys y)
  then show ?thesis by (cases y) simp
qed (use assms in simp)

termination sizeLoop
proof (relation "measure (\<lambda>(q, s). sum_list (map nodes q))", goal_cases)
  case (2 q s)
  then show ?case using nodes_pop[of q] unfolding in_measure prod.case by linarith
qed simp

declare sizeLoop.simps [simp del]

definition treeSize :: "mc_node \<Rightarrow> int" where
  "treeSize tree = sizeLoop [tree] 0"

record mcts =
  MaxFlagPositions :: int
  UctFactor :: real
  FlagsFirst :: bool

definition NewMCTS :: mcts where
  "NewMCTS = \<lparr>MaxFlagPositions = 5, UctFactor = 1, FlagsFirst = False\<rparr>"

section \<open>Playing a random game\<close>

definition nodeMove :: "board \<Rightarrow> mc_data \<Rightarrow> game_engine_move" where
  "nodeMove b d = \<lparr>mvPlayer = mcTurn d, mvMove = Move b, mvRow = mcR d, mvCol = mcC d, mvType = mcCellType d\<rparr>"

text \<open>The loop of \<open>playRandomGame\<close>, over the methods of a \<open>SinglePlayerGameEngine\<close>.\<close>

partial_function (option) playLoop ::
  "('e \<Rightarrow> bool) \<Rightarrow> ('e \<Rightarrow> ((string + game_engine_move) \<times> 'e) option) \<Rightarrow>
   ('e \<Rightarrow> game_engine_move \<Rightarrow> ('e \<times> bool) option) \<Rightarrow> 'e \<Rightarrow> 'e option" where
  "playLoop isDone randomMove makeMove ge =
    (if isDone ge then Some ge
     else Option.bind (randomMove ge) (\<lambda>r.
       if isl (fst r) then None
       else Option.bind (makeMove (snd r) (projr (fst r))) (\<lambda>q.
         if snd q then playLoop isDone randomMove makeMove (fst q) else None)))"

definition playRandomGame :: "flagz \<Rightarrow> mc_data \<Rightarrow> (int \<times> flagz) option" where
  "playRandomGame ge firstMove = do {
     (ge, ok) \<leftarrow> Flagz_MakeMove ge (nodeMove (Brd ge) firstMove);
     if \<not> ok then None
     else do {
       ge \<leftarrow> playLoop Flagz_IsDone RandomMove Flagz_MakeMove ge;
       Some (Flagz_Winner ge, ge)
     }
   }"

section \<open>Choosing and expanding\<close>

text \<open>The loop of \<open>getNextByUtc\<close>: the position of the chosen child and its value.\<close>

fun nextByUtc :: "mcts \<Rightarrow> real \<Rightarrow> nat \<Rightarrow> mc_node list \<Rightarrow> nat option \<Rightarrow> uct \<Rightarrow> nat option" where
  "nextByUtc p pc i [] best maxUct = best"
| "nextByUtc p pc i (l # ls) best maxUct =
    (if mcDone (nd l) then nextByUtc p pc (Suc i) ls best maxUct
     else let u = mcU (nd l) pc (UctFactor p) in
       if uct_less maxUct u then nextByUtc p pc (Suc i) ls (Some i) u
       else nextByUtc p pc (Suc i) ls best maxUct)"

definition getNextByUtc :: "mcts \<Rightarrow> mc_node \<Rightarrow> nat option" where
  "getNextByUtc p node = nextByUtc p (mcCount (nd node)) 0 (children node) None (Fin (-1))"

text \<open>The state of the loops of \<open>nextMoves\<close>; a \<open>None\<close> in \<open>flagMoves\<close> is a nil pointer.\<close>

record collect =
  cMoves :: "mc_node list"
  cFlags :: "mc_node option list"
  cN :: int
  cRnd :: rng

definition addFlagMove :: "mcts \<Rightarrow> board \<Rightarrow> idx \<Rightarrow> collect \<Rightarrow> collect option" where
  "addFlagMove p b x st = (let (u, s) = Float64 (cRnd st) in
     if u < of_int (MaxFlagPositions p) / (of_int (cN st) + 1) then do {
       (k, s) \<leftarrow> (if cN st \<ge> MaxFlagPositions p then Intn (MaxFlagPositions p) s else Some (cN st, s));
       fl \<leftarrow> upd_list (cFlags st) k (Some (leaf x (Turn b) CellFlag));
       Some (st\<lparr>cFlags := fl, cN := cN st + 1, cRnd := s\<rparr>)
     } else Some (st\<lparr>cRnd := s\<rparr>))"

definition collectMove :: "mcts \<Rightarrow> board \<Rightarrow> bool \<Rightarrow> idx \<Rightarrow> collect \<Rightarrow> collect option" where
  "collectMove p b hasFlag x st = do {
     f \<leftarrow> getField b x;
     if occupied f then Some st
     else do {
       av \<leftarrow> isAvail f (Turn b);
       let st = (if av then st\<lparr>cMoves := cMoves st @ [leaf x (Turn b) CellNormal]\<rparr> else st);
       if hasFlag then addFlagMove p b x st else Some st
     }
   }"

definition nextMoves :: "mcts \<Rightarrow> board \<Rightarrow> rng \<Rightarrow> (mc_node list \<times> rng) option" where
  "nextMoves p b s = do {
     r \<leftarrow> idx_list (Resources b) (Turn b - 1);
     let hasFlag = NumPieces r CellFlag > 0;
     let maxFlags = MaxFlagPositions p;
     flagMoves \<leftarrow> (if hasFlag then (if maxFlags < 0 then None else Some (replicate (nat maxFlags) None)) else Some []);
     st \<leftarrow> foldM (collectMove p b hasFlag) (allIdx b) \<lparr>cMoves = [], cFlags = flagMoves, cN = 0, cRnd = s\<rparr>;
     let nFlags = (if cN st > maxFlags then maxFlags else cN st);
     if nFlags = 0 then Some (cMoves st, cRnd st)
     else if nFlags < 0 then None
     else do {
       fl \<leftarrow> those (take (nat nFlags) (cFlags st));
       Some (if FlagsFirst p then fl else cMoves st @ fl, cRnd st)
     }
   }"

section \<open>One iteration of the search\<close>

text \<open>The body of the loop of \<open>backpropagate\<close>.\<close>

definition addResult :: "int \<Rightarrow> mc_data \<Rightarrow> mc_data" where
  "addResult winner d = (let w = (if mcTurn d = winner then mcWins d + 1
                                 else if winner = 0 then mcWins d + 1 / 2 else mcWins d)
     in d\<lparr>mcWins := w, mcCount := mcCount d + 1\<rparr>)"

text \<open>
  \<open>run\<close> on the node at the end of a path of length \<open>len\<close>: the node, the winner that was
  propagated, the depth and the engine, whose random numbers have been used.
\<close>

primrec run :: "nat \<Rightarrow> mcts \<Rightarrow> flagz \<Rightarrow> mc_node \<Rightarrow> int \<Rightarrow> (mc_node \<times> int \<times> int \<times> flagz) option" where
  "run 0 p ge node len = None"
| "run (Suc n) p ge node len =
    (if children node = [] then do {
       (cs, s) \<leftarrow> nextMoves p (Brd ge) (rnd ge);
       if cs = [] then None
       else do {
         (k, s) \<leftarrow> Intn (int (length cs)) s;
         c \<leftarrow> idx_list cs k;
         (winner, ge) \<leftarrow> playRandomGame (ge\<lparr>rnd := s\<rparr>) (nd c);
         cs \<leftarrow> upd_list cs k (MCNode (addResult winner (nd c)) (children c));
         Some (MCNode (addResult winner ((nd node)\<lparr>mcLive := int (length cs)\<rparr>)) cs, winner, len + 1, ge)
       }
     } else do {
       i \<leftarrow> getNextByUtc p node;
       c \<leftarrow> idx_list (children node) (int i);
       (ge, ok) \<leftarrow> Flagz_MakeMove ge (nodeMove (Brd ge) (nd c));
       if \<not> ok then None
       else do {
         (c, winner, depth, ge) \<leftarrow>
           (if Flagz_IsDone ge
            then Some (MCNode (addResult (Flagz_Winner ge) ((nd c)\<lparr>mcDone := True\<rparr>)) (children c),
                       Flagz_Winner ge, len + 1, ge)
            else run n p ge c (len + 1));
         let d = addResult winner (nd node);
         let d = (if mcDone (nd c)
                  then d\<lparr>mcLive := mcLive d - 1, mcDone := (if mcLive d - 1 = 0 then True else mcDone d)\<rparr>
                  else d);
         cs \<leftarrow> upd_list (children node) (int i) c;
         Some (MCNode d cs, winner, depth, ge)
       }
     })"

definition runDepth :: "flagz \<Rightarrow> nat" where
  "runDepth ge = Suc (Flagz_rest ge)"

section \<open>Suggesting a move\<close>

text \<open>
  The search loop. \<open>timeUp n\<close> is the answer of the clock, \<open>time.Since(started) >= maxDuration\<close>, if
  it is asked in round \<open>n\<close>; \<open>n&63 == 0\<close> decides whether it is.
\<close>

partial_function (option) searchLoop ::
  "mcts \<Rightarrow> (nat \<Rightarrow> bool) \<Rightarrow> flagz \<Rightarrow> nat \<Rightarrow> rng \<Rightarrow> mc_node \<Rightarrow> int \<Rightarrow> (mc_node \<times> int) option" where
  "searchLoop p timeUp g n s tree maxDepth =
    (if n mod 64 = 0 \<and> timeUp n then Some (tree, maxDepth)
     else Option.bind (run (runDepth g) p (Flagz_Clone g s) tree 1) (\<lambda>r.
       let tree = fst r; depth = fst (snd (snd r)); ge = snd (snd (snd r));
           maxDepth = (if depth > maxDepth then depth else maxDepth)
       in if mcDone (nd tree) then Some (tree, maxDepth)
          else searchLoop p timeUp g (n + 1) (rnd ge) tree maxDepth))"

record mcts_move_stats =
  msRow :: int
  msCol :: int
  msCellType :: cell_type
  msU :: uct
  msQ :: real
  msIterations :: int

record mcts_stats =
  sIterations :: int
  sMaxDepth :: int
  sTreeSize :: int
  sFullyExplored :: bool
  sMoves :: "mcts_move_stats list"

definition moveStats :: "mcts \<Rightarrow> mc_node \<Rightarrow> mc_node \<Rightarrow> mcts_move_stats" where
  "moveStats p tree c = \<lparr>msRow = mcR (nd c), msCol = mcC (nd c), msCellType = mcCellType (nd c),
     msU = mcU (nd c) (mcCount (nd tree)) (UctFactor p), msQ = mcQ (nd c), msIterations = \<lfloor>mcCount (nd c)\<rfloor>\<rparr>"

text \<open>The child with the best \<open>Q\<close>, the first one on a tie; none without children.\<close>

definition bestChild :: "mc_node list \<Rightarrow> mc_node option" where
  "bestChild cs = fold (\<lambda>c best. case best of None \<Rightarrow> Some c
     | Some b \<Rightarrow> if mcQ (nd c) > mcQ (nd b) then Some c else best) cs None"

definition startNode :: "flagz \<Rightarrow> mc_node" where
  "startNode g = leaf (Idx 0 0) (Turn (Brd g)) CellNormal"

definition SuggestMove :: "mcts \<Rightarrow> (nat \<Rightarrow> bool) \<Rightarrow> rng \<Rightarrow> flagz \<Rightarrow> (game_engine_move \<times> mcts_stats) option" where
  "SuggestMove p timeUp s g = do {
     (tree, maxDepth) \<leftarrow> searchLoop p timeUp g 0 s (startNode g) 0;
     let stats = \<lparr>sIterations = \<lfloor>mcCount (nd tree)\<rfloor>, sMaxDepth = maxDepth, sTreeSize = treeSize tree,
                  sFullyExplored = mcDone (nd tree), sMoves = map (moveStats p tree) (children tree)\<rparr>;
     best \<leftarrow> bestChild (children tree);
     Some (nodeMove (Brd g) (nd best), stats)
   }"

fun MaxQ :: "real \<Rightarrow> mcts_move_stats list \<Rightarrow> real" where
  "MaxQ r [] = r"
| "MaxQ r (c # cs) = MaxQ (if msQ c > r then msQ c else r) cs"

text \<open>\<open>MinQ\<close>, called with \<open>Inf\<close>.\<close>

fun MinQ :: "uct \<Rightarrow> mcts_move_stats list \<Rightarrow> uct" where
  "MinQ r [] = r"
| "MinQ r (c # cs) = MinQ (if uct_less (Fin (msQ c)) r then Fin (msQ c) else r) cs"

end
