(* ===== verification/MctsMoves.thy ===== *)
theory MctsMoves
  imports Mcts
begin

text \<open>
  What \<open>nextMoves\<close> collects: every cell the player can take with a normal piece, and a sample of
  the free cells for a flag, without repetition and of a size that does not depend on the random
  numbers. In a running game there is always at least one move.
\<close>

section \<open>The two lists of one pass over the board\<close>

text \<open>\<open>sampled p b hasFlag ys st xs\<close>: after the cells \<open>ys\<close> the flag moves of \<open>st\<close> are those on \<open>xs\<close>.\<close>

definition sampled :: "mcts \<Rightarrow> board \<Rightarrow> bool \<Rightarrow> idx list \<Rightarrow> collect \<Rightarrow> idx list \<Rightarrow> bool" where
  "sampled p b hasFlag ys st xs \<longleftrightarrow>
     (if hasFlag
      then 0 \<le> cN st \<and> length (cFlags st) = nat (MaxFlagPositions p) \<and>
        take (min (nat (MaxFlagPositions p)) (nat (cN st))) (cFlags st) = map (\<lambda>x. Some (leaf x (Turn b) CellFlag)) xs \<and>
        distinct xs \<and> set xs \<subseteq> set (filter (\<lambda>x. free (fld b x)) ys) \<and>
        length xs = min (nat (MaxFlagPositions p)) (length (filter (\<lambda>x. free (fld b x)) ys)) \<and>
        length xs = min (nat (MaxFlagPositions p)) (nat (cN st))
      else cN st = 0 \<and> xs = [])"

definition normals :: "board \<Rightarrow> idx list \<Rightarrow> mc_node list" where
  "normals b ys = map (\<lambda>x. leaf x (Turn b) CellNormal) (filter (\<lambda>x. avail (Turn b - 1) (fld b x)) ys)"

lemma Float64_less_1: "fst (Float64 s) < 1"
proof -
  have "(of_nat (shd s mod 2 ^ 53) :: rat) < of_nat (2 ^ 53)" unfolding of_nat_less_iff by simp
  then show ?thesis by (simp add: Float64_def)
qed

text \<open>The reservoir is filled before anything in it is replaced.\<close>

lemma Float64_fills:
  assumes "0 \<le> n" "n < m"
  shows "fst (Float64 s) < of_int m / (of_int n + 1)"
proof -
  have "(1::rat) \<le> of_int m / (of_int n + 1)" using assms by (simp add: pos_le_divide_eq)
  with Float64_less_1[of s] show ?thesis by (rule less_le_trans)
qed

lemma addFlagMove_ok:
  assumes max: "1 \<le> MaxFlagPositions p" and c: "sampled p b True ys st xs"
    and y: "y \<notin> set ys" "free (fld b y)"
  shows "\<exists>st' xs'. addFlagMove p b y st = Some st' \<and> cMoves st' = cMoves st \<and>
    sampled p b True (ys @ [y]) st' xs'"
proof -
  let ?m = "MaxFlagPositions p" and ?l = "\<lambda>x. Some (leaf x (Turn b) CellFlag)"
  obtain u s where u: "Float64 (cRnd st) = (u, s)" by (cases "Float64 (cRnd st)")
  have n: "0 \<le> cN st" and len: "length (cFlags st) = nat ?m"
    and tk: "take (min (nat ?m) (nat (cN st))) (cFlags st) = map ?l xs" and d: "distinct xs"
    and sub: "set xs \<subseteq> set ys" "\<forall>x \<in> set xs. free (fld b x)"
    and l1: "length xs = min (nat ?m) (length (filter (\<lambda>x. free (fld b x)) ys))"
    and l2: "length xs = min (nat ?m) (nat (cN st))"
    using c by (auto simp: sampled_def)
  show ?thesis
  proof (cases "cN st < ?m")
    case True
    let ?st = "st\<lparr>cFlags := (cFlags st)[nat (cN st) := ?l y], cN := cN st + 1, cRnd := s\<rparr>"
    have "addFlagMove p b y st = Some ?st"
      using Float64_fills[OF n True, of "cRnd st"] True n len u max
      by (simp add: addFlagMove_def go_simps)
    moreover have "take (min (nat ?m) (nat (cN st + 1))) ((cFlags st)[nat (cN st) := ?l y]) = map ?l (xs @ [y])"
    proof -
      have e: "min (nat ?m) (nat (cN st + 1)) = Suc (nat (cN st))" "min (nat ?m) (nat (cN st)) = nat (cN st)"
        using True n by auto
      have "nat (cN st) < length (cFlags st)" using True n len by auto
      with tk show ?thesis unfolding e by (simp add: take_Suc_conv_app_nth)
    qed
    ultimately show ?thesis using n len d sub y l1 l2 True
      by (intro exI[of _ ?st] exI[of _ "xs @ [y]"]) (auto simp: sampled_def)
  next
    case False
    then have full: "min (nat ?m) (nat (cN st)) = nat ?m" by auto
    have tkf: "cFlags st = map ?l xs" using tk len unfolding full by simp
    show ?thesis
    proof (cases "u < of_int ?m / (of_int (cN st) + 1)")
      case False
      with u have "addFlagMove p b y st = Some (st\<lparr>cRnd := s\<rparr>)" by (simp add: addFlagMove_def)
      then show ?thesis using n len tk d sub y l1 l2 full
        by (intro exI[of _ "st\<lparr>cRnd := s\<rparr>"] exI[of _ xs]) (auto simp: sampled_def)
    next
      case acc: True
      define k where "k = int (shd s) mod ?m"
      have k: "0 \<le> k" "k < ?m" using max by (simp_all add: k_def)
      let ?st = "st\<lparr>cFlags := (cFlags st)[nat k := ?l y], cN := cN st + 1, cRnd := stl s\<rparr>"
      have "addFlagMove p b y st = Some ?st"
        using acc False u max k len by (simp add: addFlagMove_def Intn_in k_def go_simps)
      moreover have "nat k < length xs" using k len tkf by simp
      moreover have "set (xs[nat k := y]) \<subseteq> insert y (set xs)" by (rule set_update_subset_insert)
      moreover have "(cFlags st)[nat k := ?l y] = map ?l (xs[nat k := y])" by (simp add: tkf map_update)
      moreover have "distinct (xs[nat k := y])"
        using d y sub by (intro distinct_list_update) auto
      moreover have "min (nat ?m) (nat (cN st + 1)) = nat ?m" using full by auto
      ultimately show ?thesis using n len d sub y l1 l2 full tkf
        by (intro exI[of _ ?st] exI[of _ "xs[nat k := y]"]) (auto simp: sampled_def)
    qed
  qed
qed

lemma collectMove_ok:
  assumes max: "1 \<le> MaxFlagPositions p" and wf: "wf_board b" and y: "valid b y" "y \<notin> set ys" and t: "pidx (Turn b - 1)"
    and st: "sampled p b hasFlag ys st xs" "cMoves st = normals b ys"
  shows "\<exists>st' xs'. collectMove p b hasFlag y st = Some st' \<and> cMoves st' = normals b (ys @ [y]) \<and>
    sampled p b hasFlag (ys @ [y]) st' xs'"
proof (cases "occupied (fld b y)")
  case True
  then have "collectMove p b hasFlag y st = Some st" using wf y by (simp add: collectMove_def go_simps)
  with True st show ?thesis
    by (intro exI[of _ st] exI[of _ xs]) (auto simp: normals_def sampled_def avail_def)
next
  case False
  let ?st = "if avail (Turn b - 1) (fld b y) then st\<lparr>cMoves := cMoves st @ [leaf y (Turn b) CellNormal]\<rparr> else st"
  have 1: "collectMove p b hasFlag y st = (if hasFlag then addFlagMove p b y ?st else Some ?st)"
    using wf y t False by (simp add: collectMove_def isAvail_def avail_def go_simps)
  have 2: "cMoves ?st = normals b (ys @ [y])" using st(2) by (simp add: normals_def)
  have 3: "sampled p b hasFlag ys ?st xs" using st(1) by (auto simp: sampled_def)
  show ?thesis
  proof (cases hasFlag)
    case True
    with addFlagMove_ok[OF max _ y(2), of b ?st xs] 1 2 3 False show ?thesis by auto
  next
    case False
    with 1 2 3 show ?thesis by (auto simp: sampled_def)
  qed
qed

section \<open>The moves to choose from\<close>

definition freeCells :: "board \<Rightarrow> idx list" where
  "freeCells b = filter (\<lambda>x. free (fld b x)) (allIdx b)"

definition hasFlag :: "board \<Rightarrow> bool" where
  "hasFlag b \<longleftrightarrow> NumPieces (Resources b ! nat (Turn b - 1)) CellFlag > 0"

definition flagLeaves :: "board \<Rightarrow> idx list \<Rightarrow> mc_node list" where
  "flagLeaves b xs = map (\<lambda>x. leaf x (Turn b) CellFlag) xs"

lemma nextMoves_eq:
  assumes inv: "flagz_inv g" and max: "1 \<le> MaxFlagPositions p"
  shows "\<exists>s' xs. nextMoves p (Brd g) s =
      Some ((if FlagsFirst p \<and> xs \<noteq> [] then [] else normals (Brd g) (allIdx (Brd g))) @ flagLeaves (Brd g) xs, s') \<and>
    distinct xs \<and> set xs \<subseteq> set (freeCells (Brd g)) \<and>
    length xs = (if hasFlag (Brd g) then min (nat (MaxFlagPositions p)) (length (freeCells (Brd g))) else 0)"
proof -
  let ?b = "Brd g" and ?m = "MaxFlagPositions p"
  have wf: "wf_board ?b" and t: "pidx (Turn ?b - 1)" and ps: "length (Resources ?b) = 2"
    using inv core_wf pos_core inv_pos pos_turn pos_pieces pieces_okD(1) by blast+
  let ?fl = "if hasFlag ?b then replicate (nat ?m) None else []"
  let ?st0 = "\<lparr>cMoves = [], cFlags = ?fl, cN = 0, cRnd = s\<rparr>"
  have "\<exists>st. foldM (collectMove p ?b (hasFlag ?b)) (allIdx ?b) ?st0 = Some st \<and>
      cMoves st = normals ?b (allIdx ?b) \<and> (\<exists>xs. sampled p ?b (hasFlag ?b) (allIdx ?b) st xs)"
  proof (rule foldM_prefix_rule)
    show "cMoves ?st0 = normals ?b [] \<and> (\<exists>xs. sampled p ?b (hasFlag ?b) [] ?st0 xs)"
      by (simp add: normals_def sampled_def)
  next
    fix ys y zs st
    assume split: "allIdx ?b = ys @ y # zs"
      and st: "cMoves st = normals ?b ys \<and> (\<exists>xs. sampled p ?b (hasFlag ?b) ys st xs)"
    have "valid ?b y" "y \<notin> set ys" using split distinct_allIdx[OF wf] by (auto simp: valid_iff_allIdx)
    with collectMove_ok[OF max wf _ _ t] st
    show "\<exists>st'. collectMove p ?b (hasFlag ?b) y st = Some st' \<and> cMoves st' = normals ?b (ys @ [y]) \<and>
        (\<exists>xs. sampled p ?b (hasFlag ?b) (ys @ [y]) st' xs)"
      by blast
  qed
  then obtain st xs where st: "foldM (collectMove p ?b (hasFlag ?b)) (allIdx ?b) ?st0 = Some st"
      "cMoves st = normals ?b (allIdx ?b)" "sampled p ?b (hasFlag ?b) (allIdx ?b) st xs" by blast
  let ?n = "if cN st > ?m then ?m else cN st"
  have xs: "nat ?n = length xs" "0 \<le> ?n" using st(3) max by (auto simp: sampled_def split: if_splits)
  have "those (take (nat ?n) (cFlags st)) = Some (flagLeaves ?b xs)" if "?n \<noteq> 0"
  proof -
    have hf: "hasFlag ?b" using that st(3) max by (auto simp: sampled_def split: if_splits)
    with st(3) have "take (min (nat ?m) (nat (cN st))) (cFlags st) = map (\<lambda>x. Some (leaf x (Turn ?b) CellFlag)) xs"
      by (auto simp: sampled_def)
    moreover have "min (nat ?m) (nat (cN st)) = nat ?n" by auto
    ultimately show ?thesis by (simp add: those_map_Some flagLeaves_def)
  qed
  moreover have "?n = 0 \<longleftrightarrow> xs = []" using xs by auto
  moreover have "nextMoves p ?b s = (if ?n = 0 then Some (cMoves st, cRnd st)
      else Option.bind (those (take (nat ?n) (cFlags st))) (\<lambda>fl. Some (if FlagsFirst p then fl else cMoves st @ fl, cRnd st)))"
    using st(1) max ps t xs(2) by (auto simp: nextMoves_def hasFlag_def Let_def go_simps)
  ultimately have "nextMoves p ?b s =
      Some ((if FlagsFirst p \<and> xs \<noteq> [] then [] else normals ?b (allIdx ?b)) @ flagLeaves ?b xs, cRnd st)"
    using st(2) by (cases "xs = []") (simp_all add: flagLeaves_def)
  moreover have "distinct xs \<and> set xs \<subseteq> set (freeCells ?b) \<and>
      length xs = (if hasFlag ?b then min (nat ?m) (length (freeCells ?b)) else 0)"
    using st(3) by (auto simp: sampled_def freeCells_def)
  ultimately show ?thesis by blast
qed

lemma nodeMove_leaf [simp]: "nodeMove b (nd (leaf x (Turn b) ct)) = moveAt b ct x"
  by (simp add: nodeMove_def leaf_def moveAt_def)

definition fresh :: "mc_node \<Rightarrow> bool" where
  "fresh c \<longleftrightarrow> children c = [] \<and> mcWins (nd c) = 0 \<and> mcCount (nd c) = 0 \<and> \<not> mcDone (nd c)"

lemma fresh_leaf [simp]: "fresh (leaf x t ct)"
  by (simp add: fresh_def leaf_def)

lemma nextMoves_legal:
  assumes inv: "flagz_inv g" "\<not> over g" and max: "1 \<le> MaxFlagPositions p"
  obtains cs s' where "nextMoves p (Brd g) s = Some (cs, s')" "cs \<noteq> []"
    "\<And>c. c \<in> set cs \<Longrightarrow> fresh c \<and> legal g (nodeMove (Brd g) (nd c))"
proof -
  let ?b = "Brd g"
  obtain s' xs where r: "nextMoves p ?b s =
      Some ((if FlagsFirst p \<and> xs \<noteq> [] then [] else normals ?b (allIdx ?b)) @ flagLeaves ?b xs, s')"
    and xs: "set xs \<subseteq> set (freeCells ?b)"
      "length xs = (if hasFlag ?b then min (nat (MaxFlagPositions p)) (length (freeCells ?b)) else 0)"
    using nextMoves_eq[OF inv(1) max, of s] by blast
  let ?cs = "(if FlagsFirst p \<and> xs \<noteq> [] then [] else normals ?b (allIdx ?b)) @ flagLeaves ?b xs"
  have t: "pidx (Turn ?b - 1)" by (rule pos_turn[OF inv_pos[OF inv(1)]])
  have flag: "legal g (moveAt ?b CellFlag x)" if "x \<in> set xs" for x
    using that xs by (auto simp: legal_def moveAt_def freeCells_def valid_iff_allIdx flags_of_def hasFlag_def split: if_splits)
  have normal: "legal g (moveAt ?b CellNormal x)" if "valid ?b x" "avail (Turn ?b - 1) (fld ?b x)" for x
    using that by (simp add: legal_def moveAt_def avail_def)
  have "able g (Turn ?b - 1)" using inv by (simp add: flagz_inv_def)
  then have "(\<exists>x. valid ?b x \<and> avail (Turn ?b - 1) (fld ?b x)) \<or> hasFlag ?b \<and> freeCells ?b \<noteq> []"
    unfolding able_def cnt_moves[OF inv(1)] cnt_pos_iff freeCells_def
    by (auto simp: valid_iff_allIdx flags_of_def hasFlag_def filter_empty_conv)
  then have "?cs \<noteq> []"
    using xs(2) max by (cases "xs = []") (auto simp: flagLeaves_def normals_def filter_empty_conv valid_iff_allIdx min_def split: if_splits)
  moreover have "fresh c \<and> legal g (nodeMove ?b (nd c))" if "c \<in> set ?cs" for c
    using that flag normal
    by (auto simp: flagLeaves_def normals_def valid_iff_allIdx split: if_splits)
  ultimately show ?thesis using that r by blast
qed

end
