(* ===== verification/MctsTree.thy ===== *)
theory MctsTree
  imports MctsMoves
begin

text \<open>
  Correctness of the tree search. \<open>tree_ok g node\<close> ties a node to the position \<open>g\<close> it stands for:
  its statistics are in range, \<open>mcLive\<close> counts the children that are not done, every child is a
  move the rules allow in \<open>g\<close> and stands for the position after it. \<open>run_ok\<close> is the
  total-correctness statement for one iteration, \<open>searchLoop_ok\<close> for the whole search.
\<close>

section \<open>Random games end\<close>

context single_player_engine
begin

lemma playLoop_returns: "inv e \<Longrightarrow> \<exists>e'. playLoop is_done random_move make_move e = Some e' \<and> inv e' \<and> is_done e'"
proof (induction "rest e" arbitrary: e rule: less_induct)
  case less
  show ?case
  proof (cases "is_done e")
    case True
    then show ?thesis using less.prems by (subst playLoop.simps) simp
  next
    case False
    from random_legal[OF less.prems False] obtain m e1 e2 where
      "random_move e = Some (Inr m, e1)" "make_move e1 m = Some (e2, True)" "inv e2" "rest e2 < rest e" by blast
    with less.hyps[of e2] False show ?thesis by (subst playLoop.simps) simp
  qed
qed

end

section \<open>Moves do not look at the random numbers\<close>

lemma foldM_commute:
  assumes "\<And>x t. x \<in> set xs \<Longrightarrow> f x (h t) = map_option h (f x t)"
  shows "foldM f xs (h s) = map_option h (foldM f xs s)"
  using assms
proof (induction xs arbitrary: s)
  case (Cons x xs)
  then show ?case by (cases "f x s") simp_all
qed simp

lemma rnd_ops:
  "addMoves (g\<lparr>rnd := s\<rparr>) p d = map_option (\<lambda>g. g\<lparr>rnd := s\<rparr>) (addMoves g p d)"
  "addScore (g\<lparr>rnd := s\<rparr>) p d = map_option (\<lambda>g. g\<lparr>rnd := s\<rparr>) (addScore g p d)"
  "putField (g\<lparr>rnd := s\<rparr>) x f = map_option (\<lambda>g. g\<lparr>rnd := s\<rparr>) (putField g x f)"
  by (simp_all add: addMoves_def addScore_def putField_def map_option_case split: Option.bind_splits option.splits)

lemma bind_map_option: "Option.bind (map_option h a) k = Option.bind a (\<lambda>x. k (h x))"
  by (cases a) simp_all

lemma map_option_bind: "map_option h (Option.bind a k) = Option.bind a (\<lambda>x. map_option h (k x))"
  by (cases a) simp_all

lemma if_map_option: "(if c then map_option h a else Some (h g)) = map_option h (if c then a else Some g)"
  by simp

lemmas push_rnd = rnd_ops bind_map_option map_option_bind if_map_option if_distrib[of "map_option _"]

lemma updateNeighbor_rnd:
  assumes "\<And>g x. rc (g\<lparr>rnd := s\<rparr>) x = map_option (\<lambda>g. g\<lparr>rnd := s\<rparr>) (rc g x)"
  shows "updateNeighbor rc x p y (g\<lparr>rnd := s\<rparr>) = map_option (\<lambda>g. g\<lparr>rnd := s\<rparr>) (updateNeighbor rc x p y g)"
  unfolding updateNeighbor_def
  by (auto simp: rnd_ops bind_map_option map_option_bind assms intro!: Option.bind_cong)

lemma updateNeighborCells_rnd:
  "updateNeighborCells n (g\<lparr>rnd := s\<rparr>) x = map_option (\<lambda>g. g\<lparr>rnd := s\<rparr>) (updateNeighborCells n g x)"
proof (induction n arbitrary: g x)
  case (Suc n)
  have "foldM (updateNeighbor (updateNeighborCells n) x p) ys (g\<lparr>rnd := s\<rparr>) =
      map_option (\<lambda>g. g\<lparr>rnd := s\<rparr>) (foldM (updateNeighbor (updateNeighborCells n) x p) ys g)" for p ys g
    by (rule foldM_commute) (rule updateNeighbor_rnd, rule Suc.IH)
  then show ?case by (auto simp: map_option_bind intro!: Option.bind_cong)
qed simp

lemma bind_commute:
  "a' = map_option h a \<Longrightarrow> (\<And>g. k' (h g) = map_option h (k g)) \<Longrightarrow>
   Option.bind a' k' = map_option h (Option.bind a k)"
  by (cases a) simp_all

lemma bind_same:
  "(\<And>x. k' x = map_option h (k x)) \<Longrightarrow> Option.bind a k' = map_option h (Option.bind a k)"
  by (cases a) simp_all

lemma place_rnd:
  "placeNormal (g\<lparr>rnd := s\<rparr>) x f v = map_option (\<lambda>g. g\<lparr>rnd := s\<rparr>) (placeNormal g x f v)"
  "placeFlag (g\<lparr>rnd := s\<rparr>) x f = map_option (\<lambda>g. g\<lparr>rnd := s\<rparr>) (placeFlag g x f)"
proof -
  have dep: "depthBound (g\<lparr>rnd := s\<rparr>) = depthBound g" for g by (simp add: depthBound_def)
  have fc: "g\<lparr>rnd := s, FreeCells := n\<rparr> = g\<lparr>FreeCells := n, rnd := s\<rparr>"
    "g\<lparr>rnd := s, Brd := b, FreeCells := n\<rparr> = g\<lparr>Brd := b, FreeCells := n, rnd := s\<rparr>" for g n b
    by simp_all
  have opt: "(if c then addMoves (g\<lparr>rnd := s\<rparr>) p d else Some (g\<lparr>rnd := s\<rparr>)) =
      map_option (\<lambda>g. g\<lparr>rnd := s\<rparr>) (if c then addMoves g p d else Some g)" for c g p d
    by (simp add: rnd_ops)
  have upd: "updateNeighborCells (depthBound (g\<lparr>rnd := s\<rparr>)) (g\<lparr>rnd := s\<rparr>) x =
      map_option (\<lambda>g. g\<lparr>rnd := s\<rparr>) (updateNeighborCells (depthBound g) g x)" for g x
    by (simp add: dep updateNeighborCells_rnd)
  have b: "Brd (g\<lparr>rnd := s\<rparr>) = Brd g" "FreeCells (g\<lparr>rnd := s\<rparr>) = FreeCells g" for g by simp_all
  show "placeNormal (g\<lparr>rnd := s\<rparr>) x f v = map_option (\<lambda>g. g\<lparr>rnd := s\<rparr>) (placeNormal g x f v)"
    unfolding placeNormal_def Let_def b
    by (rule bind_commute bind_same opt upd | (simp add: rnd_ops fc; fail))+
  show "placeFlag (g\<lparr>rnd := s\<rparr>) x f = map_option (\<lambda>g. g\<lparr>rnd := s\<rparr>) (placeFlag g x f)"
    unfolding placeFlag_def Let_def b
    apply (rule bind_commute, simp add: rnd_ops)
    unfolding b
    apply (rule bind_same)
    apply (rule bind_same)
    unfolding fc
    apply (rule bind_commute, rule opt)
    apply (rule bind_same)
    apply (rule bind_commute, rule opt)
    apply (rule upd)
    done
qed

lemma endMove_rnd:
  "endMove (g\<lparr>rnd := s\<rparr>) = map_option (map_prod (\<lambda>g. g\<lparr>rnd := s\<rparr>) id) (endMove g)"
  by (auto simp: endMove_def recomputeState_def canMove_def Let_def bind_map_option map_option_bind intro!: Option.bind_cong)

lemma MakeMove_rnd:
  "Flagz_MakeMove (g\<lparr>rnd := s\<rparr>) m = map_option (map_prod (\<lambda>g. g\<lparr>rnd := s\<rparr>) id) (Flagz_MakeMove g m)"
  by (auto simp: Flagz_MakeMove_def Let_def place_rnd bind_map_option map_option_bind endMove_rnd intro!: Option.bind_cong)

section \<open>The invariant of the tree\<close>

text \<open>The position after the move of a node, if the engine accepts it.\<close>

definition succPos :: "flagz \<Rightarrow> mc_data \<Rightarrow> flagz option" where
  "succPos g d = (case Flagz_MakeMove g (nodeMove (Brd g) d) of Some (g', True) \<Rightarrow> Some g' | _ \<Rightarrow> None)"

text \<open>
  \<open>stat_ok\<close>: each of the \<open>mcCount\<close> games adds at most 1 to \<open>mcWins\<close>. \<open>tree_ok\<close>: a node is expanded only
  if its position is not over; \<open>mcLive\<close> counts the children that are not done; a node is done
  when all its children are, or when its position is over; the games through a node are those
  through its children, and the random game it was evaluated with, if any.
\<close>

definition stat_ok :: "mc_data \<Rightarrow> bool" where
  "stat_ok d \<longleftrightarrow> 0 \<le> mcWins d \<and> mcWins d \<le> mcCount d \<and> mcCount d \<in> \<int>"

abbreviation gamesOf :: "mc_node list \<Rightarrow> real" where
  "gamesOf cs \<equiv> sum_list (map (\<lambda>c. mcCount (nd c)) cs)"

abbreviation liveOf :: "mc_node list \<Rightarrow> int" where
  "liveOf cs \<equiv> cnt (\<lambda>c. \<not> mcDone (nd c)) cs"

fun tree_ok :: "flagz \<Rightarrow> mc_node \<Rightarrow> bool" where
  "tree_ok g (MCNode d cs) \<longleftrightarrow> stat_ok d \<and>
     (if cs = [] then (if mcDone d then over g else mcCount d \<le> 1)
      else \<not> over g \<and> 1 \<le> mcCount d \<and> (mcCount d = gamesOf cs \<or> mcCount d = gamesOf cs + 1) \<and>
        mcLive d = liveOf cs \<and> (mcDone d \<longleftrightarrow> mcLive d = 0)) \<and>
     (\<forall>c \<in> set cs. case succPos g (nd c) of None \<Rightarrow> False | Some g' \<Rightarrow> tree_ok g' c)"

lemma succPos_legal: "flagz_inv g \<Longrightarrow> legal g (nodeMove (Brd g) d) \<Longrightarrow>
    \<exists>g'. Flagz_MakeMove g (nodeMove (Brd g) d) = Some (g', True) \<and> succPos g d = Some g' \<and> flagz_inv g' \<and>
      Flagz_rest g' < Flagz_rest g"
  using MakeMove_inv[of g "nodeMove (Brd g) d"] moved_rest[OF inv_pos, of g "nodeMove (Brd g) d"]
  by (auto simp: succPos_def)

lemma succPos_SomeD: "flagz_inv g \<Longrightarrow> succPos g d = Some g' \<Longrightarrow>
    Flagz_MakeMove g (nodeMove (Brd g) d) = Some (g', True) \<and> legal g (nodeMove (Brd g) d) \<and> flagz_inv g' \<and>
    Flagz_rest g' < Flagz_rest g"
  using MakeMove_inv[of g "nodeMove (Brd g) d"] moved_rest[OF inv_pos, of g "nodeMove (Brd g) d" g']
  by (auto simp: succPos_def split: option.splits prod.splits bool.splits)

lemma succPos_rnd: "succPos (g\<lparr>rnd := s\<rparr>) d = map_option (\<lambda>g. g\<lparr>rnd := s\<rparr>) (succPos g d)"
  by (auto simp: succPos_def MakeMove_rnd split: option.splits prod.splits bool.splits)

lemma tree_ok_rnd [simp]: "tree_ok (g\<lparr>rnd := s\<rparr>) n = tree_ok g n"
proof (induction g n rule: tree_ok.induct)
  case (1 g d cs)
  have "(case succPos (g\<lparr>rnd := s\<rparr>) (nd c) of None \<Rightarrow> False | Some g' \<Rightarrow> tree_ok g' c) =
      (case succPos g (nd c) of None \<Rightarrow> False | Some g' \<Rightarrow> tree_ok g' c)" if "c \<in> set cs" for c
    using 1[OF that] by (auto simp: succPos_rnd split: option.splits)
  then show ?case by simp
qed

lemma nd_MCNode: "n = MCNode (nd n) (children n)"
  by simp

lemma tree_okD:
  assumes "tree_ok g n"
  shows tree_stat: "stat_ok (nd n)"
    and tree_leaf: "children n = [] \<Longrightarrow> if mcDone (nd n) then over g else mcCount (nd n) \<le> 1"
    and tree_node: "children n \<noteq> [] \<Longrightarrow> \<not> over g \<and> 1 \<le> mcCount (nd n) \<and>
        (mcCount (nd n) = gamesOf (children n) \<or> mcCount (nd n) = gamesOf (children n) + 1) \<and>
        mcLive (nd n) = liveOf (children n) \<and> (mcDone (nd n) \<longleftrightarrow> mcLive (nd n) = 0)"
    and tree_child: "c \<in> set (children n) \<Longrightarrow> \<exists>g'. succPos g (nd c) = Some g' \<and> tree_ok g' c"
  using assms by (cases n; force split: option.splits)+

lemma tree_okI:
  assumes "stat_ok d" "cs \<noteq> []" "\<not> over g" "1 \<le> mcCount d"
    "mcCount d = gamesOf cs \<or> mcCount d = gamesOf cs + 1" "mcLive d = liveOf cs" "mcDone d \<longleftrightarrow> mcLive d = 0"
    "\<And>c. c \<in> set cs \<Longrightarrow> \<exists>g'. succPos g (nd c) = Some g' \<and> tree_ok g' c"
  shows "tree_ok g (MCNode d cs)"
  using assms by force

lemma leaf_tree_ok: "fresh n \<Longrightarrow> tree_ok g n"
  by (cases n) (simp add: fresh_def stat_ok_def)

declare tree_ok.simps [simp del]

text \<open>Which move a node stands for does not change.\<close>

definition same_move :: "mc_data \<Rightarrow> mc_data \<Rightarrow> bool" where
  "same_move d d' \<longleftrightarrow> mcR d' = mcR d \<and> mcC d' = mcC d \<and> mcCellType d' = mcCellType d \<and> mcTurn d' = mcTurn d"

lemma same_move_succPos: "same_move d d' \<Longrightarrow> succPos g d' = succPos g d"
  by (simp add: same_move_def succPos_def nodeMove_def)

lemma addResult_sel [simp]:
  "mcR (addResult w d) = mcR d" "mcC (addResult w d) = mcC d" "mcCellType (addResult w d) = mcCellType d"
  "mcTurn (addResult w d) = mcTurn d" "mcDone (addResult w d) = mcDone d" "mcLive (addResult w d) = mcLive d"
  "mcCount (addResult w d) = mcCount d + 1"
  by (simp_all add: addResult_def Let_def)

lemma addResult_stat: "stat_ok d \<Longrightarrow> stat_ok (addResult w d)"
  by (simp add: stat_ok_def addResult_def Let_def)

section \<open>One iteration\<close>

lemma playRandomGame_ok:
  assumes "flagz_inv g" "legal g (nodeMove (Brd g) d)"
  shows "\<exists>w g'. playRandomGame g d = Some (w, g')"
proof -
  obtain g1 where g1: "Flagz_MakeMove g (nodeMove (Brd g) d) = Some (g1, True)" "flagz_inv g1"
    using succPos_legal[OF assms] by blast
  from flagz_engine.playLoop_returns[OF g1(2)] g1(1) show ?thesis by (auto simp: playRandomGame_def)
qed

text \<open>Every value \<open>mcU\<close> of a child of an evaluated node is above the initial \<open>-1\<close>.\<close>

lemma mcU_above:
  assumes "stat_ok d" "1 \<le> pc" "0 \<le> f"
  shows "uct_less (Fin (-1)) (mcU d pc f)"
proof (cases "mcCount d = 0")
  case False
  have "0 \<le> mcWins d / mcCount d" "0 \<le> f * sqrt (ln pc / mcCount d)"
    using assms by (auto simp: stat_ok_def)
  with False show ?thesis by (simp add: mcU_def)
qed (simp add: mcU_def)

lemma nextByUtc_result:
  "nextByUtc p pc i ls best mu = Some k \<Longrightarrow> best = Some k \<or> i \<le> k \<and> k < i + length ls \<and> \<not> mcDone (nd (ls ! (k - i)))"
proof (induction p pc i ls best mu rule: nextByUtc.induct)
  case (2 p pc i l ls best mu)
  have "(\<not> mcDone (nd l) \<and> k = i) \<or> best = Some k \<or> Suc i \<le> k \<and> k < Suc i + length ls \<and> \<not> mcDone (nd (ls ! (k - Suc i)))"
    using 2 by (auto simp: Let_def split: if_splits)
  then show ?case by (auto simp: nth_Cons' Suc_diff_Suc)
qed simp

lemma nextByUtc_found:
  "best \<noteq> None \<or> (\<exists>l \<in> set ls. \<not> mcDone (nd l) \<and> uct_less mu (mcU (nd l) pc (UctFactor p))) \<Longrightarrow>
    nextByUtc p pc i ls best mu \<noteq> None"
proof (induction ls arbitrary: i best mu)
  case (Cons l ls)
  consider "mcDone (nd l)" | "\<not> mcDone (nd l)" "uct_less mu (mcU (nd l) pc (UctFactor p))"
    | "\<not> mcDone (nd l)" "\<not> uct_less mu (mcU (nd l) pc (UctFactor p))" by blast
  then show ?case
  proof cases
    case 2
    then show ?thesis by (simp add: Let_def) (rule Cons.IH[THEN iffD1[OF not_None_eq]], simp)
  qed (use Cons in \<open>simp_all add: Let_def\<close>)
qed simp

lemma getNextByUtc_ok:
  assumes t: "tree_ok g n" "children n \<noteq> []" "\<not> mcDone (nd n)" and f: "0 \<le> UctFactor p"
  obtains i where "getNextByUtc p n = Some i" "i < length (children n)" "\<not> mcDone (nd (children n ! i))"
proof -
  have n: "mcLive (nd n) \<noteq> 0" "mcLive (nd n) = liveOf (children n)" "1 \<le> mcCount (nd n)"
    using tree_node[OF t(1,2)] t(3) by auto
  then have "0 < liveOf (children n)" using cnt_nonneg[of _ "children n"] by (simp add: order_less_le)
  then obtain c where c: "c \<in> set (children n)" "\<not> mcDone (nd c)" by (auto simp: cnt_pos_iff)
  obtain g' where "tree_ok g' c" using tree_child[OF t(1) c(1)] by blast
  with mcU_above[OF tree_stat n(3) f] c have "getNextByUtc p n \<noteq> None"
    unfolding getNextByUtc_def by (intro nextByUtc_found) auto
  then obtain i where i: "getNextByUtc p n = Some i" by auto
  then have "i < length (children n)" "\<not> mcDone (nd (children n ! i))"
    using nextByUtc_result[of p _ 0 "children n" None _ i] by (auto simp: getNextByUtc_def)
  with i that show ?thesis by blast
qed

lemma gamesOf_update: "i < length cs \<Longrightarrow> gamesOf (cs[i := c]) = gamesOf cs - mcCount (nd (cs ! i)) + mcCount (nd c)"
proof (induction cs arbitrary: i)
  case (Cons x xs)
  then show ?case by (cases i) auto
qed simp

lemma gamesOf_zero: "(\<And>c. c \<in> set cs \<Longrightarrow> fresh c) \<Longrightarrow> gamesOf cs = 0"
  by (induction cs) (simp_all add: fresh_def)

lemma liveOf_all: "(\<And>c. c \<in> set cs \<Longrightarrow> \<not> mcDone (nd c)) \<Longrightarrow> liveOf cs = int (length cs)"
  by (induction cs) (simp_all add: cnt_Cons)

text \<open>A node whose children are \<open>cs\<close> but for child \<open>i\<close>, which has been replaced.\<close>

lemma child_update:
  assumes "\<forall>c \<in> set cs. \<exists>g'. succPos g (nd c) = Some g' \<and> tree_ok g' c"
    and "succPos g (nd c') = Some g'" "tree_ok g' c'" "c \<in> set (cs[i := c'])"
  shows "\<exists>g'. succPos g (nd c) = Some g' \<and> tree_ok g' c"
  using assms set_update_subset_insert[of cs i c'] by blast

text \<open>What one iteration, started with paths of length \<open>len\<close>, does to a node.\<close>

definition improved :: "flagz \<Rightarrow> mc_node \<Rightarrow> mc_node \<Rightarrow> bool" where
  "improved g n n' \<longleftrightarrow> tree_ok g n' \<and> children n' \<noteq> [] \<and> same_move (nd n) (nd n') \<and> mcCount (nd n') = mcCount (nd n) + 1 \<and>
     (mcCount (nd n) = gamesOf (children n) \<longrightarrow> mcCount (nd n') = gamesOf (children n'))"

lemma expand_ok:
  assumes g: "flagz_inv g" "\<not> over g" and max: "1 \<le> MaxFlagPositions p"
    and n: "tree_ok g n" "children n = []" "\<not> mcDone (nd n)"
  shows "\<exists>n' w g'. run (Suc k) p g n len = Some (n', w, len + 1, g') \<and> improved g n n'"
proof -
  obtain cs s where cs: "nextMoves p (Brd g) (rnd g) = Some (cs, s)" "cs \<noteq> []"
      "\<And>c. c \<in> set cs \<Longrightarrow> fresh c \<and> legal g (nodeMove (Brd g) (nd c))"
    using nextMoves_legal[OF g max] by blast
  define j where "j = int (shd s) mod int (length cs)"
  have j: "0 \<le> j" "j < int (length cs)" "nat j < length cs" using cs(2) by (simp_all add: j_def nat_less_iff)
  define c where "c = cs ! nat j"
  have c: "c \<in> set cs" using j by (simp add: c_def)
  obtain w g' where pl: "playRandomGame (g\<lparr>rnd := stl s\<rparr>) (nd c) = Some (w, g')"
    using playRandomGame_ok[of "g\<lparr>rnd := stl s\<rparr>" "nd c"] g cs(3)[OF c] by (auto simp: nodeMove_def)
  let ?c = "MCNode (addResult w (nd c)) (children c)"
  let ?cs = "cs[nat j := ?c]"
  let ?n = "MCNode (addResult w ((nd n)\<lparr>mcLive := int (length ?cs)\<rparr>)) ?cs"
  have "run (Suc k) p g n len = Some (?n, w, len + 1, g')"
    using n(2) cs(1,2) pl j cs(2) by (simp add: Intn_in j_def[symmetric] c_def[symmetric] go_simps)
  moreover have "improved g n ?n"
  proof -
    have lim: "0 \<le> mcCount (nd n)" "mcCount (nd n) \<le> 1"
      and nat: "mcCount (nd n) \<in> \<int>"
      using tree_leaf[OF n(1,2)] n(3) tree_stat[OF n(1)] by (auto simp: stat_ok_def)
    then have one: "mcCount (nd n) = 0 \<or> mcCount (nd n) = 1" by (auto elim!: Ints_cases)
    have succ: "\<forall>c \<in> set cs. \<exists>g'. succPos g (nd c) = Some g' \<and> tree_ok g' c"
      using succPos_legal[OF g(1)] cs(3) leaf_tree_ok by meson
    obtain gc where gc: "succPos g (nd c) = Some gc" "tree_ok gc c" using succ c by blast
    have fc: "children c = []" "mcCount (nd c) = 0" "\<not> mcDone (nd c)" using cs(3)[OF c] by (auto simp: fresh_def)
    have c': "succPos g (nd ?c) = Some gc" "tree_ok gc ?c"
      using gc fc addResult_stat[OF tree_stat[OF gc(2)]] same_move_succPos[of "nd c" "nd ?c" g]
      by (simp_all add: same_move_def tree_ok.simps)
    have fr: "fresh x" if "x \<in> set cs" for x using cs(3) that by blast
    have games: "gamesOf ?cs = 1"
      using gamesOf_update[OF j(3), of ?c] gamesOf_zero[OF fr] fc by (simp add: c_def)
    have dn: "\<not> mcDone (nd x)" if "x \<in> set ?cs" for x
      using that set_update_subset_insert[of cs "nat j" ?c] fc fr by (auto simp: fresh_def)
    have live: "liveOf ?cs = int (length ?cs)" by (rule liveOf_all[OF dn])
    have st: "stat_ok (addResult w ((nd n)\<lparr>mcLive := int (length ?cs)\<rparr>))"
      by (rule addResult_stat) (use tree_stat[OF n(1)] in \<open>simp add: stat_ok_def\<close>)
    have t: "tree_ok g ?n"
    proof (rule tree_okI[OF st _ g(2)])
      show "\<exists>g'. succPos g (nd x) = Some g' \<and> tree_ok g' x" if "x \<in> set ?cs" for x
        by (rule child_update[OF succ c' that])
    qed (use one lim games live n(3) cs(2) in auto)
    have "?cs \<noteq> []" using cs(2) by simp
    then show ?thesis using t games n(2) by (simp add: improved_def same_move_def)
  qed
  ultimately show ?thesis by blast
qed

text \<open>The node after a child has been improved, as \<open>run\<close> computes it.\<close>

abbreviation afterChild :: "int \<Rightarrow> mc_node \<Rightarrow> mc_data \<Rightarrow> mc_data" where
  "afterChild w c d \<equiv> (let d = addResult w d in
     if mcDone (nd c) then d\<lparr>mcLive := mcLive d - 1, mcDone := (if mcLive d - 1 = 0 then True else mcDone d)\<rparr> else d)"

lemma parent_update:
  assumes n: "tree_ok g n" "children n \<noteq> []" "\<not> mcDone (nd n)"
    and i: "i < length (children n)" "\<not> mcDone (nd (children n ! i))"
    and c: "succPos g (nd c) = Some g'" "tree_ok g' c" "mcCount (nd c) = mcCount (nd (children n ! i)) + 1"
  shows "improved g n (MCNode (afterChild w c (nd n)) ((children n)[i := c]))"
proof -
  note N = tree_node[OF n(1,2)]
  let ?cs = "(children n)[i := c]" and ?d = "afterChild w c (nd n)"
  have games: "gamesOf ?cs = gamesOf (children n) + 1" using gamesOf_update[OF i(1), of c] c(3) by simp
  have live: "liveOf ?cs = liveOf (children n) - of_bool (mcDone (nd c))"
    using cnt_update[OF i(1), of "\<lambda>c. \<not> mcDone (nd c)" c] i(2) by simp
  have st: "stat_ok ?d" using addResult_stat[OF tree_stat[OF n(1)], of w] by (simp add: Let_def stat_ok_def)
  have ne: "?cs \<noteq> []" using n(2) by simp
  have succ: "\<forall>c \<in> set (children n). \<exists>g'. succPos g (nd c) = Some g' \<and> tree_ok g' c" using tree_child[OF n(1)] by blast
  have sel: "mcCount ?d = mcCount (nd n) + 1" "mcLive ?d = liveOf ?cs" "same_move (nd n) ?d"
    using N live by (simp_all add: Let_def same_move_def)
  have dn: "mcDone ?d \<longleftrightarrow> mcLive ?d = 0" using N n(3) by (auto simp: Let_def)
  have t: "tree_ok g (MCNode ?d ?cs)"
  proof (rule tree_okI[OF st ne _ _ _ sel(2) dn])
    show "\<exists>g'. succPos g (nd x) = Some g' \<and> tree_ok g' x" if "x \<in> set ?cs" for x
      by (rule child_update[OF succ c(1,2) that])
  qed (use N games sel in auto)
  show ?thesis unfolding improved_def using t ne games sel by simp
qed

lemma run_ok:
  assumes max: "1 \<le> MaxFlagPositions p" and f: "0 \<le> UctFactor p"
  shows "flagz_inv g \<Longrightarrow> \<not> over g \<Longrightarrow> tree_ok g n \<Longrightarrow> \<not> mcDone (nd n) \<Longrightarrow> Flagz_rest g < k \<Longrightarrow>
    \<exists>n' w depth g'. run k p g n len = Some (n', w, depth, g') \<and> improved g n n' \<and>
      len < depth \<and> depth \<le> len + int (Flagz_rest g)"
proof (induction k arbitrary: g n len)
  case (Suc k)
  have pos: "0 < Flagz_rest g"
  proof -
    have "FreeCells g \<noteq> 0" using Suc.prems(2) by (simp add: over_def)
    moreover have "0 \<le> FreeCells g" using core_free[OF pos_core[OF inv_pos[OF Suc.prems(1)]]] by simp
    ultimately show ?thesis by (simp add: Flagz_rest_def)
  qed
  show ?case
  proof (cases "children n = []")
    case True
    with expand_ok[OF Suc.prems(1,2) max Suc.prems(3) True Suc.prems(4), of k len] pos show ?thesis by fastforce
  next
    case False
    obtain i where i: "getNextByUtc p n = Some i" "i < length (children n)" "\<not> mcDone (nd (children n ! i))"
      using getNextByUtc_ok[OF Suc.prems(3) False Suc.prems(4) f] by blast
    define c where "c = children n ! i"
    have "c \<in> set (children n)" using i(2) by (simp add: c_def)
    then obtain g1 where g1: "succPos g (nd c) = Some g1" "tree_ok g1 c" using tree_child[OF Suc.prems(3)] by blast
    note mv = succPos_SomeD[OF Suc.prems(1) g1(1)]
    have "\<exists>c' w depth g'. (if Flagz_IsDone g1
          then Some (MCNode (addResult (Flagz_Winner g1) ((nd c)\<lparr>mcDone := True\<rparr>)) (children c), Flagz_Winner g1, len + 1, g1)
          else run k p g1 c (len + 1)) = Some (c', w, depth, g') \<and> tree_ok g1 c' \<and> same_move (nd c) (nd c') \<and>
          mcCount (nd c') = mcCount (nd c) + 1 \<and> len < depth \<and> depth \<le> len + int (Flagz_rest g)"
    proof (cases "over g1")
      case True
      let ?c = "MCNode (addResult (Flagz_Winner g1) ((nd c)\<lparr>mcDone := True\<rparr>)) (children c)"
      have "children c = []" using tree_node[OF g1(2)] True by blast
      moreover have "stat_ok (nd ?c)"
        using addResult_stat[of "(nd c)\<lparr>mcDone := True\<rparr>"] tree_stat[OF g1(2)] by (simp add: stat_ok_def)
      ultimately have "tree_ok g1 ?c" using True by (simp add: tree_ok.simps)
      with True pos mv show ?thesis by (simp add: Flagz_isDone same_move_def)
    next
      case False
      have "\<exists>n' w depth g'. run k p g1 c (len + 1) = Some (n', w, depth, g') \<and> improved g1 c n' \<and>
          len + 1 < depth \<and> depth \<le> len + 1 + int (Flagz_rest g1)"
        by (rule Suc.IH) (use mv False g1(2) i(3) Suc.prems(5) in \<open>auto simp: c_def\<close>)
      with False mv show ?thesis by (force simp: Flagz_isDone improved_def)
    qed
    then obtain c' w depth g' where r: "(if Flagz_IsDone g1
          then Some (MCNode (addResult (Flagz_Winner g1) ((nd c)\<lparr>mcDone := True\<rparr>)) (children c), Flagz_Winner g1, len + 1, g1)
          else run k p g1 c (len + 1)) = Some (c', w, depth, g')" "tree_ok g1 c'" "same_move (nd c) (nd c')"
          "mcCount (nd c') = mcCount (nd c) + 1" "len < depth" "depth \<le> len + int (Flagz_rest g)" by blast
    have imp: "improved g n (MCNode (afterChild w c' (nd n)) ((children n)[i := c']))"
      by (rule parent_update[OF Suc.prems(3) False Suc.prems(4) i(2,3) _ r(2)])
        (use r g1 same_move_succPos[OF r(3), of g] in \<open>simp_all add: c_def\<close>)
    have "run (Suc k) p g n len = Some (MCNode (afterChild w c' (nd n)) ((children n)[i := c']), w, depth, g')"
      using False i mv r(1) by (simp add: Let_def go_simps c_def[symmetric] del: if_split)
    with imp r(5,6) show ?thesis by blast
  qed
qed simp

end
