(* ===== verification/MctsProps.thy ===== *)
theory MctsProps
  imports MctsTree
begin

text \<open>
  The search as a whole: the search loop ends when the clock says so, and \<open>SuggestMove\<close> returns a
  move the rules allow together with statistics that add up.
\<close>

section \<open>The search loop\<close>

text \<open>The root of the search: all its games go through its children.\<close>

definition search_ok :: "flagz \<Rightarrow> mc_node \<Rightarrow> bool" where
  "search_ok g n \<longleftrightarrow> tree_ok g n \<and> mcCount (nd n) = gamesOf (children n)"

lemma improved_search_ok: "search_ok g n \<Longrightarrow> improved g n n' \<Longrightarrow> search_ok g n' \<and> children n' \<noteq> []"
  by (simp add: search_ok_def improved_def)

lemma searchLoop_ok:
  assumes max: "1 \<le> MaxFlagPositions p" and f: "0 \<le> UctFactor p" and up: "timeUp (64 * k)"
    and g: "flagz_inv g" "\<not> over g"
  shows "n \<le> 64 * k \<Longrightarrow> search_ok g tree \<Longrightarrow> \<not> mcDone (nd tree) \<Longrightarrow>
    mcCount (nd tree) = of_nat n \<Longrightarrow> children tree \<noteq> [] \<or> n mod 64 \<noteq> 0 \<or> \<not> timeUp n \<Longrightarrow>
    md \<le> 1 + int (Flagz_rest g) \<Longrightarrow>
    \<exists>tree' md' n'. searchLoop p timeUp g n s tree md = Some (tree', md') \<and> search_ok g tree' \<and>
      children tree' \<noteq> [] \<and> mcCount (nd tree') = of_nat n' \<and> n' \<le> 64 * k \<and>
      md \<le> md' \<and> md' \<le> 1 + int (Flagz_rest g)"
proof (induction "64 * k - n" arbitrary: n s tree md)
  case 0
  then have "n = 64 * k" by simp
  then show ?case using 0 up by (subst searchLoop.simps) (auto intro!: exI[of _ "64 * k"])
next
  case (Suc j)
  show ?case
  proof (cases "n mod 64 = 0 \<and> timeUp n")
    case True
    then show ?thesis using Suc.prems by (subst searchLoop.simps) auto
  next
    case False
    have "tree_ok (g\<lparr>rnd := s\<rparr>) tree" using Suc.prems(2) by (simp add: search_ok_def)
    then obtain t w d g' where r: "run (runDepth g) p (g\<lparr>rnd := s\<rparr>) tree 1 = Some (t, w, d, g')"
      "improved (g\<lparr>rnd := s\<rparr>) tree t" "d \<le> 1 + int (Flagz_rest g)"
      using run_ok[OF max f, of "g\<lparr>rnd := s\<rparr>" tree "runDepth g" 1] g Suc.prems(3)
      by (auto simp: runDepth_def Flagz_rest_def)
    have imp: "improved g tree t" using r(2) unfolding improved_def tree_ok_rnd .
    let ?md = "if d > md then d else md"
    have step: "searchLoop p timeUp g n s tree md =
        (if mcDone (nd t) then Some (t, ?md) else searchLoop p timeUp g (n + 1) (rnd g') t ?md)"
      by (subst searchLoop.simps, subst if_not_P[OF False]) (use r(1) g in \<open>simp add: Clone_eq Let_def\<close>)
    note t = improved_search_ok[OF Suc.prems(2) imp]
    have c: "mcCount (nd t) = of_nat (n + 1)" using imp Suc.prems(4) by (simp add: improved_def)
    show ?thesis
    proof (cases "mcDone (nd t)")
      case True
      with step t c Suc.hyps(2) Suc.prems(6) r(3) show ?thesis
        by (intro exI[of _ t] exI[of _ ?md] exI[of _ "n + 1"]) auto
    next
      case False
      have "\<exists>tree' md' n'. searchLoop p timeUp g (n + 1) (rnd g') t ?md = Some (tree', md') \<and> search_ok g tree' \<and>
        children tree' \<noteq> [] \<and> mcCount (nd tree') = of_nat n' \<and> n' \<le> 64 * k \<and>
        ?md \<le> md' \<and> md' \<le> 1 + int (Flagz_rest g)"
        by (rule Suc.hyps(1)) (use Suc.hyps(2) Suc.prems t c False r(3) in auto)
      with step False show ?thesis by (auto split: if_splits)
    qed
  qed
qed

section \<open>The best child\<close>

lemma bestChild_ok:
  assumes "cs \<noteq> []"
  shows "\<exists>b \<in> set cs. bestChild cs = Some b \<and> (\<forall>c \<in> set cs. mcQ (nd c) \<le> mcQ (nd b))"
proof -
  let ?step = "\<lambda>c best. case best of None \<Rightarrow> Some c
     | Some b \<Rightarrow> if mcQ (nd c) > mcQ (nd b) then Some c else best"
  have "\<exists>b \<in> insert a (set xs). fold ?step xs (Some a) = Some b \<and> (\<forall>c \<in> insert a (set xs). mcQ (nd c) \<le> mcQ (nd b))" for a xs
  proof (induction xs arbitrary: a)
    case (Cons x xs)
    let ?a = "if mcQ (nd x) > mcQ (nd a) then x else a"
    have a: "mcQ (nd a) \<le> mcQ (nd ?a)" "mcQ (nd x) \<le> mcQ (nd ?a)" "?a \<in> insert a (set (x # xs))" by simp_all
    obtain b where b: "b \<in> insert ?a (set xs)" "fold ?step xs (Some ?a) = Some b"
      "\<forall>c \<in> insert ?a (set xs). mcQ (nd c) \<le> mcQ (nd b)" using Cons[of ?a] by blast
    then have le: "\<forall>c \<in> insert a (set (x # xs)). mcQ (nd c) \<le> mcQ (nd b)" using a(1,2) by fastforce
    have "b \<in> insert a (set (x # xs))" using a(3) b(1) by auto
    moreover have "fold ?step (x # xs) (Some a) = Some b" using b(2) by (auto split: if_splits)
    ultimately show ?case using le by blast
  qed simp
  with assms show ?thesis by (cases cs) (auto simp: bestChild_def)
qed

lemma mcQ_range: "stat_ok d \<Longrightarrow> 0 \<le> mcQ d \<and> mcQ d \<le> 1"
  by (auto simp: stat_ok_def mcQ_def divide_le_eq_1)

lemma MaxQ_ge: "r \<le> MaxQ r cs"
proof (induction cs arbitrary: r)
  case (Cons c cs)
  show ?case using Cons[of r] Cons[of "msQ c"] by simp
qed simp

lemma MaxQ_eq:
  assumes "b \<in> set cs" "\<forall>c \<in> set cs. msQ c \<le> msQ b" "r \<le> msQ b"
  shows "MaxQ r cs = msQ b"
  using assms
proof (induction cs arbitrary: r)
  case (Cons c cs)
  show ?case
  proof (cases "b \<in> set cs")
    case True
    with Cons show ?thesis by simp
  next
    case False
    with Cons.prems have "c = b" by simp
    moreover have "\<forall>c \<in> set cs. msQ c \<le> r \<Longrightarrow> MaxQ r cs = r" for r by (induction cs) auto
    ultimately show ?thesis using Cons.prems by simp
  qed
qed simp

lemma floor_gamesOf:
  "(\<And>c. c \<in> set cs \<Longrightarrow> mcCount (nd c) \<in> \<int>) \<Longrightarrow> \<lfloor>gamesOf cs\<rfloor> = sum_list (map (\<lambda>c. \<lfloor>mcCount (nd c)\<rfloor>) cs)"
proof (induction cs)
  case (Cons c cs)
  then obtain k where "mcCount (nd c) = of_int k" by (auto elim: Ints_cases)
  with Cons show ?case by simp
qed simp

lemma sizeLoop_eq: "sizeLoop q s = s + int (sum_list (map nodes q))"
proof (induction q s rule: sizeLoop.induct)
  case (1 q s)
  then show ?case using nodes_pop[of q] by (subst sizeLoop.simps) (auto simp del: map_append)
qed

lemma treeSize_eq: "treeSize tree = int (nodes tree)"
  by (simp add: treeSize_def sizeLoop_eq)

lemma children_le_nodes: "length (children tree) < nodes tree"
proof -
  have "length cs \<le> sum_list (map nodes cs)" for cs
  proof (induction cs)
    case (Cons c cs)
    then show ?case using nodes_pos[of c] by simp
  qed simp
  then show ?thesis by (cases tree) (simp add: le_imp_less_Suc)
qed

section \<open>What done means\<close>

text \<open>Every line of play in the tree below a node ends in a position in which the game is over.\<close>

fun explored :: "flagz \<Rightarrow> mc_node \<Rightarrow> bool" where
  "explored g (MCNode d cs) \<longleftrightarrow> (if cs = [] then Flagz_IsDone g
     else \<forall>c \<in> set cs. case succPos g (nd c) of None \<Rightarrow> False | Some g' \<Rightarrow> explored g' c)"

lemma done_explored: "flagz_inv g \<Longrightarrow> tree_ok g n \<Longrightarrow> mcDone (nd n) \<Longrightarrow> explored g n"
proof (induction g n rule: explored.induct)
  case (1 g d cs)
  show ?case
  proof (cases "cs = []")
    case True
    with 1 show ?thesis using tree_leaf[OF 1(3)] by (simp add: Flagz_isDone)
  next
    case False
    then have "liveOf cs = 0" using tree_node[OF 1(3)] 1(4) by simp
    then have dn: "\<forall>c \<in> set cs. mcDone (nd c)" by (auto simp: cnt_zero_iff)
    have "case succPos g (nd c) of None \<Rightarrow> False | Some g' \<Rightarrow> explored g' c" if c: "c \<in> set cs" for c
    proof -
      obtain g' where "succPos g (nd c) = Some g'" "tree_ok g' c" using tree_child[OF 1(3)] c by auto
      with 1(1)[OF False c] succPos_SomeD[OF 1(2)] dn c show ?thesis by auto
    qed
    with False show ?thesis by simp
  qed
qed

section \<open>Properties\<close>

text \<open>C11. One iteration of the search returns on every well-formed tree that is not done: the node
  has one more game, all statistics stay consistent, and a node is marked done only if every line
  of play below it has been followed to the end of the game.\<close>

theorem mcts_run_keeps_tree:
  assumes "flagz_reachable g" "\<not> Flagz_IsDone g" "1 \<le> MaxFlagPositions p" "0 \<le> UctFactor p"
    "tree_ok g n" "\<not> mcDone (nd n)"
  shows "\<exists>n' w depth g'. run (runDepth g) p g n len = Some (n', w, depth, g') \<and> tree_ok g n' \<and>
    mcCount (nd n') = mcCount (nd n) + 1 \<and> children n' \<noteq> [] \<and>
    len < depth \<and> depth \<le> len + FreeCells g \<and> (mcDone (nd n') \<longrightarrow> explored g n')"
proof -
  have g: "flagz_inv g" "\<not> over g" using assms(1,2) reachable_inv by (auto simp: Flagz_isDone)
  have "0 \<le> FreeCells g" using core_free[OF pos_core[OF inv_pos[OF g(1)]]] by simp
  then show ?thesis
    using run_ok[OF assms(3,4) g assms(5,6), of "runDepth g" len] done_explored[OF g(1)]
    by (fastforce simp: runDepth_def improved_def Flagz_rest_def)
qed

theorem mcts_run_keeps_tree_witness:
  "\<exists>n' w depth g'. run (runDepth newFlagz) NewMCTS newFlagz (startNode newFlagz) 1 = Some (n', w, depth, g') \<and>
    tree_ok newFlagz n' \<and> mcCount (nd n') = 1"
proof -
  have n: "fresh (startNode newFlagz)" by (simp add: startNode_def)
  then have "\<not> mcDone (nd (startNode newFlagz))" "mcCount (nd (startNode newFlagz)) = 0" by (simp_all add: fresh_def)
  with mcts_run_keeps_tree[of newFlagz NewMCTS "startNode newFlagz" 1] newFlagz_ok leaf_tree_ok[OF n, of newFlagz]
  show ?thesis by (fastforce simp: NewMCTS_def Flagz_isDone)
qed

text \<open>The candidate moves of a node are, in this order, a normal move for every cell the
  player can take, and, while the player has flags, flag moves on different free cells, as many
  as \<open>MaxFlagPositions\<close> and the board allow; \<open>FlagsFirst\<close> drops the normal moves if there are flag
  moves. In a running game there is a candidate, and the rules allow every one.\<close>

theorem mcts_candidates:
  assumes "flagz_reachable g" "\<not> Flagz_IsDone g" "1 \<le> MaxFlagPositions p"
  shows "let b = Brd g; player = Turn b;
      taken = filter (\<lambda>x. \<not> occupied (fld b x) \<and> nextValSpec b x player > 0) (allIdx b) in
    \<exists>xs s'. nextMoves p b s =
        Some ((if FlagsFirst p \<and> xs \<noteq> [] then [] else map (\<lambda>x. leaf x player CellNormal) taken) @
              map (\<lambda>x. leaf x player CellFlag) xs, s') \<and>
      distinct xs \<and> set xs \<subseteq> {x. valid b x \<and> \<not> occupied (fld b x)} \<and>
      length xs = (if NumPieces (Resources b ! nat (player - 1)) CellFlag > 0
                   then min (nat (MaxFlagPositions p)) (nat (FreeCells g)) else 0) \<and>
      (xs \<noteq> [] \<or> taken \<noteq> [])"
proof -
  have g: "flagz_inv g" "\<not> over g" using assms(1,2) reachable_inv by (auto simp: Flagz_isDone)
  let ?b = "Brd g"
  have t: "pidx (Turn ?b - 1)" by (rule pos_turn[OF inv_pos[OF g(1)]])
  let ?taken = "filter (\<lambda>x. \<not> occupied (fld ?b x) \<and> nextValSpec ?b x (Turn ?b) > 0) (allIdx ?b)"
  have taken: "normals ?b (allIdx ?b) = map (\<lambda>x. leaf x (Turn ?b) CellNormal) ?taken"
    unfolding normals_def using NextVal_spec[OF g(1) _ _ t]
    by (intro arg_cong[of _ _ "map _"] filter_cong) (auto simp: avail_def valid_iff_allIdx)
  obtain s' xs where r: "nextMoves p ?b s =
      Some ((if FlagsFirst p \<and> xs \<noteq> [] then [] else normals ?b (allIdx ?b)) @ flagLeaves ?b xs, s')"
    "distinct xs" "set xs \<subseteq> set (freeCells ?b)"
    "length xs = (if hasFlag ?b then min (nat (MaxFlagPositions p)) (length (freeCells ?b)) else 0)"
    using nextMoves_eq[OF g(1) assms(3), of s] by blast
  have "length (freeCells ?b) = nat (FreeCells g)"
    unfolding freeCells_def cnt_moves(1)[OF g(1)] by (simp add: cnt_def)
  moreover have "xs \<noteq> [] \<or> ?taken \<noteq> []"
  proof -
    obtain cs s'' where "nextMoves p ?b s = Some (cs, s'')" "cs \<noteq> []" using nextMoves_legal[OF g assms(3)] by metis
    with r(1) show ?thesis by (auto simp: taken flagLeaves_def split: if_splits)
  qed
  ultimately show ?thesis using r unfolding Let_def taken flagLeaves_def hasFlag_def
    by (intro exI[of _ xs] exI[of _ s']) (auto simp: freeCells_def valid_iff_allIdx)
qed

theorem mcts_candidates_witness:
  "\<exists>cs s'. nextMoves NewMCTS (Brd newFlagz) (sconst 0) = Some (cs, s') \<and> cs \<noteq> []"
  using mcts_candidates[of newFlagz NewMCTS "sconst 0"] newFlagz_ok
  by (force simp: NewMCTS_def Flagz_isDone Let_def)

text \<open>The move that a line of the statistics is about.\<close>

definition statMove :: "board \<Rightarrow> mcts_move_stats \<Rightarrow> game_engine_move" where
  "statMove b c = \<lparr>mvPlayer = Turn b, mvMove = Move b, mvRow = msRow c, mvCol = msCol c, mvType = msCellType c\<rparr>"

text \<open>The result of \<open>SuggestMove\<close> in terms of the final tree.\<close>

definition statsOf :: "mcts \<Rightarrow> mc_node \<Rightarrow> int \<Rightarrow> mcts_stats" where
  "statsOf p tree md = \<lparr>sIterations = \<lfloor>mcCount (nd tree)\<rfloor>, sMaxDepth = md, sTreeSize = treeSize tree,
     sFullyExplored = mcDone (nd tree), sMoves = map (moveStats p tree) (children tree)\<rparr>"

lemma SuggestMove_ok:
  assumes g: "flagz_inv g" "\<not> over g" and p: "1 \<le> MaxFlagPositions p" "0 \<le> UctFactor p"
    and up: "\<not> timeUp 0" "timeUp (64 * k)"
  obtains tree md n b where "SuggestMove p timeUp s g = Some (nodeMove (Brd g) (nd b), statsOf p tree md)"
    "search_ok g tree" "children tree \<noteq> []" "mcCount (nd tree) = of_nat n" "n \<le> 64 * k" "md \<le> 1 + int (Flagz_rest g)"
    "b \<in> set (children tree)" "\<forall>c \<in> set (children tree). mcQ (nd c) \<le> mcQ (nd b)"
    "\<forall>c \<in> set (children tree). legal g (nodeMove (Brd g) (nd c)) \<and> stat_ok (nd c)"
proof -
  have n0: "fresh (startNode g)" by (simp add: startNode_def)
  then have start: "search_ok g (startNode g)" "\<not> mcDone (nd (startNode g))" "mcCount (nd (startNode g)) = of_nat 0"
    using leaf_tree_ok[OF n0, of g] by (simp_all add: search_ok_def fresh_def)
  have "\<exists>tree md n. searchLoop p timeUp g 0 s (startNode g) 0 = Some (tree, md) \<and> search_ok g tree \<and>
      children tree \<noteq> [] \<and> mcCount (nd tree) = of_nat n \<and> n \<le> 64 * k \<and> 0 \<le> md \<and> md \<le> 1 + int (Flagz_rest g)"
    by (rule searchLoop_ok[where timeUp = timeUp, OF p up(2) g _ start]) (use up(1) in simp_all)
  then obtain tree md n where t: "searchLoop p timeUp g 0 s (startNode g) 0 = Some (tree, md)" "search_ok g tree"
      "children tree \<noteq> []" "mcCount (nd tree) = of_nat n" "n \<le> 64 * k" "md \<le> 1 + int (Flagz_rest g)" by blast
  have tok: "tree_ok g tree" using t(2) by (simp add: search_ok_def)
  have child: "\<forall>c \<in> set (children tree). legal g (nodeMove (Brd g) (nd c)) \<and> stat_ok (nd c)"
    using tree_child[OF tok] succPos_SomeD[OF g(1)] tree_stat by blast
  obtain b where b: "b \<in> set (children tree)" "bestChild (children tree) = Some b"
      "\<forall>c \<in> set (children tree). mcQ (nd c) \<le> mcQ (nd b)" using bestChild_ok[OF t(3)] by blast
  have "SuggestMove p timeUp s g = Some (nodeMove (Brd g) (nd b), statsOf p tree md)"
    using t(1) b(2) by (simp add: SuggestMove_def statsOf_def)
  from that[OF this t(2-6) b(1,3) child] show thesis .
qed

lemma MaxQ_best:
  assumes "b \<in> set (children tree)" "\<forall>c \<in> set (children tree). mcQ (nd c) \<le> mcQ (nd b)" "stat_ok (nd b)"
  shows "msQ (moveStats p tree b) = MaxQ 0 (sMoves (statsOf p tree md))"
  by (rule MaxQ_eq[symmetric]) (use assms mcQ_range in \<open>auto simp: statsOf_def moveStats_def\<close>)

text \<open>C10. If the clock runs out in one of the rounds in which it is asked, but not at once,
  \<open>SuggestMove\<close> returns a move that the rules allow: a candidate with the best quotient of wins.
  The numbers of its statistics are in range and add up.\<close>

theorem mcts_suggests_best_allowed_move:
  assumes "flagz_reachable g" "\<not> Flagz_IsDone g" "1 \<le> MaxFlagPositions p" "0 \<le> UctFactor p"
    "\<not> timeUp 0" "timeUp (64 * k)"
  shows "\<exists>m stats. SuggestMove p timeUp s g = Some (m, stats) \<and> rulesAllow (Brd g) m \<and>
    (\<exists>c \<in> set (sMoves stats). m = statMove (Brd g) c \<and> msQ c = MaxQ 0 (sMoves stats)) \<and>
    (\<forall>c \<in> set (sMoves stats). rulesAllow (Brd g) (statMove (Brd g) c) \<and> 0 \<le> msQ c \<and> msQ c \<le> 1 \<and> 0 \<le> msIterations c) \<and>
    sIterations stats = sum_list (map msIterations (sMoves stats)) \<and>
    1 \<le> sIterations stats \<and> sIterations stats \<le> 64 * int k \<and>
    sMaxDepth stats \<le> 1 + FreeCells g \<and> int (length (sMoves stats)) < sTreeSize stats"
proof -
  have g: "flagz_inv g" "\<not> over g" using assms(1,2) reachable_inv by (auto simp: Flagz_isDone)
  have free: "0 \<le> FreeCells g" using core_free[OF pos_core[OF inv_pos[OF g(1)]]] by simp
  obtain tree md n b where t: "SuggestMove p timeUp s g = Some (nodeMove (Brd g) (nd b), statsOf p tree md)"
    "search_ok g tree" "children tree \<noteq> []" "mcCount (nd tree) = of_nat n" "n \<le> 64 * k" "md \<le> 1 + int (Flagz_rest g)"
    and b: "b \<in> set (children tree)" "\<forall>c \<in> set (children tree). mcQ (nd c) \<le> mcQ (nd b)"
    and child: "\<forall>c \<in> set (children tree). legal g (nodeMove (Brd g) (nd c)) \<and> stat_ok (nd c)"
    by (rule SuggestMove_ok[OF g assms(3-6)])
  have tok: "tree_ok g tree" and games: "mcCount (nd tree) = gamesOf (children tree)"
    using t(2) by (simp_all add: search_ok_def)
  define stats where "stats = statsOf p tree md"
  note stats = stats_def statsOf_def
  have mv: "statMove (Brd g) (moveStats p tree c) = nodeMove (Brd g) (nd c)" if "c \<in> set (children tree)" for c
    using child that by (simp add: statMove_def moveStats_def nodeMove_def legal_def)
  have "SuggestMove p timeUp s g = Some (nodeMove (Brd g) (nd b), stats)" using t(1) by (simp add: stats_def)
  moreover have "rulesAllow (Brd g) (nodeMove (Brd g) (nd c))" if "c \<in> set (children tree)" for c
    using child that legal_rulesAllow[OF g(1)] by blast
  moreover have "msQ (moveStats p tree b) = MaxQ 0 (sMoves stats)"
    using MaxQ_best[OF b] child b(1) by (simp add: stats_def)
  moreover have "0 \<le> msQ (moveStats p tree c) \<and> msQ (moveStats p tree c) \<le> 1 \<and> 0 \<le> msIterations (moveStats p tree c)"
    if "c \<in> set (children tree)" for c
    using child that mcQ_range[of "nd c"] by (auto simp: moveStats_def stat_ok_def)
  moreover have "sIterations stats = sum_list (map msIterations (sMoves stats))"
    using floor_gamesOf[of "children tree"] child games by (simp add: stats moveStats_def stat_ok_def comp_def)
  moreover have "1 \<le> sIterations stats" "sIterations stats \<le> 64 * int k"
    using tree_node[OF tok t(3)] t(4,5) by (simp_all add: stats)
  moreover have "sMaxDepth stats \<le> 1 + FreeCells g"
    using t(6) free by (simp add: stats Flagz_rest_def)
  moreover have "int (length (sMoves stats)) < sTreeSize stats"
    using children_le_nodes[of tree] by (simp add: stats treeSize_eq)
  ultimately show ?thesis using mv b(1)
    by (intro exI[of _ "nodeMove (Brd g) (nd b)"] exI[of _ stats] conjI) (auto simp: stats intro!: bexI[of _ b])
qed

theorem mcts_suggests_best_allowed_move_witness:
  "\<exists>m stats. SuggestMove NewMCTS (\<lambda>n. 100 \<le> n) (sconst 0) newFlagz = Some (m, stats) \<and> rulesAllow (Brd newFlagz) m"
  using mcts_suggests_best_allowed_move[of newFlagz NewMCTS "\<lambda>n. 100 \<le> n" 2 "sconst 0"] newFlagz_ok
  by (fastforce simp: NewMCTS_def Flagz_isDone)

text \<open>A search without any time has no root children, and dereferences a nil pointer.\<close>

lemma mcts_no_time_panics: "timeUp 0 \<Longrightarrow> SuggestMove p timeUp s g = None"
  by (simp add: SuggestMove_def searchLoop.simps startNode_def leaf_def bestChild_def)

end
