(* ===== verification/Stats.thy ===== *)
theory Stats
  imports Prelude "HOL-Library.Word"
begin

text \<open>
  Counters and distributions, \<open>hexz/stats.go\<close>. Counts are \<open>int64\<close> and wrap around; the values that
  are counted are real numbers, so the rounding of \<open>float64\<close> and NaN are not modelled. \<open>min\<close> and
  \<open>max\<close> start at the infinities, which are constructors of their own. Every method that writes
  holds the mutex of its object from beginning to end, so each is one step here.
\<close>

section \<open>Counters\<close>

record counter =
  ctName :: string
  ctValue :: "64 word"

definition NewCounter :: "string \<Rightarrow> counter" where
  "NewCounter name = \<lparr>ctName = name, ctValue = 0\<rparr>"

definition Increment :: "counter \<Rightarrow> counter" where
  "Increment c = c\<lparr>ctValue := ctValue c + 1\<rparr>"

lemma Increment_pow: "ctName ((Increment ^^ n) c) = ctName c \<and> ctValue ((Increment ^^ n) c) = ctValue c + of_nat n"
  by (induction n) (simp_all add: Increment_def)

section \<open>Binary search\<close>

text \<open>
  \<open>sort.Search\<close> of the standard library: the loop over \<open>i\<close> and \<open>j\<close>. The predicate may panic.
\<close>

function searchFrom :: "(nat \<Rightarrow> bool option) \<Rightarrow> nat \<Rightarrow> nat \<Rightarrow> nat option" where
  "searchFrom f i j = (if i < j then (let h = (i + j) div 2 in
     Option.bind (f h) (\<lambda>b. if \<not> b then searchFrom f (h + 1) j else searchFrom f i h))
   else Some i)"
  by auto
termination by (relation "measure (\<lambda>(f, i, j). j - i)") auto

declare searchFrom.simps [simp del]

definition Search :: "nat \<Rightarrow> (nat \<Rightarrow> bool option) \<Rightarrow> nat option" where
  "Search n f = searchFrom f 0 n"

lemma searchFrom_ok:
  assumes "i \<le> j" and "\<And>h. h < j \<Longrightarrow> f h = Some (P h)" and "\<And>a b. a \<le> b \<Longrightarrow> b < j \<Longrightarrow> P a \<Longrightarrow> P b"
  shows "\<exists>k. searchFrom f i j = Some k \<and> i \<le> k \<and> k \<le> j \<and> (\<forall>h. i \<le> h \<and> h < k \<longrightarrow> \<not> P h) \<and> (\<forall>h. k \<le> h \<and> h < j \<longrightarrow> P h)"
  using assms
proof (induction f i j rule: searchFrom.induct)
  case (1 f i j)
  show ?case
  proof (cases "i < j")
    case False
    then show ?thesis using 1(3) by (subst searchFrom.simps) auto
  next
    case True
    let ?h = "(i + j) div 2"
    have h: "?h < j" "i \<le> ?h" using True by auto
    have f: "f ?h = Some (P ?h)" using h 1(4) by simp
    show ?thesis
    proof (cases "P ?h")
      case False
      have "\<exists>k. searchFrom f (?h + 1) j = Some k \<and> ?h + 1 \<le> k \<and> k \<le> j \<and>
          (\<forall>h. ?h + 1 \<le> h \<and> h < k \<longrightarrow> \<not> P h) \<and> (\<forall>h. k \<le> h \<and> h < j \<longrightarrow> P h)"
        by (rule 1(1)[OF True refl f]) (use False h 1(4,5) in auto)
      then obtain k where k: "searchFrom f (?h + 1) j = Some k" "?h + 1 \<le> k" "k \<le> j"
        "\<forall>h. ?h + 1 \<le> h \<and> h < k \<longrightarrow> \<not> P h" "\<forall>h. k \<le> h \<and> h < j \<longrightarrow> P h" by blast
      have "\<not> P a" if "i \<le> a" "a < k" for a
        using that k(4) False 1(5)[of a ?h] h by (cases "a \<le> ?h") auto
      with k h True f False show ?thesis by (subst searchFrom.simps) (auto simp: Let_def)
    next
      case True
      have "\<exists>k. searchFrom f i ?h = Some k \<and> i \<le> k \<and> k \<le> ?h \<and>
          (\<forall>h. i \<le> h \<and> h < k \<longrightarrow> \<not> P h) \<and> (\<forall>h. k \<le> h \<and> h < ?h \<longrightarrow> P h)"
        by (rule 1(2)[OF \<open>i < j\<close> refl f]) (use True h 1(4,5) in auto)
      then obtain k where k: "searchFrom f i ?h = Some k" "i \<le> k" "k \<le> ?h"
        "\<forall>h. i \<le> h \<and> h < k \<longrightarrow> \<not> P h" "\<forall>h. k \<le> h \<and> h < ?h \<longrightarrow> P h" by blast
      have "P a" if "k \<le> a" "a < j" for a
        using that k(5) True 1(5)[of ?h a] h by (cases "a < ?h") auto
      with k h \<open>i < j\<close> f True show ?thesis by (subst searchFrom.simps) (auto simp: Let_def)
    qed
  qed
qed

section \<open>Distributions\<close>

datatype bound = NegInf | Num real | PosInf

fun bound_less :: "bound \<Rightarrow> bound \<Rightarrow> bool" where
  "bound_less NegInf b = (b \<noteq> NegInf)"
| "bound_less (Num x) (Num y) = (x < y)"
| "bound_less (Num x) b = (b = PosInf)"
| "bound_less PosInf b = False"

record distribution =
  dName :: string
  dCounts :: "64 word list"
  dBounds :: "real list"
  dTotal :: "64 word"
  dSum :: real
  dMin :: bound
  dMax :: bound

text \<open>The loop that looks for two bounds in the wrong order.\<close>

fun boundsIncrease :: "real list \<Rightarrow> bool" where
  "boundsIncrease (a # b # bs) = (if a \<ge> b then False else boundsIncrease (b # bs))"
| "boundsIncrease bs = True"

definition NewDistribution :: "string \<Rightarrow> real list \<Rightarrow> string + distribution" where
  "NewDistribution name upperBounds =
    (if length upperBounds = 0 then Inl ''need at least one upper bound''
     else if \<not> boundsIncrease upperBounds then Inl ''bounds must be strictly monotonically increasing''
     else Inr \<lparr>dName = name, dCounts = replicate (length upperBounds + 1) 0, dBounds = upperBounds,
               dTotal = 0, dSum = 0, dMin = PosInf, dMax = NegInf\<rparr>)"

definition Distribution_Add :: "real \<Rightarrow> distribution \<Rightarrow> distribution option" where
  "Distribution_Add value d = do {
     ix \<leftarrow> Search (length (dBounds d)) (\<lambda>i. map_option (\<lambda>b. b > value) (idx_list (dBounds d) (int i)));
     n \<leftarrow> idx_list (dCounts d) (int ix);
     cs \<leftarrow> upd_list (dCounts d) (int ix) (n + 1);
     let d = d\<lparr>dCounts := cs, dTotal := dTotal d + 1, dSum := dSum d + value\<rparr>;
     let d = (if bound_less (Num value) (dMin d) then d\<lparr>dMin := Num value\<rparr> else d);
     Some (if bound_less (dMax d) (Num value) then d\<lparr>dMax := Num value\<rparr> else d)
   }"

definition Distribution_Copy :: "distribution \<Rightarrow> distribution" where
  "Distribution_Copy d = \<lparr>dName = dName d, dCounts = dCounts d, dBounds = dBounds d, dTotal = dTotal d,
     dSum = dSum d, dMin = dMin d, dMax = dMax d\<rparr>"

text \<open>The loop of \<open>DistribRange\<close>; \<open>None\<close> is a loop that does not end.\<close>

partial_function (option) rangeLoop :: "real \<Rightarrow> real \<Rightarrow> real list \<Rightarrow> real \<Rightarrow> real list option" where
  "rangeLoop high factor r v = (if v < high then rangeLoop high factor (r @ [v]) (v * factor) else Some r)"

definition DistribRange :: "real \<Rightarrow> real \<Rightarrow> real \<Rightarrow> real list option" where
  "DistribRange low high factor =
    (if low \<ge> high \<or> factor \<le> 1 then Some [low]
     else do { r \<leftarrow> rangeLoop high factor [] low; Some (r @ [high]) })"

section \<open>What a distribution holds\<close>

text \<open>Bucket \<open>i\<close> holds the values from bound \<open>i - 1\<close>, inclusive, up to bound \<open>i\<close>, exclusive.\<close>

definition inBucket :: "real list \<Rightarrow> nat \<Rightarrow> real \<Rightarrow> bool" where
  "inBucket bs i v \<longleftrightarrow> (i = 0 \<or> bs ! (i - 1) \<le> v) \<and> (i = length bs \<or> v < bs ! i)"

lemma boundsIncrease_iff: "boundsIncrease bs \<longleftrightarrow> sorted_wrt (<) bs"
proof (induction bs rule: boundsIncrease.induct)
  case (1 a b bs)
  then show ?case by auto
qed simp_all

definition dist_wf :: "distribution \<Rightarrow> bool" where
  "dist_wf d \<longleftrightarrow> sorted_wrt (<) (dBounds d) \<and> length (dCounts d) = Suc (length (dBounds d))"

lemma Search_bucket:
  assumes "sorted_wrt (<) bs"
  shows "\<exists>k. Search (length bs) (\<lambda>i. map_option (\<lambda>b. b > v) (idx_list bs (int i))) = Some k \<and>
    k \<le> length bs \<and> (\<forall>i \<le> length bs. inBucket bs i v \<longleftrightarrow> i = k)"
proof -
  have mono: "bs ! a \<le> bs ! b" if "a \<le> b" "b < length bs" for a b
    using assms that by (cases "a = b") (auto simp: sorted_wrt_iff_nth_less order_less_imp_le)
  have "\<exists>k. searchFrom (\<lambda>i. map_option (\<lambda>b. b > v) (idx_list bs (int i))) 0 (length bs) = Some k \<and> 0 \<le> k \<and> k \<le> length bs \<and>
      (\<forall>h. 0 \<le> h \<and> h < k \<longrightarrow> \<not> bs ! h > v) \<and> (\<forall>h. k \<le> h \<and> h < length bs \<longrightarrow> bs ! h > v)"
    by (rule searchFrom_ok) (use mono in \<open>force simp: go_simps\<close>)+
  then obtain k where k: "Search (length bs) (\<lambda>i. map_option (\<lambda>b. b > v) (idx_list bs (int i))) = Some k" "k \<le> length bs"
      "\<forall>h < k. \<not> bs ! h > v" "\<forall>h. k \<le> h \<and> h < length bs \<longrightarrow> bs ! h > v" by (auto simp: Search_def)
  have "inBucket bs i v \<longleftrightarrow> i = k" if i: "i \<le> length bs" for i
  proof
    assume b: "inBucket bs i v"
    show "i = k"
    proof (rule ccontr)
      assume "i \<noteq> k"
      then consider "i < k" | "k \<le> i - 1" "0 < i" by linarith
      then show False
      proof cases
        case 1
        with b k(2,3) show ?thesis by (auto simp: inBucket_def)
      next
        case 2
        with k(4) i have "bs ! (i - 1) > v" by auto
        with b 2 show ?thesis by (auto simp: inBucket_def)
      qed
    qed
  next
    assume "i = k"
    with k show "inBucket bs i v" by (cases k) (auto simp: inBucket_def not_less)
  qed
  with k show ?thesis by blast
qed

text \<open>The distribution \<open>d\<close> with the bounds \<open>bs\<close> holds exactly the values \<open>vs\<close>.\<close>

definition holds :: "real list \<Rightarrow> real list \<Rightarrow> distribution \<Rightarrow> bool" where
  "holds bs vs d \<longleftrightarrow> dBounds d = bs \<and> length (dCounts d) = Suc (length bs) \<and>
     (\<forall>i \<le> length bs. dCounts d ! i = of_nat (length (filter (inBucket bs i) vs))) \<and>
     dTotal d = of_nat (length vs) \<and> dSum d = sum_list vs \<and>
     dMin d = (if vs = [] then PosInf else Num (Min (set vs))) \<and>
     dMax d = (if vs = [] then NegInf else Num (Max (set vs)))"

lemma holds_new:
  "NewDistribution name bs = Inr d \<Longrightarrow> holds bs [] d \<and> dName d = name"
  by (auto simp: NewDistribution_def holds_def nth_Cons' split: if_splits)

lemma Distribution_Add_ok:
  assumes bs: "sorted_wrt (<) bs" and d: "holds bs vs d"
  shows "\<exists>d'. Distribution_Add v d = Some d' \<and> holds bs (vs @ [v]) d' \<and> dName d' = dName d"
proof -
  obtain k where k: "Search (length bs) (\<lambda>i. map_option (\<lambda>b. b > v) (idx_list bs (int i))) = Some k"
    "k \<le> length bs" "\<forall>i \<le> length bs. inBucket bs i v \<longleftrightarrow> i = k" using Search_bucket[OF bs] by blast
  have len: "length (dCounts d) = Suc (length bs)" "dBounds d = bs" using d by (simp_all add: holds_def)
  let ?d1 = "d\<lparr>dCounts := (dCounts d)[k := dCounts d ! k + 1], dTotal := dTotal d + 1, dSum := dSum d + v\<rparr>"
  let ?d2 = "if bound_less (Num v) (dMin ?d1) then ?d1\<lparr>dMin := Num v\<rparr> else ?d1"
  let ?d3 = "if bound_less (dMax ?d2) (Num v) then ?d2\<lparr>dMax := Num v\<rparr> else ?d2"
  have eq: "Distribution_Add v d = Some ?d3"
    using k len by (simp add: Distribution_Add_def Let_def go_simps)
  have sel: "dBounds ?d3 = bs" "dCounts ?d3 = (dCounts d)[k := dCounts d ! k + 1]" "dTotal ?d3 = dTotal d + 1"
    "dSum ?d3 = dSum d + v" "dName ?d3 = dName d"
    "dMin ?d3 = (if bound_less (Num v) (dMin d) then Num v else dMin d)"
    "dMax ?d3 = (if bound_less (dMax d) (Num v) then Num v else dMax d)"
    using len by simp_all
  have counts: "(dCounts d)[k := dCounts d ! k + 1] ! i = of_nat (length (filter (inBucket bs i) (vs @ [v])))"
    if "i \<le> length bs" for i
    using that k len d by (cases "i = k") (simp_all add: holds_def)
  have min: "(if bound_less (Num v) (dMin d) then Num v else dMin d) = Num (Min (set (vs @ [v])))"
  proof (cases "vs = []")
    case False
    then have "dMin d = Num (Min (set vs))" "Min (set (vs @ [v])) = min v (Min (set vs))" using d by (simp_all add: holds_def)
    then show ?thesis unfolding min_def by (auto simp del: Min_less_iff Min_gr_iff Min_le_iff Min_ge_iff)
  qed (use d in \<open>simp add: holds_def\<close>)
  have max: "(if bound_less (dMax d) (Num v) then Num v else dMax d) = Num (Max (set (vs @ [v])))"
  proof (cases "vs = []")
    case False
    then have "dMax d = Num (Max (set vs))" "Max (set (vs @ [v])) = max v (Max (set vs))" using d by (simp_all add: holds_def)
    then show ?thesis unfolding max_def by (auto simp del: Max_less_iff Max_gr_iff Max_le_iff Max_ge_iff)
  qed (use d in \<open>simp add: holds_def\<close>)
  have "holds bs (vs @ [v]) ?d3"
    unfolding holds_def sel using counts min max d k len by (simp add: holds_def)
  with eq sel(5) show ?thesis by blast
qed

lemma Distribution_Adds_ok:
  assumes bs: "sorted_wrt (<) bs"
  shows "holds bs us d \<Longrightarrow> \<exists>d'. foldM Distribution_Add vs d = Some d' \<and> holds bs (us @ vs) d' \<and> dName d' = dName d"
proof (induction vs arbitrary: us d)
  case (Cons v vs)
  obtain d1 where d1: "Distribution_Add v d = Some d1" "holds bs (us @ [v]) d1" "dName d1 = dName d"
    using Distribution_Add_ok[OF bs Cons.prems] by blast
  from Cons.IH[OF d1(2)] d1(1,3) show ?case by simp
qed simp

section \<open>Ranges\<close>

text \<open>
  From a positive start the loop ends, and the list is the geometric one. From a start that is not
  positive the values never grow, and the loop never ends.
\<close>

lemma rangeLoop_returns:
  assumes f: "1 < factor" and v: "0 < v" and n: "high \<le> v * factor ^ n"
  shows "\<exists>k \<le> n. rangeLoop high factor r v = Some (r @ map (\<lambda>i. v * factor ^ i) [0..<k]) \<and>
    high \<le> v * factor ^ k \<and> (\<forall>i < k. v * factor ^ i < high)"
  using v n
proof (induction n arbitrary: r v)
  case 0
  then show ?case by (subst rangeLoop.simps) auto
next
  case (Suc n)
  show ?case
  proof (cases "v < high")
    case False
    then show ?thesis by (subst rangeLoop.simps) (intro exI[of _ 0], simp)
  next
    case True
    have "high \<le> v * factor * factor ^ n" "0 < v * factor" using Suc.prems f by (simp_all add: mult.assoc)
    from Suc.IH[OF this(2,1), of "r @ [v]"] obtain k where k: "k \<le> n"
      "rangeLoop high factor (r @ [v]) (v * factor) = Some ((r @ [v]) @ map (\<lambda>i. v * factor * factor ^ i) [0..<k])"
      "high \<le> v * factor * factor ^ k" "\<forall>i < k. v * factor * factor ^ i < high" by blast
    have "map (\<lambda>i. v * factor ^ i) [0..<Suc k] = v # map (\<lambda>i. v * factor * factor ^ i) [0..<k]"
      by (simp add: upt_conv_Cons map_Suc_upt[symmetric] comp_def mult.assoc del: upt_Suc)
    moreover have "v * factor ^ i < high" if "i < Suc k" for i
      using that k(4) True by (cases i) (simp_all add: mult.assoc)
    ultimately show ?thesis using k True
      by (intro exI[of _ "Suc k"]) (subst rangeLoop.simps, simp add: mult.assoc del: upt_Suc)
  qed
qed

lemma rangeLoop_ends:
  assumes ret: "rangeLoop high factor r v = Some r'" and f: "1 < factor"
  shows "0 < v \<or> high \<le> v"
proof -
  have "1 < factor \<longrightarrow> 0 < v \<or> high \<le> v"
  proof (rule rangeLoop.raw_induct[where P = "\<lambda>high factor r v y. 1 < factor \<longrightarrow> 0 < v \<or> high \<le> v", OF _ ret])
    fix loop :: "real \<Rightarrow> real \<Rightarrow> real list \<Rightarrow> real \<Rightarrow> real list option" and high factor r v y
    assume IH: "\<And>high factor r v y. loop high factor r v = Some y \<Longrightarrow> 1 < factor \<longrightarrow> 0 < v \<or> high \<le> v"
      and step: "(if v < high then loop high factor (r @ [v]) (v * factor) else Some r) = Some y"
    show "1 < factor \<longrightarrow> 0 < v \<or> high \<le> v"
    proof (intro impI)
      assume f: "1 < factor"
      show "0 < v \<or> high \<le> v"
      proof (cases "v < high")
        case True
        with step have "loop high factor (r @ [v]) (v * factor) = Some y" by simp
        with IH f have "0 < v * factor \<or> high \<le> v * factor" by blast
        moreover have "v * factor \<le> v" if "v \<le> 0" using that f mult_left_mono_neg[of 1 factor v] by simp
        ultimately show ?thesis using True by force
      qed auto
    qed
  qed
  with f show ?thesis by simp
qed

lemma DistribRange_eq:
  assumes "low < high" "1 < factor" "0 < low"
  obtains j where "DistribRange low high factor = Some (map (\<lambda>i. low * factor ^ i) [0..<Suc j] @ [high])"
    "low * factor ^ j < high" "high \<le> low * factor ^ Suc j" "sorted_wrt (<) (map (\<lambda>i. low * factor ^ i) [0..<Suc j] @ [high])"
proof -
  obtain n where "high / low < factor ^ n" using real_arch_pow[OF assms(2)] by blast
  then have n: "high \<le> low * factor ^ n" using assms(3) by (simp add: pos_divide_less_eq mult.commute)
  obtain k where k: "rangeLoop high factor [] low = Some (map (\<lambda>i. low * factor ^ i) [0..<k])"
    "high \<le> low * factor ^ k" "\<forall>i < k. low * factor ^ i < high"
    using rangeLoop_returns[OF assms(2,3) n, of "[]"] by auto
  obtain j where j: "k = Suc j" using k(2) assms(1) by (cases k) auto
  have eq: "DistribRange low high factor = Some (map (\<lambda>i. low * factor ^ i) [0..<Suc j] @ [high])"
    using k(1) assms by (simp add: DistribRange_def j del: upt_Suc)
  have "sorted_wrt (<) (map (\<lambda>i. low * factor ^ i) [0..<Suc j] @ [high])"
    using assms(2,3) k(3) unfolding sorted_wrt_append j
    by (auto simp: sorted_wrt_map sorted_wrt_iff_nth_less simp del: upt_Suc)
  with that eq k(2,3) show thesis unfolding j by blast
qed

section \<open>Properties\<close>

text \<open>A new distribution needs a non-empty, strictly increasing list of bounds. After any
  sequence of \<open>Add\<close> calls every bucket holds the number of values between its bounds, modulo
  \<open>2^64\<close>, and the total, the sum, the minimum and the maximum are those of the values.\<close>

theorem distribution_counts_buckets:
  "(case NewDistribution name bs of
      Inl e \<Rightarrow> bs = [] \<or> \<not> sorted_wrt (<) bs
    | Inr d \<Rightarrow> bs \<noteq> [] \<and> sorted_wrt (<) bs \<and>
        (\<exists>d'. foldM Distribution_Add vs d = Some d' \<and> dName d' = name \<and> length (dCounts d') = length bs + 1 \<and>
          list_all (\<lambda>i. dCounts d' ! i = of_nat (length (filter (\<lambda>v. (i = 0 \<or> bs ! (i - 1) \<le> v) \<and> (i = length bs \<or> v < bs ! i)) vs)))
            [0..<length bs + 1] \<and>
          dTotal d' = of_nat (length vs) \<and> dSum d' = sum_list vs \<and>
          dMin d' = (if vs = [] then PosInf else Num (Min (set vs))) \<and>
          dMax d' = (if vs = [] then NegInf else Num (Max (set vs)))))"
proof (cases "NewDistribution name bs")
  case (Inl e)
  then show ?thesis by (auto simp: NewDistribution_def boundsIncrease_iff split: if_splits)
next
  case (Inr d)
  then have bs: "bs \<noteq> []" "sorted_wrt (<) bs" by (auto simp: NewDistribution_def boundsIncrease_iff split: if_splits)
  from holds_new[OF Inr] obtain d' where d': "foldM Distribution_Add vs d = Some d'" "holds bs vs d'" "dName d' = name"
    using Distribution_Adds_ok[OF bs(2), of "[]" d vs] by auto
  with Inr bs show ?thesis
    by (simp add: holds_def inBucket_def[abs_def] list_all_iff less_Suc_eq_le del: upt_Suc)
qed

theorem distribution_counts_buckets_witness:
  "\<exists>d d'. NewDistribution ''test'' [1, 2, 3] = Inr d \<and>
    foldM Distribution_Add [- (1 / 2), 1, 3 / 2, 3, 4] d = Some d' \<and> dCounts d' = [1, 2, 0, 2] \<and> dMin d' = Num (- (1 / 2))"
proof -
  obtain d where d: "NewDistribution ''test'' [1, 2, 3] = Inr d" by (simp add: NewDistribution_def)
  obtain d' where d': "foldM Distribution_Add [- (1 / 2), 1, 3 / 2, 3, 4] d = Some d'" "length (dCounts d') = 4"
    "dCounts d' ! 0 = 1" "dCounts d' ! 1 = 2" "dCounts d' ! 2 = 0" "dCounts d' ! 3 = 2" "dMin d' = Num (- (1 / 2))"
    using distribution_counts_buckets[where name = "''test''" and bs = "[1, 2, 3]" and vs = "[- (1 / 2), 1, 3 / 2, 3, 4]"] d
    by (auto simp: list_all_iff upt_rec numeral_2_eq_2 numeral_3_eq_3 min_def)
  have "dCounts d' = [1, 2, 0, 2]"
    by (rule nth_equalityI) (use d' in \<open>auto simp: less_Suc_eq numeral_eq_Suc\<close>)
  with d d' show ?thesis by blast
qed

text \<open>\<open>DistribRange\<close> returns exactly for a start that is positive or not below the end. Then the
  result starts at \<open>low\<close>, ends at \<open>high\<close>, increases strictly, and each element but the last
  is \<open>factor\<close> times its predecessor. From a start that is zero or negative the loop never ends.\<close>

theorem distribRange_spec:
  assumes "low < high" "1 < factor"
  shows "(DistribRange low high factor \<noteq> None \<longleftrightarrow> 0 < low) \<and>
    (\<forall>r. DistribRange low high factor = Some r \<longrightarrow>
      (\<exists>k. r = map (\<lambda>i. low * factor ^ i) [0..<Suc k] @ [high] \<and> low * factor ^ k < high \<and> high \<le> low * factor ^ Suc k) \<and>
      sorted_wrt (<) r)"
proof (cases "0 < low")
  case False
  then have "rangeLoop high factor [] low = None"
    using rangeLoop_ends[of high factor "[]" low] assms by (cases "rangeLoop high factor [] low") auto
  with False assms show ?thesis by (simp add: DistribRange_def)
next
  case True
  obtain j where j: "DistribRange low high factor = Some (map (\<lambda>i. low * factor ^ i) [0..<Suc j] @ [high])"
    "low * factor ^ j < high" "high \<le> low * factor ^ Suc j" "sorted_wrt (<) (map (\<lambda>i. low * factor ^ i) [0..<Suc j] @ [high])"
    by (rule DistribRange_eq[OF assms True])
  let ?r = "map (\<lambda>i. low * factor ^ i) [0..<Suc j] @ [high]"
  have "\<exists>k. ?r = map (\<lambda>i. low * factor ^ i) [0..<Suc k] @ [high] \<and> low * factor ^ k < high \<and> high \<le> low * factor ^ Suc k"
    using j(2,3) by blast
  then show ?thesis unfolding j(1) option.inject using True j(4) by blast
qed

theorem distribRange_spec_witness: "DistribRange 1 3 2 \<noteq> None \<and> DistribRange 0 3 2 = None"
  using distribRange_spec[of 1 3 2] distribRange_spec[of 0 3 2] by simp

end
