(* ===== verification/GoStrings.thy ===== *)
theory GoStrings
  imports Prelude "HOL-Library.Char_ord" "HOL-Library.List_Lexorder" "HOL-Library.Multiset"
begin

text \<open>
  What the programs use of Go's packages \<open>strings\<close> and \<open>sort\<close>. A Go string is a sequence of bytes, and
  so is a \<open>string\<close> here.
\<close>

section \<open>Package strings\<close>

definition HasPrefix :: "string \<Rightarrow> string \<Rightarrow> bool" where
  "HasPrefix s p \<longleftrightarrow> length p \<le> length s \<and> take (length p) s = p"

definition HasSuffix :: "string \<Rightarrow> string \<Rightarrow> bool" where
  "HasSuffix s p \<longleftrightarrow> length p \<le> length s \<and> drop (length s - length p) s = p"

definition TrimSuffix :: "string \<Rightarrow> string \<Rightarrow> string" where
  "TrimSuffix s p = (if HasSuffix s p then take (length s - length p) s else s)"

text \<open>\<open>Split(s, sep)\<close> for a separator of one byte.\<close>

fun Split :: "char \<Rightarrow> string \<Rightarrow> string list" where
  "Split c [] = [[]]"
| "Split c (x # xs) = (if x = c then [] # Split c xs
     else (case Split c xs of [] \<Rightarrow> [[x]] | y # ys \<Rightarrow> (x # y) # ys))"

fun Join :: "string \<Rightarrow> string list \<Rightarrow> string" where
  "Join sep [] = []"
| "Join sep [x] = x"
| "Join sep (x # y # ys) = x @ sep @ Join sep (y # ys)"

text \<open>\<open>Cut(s, sep)\<close> for a separator of one byte: what is before and after its first occurrence.\<close>

definition Cut :: "char \<Rightarrow> string \<Rightarrow> string \<times> string \<times> bool" where
  "Cut c s = (case dropWhile (\<lambda>x. x \<noteq> c) s of
     [] \<Rightarrow> (s, [], False)
   | y # ys \<Rightarrow> (takeWhile (\<lambda>x. x \<noteq> c) s, ys, True))"

text \<open>\<open>LastIndex(s, sep)\<close> for a separator of one byte.\<close>

definition LastIndex :: "string \<Rightarrow> char \<Rightarrow> int" where
  "LastIndex s c = int (length (dropWhile (\<lambda>x. x \<noteq> c) (rev s))) - 1"

text \<open>A number in decimal digits, as \<open>%d\<close> writes it.\<close>

fun digits :: "nat \<Rightarrow> string" where
  "digits n = (if n < 10 then [] else digits (n div 10)) @ [char_of (48 + n mod 10)]"

declare digits.simps [simp del]

lemma HasPrefix_iff: "HasPrefix s p \<longleftrightarrow> (\<exists>r. s = p @ r)"
  by (metis HasPrefix_def append_eq_conv_conj append_take_drop_id length_append le_add1)

lemma HasSuffix_iff: "HasSuffix s p \<longleftrightarrow> (\<exists>r. s = r @ p)"
proof
  assume "HasSuffix s p"
  then show "\<exists>r. s = r @ p" by (metis HasSuffix_def append_take_drop_id)
qed (auto simp: HasSuffix_def)

lemma HasPrefix_append [simp]: "HasPrefix (p @ r) p"
  by (auto simp: HasPrefix_iff)

lemma TrimSuffix_append [simp]: "TrimSuffix (s @ p) p = s"
  by (simp add: TrimSuffix_def HasSuffix_def)

lemma Split_nonempty [simp]: "Split c s \<noteq> []"
  by (induction s) (auto split: list.splits)

lemma Join_Cons: "xs \<noteq> [] \<Longrightarrow> Join sep (x # xs) = x @ sep @ Join sep xs"
  by (cases xs) simp_all

lemma Join_Split: "Join [c] (Split c s) = s"
proof (induction s)
  case (Cons x xs)
  obtain y ys where "Split c xs = y # ys" by (cases "Split c xs") auto
  with Cons show ?case by (cases ys) (auto simp: Join_Cons)
qed simp

lemma Split_inj: "Split c s = Split c t \<Longrightarrow> s = t"
  by (metis Join_Split)

lemma Split_no_sep: "x \<in> set (Split c s) \<Longrightarrow> c \<notin> set x"
  by (induction s arbitrary: x) (auto split: if_splits list.splits)

lemma Split_append: "c \<notin> set x \<Longrightarrow> Split c (x @ c # s) = x # Split c s"
  by (induction x) auto

lemma Split_single: "c \<notin> set x \<Longrightarrow> Split c x = [x]"
  by (induction x) auto

lemma Split_Join: "xs \<noteq> [] \<Longrightarrow> \<forall>x \<in> set xs. c \<notin> set x \<Longrightarrow> Split c (Join [c] xs) = xs"
proof (induction xs rule: induct_list012)
  case (3 x y zs)
  then show ?case by (simp add: Split_append)
qed (simp_all add: Split_single)

lemma Cut_found: "c \<notin> set k \<Longrightarrow> Cut c (k @ c # v) = (k, v, True)"
proof -
  assume "c \<notin> set k"
  then have "dropWhile (\<lambda>x. x \<noteq> c) (k @ c # v) = c # v" "takeWhile (\<lambda>x. x \<noteq> c) (k @ c # v) = k"
    by (induction k) auto
  then show ?thesis by (simp add: Cut_def)
qed

lemma Cut_missing: "c \<notin> set s \<Longrightarrow> Cut c s = (s, [], False)"
proof -
  assume "c \<notin> set s"
  then have d: "dropWhile (\<lambda>x. x \<noteq> c) s = []" by auto
  show ?thesis unfolding Cut_def d by simp
qed

lemma Cut_cases:
  obtains (found) k v where "s = k @ c # v" "c \<notin> set k" "Cut c s = (k, v, True)"
    | (missing) "c \<notin> set s" "Cut c s = (s, [], False)"
  by (metis Cut_found Cut_missing split_list_first)

lemma LastIndex_none: "LastIndex s c < 0 \<longleftrightarrow> c \<notin> set s"
  by (auto simp: LastIndex_def)

lemma LastIndex_found: "c \<notin> set t \<Longrightarrow> LastIndex (s @ c # t) c = int (length s)"
proof -
  assume "c \<notin> set t"
  then have "dropWhile (\<lambda>x. x \<noteq> c) (rev t @ c # rev s) = c # rev s"
    by (induction t rule: rev_induct) auto
  then show ?thesis by (simp add: LastIndex_def)
qed

section \<open>Package sort\<close>

text \<open>
  \<open>sort.Slice\<close> with its comparison. The library promises a sorted permutation but no order of equal
  elements. This one keeps the order of equal elements; where it is used, the input order is
  the unspecified order of a Go map, so every order of equal elements is covered.
\<close>

fun insertBy :: "('a \<Rightarrow> 'a \<Rightarrow> bool) \<Rightarrow> 'a \<Rightarrow> 'a list \<Rightarrow> 'a list" where
  "insertBy before x [] = [x]"
| "insertBy before x (y # ys) = (if before y x then y # insertBy before x ys else x # y # ys)"

definition sortSlice :: "('a \<Rightarrow> 'a \<Rightarrow> bool) \<Rightarrow> 'a list \<Rightarrow> 'a list" where
  "sortSlice before xs = foldr (insertBy before) xs []"

lemma mset_insertBy [simp]: "mset (insertBy before x ys) = add_mset x (mset ys)"
  by (induction ys) simp_all

lemma mset_sortSlice [simp]: "mset (sortSlice before xs) = mset xs"
  by (induction xs) (simp_all add: sortSlice_def)

lemma set_sortSlice [simp]: "set (sortSlice before xs) = set xs"
  by (metis mset_sortSlice set_mset_mset)

lemma set_insertBy [simp]: "set (insertBy before x ys) = insert x (set ys)"
  by (metis mset_insertBy set_mset_mset set_mset_add_mset_insert)

text \<open>For a comparison by a key the result is in the order of the keys.\<close>

lemma sorted_insertBy:
  fixes key :: "'a \<Rightarrow> 'k::linorder"
  assumes "\<And>x y. before x y \<longleftrightarrow> key x < key y"
  shows "sorted_wrt (\<lambda>x y. key x \<le> key y) ys \<Longrightarrow> sorted_wrt (\<lambda>x y. key x \<le> key y) (insertBy before x ys)"
  by (induction ys) (auto simp: assms not_less intro: order_trans)

lemma sorted_sortSlice:
  fixes key :: "'a \<Rightarrow> 'k::linorder"
  assumes "\<And>x y. before x y \<longleftrightarrow> key x < key y"
  shows "sorted_wrt (\<lambda>x y. key x \<le> key y) (sortSlice before xs)"
  by (induction xs) (simp_all add: sortSlice_def sorted_insertBy[OF assms])

lemma insertBy_map:
  assumes "\<And>x y. before (f x) (f y) = before' x y"
  shows "insertBy before (f x) (map f ys) = map f (insertBy before' x ys)"
  by (induction ys) (simp_all add: assms)

lemma sortSlice_map:
  assumes "\<And>x y. before (f x) (f y) = before' x y"
  shows "sortSlice before (map f xs) = map f (sortSlice before' xs)"
  by (induction xs) (simp_all add: sortSlice_def insertBy_map[where f = f and before = before and before' = before', OF assms])

end
