(* ===== verification/TopicMatch.thy ===== *)
theory TopicMatch
  imports GoStrings "HOL-Library.Product_Lexorder"
begin

text \<open>
  Topic subscriptions and the mapping from topics to message types, \<open>solaz/internal/solace/topic_match.go\<close>:
  the matcher against the rules for wildcards, and \<open>Lookup\<close> against the definition of the most specific
  match. A Go map is the list of its entries in an arbitrary order, with distinct keys.
\<close>

section \<open>Matching\<close>

text \<open>The loop of \<open>matchTopicLevels\<close> at index \<open>i\<close>; the last argument is \<open>pl[i:]\<close>.\<close>

fun matchFrom :: "string list \<Rightarrow> string list \<Rightarrow> nat \<Rightarrow> string list \<Rightarrow> bool" where
  "matchFrom ts pl i [] = (length ts = length pl)"
| "matchFrom ts pl i (p # ps) =
    (if p = ''>'' then (if i \<noteq> length pl - 1 then False else length ts > i)
     else if i \<ge> length ts then False
     else if HasSuffix p ''*'' then
       (if \<not> HasPrefix (ts ! i) (take (length p - 1) p) then False else matchFrom ts pl (i + 1) ps)
     else if p \<noteq> ts ! i then False
     else matchFrom ts pl (i + 1) ps)"

definition matchTopicLevels :: "string list \<Rightarrow> string list \<Rightarrow> bool" where
  "matchTopicLevels ts pl = matchFrom ts pl 0 pl"

section \<open>The index\<close>

record topicTypeEntry =
  tePattern :: string
  teMsgType :: string
  teSegments :: "string list"
  teSpecificity :: int

definition segSpecificity :: "string \<Rightarrow> int" where
  "segSpecificity s = (if s = ''*'' \<or> s = ''>'' then 0 else if HasSuffix s ''*'' then 1 else 2)"

definition newEntry :: "string \<times> string \<Rightarrow> topicTypeEntry" where
  "newEntry m = (let segs = Split CHR ''/'' (fst m) in
     \<lparr>tePattern = fst m, teMsgType = snd m, teSegments = segs,
      teSpecificity = fold (\<lambda>s spec. spec + segSpecificity s) segs 0\<rparr>)"

definition entryBefore :: "topicTypeEntry \<Rightarrow> topicTypeEntry \<Rightarrow> bool" where
  "entryBefore a b = (if teSpecificity a \<noteq> teSpecificity b then teSpecificity a > teSpecificity b
     else length (teSegments a) > length (teSegments b))"

text \<open>\<open>None\<close> is the nil index.\<close>

definition newTopicTypeIndex :: "(string \<times> string) list \<Rightarrow> topicTypeEntry list option" where
  "newTopicTypeIndex mappings = (if length mappings = 0 then None
     else Some (sortSlice entryBefore (map newEntry mappings)))"

datatype lookup_error = AmbiguousTopic (ambTopic: string) (ambFirst: string) (ambSecond: string)

text \<open>The loop of \<open>Lookup\<close> and what follows it; the last argument is \<open>matched\<close>.\<close>

fun lookupFrom :: "string \<Rightarrow> string list \<Rightarrow> topicTypeEntry list \<Rightarrow> topicTypeEntry option \<Rightarrow> lookup_error + string" where
  "lookupFrom topic ts [] matched = (case matched of None \<Rightarrow> Inr [] | Some m \<Rightarrow> Inr (teMsgType m))"
| "lookupFrom topic ts (e # es) None =
    (if \<not> matchTopicLevels ts (teSegments e) then lookupFrom topic ts es None
     else lookupFrom topic ts es (Some e))"
| "lookupFrom topic ts (e # es) (Some m) =
    (if teSpecificity e \<noteq> teSpecificity m \<or> length (teSegments e) \<noteq> length (teSegments m) then Inr (teMsgType m)
     else if \<not> matchTopicLevels ts (teSegments e) then lookupFrom topic ts es (Some m)
     else Inl (AmbiguousTopic topic (tePattern m) (tePattern e)))"

definition Lookup :: "topicTypeEntry list option \<Rightarrow> string \<Rightarrow> lookup_error + string" where
  "Lookup idx topic = (case idx of None \<Rightarrow> Inr []
     | Some entries \<Rightarrow> lookupFrom topic (Split CHR ''/'' topic) entries None)"

section \<open>The rules for wildcards\<close>

text \<open>
  The rules for subscriptions: \<open>>\<close> as the last level stands for one or more levels, a level that
  ends in \<open>*\<close> for one level with that prefix, any other level for itself.
\<close>

inductive levelMatches :: "string \<Rightarrow> string \<Rightarrow> bool" where
  wild: "levelMatches (p @ r) (p @ ''*'')"
| literal: "\<not> (\<exists>q. p = q @ ''*'') \<Longrightarrow> levelMatches p p"

inductive topicMatches :: "string list \<Rightarrow> string list \<Rightarrow> bool" where
  empty: "topicMatches [] []"
| rest: "topicMatches (l # ls) [''>'']"
| level: "p \<noteq> ''>'' \<Longrightarrow> levelMatches l p \<Longrightarrow> topicMatches ls ps \<Longrightarrow> topicMatches (l # ls) (p # ps)"

inductive_simps topicMatches_Nil [simp]: "topicMatches ls []"
inductive_simps topicMatches_Cons: "topicMatches ls (p # ps)"
inductive_cases levelMatches_cases: "levelMatches l p"

lemma levelMatches_iff:
  "levelMatches l p \<longleftrightarrow> (if HasSuffix p ''*'' then HasPrefix l (take (length p - 1) p) else p = l)"
proof
  assume "levelMatches l p"
  then show "if HasSuffix p ''*'' then HasPrefix l (take (length p - 1) p) else p = l"
    by (cases rule: levelMatches_cases) (auto simp: HasSuffix_iff)
next
  assume r: "if HasSuffix p ''*'' then HasPrefix l (take (length p - 1) p) else p = l"
  show "levelMatches l p"
  proof (cases "HasSuffix p ''*''")
    case True
    then obtain q where "p = q @ ''*''" by (auto simp: HasSuffix_iff)
    with r True show ?thesis by (auto simp: HasPrefix_iff intro: wild)
  next
    case False
    with r show ?thesis by (auto simp: HasSuffix_iff intro: literal)
  qed
qed

lemma matchFrom_iff:
  "length us = length qs \<Longrightarrow>
    matchFrom (us @ ts) (qs @ ps) (length us) ps \<longleftrightarrow> topicMatches ts ps"
proof (induction ps arbitrary: us qs ts)
  case (Cons p ps)
  show ?case
  proof (cases ts)
    case Nil
    then show ?thesis using Cons.prems by (auto simp: topicMatches_Cons)
  next
    case (Cons t ts')
    have IH: "matchFrom (us @ t # ts') (qs @ p # ps) (Suc (length us)) ps \<longleftrightarrow> topicMatches ts' ps"
      using Cons.IH[of "us @ [t]" "qs @ [p]" ts'] Cons.prems by simp
    show ?thesis
    proof (cases "p = ''>''")
      case True
      then show ?thesis using Cons.prems Cons by (cases ps) (auto simp: topicMatches_Cons)
    next
      case False
      then show ?thesis using IH Cons by (auto simp: topicMatches_Cons levelMatches_iff)
    qed
  qed
qed simp

text \<open>C13. The matcher on split topics accepts exactly what the rules for wildcards allow.\<close>

theorem matchTopicLevels_iff_rules: "matchTopicLevels ts pl = topicMatches ts pl"
  using matchFrom_iff[of "[]" "[]" ts pl] by (simp add: matchTopicLevels_def)

section \<open>The most specific match\<close>

text \<open>A topic matches a pattern; how specific a pattern is: first the sum over its levels, then
  the number of levels.\<close>

definition patternMatches :: "string \<Rightarrow> string \<Rightarrow> bool" where
  "patternMatches topic pat = topicMatches (Split CHR ''/'' topic) (Split CHR ''/'' pat)"

definition specificity :: "string \<Rightarrow> int" where
  "specificity pat = sum_list (map segSpecificity (Split CHR ''/'' pat))"

definition moreSpecific :: "string \<Rightarrow> string \<Rightarrow> bool" where
  "moreSpecific p q \<longleftrightarrow> specificity p > specificity q \<or>
     specificity p = specificity q \<and> length (Split CHR ''/'' p) > length (Split CHR ''/'' q)"

text \<open>The entries of the mapping that match and that no matching entry is more specific than.\<close>

definition bestMatches :: "(string \<times> string) list \<Rightarrow> string \<Rightarrow> (string \<times> string) set" where
  "bestMatches ms topic = {m \<in> set ms. patternMatches topic (fst m) \<and>
     (\<forall>n \<in> set ms. patternMatches topic (fst n) \<longrightarrow> \<not> moreSpecific (fst n) (fst m))}"

definition key :: "string \<times> string \<Rightarrow> int \<times> int" where
  "key m = (- specificity (fst m), - int (length (Split CHR ''/'' (fst m))))"

lemma moreSpecific_key: "moreSpecific (fst m) (fst n) \<longleftrightarrow> key m < key n"
  by (auto simp: moreSpecific_def key_def)

lemma fold_plus: "fold (\<lambda>s spec. spec + f s) xs (a::int) = a + sum_list (map f xs)"
  by (induction xs arbitrary: a) simp_all

lemma newEntry_sel [simp]:
  "tePattern (newEntry m) = fst m" "teMsgType (newEntry m) = snd m" "teSegments (newEntry m) = Split CHR ''/'' (fst m)"
  "teSpecificity (newEntry m) = specificity (fst m)"
  by (simp_all add: newEntry_def Let_def fold_plus specificity_def)

lemma entryBefore_newEntry: "entryBefore (newEntry m) (newEntry n) \<longleftrightarrow> key m < key n"
  unfolding moreSpecific_key[symmetric] by (auto simp: entryBefore_def moreSpecific_def)

lemma matches_newEntry: "matchTopicLevels (Split CHR ''/'' topic) (Split CHR ''/'' pat) = patternMatches topic pat"
  using matchFrom_iff[of "[]" "[]" "Split CHR ''/'' topic" "Split CHR ''/'' pat"]
  by (simp add: matchTopicLevels_def patternMatches_def)

definition sorted_maps :: "(string \<times> string) list \<Rightarrow> bool" where
  "sorted_maps ns \<longleftrightarrow> sorted_wrt (\<lambda>m n. key m \<le> key n) ns"

abbreviation byKey :: "(string \<times> string) list \<Rightarrow> (string \<times> string) list" where
  "byKey \<equiv> sortSlice (\<lambda>m n. key m < key n)"

lemma index_entries:
  "newTopicTypeIndex ms = (if ms = [] then None else Some (map newEntry (byKey ms)))"
  by (simp add: newTopicTypeIndex_def sortSlice_map[of entryBefore newEntry, OF entryBefore_newEntry])

lemma lookup_rest:
  assumes "sorted_maps (m # ns)"
  shows "lookupFrom topic (Split CHR ''/'' topic) (map newEntry ns) (Some (newEntry m)) =
    (case filter (\<lambda>n. patternMatches topic (fst n) \<and> key n = key m) ns of
       [] \<Rightarrow> Inr (snd m) | n # _ \<Rightarrow> Inl (AmbiguousTopic topic (fst m) (fst n)))"
  using assms
proof (induction ns)
  case (Cons n ns)
  have IH: "lookupFrom topic (Split CHR ''/'' topic) (map newEntry ns) (Some (newEntry m)) =
    (case filter (\<lambda>n. patternMatches topic (fst n) \<and> key n = key m) ns of
       [] \<Rightarrow> Inr (snd m) | n # _ \<Rightarrow> Inl (AmbiguousTopic topic (fst m) (fst n)))"
    by (rule Cons.IH) (use Cons.prems in \<open>auto simp: sorted_maps_def\<close>)
  have same: "(specificity (fst n) \<noteq> specificity (fst m) \<or>
      length (Split CHR ''/'' (fst n)) \<noteq> length (Split CHR ''/'' (fst m))) \<longleftrightarrow> key n \<noteq> key m"
    by (auto simp: key_def)
  show ?case
  proof (cases "key n = key m")
    case True
    with same IH show ?thesis by (simp add: matches_newEntry)
  next
    case False
    then have "\<forall>x \<in> set (n # ns). key x \<noteq> key m" using Cons.prems by (fastforce simp: sorted_maps_def)
    then have "filter (\<lambda>n. patternMatches topic (fst n) \<and> key n = key m) (n # ns) = []" by (auto simp: filter_empty_conv)
    with same False show ?thesis by simp
  qed
qed simp

lemma lookup_sorted:
  assumes "sorted_maps ns"
  shows "lookupFrom topic (Split CHR ''/'' topic) (map newEntry ns) None =
    (case filter (\<lambda>n. patternMatches topic (fst n)) ns of [] \<Rightarrow> Inr []
     | m # rest \<Rightarrow> (case filter (\<lambda>n. key n = key m) rest of
         [] \<Rightarrow> Inr (snd m) | n # _ \<Rightarrow> Inl (AmbiguousTopic topic (fst m) (fst n))))"
  using assms
proof (induction ns)
  case (Cons n ns)
  then have ns: "sorted_maps ns" by (simp add: sorted_maps_def)
  show ?case
  proof (cases "patternMatches topic (fst n)")
    case False
    then show ?thesis using Cons.IH[OF ns] by (simp add: matches_newEntry)
  next
    case True
    then show ?thesis using lookup_rest[OF Cons.prems, of topic] by (simp add: matches_newEntry conj_commute)
  qed
qed simp

lemma sorted_byKey: "sorted_maps (byKey ms)"
  unfolding sorted_maps_def by (rule sorted_sortSlice) simp

text \<open>The best matches are the elements of the sorted list that \<open>lookup_sorted\<close> looks at.\<close>

lemma best_sorted:
  assumes "filter (\<lambda>n. patternMatches topic (fst n)) (byKey ms) = m # rest"
  shows "bestMatches ms topic = insert m (set (filter (\<lambda>n. key n = key m) rest))"
proof -
  have set: "set (m # rest) = {n \<in> set ms. patternMatches topic (fst n)}" unfolding assms[symmetric] by simp
  have "sorted_wrt (\<lambda>m n. key m \<le> key n) (m # rest)"
    unfolding assms[symmetric] using sorted_byKey[of ms] by (simp add: sorted_maps_def sorted_wrt_filter)
  then have le: "\<forall>n \<in> set rest. key m \<le> key n" by simp
  have best: "x \<in> bestMatches ms topic \<longleftrightarrow> x \<in> set (m # rest) \<and> (\<forall>n \<in> set (m # rest). key x \<le> key n)" for x
    unfolding bestMatches_def moreSpecific_key not_less set by blast
  have "x \<in> bestMatches ms topic \<longleftrightarrow> x = m \<or> x \<in> set rest \<and> key x = key m" for x
  proof
    assume "x \<in> bestMatches ms topic"
    then have "x = m \<or> x \<in> set rest \<and> key x \<le> key m" using best[of x] by auto
    then show "x = m \<or> x \<in> set rest \<and> key x = key m" using le by (metis order.antisym)
  next
    assume "x = m \<or> x \<in> set rest \<and> key x = key m"
    then have "x \<in> set (m # rest)" "key x = key m" by auto
    with le show "x \<in> bestMatches ms topic" using best[of x] by simp
  qed
  then show ?thesis by auto
qed

text \<open>C12. Whatever the order of the map, \<open>Lookup\<close> returns the message type of the most specific
  pattern that matches, no type if none matches, and an error that names two of the patterns if
  several equally specific ones are best.\<close>

theorem lookup_most_specific:
  assumes "distinct (map fst ms)"
  shows "case Lookup (newTopicTypeIndex ms) topic of
      Inr t \<Rightarrow> (\<forall>m \<in> set ms. \<not> patternMatches topic (fst m)) \<and> t = [] \<or> (\<exists>p. bestMatches ms topic = {(p, t)})
    | Inl e \<Rightarrow> \<exists>m n. {m, n} \<subseteq> bestMatches ms topic \<and> fst m \<noteq> fst n \<and> e = AmbiguousTopic topic (fst m) (fst n)"
proof (cases "filter (\<lambda>n. patternMatches topic (fst n)) (byKey ms)")
  case Nil
  then have "\<forall>m \<in> set ms. \<not> patternMatches topic (fst m)" by (auto simp: filter_empty_conv)
  moreover have "Lookup (newTopicTypeIndex ms) topic = Inr []"
    using lookup_sorted[OF sorted_byKey[of ms], of topic] Nil by (simp add: Lookup_def index_entries)
  ultimately show ?thesis by simp
next
  case (Cons m rest)
  have ne: "ms \<noteq> []" using Cons by (auto simp: sortSlice_def)
  have r: "Lookup (newTopicTypeIndex ms) topic = (case filter (\<lambda>n. key n = key m) rest of
      [] \<Rightarrow> Inr (snd m) | n # _ \<Rightarrow> Inl (AmbiguousTopic topic (fst m) (fst n)))"
    using lookup_sorted[OF sorted_byKey[of ms], of topic] Cons ne by (simp add: Lookup_def index_entries)
  note best = best_sorted[OF Cons]
  show ?thesis
  proof (cases "filter (\<lambda>n. key n = key m) rest")
    case Nil
    then show ?thesis using r best by (cases m) auto
  next
    case (Cons n ns)
    have "mset (map fst (byKey ms)) = mset (map fst ms)" by simp
    then have "distinct (map fst (byKey ms))" using assms by (metis mset_eq_imp_distinct_iff)
    then have "distinct (map fst (m # rest))" unfolding \<open>_ = m # rest\<close>[symmetric] by (rule distinct_map_filter)
    moreover have "n \<in> set rest" using Cons by (metis filter_is_subset list.set_intros(1) subsetD)
    ultimately have "fst m \<noteq> fst n" by force
    moreover have "{m, n} \<subseteq> bestMatches ms topic" unfolding best Cons by simp
    moreover have "Lookup (newTopicTypeIndex ms) topic = Inl (AmbiguousTopic topic (fst m) (fst n))" using r Cons by simp
    ultimately show ?thesis by (simp only: sum.case) blast
  qed
qed

theorem lookup_most_specific_witness:
  "\<exists>p. bestMatches [(''a/>'', ''T''), (''a/b'', ''V''), (''a/*'', ''U'')] ''a/b'' = {(p, ''V'')}"
proof -
  have "Lookup (newTopicTypeIndex [(''a/>'', ''T''), (''a/b'', ''V''), (''a/*'', ''U'')]) ''a/b'' = Inr ''V''"
    by code_simp
  with lookup_most_specific[of "[(''a/>'', ''T''), (''a/b'', ''V''), (''a/*'', ''U'')]" "''a/b''"]
  show ?thesis by auto
qed

end
