(* ===== verification/Solo.thy ===== *)
theory Solo
  imports Games
begin

text \<open>
  Games in which only player 1 has moved. The game master hands out player numbers as clients
  arrive, and a game runs before the second player is there. When such a game ends, the master looks
  up the name of the winner among the players that have arrived, so it relies on a fact about the
  engines: a player who has not moved does not win. \<open>joinable_engine\<close> states it.
\<close>

locale joinable_engine = game_engine +
  fixes solo :: "'a \<Rightarrow> bool"
  assumes solo_reset: "inv e \<Longrightarrow> reset e = Some e' \<Longrightarrow> solo e'"
    and solo_move: "inv e \<Longrightarrow> solo e \<Longrightarrow> mvPlayer m = 1 \<Longrightarrow> make_move e m = Some (e', ok) \<Longrightarrow> solo e'"
    and solo_winner: "inv e \<Longrightarrow> solo e \<Longrightarrow> winner e \<le> 1"
begin

text \<open>The winner is one of the \<open>n\<close> players that have arrived.\<close>

lemma winner_present:
  assumes "inv e" "n = 1 \<longrightarrow> solo e" "1 \<le> n" "num_players e \<le> 2"
  shows "winner e \<le> n"
  using assms solo_winner[of e] winner_range[of e] by (cases "n = 1") auto

end

section \<open>Classic\<close>

definition allCells :: "(field \<Rightarrow> bool) \<Rightarrow> board \<Rightarrow> bool" where
  "allCells P b \<longleftrightarrow> (\<forall>f \<in> set (FlatFields b). P f)"

lemma foldM_inv:
  assumes "foldM f xs s = Some t" "P s" "\<And>x u v. x \<in> set xs \<Longrightarrow> P u \<Longrightarrow> f x u = Some v \<Longrightarrow> P v"
  shows "P t"
  using assms
proof (induction xs arbitrary: s)
  case (Cons x xs)
  then obtain u where u: "f x s = Some u" "foldM f xs u = Some t" by (auto split: Option.bind_splits)
  from Cons.prems(3)[OF _ Cons.prems(2) u(1)] have "P u" by simp
  from Cons.IH[OF u(2) this] Cons.prems(3) show ?case by auto
qed simp

lemma getField_all: "getField b x = Some f \<Longrightarrow> allCells P b \<Longrightarrow> P f"
  by (auto simp: getField_def allCells_def split: if_splits)

lemma setField_all: "setField b x f = Some b' \<Longrightarrow> allCells P b \<Longrightarrow> P f \<Longrightarrow> allCells P b'"
  using set_update_subset_insert by (fastforce simp: setField_def allCells_def split: if_splits)

lemma allCells_map: "allCells P b \<Longrightarrow> (\<And>f. P f \<Longrightarrow> P (h f)) \<Longrightarrow> allCells P (b\<lparr>FlatFields := map h (FlatFields b)\<rparr>)"
  by (auto simp: allCells_def)

abbreviation notOf2 :: "board \<Rightarrow> bool" where
  "notOf2 \<equiv> allCells (\<lambda>f. Owner f \<noteq> 2)"

lemma notOf2_scalar [simp]:
  "allCells P (b\<lparr>Move := k\<rparr>) = allCells P b" "allCells P (b\<lparr>Turn := k\<rparr>) = allCells P b"
  "allCells P (b\<lparr>Resources := rs\<rparr>) = allCells P b" "allCells P (b\<lparr>LastRevealed := k\<rparr>) = allCells P b"
  "allCells P (b\<lparr>Score := sc\<rparr>) = allCells P b" "allCells P (b\<lparr>State := st\<rparr>) = allCells P b"
  by (simp_all add: allCells_def)

text \<open>Writing back a cell that has been read and changed, but not handed to player 2.\<close>

lemma notOf2_edit:
  assumes "Option.bind (getField u x) (\<lambda>f. setField u x (h f)) = Some v" "notOf2 u"
    and "\<And>f. Owner f \<noteq> 2 \<Longrightarrow> Owner (h f) \<noteq> 2"
  shows "notOf2 v \<and> Score v = Score u"
proof -
  from assms(1) obtain f where f: "getField u x = Some f" "setField u x (h f) = Some v" by (auto split: Option.bind_splits)
  have "notOf2 v" by (rule setField_all[OF f(2) assms(2)]) (use assms(3) getField_all[OF f(1) assms(2)] in blast)
  with f(2) show ?thesis by (auto simp: setField_def split: if_splits)
qed

lemma notOf2_showAll:
  assumes "revealHiddenMoves b = Some b'" "notOf2 b"
  shows "notOf2 b' \<and> Score b' = Score b"
  using assms(1) unfolding revealHiddenMoves_def
proof (rule foldM_inv)
  fix x u v
  assume u: "notOf2 u \<and> Score u = Score b"
    and s: "Option.bind (getField u x) (\<lambda>f. setField u x (f\<lparr>Hidden := False\<rparr>)) = Some v"
  show "notOf2 v \<and> Score v = Score b" using notOf2_edit[OF s] u by simp
qed (use assms(2) in simp)

lemma notOf2_occupyFields:
  assumes wf: "wf_board b" "flags_ok b" "valid b x" and b: "notOf2 b" and r: "occupyFields b 1 x ct = Some (b', n)"
  shows "notOf2 b'"
proof -
  let ?b1 = "pieceAt b 1 x ct"
  obtain b2 n2 where s: "occupyFields b 1 x ct = Some (b2, n2)" "same_frame ?b1 b2"
    "if card (splitAreas ?b1 x) \<le> 1 then b2 = ?b1 \<and> n2 = 1
     else \<exists>R \<in> splitAreas ?b1 x. (\<forall>R' \<in> splitAreas ?b1 x. count isFree ?b1 R \<le> count isFree ?b1 R') \<and>
       n2 = 1 + count isFree ?b1 R \<and>
       (\<forall>y. valid b y \<longrightarrow> fld b2 y = (if y \<in> R \<and> isFree (fld ?b1 y)
          then (fld ?b1 y)\<lparr>Owner := areaWinner ?b1 1 ct R, Lifetime := -1\<rparr> else fld ?b1 y))"
    using occupyFields_spec[OF wf, where p = 1 and ct = ct] by auto
  then have eq: "b' = b2" using r by simp
  have one: "notOf2 ?b1" unfolding allCells_def pieceAt_def
    by (rule ball_updf[OF wf(1,3)]) (use b in \<open>simp_all add: allCells_def\<close>)
  note shape = pieceAt_simps[OF wf(1,3), where p = 1 and ct = ct, simplified]
  have own: "Owner (fld ?b1 y) \<noteq> 2" if "valid b y" for y
    using one ball_fields[of ?b1 "\<lambda>f. Owner f \<noteq> 2"] shape(1,2) that by (simp add: allCells_def)
  show ?thesis
  proof (cases "card (splitAreas ?b1 x) \<le> 1")
    case True
    with s(3) eq one show ?thesis by simp
  next
    case False
    then obtain R where R: "R \<in> splitAreas ?b1 x" "\<forall>y. valid b y \<longrightarrow> fld b2 y = (if y \<in> R \<and> isFree (fld ?b1 y)
          then (fld ?b1 y)\<lparr>Owner := areaWinner ?b1 1 ct R, Lifetime := -1\<rparr> else fld ?b1 y)"
      using s(3) by auto
    have val: "valid b y" if "y \<in> R" for y
      using that R(1) shape(2,3) region_valid[of y ?b1] neighbors_valid[of _ ?b1 x] by (auto simp: splitAreas_def)
    have "{y \<in> R. isFlag 2 (fld ?b1 y)} = {}" using own val by (auto simp: isFlag_def)
    then have "count (isFlag 2) ?b1 R = 0" unfolding count_def by (simp only: card.empty of_nat_0)
    moreover have "0 \<le> count (isFlag 1) ?b1 R" by (simp add: count_def)
    ultimately have "areaWinner ?b1 1 ct R = 1" by (auto simp: areaWinner_def)
    with R(2) own have "Owner (fld b2 y) \<noteq> 2" if "valid b y" for y using that by auto
    moreover have "wf_board b2" "valid b2 = valid b" using same_frame_sel[OF s(2)] shape by simp_all
    ultimately show ?thesis using ball_fields[of b2 "\<lambda>f. Owner f \<noteq> 2"] eq by (simp add: allCells_def)
  qed
qed

lemma notOf2_reveal:
  assumes "revealAndClean b = Some b'" "notOf2 b"
  shows "notOf2 b'"
proof -
  from assms(1) obtain b1 b2 b3 where r: "revealHiddenMoves b = Some b1" "applyPestEffect b1 = Some b2"
    "cleanUp b2 = Some b3" "b' = b3\<lparr>LastRevealed := Move b3\<rparr>"
    by (auto simp: revealAndClean_def split: Option.bind_splits)
  have "notOf2 b1" using notOf2_showAll[OF r(1) assms(2)] by simp
  with r(2) have "notOf2 b2" unfolding applyPestEffect_def
  proof (rule foldM_inv)
    fix x u v
    assume u: "notOf2 u" "spreadPest x u = Some v"
    have inf: "notOf2 v'" if i: "infect x y u' = Some v'" "notOf2 u'" for y u' v'
    proof -
      obtain f q where f: "getField u' y = Some f" "getField u' x = Some q"
        using i(1) by (auto simp: infect_def split: Option.bind_splits)
      have "Owner q \<noteq> 2" by (rule getField_all[OF f(2) i(2)])
      with i f show ?thesis
        using setField_all[OF _ i(2), of y "f\<lparr>Owner := Owner q, Type := CellPest, Lifetime := Classic_lifetime CellPest\<rparr>" v']
        by (auto simp: infect_def split: if_splits)
    qed
    have "foldM (infect x) ys u' = Some v' \<Longrightarrow> notOf2 u' \<Longrightarrow> notOf2 v'" for ys u' v'
      by (rule foldM_inv) (auto intro: inf)
    with u show "notOf2 v" by (auto simp: spreadPest_def split: Option.bind_splits if_splits)
  qed
  with r(3) have "notOf2 b3" unfolding cleanUp_def
  proof (rule foldM_inv)
    fix x u v
    assume u: "notOf2 u" "Option.bind (getField u x) (\<lambda>f. setField u x (cleanCell f)) = Some v"
    show "notOf2 v" by (rule notOf2_edit[OF u(2,1), THEN conjunct1]) (auto simp: cleanCell_def Let_def)
  qed
  with r(4) show ?thesis by simp
qed

lemma notOf2_applyPiece:
  assumes inv: "classic_inv b" and b: "notOf2 b" "Turn b = 1" and x: "valid b (Idx (mvRow m) (mvCol m))"
    and r: "applyPiece b m = Some (Some (b', n, reveal))"
  shows "notOf2 b'"
proof -
  let ?x = "Idx (mvRow m) (mvCol m)"
  have wf: "wf_board (b\<lparr>Move := k\<rparr>)" "flags_ok (b\<lparr>Move := k\<rparr>)" "valid (b\<lparr>Move := k\<rparr>) ?x" for k
    using inv x cells_okD[of "b\<lparr>Move := k\<rparr>"] by (simp_all add: classic_inv_def)
  obtain f where f: "getField b ?x = Some f" using x wf(1)[of "Move b"] by (auto simp: go_simps)
  have fire: "notOf2 v" if "applyFireEffect u ?x = Some v" "notOf2 u" for u v
    using that(1) unfolding applyFireEffect_def
  proof (rule foldM_inv)
    fix y u v
    assume u: "notOf2 u" and s: "Option.bind (getField u y) (\<lambda>f. setField u y
      (f\<lparr>Owner := 0, Type := CellDead, Hidden := False, Lifetime := Classic_lifetime CellDead\<rparr>)) = Some v"
    show "notOf2 v" by (rule notOf2_edit[OF s u, THEN conjunct1]) simp
  qed (rule that(2))
  note set = setField_all[where P = "\<lambda>f. Owner f \<noteq> 2"]
  have b1: "notOf2 (b\<lparr>Move := Move b + 1\<rparr>)" "Turn (b\<lparr>Move := Move b + 1\<rparr>) = 1" using b by simp_all
  show ?thesis
  proof (cases "occupied f")
    case True
    then show ?thesis using r f b b1 set[of "b\<lparr>Move := Move b + 1\<rparr>" ?x _ b'] set[of b ?x _ b']
      by (auto simp: applyPiece_def Let_def split: if_splits Option.bind_splits)
  next
    case False
    show ?thesis
    proof (cases "mvType m = CellFire")
      case True
      then obtain u where "setField (b\<lparr>Move := Move b + 1\<rparr>) ?x (f\<lparr>Owner := 1, Type := CellFire, Lifetime := 1\<rparr>) = Some u"
        "applyFireEffect u ?x = Some b'"
        using r f b False by (auto simp: applyPiece_def Let_def split: Option.bind_splits)
      with fire set[of _ ?x _ u] b1 show ?thesis by auto
    next
      case nf: False
      then have "occupyFields (b\<lparr>Move := Move b + 1\<rparr>) 1 ?x (mvType m) = Some (b', n)"
        using r f b False by (auto simp: applyPiece_def Let_def split: Option.bind_splits prod.splits)
      then show ?thesis by (rule notOf2_occupyFields[OF wf b1(1)])
    qed
  qed
qed

lemma notOf2_recompute:
  assumes "recomputeScoreAndState b = Some b'" "notOf2 b"
  shows "notOf2 b' \<and> Score b' ! 1 = 0"
proof -
  obtain st where f: "foldM (scoreCell b) (allIdx b) ([0, 0], 0) = Some st"
    and r: "(if snd st = 0 then Option.bind (revealHiddenMoves (b\<lparr>Score := fst st\<rparr>)) (\<lambda>b. Some (b\<lparr>State := Finished\<rparr>))
      else Some (b\<lparr>Score := fst st\<rparr>)) = Some b'"
    using assms(1) by (auto simp: recomputeScoreAndState_def Let_def case_prod_beta split: Option.bind_splits)
  have "length (fst st) = 2 \<and> fst st ! 1 = 0" using f
  proof (rule foldM_inv)
    fix x u v
    assume u: "length (fst u) = 2 \<and> fst u ! 1 = 0" and s: "scoreCell b x u = Some v"
    then obtain f where "getField b x = Some f" by (auto simp: scoreCell_def split: prod.splits Option.bind_splits)
    with getField_all[OF this assms(2)] u s show "length (fst v) = 2 \<and> fst v ! 1 = 0"
      by (auto simp: scoreCell_def idx_list_def upd_list_def nth_list_update split: prod.splits if_splits)
  qed simp
  moreover note notOf2_showAll[of "b\<lparr>Score := fst st\<rparr>"]
  ultimately show ?thesis using r assms(2) by (fastforce split: if_splits Option.bind_splits)
qed

lemma notOf2_MakeMove:
  assumes inv: "classic_inv b" and b: "notOf2 b" "Score b ! 1 = 0" and m: "mvPlayer m = 1"
    and r: "Classic_MakeMove b m = Some (b', ok)"
  shows "notOf2 b' \<and> Score b' ! 1 = 0"
proof (cases ok)
  case False
  with Classic_MakeMove_total[OF inv, of m] r b show ?thesis by simp
next
  case True
  have "classicAllows b m" using Classic_MakeMove_total[OF inv, of m] r True by simp
  then have t: "Turn b = 1" and x: "valid b (Idx (mvRow m) (mvCol m))" using m by (auto simp: classicAllows_def Let_def)
  obtain b1 n reveal where p: "applyPiece b m = Some (Some (b1, n, reveal))"
    and e: "Classic_endMove b1 1 (mvType m) n reveal = Some b'"
    using r True t by (auto simp: Classic_MakeMove_def Let_def split: if_splits Option.bind_splits option.splits prod.splits)
  have b1: "notOf2 b1" by (rule notOf2_applyPiece[OF inv b(1) t x p])
  obtain b2 where b2: "notOf2 b2" "recomputeScoreAndState b2 = Some b'"
  proof -
    from e obtain c where c: "(if mvType m \<noteq> CellNormal then payPiece b1 (1 - 1) (mvType m) else Some b1) = Some c"
      and e': "Option.bind (if n > 1 \<or> Move c - LastRevealed c = 4 \<or> reveal
          then revealAndClean (c\<lparr>Turn := (if Turn c + 1 > 2 then 1 else Turn c + 1)\<rparr>)
          else Some (c\<lparr>Turn := (if Turn c + 1 > 2 then 1 else Turn c + 1)\<rparr>)) recomputeScoreAndState = Some b'"
      using that by (cases "if mvType m \<noteq> CellNormal then payPiece b1 (1 - 1) (mvType m) else Some b1")
        (use e in \<open>simp_all add: Classic_endMove_def Let_def\<close>)
    have "notOf2 c" using c b1 by (auto simp: payPiece_def split: if_splits Option.bind_splits)
    then have d: "notOf2 (c\<lparr>Turn := (if Turn c + 1 > 2 then 1 else Turn c + 1)\<rparr>)" by simp
    show ?thesis
    proof (cases "n > 1 \<or> Move c - LastRevealed c = 4 \<or> reveal")
      case True
      with e' obtain u where u: "revealAndClean (c\<lparr>Turn := (if Turn c + 1 > 2 then 1 else Turn c + 1)\<rparr>) = Some u"
        "recomputeScoreAndState u = Some b'" unfolding if_P[OF True] by (auto simp only: bind_eq_Some_conv)
      show ?thesis by (rule that[OF notOf2_reveal[OF u(1) d] u(2)])
    next
      case False
      with e' that[OF d] show ?thesis unfolding if_not_P[OF False] by simp
    qed
  qed
  then show ?thesis using notOf2_recompute by blast
qed

lemma Classic_Init_solo: "notOf2 Classic_Init" "Score Classic_Init ! 1 = 0"
  by (auto simp: allCells_def Classic_Init_def case_prod_beta zeroField_def dest!: fields_makeFields)

section \<open>The engines\<close>

primrec engineSolo :: "game_engine \<Rightarrow> bool" where
  "engineSolo (EngineClassic b) = (notOf2 b \<and> Score b ! 1 = 0)"
| "engineSolo (EngineFlagz g) = (Score (Brd g) ! 1 = 0)"
| "engineSolo (EngineFreeform b) = True"

lemma flagz_solo_move:
  assumes g: "flagz_inv g" "Score (Brd g) ! 1 = 0" and m: "mvPlayer m = 1" "Flagz_MakeMove g m = Some (g', ok)"
  shows "Score (Brd g') ! 1 = 0"
proof (cases ok)
  case True
  with MakeMove_inv[OF g(1), of m] m have "moved g m g'" "Turn (Brd g) = 1" by (auto simp: legal_def)
  with g(2) show ?thesis by (simp add: moved_def Let_def)
qed (use MakeMove_inv[OF g(1), of m] m g in auto)

lemma flagz_solo_reset: "Flagz_Reset g = Some g' \<Longrightarrow> Score (Brd g') ! 1 = 0"
  using Reset_ok[of g] by auto

lemma winner_without_second: "length score = 2 \<Longrightarrow> \<forall>s \<in> set score. 0 \<le> s \<Longrightarrow> score ! 1 = 0 \<Longrightarrow> scoreBasedSingleWinner score \<le> 1"
  by (cases score rule: remdups_adj.cases) (auto simp: numeral_2_eq_2)

interpretation any_joinable: joinable_engine engineReset engineNumPlayers engineMakeMove engineBoard
  engineIsDone engineWinner engine_inv engineSolo
proof unfold_locales
  fix e e' m ok
  show "engine_inv e \<Longrightarrow> engineReset e = Some e' \<Longrightarrow> engineSolo e'"
    using flagz_solo_reset Classic_Init_solo by (cases e) (auto simp: Classic_Reset_def)
  show "engine_inv e \<Longrightarrow> engineSolo e \<Longrightarrow> mvPlayer m = 1 \<Longrightarrow> engineMakeMove e m = Some (e', ok) \<Longrightarrow> engineSolo e'"
    using notOf2_MakeMove flagz_solo_move by (cases e) auto
  show "engineWinner e \<le> 1" if "engine_inv e" "engineSolo e"
  proof (cases e)
    case (EngineClassic b)
    with that winner_without_second[of "Score b"] show ?thesis by (simp add: Classic_Winner_def classic_inv_def)
  next
    case (EngineFlagz g)
    with that have "flagz_core g" using pos_core[OF inv_pos] by simp
    from scores_nonneg[OF this] obtain a b where "Score (Brd g) = [a, b]" "0 \<le> a" "0 \<le> b" by blast
    with that EngineFlagz show ?thesis by (simp add: Flagz_Winner_def)
  next
    case (EngineFreeform b)
    then show ?thesis by (simp add: Freeform_Winner_def)
  qed
qed

lemma NewGameEngine_solo: "NewGameEngine t src = Some e \<Longrightarrow> engineSolo e"
  using Classic_Init_solo flagz_solo_reset
  by (cases t) (auto simp: NewGameEngineFlagz_def)

end
