(* ===== verification/GameMaster.thy ===== *)
theory GameMaster
  imports Solo "HOL-Library.AList"
begin

text \<open>
  The game master, \<open>gameMaster\<close> of \<open>hexz/server.go\<close>: the goroutine that owns a game. This theory is
  the code between two receives of its \<open>select\<close>: each handler maps the master's state and the
  event it has received to the new state and the list of actions it performs on channels, other
  goroutines and counters, in the order of the code. \<open>None\<close> is a panic. How these actions
  interleave with the goroutines at the other end of the channels is the theory \<open>GameSystem\<close>.

  A Go map is an association list here. The order of the list is the order in which \<open>range\<close> visits
  the map; the reachable states include every permutation of the listeners, so nothing that is
  proved depends on it. Time stamps are the text that \<open>time.Now().Format\<close> returns, an argument.
\<close>

section \<open>Players and events\<close>

record player =
  plId :: string
  plName :: string
  plLastActive :: int

record p_info =
  piNum :: int
  piPlayer :: player

text \<open>The announcements, by the format string of the source.\<close>

datatype announcement =
    Welcome string | GameBegins | Won string | CpuConfidence real | Restarted string | Left string

record server_event =
  evTimestamp :: string
  evBoard :: "board_view option"
  evRole :: int
  evPlayerNames :: "string list"
  evAnnouncements :: "announcement list"
  evDebugMessage :: string
  evWinner :: int
  evLastEvent :: bool

definition zeroEvent :: server_event where
  "zeroEvent = \<lparr>evTimestamp = [], evBoard = None, evRole = 0, evPlayerNames = [], evAnnouncements = [],
     evDebugMessage = [], evWinner = 0, evLastEvent = False\<rparr>"

datatype control_event =
    ControlEventRegister player
  | ControlEventUnregister string
  | ControlEventMove string move_request real
  | ControlEventReset string string

section \<open>State and actions\<close>

text \<open>
  Channels are numbers, \<open>gmNext\<close> is the next new one: the listeners' channels and the channels that
  cancel a scheduled removal.
\<close>

record gm =
  gmId :: string
  gmType :: game_type
  gmSingle :: bool
  gmEngine :: game_engine
  gmListeners :: "(string \<times> nat) list"
  gmPlayers :: "(string \<times> p_info) list"
  gmRmCancel :: "(string \<times> nat) list"
  gmNext :: nat

text \<open>
  \<open>Reply\<close> hands a new listener channel to the handler that registered, \<open>SendEvent\<close> sends on one,
  \<open>SendTok\<close> asks the CPU player for a move; all of them wait for a receiver. \<open>SpawnRemoval\<close>
  starts the goroutine that removes a player after a delay unless its channel is closed.
\<close>

datatype action =
    Reply string nat | SendEvent nat server_event | SendTok
  | CloseCancel nat | SpawnRemoval nat string | IncCounter string
  | CloseCpu | CloseListener nat | DeleteGame string | CloseDone

definition playerIdComputer :: string where
  "playerIdComputer = ''comp''"

definition gameCounter :: "gm \<Rightarrow> string \<Rightarrow> action" where
  "gameCounter g what = IncCounter (''/games/'' @ game_type_name (gmType g) @ what)"

abbreviation gmBoard :: "gm \<Rightarrow> board" where
  "gmBoard g \<equiv> engineBoard (gmEngine g)"

definition startMaster :: "string \<Rightarrow> game_type \<Rightarrow> bool \<Rightarrow> rng \<Rightarrow> (gm \<times> action list) option" where
  "startMaster i t single src = do {
     e \<leftarrow> NewGameEngine t src;
     let g = \<lparr>gmId = i, gmType = t, gmSingle = single, gmEngine = e, gmListeners = [], gmPlayers = [],
              gmRmCancel = [], gmNext = 0\<rparr>;
     Some (g, [gameCounter g ''/started''])
   }"

section \<open>Sending events\<close>

text \<open>\<open>r[p.playerNum-1] = p.Name\<close> for every player.\<close>

definition playerNames :: "gm \<Rightarrow> string list option" where
  "playerNames g = foldM (\<lambda>(i, p) r. upd_list r (piNum p - 1) (plName (piPlayer p))) (gmPlayers g)
     (replicate (length (gmPlayers g)) [])"

text \<open>\<open>players[pId].playerNum\<close>, 0 for a key that is not there.\<close>

definition playerNum :: "gm \<Rightarrow> string \<Rightarrow> int" where
  "playerNum g i = (case map_of (gmPlayers g) i of None \<Rightarrow> 0 | Some p \<Rightarrow> piNum p)"

definition broadcastPing :: "string \<Rightarrow> gm \<Rightarrow> string \<Rightarrow> action list" where
  "broadcastPing now g message =
    map (\<lambda>(i, ch). SendEvent ch (zeroEvent\<lparr>evTimestamp := now, evDebugMessage := message\<rparr>)) (gmListeners g)"

text \<open>The loop of \<open>broadcast\<close> over the listeners. One event is filled in and sent again and again.\<close>

fun broadcastLoop :: "gm \<Rightarrow> (string \<times> nat) list \<Rightarrow> server_event \<Rightarrow> board_view option \<Rightarrow> action list" where
  "broadcastLoop g [] e spectatorBoard = []"
| "broadcastLoop g ((i, ch) # ls) e spectatorBoard =
    (let pNum = playerNum g i in
     if pNum > 0 then
       (let e = e\<lparr>evBoard := Some (ViewFor (gmBoard g) pNum), evRole := pNum\<rparr>
        in SendEvent ch e # broadcastLoop g ls e spectatorBoard)
     else
       (let spectatorBoard = (if spectatorBoard = None then Some (ViewFor (gmBoard g) 0) else spectatorBoard);
            e = e\<lparr>evBoard := spectatorBoard\<rparr>
        in SendEvent ch e # broadcastLoop g ls e spectatorBoard))"

definition broadcast :: "string \<Rightarrow> gm \<Rightarrow> server_event \<Rightarrow> action list option" where
  "broadcast now g e = do {
     let e = e\<lparr>evTimestamp := now\<rparr>;
     e \<leftarrow> (if State (gmBoard g) \<noteq> Initial then do { ns \<leftarrow> playerNames g; Some (e\<lparr>evPlayerNames := ns\<rparr>) } else Some e);
     Some (broadcastLoop g (gmListeners g) e None)
   }"

definition singlecast :: "string \<Rightarrow> gm \<Rightarrow> string \<Rightarrow> server_event \<Rightarrow> action list" where
  "singlecast now g i e = (case map_of (gmListeners g) i of
     None \<Rightarrow> []
   | Some ch \<Rightarrow> [SendEvent ch (e\<lparr>evTimestamp := now, evBoard := Some (ViewFor (gmBoard g) (playerNum g i))\<rparr>)])"

section \<open>Handling events\<close>

definition computerInfo :: p_info where
  "computerInfo = \<lparr>piNum = 2, piPlayer = \<lparr>plId = playerIdComputer, plName = ''Computer'', plLastActive = 0\<rparr>\<rparr>"

text \<open>The first part of a registration: the player's number, whether he has been added, the state
  and the actions so far.\<close>

definition admit :: "player \<Rightarrow> gm \<Rightarrow> int \<times> bool \<times> gm \<times> action list" where
  "admit p g = (case map_of (gmPlayers g) (plId p) of
     Some q \<Rightarrow>
       (case map_of (gmRmCancel g) (plId p) of
          Some c \<Rightarrow> (piNum q, False, g\<lparr>gmRmCancel := AList.delete (plId p) (gmRmCancel g)\<rparr>, [CloseCancel c])
        | None \<Rightarrow> (piNum q, False, g, []))
   | None \<Rightarrow>
       if int (length (gmPlayers g)) < engineNumPlayers (gmEngine g) then
         (let num = int (length (gmPlayers g)) + 1;
              g = g\<lparr>gmPlayers := AList.update (plId p) \<lparr>piNum = num, piPlayer = p\<rparr> (gmPlayers g)\<rparr>;
              g = (if gmSingle g then g\<lparr>gmPlayers := AList.update playerIdComputer computerInfo (gmPlayers g)\<rparr> else g)
          in (num, True, g, []))
       else (0, False, g, []))"

definition handleRegister :: "string \<Rightarrow> player \<Rightarrow> gm \<Rightarrow> (gm \<times> action list) option" where
  "handleRegister now p g = (case admit p g of (num, added, g, acts) \<Rightarrow> do {
     let ch = gmNext g;
     let g = g\<lparr>gmListeners := AList.update (plId p) ch (gmListeners g), gmNext := gmNext g + 1\<rparr>;
     let single = singlecast now g (plId p) (zeroEvent\<lparr>evRole := num\<rparr>);
     let as = (if added then [Welcome (plName p)] else []);
     let as = as @ (if added \<and> State (gmBoard g) = Running then [GameBegins] else []);
     bc \<leftarrow> broadcast now g (zeroEvent\<lparr>evAnnouncements := as\<rparr>);
     Some (g, acts @ [Reply (plId p) ch] @ single @ bc)
   })"

definition handleUnregister :: "string \<Rightarrow> gm \<Rightarrow> gm \<times> action list" where
  "handleUnregister i g = (let g = g\<lparr>gmListeners := AList.delete i (gmListeners g)\<rparr> in
     if map_of (gmRmCancel g) i \<noteq> None then (g, [])
     else if map_of (gmPlayers g) i \<noteq> None then
       (let c = gmNext g
        in (g\<lparr>gmRmCancel := AList.update i c (gmRmCancel g), gmNext := gmNext g + 1\<rparr>, [SpawnRemoval c i]))
     else (g, []))"

text \<open>The event of an accepted move and the counter of a finished game.\<close>

definition moveEvent :: "gm \<Rightarrow> real \<Rightarrow> (server_event \<times> action list) option" where
  "moveEvent g confidence = do {
     let winner = engineWinner (gmEngine g);
     (evt, acts) \<leftarrow> (if engineIsDone (gmEngine g) then
         (if winner > 0 then do {
            names \<leftarrow> playerNames g;
            winnerName \<leftarrow> idx_list names (winner - 1);
            Some (zeroEvent\<lparr>evWinner := winner, evAnnouncements := [Won winnerName]\<rparr>, [gameCounter g ''/finished''])
          } else Some (zeroEvent, [gameCounter g ''/finished'']))
       else Some (zeroEvent, []));
     Some (if confidence > 0 then evt\<lparr>evAnnouncements := evAnnouncements evt @ [CpuConfidence confidence]\<rparr> else evt, acts)
   }"

definition moveOf :: "p_info \<Rightarrow> move_request \<Rightarrow> game_engine_move" where
  "moveOf p r = \<lparr>mvPlayer = piNum p, mvMove = ReqMove r, mvRow = ReqRow r, mvCol = ReqCol r,
     mvType = cellType_of (ReqType r)\<rparr>"

definition handleMove :: "string \<Rightarrow> string \<Rightarrow> move_request \<Rightarrow> real \<Rightarrow> gm \<Rightarrow> (gm \<times> action list) option" where
  "handleMove now i r confidence g = (case map_of (gmPlayers g) i of
     None \<Rightarrow> Some (g, [])
   | Some p \<Rightarrow>
       if State (gmBoard g) \<noteq> Running then Some (g, [])
       else do {
         (e, ok) \<leftarrow> engineMakeMove (gmEngine g) (moveOf p r);
         let g = g\<lparr>gmEngine := e\<rparr>;
         if ok then do {
           (evt, acts) \<leftarrow> moveEvent g confidence;
           let tok = (if gmSingle g \<and> Turn (gmBoard g) \<noteq> 1 \<and> \<not> engineIsDone (gmEngine g) then [SendTok] else []);
           bc \<leftarrow> broadcast now g evt;
           Some (g, acts @ tok @ bc)
         } else Some (g, [])
       })"

definition handleReset :: "string \<Rightarrow> string \<Rightarrow> gm \<Rightarrow> (gm \<times> action list) option" where
  "handleReset now i g = (case map_of (gmPlayers g) i of
     None \<Rightarrow> Some (g, [])
   | Some p \<Rightarrow> do {
       e \<leftarrow> engineReset (gmEngine g);
       let g = g\<lparr>gmEngine := e\<rparr>;
       bc \<leftarrow> broadcast now g (zeroEvent\<lparr>evAnnouncements := [Restarted (plName (piPlayer p))]\<rparr>);
       Some (g, bc)
     })"

fun handleControl :: "string \<Rightarrow> control_event \<Rightarrow> gm \<Rightarrow> (gm \<times> action list) option" where
  "handleControl now (ControlEventRegister p) g = handleRegister now p g"
| "handleControl now (ControlEventUnregister i) g = Some (handleUnregister i g)"
| "handleControl now (ControlEventMove i r c) g = handleMove now i r c g"
| "handleControl now (ControlEventReset i message) g = handleReset now i g"

text \<open>The case of a removed player, and what the deferred calls do when the master returns.\<close>

definition deferred :: "gm \<Rightarrow> action list" where
  "deferred g = (if gmSingle g then [CloseCpu] else []) @ map (\<lambda>(i, ch). CloseListener ch) (gmListeners g) @
     [DeleteGame (gmId g), CloseDone]"

definition handleRemoval :: "string \<Rightarrow> string \<Rightarrow> gm \<Rightarrow> action list option" where
  "handleRemoval now i g = do {
     let name = (case map_of (gmPlayers g) i of None \<Rightarrow> ''?'' | Some p \<Rightarrow> plName (piPlayer p));
     bc \<leftarrow> broadcast now g (zeroEvent\<lparr>evAnnouncements := [Left name]\<rparr>);
     Some (bc @ deferred g)
   }"

end
