(* ===== verification/GameMasterInv.thy ===== *)
theory GameMasterInv
  imports GameMaster
begin

text \<open>
  The invariant of the game master: the players' numbers are \<open>1 \<dots> n\<close>, nobody has two, at most the
  engine's number of players is admitted, and as long as there is one player only he has moved. Every
  handler returns and keeps it, whatever event arrives and in whatever order Go visits the maps.
\<close>

section \<open>The players\<close>

definition numbered :: "(string \<times> p_info) list \<Rightarrow> bool" where
  "numbered ps \<longleftrightarrow> distinct (map fst ps) \<and> distinct (map (piNum \<circ> snd) ps) \<and>
     (\<forall>p \<in> set ps. 1 \<le> piNum (snd p) \<and> piNum (snd p) \<le> int (length ps))"

definition gm_inv :: "gm \<Rightarrow> bool" where
  "gm_inv g \<longleftrightarrow> engine_inv (gmEngine g) \<and> engineType (gmEngine g) = gmType g \<and>
     numbered (gmPlayers g) \<and> int (length (gmPlayers g)) \<le> engineNumPlayers (gmEngine g) \<and>
     (length (gmPlayers g) \<le> 1 \<longrightarrow> engineSolo (gmEngine g)) \<and>
     (gmSingle g \<longrightarrow> gmType g = GameTypeFlagz \<and>
        (gmPlayers g = [] \<or> map_of (gmPlayers g) playerIdComputer = Some computerInfo)) \<and>
     distinct (map fst (gmListeners g)) \<and> distinct (map fst (gmRmCancel g)) \<and>
     fst ` set (gmRmCancel g) \<subseteq> fst ` set (gmPlayers g)"

lemma gm_invD:
  assumes "gm_inv g"
  shows "engine_inv (gmEngine g)" "engineType (gmEngine g) = gmType g" "numbered (gmPlayers g)"
    "int (length (gmPlayers g)) \<le> engineNumPlayers (gmEngine g)"
    "length (gmPlayers g) \<le> 1 \<Longrightarrow> engineSolo (gmEngine g)"
    "gmSingle g \<Longrightarrow> gmType g = GameTypeFlagz"
    "gmSingle g \<Longrightarrow> gmPlayers g = [] \<or> map_of (gmPlayers g) playerIdComputer = Some computerInfo"
    "distinct (map fst (gmListeners g))" "distinct (map fst (gmRmCancel g))"
    "fst ` set (gmRmCancel g) \<subseteq> fst ` set (gmPlayers g)"
  using assms by (simp_all add: gm_inv_def)

lemma engineNumPlayers_le: "engineNumPlayers e \<le> 2"
  by (cases e) (simp_all add: Classic_NumPlayers_def Flagz_NumPlayers_def Freeform_NumPlayers_def)

lemma update_new: "k \<notin> fst ` set al \<Longrightarrow> AList.update k v al = al @ [(k, v)]"
  by (induction al) auto

lemma map_of_set: "map_of ps i = Some p \<Longrightarrow> (i, p) \<in> set ps"
  by (rule map_of_SomeD)

lemma numbered_playerNum:
  assumes "numbered ps" "map_of ps i = Some p"
  shows "1 \<le> piNum p" "piNum p \<le> int (length ps)"
  using assms map_of_set[OF assms(2)] by (auto simp: numbered_def)

lemma numbered_inj:
  assumes "numbered ps" "map_of ps i = Some p" "map_of ps j = Some q" "piNum p = piNum q"
  shows "i = j"
proof -
  have "inj_on (piNum \<circ> snd) (set ps)" using assms(1) by (simp add: numbered_def distinct_map)
  from inj_onD[OF this _ map_of_set[OF assms(2)] map_of_set[OF assms(3)]] assms(4) show ?thesis by simp
qed

text \<open>A new player gets the next number.\<close>

lemma numbered_add:
  assumes "numbered ps" "i \<notin> fst ` set ps"
  shows "numbered (ps @ [(i, \<lparr>piNum = int (length ps) + 1, piPlayer = p\<rparr>)])"
  using assms by (force simp: numbered_def)

text \<open>\<open>playerNames\<close> returns, and the entry of each player is his name.\<close>

lemma playerNames_loop:
  assumes "\<forall>p \<in> set ps. 1 \<le> piNum (snd p) \<and> piNum (snd p) \<le> int (length r)"
  shows "\<exists>r'. foldM (\<lambda>(i, p) r. upd_list r (piNum p - 1) (plName (piPlayer p))) ps r = Some r' \<and> length r' = length r \<and>
    (distinct (map (piNum \<circ> snd) ps) \<longrightarrow> (\<forall>p \<in> set ps. r' ! nat (piNum (snd p) - 1) = plName (piPlayer (snd p)))) \<and>
    (\<forall>k. k \<notin> (\<lambda>p. nat (piNum (snd p) - 1)) ` set ps \<longrightarrow> r' ! k = r ! k)"
  using assms
proof (induction ps arbitrary: r)
  case (Cons p ps)
  let ?k = "nat (piNum (snd p) - 1)"
  let ?r = "r[?k := plName (piPlayer (snd p))]"
  have k: "1 \<le> piNum (snd p)" "piNum (snd p) \<le> int (length r)" "?k < length r" using Cons.prems by auto
  have "\<forall>p \<in> set ps. 1 \<le> piNum (snd p) \<and> piNum (snd p) \<le> int (length ?r)" using Cons.prems by simp
  from Cons.IH[OF this] obtain r' where r': "foldM (\<lambda>(i, p) r. upd_list r (piNum p - 1) (plName (piPlayer p))) ps ?r = Some r'"
    "length r' = length r" "distinct (map (piNum \<circ> snd) ps) \<longrightarrow> (\<forall>p \<in> set ps. r' ! nat (piNum (snd p) - 1) = plName (piPlayer (snd p)))"
    "\<forall>k. k \<notin> (\<lambda>p. nat (piNum (snd p) - 1)) ` set ps \<longrightarrow> r' ! k = ?r ! k"
    unfolding length_list_update by blast
  have "r' ! ?k = plName (piPlayer (snd p))" if "distinct (map (piNum \<circ> snd) (p # ps))"
  proof -
    have "?k \<notin> (\<lambda>p. nat (piNum (snd p) - 1)) ` set ps"
    proof
      assume "?k \<in> (\<lambda>p. nat (piNum (snd p) - 1)) ` set ps"
      then obtain q where q: "q \<in> set ps" "?k = nat (piNum (snd q) - 1)" by auto
      with Cons.prems k(1) have "piNum (snd q) = piNum (snd p)" by auto
      then show False using q(1) that by (auto simp: image_iff)
    qed
    with r'(4) k(3) show ?thesis by simp
  qed
  note here = this
  let ?f = "\<lambda>(i, p) r. upd_list r (piNum p - 1) (plName (piPlayer p))"
  have "foldM ?f (p # ps) r = Some r'" using r'(1) k by (simp add: upd_list_in case_prod_beta)
  moreover have "r' ! j = r ! j" if "j \<notin> (\<lambda>p. nat (piNum (snd p) - 1)) ` set (p # ps)" for j
    using r'(4) that by (auto simp: nth_list_update_neq)
  moreover have "\<forall>q \<in> set (p # ps). r' ! nat (piNum (snd q) - 1) = plName (piPlayer (snd q))"
    if "distinct (map (piNum \<circ> snd) (p # ps))"
    using here[OF that] r'(3) that by simp
  ultimately show ?case using r'(2) by blast
qed simp

lemma playerNames_ok:
  assumes "numbered (gmPlayers g)"
  shows "\<exists>r. playerNames g = Some r \<and> length r = length (gmPlayers g) \<and>
    (\<forall>i p. map_of (gmPlayers g) i = Some p \<longrightarrow> r ! nat (piNum p - 1) = plName (piPlayer p))"
  using playerNames_loop[of "gmPlayers g" "replicate (length (gmPlayers g)) []"] assms
  by (fastforce simp: playerNames_def numbered_def dest: map_of_set)

lemma broadcast_ok:
  assumes "numbered (gmPlayers g)"
  shows "\<exists>e'. broadcast now g e = Some (broadcastLoop g (gmListeners g) e' None) \<and>
    evTimestamp e' = now \<and> evAnnouncements e' = evAnnouncements e \<and> evWinner e' = evWinner e"
  using playerNames_ok[OF assms] by (auto simp: broadcast_def Let_def)

section \<open>The handlers keep the invariant\<close>

lemma new_player_lookup:
  "i \<notin> fst ` set ps \<Longrightarrow> map_of (AList.update i v ps) = (map_of ps)(i \<mapsto> v)"
  by (rule update_conv')

lemma no_duplicate_computer: "numbered ps \<Longrightarrow> map_of ps playerIdComputer = Some computerInfo \<Longrightarrow> 2 \<le> length ps"
  using numbered_playerNum(2)[of ps playerIdComputer computerInfo] by (simp add: computerInfo_def)

text \<open>A registration of a new player, and of the computer in a game for one.\<close>

definition admitted :: "player \<Rightarrow> gm \<Rightarrow> gm" where
  "admitted p g = g\<lparr>gmPlayers := gmPlayers g @ [(plId p, \<lparr>piNum = int (length (gmPlayers g)) + 1, piPlayer = p\<rparr>)] @
     (if gmSingle g then [(playerIdComputer, computerInfo)] else [])\<rparr>"

lemma single_start:
  assumes "gm_inv g" "gmSingle g" "int (length (gmPlayers g)) < engineNumPlayers (gmEngine g)"
  shows "gmPlayers g = []"
  using gm_invD(3,7)[OF assms(1)] no_duplicate_computer[of "gmPlayers g"] engineNumPlayers_le[of "gmEngine g"] assms(2,3)
  by auto

lemma admitted_inv:
  assumes g: "gm_inv g" and p: "plId p \<noteq> playerIdComputer" "plId p \<notin> fst ` set (gmPlayers g)"
    and n: "int (length (gmPlayers g)) < engineNumPlayers (gmEngine g)"
  shows "gm_inv (admitted p g)"
proof (cases "gmSingle g")
  case False
  with g n numbered_add[OF gm_invD(3)[OF g] p(2), of p] show ?thesis by (auto simp: gm_inv_def admitted_def)
next
  case True
  have e: "gmPlayers g = []" by (rule single_start[OF g True n])
  have "numbered [(plId p, \<lparr>piNum = 1, piPlayer = p\<rparr>), (playerIdComputer, computerInfo)]"
    using p(1) by (simp add: numbered_def computerInfo_def)
  moreover have "engineNumPlayers (gmEngine g) = 2"
    using gm_invD(2,6)[OF g] True by (cases "gmEngine g") (simp_all add: Flagz_NumPlayers_def)
  ultimately show ?thesis using g True e p by (auto simp: gm_inv_def admitted_def)
qed

lemma admit_eq:
  assumes g: "gm_inv g" and p: "plId p \<noteq> playerIdComputer"
  shows "admit p g = (case map_of (gmPlayers g) (plId p) of
      Some q \<Rightarrow> (piNum q, False, g\<lparr>gmRmCancel := AList.delete (plId p) (gmRmCancel g)\<rparr>,
        case map_of (gmRmCancel g) (plId p) of Some c \<Rightarrow> [CloseCancel c] | None \<Rightarrow> [])
    | None \<Rightarrow> if int (length (gmPlayers g)) < engineNumPlayers (gmEngine g)
        then (int (length (gmPlayers g)) + 1, True, admitted p g, []) else (0, False, g, []))"
proof -
  have del: "AList.delete i al = al" if "map_of al i = None" for i :: string and al :: "(string \<times> nat) list"
    using that by (induction al) (auto split: if_splits)
  have single: "gmPlayers g = []" if "gmSingle g" "int (length (gmPlayers g)) < engineNumPlayers (gmEngine g)"
    by (rule single_start[OF g that])
  show ?thesis
  proof (cases "map_of (gmPlayers g) (plId p)")
    case None
    then have "AList.update (plId p) v (gmPlayers g) = gmPlayers g @ [(plId p, v)]" for v
      by (simp add: update_new map_of_eq_None_iff)
    note upd = this
    show ?thesis
    proof (cases "int (length (gmPlayers g)) < engineNumPlayers (gmEngine g) \<and> gmSingle g")
      case True
      with single have "gmPlayers g = []" by blast
      with True None p show ?thesis by (simp add: admit_def admitted_def Let_def)
    next
      case False
      with None upd show ?thesis by (auto simp: admit_def admitted_def Let_def)
    qed
  next
    case (Some q)
    then show ?thesis by (cases "map_of (gmRmCancel g) (plId p)") (simp_all add: admit_def del)
  qed
qed

text \<open>A registration keeps the players that are there and their numbers, and cancels a removal.\<close>

lemma admit_ok:
  assumes g: "gm_inv g" and p: "plId p \<noteq> playerIdComputer" and r: "admit p g = (num, added, g', acts)"
  shows "gm_inv g' \<and> gmListeners g' = gmListeners g \<and> gmEngine g' = gmEngine g \<and> gmNext g' = gmNext g \<and>
    map_of (gmPlayers g) \<subseteq>\<^sub>m map_of (gmPlayers g') \<and> num = playerNum g' (plId p) \<and>
    map_of (gmRmCancel g') (plId p) = None"
proof (cases "map_of (gmPlayers g) (plId p)")
  case (Some q)
  let ?g = "g\<lparr>gmRmCancel := AList.delete (plId p) (gmRmCancel g)\<rparr>"
  have "gm_inv ?g"
    using g dom_delete_subset[of "plId p" "gmRmCancel g"] by (auto simp: gm_inv_def distinct_delete)
  with r Some show ?thesis by (auto simp: admit_eq[OF g p] playerNum_def delete_conv')
next
  case None
  then have new: "plId p \<notin> fst ` set (gmPlayers g)" by (simp add: map_of_eq_None_iff)
  then have "plId p \<notin> fst ` set (gmRmCancel g)" using gm_invD(10)[OF g] by blast
  then have nc: "map_of (gmRmCancel g) (plId p) = None" by (simp add: map_of_eq_None_iff)
  show ?thesis
  proof (cases "int (length (gmPlayers g)) < engineNumPlayers (gmEngine g)")
    case True
    have sub: "map_of (gmPlayers g) \<subseteq>\<^sub>m map_of (gmPlayers (admitted p g))"
      by (auto simp: map_le_def admitted_def map_add_def split: option.splits)
    have "playerNum (admitted p g) (plId p) = int (length (gmPlayers g)) + 1"
      using None by (simp add: playerNum_def admitted_def map_add_def)
    with True r None nc admitted_inv[OF g p new True] sub show ?thesis
      by (auto simp: admit_eq[OF g p] admitted_def)
  next
    case False
    with r None nc g show ?thesis by (auto simp: admit_eq[OF g p] playerNum_def)
  qed
qed

lemma handleRegister_ok:
  assumes g: "gm_inv g" and p: "plId p \<noteq> playerIdComputer"
  shows "\<exists>g' acts. handleRegister now p g = Some (g', acts) \<and> gm_inv g' \<and> map_of (gmPlayers g) \<subseteq>\<^sub>m map_of (gmPlayers g')"
proof -
  obtain num added g1 acts where a: "admit p g = (num, added, g1, acts)" by (metis prod_cases4)
  note A = admit_ok[OF g p a]
  let ?g = "g1\<lparr>gmListeners := AList.update (plId p) (gmNext g1) (gmListeners g1), gmNext := gmNext g1 + 1\<rparr>"
  have inv: "gm_inv ?g" using A by (auto simp: gm_inv_def distinct_update)
  obtain bc where "broadcast now ?g (zeroEvent\<lparr>evAnnouncements := (if added then [Welcome (plName p)] else []) @
      (if added \<and> State (gmBoard ?g) = Running then [GameBegins] else [])\<rparr>) = Some bc"
    using broadcast_ok[OF gm_invD(3)[OF inv]] by blast
  with inv A show ?thesis by (simp add: handleRegister_def a Let_def)
qed

lemma handleUnregister_inv: "gm_inv g \<Longrightarrow> gm_inv (fst (handleUnregister i g)) \<and> gmPlayers (fst (handleUnregister i g)) = gmPlayers g"
  by (auto simp: handleUnregister_def Let_def gm_inv_def distinct_delete distinct_update dom_update map_of_eq_None_iff)

lemma handleReset_ok:
  assumes g: "gm_inv g"
  shows "\<exists>g' acts. handleReset now i g = Some (g', acts) \<and> gm_inv g' \<and> gmPlayers g' = gmPlayers g"
proof (cases "map_of (gmPlayers g) i")
  case (Some p)
  note I = gm_invD[OF g]
  obtain e where e: "engineReset (gmEngine g) = Some e" "engine_inv e" "engineNumPlayers e = engineNumPlayers (gmEngine g)"
    using any_engine.inv_reset[OF I(1)] by blast
  have "engineType e = engineType (gmEngine g)" using e(1) by (cases "gmEngine g") auto
  then have inv: "gm_inv (g\<lparr>gmEngine := e\<rparr>)"
    using g e any_joinable.solo_reset[OF I(1) e(1)] by (auto simp: gm_inv_def)
  then obtain bc where "broadcast now (g\<lparr>gmEngine := e\<rparr>) (zeroEvent\<lparr>evAnnouncements := [Restarted (plName (piPlayer p))]\<rparr>) = Some bc"
    using broadcast_ok[OF gm_invD(3)[OF inv]] by blast
  with inv Some e(1) show ?thesis by (simp add: handleReset_def)
qed (use g in \<open>simp add: handleReset_def\<close>)

text \<open>The winner of a finished game is one of the players that have joined.\<close>

lemma moveEvent_ok:
  assumes g: "gm_inv g" and n: "gmPlayers g \<noteq> []"
  shows "\<exists>evt acts. moveEvent g c = Some (evt, acts) \<and> evWinner evt = engineWinner (gmEngine g) \<and> SendTok \<notin> set acts \<and>
    (\<forall>ch e. SendEvent ch e \<notin> set acts)"
proof -
  note I = gm_invD[OF g]
  have "engineWinner (gmEngine g) \<le> int (length (gmPlayers g))"
  proof (rule any_joinable.winner_present[OF I(1)])
    show "int (length (gmPlayers g)) = 1 \<longrightarrow> engineSolo (gmEngine g)" using I(5) by auto
    show "1 \<le> int (length (gmPlayers g))" using n by (cases "gmPlayers g") simp_all
  qed (rule engineNumPlayers_le)
  moreover have "0 \<le> engineWinner (gmEngine g)" using any_engine.winner_range[OF I(1)] by simp
  moreover obtain r where "playerNames g = Some r" "length r = length (gmPlayers g)" using playerNames_ok[OF I(3)] by blast
  moreover have "engineWinner (gmEngine g) = 0" if "\<not> engineIsDone (gmEngine g)"
    using any_engine.winner_done that by blast
  ultimately show ?thesis
    by (auto simp: moveEvent_def Let_def go_simps zeroEvent_def gameCounter_def)
qed

lemma handleMove_ok:
  assumes g: "gm_inv g"
  shows "\<exists>g' acts. handleMove now i r c g = Some (g', acts) \<and> gm_inv g' \<and> gmPlayers g' = gmPlayers g"
proof (cases "map_of (gmPlayers g) i")
  case (Some p)
  note I = gm_invD[OF g]
  obtain e ok where e: "engineMakeMove (gmEngine g) (moveOf p r) = Some (e, ok)" "engine_inv e"
    "engineNumPlayers e = engineNumPlayers (gmEngine g)" "\<not> ok \<longrightarrow> e = gmEngine g"
    using any_engine.inv_move[OF I(1)] by blast
  have t: "engineType e = engineType (gmEngine g)" by (rule engineMakeMove_type[OF e(1)])
  have solo: "engineSolo e" if "length (gmPlayers g) \<le> 1"
  proof (rule any_joinable.solo_move[OF I(1) I(5)[OF that] _ e(1)])
    show "mvPlayer (moveOf p r) = 1" using numbered_playerNum[OF I(3) Some] that by (simp add: moveOf_def)
  qed
  have inv: "gm_inv (g\<lparr>gmEngine := e\<rparr>)" using g e t solo by (auto simp: gm_inv_def)
  have "gmPlayers (g\<lparr>gmEngine := e\<rparr>) \<noteq> []" using Some by auto
  then obtain evt acts where m: "moveEvent (g\<lparr>gmEngine := e\<rparr>) c = Some (evt, acts)" using moveEvent_ok[OF inv] by blast
  obtain bc where "broadcast now (g\<lparr>gmEngine := e\<rparr>) evt = Some bc" using broadcast_ok[OF gm_invD(3)[OF inv]] by blast
  with m inv g Some e show ?thesis by (auto simp: handleMove_def Let_def)
qed (use g in \<open>simp add: handleMove_def\<close>)

lemma handleControl_ok:
  assumes "gm_inv g" "\<And>p. ev = ControlEventRegister p \<Longrightarrow> plId p \<noteq> playerIdComputer"
  shows "\<exists>g' acts. handleControl now ev g = Some (g', acts) \<and> gm_inv g' \<and> map_of (gmPlayers g) \<subseteq>\<^sub>m map_of (gmPlayers g')"
proof (cases ev)
  case (ControlEventRegister p)
  with assms handleRegister_ok show ?thesis by simp
next
  case (ControlEventUnregister i)
  with handleUnregister_inv[OF assms(1), of i] show ?thesis by (auto simp: prod_eq_iff)
next
  case (ControlEventMove i r c)
  with handleMove_ok[OF assms(1), of now i r c] show ?thesis by auto
next
  case (ControlEventReset i message)
  with handleReset_ok[OF assms(1), of now i] show ?thesis by auto
qed

lemma handleRemoval_ok:
  assumes "gm_inv g"
  shows "\<exists>acts. handleRemoval now i g = Some acts"
proof -
  obtain bc where "broadcast now g (zeroEvent\<lparr>evAnnouncements :=
      [Left (case map_of (gmPlayers g) i of None \<Rightarrow> ''?'' | Some p \<Rightarrow> plName (piPlayer p))]\<rparr>) = Some bc"
    using broadcast_ok[OF gm_invD(3)[OF assms]] by blast
  then show ?thesis by (simp add: handleRemoval_def)
qed

lemma startMaster_ok:
  assumes "single \<longrightarrow> supportsSinglePlayer t"
  shows "\<exists>g. startMaster i t single src = Some (g, [gameCounter g ''/started'']) \<and> gm_inv g \<and>
    gmPlayers g = [] \<and> gmListeners g = [] \<and> gmSingle g = single \<and> gmRmCancel g = [] \<and> gmType g = t"
proof -
  obtain e where e: "NewGameEngine t src = Some e" "engine_inv e" "engineType e = t" using NewGameEngine_ok by blast
  have "engineSolo e" by (rule NewGameEngine_solo[OF e(1)])
  with e assms any_engine.players_pos[of e] show ?thesis
    by (simp add: startMaster_def gm_inv_def numbered_def supportsSinglePlayer_def Let_def)
qed

end
