(* ===== verification/GameMasterProps.thy ===== *)
theory GameMasterProps
  imports GameMasterInv "HOL-Library.Multiset"
begin

text \<open>
  What the game master promises, over every state it can reach: any sequence of registrations,
  unregistrations, moves and resets, by anyone, with the maps visited in any order.
\<close>

section \<open>Reachable states\<close>

text \<open>Player ids come from the login, 32 hexadecimal digits, so nobody registers as the computer.\<close>

definition from_client :: "control_event \<Rightarrow> bool" where
  "from_client ev = (case ev of ControlEventRegister p \<Rightarrow> plId p \<noteq> playerIdComputer | _ \<Rightarrow> True)"

inductive gm_reachable :: "gm \<Rightarrow> bool" where
  start: "startMaster i t single src = Some (g, acts) \<Longrightarrow> (single \<longrightarrow> supportsSinglePlayer t) \<Longrightarrow> gm_reachable g"
| control: "gm_reachable g \<Longrightarrow> from_client ev \<Longrightarrow> handleControl now ev g = Some (g', acts) \<Longrightarrow> gm_reachable g'"
| range_order: "gm_reachable g \<Longrightarrow> mset ls = mset (gmListeners g) \<Longrightarrow> mset ps = mset (gmPlayers g) \<Longrightarrow>
    gm_reachable (g\<lparr>gmListeners := ls, gmPlayers := ps\<rparr>)"

lemma control_step:
  assumes "gm_inv g" "from_client ev"
  obtains g' acts where "handleControl now ev g = Some (g', acts)" "gm_inv g'"
    "map_of (gmPlayers g) \<subseteq>\<^sub>m map_of (gmPlayers g')"
proof -
  have "\<And>p. ev = ControlEventRegister p \<Longrightarrow> plId p \<noteq> playerIdComputer" using assms(2) by (simp add: from_client_def)
  from handleControl_ok[OF assms(1) this, where now = now] that show thesis by blast
qed

lemma mset_distinct_map: "mset xs = mset ys \<Longrightarrow> distinct (map f ys) \<Longrightarrow> distinct (map f xs)"
  by (metis mset_map mset_eq_imp_distinct_iff)

lemma map_of_permuted: "mset ps = mset qs \<Longrightarrow> distinct (map fst qs) \<Longrightarrow> map_of ps = map_of qs"
  by (metis map_of_inject_set mset_distinct_map mset_eq_setD)

lemma gm_inv_permuted:
  assumes g: "gm_inv g" and ls: "mset ls = mset (gmListeners g)" and ps: "mset ps = mset (gmPlayers g)"
  shows "gm_inv (g\<lparr>gmListeners := ls, gmPlayers := ps\<rparr>)"
proof -
  note I = gm_invD[OF g]
  have len: "length ps = length (gmPlayers g)" and set: "set ps = set (gmPlayers g)"
    using ps mset_eq_length mset_eq_setD by blast+
  have "numbered ps" using I(3) mset_distinct_map[OF ps, of fst] mset_distinct_map[OF ps, of "piNum \<circ> snd"] by (simp add: numbered_def len set)
  moreover have "map_of ps = map_of (gmPlayers g)" using map_of_permuted[OF ps] I(3) by (simp add: numbered_def)
  ultimately show ?thesis using g mset_distinct_map[OF ls] len set by (auto simp: gm_inv_def)
qed

lemma gm_reachable_inv: "gm_reachable g \<Longrightarrow> gm_inv g"
proof (induction rule: gm_reachable.induct)
  case (start i t single src g acts)
  with startMaster_ok[OF start(2), of i src] show ?case by auto
next
  case (control g ev now g' acts)
  obtain g1 acts1 where "handleControl now ev g = Some (g1, acts1)" "gm_inv g1"
    by (rule control_step[OF control.IH control.hyps(2)])
  with control.hyps(3) show ?case by simp
qed (rule gm_inv_permuted)

section \<open>No panic\<close>

text \<open>Whatever clients send, the game master never panics: every event and every removal of a
  player is handled in every reachable state. In particular the engine, the list of the players'
  names and the look-up of the winner's name are never indexed out of range.\<close>

theorem game_master_never_panics:
  assumes "gm_reachable g" "from_client ev"
  shows "handleControl now ev g \<noteq> None \<and> handleRemoval now i g \<noteq> None"
  using control_step[OF gm_reachable_inv[OF assms(1)] assms(2), of now]
    handleRemoval_ok[OF gm_reachable_inv[OF assms(1)], where now = now and i = i] by fastforce

definition noRng :: rng where
  "noRng = sconst 0"

lemma some_game: "\<exists>g. gm_reachable g \<and> gmPlayers g = [] \<and> gmListeners g = [] \<and> gmType g = t"
  using startMaster_ok[of False t "[]" noRng] gm_reachable.start[of "[]" t False noRng] by fastforce

lemma some_player: "from_client (ControlEventRegister \<lparr>plId = ''1'', plName = ''Ann'', plLastActive = 0\<rparr>)"
  by (simp add: from_client_def playerIdComputer_def)

theorem game_master_never_panics_witness:
  "\<exists>g. gmType g = GameTypeClassic \<and>
     handleControl ''now'' (ControlEventRegister \<lparr>plId = ''1'', plName = ''Ann'', plLastActive = 0\<rparr>) g \<noteq> None"
  using some_game[of GameTypeClassic] game_master_never_panics[OF _ some_player] by blast

section \<open>Player numbers\<close>

lemma numbered_bij:
  assumes "numbered ps"
  shows "bij_betw (\<lambda>i. piNum (the (map_of ps i))) (fst ` set ps) {1..int (length ps)}"
proof -
  let ?f = "\<lambda>i. piNum (the (map_of ps i))"
  have some: "\<exists>p. map_of ps i = Some p" if "i \<in> fst ` set ps" for i
    using that map_of_eq_None_iff[of ps i] by (cases "map_of ps i") auto
  have inj: "inj_on ?f (fst ` set ps)"
    by (rule inj_onI) (metis some option.sel numbered_inj[OF assms])
  have sub: "?f ` (fst ` set ps) \<subseteq> {1..int (length ps)}"
  proof
    fix n assume "n \<in> ?f ` (fst ` set ps)"
    then obtain i p where "map_of ps i = Some p" "n = piNum p" using some by force
    then show "n \<in> {1..int (length ps)}" using numbered_playerNum[OF assms] by auto
  qed
  have "card (fst ` set ps) = length ps"
    using assms distinct_card[of "map fst ps"] by (simp add: numbered_def)
  then have "card (?f ` (fst ` set ps)) = card {1..int (length ps)}" using card_image[OF inj] by simp
  with card_subset_eq[OF _ sub] inj show ?thesis by (simp add: bij_betw_def)
qed

text \<open>The players of a game are numbered \<open>1, \<dots>, n\<close> without gap or repetition, at most as many as
  the engine has seats, a stranger has number 0, and no event takes a player's seat or number from
  him.\<close>

theorem player_numbers_are_seats:
  assumes "gm_reachable g"
  shows "bij_betw (playerNum g) (fst ` set (gmPlayers g)) {1..int (length (gmPlayers g))} \<and>
    int (length (gmPlayers g)) \<le> engineNumPlayers (gmEngine g) \<and>
    (\<forall>i. i \<notin> fst ` set (gmPlayers g) \<longrightarrow> playerNum g i = 0) \<and>
    (\<forall>ev now g' acts. from_client ev \<and> handleControl now ev g = Some (g', acts) \<longrightarrow>
       (\<forall>i \<in> fst ` set (gmPlayers g). i \<in> fst ` set (gmPlayers g') \<and> playerNum g' i = playerNum g i))"
proof (intro conjI allI impI)
  note I = gm_invD[OF gm_reachable_inv[OF assms]]
  have "playerNum g i = piNum (the (map_of (gmPlayers g) i))" if "i \<in> fst ` set (gmPlayers g)" for i
    using that map_of_eq_None_iff[of "gmPlayers g" i] by (auto simp: playerNum_def split: option.splits)
  with numbered_bij[OF I(3)] show "bij_betw (playerNum g) (fst ` set (gmPlayers g)) {1..int (length (gmPlayers g))}"
    by (simp cong: bij_betw_cong)
  show "int (length (gmPlayers g)) \<le> engineNumPlayers (gmEngine g)" by (rule I(4))
  show "playerNum g i = 0" if "i \<notin> fst ` set (gmPlayers g)" for i
    using that by (simp add: playerNum_def map_of_eq_None_iff[THEN iffD2])
  fix ev now g' acts
  assume "from_client ev \<and> handleControl now ev g = Some (g', acts)"
  then have "map_of (gmPlayers g) \<subseteq>\<^sub>m map_of (gmPlayers g')"
    using control_step[OF gm_reachable_inv[OF assms], of ev now] by (metis option.inject prod.inject)
  then have keep: "i \<in> fst ` set (gmPlayers g) \<Longrightarrow> map_of (gmPlayers g') i = map_of (gmPlayers g) i" for i
    unfolding map_le_def dom_map_of_conv_image_fst by metis
  show "\<forall>i \<in> fst ` set (gmPlayers g). i \<in> fst ` set (gmPlayers g') \<and> playerNum g' i = playerNum g i"
    using keep map_of_eq_None_iff by (metis playerNum_def)
qed

theorem player_numbers_are_seats_witness:
  "\<exists>g. gm_reachable g \<and> gmType g = GameTypeFreeform \<and> playerNum g ''nobody'' = 0"
  using some_game[of GameTypeFreeform] player_numbers_are_seats by force

section \<open>What clients are sent\<close>

text \<open>The role that the \<open>k\<close>-th listener is told: his own number if he plays. A spectator is told the
  number of the last player that \<open>range\<close> has visited before him, since the event is reused.\<close>

definition roleSent :: "gm \<Rightarrow> int \<Rightarrow> (string \<times> nat) list \<Rightarrow> nat \<Rightarrow> int" where
  "roleSent g r ls k = last (r # filter (\<lambda>n. 0 < n) (map (playerNum g \<circ> fst) (take (Suc k) ls)))"

definition eventFor :: "gm \<Rightarrow> server_event \<Rightarrow> (string \<times> nat) list \<Rightarrow> nat \<Rightarrow> action" where
  "eventFor g e ls k = SendEvent (snd (ls ! k))
     (e\<lparr>evBoard := Some (ViewFor (gmBoard g) (playerNum g (fst (ls ! k)))), evRole := roleSent g (evRole e) ls k\<rparr>)"

lemma broadcastLoop_sends:
  assumes "sb = None \<or> sb = Some (ViewFor (gmBoard g) 0)" "\<And>i. 0 \<le> playerNum g i"
  shows "broadcastLoop g ls e sb = map (eventFor g e ls) [0..<length ls]"
  using assms(1)
proof (induction ls arbitrary: e sb)
  case (Cons l ls)
  obtain i ch where l: "l = (i, ch)" by (cases l)
  let ?e = "e\<lparr>evBoard := Some (ViewFor (gmBoard g) (playerNum g i)),
      evRole := (if 0 < playerNum g i then playerNum g i else evRole e)\<rparr>"
  let ?sb = "if 0 < playerNum g i then sb else Some (ViewFor (gmBoard g) 0)"
  have z: "\<not> 0 < playerNum g i \<Longrightarrow> playerNum g i = 0" using assms(2)[of i] by simp
  have "broadcastLoop g (l # ls) e sb = SendEvent ch ?e # broadcastLoop g ls ?e ?sb"
    using Cons.prems z by (auto simp: l Let_def)
  also have "broadcastLoop g ls ?e ?sb = map (eventFor g ?e ls) [0..<length ls]" by (rule Cons.IH) (use Cons.prems in auto)
  also have "\<dots> = map (\<lambda>k. eventFor g e (l # ls) (Suc k)) [0..<length ls]"
    by (auto simp: eventFor_def roleSent_def l)
  also have "SendEvent ch ?e = eventFor g e (l # ls) 0" by (simp add: eventFor_def roleSent_def l)
  finally show ?case by (simp add: upt_conv_Cons map_Suc_upt[symmetric] del: upt_Suc)
qed simp

lemma playerNum_nonneg: "numbered (gmPlayers g) \<Longrightarrow> 0 \<le> playerNum g i"
  using numbered_playerNum(1)[of "gmPlayers g" i] by (auto simp: playerNum_def split: option.splits)

lemma broadcast_sends:
  assumes "numbered (gmPlayers g)"
  shows "\<exists>names. broadcast now g e = Some (map (eventFor g (e\<lparr>evTimestamp := now, evPlayerNames := names\<rparr>) (gmListeners g))
      [0..<length (gmListeners g)]) \<and>
    (State (gmBoard g) = Initial \<longrightarrow> names = evPlayerNames e) \<and>
    (State (gmBoard g) \<noteq> Initial \<longrightarrow> length names = length (gmPlayers g) \<and>
      (\<forall>i p. map_of (gmPlayers g) i = Some p \<longrightarrow> names ! nat (piNum p - 1) = plName (piPlayer p)))"
proof -
  obtain r where r: "playerNames g = Some r" "length r = length (gmPlayers g)"
    "\<forall>i p. map_of (gmPlayers g) i = Some p \<longrightarrow> r ! nat (piNum p - 1) = plName (piPlayer p)"
    using playerNames_ok[OF assms] by blast
  let ?names = "if State (gmBoard g) = Initial then evPlayerNames e else r"
  have "broadcast now g e = Some (broadcastLoop g (gmListeners g) (e\<lparr>evTimestamp := now, evPlayerNames := ?names\<rparr>) None)"
    using r(1) by (simp add: broadcast_def)
  then show ?thesis using r(2,3) broadcastLoop_sends[of None g] playerNum_nonneg[OF assms]
    by (intro exI[of _ ?names]) auto
qed

text \<open>C19. A broadcast sends exactly one event to every listener. It carries the names of the players
  by their numbers as soon as the game has begun, and the board as the listener may see it, with no
  hidden field of another player. A player is told his own role; a spectator is told the role of the
  player visited last before him.\<close>

theorem broadcast_sends_own_views:
  assumes "gm_reachable g"
  shows "\<exists>names. broadcast now g e = Some (map (eventFor g (e\<lparr>evTimestamp := now, evPlayerNames := names\<rparr>) (gmListeners g))
      [0..<length (gmListeners g)]) \<and>
    (State (gmBoard g) = Initial \<longrightarrow> names = evPlayerNames e) \<and>
    (State (gmBoard g) \<noteq> Initial \<longrightarrow> length names = length (gmPlayers g) \<and>
      (\<forall>i p. map_of (gmPlayers g) i = Some p \<longrightarrow> names ! nat (piNum p - 1) = plName (piPlayer p))) \<and>
    (\<forall>k < length (gmListeners g). 0 < playerNum g (fst (gmListeners g ! k)) \<longrightarrow>
      roleSent g (evRole e) (gmListeners g) k = playerNum g (fst (gmListeners g ! k)) \<and>
      (\<forall>f \<in> set (concat (vFields (ViewFor (gmBoard g) (playerNum g (fst (gmListeners g ! k)))))).
         Hidden f \<longrightarrow> Owner f = playerNum g (fst (gmListeners g ! k))))"
proof -
  note I = gm_invD[OF gm_reachable_inv[OF assms]]
  have "roleSent g (evRole e) (gmListeners g) k = playerNum g (fst (gmListeners g ! k))"
    if "k < length (gmListeners g)" "0 < playerNum g (fst (gmListeners g ! k))" for k
    using that by (simp add: roleSent_def take_Suc_conv_app_nth)
  moreover have "\<forall>f \<in> set (concat (vFields (ViewFor (gmBoard g) p))). Hidden f \<longrightarrow> Owner f = p" if "0 < p" for p
    using ViewFor_shows_no_foreign_hidden[OF any_engine.inv_board[OF I(1)] that] by blast
  moreover obtain names where "broadcast now g e = Some (map (eventFor g (e\<lparr>evTimestamp := now, evPlayerNames := names\<rparr>) (gmListeners g))
      [0..<length (gmListeners g)])" "State (gmBoard g) = Initial \<longrightarrow> names = evPlayerNames e"
    "State (gmBoard g) \<noteq> Initial \<longrightarrow> length names = length (gmPlayers g) \<and>
      (\<forall>i p. map_of (gmPlayers g) i = Some p \<longrightarrow> names ! nat (piNum p - 1) = plName (piPlayer p))"
    using broadcast_sends[OF I(3), of now e] by blast
  ultimately show ?thesis by (intro exI[of _ names] conjI) simp_all
qed

text \<open>A spectator who is visited after player 1 is sent role 1.\<close>

definition ann :: player where
  "ann = \<lparr>plId = ''1'', plName = ''Ann'', plLastActive = 0\<rparr>"

definition oneSpectator :: gm where
  "oneSpectator = \<lparr>gmId = ''ABCDEF'', gmType = GameTypeFreeform, gmSingle = False,
     gmEngine = EngineFreeform Freeform_Init, gmListeners = [(''1'', 0), (''2'', 1)],
     gmPlayers = [(''1'', \<lparr>piNum = 1, piPlayer = ann\<rparr>)], gmRmCancel = [], gmNext = 2\<rparr>"

lemma roleSent_spectator:
  "playerNum oneSpectator ''2'' = 0 \<and> roleSent oneSpectator 0 (gmListeners oneSpectator) 1 = 1"
  by (simp add: oneSpectator_def roleSent_def playerNum_def)

definition bob :: player where
  "bob = \<lparr>plId = ''2'', plName = ''Bob'', plLastActive = 0\<rparr>"

lemma oneSpectator_reachable: "gm_reachable oneSpectator"
proof -
  let ?g0 = "\<lparr>gmId = ''ABCDEF'', gmType = GameTypeFreeform, gmSingle = False, gmEngine = EngineFreeform Freeform_Init,
    gmListeners = [], gmPlayers = [], gmRmCancel = [], gmNext = 0\<rparr>"
  let ?g1 = "?g0\<lparr>gmListeners := [(''1'', 0)], gmPlayers := [(''1'', \<lparr>piNum = 1, piPlayer = ann\<rparr>)], gmNext := 1\<rparr>"
  have init: "State Freeform_Init = Initial" by (simp add: Freeform_Init_def makeFields_def Let_def)
  have "gm_reachable ?g0"
    by (rule gm_reachable.start[of "''ABCDEF''" GameTypeFreeform False "sconst 0"]) (simp_all add: startMaster_def Let_def)
  moreover have "\<exists>acts. handleControl [] (ControlEventRegister ann) ?g0 = Some (?g1, acts)"
    using init by (simp add: handleRegister_def admit_def broadcast_def Freeform_NumPlayers_def ann_def Let_def)
  ultimately have g1: "gm_reachable ?g1"
    using gm_reachable.control[of ?g0 "ControlEventRegister ann" "[]"]
    by (auto simp: from_client_def ann_def playerIdComputer_def)
  moreover have "\<exists>acts. handleControl [] (ControlEventRegister bob) ?g1 = Some (oneSpectator, acts)"
    using init by (simp add: handleRegister_def admit_def broadcast_def Freeform_NumPlayers_def bob_def oneSpectator_def Let_def)
  ultimately show ?thesis
    using gm_reachable.control[of ?g1 "ControlEventRegister bob" "[]"]
    by (auto simp: from_client_def bob_def playerIdComputer_def)
qed

theorem broadcast_sends_own_views_witness:
  "playerNum oneSpectator ''2'' = 0 \<and> roleSent oneSpectator 0 (gmListeners oneSpectator) 1 = 1 \<and>
   broadcast ''now'' oneSpectator zeroEvent \<noteq> None"
  using broadcast_sends_own_views[OF oneSpectator_reachable, of "''now''" zeroEvent] roleSent_spectator by auto

section \<open>Every handler\<close>

text \<open>An action that sends an event only to a listener, with the board as he may see it.\<close>

definition ownView :: "gm \<Rightarrow> action \<Rightarrow> bool" where
  "ownView g a = (case a of
     SendEvent ch e \<Rightarrow> (\<exists>i. map_of (gmListeners g) i = Some ch \<and> evBoard e = Some (ViewFor (gmBoard g) (playerNum g i)))
   | _ \<Rightarrow> True)"

lemma ownView_simps [simp]:
  "ownView g (Reply i c)" "ownView g SendTok" "ownView g (CloseCancel c)" "ownView g (SpawnRemoval c i)"
  "ownView g (IncCounter n)" "ownView g (gameCounter h n)"
  by (simp_all add: ownView_def gameCounter_def)

lemma broadcast_ownView:
  assumes "gm_inv g" "broadcast now g e = Some acts"
  shows "\<forall>a \<in> set acts. ownView g a"
proof -
  have "map_of (gmListeners g) (fst (gmListeners g ! k)) = Some (snd (gmListeners g ! k))" if "k < length (gmListeners g)" for k
    using gm_invD(8)[OF assms(1)] that by (simp add: map_of_eq_Some_iff)
  then have "ownView g (eventFor g e (gmListeners g) k)" if "k < length (gmListeners g)" for k e
    using that by (auto simp: eventFor_def ownView_def)
  moreover obtain e' where "acts = map (eventFor g e' (gmListeners g)) [0..<length (gmListeners g)]"
    using broadcast_sends[OF gm_invD(3)[OF assms(1)], of now e] assms(2) by auto
  ultimately show ?thesis by auto
qed

lemma broadcast_count:
  assumes "gm_inv g" "broadcast now g e = Some acts"
  shows "filter (\<lambda>a. \<exists>ch e. a = SendEvent ch e) acts = acts \<and> length acts = length (gmListeners g)"
proof -
  obtain e' where "acts = map (eventFor g e' (gmListeners g)) [0..<length (gmListeners g)]"
    using broadcast_sends[OF gm_invD(3)[OF assms(1)], of now e] assms(2) by auto
  then show ?thesis by (simp add: eventFor_def)
qed

lemma singlecast_ownView: "\<forall>a \<in> set (singlecast now g i e). ownView g a"
  by (auto simp: singlecast_def ownView_def split: option.splits)

lemma admit_actions: "admit p g = (num, added, g', acts) \<Longrightarrow> set acts \<subseteq> range CloseCancel"
  by (auto simp: admit_def Let_def split: option.splits if_splits)

lemma moveEvent_actions:
  "moveEvent g c = Some (evt, acts) \<Longrightarrow> acts = (if engineIsDone (gmEngine g) then [gameCounter g ''/finished''] else [])"
  by (auto simp: moveEvent_def Let_def split: if_splits Option.bind_splits)

text \<open>What the handlers of a registration and a move do, on every branch.\<close>

lemma handleRegister_cases:
  assumes "handleRegister now p g = Some (g', acts)"
  obtains num added g1 as e bc where "admit p g = (num, added, g1, as)"
    "g' = g1\<lparr>gmListeners := AList.update (plId p) (gmNext g1) (gmListeners g1), gmNext := gmNext g1 + 1\<rparr>"
    "broadcast now g' e = Some bc"
    "acts = as @ [Reply (plId p) (gmNext g1)] @ singlecast now g' (plId p) (zeroEvent\<lparr>evRole := num\<rparr>) @ bc"
proof -
  obtain num added g1 as where a: "admit p g = (num, added, g1, as)" by (metis prod_cases4)
  define g2 where "g2 = g1\<lparr>gmListeners := AList.update (plId p) (gmNext g1) (gmListeners g1), gmNext := gmNext g1 + 1\<rparr>"
  define e where "e = zeroEvent\<lparr>evAnnouncements := (if added then [Welcome (plName p)] else []) @
      (if added \<and> State (gmBoard g2) = Running then [GameBegins] else [])\<rparr>"
  have "handleRegister now p g = Option.bind (broadcast now g2 e) (\<lambda>bc. Some (g2,
      as @ [Reply (plId p) (gmNext g1)] @ singlecast now g2 (plId p) (zeroEvent\<lparr>evRole := num\<rparr>) @ bc))"
    unfolding handleRegister_def a prod.case Let_def g2_def e_def by simp
  then obtain bc where "broadcast now g2 e = Some bc" "g' = g2"
    "acts = as @ [Reply (plId p) (gmNext g1)] @ singlecast now g2 (plId p) (zeroEvent\<lparr>evRole := num\<rparr>) @ bc"
    using assms by (cases "broadcast now g2 e") simp_all
  with that[OF a] show thesis by (simp add: g2_def)
qed

lemma handleMove_cases:
  assumes "handleMove now i r c g = Some (g', acts)"
  obtains "map_of (gmPlayers g) i = None \<or> State (gmBoard g) \<noteq> Running" "g' = g" "acts = []"
  | p e evt cnt bc where "map_of (gmPlayers g) i = Some p" "State (gmBoard g) = Running"
    "engineMakeMove (gmEngine g) (moveOf p r) = Some (e, True)" "g' = g\<lparr>gmEngine := e\<rparr>"
    "moveEvent g' c = Some (evt, cnt)" "broadcast now g' evt = Some bc"
    "acts = cnt @ (if gmSingle g \<and> Turn (gmBoard g') \<noteq> 1 \<and> \<not> engineIsDone e then [SendTok] else []) @ bc"
  | p e where "map_of (gmPlayers g) i = Some p" "engineMakeMove (gmEngine g) (moveOf p r) = Some (e, False)" "g' = g\<lparr>gmEngine := e\<rparr>"
    "acts = []"
proof (cases "map_of (gmPlayers g) i")
  case None
  then have "g' = g" "acts = []" using assms by (simp_all add: handleMove_def)
  with None that(1) show thesis by blast
next
  case (Some p)
  show thesis
  proof (cases "State (gmBoard g) = Running")
    case False
    then have "g' = g" "acts = []" using assms Some by (simp_all add: handleMove_def)
    with False that(1) show thesis by blast
  next
    case True
    then obtain e ok where e: "engineMakeMove (gmEngine g) (moveOf p r) = Some (e, ok)"
      using assms Some by (cases "engineMakeMove (gmEngine g) (moveOf p r)") (auto simp: handleMove_def)
    show thesis
    proof (cases ok)
      case False
      then have "g' = g\<lparr>gmEngine := e\<rparr>" "acts = []" using assms Some True e by (simp_all add: handleMove_def Let_def)
      with False e Some that(3)[of p e] show thesis by simp
    next
      case True
      let ?g = "g\<lparr>gmEngine := e\<rparr>"
      let ?tok = "if gmSingle g \<and> Turn (gmBoard ?g) \<noteq> 1 \<and> \<not> engineIsDone e then [SendTok] else []"
      have eq: "handleMove now i r c g = Option.bind (moveEvent ?g c) (\<lambda>ec.
          Option.bind (broadcast now ?g (fst ec)) (\<lambda>bc. Some (?g, snd ec @ ?tok @ bc)))"
        using Some \<open>State (gmBoard g) = Running\<close> e True by (simp add: handleMove_def Let_def split_def)
      obtain ec where ec: "moveEvent ?g c = Some ec" using assms unfolding eq by (cases "moveEvent ?g c") simp_all
      obtain bc where bc: "broadcast now ?g (fst ec) = Some bc"
        using assms unfolding eq ec by (cases "broadcast now ?g (fst ec)") simp_all
      obtain evt cnt where "ec = (evt, cnt)" by (cases ec)
      have "handleMove now i r c g = Some (?g, snd ec @ ?tok @ bc)" unfolding eq ec bind.simps bc ..
      then have "Some (?g, snd ec @ ?tok @ bc) = Some (g', acts)" using assms by (simp only:)
      then have "Some (?g, cnt @ ?tok @ bc) = Some (g', acts)" using \<open>ec = (evt, cnt)\<close> by (simp only: snd_conv)
      then have "g' = ?g" "acts = cnt @ ?tok @ bc" by (metis option.inject prod.inject)+
      moreover have "moveEvent ?g c = Some (evt, cnt)" "broadcast now ?g evt = Some bc"
        using ec bc \<open>ec = (evt, cnt)\<close> by simp_all
      ultimately
      show thesis using that(2)[of p e evt cnt bc] Some \<open>State (gmBoard g) = Running\<close> e True by simp
    qed
  qed
qed

text \<open>An event goes to a client that listens, on his own channel, with his own view of the board
  after the event. No handler ever sends another player's hidden fields to a player.\<close>

theorem clients_see_only_their_view:
  assumes "gm_reachable g" "from_client ev" "handleControl now ev g = Some (g', acts)" "SendEvent ch e \<in> set acts"
  shows "\<exists>i. map_of (gmListeners g') i = Some ch \<and> evBoard e = Some (ViewFor (gmBoard g') (playerNum g' i)) \<and>
    (0 < playerNum g' i \<longrightarrow>
       (\<forall>f \<in> set (concat (vFields (ViewFor (gmBoard g') (playerNum g' i)))). Hidden f \<longrightarrow> Owner f = playerNum g' i))"
proof -
  have inv: "gm_inv g'" using gm_reachable_inv gm_reachable.control[OF assms(1,2,3)] by blast
  have "\<forall>a \<in> set acts. ownView g' a"
  proof (cases ev)
    case (ControlEventRegister p)
    then have "handleRegister now p g = Some (g', acts)" using assms(3) by simp
    then show ?thesis
    proof (cases rule: handleRegister_cases)
      case (1 num added g1 as e bc)
      then have "\<forall>a \<in> set as. ownView g' a" using admit_actions by fastforce
      with 1(3,4) broadcast_ownView[OF inv] singlecast_ownView show ?thesis by auto
    qed
  next
    case (ControlEventUnregister i)
    with assms(3) show ?thesis by (auto simp: handleUnregister_def Let_def split: if_splits)
  next
    case (ControlEventMove i r c)
    then have "handleMove now i r c g = Some (g', acts)" using assms(3) by simp
    then show ?thesis
    proof (cases rule: handleMove_cases)
      case (2 p e evt cnt bc)
      then have "\<forall>a \<in> set cnt. ownView g' a" using moveEvent_actions[OF 2(5)] by simp
      with 2 broadcast_ownView[OF inv] show ?thesis by auto
    qed simp_all
  next
    case (ControlEventReset i message)
    with assms(3) broadcast_ownView[OF inv] show ?thesis
      by (auto simp: handleReset_def Let_def split: option.splits Option.bind_splits)
  qed
  with assms(4) obtain i where "map_of (gmListeners g') i = Some ch" "evBoard e = Some (ViewFor (gmBoard g') (playerNum g' i))"
    by (force simp: ownView_def)
  then show ?thesis using ViewFor_shows_no_foreign_hidden[OF any_engine.inv_board[OF gm_invD(1)[OF inv]]] by blast
qed

lemma bob_again:
  "\<exists>g' acts e. handleControl ''now'' (ControlEventRegister bob) oneSpectator = Some (g', acts) \<and> SendEvent 2 e \<in> set acts"
proof -
  have "State Freeform_Init = Initial" by (simp add: Freeform_Init_def makeFields_def Let_def)
  then show ?thesis
    by (simp add: handleRegister_def admit_def broadcast_def singlecast_def Freeform_NumPlayers_def bob_def
        oneSpectator_def Let_def) blast
qed

lemma from_client_bob: "from_client (ControlEventRegister bob)"
  by (simp add: from_client_def bob_def playerIdComputer_def)

theorem clients_see_only_their_view_witness:
  "\<exists>g' acts e i. handleControl ''now'' (ControlEventRegister bob) oneSpectator = Some (g', acts) \<and> SendEvent 2 e \<in> set acts \<and>
     map_of (gmListeners g') i = Some 2 \<and> evBoard e = Some (ViewFor (gmBoard g') (playerNum g' i))"
  using bob_again clients_see_only_their_view[OF oneSpectator_reachable from_client_bob] by blast

text \<open>C20. The game changes only if a player moves while it is running and the engine accepts the move
  under that player's own number, or if a player resets it. A refused move changes nothing and is not
  answered; an accepted one and a reset are told to every listener.\<close>

theorem only_players_change_the_game:
  assumes "gm_reachable g" "from_client ev" "handleControl now ev g = Some (g', acts)"
  shows "gmEngine g' = gmEngine g \<and> (\<forall>i r c. ev = ControlEventMove i r c \<longrightarrow> g' = g \<and> acts = []) \<or>
    (length (filter (\<lambda>a. \<exists>ch e. a = SendEvent ch e) acts) = length (gmListeners g) \<and>
     ((\<exists>i p r c. ev = ControlEventMove i r c \<and> map_of (gmPlayers g) i = Some p \<and> State (gmBoard g) = Running \<and>
        engineMakeMove (gmEngine g) (moveOf p r) = Some (gmEngine g', True)) \<or>
      (\<exists>i p message. ev = ControlEventReset i message \<and> map_of (gmPlayers g) i = Some p \<and>
        engineReset (gmEngine g) = Some (gmEngine g'))))"
proof (cases ev)
  case (ControlEventRegister p)
  then have "handleRegister now p g = Some (g', acts)" using assms(3) by simp
  then have "gmEngine g' = gmEngine g"
  proof (cases rule: handleRegister_cases)
    case (1 num added g1 as e bc)
    have "plId p \<noteq> playerIdComputer" using assms(2) ControlEventRegister by (simp add: from_client_def)
    with admit_ok[OF gm_reachable_inv[OF assms(1)] _ 1(1)] 1(2) show ?thesis by simp
  qed
  with ControlEventRegister show ?thesis by simp
next
  case (ControlEventUnregister i)
  with assms(3) show ?thesis by (auto simp: handleUnregister_def Let_def split: if_splits)
next
  case (ControlEventMove i r c)
  note inv = gm_reachable_inv[OF assms(1)] gm_reachable_inv[OF gm_reachable.control[OF assms(1,2,3)]]
  have "handleMove now i r c g = Some (g', acts)" using assms(3) ControlEventMove by simp
  then show ?thesis
  proof (cases rule: handleMove_cases)
    case (2 p e evt cnt bc)
    have "filter (\<lambda>a. \<exists>ch e. a = SendEvent ch e) cnt = []"
      using moveEvent_actions[OF 2(5)] by (auto simp: gameCounter_def filter_empty_conv split: if_splits)
    then have "length (filter (\<lambda>a. \<exists>ch e. a = SendEvent ch e) acts) = length (gmListeners g)"
      using broadcast_count[OF inv(2) 2(6)] 2(4,7) by auto
    with 2 ControlEventMove show ?thesis by auto
  next
    case (3 p e)
    with any_engine.refused_same[OF gm_invD(1)[OF inv(1)]] have "e = gmEngine g" by blast
    with 3 ControlEventMove show ?thesis by simp
  qed (use ControlEventMove in simp)
next
  case (ControlEventReset i message)
  note inv = gm_reachable_inv[OF gm_reachable.control[OF assms(1,2,3)]]
  show ?thesis
  proof (cases "map_of (gmPlayers g) i")
    case None
    with assms(3) ControlEventReset show ?thesis by (simp add: handleReset_def)
  next
    case (Some p)
    let ?ev = "zeroEvent\<lparr>evAnnouncements := [Restarted (plName (piPlayer p))]\<rparr>"
    obtain e where e: "engineReset (gmEngine g) = Some e"
      using assms(3) ControlEventReset Some by (cases "engineReset (gmEngine g)") (simp_all add: handleReset_def)
    obtain bc where "broadcast now (g\<lparr>gmEngine := e\<rparr>) ?ev = Some bc"
      using assms(3) ControlEventReset Some e
      by (cases "broadcast now (g\<lparr>gmEngine := e\<rparr>) ?ev") (simp_all add: handleReset_def Let_def)
    moreover from this have "g' = g\<lparr>gmEngine := e\<rparr>" "acts = bc"
      using assms(3) ControlEventReset Some e by (simp_all add: handleReset_def Let_def)
    ultimately show ?thesis using broadcast_count[OF inv] Some ControlEventReset e by auto
  qed
qed

theorem only_players_change_the_game_witness:
  "\<exists>g' acts. handleControl ''now'' (ControlEventRegister bob) oneSpectator = Some (g', acts) \<and> gmEngine g' = gmEngine oneSpectator"
  using bob_again only_players_change_the_game[OF oneSpectator_reachable from_client_bob] by blast

end
