(* ===== verification/CpuGame.thy ===== *)
theory CpuGame
  imports GameMasterProps MctsProps Stats
begin

text \<open>
  The computer player, \<open>cpuPlayer\<close> of \<open>hexz/server.go\<close>, a goroutine that answers each request of the
  master with the move its search suggests, and how master and computer player work together.
\<close>

section \<open>The computer player\<close>

text \<open>Times are in nanoseconds, as in a \<open>time.Duration\<close>.\<close>

definition minTime :: int where
  "minTime = 100 * 1000000"

definition nextThinkTime :: "int \<Rightarrow> uct \<Rightarrow> int \<Rightarrow> int" where
  "nextThinkTime thinkTime minQ t =
    (if \<not> uct_less minQ (Fin (98 / 100)) \<or> \<not> uct_less (Fin (2 / 100)) minQ
     then (let t = t div 2 in if t < minTime then minTime else t)
     else thinkTime)"

text \<open>What is counted for a suggested move. A rate is infinite if no time has passed.\<close>

datatype stat_update = IncStat string | AddStat string uct

definition mctsStats :: "game_type \<Rightarrow> mcts_stats \<Rightarrow> real \<Rightarrow> stat_update list" where
  "mctsStats t stats elapsed = (let name = (\<lambda>what. ''/games/'' @ game_type_name t @ ''/mcts/'' @ what) in
    [IncStat (name ''suggested_moves'')] @ (if sFullyExplored stats then [IncStat (name ''fully_explored'')] else []) @
    [AddStat (name ''elapsed'') (Fin elapsed), AddStat (name ''iterations'') (Fin (of_int (sIterations stats))),
     AddStat (name ''tree_size'') (Fin (of_int (sTreeSize stats))),
     AddStat (name ''iterations_per_sec'') (if elapsed = 0 then Inf else Fin (of_int (sIterations stats) / elapsed))])"

text \<open>One round of the loop: the move event, the think time of the next round and the statistics. The
  type of the move is sent as its number.\<close>

definition cpuRound :: "string \<Rightarrow> int \<Rightarrow> mcts \<Rightarrow> (int \<Rightarrow> nat \<Rightarrow> bool) \<Rightarrow> rng \<Rightarrow> flagz \<Rightarrow> real \<Rightarrow> int \<Rightarrow>
    (control_event \<times> int \<times> stat_update list) option" where
  "cpuRound i thinkTime p timeUp s ge elapsed t = do {
     (m, stats) \<leftarrow> SuggestMove p (timeUp t) s ge;
     let t = nextThinkTime thinkTime (MinQ Inf (sMoves stats)) t;
     Some (ControlEventMove i \<lparr>ReqMove = mvMove m, ReqRow = mvRow m, ReqCol = mvCol m,
             ReqType = int (cell_iota (mvType m))\<rparr> (MaxQ 0 (sMoves stats)),
           t, mctsStats GameTypeFlagz stats elapsed)
   }"

section \<open>Whose turn it is\<close>

text \<open>As long as both players can move the turn passes to the other one.\<close>

lemma endMove_turn:
  assumes "endMove g = Some (g', ok)" "pieces_ok (Resources (Brd g))" "length (Score (Brd g)) = 2"
  shows "able g' = able g \<and> over g' = over g \<and> (able g 0 \<longrightarrow> able g 1 \<longrightarrow> Turn (Brd g') = 3 - Turn (Brd g))"
proof -
  let ?g1 = "g\<lparr>Brd := (Brd g)\<lparr>Turn := 3 - Turn (Brd g), Move := Move (Brd g) + 1\<rparr>\<rparr>"
  have cong: "able ?g1 = able g" "over ?g1 = over g" by (rule over_cong; simp)+
  have "endMove g = Some (?g1\<lparr>Brd := (Brd ?g1)\<lparr>
    Turn := (if \<not> able g 0 \<and> able g 1 then 2 else if able g 0 \<and> \<not> able g 1 then 1 else Turn (Brd ?g1)),
    State := (if over g then Finished else State (Brd ?g1))\<rparr>\<rparr>, True)"
    using recomputeState_eq[of ?g1] assms(2,3) by (simp add: endMove_def cong)
  then have g': "g' = ?g1\<lparr>Brd := (Brd ?g1)\<lparr>
    Turn := (if \<not> able g 0 \<and> able g 1 then 2 else if able g 0 \<and> \<not> able g 1 then 1 else Turn (Brd ?g1)),
    State := (if over g then Finished else State (Brd ?g1))\<rparr>\<rparr>" using assms(1) by simp
  have "able g' = able g" "over g' = over g" by (rule over_cong; simp add: g')+
  then show ?thesis by (simp add: g')
qed

lemma MakeMove_turn:
  assumes g: "flagz_pos g" "legal g m" and m: "Flagz_MakeMove g m = Some (g', True)" and able: "able g' 0" "able g' 1"
  shows "Turn (Brd g') = 3 - Turn (Brd g)"
proof -
  obtain g1 where g1: "(if mvType m = CellNormal
        then placeNormal g (target m) (fld (Brd g) (target m))
               (at2 (NextVal (fld (Brd g) (target m))) (Turn (Brd g) - 1))
        else placeFlag g (target m) (fld (Brd g) (target m))) = Some g1"
      "flagz_core g1" "pieces_ok (Resources (Brd g1))" "Turn (Brd g1) = Turn (Brd g)"
    using place_legal[OF g] by blast
  have "endMove g1 = Some (g', True)" using m MakeMove_steps[OF g] g1(1) by simp
  from endMove_turn[OF this g1(3) core_score[OF g1(2)]] able g1(4) show ?thesis by simp
qed

text \<open>A game as \<open>Reset\<close> leaves it: both players keep flags and room after any first move.\<close>

definition freshGame :: "flagz \<Rightarrow> bool" where
  "freshGame g \<longleftrightarrow> flagz_inv g \<and> \<not> over g \<and> Turn (Brd g) = 1 \<and> Move (Brd g) = 0 \<and> 85 \<le> FreeCells g \<and>
     flags_of g 0 = 3 \<and> flags_of g 1 = 3"

lemma freshGame_reset: "\<exists>g'. Flagz_Reset g = Some g' \<and> freshGame g'"
  using Reset_ok[of g] by (auto simp: freshGame_def)

lemma freshGame_first_move:
  assumes "freshGame g" "legal g m"
  shows "\<exists>g'. Flagz_MakeMove g m = Some (g', True) \<and> flagz_inv g' \<and> \<not> over g' \<and> Turn (Brd g') = 2"
proof -
  have g: "flagz_inv g" "Turn (Brd g) = 1" "85 \<le> FreeCells g" "flags_of g 0 = 3" "flags_of g 1 = 3"
    using assms(1) by (simp_all add: freshGame_def)
  from MakeMove_inv[OF g(1), of m] assms(2) obtain g' where g': "Flagz_MakeMove g m = Some (g', True)" "flagz_inv g'" "moved g m g'"
    by (auto split: if_splits)
  have able: "able g' 0" "able g' 1" "0 < FreeCells g'"
    using g'(3) g by (auto simp: able_def moved_def Let_def of_bool_def)
  then have "\<not> over g'" by (auto simp: over_def)
  moreover have "Turn (Brd g') = 2" using MakeMove_turn[OF inv_pos[OF g(1)] assms(2) g'(1) able(1,2)] g(2) by simp
  ultimately show ?thesis using g' by blast
qed

lemma freshGame_legal: "freshGame g \<Longrightarrow> \<exists>m. legal g m"
  using RandomMove_legal[of g] by (auto simp: freshGame_def)

section \<open>The computer's turn\<close>

text \<open>In a game against the computer it is asked for a move exactly when an accepted move leaves
  the turn to it and the game is not over. It then is player 2, and the request is made before the
  listeners are told of the move.\<close>

lemma single_player_engine:
  assumes "gm_inv g" "gmSingle g"
  obtains fl where "gmEngine g = EngineFlagz fl" "flagz_inv fl" "Turn (Brd fl) = 1 \<or> Turn (Brd fl) = 2"
proof -
  have "engineType (gmEngine g) = GameTypeFlagz" using gm_invD(2,6)[OF assms(1)] assms(2) by simp
  then obtain fl where fl: "gmEngine g = EngineFlagz fl" by (cases "gmEngine g") simp_all
  with gm_invD(1)[OF assms(1)] have "flagz_inv fl" by simp
  with that[OF fl] pos_turn[OF inv_pos] show thesis by fastforce
qed

lemma computer_asked_when_its_turn:
  assumes "gm_reachable g" "handleMove now i r c g = Some (g', acts)"
  shows "(SendTok \<in> set acts \<longleftrightarrow> gmSingle g \<and> Turn (gmBoard g') = 2 \<and> \<not> engineIsDone (gmEngine g') \<and>
      State (gmBoard g) = Running \<and>
      (\<exists>p. map_of (gmPlayers g) i = Some p \<and> engineMakeMove (gmEngine g) (moveOf p r) = Some (gmEngine g', True))) \<and>
    (SendTok \<in> set acts \<longrightarrow> map_of (gmPlayers g') playerIdComputer = Some computerInfo \<and> State (gmBoard g') = Running \<and>
      (\<exists>bc. acts = SendTok # bc \<and> length bc = length (gmListeners g') \<and> SendTok \<notin> set bc))"
proof -
  have "handleControl now (ControlEventMove i r c) g = Some (g', acts)" using assms(2) by simp
  from gm_reachable.control[OF assms(1) _ this] have inv': "gm_inv g'"
    using gm_reachable_inv by (simp add: from_client_def)
  note inv = gm_reachable_inv[OF assms(1)]
  from assms(2) show ?thesis
  proof (cases rule: handleMove_cases)
    case 1
    then show ?thesis by auto
  next
    case (2 p e evt cnt bc)
    have bc: "SendTok \<notin> set bc" "length bc = length (gmListeners g')"
      using broadcast_count[OF inv' 2(6)] by (auto simp: filter_id_conv)
    have cnt: "cnt = (if engineIsDone e then [gameCounter g' ''/finished''] else [])"
      using moveEvent_actions[OF 2(5)] 2(4) by simp
    have tok: "SendTok \<in> set acts \<longleftrightarrow> gmSingle g \<and> Turn (gmBoard g') \<noteq> 1 \<and> \<not> engineIsDone e"
      using 2(7) bc cnt by (auto simp: gameCounter_def)
    show ?thesis
    proof (cases "gmSingle g")
      case True
      then have "gmSingle g'" using 2(4) by simp
      from single_player_engine[OF inv' this] obtain fl where fl: "gmEngine g' = EngineFlagz fl" "flagz_inv fl"
        "Turn (Brd fl) = 1 \<or> Turn (Brd fl) = 2" .
      have "gmPlayers g' \<noteq> []" using 2(1,4) by auto
      with gm_invD(7)[OF inv' \<open>gmSingle g'\<close>] have "map_of (gmPlayers g') playerIdComputer = Some computerInfo" by simp
      moreover have "\<not> engineIsDone e \<Longrightarrow> State (gmBoard g') = Running"
        using fl 2(4) by (auto simp: flagz_inv_def Flagz_isDone)
      ultimately show ?thesis using tok fl 2(1-4,7) True bc cnt by auto
    qed (use tok in simp)
  next
    case (3 p e)
    then show ?thesis by simp
  qed
qed


text \<open>A game against the computer after its player has joined.\<close>

definition joinedGame :: "flagz \<Rightarrow> gm" where
  "joinedGame fl = \<lparr>gmId = ''ABCDEF'', gmType = GameTypeFlagz, gmSingle = True, gmEngine = EngineFlagz fl,
     gmListeners = [(''1'', 0)], gmPlayers = [(''1'', \<lparr>piNum = 1, piPlayer = ann\<rparr>), (playerIdComputer, computerInfo)],
     gmRmCancel = [], gmNext = 1\<rparr>"

lemma joinedGame_inv: "freshGame fl \<Longrightarrow> gm_inv (joinedGame fl)"
  by (simp add: gm_inv_def joinedGame_def freshGame_def numbered_def computerInfo_def playerIdComputer_def Flagz_NumPlayers_def)

definition newGame :: "flagz \<Rightarrow> gm" where
  "newGame fl = (joinedGame fl)\<lparr>gmListeners := [], gmPlayers := [], gmNext := 0\<rparr>"

lemma joined_start:
  obtains fl acts where "freshGame fl" "startMaster ''ABCDEF'' GameTypeFlagz True (sconst 0) = Some (newGame fl, [gameCounter (newGame fl) ''/started''])"
    "gm_reachable (newGame fl)" "handleControl [] (ControlEventRegister ann) (newGame fl) = Some (joinedGame fl, acts)"
proof -
  obtain fl where fl: "NewGameEngineFlagz (sconst 0) = Some fl" "freshGame fl"
    using freshGame_reset unfolding NewGameEngineFlagz_def by blast
  have start: "startMaster ''ABCDEF'' GameTypeFlagz True (sconst 0) = Some (newGame fl, [gameCounter (newGame fl) ''/started''])"
    by (simp add: startMaster_def Let_def fl joinedGame_def newGame_def)
  have g0: "gm_reachable (newGame fl)" by (rule gm_reachable.start[OF start]) (simp add: supportsSinglePlayer_def)
  have "admit ann (newGame fl) = (1, True, (joinedGame fl)\<lparr>gmListeners := [], gmNext := 0\<rparr>, [])"
    by (simp add: admit_def newGame_def joinedGame_def ann_def playerIdComputer_def Flagz_NumPlayers_def Let_def)
  moreover obtain acts where a: "handleRegister [] ann (newGame fl) = Some acts"
    using handleRegister_ok[OF gm_reachable_inv[OF g0], of ann "[]"] by (auto simp: ann_def playerIdComputer_def)
  ultimately have "fst acts = joinedGame fl"
    using handleRegister_cases[of "[]" ann "newGame fl" "fst acts" "snd acts"] by (fastforce simp: joinedGame_def ann_def)
  then have "handleControl [] (ControlEventRegister ann) (newGame fl) = Some (joinedGame fl, snd acts)"
    using a by (simp add: prod_eq_iff)
  with that[OF fl(2) start g0] show thesis .
qed

lemma joinedGame_reachable: "\<exists>fl. freshGame fl \<and> gm_reachable (joinedGame fl)"
proof -
  obtain fl acts where fl: "freshGame fl" "gm_reachable (newGame fl)"
    "handleControl [] (ControlEventRegister ann) (newGame fl) = Some (joinedGame fl, acts)"
    by (rule joined_start)
  from gm_reachable.control[OF fl(2) _ fl(3)] fl(1) show ?thesis by (auto simp: from_client_def ann_def playerIdComputer_def)
qed

definition requestOf :: "game_engine_move \<Rightarrow> move_request" where
  "requestOf m = \<lparr>ReqMove = mvMove m, ReqRow = mvRow m, ReqCol = mvCol m, ReqType = int (cell_iota (mvType m))\<rparr>"

lemma moveOf_requestOf [simp]: "mvPlayer m = piNum p \<Longrightarrow> moveOf p (requestOf m) = m"
  by (simp add: moveOf_def requestOf_def)

lemma first_move_asks:
  assumes "freshGame fl" "legal fl m"
  shows "\<exists>fl' bc. handleMove now ''1'' (requestOf m) 0 (joinedGame fl) =
      Some ((joinedGame fl)\<lparr>gmEngine := EngineFlagz fl'\<rparr>, SendTok # bc) \<and>
    flagz_inv fl' \<and> \<not> over fl' \<and> Turn (Brd fl') = 2"
proof -
  obtain fl' where m: "Flagz_MakeMove fl m = Some (fl', True)" "flagz_inv fl'" "\<not> over fl'" "Turn (Brd fl') = 2"
    using freshGame_first_move[OF assms] by blast
  let ?g = "(joinedGame fl)\<lparr>gmEngine := EngineFlagz fl'\<rparr>"
  have "mvPlayer m = 1" using assms by (simp add: legal_def freshGame_def)
  moreover have "State (Brd fl) = Running" using assms(1) by (simp add: freshGame_def flagz_inv_def)
  moreover have nd: "\<not> Flagz_IsDone fl'" using Flagz_isDone[OF m(2)] m(3) by simp
  moreover obtain bc where "broadcast now ?g zeroEvent = Some bc"
    using broadcast_ok[of ?g now zeroEvent] gm_invD(3)[OF joinedGame_inv[OF assms(1)]] by auto
  moreover have "moveEvent ?g 0 = Some (zeroEvent, [])" using nd by (simp add: moveEvent_def joinedGame_def)
  ultimately have "handleMove now ''1'' (requestOf m) 0 (joinedGame fl) = Some (?g, SendTok # bc)"
    using m by (simp add: handleMove_def joinedGame_def Let_def)
  with m show ?thesis by blast
qed

lemma nextThinkTime_bounds:
  "minTime \<le> thinkTime \<Longrightarrow> t \<le> thinkTime \<Longrightarrow> minTime \<le> nextThinkTime thinkTime q t \<and> nextThinkTime thinkTime q t \<le> thinkTime"
proof -
  have "t div 2 \<le> max t 0" by presburger
  then show "minTime \<le> thinkTime \<Longrightarrow> t \<le> thinkTime \<Longrightarrow> ?thesis" by (auto simp: nextThinkTime_def minTime_def Let_def)
qed

text \<open>C21. When the computer has been asked, its search answers with a move, and if nothing else
  happens to the game in between the master accepts it: the game is one move further, with a piece
  of the computer on a free cell, and everybody is told. The next think time is between the minimum
  and the configured one.\<close>

theorem computer_move_accepted:
  assumes "gm_reachable g" "gmEngine g = EngineFlagz fl" "gmSingle g" "gmPlayers g \<noteq> []" "Turn (Brd fl) = 2"
    "\<not> Flagz_IsDone fl" "1 \<le> MaxFlagPositions p" "0 \<le> UctFactor p" "\<not> timeUp t 0" "timeUp t (64 * k)"
    "minTime \<le> thinkTime" "t \<le> thinkTime"
  shows "\<exists>ev t' st g' acts fl'. cpuRound playerIdComputer thinkTime p timeUp s fl elapsed t = Some (ev, t', st) \<and>
    handleControl now ev g = Some (g', acts) \<and> gmEngine g' = EngineFlagz fl' \<and>
    Move (Brd fl') = Move (Brd fl) + 1 \<and> FreeCells fl' = FreeCells fl - 1 \<and>
    length (filter (\<lambda>a. \<exists>ch e. a = SendEvent ch e) acts) = length (gmListeners g) \<and>
    minTime \<le> t' \<and> t' \<le> thinkTime"
proof -
  note inv = gm_reachable_inv[OF assms(1)]
  have fl: "flagz_inv fl" "\<not> over fl" using gm_invD(1)[OF inv] assms(2,6) Flagz_isDone by auto
  have comp: "map_of (gmPlayers g) playerIdComputer = Some computerInfo" using gm_invD(7)[OF inv assms(3)] assms(4) by simp
  obtain tree md n b where t: "SuggestMove p (timeUp t) s fl = Some (nodeMove (Brd fl) (nd b), statsOf p tree md)"
    "b \<in> set (children tree)" "\<forall>c \<in> set (children tree). legal fl (nodeMove (Brd fl) (nd c)) \<and> stat_ok (nd c)"
    by (rule SuggestMove_ok[where timeUp = "timeUp t", OF fl assms(7-10)])
  define m where "m = nodeMove (Brd fl) (nd b)"
  have m: "legal fl m" using t(2,3) by (simp add: m_def)
  then have p2: "mvPlayer m = piNum computerInfo" using assms(5) by (simp add: legal_def computerInfo_def)
  obtain fl' where fl': "Flagz_MakeMove fl m = Some (fl', True)" "flagz_inv fl'" "moved fl m fl'" "Move (Brd fl') = Move (Brd fl) + 1"
    using MakeMove_inv[OF fl(1), of m] m by (auto split: if_splits)
  let ?t = "nextThinkTime thinkTime (MinQ Inf (sMoves (statsOf p tree md))) t"
  let ?c = "MaxQ 0 (sMoves (statsOf p tree md))"
  let ?ev = "ControlEventMove playerIdComputer (requestOf m) ?c"
  have r: "cpuRound playerIdComputer thinkTime p timeUp s fl elapsed t =
      Some (?ev, ?t, mctsStats GameTypeFlagz (statsOf p tree md) elapsed)"
    using t(1) by (simp add: cpuRound_def requestOf_def m_def Let_def)
  obtain g' acts where h: "handleControl now ?ev g = Some (g', acts)"
    using control_step[OF inv, of ?ev now] unfolding from_client_def by (metis control_event.simps(19))
  then have "handleMove now playerIdComputer (requestOf m) ?c g = Some (g', acts)" by simp
  then have "gmEngine g' = EngineFlagz fl' \<and> length (filter (\<lambda>a. \<exists>ch e. a = SendEvent ch e) acts) = length (gmListeners g)"
  proof (cases rule: handleMove_cases)
    case 1
    then show ?thesis using fl comp assms(2) by (auto simp: flagz_inv_def)
  next
    case (2 q e evt cnt bc)
    have "gm_inv g'" using gm_reachable_inv[OF gm_reachable.control[OF assms(1) _ h]] by (simp add: from_client_def)
    from broadcast_count[OF this 2(6)] have "length (filter (\<lambda>a. \<exists>ch e. a = SendEvent ch e) acts) = length (gmListeners g)"
      using moveEvent_actions[OF 2(5)] 2(4,7) by (simp add: gameCounter_def)
    then show ?thesis using 2(1,3,4) comp p2 assms(2) fl'(1) by simp
  next
    case (3 q e)
    then show ?thesis using comp p2 assms(2) fl'(1) by simp
  qed
  with r h fl' nextThinkTime_bounds[OF assms(11,12)] show ?thesis
    by (intro exI[of _ ?ev] exI[of _ ?t] exI[of _ "mctsStats GameTypeFlagz (statsOf p tree md) elapsed"] exI[of _ g']
        exI[of _ acts] exI[of _ fl'] conjI) (simp_all add: moved_def Let_def)
qed

theorem computer_move_accepted_witness:
  "\<exists>fl ev t' st. Turn (Brd fl) = 2 \<and>
     cpuRound playerIdComputer 5000000000 NewMCTS (\<lambda>t n. 100 \<le> n) (sconst 0) fl 1 5000000000 = Some (ev, t', st) \<and> minTime \<le> t'"
proof -
  obtain fl m where fl: "gm_reachable (joinedGame fl)" "freshGame fl" "legal fl m"
    using joinedGame_reachable freshGame_legal by blast
  obtain fl' bc where h: "handleMove [] ''1'' (requestOf m) 0 (joinedGame fl) =
      Some ((joinedGame fl)\<lparr>gmEngine := EngineFlagz fl'\<rparr>, SendTok # bc)" "flagz_inv fl'" "\<not> over fl'" "Turn (Brd fl') = 2"
    using first_move_asks[OF fl(2,3)] by blast
  then have "handleControl [] (ControlEventMove ''1'' (requestOf m) 0) (joinedGame fl) =
      Some ((joinedGame fl)\<lparr>gmEngine := EngineFlagz fl'\<rparr>, SendTok # bc)" by simp
  from gm_reachable.control[OF fl(1) _ this] have "gm_reachable ((joinedGame fl)\<lparr>gmEngine := EngineFlagz fl'\<rparr>)"
    by (simp add: from_client_def)
  from computer_move_accepted[OF this, of fl' NewMCTS "\<lambda>t n. 100 \<le> n" 5000000000 2 5000000000 "sconst 0" 1 "[]"] h(2-4)
  show ?thesis by (auto simp: joinedGame_def NewMCTS_def minTime_def Flagz_isDone)
qed

end
