(* ===== verification/GameSystem.thy ===== *)
theory GameSystem
  imports CpuGame
begin

text \<open>
  A game with all its goroutines: the master of \<open>GameMaster\<close>, the handlers of requests, the computer
  player and the timers of removals, which meet on unbuffered channels. A step of the system is one
  rendezvous or one local action of one goroutine, so a run is any interleaving of them. Between two
  receives of its \<open>select\<close> the master carries out the list of actions the handler of the event has
  produced, one at a time, and each of them may have to wait for a partner.
\<close>

section \<open>Goroutines and channels\<close>

text \<open>The channels that are closed by somebody: those of the listeners and of the timers, which the
  master has numbered, the channel of requests to the computer, and \<open>done\<close>.\<close>

datatype chan = Ch nat | CpuCh | DoneCh

text \<open>
  The handler of a request. \<open>CRegister\<close> is a call of \<open>registerPlayer\<close> that is still in \<open>sendEvent\<close>,
  \<open>CAwait\<close> the same call waiting for the reply, \<open>CListen\<close> the loop of \<open>handleSse\<close> with its channel
  and the events it has received, \<open>CLeave\<close> the call of \<open>unregisterPlayer\<close> when the connection has
  ended, \<open>CPost\<close> the handler of a move or a reset, \<open>CEnd\<close> a handler that has returned.
\<close>

datatype client =
    CRegister player | CAwait player | CListen player nat "server_event list"
  | CLeave player nat "server_event list" | CPost control_event | CEnd

datatype timer = TWaiting nat string | TFiring string | TGone

datatype cpu = CpuIdle | CpuThinking | CpuSending control_event | CpuGone

record sys =
  sysGm :: gm
  sysActs :: "action list"
  sysOver :: bool
  sysClosed :: "chan list"
  sysClients :: "client list"
  sysTimers :: "timer list"
  sysCpu :: cpu

text \<open>\<open>sendEvent\<close>: what a handler sends, and where it goes on when the master has received it or the
  game is over.\<close>

fun sendEvent :: "client \<Rightarrow> control_event option" where
  "sendEvent (CRegister p) = Some (ControlEventRegister p)"
| "sendEvent (CLeave p ch evs) = Some (ControlEventUnregister (plId p))"
| "sendEvent (CPost ev) = Some ev"
| "sendEvent c = None"

fun afterSend :: "bool \<Rightarrow> client \<Rightarrow> client" where
  "afterSend sent (CRegister p) = (if sent then CAwait p else CEnd)"
| "afterSend sent c = CEnd"

definition is_post :: "control_event \<Rightarrow> bool" where
  "is_post ev = (case ev of ControlEventMove _ _ _ \<Rightarrow> True | ControlEventReset _ _ \<Rightarrow> True | _ \<Rightarrow> False)"

text \<open>A request that arrives: the stream of events is opened by a player who has logged in.\<close>

definition arrives :: "client \<Rightarrow> bool" where
  "arrives c = (case c of CRegister p \<Rightarrow> plId p \<noteq> playerIdComputer | CPost ev \<Rightarrow> is_post ev | _ \<Rightarrow> False)"

section \<open>The actions of the master\<close>

fun closes :: "action \<Rightarrow> chan list" where
  "closes (CloseCancel c) = [Ch c]"
| "closes (CloseListener ch) = [Ch ch]"
| "closes CloseCpu = [CpuCh]"
| "closes CloseDone = [DoneCh]"
| "closes a = []"

fun sends_on :: "action \<Rightarrow> chan list" where
  "sends_on (SendEvent ch e) = [Ch ch]"
| "sends_on SendTok = [CpuCh]"
| "sends_on a = []"

text \<open>Go panics when a closed channel is sent on or closed again.\<close>

definition panics :: "sys \<Rightarrow> bool" where
  "panics s = (case sysActs s of [] \<Rightarrow> False | a # as \<Rightarrow> set (closes a @ sends_on a) \<inter> set (sysClosed s) \<noteq> {})"

text \<open>Actions that need no partner.\<close>

fun local_act :: "action \<Rightarrow> bool" where
  "local_act (Reply i ch) = False"
| "local_act (SendEvent ch e) = False"
| "local_act SendTok = False"
| "local_act a = True"

fun act :: "action \<Rightarrow> sys \<Rightarrow> sys" where
  "act (SpawnRemoval c i) s = s\<lparr>sysTimers := sysTimers s @ [TWaiting c i]\<rparr>"
| "act a s = s\<lparr>sysClosed := closes a @ sysClosed s\<rparr>"

abbreviation proceed :: "action list \<Rightarrow> nat \<Rightarrow> client \<Rightarrow> sys \<Rightarrow> sys" where
  "proceed as k c s \<equiv> s\<lparr>sysActs := as, sysClients := (sysClients s)[k := c]\<rparr>"

inductive master_step :: "sys \<Rightarrow> sys \<Rightarrow> bool" where
  reply: "sysActs s = Reply (plId p) ch # as \<Longrightarrow> k < length (sysClients s) \<Longrightarrow> sysClients s ! k = CAwait p \<Longrightarrow>
    master_step s (proceed as k (CListen p ch []) s)"
| send: "sysActs s = SendEvent ch e # as \<Longrightarrow> k < length (sysClients s) \<Longrightarrow> sysClients s ! k = CListen p ch evs \<Longrightarrow>
    master_step s (proceed as k (CListen p ch (evs @ [e])) s)"
| ask: "sysActs s = SendTok # as \<Longrightarrow> sysCpu s = CpuIdle \<Longrightarrow> master_step s (s\<lparr>sysActs := as, sysCpu := CpuThinking\<rparr>)"
| loc: "sysActs s = a # as \<Longrightarrow> local_act a \<Longrightarrow> master_step s (act a (s\<lparr>sysActs := as\<rparr>))"

text \<open>The \<open>select\<close>: an event, of a handler or of the computer, the tick, or the end of a timer. When the
  master returns, the listeners are closed in whatever order the map is visited then.\<close>

definition idle :: "sys \<Rightarrow> bool" where
  "idle s \<longleftrightarrow> sysActs s = [] \<and> \<not> sysOver s"

inductive select_step :: "sys \<Rightarrow> sys \<Rightarrow> bool" where
  event: "idle s \<Longrightarrow> k < length (sysClients s) \<Longrightarrow> sendEvent (sysClients s ! k) = Some ev \<Longrightarrow>
    handleControl now ev (sysGm s) = Some (g, acts) \<Longrightarrow>
    select_step s ((proceed acts k (afterSend True (sysClients s ! k)) s)\<lparr>sysGm := g\<rparr>)"
| computer: "idle s \<Longrightarrow> sysCpu s = CpuSending ev \<Longrightarrow> handleControl now ev (sysGm s) = Some (g, acts) \<Longrightarrow>
    select_step s (s\<lparr>sysGm := g, sysActs := acts, sysCpu := CpuIdle\<rparr>)"
| tick: "idle s \<Longrightarrow> select_step s (s\<lparr>sysActs := broadcastPing now (sysGm s) ''ping''\<rparr>)"
| removal: "idle s \<Longrightarrow> k < length (sysTimers s) \<Longrightarrow> sysTimers s ! k = TFiring i \<Longrightarrow>
    handleRemoval now i (sysGm s) = Some (bc @ deferred (sysGm s)) \<Longrightarrow> mset ls = mset (gmListeners (sysGm s)) \<Longrightarrow>
    select_step s (s\<lparr>sysActs := bc @ deferred ((sysGm s)\<lparr>gmListeners := ls\<rparr>), sysOver := True,
      sysTimers := (sysTimers s)[k := TGone]\<rparr>)"

section \<open>The other goroutines\<close>

text \<open>
  What the others do on their own. A map is visited in a new order each time. The computer's search
  reads the engine while the master may change it, so its move is any move here. A timer that is over
  waits for the master and no longer listens to its cancellation.
\<close>

inductive other_step :: "sys \<Rightarrow> sys \<Rightarrow> bool" where
  visit: "idle s \<Longrightarrow> mset ls = mset (gmListeners (sysGm s)) \<Longrightarrow> mset ps = mset (gmPlayers (sysGm s)) \<Longrightarrow>
    other_step s (s\<lparr>sysGm := (sysGm s)\<lparr>gmListeners := ls, gmPlayers := ps\<rparr>\<rparr>)"
| arrive: "arrives c \<Longrightarrow> other_step s (s\<lparr>sysClients := sysClients s @ [c]\<rparr>)"
| disconnect: "k < length (sysClients s) \<Longrightarrow> sysClients s ! k = CListen p ch evs \<Longrightarrow>
    other_step s (s\<lparr>sysClients := (sysClients s)[k := CLeave p ch evs]\<rparr>)"
| last_event: "k < length (sysClients s) \<Longrightarrow> sysClients s ! k = CListen p ch evs \<Longrightarrow> Ch ch \<in> set (sysClosed s) \<Longrightarrow>
    other_step s (s\<lparr>sysClients := (sysClients s)[k := CEnd]\<rparr>)"
| game_over: "k < length (sysClients s) \<Longrightarrow> sendEvent (sysClients s ! k) = Some ev \<Longrightarrow> DoneCh \<in> set (sysClosed s) \<Longrightarrow>
    other_step s (s\<lparr>sysClients := (sysClients s)[k := afterSend False (sysClients s ! k)]\<rparr>)"
| suggest: "sysCpu s = CpuThinking \<Longrightarrow> other_step s (s\<lparr>sysCpu := CpuSending (ControlEventMove playerIdComputer r c)\<rparr>)"
| cpu_end: "sysCpu s = CpuIdle \<Longrightarrow> CpuCh \<in> set (sysClosed s) \<Longrightarrow> other_step s (s\<lparr>sysCpu := CpuGone\<rparr>)"
| time_out: "k < length (sysTimers s) \<Longrightarrow> sysTimers s ! k = TWaiting c i \<Longrightarrow>
    other_step s (s\<lparr>sysTimers := (sysTimers s)[k := TFiring i]\<rparr>)"
| cancelled: "k < length (sysTimers s) \<Longrightarrow> sysTimers s ! k = TWaiting c i \<Longrightarrow> Ch c \<in> set (sysClosed s) \<Longrightarrow>
    other_step s (s\<lparr>sysTimers := (sysTimers s)[k := TGone]\<rparr>)"

definition sys_step :: "sys \<Rightarrow> sys \<Rightarrow> bool" where
  "sys_step s s' \<longleftrightarrow> master_step s s' \<or> select_step s s' \<or> other_step s s'"

definition startSys :: "gm \<Rightarrow> action list \<Rightarrow> sys" where
  "startSys g acts = \<lparr>sysGm = g, sysActs = acts, sysOver = False, sysClosed = [], sysClients = [], sysTimers = [],
     sysCpu = (if gmSingle g then CpuIdle else CpuGone)\<rparr>"

inductive sys_reachable :: "sys \<Rightarrow> bool" where
  start: "startMaster i t single src = Some (g, acts) \<Longrightarrow> (single \<longrightarrow> supportsSinglePlayer t) \<Longrightarrow> sys_reachable (startSys g acts)"
| step: "sys_reachable s \<Longrightarrow> sys_step s s' \<Longrightarrow> sys_reachable s'"

end
