(* ===== verification/GameSystemInv.thy ===== *)
theory GameSystemInv
  imports GameSystem
begin

text \<open>
  The invariants of the system of \<open>GameSystem\<close>: the state of the master is one it reaches alone, no
  channel in use is closed, and every listener of the master has a handler at the other end.
\<close>

section \<open>What a handler of the master does with channels\<close>

definition chans :: "gm \<Rightarrow> nat list" where
  "chans g = map snd (gmListeners g) @ map snd (gmRmCancel g)"

definition quiet :: "action \<Rightarrow> bool" where
  "quiet a \<longleftrightarrow> closes a = [] \<and> (\<forall>i ch. a \<noteq> Reply i ch) \<and> (\<forall>i. a \<noteq> DeleteGame i)"

lemma quiet_simps [simp]:
  "quiet (SendEvent ch e)" "quiet SendTok" "quiet (gameCounter g x)" "quiet (SpawnRemoval c i)"
  "\<not> quiet (CloseCancel c)" "\<not> quiet (Reply i ch)" "\<not> quiet (DeleteGame i)" "gameCounter g x \<noteq> SendTok" "SendTok \<noteq> gameCounter g x"
  by (simp_all add: quiet_def gameCounter_def)

text \<open>The three parts of what a handler does: it cancels removals, answers a registration, and sends.\<close>

definition produces :: "gm \<Rightarrow> control_event \<Rightarrow> gm \<Rightarrow> nat list \<Rightarrow> action list \<Rightarrow> bool" where
  "produces g ev g' cl rest \<longleftrightarrow>
     (\<forall>a \<in> set rest. quiet a \<and> ownView g' a) \<and> (SendTok \<in> set rest \<longrightarrow> gmSingle g) \<and> count_list rest SendTok \<le> 1 \<and>
     gmSingle g' = gmSingle g \<and>
     distinct cl \<and> set cl \<subseteq> set (map snd (gmRmCancel g)) \<and>
     (case ev of
        ControlEventRegister p \<Rightarrow> gmListeners g' = AList.update (plId p) (gmNext g) (gmListeners g) \<and> gmNext g' = gmNext g + 1 \<and>
          (cl = [] \<and> gmRmCancel g' = gmRmCancel g \<or>
           (\<exists>c. cl = [c] \<and> map_of (gmRmCancel g) (plId p) = Some c \<and> gmRmCancel g' = AList.delete (plId p) (gmRmCancel g)))
      | ControlEventUnregister i \<Rightarrow> cl = [] \<and> gmListeners g' = AList.delete i (gmListeners g) \<and>
          (gmRmCancel g' = gmRmCancel g \<and> gmNext g' = gmNext g \<or>
           map_of (gmRmCancel g) i = None \<and> gmRmCancel g' = AList.update i (gmNext g) (gmRmCancel g) \<and> gmNext g' = gmNext g + 1)
      | _ \<Rightarrow> cl = [] \<and> gmListeners g' = gmListeners g \<and> gmRmCancel g' = gmRmCancel g \<and> gmNext g' = gmNext g)"

definition repliesTo :: "gm \<Rightarrow> control_event \<Rightarrow> action list" where
  "repliesTo g ev = (case ev of ControlEventRegister p \<Rightarrow> [Reply (plId p) (gmNext g)] | _ \<Rightarrow> [])"

lemma broadcast_quiet:
  assumes "gm_inv g" "broadcast now g e = Some bc"
  shows "\<forall>a \<in> set bc. quiet a \<and> ownView g a \<and> a \<noteq> SendTok"
proof -
  have "\<forall>a \<in> set bc. \<exists>ch e. a = SendEvent ch e"
    using broadcast_count[OF assms] filter_id_conv[of "\<lambda>a. \<exists>ch e. a = SendEvent ch e" bc] by simp
  then show ?thesis using broadcast_ownView[OF assms] by fastforce
qed

lemma singlecast_quiet: "\<forall>a \<in> set (singlecast now g i e). quiet a \<and> ownView g a \<and> a \<noteq> SendTok"
  using singlecast_ownView[of now g i e] by (auto simp: singlecast_def split: option.splits)

lemma admit_chans:
  assumes "admit p g = (num, added, g1, as)"
  shows "\<exists>cl. as = map CloseCancel cl \<and> gmSingle g1 = gmSingle g \<and>
    (cl = [] \<and> gmRmCancel g1 = gmRmCancel g \<or>
     (\<exists>c. cl = [c] \<and> map_of (gmRmCancel g) (plId p) = Some c \<and> gmRmCancel g1 = AList.delete (plId p) (gmRmCancel g)))"
proof (cases "\<exists>c. as = [CloseCancel c]")
  case True
  then obtain c where "as = map CloseCancel [c]" by auto
  moreover from this assms(1) have "gmSingle g1 = gmSingle g" "map_of (gmRmCancel g) (plId p) = Some c"
    "gmRmCancel g1 = AList.delete (plId p) (gmRmCancel g)"
    by (auto simp: admit_def Let_def split: option.splits if_splits)
  ultimately show ?thesis by blast
next
  case False
  with assms(1) show ?thesis by (auto simp: admit_def Let_def split: option.splits if_splits)
qed

lemma register_produces:
  assumes "gm_inv g" "plId p \<noteq> playerIdComputer" "handleRegister now p g = Some (g', acts)" "gm_inv g'"
  shows "\<exists>cl rest. acts = map CloseCancel cl @ repliesTo g (ControlEventRegister p) @ rest \<and>
    produces g (ControlEventRegister p) g' cl rest"
  using assms(3)
proof (cases rule: handleRegister_cases)
  case (1 num added g1 as e bc)
  note A = admit_ok[OF assms(1,2) 1(1)]
  obtain cl where cl: "as = map CloseCancel cl" "gmSingle g1 = gmSingle g"
    "cl = [] \<and> gmRmCancel g1 = gmRmCancel g \<or>
     (\<exists>c. cl = [c] \<and> map_of (gmRmCancel g) (plId p) = Some c \<and> gmRmCancel g1 = AList.delete (plId p) (gmRmCancel g))"
    using admit_chans[OF 1(1)] by blast
  let ?rest = "singlecast now g' (plId p) (zeroEvent\<lparr>evRole := num\<rparr>) @ bc"
  have rest: "\<forall>a \<in> set ?rest. quiet a \<and> ownView g' a \<and> a \<noteq> SendTok"
    using broadcast_quiet[OF assms(4) 1(3)] singlecast_quiet[of now g' "plId p"] by auto
  have "set cl \<subseteq> set (map snd (gmRmCancel g))" "distinct cl"
    using cl(3) map_of_set[of "gmRmCancel g" "plId p"] by force+
  moreover have "SendTok \<notin> set ?rest" using rest by blast
  ultimately have "produces g (ControlEventRegister p) g' cl ?rest" using rest cl A 1(2) by (auto simp: produces_def)
  moreover have "acts = map CloseCancel cl @ repliesTo g (ControlEventRegister p) @ ?rest"
    using 1(4) cl(1) A by (simp add: repliesTo_def)
  ultimately show ?thesis by blast
qed

lemma control_produces:
  assumes "gm_inv g" "from_client ev" "handleControl now ev g = Some (g', acts)" "gm_inv g'"
  shows "\<exists>cl rest. acts = map CloseCancel cl @ repliesTo g ev @ rest \<and> produces g ev g' cl rest"
proof (cases ev)
  case (ControlEventRegister p)
  with assms register_produces[of g p now g' acts] show ?thesis by (simp add: from_client_def)
next
  case (ControlEventUnregister i)
  with assms(3) show ?thesis
    by (intro exI[of _ "[]"] exI[of _ acts]) (auto simp: handleUnregister_def Let_def produces_def repliesTo_def split: if_splits)
next
  case (ControlEventMove i r c)
  then have "handleMove now i r c g = Some (g', acts)" using assms(3) by simp
  then show ?thesis
  proof (cases rule: handleMove_cases)
    case (2 p e evt cnt bc)
    with broadcast_quiet[OF assms(4) 2(6)] moveEvent_actions[OF 2(5)] ControlEventMove show ?thesis
      by (intro exI[of _ "[]"] exI[of _ acts]) (auto simp: produces_def repliesTo_def)
  qed (use ControlEventMove in \<open>auto simp: produces_def repliesTo_def\<close>)
next
  case (ControlEventReset i message)
  show ?thesis
  proof (cases "map_of (gmPlayers g) i")
    case None
    with assms(3) ControlEventReset show ?thesis by (auto simp: handleReset_def produces_def repliesTo_def)
  next
    case (Some p)
    let ?evt = "zeroEvent\<lparr>evAnnouncements := [Restarted (plName (piPlayer p))]\<rparr>"
    obtain e where e: "engineReset (gmEngine g) = Some e"
      using assms(3) ControlEventReset Some by (cases "engineReset (gmEngine g)") (simp_all add: handleReset_def)
    have "broadcast now (g\<lparr>gmEngine := e\<rparr>) ?evt = Some acts \<and> g' = g\<lparr>gmEngine := e\<rparr>"
      using assms(3) ControlEventReset Some e
      by (cases "broadcast now (g\<lparr>gmEngine := e\<rparr>) ?evt") (simp_all add: handleReset_def Let_def)
    with broadcast_quiet[OF assms(4), of now ?evt acts] ControlEventReset show ?thesis
      by (intro exI[of _ "[]"] exI[of _ acts]) (auto simp: produces_def repliesTo_def)
  qed
qed

section \<open>Channel numbers\<close>

definition chans_ok :: "gm \<Rightarrow> bool" where
  "chans_ok g \<longleftrightarrow> distinct (chans g) \<and> (\<forall>c \<in> set (chans g). c < gmNext g)"

text \<open>A new listener or timer gets a new channel; a cancelled timer is forgotten.\<close>

lemma set_snd_update: "set (map snd (AList.update i c al)) \<subseteq> insert c (set (map snd al))"
  by (induction al) auto

lemma set_snd_delete: "set (map snd (AList.delete i al)) \<subseteq> set (map snd al)"
  by (induction al) auto

lemma distinct_snd_delete: "distinct (map snd al) \<Longrightarrow> distinct (map snd (AList.delete i al))"
  by (simp add: AList.delete_eq distinct_map_filter)

lemma distinct_snd_update: "distinct (map snd al) \<Longrightarrow> c \<notin> set (map snd al) \<Longrightarrow> distinct (map snd (AList.update i c al))"
proof (induction al)
  case (Cons x al)
  then show ?case using set_snd_update[of i c al] by (cases x) auto
qed simp

lemma deleted_snd:
  assumes "distinct (map snd al)" "distinct (map fst al)" "map_of al i = Some c"
  shows "c \<notin> set (map snd (AList.delete i al))"
proof
  assume "c \<in> set (map snd (AList.delete i al))"
  then obtain j where "(j, c) \<in> set (AList.delete i al)" by auto
  then have "(j, c) \<in> set al" "j \<noteq> i" by (auto simp: AList.delete_eq)
  moreover have "(i, c) \<in> set al" using assms(3) by (rule map_of_SomeD)
  moreover have "inj_on snd (set al)" using assms(1) by (simp add: distinct_map)
  ultimately show False by (metis inj_onD snd_conv prod.inject)
qed

lemma chans_okI:
  assumes "chans_ok g" "distinct (map snd L)" "distinct (map snd R)" "set (map snd L) \<inter> set (map snd R) = {}"
    "set (map snd L) \<union> set (map snd R) \<subseteq> (if n = gmNext g then {} else {gmNext g}) \<union> set (chans g)"
    "gmListeners g' = L" "gmRmCancel g' = R" "gmNext g' = n" "n = gmNext g \<or> n = gmNext g + 1"
  shows "chans_ok g' \<and> gmNext g \<le> gmNext g' \<and> (\<forall>c \<in> set (chans g'). c \<in> set (chans g) \<or> gmNext g \<le> c)"
proof -
  have set: "set (chans g') = set (map snd L) \<union> set (map snd R)" using assms(6,7) by (simp add: chans_def)
  have "c < n" if "c \<in> set (chans g')" for c
  proof -
    have "c \<in> set (chans g) \<or> c = gmNext g \<and> n \<noteq> gmNext g" using that assms(5) unfolding set by (auto split: if_splits)
    with assms(1,9) show ?thesis by (auto simp: chans_ok_def)
  qed
  moreover have "distinct (chans g')" using assms(2-4,6,7) by (simp add: chans_def)
  moreover have "\<forall>c \<in> set (chans g'). c \<in> set (chans g) \<or> c = gmNext g"
    using assms(5) unfolding set by (auto split: if_splits)
  ultimately show ?thesis using assms(8,9) by (auto simp: chans_ok_def)
qed

lemma produces_chans:
  assumes "gm_inv g" "chans_ok g" "produces g ev g' cl rest"
  shows "chans_ok g' \<and> gmNext g \<le> gmNext g' \<and> (\<forall>c \<in> set (chans g'). c \<in> set (chans g) \<or> gmNext g \<le> c) \<and>
    (\<forall>c \<in> set cl. c \<in> set (chans g) \<and> c \<notin> set (chans g'))"
proof -
  define L R where "L = gmListeners g" and "R = gmRmCancel g"
  have ok: "distinct (map snd L)" "distinct (map snd R)" "set (map snd L) \<inter> set (map snd R) = {}"
    "\<forall>c \<in> set (map snd L) \<union> set (map snd R). c < gmNext g" "set (chans g) = set (map snd L) \<union> set (map snd R)"
    using assms(2) by (auto simp: chans_ok_def chans_def L_def R_def)
  have fresh: "gmNext g \<notin> set (map snd L)" "gmNext g \<notin> set (map snd R)" using ok(4) by auto
  note upd = set_snd_update[of _ "gmNext g"] and del = set_snd_delete
  show ?thesis
  proof (cases ev)
    case (ControlEventRegister p)
    let ?L = "AList.update (plId p) (gmNext g) L"
    have P: "gmListeners g' = ?L" "gmNext g' = gmNext g + 1"
      using assms(3) ControlEventRegister by (simp_all add: produces_def L_def)
    from assms(3) ControlEventRegister consider "cl = []" "gmRmCancel g' = R"
      | c where "cl = [c]" "map_of R (plId p) = Some c" "gmRmCancel g' = AList.delete (plId p) R"
      by (auto simp: produces_def R_def)
    then show ?thesis
    proof cases
      case 1
      have "set (map snd ?L) \<inter> set (map snd R) = {}" using upd[of "plId p" L] ok(3) fresh by blast
      moreover have "set (map snd ?L) \<union> set (map snd R) \<subseteq> {gmNext g} \<union> set (chans g)" using upd[of "plId p" L] ok(5) by blast
      ultimately show ?thesis
        using chans_okI[OF assms(2) distinct_snd_update[OF ok(1) fresh(1)] ok(2) _ _ P(1) 1(2) P(2)] 1 by simp
    next
      case (2 c)
      let ?R = "AList.delete (plId p) R"
      have c: "c \<in> set (map snd R)" "c \<notin> set (map snd ?R)"
        using map_of_set[OF 2(2)] deleted_snd[OF ok(2) _ 2(2)] gm_invD(9)[OF assms(1)] by (force simp: R_def)+
      moreover have "c \<notin> set (map snd ?L)" using upd[of "plId p" L] c(1) ok(3) fresh by blast
      moreover have "set (map snd ?L) \<inter> set (map snd ?R) = {}" using upd[of "plId p" L] del[of "plId p" R] ok(3) fresh by blast
      moreover have "set (map snd ?L) \<union> set (map snd ?R) \<subseteq> {gmNext g} \<union> set (chans g)"
        using upd[of "plId p" L] del[of "plId p" R] ok(5) by blast
      moreover have "set (chans g') = set (map snd ?L) \<union> set (map snd ?R)" using P 2 by (simp add: chans_def)
      ultimately show ?thesis
        using chans_okI[OF assms(2) distinct_snd_update[OF ok(1) fresh(1)] distinct_snd_delete[OF ok(2)] _ _ P(1) 2(3) P(2)] 2 ok(5)
        by simp
    qed
  next
    case (ControlEventUnregister i)
    let ?L = "AList.delete i L"
    have P: "gmListeners g' = ?L" "cl = []"
      using assms(3) ControlEventUnregister by (simp_all add: produces_def L_def)
    from assms(3) ControlEventUnregister consider "gmRmCancel g' = R" "gmNext g' = gmNext g"
      | "gmRmCancel g' = AList.update i (gmNext g) R" "gmNext g' = gmNext g + 1"
      by (auto simp: produces_def R_def)
    then show ?thesis
    proof cases
      case 1
      have "set (map snd ?L) \<inter> set (map snd R) = {}" using del[of i L] ok(3) by blast
      moreover have "set (map snd ?L) \<union> set (map snd R) \<subseteq> {} \<union> set (chans g)" using del[of i L] ok(5) by blast
      ultimately show ?thesis
        using chans_okI[OF assms(2) distinct_snd_delete[OF ok(1)] ok(2) _ _ P(1) 1(1,2)] P by simp
    next
      case 2
      have "set (map snd ?L) \<inter> set (map snd (AList.update i (gmNext g) R)) = {}"
        using del[of i L] upd[of i R] ok(3) fresh by blast
      moreover have "set (map snd ?L) \<union> set (map snd (AList.update i (gmNext g) R)) \<subseteq> {gmNext g} \<union> set (chans g)"
        using del[of i L] upd[of i R] ok(5) by blast
      ultimately show ?thesis
        using chans_okI[OF assms(2) distinct_snd_delete[OF ok(1)] distinct_snd_update[OF ok(2) fresh(2)] _ _ P(1) 2(1,2)] P by simp
    qed
  qed (use assms in \<open>simp_all add: produces_def chans_ok_def chans_def\<close>)
qed

lemma gm_reachable_chans: "gm_reachable g \<Longrightarrow> chans_ok g"
proof (induction rule: gm_reachable.induct)
  case (start i t single src g acts)
  with startMaster_ok[OF start(2), of i src] show ?case by (auto simp: chans_ok_def chans_def)
next
  case (control g ev now g' acts)
  obtain cl rest where "produces g ev g' cl rest"
    using control_produces[OF gm_reachable_inv[OF control(1)] control(2,3) gm_reachable_inv[OF gm_reachable.control[OF control(1-3)]]]
    by blast
  from produces_chans[OF gm_reachable_inv[OF control(1)] control.IH this] show ?case by blast
next
  case (range_order g ls ps)
  then have "set ls = set (gmListeners g)" "distinct (map snd ls)"
    using mset_eq_setD mset_distinct_map[OF range_order(2), of snd] by (auto simp: chans_ok_def chans_def)
  with range_order show ?case by (auto simp: chans_ok_def chans_def)
qed

section \<open>Steps in general\<close>

lemma master_step_same:
  assumes "master_step s s'"
  shows "\<exists>a. sysActs s = a # sysActs s' \<and> sysGm s' = sysGm s \<and> sysOver s' = sysOver s \<and>
    sysClosed s' = closes a @ sysClosed s"
  using assms
proof cases
  case (loc a as)
  then show ?thesis by (cases a) auto
qed auto

lemma other_step_same:
  assumes "other_step s s'"
  shows "sysActs s' = sysActs s \<and> sysOver s' = sysOver s \<and> sysClosed s' = sysClosed s \<and>
    (sysGm s' = sysGm s \<or> idle s \<and> (\<exists>ls ps. mset ls = mset (gmListeners (sysGm s)) \<and> mset ps = mset (gmPlayers (sysGm s)) \<and>
       sysGm s' = (sysGm s)\<lparr>gmListeners := ls, gmPlayers := ps\<rparr>))"
  using assms by cases auto

text \<open>The events that are received at the \<open>select\<close>, and the state that the master is in.\<close>

definition client_ok :: "client \<Rightarrow> bool" where
  "client_ok c \<longleftrightarrow> (case c of CRegister p \<Rightarrow> plId p \<noteq> playerIdComputer | CPost ev \<Rightarrow> is_post ev | _ \<Rightarrow> True)"

definition base_inv :: "sys \<Rightarrow> bool" where
  "base_inv s \<longleftrightarrow> gm_reachable (sysGm s) \<and> (\<forall>c \<in> set (sysClients s). client_ok c) \<and>
     (\<forall>ev. sysCpu s = CpuSending ev \<longrightarrow> is_post ev)"

lemma is_post_from_client: "is_post ev \<Longrightarrow> from_client ev"
  by (cases ev) (simp_all add: is_post_def from_client_def)

lemma client_ok_simps [simp]:
  "client_ok (CAwait p)" "client_ok (CListen p ch evs)" "client_ok (CLeave p ch evs)" "client_ok CEnd"
  "client_ok (afterSend b c)"
  by (cases c; simp add: client_ok_def)+

lemma arrives_ok: "arrives c \<Longrightarrow> client_ok c"
  by (cases c) (simp_all add: arrives_def client_ok_def)

lemma in_update: "x \<in> set (xs[k := y]) \<Longrightarrow> x = y \<or> x \<in> set xs"
  using set_update_subset_insert by fastforce

lemma base_inv_clients:
  assumes "base_inv s" "k < length (sysClients s)" "sendEvent (sysClients s ! k) = Some ev"
  shows "from_client ev"
proof -
  have "client_ok (sysClients s ! k)" using assms(1,2) by (simp add: base_inv_def)
  with assms(3) show ?thesis by (cases "sysClients s ! k") (auto simp: client_ok_def is_post_from_client, (simp add: from_client_def)+)
qed

lemma base_inv_step:
  assumes "base_inv s" "sys_step s s'"
  shows "base_inv s'"
proof -
  have B: "gm_reachable (sysGm s)" "\<forall>c \<in> set (sysClients s). client_ok c" "\<forall>ev. sysCpu s = CpuSending ev \<longrightarrow> is_post ev"
    using assms(1) by (simp_all add: base_inv_def)
  from assms(2) consider "master_step s s'" | "select_step s s'" | "other_step s s'" by (auto simp: sys_step_def)
  then show ?thesis
  proof cases
    case 1
    from 1 show ?thesis
    proof cases
      case (loc a as)
      then show ?thesis using B by (cases a) (auto simp: base_inv_def)
    qed (use B in \<open>auto simp: base_inv_def dest!: in_update\<close>)
  next
    case 2
    from 2 show ?thesis
    proof cases
      case (event k ev now g acts)
      have "gm_reachable g" by (rule gm_reachable.control[OF B(1) base_inv_clients[OF assms(1) event(3,4)] event(5)])
      with event B show ?thesis by (auto simp: base_inv_def dest!: in_update)
    next
      case (computer ev now g acts)
      have "gm_reachable g" using gm_reachable.control[OF B(1) is_post_from_client computer(4)] B(3) computer(3) by blast
      with computer B show ?thesis by (simp add: base_inv_def)
    qed (use B in \<open>simp_all add: base_inv_def\<close>)
  next
    case 3
    then have "gm_reachable (sysGm s')" using other_step_same[OF 3] B(1) gm_reachable.range_order by metis
    from 3 show ?thesis
      by cases (use B arrives_ok \<open>gm_reachable (sysGm s')\<close> in \<open>auto simp: base_inv_def is_post_def dest!: in_update\<close>)
  qed
qed

lemma sys_reachable_base: "sys_reachable s \<Longrightarrow> base_inv s"
proof (induction rule: sys_reachable.induct)
  case (start i t single src g acts)
  from gm_reachable.start[OF start] show ?case by (simp add: base_inv_def startSys_def)
qed (rule base_inv_step)

lemma sys_reachable_gm: "sys_reachable s \<Longrightarrow> gm_reachable (sysGm s)"
  using sys_reachable_base by (simp add: base_inv_def)

text \<open>An event at the \<open>select\<close>, from a handler or from the computer.\<close>

lemma select_cases:
  assumes "base_inv s" "select_step s s'"
  obtains k ev now where "idle s" "k < length (sysClients s)" "sendEvent (sysClients s ! k) = Some ev" "from_client ev"
    "handleControl now ev (sysGm s) = Some (sysGm s', sysActs s')" "sysCpu s' = sysCpu s" "\<not> sysOver s'"
    "sysClients s' = (sysClients s)[k := afterSend True (sysClients s ! k)]" "sysClosed s' = sysClosed s" 
  | ev now where "idle s" "sysCpu s = CpuSending ev" "is_post ev"
    "handleControl now ev (sysGm s) = Some (sysGm s', sysActs s')" "sysCpu s' = CpuIdle" "\<not> sysOver s'"
    "sysClients s' = sysClients s" "sysClosed s' = sysClosed s"
  | now where "idle s" "s' = s\<lparr>sysActs := broadcastPing now (sysGm s) ''ping''\<rparr>"
  | now i bc ls where "idle s" "handleRemoval now i (sysGm s) = Some (bc @ deferred (sysGm s))"
    "mset ls = mset (gmListeners (sysGm s))" "sysActs s' = bc @ deferred ((sysGm s)\<lparr>gmListeners := ls\<rparr>)" "sysOver s'"
    "sysGm s' = sysGm s" "sysClients s' = sysClients s" "sysClosed s' = sysClosed s" "sysCpu s' = sysCpu s"
  using assms(2)
proof cases
  case (event k ev now g acts)
  then show thesis using that(1)[of k ev now] base_inv_clients[OF assms(1) event(3,4)] by (simp add: idle_def)
next
  case (computer ev now g acts)
  then show thesis using that(2)[of ev now] assms(1) by (simp add: idle_def base_inv_def)
next
  case (tick now)
  then show thesis using that(3) by blast
next
  case (removal k i now bc ls)
  then show thesis using that(4)[of now i bc ls] by simp
qed

section \<open>No closed channel is used\<close>

fun channels_ok :: "chan set \<Rightarrow> action list \<Rightarrow> bool" where
  "channels_ok cl [] = True"
| "channels_ok cl (a # as) \<longleftrightarrow> set (closes a @ sends_on a) \<inter> cl = {} \<and> channels_ok (set (closes a) \<union> cl) as"

definition closings :: "action list \<Rightarrow> chan set" where
  "closings as = set (concat (map closes as))"

lemma closings_simps [simp]:
  "closings [] = {}" "closings (a # as) = set (closes a) \<union> closings as" "closings (as @ bs) = closings as \<union> closings bs"
  by (simp_all add: closings_def)

lemma channels_ok_append: "channels_ok cl (as @ bs) \<longleftrightarrow> channels_ok cl as \<and> channels_ok (closings as \<union> cl) bs"
  by (induction as arbitrary: cl) (auto simp: Un_assoc Un_left_commute)

lemma channels_ok_silent:
  "\<forall>a \<in> set as. closes a = [] \<and> set (sends_on a) \<inter> cl = {} \<Longrightarrow> channels_ok cl as \<and> closings as = {}"
  by (induction as) auto

lemma channels_ok_disjoint: "channels_ok cl as \<Longrightarrow> a \<in> set as \<Longrightarrow> set (closes a) \<inter> cl = {}"
  by (induction as arbitrary: cl) auto

lemma channels_ok_closing: "distinct xs \<Longrightarrow> Ch ` set xs \<inter> cl = {} \<Longrightarrow> channels_ok cl (map CloseCancel xs) \<and> channels_ok cl (map CloseListener xs)"
proof (induction xs arbitrary: cl)
  case (Cons x xs)
  then have "Ch ` set xs \<inter> insert (Ch x) cl = {}" by auto
  with Cons show ?case by simp
qed simp

lemma closings_close [simp]: "closings (map CloseCancel xs) = Ch ` set xs" "closings (map CloseListener xs) = Ch ` set xs"
  by (induction xs) auto

definition shut :: "sys \<Rightarrow> chan set" where
  "shut s = closings (sysActs s) \<union> set (sysClosed s)"

definition live :: "gm \<Rightarrow> chan set" where
  "live g = Ch ` set (chans g) \<union> {CpuCh, DoneCh}"

definition chan_inv :: "sys \<Rightarrow> bool" where
  "chan_inv s \<longleftrightarrow> channels_ok (set (sysClosed s)) (sysActs s) \<and> (\<forall>c. Ch c \<in> shut s \<longrightarrow> c < gmNext (sysGm s)) \<and>
     (\<not> sysOver s \<longrightarrow> shut s \<inter> live (sysGm s) = {}) \<and> (sysOver s \<longrightarrow> sysActs s \<noteq> [] \<longrightarrow> List.last (sysActs s) = CloseDone)"

lemma ownView_live: "ownView g a \<Longrightarrow> quiet a \<Longrightarrow> closes a = [] \<and> set (sends_on a) \<subseteq> live g"
  by (cases a) (force simp: ownView_def quiet_def live_def chans_def dest: map_of_set)+

lemma quiet_channels:
  assumes "\<forall>a \<in> set as. quiet a \<and> ownView g a" "live g \<inter> cl = {}"
  shows "channels_ok cl as \<and> closings as = {}"
proof (rule channels_ok_silent, rule ballI)
  fix a assume "a \<in> set as"
  then have "closes a = []" "set (sends_on a) \<subseteq> live g" using ownView_live assms(1) by blast+
  with assms(2) show "closes a = [] \<and> set (sends_on a) \<inter> cl = {}" by blast
qed

lemma control_channels:
  assumes "gm_reachable g" "from_client ev" "handleControl now ev g = Some (g', acts)"
    "live g \<inter> cl = {}" "\<forall>c. Ch c \<in> cl \<longrightarrow> c < gmNext g"
  shows "channels_ok cl acts \<and> (\<forall>c. Ch c \<in> closings acts \<union> cl \<longrightarrow> c < gmNext g') \<and> (closings acts \<union> cl) \<inter> live g' = {}"
proof -
  have r': "gm_reachable g'" by (rule gm_reachable.control[OF assms(1-3)])
  obtain cs rest where o: "acts = map CloseCancel cs @ repliesTo g ev @ rest" "produces g ev g' cs rest"
    using control_produces[OF gm_reachable_inv[OF assms(1)] assms(2,3) gm_reachable_inv[OF r']] by blast
  note P = produces_chans[OF gm_reachable_inv[OF assms(1)] gm_reachable_chans[OF assms(1)] o(2)]
  have cs: "distinct cs" "\<forall>c \<in> set cs. c \<in> set (chans g) \<and> c \<notin> set (chans g')" using o(2) P by (auto simp: produces_def)
  have rp: "channels_ok x (repliesTo g ev) \<and> closings (repliesTo g ev) = {}" for x
    by (cases ev) (simp_all add: repliesTo_def)
  have "Ch c \<notin> cl" if "c \<in> set (chans g')" for c
  proof
    assume "Ch c \<in> cl"
    with assms(5) P that have "c \<in> set (chans g)" using leD by blast
    with \<open>Ch c \<in> cl\<close> assms(4) show False by (auto simp: live_def)
  qed
  then have "live g' \<inter> (Ch ` set cs \<union> cl) = {}" using cs assms(4) by (auto simp: live_def)
  moreover from this quiet_channels[of rest g' "Ch ` set cs \<union> cl"] o(2)
  have "channels_ok (Ch ` set cs \<union> cl) rest \<and> closings rest = {}" by (auto simp: produces_def)
  moreover have "Ch ` set cs \<inter> cl = {}" using cs assms(4) by (auto simp: live_def)
  moreover have "\<forall>c \<in> set cs. c < gmNext g" using cs gm_reachable_chans[OF assms(1)] by (auto simp: chans_ok_def)
  ultimately show ?thesis
    using o(1) rp channels_ok_closing[OF cs(1), of cl] assms(5) P by (auto simp: channels_ok_append)
qed

lemma removal_channels:
  assumes "gm_reachable g" "handleRemoval now i g = Some (bc @ deferred g)" "mset ls = mset (gmListeners g)"
    "live g \<inter> cl = {}" "\<forall>c. Ch c \<in> cl \<longrightarrow> c < gmNext g"
  shows "channels_ok cl (bc @ deferred (g\<lparr>gmListeners := ls\<rparr>)) \<and>
    (\<forall>c. Ch c \<in> closings (bc @ deferred (g\<lparr>gmListeners := ls\<rparr>)) \<union> cl \<longrightarrow> c < gmNext g)"
proof -
  obtain e where "broadcast now g e = Some bc"
    using assms(2) by (auto simp: handleRemoval_def split: Option.bind_splits)
  from broadcast_quiet[OF gm_reachable_inv[OF assms(1)] this] quiet_channels[of bc g cl] assms(4)
  have bc: "channels_ok cl bc" "closings bc = {}" by blast+
  have ok: "chans_ok g" by (rule gm_reachable_chans[OF assms(1)])
  have ls: "distinct (map snd ls)" "set ls = set (gmListeners g)"
    using ok mset_distinct_map[OF assms(3), of snd] mset_eq_setD[OF assms(3)] by (auto simp: chans_ok_def chans_def)
  define f xs where "f = (if gmSingle g then [CloseCpu] else [])" and "xs = map snd ls"
  have f: "channels_ok cl f" "closings f \<subseteq> {CpuCh}" using assms(4) by (auto simp: f_def live_def)
  have d: "deferred (g\<lparr>gmListeners := ls\<rparr>) = f @ map CloseListener xs @ [DeleteGame (gmId g), CloseDone]"
    by (simp add: deferred_def f_def xs_def split_def)
  have xs: "set xs \<subseteq> set (chans g)" using ls(2) by (auto simp: chans_def xs_def)
  then have "Ch ` set xs \<subseteq> live g" by (auto simp: live_def)
  with f(2) assms(4) have "Ch ` set xs \<inter> (closings f \<union> cl) = {}" by blast
  moreover have "DoneCh \<notin> closings f \<union> cl" using f(2) assms(4) by (auto simp: live_def)
  moreover have "\<forall>c \<in> set xs. c < gmNext g" using ok xs by (auto simp: chans_ok_def)
  moreover have "distinct xs" using ls(1) by (simp add: xs_def)
  ultimately show ?thesis
    unfolding d using bc f channels_ok_closing[of xs "closings f \<union> cl"] assms(5) by (auto simp: channels_ok_append)
qed

lemma chan_inv_step:
  assumes "gm_reachable (sysGm s)" "base_inv s" "chan_inv s" "sys_step s s'"
  shows "chan_inv s'"
proof -
  note C = assms(3)[unfolded chan_inv_def]
  have idle: "live (sysGm s) \<inter> set (sysClosed s) = {}" "\<forall>c. Ch c \<in> set (sysClosed s) \<longrightarrow> c < gmNext (sysGm s)"
    if "idle s" using that C by (auto simp: idle_def shut_def)
  from assms(4) consider "master_step s s'" | "select_step s s'" | "other_step s s'" by (auto simp: sys_step_def)
  then show ?thesis
  proof cases
    case 1
    from master_step_same[OF this] obtain a where a: "sysActs s = a # sysActs s'" "sysGm s' = sysGm s"
      "sysOver s' = sysOver s" "sysClosed s' = closes a @ sysClosed s" by blast
    then have "shut s' = shut s" by (auto simp: shut_def)
    with a C show ?thesis by (auto simp: chan_inv_def)
  next
    case 2
    with assms(2) show ?thesis
    proof (cases rule: select_cases)
      case (1 k ev now)
      from control_channels[OF assms(1) 1(4,5) idle[OF 1(1)]] 1 show ?thesis by (auto simp: chan_inv_def shut_def)
    next
      case (2 ev now)
      from control_channels[OF assms(1) is_post_from_client[OF 2(3)] 2(4) idle[OF 2(1)]] 2 show ?thesis
        by (auto simp: chan_inv_def shut_def)
    next
      case (3 now)
      have "closes a = [] \<and> set (sends_on a) \<inter> set (sysClosed s) = {}" if "a \<in> set (broadcastPing now (sysGm s) ''ping'')" for a
        using that idle[OF 3(1)] by (force simp: broadcastPing_def live_def chans_def)
      with channels_ok_silent[of "broadcastPing now (sysGm s) ''ping''"] 3 C show ?thesis
        by (auto simp: chan_inv_def shut_def idle_def)
    next
      case (4 now i bc ls)
      from removal_channels[OF assms(1) 4(2,3) idle[OF 4(1)]] 4 show ?thesis
        by (auto simp: chan_inv_def shut_def deferred_def)
    qed
  next
    case 3
    from other_step_same[OF this] have "set (chans (sysGm s')) = set (chans (sysGm s)) \<and> gmNext (sysGm s') = gmNext (sysGm s)"
    proof (elim conjE disjE exE)
      fix ls ps assume "mset ls = mset (gmListeners (sysGm s))" "sysGm s' = (sysGm s)\<lparr>gmListeners := ls, gmPlayers := ps\<rparr>"
      then show ?thesis using mset_eq_setD by (simp add: chans_def) blast
    qed simp
    then have "live (sysGm s') = live (sysGm s)" "gmNext (sysGm s') = gmNext (sysGm s)" by (simp_all add: live_def)
    moreover have "sysActs s' = sysActs s" "sysOver s' = sysOver s" "sysClosed s' = sysClosed s"
      using other_step_same[OF 3] by blast+
    ultimately show ?thesis using C by (simp add: chan_inv_def shut_def)
  qed
qed

lemma sys_reachable_chans: "sys_reachable s \<Longrightarrow> chan_inv s"
proof (induction rule: sys_reachable.induct)
  case (start i t single src g acts)
  from startMaster_ok[OF start(2), of i src] start(1) have "acts = [gameCounter g ''/started'']" by simp
  then show ?case by (simp add: chan_inv_def startSys_def shut_def gameCounter_def)
qed (use chan_inv_step sys_reachable_base sys_reachable_gm in blast)

end
