(* ===== verification/GameSystemLink.thy ===== *)
theory GameSystemLink
  imports GameSystemInv
begin

text \<open>
  The handlers and the listeners of the master: every listener has a handler at the other end of its
  channel, unless it is closed, and a reply goes to the handler that waits for it.
\<close>

section \<open>Handlers and the listeners of the master\<close>

fun chan_of :: "client \<Rightarrow> (string \<times> nat) option" where
  "chan_of (CListen p ch evs) = Some (plId p, ch)"
| "chan_of (CLeave p ch evs) = Some (plId p, ch)"
| "chan_of c = None"

fun awaiting :: "client \<Rightarrow> string list" where
  "awaiting (CAwait p) = [plId p]"
| "awaiting c = []"

fun replying :: "action \<Rightarrow> (string \<times> nat) list" where
  "replying (Reply i ch) = [(i, ch)]"
| "replying a = []"

definition awaits :: "client list \<Rightarrow> string list" where
  "awaits cs = concat (map awaiting cs)"

definition replies :: "action list \<Rightarrow> (string \<times> nat) list" where
  "replies as = concat (map replying as)"

lemma replies_simps [simp]:
  "replies [] = []" "replies (a # as) = replying a @ replies as" "replies (as @ bs) = replies as @ replies bs"
  by (simp_all add: replies_def)

lemma awaits_simps [simp]: "awaits [] = []" "awaits (c # cs) = awaiting c @ awaits cs" "awaits (cs @ ds) = awaits cs @ awaits ds"
  by (simp_all add: awaits_def)

lemma awaits_update: "k < length cs \<Longrightarrow> awaiting (cs ! k) = awaiting c \<Longrightarrow> awaits (cs[k := c]) = awaits cs"
  by (induction cs arbitrary: k) (auto split: nat.splits)

lemma awaits_none: "awaits cs = [] \<longleftrightarrow> (\<forall>c \<in> set cs. awaiting c = [])"
  by (simp add: awaits_def)

lemma awaits_first: "k < length cs \<Longrightarrow> awaits cs = [] \<Longrightarrow> awaits (cs[k := c]) = awaiting c"
  by (induction cs arbitrary: k) (auto split: nat.splits)

lemma awaits_last:
  "k < length cs \<Longrightarrow> awaits cs = [i] \<Longrightarrow> awaiting (cs ! k) = [i] \<Longrightarrow> awaiting c = [] \<Longrightarrow> awaits (cs[k := c]) = []"
proof (induction cs arbitrary: k)
  case (Cons d cs)
  show ?case
  proof (cases k)
    case 0
    with Cons show ?thesis by simp
  next
    case (Suc j)
    then have j: "j < length cs" "awaiting (cs ! j) = [i]" using Cons.prems by simp_all
    then have "awaits cs \<noteq> []" by (metis awaits_none list.distinct(1) nth_mem)
    with Cons.prems(2) have "awaiting d = []" "awaits cs = [i]" by (cases "awaiting d"; simp)+
    with Cons.IH[OF j(1) _ j(2) Cons.prems(4)] Suc show ?thesis by simp
  qed
qed simp

lemma quiet_replies: "\<forall>a \<in> set as. quiet a \<Longrightarrow> replies as = []"
proof (induction as)
  case (Cons a as)
  then show ?case by (cases a) simp_all
qed simp

text \<open>A reply comes before the events.\<close>

fun replies_first :: "action list \<Rightarrow> bool" where
  "replies_first [] = True"
| "replies_first (a # as) \<longleftrightarrow> (sends_on a \<noteq> [] \<longrightarrow> replies as = []) \<and> replies_first as"

lemma replies_first_none: "replies as = [] \<Longrightarrow> replies_first as"
  by (induction as) auto

text \<open>The four parts of the invariant: who waits for a reply, whose channel is whose, who serves the
  listeners, and the order of the actions.\<close>

definition paired :: "action list \<Rightarrow> client list \<Rightarrow> bool" where
  "paired as cs \<longleftrightarrow> awaits cs = map fst (replies as) \<and> length (replies as) \<le> 1"

definition tied :: "gm \<Rightarrow> client list \<Rightarrow> bool" where
  "tied g cs \<longleftrightarrow> (\<forall>c \<in> set cs. \<forall>i ch. chan_of c = Some (i, ch) \<longrightarrow>
     ch < gmNext g \<and> (\<forall>j. (j, ch) \<in> set (gmListeners g) \<longrightarrow> j = i))"

definition attended :: "gm \<Rightarrow> action list \<Rightarrow> chan list \<Rightarrow> client list \<Rightarrow> bool" where
  "attended g as cl cs \<longleftrightarrow> (\<forall>l \<in> set (gmListeners g). l \<in> set (replies as) \<or> (\<exists>c \<in> set cs. chan_of c = Some l) \<or>
     Ch (snd l) \<in> set cl \<or> DoneCh \<in> set cl)"

definition ordered :: "gm \<Rightarrow> action list \<Rightarrow> bool" where
  "ordered g as \<longleftrightarrow> replies_first as \<and> set (replies as) \<subseteq> set (gmListeners g) \<and>
     (\<forall>ch e. SendEvent ch e \<in> set as \<longrightarrow> ch \<in> snd ` set (gmListeners g))"

lemmas link_defs = paired_def tied_def attended_def ordered_def

definition link_inv :: "sys \<Rightarrow> bool" where
  "link_inv s \<longleftrightarrow> paired (sysActs s) (sysClients s) \<and> tied (sysGm s) (sysClients s) \<and>
     attended (sysGm s) (sysActs s) (sysClosed s) (sysClients s) \<and> ordered (sysGm s) (sysActs s)"

lemma served_update:
  assumes "c \<in> set cs" "chan_of c = Some l" "k < length cs" "chan_of (cs ! k) = Some l \<longrightarrow> chan_of c' = Some l"
  shows "\<exists>c \<in> set (cs[k := c']). chan_of c = Some l"
proof -
  obtain j where j: "j < length cs" "cs ! j = c" using assms(1) by (auto simp: in_set_conv_nth)
  have "cs[k := c'] ! j \<in> set (cs[k := c'])" using j(1) by simp
  moreover have "chan_of (cs[k := c'] ! j) = Some l" using j assms by (cases "j = k") auto
  ultimately show ?thesis by blast
qed

text \<open>A handler that goes on with the same channel, or that is at its end, changes nothing for the rest.\<close>

lemma attended_update:
  assumes "attended g as cl cs" "k < length cs"
    "\<And>l. l \<in> set (gmListeners g) \<Longrightarrow> chan_of (cs ! k) = Some l \<Longrightarrow> chan_of c' = Some l \<or> Ch (snd l) \<in> set cl \<or> DoneCh \<in> set cl"
  shows "attended g as cl (cs[k := c'])"
  unfolding attended_def
proof (intro ballI)
  fix l assume l: "l \<in> set (gmListeners g)"
  then consider "l \<in> set (replies as) \<or> Ch (snd l) \<in> set cl \<or> DoneCh \<in> set cl" | c where "c \<in> set cs" "chan_of c = Some l"
    using assms(1) by (auto simp: attended_def)
  then show "l \<in> set (replies as) \<or> (\<exists>c \<in> set (cs[k := c']). chan_of c = Some l) \<or> Ch (snd l) \<in> set cl \<or> DoneCh \<in> set cl"
  proof cases
    case (2 c)
    show ?thesis
    proof (cases "Ch (snd l) \<in> set cl \<or> DoneCh \<in> set cl")
      case False
      then have "chan_of (cs ! k) = Some l \<longrightarrow> chan_of c' = Some l" using assms(3)[OF l] by blast
      from served_update[OF 2 assms(2) this] show ?thesis by blast
    qed blast
  qed blast
qed

lemma tied_update:
  assumes "tied g cs" "k < length cs" "chan_of c' = None \<or> chan_of c' = chan_of (cs ! k)"
  shows "tied g (cs[k := c'])"
  unfolding tied_def
proof (intro ballI)
  fix c assume "c \<in> set (cs[k := c'])"
  then have "c = c' \<or> c \<in> set cs" by (rule in_update)
  moreover have "cs ! k \<in> set cs" using assms(2) by simp
  ultimately show "\<forall>i ch. chan_of c = Some (i, ch) \<longrightarrow> ch < gmNext g \<and> (\<forall>j. (j, ch) \<in> set (gmListeners g) \<longrightarrow> j = i)"
    using assms(1,3) by (auto simp: tied_def)
qed

lemma link_update:
  assumes "link_inv s" "k < length (sysClients s)" "awaiting c' = awaiting (sysClients s ! k)"
    "chan_of c' = chan_of (sysClients s ! k) \<or> chan_of c' = None \<and>
       (\<forall>l \<in> set (gmListeners (sysGm s)). chan_of (sysClients s ! k) = Some l \<longrightarrow> Ch (snd l) \<in> set (sysClosed s) \<or> DoneCh \<in> set (sysClosed s))"
  shows "link_inv (s\<lparr>sysClients := (sysClients s)[k := c']\<rparr>)"
proof -
  have "awaits ((sysClients s)[k := c']) = awaits (sysClients s)" by (rule awaits_update) (use assms in simp_all)
  moreover have "tied (sysGm s) ((sysClients s)[k := c'])" using tied_update assms by (auto simp: link_inv_def)
  moreover have "attended (sysGm s) (sysActs s) (sysClosed s) ((sysClients s)[k := c'])"
  proof (rule attended_update[OF _ assms(2)])
    show "attended (sysGm s) (sysActs s) (sysClosed s) (sysClients s)" using assms(1) by (simp add: link_inv_def)
    show "chan_of c' = Some l \<or> Ch (snd l) \<in> set (sysClosed s) \<or> DoneCh \<in> set (sysClosed s)"
      if "l \<in> set (gmListeners (sysGm s))" "chan_of (sysClients s ! k) = Some l" for l using assms(4) that by auto
  qed
  ultimately show ?thesis using assms(1) by (simp add: link_inv_def paired_def)
qed

lemma link_tail:
  assumes "link_inv s" "sysActs s = a # as" "replying a = []"
  shows "link_inv (s\<lparr>sysActs := as\<rparr>)"
  using assms by (auto simp: link_inv_def link_defs)

lemma link_closed: "link_inv s \<Longrightarrow> link_inv (s\<lparr>sysClosed := xs @ sysClosed s\<rparr>)"
  by (fastforce simp: link_inv_def link_defs)

lemma link_other [simp]: "link_inv (s\<lparr>sysTimers := x\<rparr>) = link_inv s" "link_inv (s\<lparr>sysCpu := y\<rparr>) = link_inv s"
  by (simp_all add: link_inv_def)

lemma link_master:
  assumes "link_inv s" "chans_ok (sysGm s)" "master_step s s'"
  shows "link_inv s'"
  using assms(3)
proof cases
  case (reply p ch as k)
  let ?c = "CListen p ch []"
  have L: "paired (sysActs s) (sysClients s)" "tied (sysGm s) (sysClients s)"
    "attended (sysGm s) (sysActs s) (sysClosed s) (sysClients s)" "ordered (sysGm s) (sysActs s)"
    using assms(1) by (simp_all add: link_inv_def)
  have one: "awaits (sysClients s) = [plId p]" "replies as = []" using L(1) reply(2) by (auto simp: paired_def)
  then have "awaits ((sysClients s)[k := ?c]) = []" using awaits_last[OF reply(3) one(1)] reply(4) by simp
  then have "paired as ((sysClients s)[k := ?c])" using one by (simp add: paired_def)
  moreover have here: "(plId p, ch) \<in> set (gmListeners (sysGm s))" using L(4) reply(2) by (simp add: ordered_def)
  have "j = plId p" if "(j, ch) \<in> set (gmListeners (sysGm s))" for j
  proof -
    have "inj_on snd (set (gmListeners (sysGm s)))" using assms(2) by (simp add: chans_ok_def chans_def distinct_map)
    from inj_onD[OF this _ that here] show ?thesis by simp
  qed
  moreover have "ch < gmNext (sysGm s)" using here assms(2) by (force simp: chans_ok_def chans_def)
  ultimately have "tied (sysGm s) ((sysClients s)[k := ?c])" using L(2) by (auto simp: tied_def dest!: in_update)
  moreover have "attended (sysGm s) as (sysClosed s) ((sysClients s)[k := ?c])"
  proof -
    have "?c \<in> set ((sysClients s)[k := ?c])" using reply(3) by (rule set_update_memI)
    moreover have "attended (sysGm s) (sysActs s) (sysClosed s) ((sysClients s)[k := ?c])"
      using attended_update[OF L(3) reply(3)] reply(4) by simp
    moreover have "chan_of ?c = Some (plId p, ch)" by simp
    ultimately show ?thesis unfolding attended_def reply(2) by fastforce
  qed
  moreover have "ordered (sysGm s) as" using L(4) reply(2) by (auto simp: ordered_def)
  ultimately show ?thesis using reply(1) \<open>paired as _\<close> by (simp add: link_inv_def)
next
  case (send ch e as k p evs)
  have "link_inv (s\<lparr>sysActs := as\<rparr>)" by (rule link_tail[OF assms(1) send(2)]) simp
  from link_update[OF this, of k "CListen p ch (evs @ [e])"] send show ?thesis by simp
next
  case (ask as)
  have "link_inv (s\<lparr>sysActs := as\<rparr>)" by (rule link_tail[OF assms(1) ask(2)]) simp
  with ask(1) show ?thesis by (simp add: link_inv_def)
next
  case (loc a as)
  have "replying a = []" using loc(3) by (cases a) simp_all
  from link_tail[OF assms(1) loc(2) this] have "link_inv (s\<lparr>sysActs := as\<rparr>)" .
  moreover from link_closed[OF this, of "closes a"] have "link_inv (s\<lparr>sysActs := as, sysClosed := closes a @ sysClosed s\<rparr>)" by simp
  ultimately show ?thesis using loc(1,3) by (cases a) simp_all
qed

text \<open>The events at the \<open>select\<close>.\<close>

lemma produces_listeners:
  assumes "gm_inv g" "produces g ev g' cl rest" "l \<in> set (gmListeners g')"
  shows "l \<in> set (replies (repliesTo g ev)) \<or> l \<in> set (gmListeners g) \<and> (\<forall>i. ev = ControlEventUnregister i \<longrightarrow> fst l \<noteq> i)"
proof (cases ev)
  case (ControlEventRegister p)
  then have "gmListeners g' = AList.update (plId p) (gmNext g) (gmListeners g)" using assms(2) by (simp add: produces_def)
  moreover have "l = (i, c) \<or> l \<in> set al" if "l \<in> set (AList.update i c al)" for i c and al :: "(string \<times> nat) list"
    using that by (induction al) (auto split: if_splits)
  ultimately show ?thesis using assms(3) ControlEventRegister by (auto simp: repliesTo_def)
next
  case (ControlEventUnregister i)
  with assms(2,3) show ?thesis by (auto simp: produces_def AList.delete_eq)
qed (use assms in \<open>auto simp: produces_def\<close>)

lemma ordered_quiet:
  assumes "\<forall>a \<in> set as. quiet a \<and> ownView g a"
  shows "ordered g as"
proof -
  have "ch \<in> snd ` set (gmListeners g)" if "SendEvent ch e \<in> set as" for ch e
  proof -
    have "ownView g (SendEvent ch e)" using assms that by blast
    then show ?thesis by (force simp: ownView_def dest: map_of_set)
  qed
  moreover have "replies as = []" by (rule quiet_replies) (use assms in blast)
  ultimately show ?thesis using replies_first_none[of as] by (simp add: ordered_def)
qed

lemma control_linked:
  assumes "gm_reachable g" "from_client ev" "handleControl now ev g = Some (g', acts)"
  shows "replies acts = replies (repliesTo g ev) \<and> ordered g' acts \<and> gmNext g \<le> gmNext g' \<and>
    (\<forall>l \<in> set (gmListeners g'). l \<in> set (replies acts) \<or> l \<in> set (gmListeners g) \<and> (\<forall>i. ev = ControlEventUnregister i \<longrightarrow> fst l \<noteq> i))"
proof -
  have r': "gm_reachable g'" by (rule gm_reachable.control[OF assms])
  obtain cl rest where o: "acts = map CloseCancel cl @ repliesTo g ev @ rest" "produces g ev g' cl rest"
    using control_produces[OF gm_reachable_inv[OF assms(1)] assms(2,3) gm_reachable_inv[OF r']] by blast
  have rest: "\<forall>a \<in> set rest. quiet a \<and> ownView g' a" using o(2) by (simp add: produces_def)
  have c: "replies (map CloseCancel cl) = []" by (induction cl) simp_all
  have r: "replies acts = replies (repliesTo g ev)" using o(1) c quiet_replies[of rest] rest by simp
  have "replies_first (map CloseCancel xs @ as) = replies_first as" for xs as by (induction xs) simp_all
  moreover have "replies_first (repliesTo g ev @ rest)"
    using ordered_quiet[OF rest] by (cases ev) (auto simp: repliesTo_def ordered_def)
  ultimately have "replies_first acts" using o(1) by simp
  moreover have "set (replies (repliesTo g ev)) \<subseteq> set (gmListeners g')"
  proof (cases ev)
    case (ControlEventRegister p)
    have "(i, c) \<in> set (AList.update i c al)" for i c and al :: "(string \<times> nat) list"
      by (induction al) auto
    with o(2) ControlEventRegister show ?thesis by (simp add: repliesTo_def produces_def)
  qed (simp_all add: repliesTo_def)
  moreover have "ch \<in> snd ` set (gmListeners g')" if "SendEvent ch e \<in> set acts" for ch e
  proof -
    have "SendEvent ch e \<notin> set (repliesTo g ev)" by (cases ev) (simp_all add: repliesTo_def)
    with that o(1) have "SendEvent ch e \<in> set rest" by auto
    with ordered_quiet[OF rest] show ?thesis by (auto simp: ordered_def)
  qed
  ultimately have "ordered g' acts" using r by (simp add: ordered_def)
  moreover have "gmNext g \<le> gmNext g'"
    using produces_chans[OF gm_reachable_inv[OF assms(1)] gm_reachable_chans[OF assms(1)] o(2)] by blast
  ultimately show ?thesis using r produces_listeners[OF gm_reachable_inv[OF assms(1)] o(2)] by simp
qed

lemma tied_control:
  assumes "tied g cs" "ordered g' acts" "gmNext g \<le> gmNext g'" "set (replies acts) \<subseteq> {r. snd r = gmNext g}"
    "\<forall>l \<in> set (gmListeners g'). l \<in> set (replies acts) \<or> l \<in> set (gmListeners g)"
  shows "tied g' cs"
  unfolding tied_def
proof (intro ballI allI impI)
  fix c i ch assume c: "c \<in> set cs" "chan_of c = Some (i, ch)"
  then have t: "ch < gmNext g" "\<forall>j. (j, ch) \<in> set (gmListeners g) \<longrightarrow> j = i" using assms(1) by (auto simp: tied_def)
  moreover have "(j, ch) \<in> set (gmListeners g)" if "(j, ch) \<in> set (gmListeners g')" for j
    using assms(4,5) that t(1) by force
  ultimately show "ch < gmNext g' \<and> (\<forall>j. (j, ch) \<in> set (gmListeners g') \<longrightarrow> j = i)" using assms(3) by auto
qed

lemma link_event:
  assumes "base_inv s" "link_inv s" "idle s" "k < length (sysClients s)" "sendEvent (sysClients s ! k) = Some ev"
    "handleControl now ev (sysGm s) = Some (g', acts)"
  shows "paired acts ((sysClients s)[k := afterSend True (sysClients s ! k)])"
    "tied g' ((sysClients s)[k := afterSend True (sysClients s ! k)])"
    "attended g' acts (sysClosed s) ((sysClients s)[k := afterSend True (sysClients s ! k)])" "ordered g' acts"
proof -
  let ?c = "afterSend True (sysClients s ! k)"
  have g: "gm_reachable (sysGm s)" using assms(1) by (simp add: base_inv_def)
  note C = control_linked[OF g base_inv_clients[OF assms(1,4,5)] assms(6)]
  have L: "awaits (sysClients s) = []" "tied (sysGm s) (sysClients s)" "attended (sysGm s) [] (sysClosed s) (sysClients s)"
    using assms(2,3) by (simp_all add: link_inv_def paired_def idle_def)
  show "ordered g' acts" using C by blast
  have "client_ok (sysClients s ! k)" using assms(1,4) by (simp add: base_inv_def)
  have "awaiting ?c = map fst (replies acts)" "length (replies acts) \<le> 1"
    using assms(5) C \<open>client_ok _\<close>
    by (cases "sysClients s ! k"; simp add: repliesTo_def client_ok_def is_post_def split: control_event.splits)+
  with awaits_first[OF assms(4) L(1), of ?c] show "paired acts ((sysClients s)[k := ?c])" by (simp add: paired_def)
  have "set (replies acts) \<subseteq> {r. snd r = gmNext (sysGm s)}" using C by (cases ev) (simp_all add: repliesTo_def)
  with tied_control[OF L(2), of g' acts] C have "tied g' (sysClients s)" by blast
  from tied_update[OF this assms(4)] show "tied g' ((sysClients s)[k := ?c])" by (cases "sysClients s ! k") simp_all
  show "attended g' acts (sysClosed s) ((sysClients s)[k := ?c])"
    unfolding attended_def
  proof (intro ballI)
    fix l assume "l \<in> set (gmListeners g')"
    with C consider "l \<in> set (replies acts)" | "l \<in> set (gmListeners (sysGm s))" "\<forall>i. ev = ControlEventUnregister i \<longrightarrow> fst l \<noteq> i"
      by blast
    then show "l \<in> set (replies acts) \<or> (\<exists>c \<in> set ((sysClients s)[k := ?c]). chan_of c = Some l) \<or>
      Ch (snd l) \<in> set (sysClosed s) \<or> DoneCh \<in> set (sysClosed s)"
    proof cases
      case 2
      then consider "Ch (snd l) \<in> set (sysClosed s) \<or> DoneCh \<in> set (sysClosed s)" | c where "c \<in> set (sysClients s)" "chan_of c = Some l"
        using L(3) by (auto simp: attended_def)
      then show ?thesis
      proof cases
        case (2 c)
        have "chan_of (sysClients s ! k) \<noteq> Some l"
          using assms(5) \<open>\<forall>i. _ \<longrightarrow> fst l \<noteq> i\<close> by (cases "sysClients s ! k") auto
        with served_update[OF 2 assms(4), of ?c] show ?thesis by blast
      qed blast
    qed blast
  qed
qed

lemma broadcastPing_ordered: "ordered g (broadcastPing now g m) \<and> replies (broadcastPing now g m) = []"
proof -
  have "\<forall>a \<in> set (broadcastPing now g m). quiet a" by (auto simp: broadcastPing_def)
  from quiet_replies[OF this] show ?thesis
    using replies_first_none by (force simp: ordered_def broadcastPing_def)
qed

lemma removal_ordered:
  assumes "gm_reachable g" "handleRemoval now i g = Some (bc @ deferred g)"
  shows "ordered g (bc @ deferred (g\<lparr>gmListeners := ls\<rparr>)) \<and> replies (bc @ deferred (g\<lparr>gmListeners := ls\<rparr>)) = []"
proof -
  obtain e where "broadcast now g e = Some bc"
    using assms(2) by (auto simp: handleRemoval_def split: Option.bind_splits)
  from broadcast_quiet[OF gm_reachable_inv[OF assms(1)] this] have bc: "ordered g bc" "\<forall>a \<in> set bc. quiet a"
    using ordered_quiet by blast+
  have "replies (map (\<lambda>(i, ch). CloseListener ch) xs) = []" for xs :: "(string \<times> nat) list" by (induction xs) auto
  then have d: "replies (deferred h) = []" for h by (simp add: deferred_def)
  have "SendEvent ch e \<notin> set (deferred h)" for ch e h by (auto simp: deferred_def)
  moreover have "replies (bc @ deferred h) = []" for h using quiet_replies[OF bc(2)] d by simp
  ultimately show ?thesis using bc(1) replies_first_none by (auto simp: ordered_def)
qed

lemma link_select:
  assumes "base_inv s" "link_inv s" "select_step s s'"
  shows "link_inv s'"
  using assms(1,3)
proof (cases rule: select_cases)
  case (1 k ev now)
  from link_event[OF assms(1,2) 1(1-3) 1(5)] 1 show ?thesis by (simp add: link_inv_def)
next
  case (2 ev now)
  have g: "gm_reachable (sysGm s)" using assms(1) by (simp add: base_inv_def)
  note C = control_linked[OF g is_post_from_client[OF 2(3)] 2(4)]
  have r: "replies (sysActs s') = []" using C 2(3) by (cases ev) (simp_all add: repliesTo_def is_post_def)
  have L: "paired [] (sysClients s)" "tied (sysGm s) (sysClients s)" "attended (sysGm s) [] (sysClosed s) (sysClients s)"
    using assms(2) 2(1) by (simp_all add: link_inv_def idle_def)
  have "tied (sysGm s') (sysClients s)" using tied_control[OF L(2)] C r by auto
  moreover have "attended (sysGm s') (sysActs s') (sysClosed s) (sysClients s)" using L(3) C r by (auto simp: attended_def)
  ultimately show ?thesis using 2 C r L(1) by (simp add: link_inv_def paired_def)
next
  case (3 now)
  with assms(2) broadcastPing_ordered[of "sysGm s" now "''ping''"] show ?thesis
    by (simp add: link_inv_def paired_def attended_def idle_def)
next
  case (4 now i bc ls)
  have "gm_reachable (sysGm s)" using assms(1) by (simp add: base_inv_def)
  from removal_ordered[OF this 4(2), of ls] 4 assms(2) show ?thesis
    by (simp add: link_inv_def paired_def attended_def idle_def)
qed

lemma link_other_step:
  assumes "link_inv s" "other_step s s'"
  shows "link_inv s'"
  using assms(2)
proof cases
  case (visit ls ps)
  then have "set ls = set (gmListeners (sysGm s))" using mset_eq_setD by blast
  with assms(1) visit show ?thesis by (simp add: link_inv_def link_defs)
next
  case (arrive c)
  then have "chan_of c = None" "awaiting c = []" by (cases c; simp add: arrives_def)+
  with assms(1) arrive show ?thesis by (auto simp: link_inv_def link_defs)
next
  case (game_over k ev)
  then have "awaiting (afterSend False (sysClients s ! k)) = awaiting (sysClients s ! k)"
    "chan_of (afterSend False (sysClients s ! k)) = None"
    by (cases "sysClients s ! k"; simp)+
  with link_update[OF assms(1) game_over(2)] game_over show ?thesis by simp
qed (use assms(1) link_update[OF assms(1)] in simp_all)

lemma sys_reachable_linked: "sys_reachable s \<Longrightarrow> link_inv s"
proof (induction rule: sys_reachable.induct)
  case (start i t single src g acts)
  from startMaster_ok[OF start(2), of i src] start(1) have "acts = [gameCounter g ''/started'']" "gmListeners g = []" by simp_all
  then show ?case by (simp add: link_inv_def link_defs startSys_def gameCounter_def)
next
  case (step s s')
  have "chans_ok (sysGm s)" by (rule gm_reachable_chans[OF sys_reachable_gm[OF step(1)]])
  from step(2) consider "master_step s s'" | "select_step s s'" | "other_step s s'" unfolding sys_step_def by blast
  then show ?case
  proof cases
    case 1
    then show ?thesis by (rule link_master[OF step.IH \<open>chans_ok (sysGm s)\<close>])
  next
    case 2
    then show ?thesis by (rule link_select[OF sys_reachable_base[OF step(1)] step.IH])
  next
    case 3
    then show ?thesis by (rule link_other_step[OF step.IH])
  qed
qed

end
