(* ===== verification/GameSystemProps.thy ===== *)
theory GameSystemProps
  imports GameSystemLink
begin

text \<open>
  What the goroutines of a game guarantee together: nothing closed is used, a client is sent nothing
  that is hidden from him, and the master either goes on or hangs for ever, in exactly two situations.
\<close>

section \<open>What the clients receive\<close>

text \<open>A client is settled if he is a player or if there is no room for him: his number is final.\<close>

definition settled :: "gm \<Rightarrow> string \<Rightarrow> bool" where
  "settled g i \<longleftrightarrow> map_of (gmPlayers g) i \<noteq> None \<or> engineNumPlayers (gmEngine g) \<le> int (length (gmPlayers g))"

lemma control_type:
  assumes "gm_inv g" "from_client ev" "handleControl now ev g = Some (g', acts)"
  shows "gmType g' = gmType g \<and> gmId g' = gmId g \<and> (gmPlayers g' = gmPlayers g \<or>
    (\<exists>p. ev = ControlEventRegister p \<and> map_of (gmPlayers g) (plId p) = None \<and> gmPlayers g' = gmPlayers (admitted p g) \<and>
       int (length (gmPlayers g)) < engineNumPlayers (gmEngine g)))"
proof (cases ev)
  case (ControlEventRegister p)
  then have p: "plId p \<noteq> playerIdComputer" using assms(2) by (simp add: from_client_def)
  have "handleRegister now p g = Some (g', acts)" using assms(3) ControlEventRegister by simp
  then obtain num added g1 as where a: "admit p g = (num, added, g1, as)" "gmType g' = gmType g1" "gmId g' = gmId g1" "gmPlayers g' = gmPlayers g1"
    by (cases rule: handleRegister_cases) simp
  with ControlEventRegister show ?thesis
    by (auto simp: admit_eq[OF assms(1) p] admitted_def split: option.splits if_splits)
next
  case (ControlEventUnregister i)
  with assms(3) show ?thesis by (auto simp: handleUnregister_def Let_def split: if_splits)
next
  case (ControlEventMove i r c)
  then have "handleMove now i r c g = Some (g', acts)" using assms(3) by simp
  then show ?thesis by (cases rule: handleMove_cases) auto
next
  case (ControlEventReset i message)
  with assms(3) show ?thesis by (auto simp: handleReset_def Let_def split: option.splits Option.bind_splits)
qed

lemma admitted_in: "map_of (gmPlayers (admitted p g)) (plId p) \<noteq> None"
  unfolding map_of_eq_None_iff by (simp add: admitted_def)

lemma control_settled:
  assumes "gm_reachable g" "from_client ev" "handleControl now ev g = Some (g', acts)"
  shows "(settled g i \<longrightarrow> settled g' i \<and> playerNum g' i = playerNum g i) \<and>
    (\<forall>p. ev = ControlEventRegister p \<longrightarrow> settled g' (plId p))"
proof -
  note inv = gm_reachable_inv[OF assms(1)] and inv' = gm_reachable_inv[OF gm_reachable.control[OF assms]]
  note T = control_type[OF inv assms(2,3)]
  have "engineType (gmEngine g') = engineType (gmEngine g)" using gm_invD(2)[OF inv] gm_invD(2)[OF inv'] T by simp
  then have n: "engineNumPlayers (gmEngine g') = engineNumPlayers (gmEngine g)"
    by (cases "gmEngine g"; cases "gmEngine g'")
      (simp_all add: Classic_NumPlayers_def Flagz_NumPlayers_def Freeform_NumPlayers_def)
  from T consider "gmPlayers g' = gmPlayers g"
    | p where "ev = ControlEventRegister p" "map_of (gmPlayers g) (plId p) = None" "gmPlayers g' = gmPlayers (admitted p g)"
      "int (length (gmPlayers g)) < engineNumPlayers (gmEngine g)" by blast
  then show ?thesis
  proof cases
    case 1
    have "settled g' (plId p)" if "ev = ControlEventRegister p" for p
    proof (cases "map_of (gmPlayers g) (plId p) = None \<and> int (length (gmPlayers g)) < engineNumPlayers (gmEngine g)")
      case True
      have p: "plId p \<noteq> playerIdComputer" using assms(2) that by (simp add: from_client_def)
      have "handleRegister now p g = Some (g', acts)" using assms(3) that by simp
      then obtain num added g1 as where "admit p g = (num, added, g1, as)" "gmPlayers g' = gmPlayers g1"
        by (cases rule: handleRegister_cases) simp
      with True have "gmPlayers g' = gmPlayers (admitted p g)" by (simp add: admit_eq[OF inv p])
      then have "map_of (gmPlayers g') (plId p) \<noteq> None" using admitted_in by simp
      then show ?thesis by (simp add: settled_def)
    qed (use 1 n in \<open>auto simp: settled_def\<close>)
    with 1 n show ?thesis by (auto simp: settled_def playerNum_def)
  next
    case (2 p)
    have "map_of (gmPlayers g') (plId p) \<noteq> None" using 2(3) admitted_in by simp
    then have "settled g' (plId p)" by (simp add: settled_def)
    moreover have "settled g' i \<and> playerNum g' i = playerNum g i" if here: "settled g i"
    proof -
      obtain q where q: "map_of (gmPlayers g) i = Some q" using here 2(4) by (auto simp: settled_def)
      have "map_of (gmPlayers g) \<subseteq>\<^sub>m map_of (gmPlayers g')"
        by (rule control_step[OF inv assms(2), where now = now]) (use assms(3) in simp)
      with q have "map_of (gmPlayers g') i = Some q" by (auto simp: map_le_def dom_def)
      with q show ?thesis by (simp add: settled_def playerNum_def)
    qed
    ultimately show ?thesis using 2(1) by simp
  qed
qed

lemma visit_settled:
  assumes "gm_inv g" "mset ps = mset (gmPlayers g)"
  shows "settled (g\<lparr>gmListeners := ls, gmPlayers := ps\<rparr>) i = settled g i"
    "playerNum (g\<lparr>gmListeners := ls, gmPlayers := ps\<rparr>) i = playerNum g i"
proof -
  have "map_of ps = map_of (gmPlayers g)" "length ps = length (gmPlayers g)"
    using map_of_permuted[OF assms(2)] gm_invD(3)[OF assms(1)] mset_eq_length[OF assms(2)] by (simp_all add: numbered_def)
  then show "settled (g\<lparr>gmListeners := ls, gmPlayers := ps\<rparr>) i = settled g i"
    "playerNum (g\<lparr>gmListeners := ls, gmPlayers := ps\<rparr>) i = playerNum g i" by (simp_all add: settled_def playerNum_def)
qed

text \<open>All listeners are settled.\<close>

lemma gm_reachable_settled: "gm_reachable g \<Longrightarrow> l \<in> set (gmListeners g) \<Longrightarrow> settled g (fst l)"
proof (induction arbitrary: l rule: gm_reachable.induct)
  case (start i t single src g acts)
  with startMaster_ok[OF start(2), of i src] show ?case by auto
next
  case (control g ev now g' acts)
  note S = control_settled[OF control(1-3), of "fst l"]
  from control_linked[OF control(1-3)] control.prems have "l \<in> set (replies (repliesTo g ev)) \<or> l \<in> set (gmListeners g)" by auto
  then show ?case
  proof
    assume "l \<in> set (replies (repliesTo g ev))"
    with S show ?thesis by (cases ev) (auto simp: repliesTo_def)
  qed (use S control.IH in blast)
next
  case (range_order g ls ps)
  have "l \<in> set (gmListeners g)" using range_order.prems mset_eq_setD[OF range_order(2)] by simp
  from range_order.IH[OF this] visit_settled[OF gm_reachable_inv[OF range_order(1)] range_order(3)] show ?case by simp
qed

text \<open>An event shows a player no hidden field of somebody else.\<close>

definition shows_own :: "int \<Rightarrow> server_event \<Rightarrow> bool" where
  "shows_own n e \<longleftrightarrow> (\<forall>b. evBoard e = Some b \<longrightarrow> 0 < n \<longrightarrow> (\<forall>f \<in> set (concat (vFields b)). Hidden f \<longrightarrow> Owner f = n))"

fun events_of :: "client \<Rightarrow> server_event list" where
  "events_of (CListen p ch evs) = evs"
| "events_of (CLeave p ch evs) = evs"
| "events_of c = []"

definition pending_own :: "gm \<Rightarrow> action list \<Rightarrow> bool" where
  "pending_own g as \<longleftrightarrow> (\<forall>ch e. SendEvent ch e \<in> set as \<longrightarrow>
     (\<exists>i. (i, ch) \<in> set (gmListeners g) \<and> shows_own (playerNum g i) e))"

definition received_own :: "gm \<Rightarrow> client \<Rightarrow> bool" where
  "received_own g c \<longleftrightarrow> (\<forall>i ch. chan_of c = Some (i, ch) \<longrightarrow> settled g i \<and> (\<forall>e \<in> set (events_of c). shows_own (playerNum g i) e))"

definition view_inv :: "sys \<Rightarrow> bool" where
  "view_inv s \<longleftrightarrow> pending_own (sysGm s) (sysActs s) \<and> (\<forall>c \<in> set (sysClients s). received_own (sysGm s) c)"

lemma received_simps [simp]:
  "received_own g (CRegister p)" "received_own g (CAwait p)" "received_own g (CPost ev)" "received_own g CEnd"
  "received_own g (CLeave p ch evs) = received_own g (CListen p ch evs)"
  "received_own g (afterSend b c)"
  by (simp_all add: received_own_def) (cases c; simp)

lemma ownView_pending:
  assumes "gm_inv g" "\<forall>ch e. SendEvent ch e \<in> set as \<longrightarrow> ownView g (SendEvent ch e)"
  shows "pending_own g as"
  unfolding pending_own_def
proof (intro allI impI)
  fix ch e assume "SendEvent ch e \<in> set as"
  then obtain i where i: "map_of (gmListeners g) i = Some ch" "evBoard e = Some (ViewFor (gmBoard g) (playerNum g i))"
    using assms(2) by (auto simp: ownView_def)
  then have "shows_own (playerNum g i) e"
    using ViewFor_shows_no_foreign_hidden[OF any_engine.inv_board[OF gm_invD(1)[OF assms(1)]]] by (auto simp: shows_own_def)
  with map_of_set[OF i(1)] show "\<exists>i. (i, ch) \<in> set (gmListeners g) \<and> shows_own (playerNum g i) e" by blast
qed

lemma control_pending:
  assumes "gm_reachable g" "from_client ev" "handleControl now ev g = Some (g', acts)"
  shows "pending_own g' acts"
proof -
  have inv': "gm_inv g'" by (rule gm_reachable_inv[OF gm_reachable.control[OF assms]])
  obtain cl rest where o: "acts = map CloseCancel cl @ repliesTo g ev @ rest" "produces g ev g' cl rest"
    using control_produces[OF gm_reachable_inv[OF assms(1)] assms(2,3) inv'] by blast
  have "SendEvent ch e \<notin> set (map CloseCancel cl @ repliesTo g ev)" for ch e by (cases ev) (auto simp: repliesTo_def)
  with o have "SendEvent ch e \<in> set acts \<Longrightarrow> ownView g' (SendEvent ch e)" for ch e by (auto simp: produces_def)
  with ownView_pending[OF inv'] show ?thesis by blast
qed

lemma removal_pending:
  assumes "gm_reachable g" "handleRemoval now i g = Some (bc @ deferred g)"
  shows "pending_own g (bc @ deferred (g\<lparr>gmListeners := ls\<rparr>))"
proof -
  obtain e where "broadcast now g e = Some bc"
    using assms(2) by (auto simp: handleRemoval_def split: Option.bind_splits)
  from broadcast_quiet[OF gm_reachable_inv[OF assms(1)] this]
  have "SendEvent ch e \<in> set bc \<Longrightarrow> ownView g (SendEvent ch e)" for ch e by blast
  moreover have "SendEvent ch e \<notin> set (deferred h)" for ch e h by (auto simp: deferred_def)
  ultimately show ?thesis using ownView_pending[OF gm_reachable_inv[OF assms(1)], of "bc @ deferred (g\<lparr>gmListeners := ls\<rparr>)"]
    by auto
qed

lemma received_control:
  assumes "gm_reachable g" "from_client ev" "handleControl now ev g = Some (g', acts)" "received_own g c"
  shows "received_own g' c"
  using control_settled[OF assms(1-3)] assms(4) by (simp add: received_own_def)

lemma view_inv_step:
  assumes "base_inv s" "link_inv s" "view_inv s" "sys_step s s'"
  shows "view_inv s'"
proof -
  have g: "gm_reachable (sysGm s)" using assms(1) by (simp add: base_inv_def)
  have V: "pending_own (sysGm s) (sysActs s)" "\<forall>c \<in> set (sysClients s). received_own (sysGm s) c"
    using assms(3) by (simp_all add: view_inv_def)
  have tl: "pending_own (sysGm s) as" if "sysActs s = a # as" for a as using V(1) that by (auto simp: pending_own_def)
  from assms(4) consider "master_step s s'" | "select_step s s'" | "other_step s s'" unfolding sys_step_def by blast
  then show ?thesis
  proof cases
    case 1
    from 1 show ?thesis
    proof cases
      case (reply p ch as k)
      have "(plId p, ch) \<in> set (gmListeners (sysGm s))"
        using assms(2) reply(2) by (simp add: link_inv_def ordered_def)
      from gm_reachable_settled[OF g this] have "received_own (sysGm s) (CListen p ch [])" by (simp add: received_own_def)
      with reply V tl show ?thesis by (auto simp: view_inv_def dest!: in_update)
    next
      case (send ch e as k p evs)
      have k: "CListen p ch evs \<in> set (sysClients s)" using send(3,4) by (metis nth_mem)
      obtain i where i: "(i, ch) \<in> set (gmListeners (sysGm s))" "shows_own (playerNum (sysGm s) i) e"
        using V(1) send(2) by (auto simp: pending_own_def)
      moreover have "i = plId p" using assms(2) k i(1) by (force simp: link_inv_def tied_def)
      moreover have "received_own (sysGm s) (CListen p ch evs)" using V(2) k by blast
      ultimately have "received_own (sysGm s) (CListen p ch (evs @ [e]))" by (auto simp: received_own_def)
      with send V tl show ?thesis by (auto simp: view_inv_def dest!: in_update)
    next
      case (loc a as)
      with V tl show ?thesis by (cases a) (simp_all add: view_inv_def)
    qed (use V tl in \<open>simp add: view_inv_def\<close>)
  next
    case 2
    with assms(1) show ?thesis
    proof (cases rule: select_cases)
      case (1 k ev now)
      have "\<forall>c \<in> set (sysClients s'). received_own (sysGm s') c"
        using V(2) received_control[OF g 1(4,5)] 1(8) by (auto dest!: in_update)
      with control_pending[OF g 1(4,5)] show ?thesis by (simp add: view_inv_def)
    next
      case (2 ev now)
      note f = is_post_from_client[OF 2(3)]
      have "\<forall>c \<in> set (sysClients s'). received_own (sysGm s') c" using V(2) received_control[OF g f 2(4)] 2(7) by simp
      with control_pending[OF g f 2(4)] show ?thesis by (simp add: view_inv_def)
    next
      case (3 now)
      have "pending_own (sysGm s) (broadcastPing now (sysGm s) ''ping'')"
        by (force simp: pending_own_def broadcastPing_def shows_own_def zeroEvent_def)
      with 3 V show ?thesis by (simp add: view_inv_def)
    next
      case (4 now i bc ls)
      from removal_pending[OF g 4(2), of ls] 4 V show ?thesis by (simp add: view_inv_def)
    qed
  next
    case 3
    from 3 show ?thesis
    proof cases
      case (visit ls ps)
      note vs = visit_settled[OF gm_reachable_inv[OF g] visit(4), of ls]
      have "set ls = set (gmListeners (sysGm s))" using mset_eq_setD[OF visit(3)] .
      then have "pending_own (sysGm s') (sysActs s')" using V(1) visit(1) vs by (simp add: pending_own_def)
      moreover have "received_own (sysGm s') c = received_own (sysGm s) c" for c using visit(1) vs by (simp add: received_own_def)
      ultimately show ?thesis using V(2) visit(1) by (simp add: view_inv_def)
    next
      case (arrive c)
      then have "received_own (sysGm s) c" by (cases c; simp add: arrives_def)
      with arrive V show ?thesis by (simp add: view_inv_def)
    next
      case (disconnect k p ch evs)
      then have "received_own (sysGm s) (CListen p ch evs)" using V(2) by (metis nth_mem)
      with disconnect V show ?thesis by (auto simp: view_inv_def dest!: in_update)
    qed (use V in \<open>auto simp: view_inv_def dest!: in_update\<close>)
  qed
qed

lemma sys_reachable_views: "sys_reachable s \<Longrightarrow> view_inv s"
proof (induction rule: sys_reachable.induct)
  case (start i t single src g acts)
  from startMaster_ok[OF start(2), of i src] start(1) have "acts = [gameCounter g ''/started'']" by simp
  then show ?case by (simp add: view_inv_def pending_own_def startSys_def gameCounter_def)
next
  case (step s s')
  show ?case by (rule view_inv_step[OF sys_reachable_base[OF step(1)] sys_reachable_linked[OF step(1)] step.IH step(2)])
qed

section \<open>The computer player and the sharing of channels\<close>

definition cpu_inv :: "sys \<Rightarrow> bool" where
  "cpu_inv s \<longleftrightarrow> count_list (sysActs s) SendTok \<le> 1 \<and> (SendTok \<in> set (sysActs s) \<longrightarrow> gmSingle (sysGm s)) \<and>
     (sysCpu s = CpuGone \<longrightarrow> \<not> gmSingle (sysGm s) \<or> CpuCh \<in> set (sysClosed s))"

lemma control_tok:
  assumes "gm_reachable g" "from_client ev" "handleControl now ev g = Some (g', acts)"
  shows "count_list acts SendTok \<le> 1 \<and> (SendTok \<in> set acts \<longrightarrow> gmSingle g') \<and> gmSingle g' = gmSingle g"
proof -
  obtain cl rest where o: "acts = map CloseCancel cl @ repliesTo g ev @ rest" "produces g ev g' cl rest"
    using control_produces[OF gm_reachable_inv[OF assms(1)] assms(2,3) gm_reachable_inv[OF gm_reachable.control[OF assms]]] by blast
  have "SendTok \<notin> set (map CloseCancel cl)" "SendTok \<notin> set (repliesTo g ev)" by (cases ev; auto simp: repliesTo_def)+
  with o show ?thesis by (auto simp: produces_def)
qed

lemma removal_tok:
  assumes "gm_reachable g" "handleRemoval now i g = Some (bc @ deferred g)"
  shows "SendTok \<notin> set (bc @ deferred h)"
proof -
  obtain e where "broadcast now g e = Some bc"
    using assms(2) by (auto simp: handleRemoval_def split: Option.bind_splits)
  from broadcast_quiet[OF gm_reachable_inv[OF assms(1)] this] show ?thesis by (auto simp: deferred_def)
qed

lemma sys_reachable_cpu: "sys_reachable s \<Longrightarrow> cpu_inv s"
proof (induction rule: sys_reachable.induct)
  case (start i t single src g acts)
  from startMaster_ok[OF start(2), of i src] start(1) have "acts = [gameCounter g ''/started'']" by simp
  then show ?case by (simp add: cpu_inv_def startSys_def)
next
  case (step s s')
  note g = sys_reachable_gm[OF step(1)] and base = sys_reachable_base[OF step(1)]
  note C = step.IH[unfolded cpu_inv_def]
  from step(2) consider "master_step s s'" | "select_step s s'" | "other_step s s'" unfolding sys_step_def by blast
  then show ?case
  proof cases
    case 1
    from 1 show ?thesis
    proof cases
      case (loc a as)
      with C show ?thesis by (cases a) (auto simp: cpu_inv_def)
    qed (use C in \<open>auto simp: cpu_inv_def\<close>)
  next
    case 2
    with base show ?thesis
    proof (cases rule: select_cases)
      case (1 k ev now)
      from control_tok[OF g 1(4,5)] 1 C show ?thesis by (auto simp: cpu_inv_def)
    next
      case (2 ev now)
      from control_tok[OF g is_post_from_client[OF 2(3)] 2(4)] 2 show ?thesis by (auto simp: cpu_inv_def)
    next
      case (3 now)
      have "SendTok \<notin> set (broadcastPing now (sysGm s) ''ping'')" by (auto simp: broadcastPing_def)
      with 3 C show ?thesis by (simp add: cpu_inv_def)
    next
      case (4 now i bc ls)
      from removal_tok[OF g 4(2)] 4 C show ?thesis by (simp add: cpu_inv_def)
    qed
  next
    case 3
    from 3 show ?thesis by cases (use C in \<open>simp_all add: cpu_inv_def\<close>)
  qed
qed

text \<open>No two handlers share a channel, and a new channel is nobody's yet.\<close>

definition own_chan :: "client list \<Rightarrow> bool" where
  "own_chan cs \<longleftrightarrow> (\<forall>j < length cs. \<forall>k < length cs. \<forall>i i' ch.
     chan_of (cs ! j) = Some (i, ch) \<longrightarrow> chan_of (cs ! k) = Some (i', ch) \<longrightarrow> j = k)"

definition new_chan :: "action list \<Rightarrow> client list \<Rightarrow> bool" where
  "new_chan as cs \<longleftrightarrow> (\<forall>l \<in> set (replies as). \<forall>c \<in> set cs. \<forall>i. chan_of c \<noteq> Some (i, snd l))"

lemma own_chan_update:
  assumes "own_chan cs" "chan_of c = None \<or> chan_of c = chan_of (cs ! k)"
  shows "own_chan (cs[k := c])"
proof -
  have "chan_of (cs[k := c] ! j) = Some (i, ch) \<Longrightarrow> chan_of (cs ! j) = Some (i, ch)" if "j < length cs" for j i ch
    using assms(2) that by (cases "j = k") auto
  with assms(1) show ?thesis unfolding own_chan_def by (metis length_list_update)
qed

lemma own_chan_new:
  assumes "own_chan cs" "\<forall>c \<in> set cs. \<forall>i. chan_of c \<noteq> Some (i, ch)" "chan_of c = Some (i, ch)"
  shows "own_chan (cs[k := c])"
  unfolding own_chan_def
proof (intro allI impI)
  fix m n i' i'' ch' assume a: "m < length (cs[k := c])" "n < length (cs[k := c])"
    "chan_of (cs[k := c] ! m) = Some (i', ch')" "chan_of (cs[k := c] ! n) = Some (i'', ch')"
  show "m = n"
  proof (cases "m = k \<or> n = k")
    case True
    with a assms(2,3) show ?thesis by (metis Pair_inject length_list_update nth_list_update nth_mem option.inject)
  next
    case False
    with a assms(1) show ?thesis by (simp add: own_chan_def)
  qed
qed

lemma new_chan_update: "new_chan as cs \<Longrightarrow> k < length cs \<Longrightarrow> chan_of c = None \<or> chan_of c = chan_of (cs ! k) \<Longrightarrow> new_chan as (cs[k := c])"
  unfolding new_chan_def by (metis in_update nth_mem option.distinct(1))

definition share_inv :: "sys \<Rightarrow> bool" where
  "share_inv s \<longleftrightarrow> own_chan (sysClients s) \<and> new_chan (sysActs s) (sysClients s)"

lemma share_update:
  assumes "share_inv s" "k < length (sysClients s)" "chan_of c = None \<or> chan_of c = chan_of (sysClients s ! k)"
  shows "share_inv (s\<lparr>sysClients := (sysClients s)[k := c]\<rparr>)"
  using assms own_chan_update new_chan_update by (simp add: share_inv_def)

lemma afterSend_chan [simp]: "chan_of (afterSend b c) = None" "CListen p ch evs \<noteq> afterSend b c" "CLeave p ch evs \<noteq> afterSend b c"
  by (cases c; simp)+

lemma share_master:
  assumes "share_inv s" "link_inv s" "master_step s s'"
  shows "share_inv s'"
proof -
  have tl: "share_inv (s\<lparr>sysActs := as\<rparr>)" if "sysActs s = a # as" for a as
    using assms(1) that by (auto simp: share_inv_def new_chan_def)
  from assms(3) show ?thesis
  proof cases
    case (reply p ch as k)
    have "replies as = []" using assms(2) reply(2) by (simp add: link_inv_def paired_def)
    moreover have "own_chan ((sysClients s)[k := CListen p ch []])"
      using own_chan_new[of "sysClients s" ch "CListen p ch []"] assms(1) reply(2) by (simp add: share_inv_def new_chan_def)
    ultimately show ?thesis using reply(1) by (simp add: share_inv_def new_chan_def)
  next
    case (send ch e as k p evs)
    with share_update[OF tl[OF send(2)], of k "CListen p ch (evs @ [e])"] show ?thesis by simp
  next
    case (ask as)
    with tl[OF ask(2)] show ?thesis by (simp add: share_inv_def)
  next
    case (loc a as)
    with tl[OF loc(2)] show ?thesis by (cases a) (simp_all add: share_inv_def)
  qed
qed

lemma share_select:
  assumes "base_inv s" "link_inv s" "share_inv s" "select_step s s'"
  shows "share_inv s'"
  using assms(1,4)
proof (cases rule: select_cases)
  case (1 k ev now)
  have g: "gm_reachable (sysGm s)" using assms(1) by (simp add: base_inv_def)
  note C = control_linked[OF g 1(4,5)]
  have "\<forall>l \<in> set (replies (sysActs s')). snd l = gmNext (sysGm s)" using C by (cases ev) (simp_all add: repliesTo_def)
  moreover have "\<forall>c \<in> set (sysClients s). \<forall>i. chan_of c \<noteq> Some (i, gmNext (sysGm s))"
    using assms(2) by (force simp: link_inv_def tied_def)
  ultimately have "new_chan (sysActs s') (sysClients s)" by (simp add: new_chan_def)
  with new_chan_update[OF _ 1(2)] own_chan_update assms(3) 1(8) show ?thesis by (simp add: share_inv_def)
next
  case (2 ev now)
  have g: "gm_reachable (sysGm s)" using assms(1) by (simp add: base_inv_def)
  note C = control_linked[OF g is_post_from_client[OF 2(3)] 2(4)]
  have "replies (sysActs s') = []" using C 2(3) by (cases ev) (simp_all add: repliesTo_def is_post_def)
  with 2 assms(3) show ?thesis by (simp add: share_inv_def new_chan_def)
next
  case (3 now)
  with broadcastPing_ordered[of "sysGm s" now] assms(3) show ?thesis by (simp add: share_inv_def new_chan_def)
next
  case (4 now i bc ls)
  have "gm_reachable (sysGm s)" using assms(1) by (simp add: base_inv_def)
  from removal_ordered[OF this 4(2), of ls] 4 assms(3) show ?thesis by (simp add: share_inv_def new_chan_def)
qed

lemma share_other:
  assumes "share_inv s" "other_step s s'"
  shows "share_inv s'"
  using assms(2)
proof cases
  case (arrive c)
  then have c: "chan_of c = None" by (cases c; simp add: arrives_def)
  then have "own_chan (sysClients s @ [c])"
    using assms(1) by (auto simp: share_inv_def own_chan_def nth_append split: if_splits)
  with arrive c assms(1) show ?thesis by (auto simp: share_inv_def new_chan_def)
next
  case (game_over k ev)
  with share_update[OF assms(1) game_over(2)] show ?thesis by simp
qed (use share_update[OF assms(1)] assms(1) in \<open>simp_all add: share_inv_def\<close>)

lemma sys_reachable_share: "sys_reachable s \<Longrightarrow> share_inv s"
proof (induction rule: sys_reachable.induct)
  case (start i t single src g acts)
  then show ?case by (simp add: share_inv_def own_chan_def new_chan_def startSys_def)
next
  case (step s s')
  note base = sys_reachable_base[OF step(1)] and link = sys_reachable_linked[OF step(1)]
  from step(2) show ?case
    unfolding sys_step_def using share_master[OF step.IH link] share_select[OF base link step.IH] share_other[OF step.IH] by blast
qed

section \<open>When the master waits for ever\<close>

definition blocked :: "sys \<Rightarrow> bool" where
  "blocked s = (case sysActs s of
     SendEvent ch e # as \<Rightarrow> \<not> list_ex (\<lambda>c. case c of CListen p ch' evs \<Rightarrow> ch' = ch | _ \<Rightarrow> False) (sysClients s)
   | SendTok # as \<Rightarrow> sysCpu s \<noteq> CpuIdle
   | _ \<Rightarrow> False)"

lemma blocked_send: "sysActs s = SendEvent ch e # as \<Longrightarrow> blocked s \<longleftrightarrow> (\<forall>p evs. CListen p ch evs \<notin> set (sysClients s))"
  by (auto simp: blocked_def list_ex_iff split: client.splits)

lemma blocked_tok: "sysActs s = SendTok # as \<Longrightarrow> blocked s \<longleftrightarrow> sysCpu s \<noteq> CpuIdle"
  by (simp add: blocked_def)

lemma blocked_cases:
  assumes "blocked s"
  obtains ch e as where "sysActs s = SendEvent ch e # as" "\<forall>p evs. CListen p ch evs \<notin> set (sysClients s)"
  | as where "sysActs s = SendTok # as" "sysCpu s \<noteq> CpuIdle"
proof (cases "sysActs s")
  case Nil
  with assms show thesis by (simp add: blocked_def)
next
  case (Cons a as)
  with assms that blocked_send show thesis by (cases a) (auto simp: blocked_def)
qed

definition hangs :: "sys \<Rightarrow> bool" where
  "hangs s \<longleftrightarrow> (\<forall>s'. sys_step\<^sup>*\<^sup>* s s' \<longrightarrow> sysActs s' = sysActs s \<and> sysGm s' = sysGm s)"

text \<open>A master that is blocked stays so, whatever the others do.\<close>

lemma blocked_step:
  assumes "blocked s" "sys_step s s'"
  shows "blocked s' \<and> sysActs s' = sysActs s \<and> sysGm s' = sysGm s"
  using assms(1)
proof (cases rule: blocked_cases)
  case (1 ch e as)
  have "other_step s s'"
    using assms(2) 1 unfolding sys_step_def
  proof (elim disjE)
    assume "master_step s s'"
    then show ?thesis by cases (use 1 in \<open>auto simp: in_set_conv_nth\<close>)
  next
    assume "select_step s s'"
    then show ?thesis by cases (use 1 in \<open>simp_all add: idle_def\<close>)
  qed
  moreover from this have "\<forall>p evs. CListen p ch evs \<notin> set (sysClients s')"
    by cases (use 1 in \<open>auto simp: arrives_def dest!: in_update split: client.splits\<close>)
  moreover have "\<not> idle s" using 1 by (simp add: idle_def)
  ultimately show ?thesis using other_step_same[of s s'] 1 blocked_send[of s' ch e as] by simp
next
  case (2 as)
  have "other_step s s'"
    using assms(2) 2 unfolding sys_step_def
  proof (elim disjE)
    assume "master_step s s'"
    then show ?thesis by cases (use 2 in auto)
  next
    assume "select_step s s'"
    then show ?thesis by cases (use 2 in \<open>simp_all add: idle_def\<close>)
  qed
  moreover from this have "sysCpu s' \<noteq> CpuIdle" by cases (use 2 in simp_all)
  moreover have "\<not> idle s" using 2 by (simp add: idle_def)
  ultimately show ?thesis using other_step_same[of s s'] 2 blocked_tok[of s' as] by simp
qed

lemma blocked_hangs: "blocked s \<Longrightarrow> hangs s"
proof -
  assume "blocked s"
  have "blocked s' \<and> sysActs s' = sysActs s \<and> sysGm s' = sysGm s" if "sys_step\<^sup>*\<^sup>* s s'" for s'
    using that
  proof (induction rule: rtranclp_induct)
    case (step s' s'')
    with blocked_step[of s' s''] show ?case by simp
  qed (simp add: \<open>blocked s\<close>)
  then show "hangs s" unfolding hangs_def by blast
qed

text \<open>Otherwise it has a step: every partner it waits for is there.\<close>

lemma master_progress:
  assumes "sys_reachable s" "sysActs s = a # as" "\<not> blocked s"
  shows "\<exists>s'. master_step s s' \<and> sysActs s' = as"
proof (cases "local_act a")
  case True
  have "sysActs (act a (s\<lparr>sysActs := as\<rparr>)) = as" by (cases a) simp_all
  with master_step.loc[OF assms(2) True] show ?thesis by blast
next
  case False
  then consider i ch where "a = Reply i ch" | ch e where "a = SendEvent ch e" | "a = SendTok" by (cases a) simp_all
  then show ?thesis
  proof cases
    case (1 i ch)
    have "paired (sysActs s) (sysClients s)" using sys_reachable_linked[OF assms(1)] by (simp add: link_inv_def)
    then have "i \<in> set (awaits (sysClients s))" using 1 assms(2) by (simp add: paired_def)
    then obtain c where c: "c \<in> set (sysClients s)" "i \<in> set (awaiting c)" by (auto simp: awaits_def)
    obtain p where "c = CAwait p" "plId p = i" using c(2) by (cases c) auto
    with c(1) obtain k where k: "k < length (sysClients s)" "sysClients s ! k = CAwait p" by (auto simp: in_set_conv_nth)
    from master_step.reply[OF _ k, of ch as] 1 assms(2) \<open>plId p = i\<close> show ?thesis by fastforce
  next
    case (2 ch e)
    then obtain p evs where "CListen p ch evs \<in> set (sysClients s)" using assms(2,3) blocked_send by blast
    then obtain k where "k < length (sysClients s)" "sysClients s ! k = CListen p ch evs" by (auto simp: in_set_conv_nth)
    from master_step.send[OF _ this, of e as] 2 assms(2) show ?thesis by fastforce
  next
    case 3
    then show ?thesis using assms(2,3) blocked_tok master_step.ask[of s as] by fastforce
  qed
qed

lemma not_blocked_step:
  assumes r: "sys_reachable s" "sysActs s \<noteq> []" "\<not> blocked s"
  shows "\<not> hangs s"
proof
  assume h: "hangs s"
  obtain a as where "sysActs s = a # as" using r(2) by (cases "sysActs s") simp_all
  from master_progress[OF r(1) this r(3)] obtain s' where "master_step s s'" "sysActs s' = as" by blast
  moreover from this(1) have "sys_step\<^sup>*\<^sup>* s s'" by (simp add: sys_step_def r_into_rtranclp)
  then have "sysActs s' = sysActs s" using h unfolding hangs_def by blast
  ultimately show False using \<open>sysActs s = a # as\<close> by simp
qed

text \<open>Who is to blame when the master is blocked.\<close>

lemma blocked_iff:
  assumes "sys_reachable s"
  shows "blocked s \<longleftrightarrow>
    (\<exists>ch e as p evs. sysActs s = SendEvent ch e # as \<and> CLeave p ch evs \<in> set (sysClients s)) \<or>
    (\<exists>as ev. sysActs s = SendTok # as \<and> (sysCpu s = CpuThinking \<or> sysCpu s = CpuSending ev))"
proof -
  have L: "attended (sysGm s) (sysActs s) (sysClosed s) (sysClients s)" "ordered (sysGm s) (sysActs s)"
    using sys_reachable_linked[OF assms] by (simp_all add: link_inv_def)
  have C: "channels_ok (set (sysClosed s)) (sysActs s)" "\<not> sysOver s \<longrightarrow> DoneCh \<notin> set (sysClosed s)"
    "sysOver s \<longrightarrow> sysActs s \<noteq> [] \<longrightarrow> List.last (sysActs s) = CloseDone"
    using sys_reachable_chans[OF assms] by (auto simp: chan_inv_def shut_def live_def)
  have some: "\<exists>p evs. CListen p ch evs \<in> set (sysClients s) \<or> CLeave p ch evs \<in> set (sysClients s)"
    if a: "sysActs s = SendEvent ch e # as" for ch e as
  proof -
    obtain i where i: "(i, ch) \<in> set (gmListeners (sysGm s))" using L(2) a by (force simp: ordered_def)
    have "replies (sysActs s) = []" using L(2) a by (simp add: ordered_def)
    moreover have "Ch ch \<notin> set (sysClosed s)" using C(1) a by simp
    moreover have "DoneCh \<notin> set (sysClosed s)"
    proof (cases "sysOver s")
      case True
      then have "CloseDone \<in> set (sysActs s)" using C(3) a by (metis last_in_set list.distinct(1))
      from channels_ok_disjoint[OF C(1) this] show ?thesis by simp
    qed (use C(2) in blast)
    ultimately obtain c where c: "c \<in> set (sysClients s)" "chan_of c = Some (i, ch)"
      using L(1) i unfolding attended_def by (metis empty_iff list.set(1) snd_conv)
    have "\<exists>p evs. c = CListen p ch evs \<or> c = CLeave p ch evs" using c(2) by (cases c) auto
    with c(1) show ?thesis by blast
  qed
  have one: "CListen q ch evs' \<notin> set (sysClients s)" if l: "CLeave p ch evs \<in> set (sysClients s)" for p ch evs q evs'
  proof
    assume "CListen q ch evs' \<in> set (sysClients s)"
    then obtain j where j: "j < length (sysClients s)" "sysClients s ! j = CListen q ch evs'" by (auto simp: in_set_conv_nth)
    obtain k where k: "k < length (sysClients s)" "sysClients s ! k = CLeave p ch evs" using l by (auto simp: in_set_conv_nth)
    have "own_chan (sysClients s)" using sys_reachable_share[OF assms] by (simp add: share_inv_def)
    with j k have "j = k" unfolding own_chan_def by (metis chan_of.simps(1,2))
    with j k show False by simp
  qed
  have gone: "sysCpu s \<noteq> CpuGone" if "sysActs s = SendTok # as" for as
    using sys_reachable_cpu[OF assms] C(1) that by (auto simp: cpu_inv_def)
  have served: "(\<forall>p evs. CListen p ch evs \<notin> set (sysClients s)) \<longleftrightarrow> (\<exists>p evs. CLeave p ch evs \<in> set (sysClients s))"
    if "sysActs s = SendEvent ch e # as" for ch e as
    using some[OF that] one by blast
  have tok: "sysCpu s \<noteq> CpuIdle \<longleftrightarrow> sysCpu s = CpuThinking \<or> (\<exists>ev. sysCpu s = CpuSending ev)"
    if "sysActs s = SendTok # as" for as
    using gone[OF that] by (cases "sysCpu s") simp_all
  show ?thesis
  proof
    assume "blocked s"
    then show "(\<exists>ch e as p evs. sysActs s = SendEvent ch e # as \<and> CLeave p ch evs \<in> set (sysClients s)) \<or>
      (\<exists>as ev. sysActs s = SendTok # as \<and> (sysCpu s = CpuThinking \<or> sysCpu s = CpuSending ev))"
    proof (cases rule: blocked_cases)
      case (1 ch e as)
      with served show ?thesis by blast
    next
      case (2 as)
      with tok show ?thesis by blast
    qed
  qed (use blocked_send served blocked_tok tok in blast)
qed

section \<open>The first steps of a game\<close>

lemma sys_step_intros:
  "sys_reachable s \<Longrightarrow> master_step s s' \<Longrightarrow> sys_reachable s'"
  "sys_reachable s \<Longrightarrow> select_step s s' \<Longrightarrow> sys_reachable s'"
  "sys_reachable s \<Longrightarrow> other_step s s' \<Longrightarrow> sys_reachable s'"
  by (auto simp: sys_step_def intro: sys_reachable.step)

lemma sys_started:
  assumes "single \<longrightarrow> supportsSinglePlayer t"
  obtains g where "startMaster i t single noRng = Some (g, [gameCounter g ''/started''])" "gmPlayers g = []" "gmListeners g = []"
    "gmSingle g = single" "gmRmCancel g = []" "gmType g = t" "gmNext g = 0" "gm_reachable g" "sys_reachable (startSys g [])"
proof -
  obtain g where g: "startMaster i t single noRng = Some (g, [gameCounter g ''/started''])" "gmPlayers g = []" "gmListeners g = []"
    "gmSingle g = single" "gmRmCancel g = []" "gmType g = t" using startMaster_ok[OF assms, of i noRng] by blast
  have "gmNext g = 0" using g(1) by (auto simp: startMaster_def Let_def split: Option.bind_splits)
  moreover have "master_step (startSys g [gameCounter g ''/started'']) (startSys g [])"
    using master_step.loc[of "startSys g [gameCounter g ''/started'']" "gameCounter g ''/started''" "[]"]
    by (simp add: gameCounter_def startSys_def)
  moreover note gm_reachable.start[OF g(1) assms] sys_reachable.start[OF g(1) assms]
  ultimately show thesis using g that sys_step_intros(1) by blast
qed

text \<open>A player opens the stream of a game: the master has replied and is about to send the board to the
  only listener.\<close>

lemma first_player:
  assumes "gm_reachable g" "sys_reachable (startSys g [])" "gmListeners g = []" "gmRmCancel g = []" "gmPlayers g = []" "gmNext g = 0"
  obtains g' e acts where "handleControl now (ControlEventRegister ann) g = Some (g', [Reply ''1'' 0, SendEvent 0 e] @ acts)"
    "evBoard e \<noteq> None" "\<forall>a \<in> set acts. \<exists>e. a = SendEvent 0 e" "0 < playerNum g' ''1''" "gmListeners g' = [(''1'', 0)]" "gm_reachable g'"
    "sys_reachable ((startSys g' ([SendEvent 0 e] @ acts))\<lparr>sysClients := [CListen ann 0 []]\<rparr>)"
proof -
  have f: "from_client (ControlEventRegister ann)" "plId ann \<noteq> playerIdComputer" "plId ann = ''1''"
    by (simp_all add: from_client_def ann_def playerIdComputer_def)
  note inv = gm_reachable_inv[OF assms(1)]
  obtain g' acts where h: "handleControl now (ControlEventRegister ann) g = Some (g', acts)"
    using control_step[OF inv f(1)] by blast
  note g' = gm_reachable.control[OF assms(1) f(1) h]
  have "handleRegister now ann g = Some (g', acts)" using h by simp
  then obtain num added g1 as e bc where r: "admit ann g = (num, added, g1, as)"
    "g' = g1\<lparr>gmListeners := AList.update (plId ann) (gmNext g1) (gmListeners g1), gmNext := gmNext g1 + 1\<rparr>"
    "broadcast now g' e = Some bc"
    "acts = as @ [Reply (plId ann) (gmNext g1)] @ singlecast now g' (plId ann) (zeroEvent\<lparr>evRole := num\<rparr>) @ bc"
    by (rule handleRegister_cases)
  note A = admit_ok[OF inv f(2) r(1)]
  have "0 < engineNumPlayers (gmEngine g)" using any_engine.players_pos[of "gmEngine g"] by simp
  then have "as = []" "num = 1" using r(1) assms(5) by (auto simp: admit_eq[OF inv f(2)])
  have L: "gmListeners g' = [(''1'', 0)]" using r(2) A assms(3,6) f(3) by simp
  define e0 where "e0 = zeroEvent\<lparr>evRole := 1, evTimestamp := now, evBoard := Some (ViewFor (gmBoard g') (playerNum g' ''1''))\<rparr>"
  have acts: "acts = [Reply ''1'' 0, SendEvent 0 e0] @ bc"
    using r(4) \<open>as = []\<close> \<open>num = 1\<close> A assms(6) f(3) L by (simp add: singlecast_def e0_def)
  have "\<exists>e. a = SendEvent 0 e" if "a \<in> set bc" for a
  proof -
    note B = broadcast_quiet[OF gm_reachable_inv[OF g'] r(3)] broadcast_count[OF gm_reachable_inv[OF g'] r(3)]
    have "\<exists>ch e. a = SendEvent ch e" using B(2) filter_id_conv[of "\<lambda>a. \<exists>ch e. a = SendEvent ch e" bc] that by simp
    moreover have "ownView g' a" using B(1) that by blast
    ultimately show ?thesis using L by (auto simp: ownView_def split: if_splits)
  qed
  moreover have "0 < playerNum g' ''1''" using A \<open>num = 1\<close> r(2) f(3) by (simp add: playerNum_def)
  moreover have "sys_reachable ((startSys g' ([SendEvent 0 e0] @ bc))\<lparr>sysClients := [CListen ann 0 []]\<rparr>)"
  proof -
    let ?s1 = "(startSys g [])\<lparr>sysClients := [CRegister ann]\<rparr>"
    let ?s2 = "(startSys g' acts)\<lparr>sysClients := [CAwait ann]\<rparr>"
    have "gmSingle g' = gmSingle g" using control_tok[OF assms(1) f(1) h] by blast
    have "other_step (startSys g []) ?s1" using other_step.arrive[of "CRegister ann" "startSys g []"] f(2)
      by (simp add: arrives_def startSys_def)
    moreover have "select_step ?s1 ?s2"
      using select_step.event[of ?s1 0 "ControlEventRegister ann" now g' acts] h \<open>gmSingle g' = gmSingle g\<close>
      by (simp add: idle_def startSys_def)
    moreover have "master_step ?s2 ((startSys g' ([SendEvent 0 e0] @ bc))\<lparr>sysClients := [CListen ann 0 []]\<rparr>)"
      using master_step.reply[of ?s2 ann 0 "[SendEvent 0 e0] @ bc" 0] acts f(3) by (simp add: startSys_def)
    ultimately show ?thesis using assms(2) sys_step_intros by blast
  qed
  ultimately show thesis using that[of g' e0 bc] h acts L g' by (simp add: e0_def)
qed

section \<open>When everybody is listening\<close>

text \<open>The events that are sent on a channel, and what a handler has got after them.\<close>

definition events_on :: "nat \<Rightarrow> action list \<Rightarrow> server_event list" where
  "events_on ch as = concat (map (\<lambda>a. case a of SendEvent ch' e \<Rightarrow> if ch' = ch then [e] else [] | _ \<Rightarrow> []) as)"

fun gets :: "action list \<Rightarrow> client \<Rightarrow> client" where
  "gets as (CListen p ch evs) = CListen p ch (evs @ events_on ch as)"
| "gets as c = c"

definition no_leave :: "client list \<Rightarrow> bool" where
  "no_leave cs = list_all (\<lambda>c. case c of CLeave p ch evs \<Rightarrow> False | _ \<Rightarrow> True) cs"

lemma no_leave_iff: "no_leave cs \<longleftrightarrow> (\<forall>p ch evs. CLeave p ch evs \<notin> set cs)"
  by (auto simp: no_leave_def list_all_iff split: client.splits)

lemma events_on_simps [simp]:
  "events_on ch [] = []" "events_on ch (SendEvent ch' e # as) = (if ch' = ch then [e] else []) @ events_on ch as"
  "sends_on a = [] \<or> a = SendTok \<Longrightarrow> events_on ch (a # as) = events_on ch as"
  by (auto simp: events_on_def split: action.splits)

lemma gets_cong: "(\<And>ch. events_on ch as = events_on ch bs) \<Longrightarrow> gets as c = gets bs c"
  by (cases c) simp_all

text \<open>One step of the master, seen by all handlers that listen already.\<close>

lemma step_gets:
  assumes "sys_reachable s" "master_step s s'" "sysActs s = a # as" "j < length (sysClients s)" "sysClients s ! j = CListen p ch evs"
  shows "gets as (sysClients s' ! j) = gets (a # as) (sysClients s ! j)"
  using assms(2)
proof cases
  case (reply q ch' as' k)
  then have "k \<noteq> j" using assms(5) by auto
  with reply assms(3,5) show ?thesis by simp
next
  case (send ch' e as' k q evs')
  have eq: "as' = as" "a = SendEvent ch' e" using send(2) assms(3) by simp_all
  show ?thesis
  proof (cases "k = j")
    case True
    with send eq assms(4,5) show ?thesis by simp
  next
    case False
    have "own_chan (sysClients s)" using sys_reachable_share[OF assms(1)] by (simp add: share_inv_def)
    then have "ch' \<noteq> ch" using send(3,4) assms(4,5) False unfolding own_chan_def by (metis chan_of.simps(1))
    with send eq False assms(5) show ?thesis by simp
  qed
next
  case (ask as')
  with assms(3,5) show ?thesis by simp
next
  case (loc b as')
  then have "sysClients s' = sysClients s" "sends_on a = []" using assms(3) by (cases b; auto)+
  with assms(5) show ?thesis by simp
qed

lemma step_no_leave:
  assumes "master_step s s'" "no_leave (sysClients s)"
  shows "no_leave (sysClients s') \<and> length (sysClients s') = length (sysClients s)"
  using assms(1)
proof cases
  case (loc a as)
  with assms(2) show ?thesis by (cases a) simp_all
qed (use assms(2) in \<open>auto simp: no_leave_iff dest!: in_update\<close>)

lemma step_cpu:
  "master_step s s' \<Longrightarrow> sysActs s = a # as \<Longrightarrow> sysCpu s' = (if a = SendTok then CpuThinking else sysCpu s)"
proof (induction rule: master_step.induct)
  case (loc s b as')
  then show ?case by (cases b) simp_all
qed simp_all

lemma step_listens:
  assumes "master_step s s'" "j < length (sysClients s)" "sysClients s ! j = CListen p ch evs"
  shows "\<exists>evs'. sysClients s' ! j = CListen p ch evs'"
  using assms(1)
proof cases
  case (loc a as)
  with assms(3) show ?thesis by (cases a) simp_all
next
  case (reply q ch' as k)
  with assms show ?thesis by (cases "k = j") simp_all
next
  case (send ch' e as k q evs')
  with assms show ?thesis by (cases "k = j") simp_all
qed (use assms in simp)

lemma drain:
  assumes "sys_reachable s" "no_leave (sysClients s)" "SendTok \<in> set (sysActs s) \<Longrightarrow> sysCpu s = CpuIdle"
  shows "\<exists>s'. (master_step ^^ length (sysActs s)) s s' \<and> sys_reachable s' \<and> sysActs s' = [] \<and>
    sysGm s' = sysGm s \<and> sysOver s' = sysOver s \<and> no_leave (sysClients s') \<and> length (sysClients s') = length (sysClients s) \<and>
    sysCpu s' = (if SendTok \<in> set (sysActs s) then CpuThinking else sysCpu s) \<and>
    (\<forall>j < length (sysClients s). \<forall>p ch evs. sysClients s ! j = CListen p ch evs \<longrightarrow>
       sysClients s' ! j = CListen p ch (evs @ events_on ch (sysActs s)))"
  using assms
proof (induction "sysActs s" arbitrary: s)
  case Nil
  then show ?case by (intro exI[of _ s]) auto
next
  case (Cons a as)
  note r = Cons.prems(1) and acts = Cons.hyps(2)[symmetric]
  have "\<not> blocked s"
    using blocked_iff[OF r] Cons.prems(2,3) acts by (auto simp: no_leave_iff)
  from master_progress[OF r acts this] obtain t where t: "master_step s t" "sysActs t = as" by blast
  have rt: "sys_reachable t" by (rule sys_step_intros(1)[OF r t(1)])
  have same: "sysGm t = sysGm s" "sysOver t = sysOver s" using master_step_same[OF t(1)] by blast+
  note nl = step_no_leave[OF t(1) Cons.prems(2)] and cpu = step_cpu[OF t(1) acts]
  have once: "a = SendTok \<Longrightarrow> SendTok \<notin> set as"
    using sys_reachable_cpu[OF r] acts by (auto simp: cpu_inv_def count_list_0_iff)
  have "sysCpu t = CpuIdle" if "SendTok \<in> set (sysActs t)" using that once t(2) cpu Cons.prems(3) acts by auto
  from Cons.hyps(1)[OF t(2)[symmetric] rt _ this] nl obtain s' where s': "(master_step ^^ length as) t s'" "sys_reachable s'"
    "sysActs s' = []" "sysGm s' = sysGm t" "sysOver s' = sysOver t" "no_leave (sysClients s')"
    "length (sysClients s') = length (sysClients t)" "sysCpu s' = (if SendTok \<in> set as then CpuThinking else sysCpu t)"
    "\<forall>j < length (sysClients t). \<forall>p ch evs. sysClients t ! j = CListen p ch evs \<longrightarrow>
       sysClients s' ! j = CListen p ch (evs @ events_on ch as)"
    unfolding t(2) by blast
  have "(master_step ^^ length (sysActs s)) s s'" using t(1) s'(1) acts relpowp_Suc_I2[of master_step s t "length as" s'] by simp
  moreover have "sysClients s' ! j = CListen p ch (evs @ events_on ch (sysActs s))"
    if j: "j < length (sysClients s)" "sysClients s ! j = CListen p ch evs" for j p ch evs
  proof -
    obtain evs' where e: "sysClients t ! j = CListen p ch evs'" using step_listens[OF t(1) j] by blast
    then have "evs' @ events_on ch as = evs @ events_on ch (sysActs s)"
      using step_gets[OF r t(1) acts j] j(2) acts by simp
    with s'(9) e j(1) nl show ?thesis by simp
  qed
  moreover have "sysCpu s' = (if SendTok \<in> set (sysActs s) then CpuThinking else sysCpu s)" using s'(8) cpu acts by auto
  ultimately show ?case using s'(2-7) same nl by (intro exI[of _ s']) simp
qed

lemma post_event:
  assumes "sys_reachable s" "idle s" "no_leave (sysClients s)" "is_post ev" "handleControl now ev (sysGm s) = Some (g, acts)"
  obtains s' where "sys_reachable s'" "sysActs s' = acts" "sysGm s' = g" "\<not> sysOver s'" "no_leave (sysClients s')" "sysCpu s' = sysCpu s"
proof -
  let ?t = "s\<lparr>sysClients := sysClients s @ [CPost ev]\<rparr>"
  have "sys_reachable ?t" using sys_step_intros(3)[OF assms(1)] other_step.arrive[of "CPost ev" s] assms(4) by (simp add: arrives_def)
  moreover have "select_step ?t (?t\<lparr>sysActs := acts, sysClients := sysClients s @ [CEnd], sysGm := g\<rparr>)"
    using select_step.event[of ?t "length (sysClients s)" ev now g acts] assms(2,5) by (simp add: idle_def)
  ultimately have "sys_reachable (?t\<lparr>sysActs := acts, sysClients := sysClients s @ [CEnd], sysGm := g\<rparr>)" using sys_step_intros(2) by blast
  from that[OF this] assms(2,3) show thesis by (auto simp: idle_def no_leave_iff)
qed

text \<open>An event that is posted to the idle master is handled and told to everybody.\<close>

lemma post_drain:
  assumes "sys_reachable s" "idle s" "no_leave (sysClients s)" "is_post ev" "handleControl now ev (sysGm s) = Some (g, acts)"
    "SendTok \<in> set acts \<Longrightarrow> sysCpu s = CpuIdle"
  obtains s' where "sys_reachable s'" "idle s'" "sysGm s' = g" "no_leave (sysClients s')"
    "sysCpu s' = (if SendTok \<in> set acts then CpuThinking else sysCpu s)"
proof -
  obtain t where t: "sys_reachable t" "sysActs t = acts" "sysGm t = g" "\<not> sysOver t" "no_leave (sysClients t)" "sysCpu t = sysCpu s"
    by (rule post_event[OF assms(1-5)])
  then have "SendTok \<in> set (sysActs t) \<Longrightarrow> sysCpu t = CpuIdle" using assms(6) by simp
  from drain[OF t(1,5) this] obtain s' where "sys_reachable s'" "sysActs s' = []" "sysGm s' = sysGm t" "sysOver s' = sysOver t"
    "no_leave (sysClients s')" "sysCpu s' = (if SendTok \<in> set (sysActs t) then CpuThinking else sysCpu t)" by blast
  with that[of s'] t show thesis by (simp add: idle_def)
qed

section \<open>The computer is asked twice\<close>

text \<open>A player resets the game while the computer is thinking, and moves. The master asks the computer
  for a move again, which waits to hand over the first one: both wait for ever.\<close>

lemma reset_joined:
  assumes "flagz_inv fl"
  obtains fl' bc where "freshGame fl'" "handleControl [] (ControlEventReset ''1'' []) (joinedGame fl) = Some (joinedGame fl', bc)"
    "SendTok \<notin> set bc" "gm_inv (joinedGame fl')"
proof -
  obtain fl' where fl': "Flagz_Reset fl = Some fl'" "freshGame fl'" using freshGame_reset by blast
  note inv = joinedGame_inv[OF fl'(2)]
  obtain bc where bc: "broadcast [] (joinedGame fl') (zeroEvent\<lparr>evAnnouncements := [Restarted (plName ann)]\<rparr>) = Some bc"
    using broadcast_ok[OF gm_invD(3)[OF inv]] by blast
  then have "handleControl [] (ControlEventReset ''1'' []) (joinedGame fl) = Some (joinedGame fl', bc)"
    using fl'(1) by (simp add: handleReset_def joinedGame_def)
  moreover have "SendTok \<notin> set bc" using broadcast_quiet[OF inv bc] by blast
  ultimately show thesis using that fl'(2) inv by blast
qed

lemma reset_while_computer_thinks_hangs:
  "\<exists>s as. sys_reachable s \<and> sysActs s = SendTok # as \<and> sysCpu s = CpuThinking \<and> hangs s"
proof -
  obtain fl acts where fl: "freshGame fl" "startMaster ''ABCDEF'' GameTypeFlagz True (sconst 0) = Some (newGame fl, [gameCounter (newGame fl) ''/started''])"
    "gm_reachable (newGame fl)" "handleControl [] (ControlEventRegister ann) (newGame fl) = Some (joinedGame fl, acts)"
    by (rule joined_start)
  obtain g where g: "startMaster ''ABCDEF'' GameTypeFlagz True noRng = Some (g, [gameCounter g ''/started''])" "sys_reachable (startSys g [])"
    using sys_started[of True GameTypeFlagz "''ABCDEF''"] by (metis supportsSinglePlayer_def)
  have "g = newGame fl" using g(1) fl(2) by (simp add: noRng_def)
  with g(2) have start: "sys_reachable (startSys (newGame fl) [])" by simp
  have new: "gmListeners (newGame fl) = []" "gmRmCancel (newGame fl) = []" "gmPlayers (newGame fl) = []" "gmNext (newGame fl) = 0"
    by (simp_all add: newGame_def joinedGame_def)
  obtain g' e as where f: "handleControl [] (ControlEventRegister ann) (newGame fl) = Some (g', [Reply ''1'' 0, SendEvent 0 e] @ as)"
    "\<forall>a \<in> set as. \<exists>e. a = SendEvent 0 e"
    "sys_reachable ((startSys g' ([SendEvent 0 e] @ as))\<lparr>sysClients := [CListen ann 0 []]\<rparr>)"
    by (rule first_player[OF fl(3) start new, where now = "[]"])
  have "g' = joinedGame fl" using f(1) fl(4) by simp
  let ?s = "(startSys (joinedGame fl) ([SendEvent 0 e] @ as))\<lparr>sysClients := [CListen ann 0 []]\<rparr>"
  have cpu: "sysCpu ?s = CpuIdle" "\<not> sysOver ?s" by (simp_all add: startSys_def joinedGame_def)
  have "SendTok \<notin> set (sysActs ?s)" using f(2) by (auto simp: startSys_def)
  moreover have "sys_reachable ?s" using f(3) \<open>g' = joinedGame fl\<close> by simp
  moreover have "no_leave (sysClients ?s)" by (simp add: no_leave_def)
  ultimately obtain t0 where t0: "sys_reachable t0" "idle t0" "sysGm t0 = joinedGame fl" "no_leave (sysClients t0)" "sysCpu t0 = CpuIdle"
    using drain[of ?s] cpu by (auto simp: idle_def startSys_def)
  obtain m where m: "legal fl m" using freshGame_legal[OF fl(1)] by blast
  obtain fl1 bc1 where h1: "handleMove [] ''1'' (requestOf m) 0 (joinedGame fl) =
      Some ((joinedGame fl)\<lparr>gmEngine := EngineFlagz fl1\<rparr>, SendTok # bc1)" "flagz_inv fl1"
    using first_move_asks[OF fl(1) m] by blast
  have joined: "(joinedGame fl)\<lparr>gmEngine := EngineFlagz fl1\<rparr> = joinedGame fl1" by (simp add: joinedGame_def)
  have "handleControl [] (ControlEventMove ''1'' (requestOf m) 0) (sysGm t0) = Some (joinedGame fl1, SendTok # bc1)"
    using h1(1) joined t0(3) by simp
  from post_drain[OF t0(1,2,4) _ this] t0(5) obtain t1 where t1: "sys_reachable t1" "idle t1" "sysGm t1 = joinedGame fl1"
    "no_leave (sysClients t1)" "sysCpu t1 = CpuThinking" by (auto simp: is_post_def)
  obtain fl2 bc2 where h2: "freshGame fl2" "handleControl [] (ControlEventReset ''1'' []) (sysGm t1) = Some (joinedGame fl2, bc2)" "SendTok \<notin> set bc2"
    using reset_joined[OF h1(2)] t1(3) by metis
  from post_drain[OF t1(1,2,4) _ h2(2)] h2(3) t1(5) obtain t2 where t2: "sys_reachable t2" "idle t2" "sysGm t2 = joinedGame fl2"
    "no_leave (sysClients t2)" "sysCpu t2 = CpuThinking" by (auto simp: is_post_def)
  obtain m2 where m2: "legal fl2 m2" using freshGame_legal[OF h2(1)] by blast
  obtain g3 bc3 where h3: "handleControl [] (ControlEventMove ''1'' (requestOf m2) 0) (sysGm t2) = Some (g3, SendTok # bc3)"
    using first_move_asks[OF h2(1) m2, of "[]"] t2(3) by auto
  obtain t3 where "sys_reachable t3" "sysActs t3 = SendTok # bc3" "sysCpu t3 = CpuThinking"
    by (rule post_event[OF t2(1,2,4) _ h3]) (use t2(5) in \<open>auto simp: is_post_def\<close>)
  moreover from this have "hangs t3" using blocked_hangs blocked_tok by simp
  ultimately show ?thesis by blast
qed

section \<open>The properties\<close>

text \<open>C14. No goroutine of a game makes the server panic, in any interleaving: no event is sent on a
  closed channel and none is closed twice, and whatever event or removal the master may receive next
  is handled without an index out of range.\<close>

theorem game_system_never_panics:
  assumes "sys_reachable s"
  shows "\<not> panics s \<and> handleRemoval now i (sysGm s) \<noteq> None \<and>
    (\<forall>k ev. k < length (sysClients s) \<and> sendEvent (sysClients s ! k) = Some ev \<or> sysCpu s = CpuSending ev \<longrightarrow>
       handleControl now ev (sysGm s) \<noteq> None)"
proof -
  note g = sys_reachable_gm[OF assms] and base = sys_reachable_base[OF assms]
  have "channels_ok (set (sysClosed s)) (sysActs s)" using sys_reachable_chans[OF assms] by (simp add: chan_inv_def)
  then have "\<not> panics s" by (cases "sysActs s") (simp_all add: panics_def)
  moreover have "handleControl now ev (sysGm s) \<noteq> None \<and> handleRemoval now i (sysGm s) \<noteq> None" if "from_client ev" for ev
    by (rule game_master_never_panics[OF g that])
  moreover have "from_client (ControlEventUnregister [])" by (simp add: from_client_def)
  moreover have "from_client ev" if "k < length (sysClients s) \<and> sendEvent (sysClients s ! k) = Some ev \<or> sysCpu s = CpuSending ev" for k ev
    using that base_inv_clients[OF base] base is_post_from_client by (auto simp: base_inv_def)
  ultimately show ?thesis by blast
qed

text \<open>C15. Whatever the other clients do and in whatever order, a handler of a player has been sent no
  board that shows a field that is hidden and not his own. His number never changes while he is
  connected.\<close>

theorem connected_players_see_only_their_view:
  assumes "sys_reachable s" "CListen p ch evs \<in> set (sysClients s)" "e \<in> set evs" "evBoard e = Some b"
    "0 < playerNum (sysGm s) (plId p)"
  shows "\<forall>f \<in> set (concat (vFields b)). Hidden f \<longrightarrow> Owner f = playerNum (sysGm s) (plId p)"
proof -
  have "received_own (sysGm s) (CListen p ch evs)" using sys_reachable_views[OF assms(1)] assms(2) by (simp add: view_inv_def)
  with assms(3) have "shows_own (playerNum (sysGm s) (plId p)) e" by (simp add: received_own_def)
  with assms(4,5) show ?thesis by (simp add: shows_own_def)
qed


text \<open>C16. The master can always carry out its next action, or it never will and the game hangs. It
  hangs in exactly two situations: the next event is for a handler whose connection has ended and which
  waits to say so, or the computer is asked for a move while it has not delivered the last one.\<close>

theorem master_goes_on_or_hangs:
  assumes "sys_reachable s" "sysActs s \<noteq> []"
  shows "(hangs s \<longleftrightarrow> \<not> (\<exists>s'. master_step s s')) \<and>
    (hangs s \<longleftrightarrow> (\<exists>ch e as p evs. sysActs s = SendEvent ch e # as \<and> CLeave p ch evs \<in> set (sysClients s)) \<or>
       (\<exists>as ev. sysActs s = SendTok # as \<and> (sysCpu s = CpuThinking \<or> sysCpu s = CpuSending ev)))"
proof -
  obtain a as where a: "sysActs s = a # as" using assms(2) by (cases "sysActs s") simp_all
  have "hangs s \<longleftrightarrow> blocked s" using blocked_hangs not_blocked_step[OF assms] by blast
  moreover have "sysActs s' = sysActs s" if "blocked s" "master_step s s'" for s'
    using blocked_step[OF that(1), of s'] that(2) by (simp add: sys_step_def)
  then have "blocked s \<longleftrightarrow> \<not> (\<exists>s'. master_step s s')"
    using master_progress[OF assms(1) a] master_step_same by (metis not_Cons_self2)
  ultimately show ?thesis using blocked_iff[OF assms(1)] by blast
qed

lemma first_player_somewhere:
  obtains g e acts where "sys_reachable ((startSys g ([SendEvent 0 e] @ acts))\<lparr>sysClients := [CListen ann 0 []]\<rparr>)"
    "evBoard e \<noteq> None" "0 < playerNum g (plId ann)"
proof -
  obtain g0 where g: "gmPlayers g0 = []" "gmListeners g0 = []" "gmRmCancel g0 = []" "gmNext g0 = 0" "gm_reachable g0"
    "sys_reachable (startSys g0 [])" using sys_started[of False GameTypeFreeform "[]"] by blast
  show thesis by (rule first_player[OF g(5,6,2,3,1,4), where now = "[]"]) (use that in \<open>simp add: ann_def\<close>)
qed

theorem master_goes_on_or_hangs_witness: "\<exists>s p ch e as. sys_reachable s \<and> sysActs s = SendEvent ch e # as \<and> hangs s"
proof -
  obtain g e acts where r: "sys_reachable ((startSys g ([SendEvent 0 e] @ acts))\<lparr>sysClients := [CListen ann 0 []]\<rparr>)"
    by (rule first_player_somewhere)
  let ?s = "(startSys g ([SendEvent 0 e] @ acts))\<lparr>sysClients := [CLeave ann 0 []]\<rparr>"
  have "sys_reachable ?s"
    using sys_step_intros(3)[OF r] other_step.disconnect[of 0 "(startSys g ([SendEvent 0 e] @ acts))\<lparr>sysClients := [CListen ann 0 []]\<rparr>" ann 0 "[]"]
    by simp
  moreover from master_goes_on_or_hangs[OF this] have "hangs ?s" by (auto simp: startSys_def)
  ultimately show ?thesis by (intro exI[of _ ?s]) (auto simp: startSys_def)
qed

theorem game_system_never_panics_witness: "\<exists>s. sys_reachable s \<and> sysActs s \<noteq> [] \<and> \<not> panics s"
proof -
  obtain g e acts where r: "sys_reachable ((startSys g ([SendEvent 0 e] @ acts))\<lparr>sysClients := [CListen ann 0 []]\<rparr>)"
    by (rule first_player_somewhere)
  from game_system_never_panics[OF r] r show ?thesis by (intro exI conjI) (auto simp: startSys_def)
qed

theorem connected_players_see_only_their_view_witness:
  "\<exists>s p ch evs e b. sys_reachable s \<and> CListen p ch evs \<in> set (sysClients s) \<and> e \<in> set evs \<and> evBoard e = Some b \<and>
     (\<forall>f \<in> set (concat (vFields b)). Hidden f \<longrightarrow> Owner f = playerNum (sysGm s) (plId p))"
proof -
  obtain g e acts where r: "sys_reachable ((startSys g ([SendEvent 0 e] @ acts))\<lparr>sysClients := [CListen ann 0 []]\<rparr>)"
    "evBoard e \<noteq> None" "0 < playerNum g (plId ann)" by (rule first_player_somewhere)
  let ?s = "(startSys g acts)\<lparr>sysClients := [CListen ann 0 [e]]\<rparr>"
  have s: "sys_reachable ?s"
    using sys_step_intros(1)[OF r(1)] master_step.send[of "(startSys g ([SendEvent 0 e] @ acts))\<lparr>sysClients := [CListen ann 0 []]\<rparr>" 0 e acts 0 ann "[]"]
    by (simp add: startSys_def)
  obtain b where b: "evBoard e = Some b" using r(2) by blast
  have "CListen ann 0 [e] \<in> set (sysClients ?s)" "0 < playerNum (sysGm ?s) (plId ann)" using r(3) by (simp_all add: startSys_def)
  with connected_players_see_only_their_view[OF s this(1) _ b this(2)] s b show ?thesis
    by (intro exI[of _ ?s] exI[of _ ann] exI[of _ 0] exI[of _ "[e]"] exI[of _ e] exI[of _ b]) simp
qed

text \<open>C17. If no connection is about to end and the computer is not busy, the master returns to its
  \<open>select\<close> after as many steps as it has actions to carry out, and every handler that listens has got
  exactly the events for him, in their order.\<close>

theorem events_reach_all_listeners:
  assumes "sys_reachable s" "no_leave (sysClients s)" "SendTok \<in> set (sysActs s) \<longrightarrow> sysCpu s = CpuIdle"
  shows "\<exists>s'. (master_step ^^ length (sysActs s)) s s' \<and> sysActs s' = [] \<and> sysGm s' = sysGm s \<and>
    (\<forall>j < length (sysClients s). \<forall>p ch evs. sysClients s ! j = CListen p ch evs \<longrightarrow>
       sysClients s' ! j = CListen p ch (evs @ events_on ch (sysActs s)))"
  using drain[OF assms(1,2)] assms(3) by blast

theorem events_reach_all_listeners_witness:
  "\<exists>s s' p ch e evs. sys_reachable s \<and> (master_step ^^ length (sysActs s)) s s' \<and> sysActs s' = [] \<and> sysClients s' ! 0 = CListen p ch (e # evs)"
proof -
  obtain g0 where g: "gmPlayers g0 = []" "gmListeners g0 = []" "gmRmCancel g0 = []" "gmNext g0 = 0" "gm_reachable g0"
    "sys_reachable (startSys g0 [])" using sys_started[of False GameTypeFreeform "[]"] by blast
  obtain g e acts where r: "\<forall>a \<in> set acts. \<exists>e. a = SendEvent 0 e"
    "sys_reachable ((startSys g ([SendEvent 0 e] @ acts))\<lparr>sysClients := [CListen ann 0 []]\<rparr>)"
    by (rule first_player[OF g(5,6,2,3,1,4), where now = "[]"]) blast
  let ?s = "(startSys g ([SendEvent 0 e] @ acts))\<lparr>sysClients := [CListen ann 0 []]\<rparr>"
  have "SendTok \<notin> set (sysActs ?s)" using r(1) by (auto simp: startSys_def)
  then obtain s' where s': "(master_step ^^ length (sysActs ?s)) ?s s'" "sysActs s' = []"
    "sysClients ?s ! 0 = CListen ann 0 [] \<longrightarrow> sysClients s' ! 0 = CListen ann 0 ([] @ events_on 0 (sysActs ?s))"
    using events_reach_all_listeners[OF r(2)] by (auto simp: no_leave_def)
  have "events_on 0 (sysActs ?s) = e # events_on 0 acts" by (simp add: startSys_def)
  with s'(3) have "sysClients s' ! 0 = CListen ann 0 (e # events_on 0 acts)" by simp
  with r(2) s'(1,2) show ?thesis by blast
qed

end
