(* ===== verification/GoRunes.thy ===== *)
theory GoRunes
  imports GoStrings
begin

text \<open>
  Go's view of a string as a sequence of runes, which \<open>range\<close>, regular expressions and \<open>TrimSpace\<close> have:
  the UTF-8 decoder of \<open>unicode/utf8\<close>, which takes an invalid byte as U+FFFD, and the white space of
  \<open>unicode.IsSpace\<close>.
\<close>

section \<open>Decoding\<close>

definition byte :: "char \<Rightarrow> nat" where
  "byte c = of_char c"

definition cont :: "nat \<Rightarrow> bool" where
  "cont b \<longleftrightarrow> 128 \<le> b \<and> b < 192"

text \<open>The second byte that may follow a first byte of three or four.\<close>

definition second3 :: "nat \<Rightarrow> nat \<Rightarrow> bool" where
  "second3 b0 b1 \<longleftrightarrow> (if b0 = 224 then 160 \<le> b1 else 128 \<le> b1) \<and> (if b0 = 237 then b1 < 160 else b1 < 192)"

definition second4 :: "nat \<Rightarrow> nat \<Rightarrow> bool" where
  "second4 b0 b1 \<longleftrightarrow> (if b0 = 240 then 144 \<le> b1 else 128 \<le> b1) \<and> (if b0 = 244 then b1 < 144 else b1 < 192)"

definition RuneError :: nat where
  "RuneError = 65533"

text \<open>The first rune and its length in bytes.\<close>

definition DecodeRune :: "string \<Rightarrow> nat \<times> nat" where
  "DecodeRune s = (case map byte (take 4 s) of
     [] \<Rightarrow> (RuneError, 0)
   | b0 # bs \<Rightarrow>
       if b0 < 128 then (b0, 1)
       else (case bs of
         [] \<Rightarrow> (RuneError, 1)
       | b1 # bs \<Rightarrow>
           if 194 \<le> b0 \<and> b0 < 224 \<and> cont b1 then ((b0 - 192) * 64 + (b1 - 128), 2)
           else (case bs of
             [] \<Rightarrow> (RuneError, 1)
           | b2 # bs \<Rightarrow>
               if 224 \<le> b0 \<and> b0 < 240 \<and> second3 b0 b1 \<and> cont b2
               then (((b0 - 224) * 64 + (b1 - 128)) * 64 + (b2 - 128), 3)
               else (case bs of
                 [] \<Rightarrow> (RuneError, 1)
               | b3 # _ \<Rightarrow>
                   if 240 \<le> b0 \<and> b0 < 245 \<and> second4 b0 b1 \<and> cont b2 \<and> cont b3
                   then ((((b0 - 240) * 64 + (b1 - 128)) * 64 + (b2 - 128)) * 64 + (b3 - 128), 4)
                   else (RuneError, 1)))))"

lemma DecodeRune_width: "s \<noteq> [] \<Longrightarrow> 1 \<le> snd (DecodeRune s)"
  by (cases s) (auto simp: DecodeRune_def split: list.splits)

text \<open>The runes of a string, each with the bytes it comes from.\<close>

function pieces :: "string \<Rightarrow> (nat \<times> string) list" where
  "pieces s = (if s = [] then [] else
     (let (r, w) = DecodeRune s in (r, take w s) # pieces (drop w s)))"
  by auto

termination
proof (relation "measure length")
  fix s :: string and d r w
  assume "s \<noteq> []" "d = DecodeRune s" "(r, w) = d"
  then have "1 \<le> w" using DecodeRune_width[of s] by (metis snd_conv)
  with \<open>s \<noteq> []\<close> show "(drop w s, s) \<in> measure length" by (cases s) auto
qed simp

declare pieces.simps [simp del]

lemma pieces_Nil [simp]: "pieces [] = []"
  by (simp add: pieces.simps)

lemma pieces_ne: "s \<noteq> [] \<Longrightarrow> pieces s = (fst (DecodeRune s), take (snd (DecodeRune s)) s) # pieces (drop (snd (DecodeRune s)) s)"
  by (subst pieces.simps) (simp add: case_prod_beta Let_def)

text \<open>\<open>utf8.ValidString\<close>: no byte is decoded as an error. Characters below 128 are valid.\<close>

definition ValidString :: "string \<Rightarrow> bool" where
  "ValidString s \<longleftrightarrow> list_all (\<lambda>(r, bs). \<not> (r = RuneError \<and> length bs = 1)) (pieces s)"

lemma ValidString_Nil [simp]: "ValidString []"
  by (simp add: ValidString_def)

lemma ValidString_Cons: "byte c < 128 \<Longrightarrow> ValidString (c # s) \<longleftrightarrow> ValidString s"
  by (simp add: ValidString_def pieces_ne DecodeRune_def RuneError_def)

lemma ValidString_ascii: "\<forall>c \<in> set s. byte c < 128 \<Longrightarrow> ValidString s"
  by (induction s) (simp_all add: ValidString_Cons)


definition runes :: "string \<Rightarrow> nat list" where
  "runes s = map fst (pieces s)"

lemma concat_pieces: "concat (map snd (pieces s)) = s"
proof (induction s rule: pieces.induct)
  case (1 s)
  show ?case
  proof (cases "s = []")
    case False
    with 1[OF False refl prod.collapse] show ?thesis by (simp add: pieces_ne)
  qed simp
qed

text \<open>A byte below 128 is a rune of its own, wherever it stands.\<close>

lemma byte_ascii: "byte c < 128 \<Longrightarrow> DecodeRune (c # s) = (byte c, 1)"
  by (simp add: DecodeRune_def)

lemma DecodeRune_cover: "c \<in> set (take (snd (DecodeRune s)) s) \<Longrightarrow> byte c < 128 \<Longrightarrow> fst (DecodeRune s) = byte c"
  by (cases s; cases "tl s"; cases "tl (tl s)"; cases "tl (tl (tl s))")
    (auto simp: DecodeRune_def cont_def second3_def second4_def split: if_splits)

lemma ascii_is_rune: "c \<in> set s \<Longrightarrow> byte c < 128 \<Longrightarrow> byte c \<in> set (runes s)"
proof (induction s rule: pieces.induct)
  case (1 s)
  then have ne: "s \<noteq> []" by auto
  let ?w = "snd (DecodeRune s)"
  have "c \<in> set (take ?w s) \<or> c \<in> set (drop ?w s)" using 1(2) by (metis Un_iff append_take_drop_id set_append)
  then show ?case
  proof
    assume "c \<in> set (take ?w s)"
    with DecodeRune_cover 1(3) show ?thesis by (simp add: runes_def pieces_ne[OF ne])
  next
    assume "c \<in> set (drop ?w s)"
    with 1(1)[OF ne refl prod.collapse] 1(3) show ?thesis by (simp add: runes_def pieces_ne[OF ne])
  qed
qed

lemma pieces_ascii: "\<forall>c \<in> set s. byte c < 128 \<Longrightarrow> pieces s = map (\<lambda>c. (byte c, [c])) s"
  by (induction s) (simp_all add: pieces_ne byte_ascii)

section \<open>White space\<close>

definition IsSpace :: "nat \<Rightarrow> bool" where
  "IsSpace r \<longleftrightarrow> 9 \<le> r \<and> r \<le> 13 \<or> r \<in> {32, 133, 160, 5760, 8232, 8233, 8239, 8287, 12288} \<or> 8192 \<le> r \<and> r \<le> 8202"

definition TrimSpace :: "string \<Rightarrow> string" where
  "TrimSpace s = concat (map snd (rev (dropWhile (IsSpace \<circ> fst) (rev (dropWhile (IsSpace \<circ> fst) (pieces s))))))"

lemma TrimSpace_part: "\<exists>a b. s = a @ TrimSpace s @ b"
proof -
  let ?P = "IsSpace \<circ> fst" and ?ps = "pieces s"
  let ?d = "dropWhile ?P ?ps"
  have "?ps = takeWhile ?P ?ps @ ?d" by simp
  moreover have "?d = rev (dropWhile ?P (rev ?d)) @ rev (takeWhile ?P (rev ?d))"
    by (metis rev_append rev_rev_ident takeWhile_dropWhile_id)
  ultimately have "?ps = takeWhile ?P ?ps @ rev (dropWhile ?P (rev ?d)) @ rev (takeWhile ?P (rev ?d))" by metis
  then have "concat (map snd ?ps) = concat (map snd (takeWhile ?P ?ps)) @ TrimSpace s @ concat (map snd (rev (takeWhile ?P (rev ?d))))"
    unfolding TrimSpace_def by (metis concat_append map_append)
  then show ?thesis using concat_pieces by metis
qed

lemma length_TrimSpace: "length (TrimSpace s) \<le> length s"
  using TrimSpace_part[of s] by (metis le_add1 le_add2 le_trans length_append)

text \<open>A text without white space at its ends is left as it is.\<close>

lemma TrimSpace_id:
  assumes "pieces s = [] \<or> \<not> IsSpace (fst (hd (pieces s))) \<and> \<not> IsSpace (fst (last (pieces s)))"
  shows "TrimSpace s = s"
proof (cases "pieces s")
  case Nil
  then show ?thesis using concat_pieces[of s] by (simp add: TrimSpace_def)
next
  case (Cons p ps)
  then have "dropWhile (IsSpace \<circ> fst) (pieces s) = pieces s" using assms by simp
  moreover have "dropWhile (IsSpace \<circ> fst) (rev (pieces s)) = rev (pieces s)"
  proof -
    have "rev (pieces s) = last (pieces s) # rev (butlast (pieces s))" using Cons by (metis append_butlast_last_id list.discI rev_append rev_singleton_conv append_Cons append_Nil rev.simps(2) rev_rev_ident)
    then show ?thesis using assms Cons by (metis comp_apply dropWhile.simps(2) list.discI)
  qed
  ultimately show ?thesis using concat_pieces[of s] by (simp add: TrimSpace_def)
qed

end
