(* ===== verification/ServerState.thy ===== *)
theory ServerState
  imports GameMaster Stats GoRunes
begin

text \<open>
  The state of the server in \<open>hexz/server.go\<close>, struct \<open>Server\<close>: the ongoing games, the players that are
  logged in, the counters and the distributions, each a Go map guarded by a mutex of its own. Every
  method below holds the mutex for its whole body, so it is one step on the state. A map is an
  association list with distinct keys, whose order stands for the order of \<open>range\<close>. Points in time and
  durations are numbers of nanoseconds.
\<close>

section \<open>The state\<close>

record server_config =
  ServerAddress :: string
  ServerPort :: int
  DocumentRoot :: string
  PlayerRemoveDelay :: int
  LoginTtl :: int
  CompThinkTime :: int
  AuthTokenSha256 :: string
  TlsCertChain :: string
  TlsPrivKey :: string
  DebugMode :: bool

record game_handle =
  ghId :: string
  ghStarted :: int
  ghType :: game_type
  ghHost :: string
  ghSingle :: bool

record server =
  ongoingGames :: "(string \<times> game_handle) list"
  loggedInPlayers :: "(string \<times> player) list"
  srvConfig :: server_config
  counters :: "(string \<times> counter) list"
  distrib :: "(string \<times> distribution) list"
  srvStarted :: int

section \<open>Counters and distributions\<close>

definition Counter :: "string \<Rightarrow> server \<Rightarrow> counter \<times> server" where
  "Counter name s = (case map_of (counters s) name of
     Some c \<Rightarrow> (c, s)
   | None \<Rightarrow> (let c = NewCounter name in (c, s\<lparr>counters := AList.update name c (counters s)\<rparr>)))"

definition IncCounter_server :: "string \<Rightarrow> server \<Rightarrow> server" where
  "IncCounter_server name s = (case Counter name s of (c, s) \<Rightarrow>
     s\<lparr>counters := AList.update name (Increment c) (counters s)\<rparr>)"

definition AddDistribution :: "string \<Rightarrow> real list \<Rightarrow> server \<Rightarrow> string + server" where
  "AddDistribution name bounds s = (if map_of (distrib s) name \<noteq> None
     then Inl (''distribution '' @ name @ '' already exists'')
     else (case NewDistribution name bounds of
        Inl e \<Rightarrow> Inl e
      | Inr d \<Rightarrow> Inr (s\<lparr>distrib := AList.update name d (distrib s)\<rparr>)))"

definition AddDistribValue :: "string \<Rightarrow> real \<Rightarrow> server \<Rightarrow> (server \<times> bool) option" where
  "AddDistribValue name v s = (case map_of (distrib s) name of
     None \<Rightarrow> Some (s, False)
   | Some d \<Rightarrow> map_option (\<lambda>d. (s\<lparr>distrib := AList.update name d (distrib s)\<rparr>, True)) (Distribution_Add v d))"

text \<open>\<open>InitCounters\<close>; an error panics.\<close>

definition checkedAdd :: "string \<Rightarrow> real list option \<Rightarrow> server \<Rightarrow> server option" where
  "checkedAdd name bounds s = do {
     bs \<leftarrow> bounds;
     (case AddDistribution name bs s of Inl e \<Rightarrow> None | Inr s \<Rightarrow> Some s)
   }"

definition InitCounters :: "server \<Rightarrow> server option" where
  "InitCounters s = (let name = (\<lambda>what. ''/games/'' @ game_type_name GameTypeFlagz @ ''/mcts/'' @ what) in do {
     s \<leftarrow> checkedAdd (name ''elapsed'') (DistribRange (1 / 1000) (60 * 60) (11 / 10)) s;
     s \<leftarrow> checkedAdd (name ''iterations'') (DistribRange 1 1000000000 (12 / 10)) s;
     s \<leftarrow> checkedAdd (name ''tree_size'') (DistribRange 1 1000000000 (12 / 10)) s;
     checkedAdd (name ''iterations_per_sec'') (DistribRange 1 1000000 (11 / 10)) s
   })"

definition NewServer :: "server_config \<Rightarrow> int \<Rightarrow> server option" where
  "NewServer cfg now = InitCounters \<lparr>ongoingGames = [], loggedInPlayers = [], srvConfig = cfg, counters = [],
     distrib = [], srvStarted = now\<rparr>"

section \<open>Players\<close>

definition maxLoggedInPlayers :: nat where
  "maxLoggedInPlayers = 10000"

definition lookupPlayer :: "string \<Rightarrow> int \<Rightarrow> server \<Rightarrow> player option \<times> server" where
  "lookupPlayer i now s = (case map_of (loggedInPlayers s) i of
     None \<Rightarrow> (None, s)
   | Some p \<Rightarrow> (let p = p\<lparr>plLastActive := now\<rparr>
                in (Some p, s\<lparr>loggedInPlayers := AList.update i p (loggedInPlayers s)\<rparr>)))"

definition loginPlayer :: "string \<Rightarrow> string \<Rightarrow> int \<Rightarrow> server \<Rightarrow> bool \<times> server" where
  "loginPlayer i name now s =
    (if length (loggedInPlayers s) > maxLoggedInPlayers then (False, s)
     else (let p = \<lparr>plId = i, plName = name, plLastActive = now\<rparr>
           in (True, s\<lparr>loggedInPlayers := AList.update i p (loggedInPlayers s)\<rparr>)))"

text \<open>\<open>loadUserDatabase\<close>, given the players that could be decoded, if the file could be opened.\<close>

definition loadUserDatabase :: "player list option \<Rightarrow> server \<Rightarrow> server" where
  "loadUserDatabase db s = (case db of
     None \<Rightarrow> s
   | Some ps \<Rightarrow> fold (\<lambda>p s. if map_of (loggedInPlayers s) (plId p) = None
       then s\<lparr>loggedInPlayers := AList.update (plId p) p (loggedInPlayers s)\<rparr> else s) ps s)"

definition maintenancePeriod :: "server_config \<Rightarrow> int" where
  "maintenancePeriod c = (if DebugMode c then 5 * 1000000000 else 5 * 60 * 1000000000)"

text \<open>One round of \<open>updateLoggedInPlayers\<close> holds the lock twice. The first time, at \<open>now\<close>, it logs out
  the players that have been inactive; \<open>True\<close> is returned if there were any, or if another one has been seen
  since the last round. Then the lock is released, so that other requests are served.\<close>

definition logoutInactive :: "int \<Rightarrow> int \<Rightarrow> server \<Rightarrow> server \<times> bool" where
  "logoutInactive now lastIteration s =
    (let logoutThresh = now - LoginTtl (srvConfig s);
         players = map snd (loggedInPlayers s);
         del = filter (\<lambda>p. plLastActive p < logoutThresh) players;
         activity = list_ex (\<lambda>p. \<not> plLastActive p < logoutThresh \<and> lastIteration < plLastActive p) players
     in (s\<lparr>loggedInPlayers := fold (\<lambda>p. AList.delete (plId p)) del (loggedInPlayers s)\<rparr>,
         activity \<or> length del > 0))"

text \<open>The players written to the file, and the state; \<open>created\<close> says that the file could be created.\<close>

definition saveUserDatabase :: "bool \<Rightarrow> player list \<Rightarrow> server \<Rightarrow> player list option \<times> server" where
  "saveUserDatabase created players s =
    (if created then (Some players, IncCounter_server ''/storage/userdb/saved'' s) else (None, s))"

text \<open>The second part of the round, in the state \<open>s\<close> in which the lock is held again: the players that
  are then logged in are copied, and saved.\<close>

definition saveIfChanged :: "bool \<Rightarrow> bool \<Rightarrow> server \<Rightarrow> player list option \<times> server" where
  "saveIfChanged created changed s =
    (if changed then let players = map snd (loggedInPlayers s) in saveUserDatabase created players s
     else (None, s))"

section \<open>Games\<close>

text \<open>\<open>generateGameId\<close>: six letters drawn from the alphabet.\<close>

definition alphabet :: string where
  "alphabet = ''ABCDEFGHIJKLMNOPQRSTUVWXYZ''"

primrec gameIdLoop :: "nat \<Rightarrow> string \<Rightarrow> rng \<Rightarrow> (string \<times> rng) option" where
  "gameIdLoop 0 b r = Some (b, r)"
| "gameIdLoop (Suc n) b r = do {
     (k, r) \<leftarrow> Intn (int (length alphabet)) r;
     c \<leftarrow> idx_list alphabet k;
     gameIdLoop n (b @ [c]) r
   }"

definition generateGameId :: "rng \<Rightarrow> (string \<times> rng) option" where
  "generateGameId r = gameIdLoop 6 [] r"

text \<open>\<open>startNewGame\<close>, with the number of attempts left.\<close>

primrec startLoop :: "nat \<Rightarrow> string \<Rightarrow> game_type \<Rightarrow> bool \<Rightarrow> int \<Rightarrow> rng \<Rightarrow> server \<Rightarrow> ((string + game_handle) \<times> server) option" where
  "startLoop 0 host t single now r s = Some (Inl ''cannot start a new game'', s)"
| "startLoop (Suc n) host t single now r s = do {
     (i, r) \<leftarrow> generateGameId r;
     if map_of (ongoingGames s) i = None
     then (let game = \<lparr>ghId = i, ghStarted = now, ghType = t, ghHost = host, ghSingle = single\<rparr>
           in Some (Inr game, s\<lparr>ongoingGames := AList.update i game (ongoingGames s)\<rparr>))
     else startLoop n host t single now r s
   }"

definition startNewGame :: "string \<Rightarrow> game_type \<Rightarrow> bool \<Rightarrow> int \<Rightarrow> rng \<Rightarrow> server \<Rightarrow> ((string + game_handle) \<times> server) option" where
  "startNewGame host t single now r s = startLoop 100 host t single now r s"

definition deleteGame :: "string \<Rightarrow> server \<Rightarrow> server" where
  "deleteGame i s = s\<lparr>ongoingGames := AList.delete i (ongoingGames s)\<rparr>"

definition lookupGame :: "string \<Rightarrow> server \<Rightarrow> game_handle option" where
  "lookupGame i s = map_of (ongoingGames s) i"

record game_info =
  giId :: string
  giHost :: string
  giStarted :: int
  giType :: game_type

definition gameInfo :: "game_handle \<Rightarrow> game_info" where
  "gameInfo g = \<lparr>giId = ghId g, giHost = ghHost g, giStarted = ghStarted g, giType = ghType g\<rparr>"

definition listRecentGames :: "nat \<Rightarrow> server \<Rightarrow> game_info list" where
  "listRecentGames limit s =
    (let gameInfos = sortSlice (\<lambda>a b. giStarted b < giStarted a) (map (\<lambda>(i, g). gameInfo g) (ongoingGames s));
         limit = (if limit > length gameInfos then length gameInfos else limit)
     in take limit gameInfos)"

section \<open>Status\<close>

record statusz_bucket =
  sbLower :: bound
  sbUpper :: bound
  sbCount :: "64 word"

record statusz_distrib =
  sdName :: string
  sdBuckets :: "statusz_bucket list"

record statusz =
  szGames :: nat
  szPlayers :: nat
  szCounters :: "counter list"
  szDistribs :: "statusz_distrib list"

text \<open>A bucket of the report; \<open>None\<close> for an index out of range.\<close>

definition statuszBucket :: "distribution \<Rightarrow> nat \<Rightarrow> statusz_bucket option" where
  "statuszBucket d j = do {
     n \<leftarrow> idx_list (dCounts d) (int j);
     if j = 0 then do {
       u \<leftarrow> idx_list (dBounds d) (int j);
       Some \<lparr>sbLower = NegInf, sbUpper = Num u, sbCount = n\<rparr>
     } else if j = length (dCounts d) - 1 then do {
       l \<leftarrow> idx_list (dBounds d) (int j - 1);
       Some \<lparr>sbLower = Num l, sbUpper = PosInf, sbCount = n\<rparr>
     } else do {
       l \<leftarrow> idx_list (dBounds d) (int j - 1);
       u \<leftarrow> idx_list (dBounds d) (int j);
       Some \<lparr>sbLower = Num l, sbUpper = Num u, sbCount = n\<rparr>
     }
   }"

definition statuszDistrib :: "distribution \<Rightarrow> statusz_distrib option" where
  "statuszDistrib d = do {
     bs \<leftarrow> those (map (statuszBucket d) (filter (\<lambda>j. dCounts d ! j \<noteq> 0) [0..<length (dCounts d)]));
     Some \<lparr>sdName = dName d, sdBuckets = bs\<rparr>
   }"

definition statuszResponse :: "server \<Rightarrow> statusz option" where
  "statuszResponse s = do {
     ds \<leftarrow> those (map (statuszDistrib \<circ> Distribution_Copy \<circ> snd) (distrib s));
     Some \<lparr>szGames = length (ongoingGames s), szPlayers = length (loggedInPlayers s),
       szCounters = sortSlice (\<lambda>a b. ctName a < ctName b) (map snd (counters s)),
       szDistribs = sortSlice (\<lambda>a b. sdName a < sdName b) ds\<rparr>
   }"

text \<open>\<open>encoding/json\<close> refuses a number that is not finite, and the handler then panics.\<close>

definition jsonFloat :: "bound \<Rightarrow> bool" where
  "jsonFloat b \<longleftrightarrow> b \<noteq> NegInf \<and> b \<noteq> PosInf"

definition jsonStatusz :: "statusz \<Rightarrow> bool" where
  "jsonStatusz r \<longleftrightarrow> (\<forall>d \<in> set (szDistribs r). \<forall>b \<in> set (sdBuckets d). jsonFloat (sbLower b) \<and> jsonFloat (sbUpper b))"

definition handleStatusz :: "server \<Rightarrow> statusz option" where
  "handleStatusz s = do { resp \<leftarrow> statuszResponse s; if jsonStatusz resp then Some resp else None }"

end
