(* ===== verification/ServerInv.thy ===== *)
theory ServerInv
  imports ServerState
begin

text \<open>
  The invariant of the server's state and the states it can reach: the maps are keyed by the id or name
  of what they hold, every distribution has the buckets of its bounds, and no more players are logged
  in than the limit allows.
\<close>

section \<open>Maps\<close>

text \<open>A Go map from the key of its values.\<close>

definition keyed :: "('v \<Rightarrow> string) \<Rightarrow> (string \<times> 'v) list \<Rightarrow> bool" where
  "keyed key al \<longleftrightarrow> distinct (map fst al) \<and> (\<forall>(k, v) \<in> set al. key v = k)"

lemma delete_set_subset: "set (AList.delete k al) \<subseteq> set al"
  by (induction al) auto

lemma set_update_al: "set (AList.update k v al) \<subseteq> insert (k, v) (set al)"
  by (induction al) auto

lemma keyed_Nil [simp]: "keyed key []"
  by (simp add: keyed_def)

lemma keyed_update: "keyed key al \<Longrightarrow> key v = k \<Longrightarrow> keyed key (AList.update k v al)"
  using set_update_al[of k v al] by (fastforce simp: keyed_def distinct_update)

lemma keyed_delete: "keyed key al \<Longrightarrow> keyed key (AList.delete k al)"
  using delete_set_subset[of k al] by (auto simp: keyed_def distinct_delete)

lemma keyed_lookup: "keyed key al \<Longrightarrow> map_of al k = Some v \<Longrightarrow> key v = k"
  by (auto simp: keyed_def dest: map_of_SomeD)

lemma keyed_mem: "keyed key al \<Longrightarrow> (k, v) \<in> set al \<longleftrightarrow> map_of al k = Some v"
  by (simp add: keyed_def)

lemma keyed_values: "keyed key al \<Longrightarrow> v \<in> set (map snd al) \<longleftrightarrow> map_of al (key v) = Some v"
  using keyed_mem[of key al] by (force simp: keyed_def)

lemma keyed_perm: "keyed key al \<Longrightarrow> mset bl = mset al \<Longrightarrow> keyed key bl"
  by (metis keyed_def mset_eq_imp_distinct_iff mset_map set_mset_mset)

lemma length_update: "length (AList.update k v al) = (if map_of al k = None then Suc (length al) else length al)"
  by (induction al) auto

section \<open>The invariant\<close>

definition dist_ok :: "distribution \<Rightarrow> bool" where
  "dist_ok d \<longleftrightarrow> dBounds d \<noteq> [] \<and> sorted_wrt (<) (dBounds d) \<and> (\<exists>vs. holds (dBounds d) vs d)"

definition server_ok :: "server \<Rightarrow> bool" where
  "server_ok s \<longleftrightarrow> keyed ghId (ongoingGames s) \<and> keyed plId (loggedInPlayers s) \<and> keyed ctName (counters s) \<and>
     keyed dName (distrib s) \<and> (\<forall>(k, d) \<in> set (distrib s). dist_ok d) \<and>
     length (loggedInPlayers s) \<le> Suc maxLoggedInPlayers"

lemma server_okD:
  assumes "server_ok s"
  shows "keyed ghId (ongoingGames s)" "keyed plId (loggedInPlayers s)" "keyed ctName (counters s)"
    "keyed dName (distrib s)" "(k, d) \<in> set (distrib s) \<Longrightarrow> dist_ok d"
    "length (loggedInPlayers s) \<le> Suc maxLoggedInPlayers"
  using assms by (auto simp: server_ok_def)

lemma NewDistribution_ok:
  assumes "bs \<noteq> []" "sorted_wrt (<) bs"
  shows "\<exists>d. NewDistribution name bs = Inr d \<and> dist_ok d \<and> dName d = name \<and> dBounds d = bs \<and> holds bs [] d"
proof -
  obtain d where d: "NewDistribution name bs = Inr d" using assms by (simp add: NewDistribution_def boundsIncrease_iff)
  then show ?thesis using holds_new[OF d] assms by (auto simp: dist_ok_def holds_def)
qed

lemma Add_dist_ok:
  assumes "dist_ok d"
  shows "\<exists>d'. Distribution_Add v d = Some d' \<and> dist_ok d' \<and> dName d' = dName d \<and> dBounds d' = dBounds d"
proof -
  obtain vs where vs: "holds (dBounds d) vs d" using assms by (auto simp: dist_ok_def)
  from Distribution_Add_ok[OF _ vs, of v] assms obtain d' where
    "Distribution_Add v d = Some d'" "holds (dBounds d) (vs @ [v]) d'" "dName d' = dName d" by (auto simp: dist_ok_def)
  with assms show ?thesis by (auto simp: dist_ok_def holds_def)
qed

section \<open>Every operation keeps it\<close>

lemma IncCounter_eq: "IncCounter_server n s = s\<lparr>counters := AList.update n
    (Increment (case map_of (counters s) n of None \<Rightarrow> NewCounter n | Some c \<Rightarrow> c)) (counters s)\<rparr>"
proof -
  have "AList.update n v (AList.update n w al) = AList.update n v al" for v w :: counter and al
    by (induction al) auto
  then show ?thesis by (simp add: IncCounter_server_def Counter_def Let_def split: option.split)
qed

lemma IncCounter_ok: "server_ok s \<Longrightarrow> server_ok (IncCounter_server n s)"
  by (auto simp: IncCounter_eq server_ok_def Increment_def NewCounter_def split: option.split
      intro!: keyed_update dest: keyed_lookup)

lemma IncCounter_other [simp]:
  "ongoingGames (IncCounter_server n s) = ongoingGames s" "loggedInPlayers (IncCounter_server n s) = loggedInPlayers s"
  "distrib (IncCounter_server n s) = distrib s" "srvConfig (IncCounter_server n s) = srvConfig s"
  by (simp_all add: IncCounter_eq)

lemma AddDistribution_ok:
  assumes "server_ok s" "map_of (distrib s) name = None" "bs \<noteq> []" "sorted_wrt (<) bs"
  shows "\<exists>d s'. AddDistribution name bs s = Inr s' \<and> s' = s\<lparr>distrib := AList.update name d (distrib s)\<rparr> \<and> server_ok s' \<and>
    dBounds d = bs \<and> holds bs [] d"
proof -
  obtain d where d: "NewDistribution name bs = Inr d" "dist_ok d" "dName d = name" "dBounds d = bs" "holds bs [] d"
    using NewDistribution_ok[OF assms(3,4)] by blast
  have "server_ok (s\<lparr>distrib := AList.update name d (distrib s)\<rparr>)"
    using assms(1) d set_update_al[of name d "distrib s"] by (fastforce simp: server_ok_def intro!: keyed_update)
  with d assms(2) show ?thesis by (auto simp: AddDistribution_def)
qed

lemma AddDistribValue_ok:
  assumes "server_ok s"
  shows "\<exists>r. AddDistribValue name v s = Some r \<and> server_ok (fst r)"
proof (cases "map_of (distrib s) name")
  case None
  with assms show ?thesis by (simp add: AddDistribValue_def)
next
  case (Some d)
  then have mem: "(name, d) \<in> set (distrib s)" by (rule map_of_SomeD)
  then have "dist_ok d" "dName d = name" using assms server_okD(4,5) keyed_lookup[OF _ Some] by blast+
  with Add_dist_ok obtain d' where d': "Distribution_Add v d = Some d'" "dist_ok d'" "dName d' = name" by metis
  have "server_ok (s\<lparr>distrib := AList.update name d' (distrib s)\<rparr>)"
    using assms d' set_update_al[of name d' "distrib s"] by (fastforce simp: server_ok_def intro!: keyed_update)
  with Some d' show ?thesis by (simp add: AddDistribValue_def)
qed

lemma lookupPlayer_ok: "server_ok s \<Longrightarrow> server_ok (snd (lookupPlayer i now s))"
  by (auto simp: lookupPlayer_def server_ok_def Let_def length_update split: option.split
      intro!: keyed_update dest: keyed_lookup)

lemma loginPlayer_ok: "server_ok s \<Longrightarrow> server_ok (snd (loginPlayer i name now s))"
  by (auto simp: loginPlayer_def server_ok_def Let_def length_update intro!: keyed_update)

lemma fold_delete_players:
  assumes "keyed plId al"
  shows "keyed plId (fold (\<lambda>p. AList.delete (plId p)) del al) \<and> length (fold (\<lambda>p. AList.delete (plId p)) del al) \<le> length al \<and>
    map_of (fold (\<lambda>p. AList.delete (plId p)) del al) i = (if i \<in> plId ` set del then None else map_of al i)"
  using assms
proof (induction del arbitrary: al)
  case (Cons p del)
  from Cons.IH[OF keyed_delete[OF Cons.prems, of "plId p"]] length_delete_le[of "plId p" al] show ?case
    by (auto simp: delete_conv')
qed simp

lemma logoutInactive_players:
  "loggedInPlayers (fst (logoutInactive now prev s)) = fold (\<lambda>p. AList.delete (plId p))
     (filter (\<lambda>p. plLastActive p < now - LoginTtl (srvConfig s)) (map snd (loggedInPlayers s))) (loggedInPlayers s)"
  by (simp add: logoutInactive_def Let_def)

lemma logoutInactive_ok:
  assumes "server_ok s"
  shows "server_ok (fst (logoutInactive now prev s))"
  using assms fold_delete_players[OF server_okD(2)[OF assms]]
  by (fastforce simp: server_ok_def logoutInactive_def Let_def)

lemma saveIfChanged_state:
  "snd (saveIfChanged created changed s) =
    (if changed \<and> created then IncCounter_server ''/storage/userdb/saved'' s else s)"
  by (simp add: saveIfChanged_def saveUserDatabase_def Let_def)

lemma saveIfChanged_ok: "server_ok s \<Longrightarrow> server_ok (snd (saveIfChanged created changed s))"
  by (simp add: saveIfChanged_state IncCounter_ok)

lemma loadUserDatabase_keyed:
  "keyed plId (loggedInPlayers s) \<Longrightarrow> keyed plId (loggedInPlayers (loadUserDatabase (Some ps) s)) \<and>
    length (loggedInPlayers (loadUserDatabase (Some ps) s)) \<le> length (loggedInPlayers s) + length ps \<and>
    loadUserDatabase (Some ps) s = s\<lparr>loggedInPlayers := loggedInPlayers (loadUserDatabase (Some ps) s)\<rparr>"
proof (induction ps arbitrary: s)
  case (Cons p ps)
  let ?s = "if map_of (loggedInPlayers s) (plId p) = None
      then s\<lparr>loggedInPlayers := AList.update (plId p) p (loggedInPlayers s)\<rparr> else s"
  have "keyed plId (loggedInPlayers ?s)" using Cons.prems keyed_update[of plId _ p] by simp
  from Cons.IH[OF this] show ?case by (auto simp: loadUserDatabase_def length_update split: if_splits)
qed (simp add: loadUserDatabase_def)

text \<open>Loading the list of players of a keyed map into an empty server gives back the map.\<close>

lemma loadUserDatabase_cons:
  "loadUserDatabase (Some (p # ps)) s = loadUserDatabase (Some ps)
     (if map_of (loggedInPlayers s) (plId p) = None
      then s\<lparr>loggedInPlayers := AList.update (plId p) p (loggedInPlayers s)\<rparr> else s)"
  by (simp add: loadUserDatabase_def)

lemma loadUserDatabase_map:
  "keyed plId al \<Longrightarrow> map_of (loggedInPlayers (loadUserDatabase (Some (map snd al)) s)) =
     map_of al ++ map_of (loggedInPlayers s)"
proof (induction al arbitrary: s)
  case (Cons e al)
  obtain k p where e: "e = (k, p)" by (cases e)
  with Cons.prems have kp: "keyed plId al" "plId p = k" "map_of al k = None"
    by (auto simp: keyed_def map_of_eq_None_iff)
  show ?case
  proof
    fix j
    show "map_of (loggedInPlayers (loadUserDatabase (Some (map snd (e # al))) s)) j =
        (map_of (e # al) ++ map_of (loggedInPlayers s)) j"
      using kp Cons.IH[OF kp(1)]
      by (cases "j = k") (auto simp: e loadUserDatabase_cons map_add_def update_conv' split: option.splits)
  qed
qed (simp add: loadUserDatabase_def)

lemma gameIdLoop_ok:
  "\<exists>i r'. gameIdLoop n b r = Some (i, r') \<and> length i = length b + n \<and> set i \<subseteq> set b \<union> set alphabet"
proof (induction n arbitrary: b r)
  case (Suc n)
  obtain k r1 where k: "Intn (int (length alphabet)) r = Some (k, r1)" "0 \<le> k" "k < int (length alphabet)"
    using Intn_Some[of "int (length alphabet)" r] by (auto simp: alphabet_def)
  from Suc[of "b @ [alphabet ! nat k]" r1] obtain i r' where
    "gameIdLoop n (b @ [alphabet ! nat k]) r1 = Some (i, r')" "length i = length b + Suc n"
    "set i \<subseteq> set (b @ [alphabet ! nat k]) \<union> set alphabet" by auto
  moreover have "alphabet ! nat k \<in> set alphabet" using k(2,3) by (intro nth_mem) linarith
  ultimately show ?case using k by (auto simp: go_simps)
qed simp

lemma generateGameId_ok: "\<exists>i r'. generateGameId r = Some (i, r') \<and> length i = 6 \<and> set i \<subseteq> set alphabet"
  using gameIdLoop_ok[of 6 "[]" r] by (simp add: generateGameId_def)

lemma startLoop_ok:
  assumes "server_ok s"
  shows "\<exists>g s'. startLoop n host t single now r s = Some (g, s') \<and> server_ok s' \<and>
    (case g of Inl e \<Rightarrow> s' = s
     | Inr h \<Rightarrow> map_of (ongoingGames s) (ghId h) = None \<and> length (ghId h) = 6 \<and> set (ghId h) \<subseteq> set alphabet \<and>
        h = \<lparr>ghId = ghId h, ghStarted = now, ghType = t, ghHost = host, ghSingle = single\<rparr> \<and>
        s' = s\<lparr>ongoingGames := AList.update (ghId h) h (ongoingGames s)\<rparr>)"
proof (induction n arbitrary: r)
  case (Suc n)
  obtain i r1 where i: "generateGameId r = Some (i, r1)" "length i = 6" "set i \<subseteq> set alphabet"
    using generateGameId_ok by blast
  show ?case
  proof (cases "map_of (ongoingGames s) i")
    case None
    let ?h = "\<lparr>ghId = i, ghStarted = now, ghType = t, ghHost = host, ghSingle = single\<rparr>"
    have "server_ok (s\<lparr>ongoingGames := AList.update i ?h (ongoingGames s)\<rparr>)"
      using assms by (auto simp: server_ok_def intro!: keyed_update)
    with None i show ?thesis by (intro exI[of _ "Inr ?h"]) (simp add: Let_def)
  next
    case (Some h)
    with Suc[of r1] i show ?thesis by simp
  qed
qed (use assms in simp)

lemma deleteGame_ok: "server_ok s \<Longrightarrow> server_ok (deleteGame i s)"
  by (auto simp: deleteGame_def server_ok_def intro: keyed_delete)

end
