(* ===== verification/GoNumbers.thy ===== *)
theory GoNumbers
  imports GoStrings "HOL-Library.Log_Nat"
begin

text \<open>
  Numbers as the programs print and round them: \<open>%d\<close> and \<open>float64\<close>.
\<close>

text \<open>\<open>%d\<close>\<close>

definition showInt :: "int \<Rightarrow> string" where
  "showInt i = (if i < 0 then ''-'' @ digits (nat (- i)) else digits (nat i))"

text \<open>A number that is not negative, rounded to an integer: the nearest, the even one if there are two.
  \<open>float64\<close> rounds to 53 significant bits, for numbers that are neither too small nor too large for an
  exponent.\<close>

definition roundEven :: "rat \<Rightarrow> nat" where
  "roundEven x = (let k = nat \<lfloor>x\<rfloor>; d = x - of_nat k in if d > 1 / 2 \<or> d = 1 / 2 \<and> odd k then k + 1 else k)"

definition pow2 :: "int \<Rightarrow> rat" where
  "pow2 e = (if 0 \<le> e then 2 ^ nat e else 1 / 2 ^ nat (- e))"

definition float64 :: "rat \<Rightarrow> rat" where
  "float64 x = (if x \<le> 0 then 0
     else (let (n, d) = quotient_of x;
               e = int (floorlog 2 (nat n)) - int (floorlog 2 (nat d));
               s = (if x < pow2 e then e - 1 else e) - 52
           in of_nat (roundEven (x / pow2 s)) * pow2 s))"

text \<open>The rounding of \<open>%.1f\<close>.\<close>

definition tenths :: "rat \<Rightarrow> nat" where
  "tenths b = roundEven (b * 10)"

definition showTenths :: "rat \<Rightarrow> string" where
  "showTenths b = digits (tenths b div 10) @ ''.'' @ digits (tenths b mod 10)"

end
