(* ===== verification/GoFlag.thy ===== *)
theory GoFlag
  imports GoNumbers
begin

text \<open>
  What the programs use of Go's packages \<open>strconv\<close>, \<open>time\<close> and \<open>flag\<close>: numbers and durations as they are
  written on a command line, and \<open>FlagSet.Parse\<close>.
\<close>

section \<open>Numbers\<close>

definition ParseBool :: "string \<Rightarrow> bool option" where
  "ParseBool v = (if v \<in> set [''1'', ''t'', ''T'', ''TRUE'', ''true'', ''True''] then Some True
     else if v \<in> set [''0'', ''f'', ''F'', ''FALSE'', ''false'', ''False''] then Some False else None)"

datatype num_error = ErrSyntax | ErrRange

definition isDigit :: "char \<Rightarrow> bool" where
  "isDigit c \<longleftrightarrow> 48 \<le> (of_char c :: nat) \<and> (of_char c :: nat) \<le> 57"

definition digitVal :: "char \<Rightarrow> nat option" where
  "digitVal c = (let n = of_char c :: nat in
     if isDigit c then Some (n - 48)
     else if 97 \<le> n \<and> n \<le> 122 then Some (n - 87)
     else if 65 \<le> n \<and> n \<le> 90 then Some (n - 55) else None)"

text \<open>\<open>ParseUint\<close> for base 0 and 64 bits: the prefix says the base, an underscore may separate digits.\<close>

fun parseDigits :: "nat \<Rightarrow> string \<Rightarrow> nat \<Rightarrow> num_error + nat" where
  "parseDigits b [] n = Inr n"
| "parseDigits b (c # cs) n = (if c = CHR ''_'' then parseDigits b cs n
     else (case digitVal c of
       None \<Rightarrow> Inl ErrSyntax
     | Some d \<Rightarrow> if d \<ge> b then Inl ErrSyntax
         else if n * b + d \<ge> 2 ^ 64 then Inl ErrRange else parseDigits b cs (n * b + d)))"

definition basePrefix :: "string \<Rightarrow> nat \<times> string" where
  "basePrefix s = (if s \<noteq> [] \<and> s ! 0 = CHR ''0'' then
       (if length s \<ge> 3 \<and> s ! 1 \<in> set ''bB'' then (2, drop 2 s)
        else if length s \<ge> 3 \<and> s ! 1 \<in> set ''oO'' then (8, drop 2 s)
        else if length s \<ge> 3 \<and> s ! 1 \<in> set ''xX'' then (16, drop 2 s)
        else (8, drop 1 s))
     else (10, s))"

datatype saw = SawStart | SawDigit | SawUnderscore | SawOther

fun underscoreFrom :: "bool \<Rightarrow> saw \<Rightarrow> string \<Rightarrow> bool" where
  "underscoreFrom hex i [] \<longleftrightarrow> i \<noteq> SawUnderscore"
| "underscoreFrom hex i (c # cs) \<longleftrightarrow>
    (if isDigit c \<or> hex \<and> c \<in> set ''abcdefABCDEF'' then underscoreFrom hex SawDigit cs
     else if c = CHR ''_'' then i = SawDigit \<and> underscoreFrom hex SawUnderscore cs
     else i \<noteq> SawUnderscore \<and> underscoreFrom hex SawOther cs)"

definition underscoreOK :: "string \<Rightarrow> bool" where
  "underscoreOK s = (let t = (if s \<noteq> [] \<and> s ! 0 \<in> set ''+-'' then drop 1 s else s) in
     if length t \<ge> 2 \<and> t ! 0 = CHR ''0'' \<and> t ! 1 \<in> set ''bBoOxX''
     then underscoreFrom (t ! 1 \<in> set ''xX'') SawDigit (drop 2 t) else underscoreFrom False SawStart t)"

definition ParseUint :: "string \<Rightarrow> num_error + nat" where
  "ParseUint s = (if s = [] then Inl ErrSyntax
     else (case basePrefix s of (b, r) \<Rightarrow> (case parseDigits b r 0 of
       Inl e \<Rightarrow> Inl e
     | Inr n \<Rightarrow> if CHR ''_'' \<in> set r \<and> \<not> underscoreOK s then Inl ErrSyntax else Inr n)))"

definition ParseInt :: "string \<Rightarrow> num_error + int" where
  "ParseInt s = (if s = [] then Inl ErrSyntax
     else (let neg = (s ! 0 = CHR ''-''); r = (if s ! 0 \<in> set ''+-'' then drop 1 s else s) in
       (case ParseUint r of
          Inl e \<Rightarrow> Inl e
        | Inr un \<Rightarrow> if \<not> neg \<and> un \<ge> 2 ^ 63 \<or> neg \<and> un > 2 ^ 63 then Inl ErrRange
            else Inr (if neg then - int un else int un))))"

section \<open>Durations\<close>

text \<open>\<open>leadingInt\<close>, whose overflow is \<open>None\<close>, and \<open>leadingFraction\<close>, which drops the digits that do not fit.\<close>

fun leadingInt :: "string \<Rightarrow> nat \<Rightarrow> (nat \<times> string) option" where
  "leadingInt [] x = Some (x, [])"
| "leadingInt (c # cs) x = (if \<not> isDigit c then Some (x, c # cs)
     else if x > 2 ^ 63 div 10 then None
     else (let x' = x * 10 + (of_char c - 48) in if x' > 2 ^ 63 then None else leadingInt cs x'))"

fun leadingFraction :: "string \<Rightarrow> nat \<Rightarrow> rat \<Rightarrow> bool \<Rightarrow> nat \<times> rat \<times> string" where
  "leadingFraction [] x scale overflow = (x, scale, [])"
| "leadingFraction (c # cs) x scale overflow = (if \<not> isDigit c then (x, scale, c # cs)
     else if overflow \<or> x > (2 ^ 63 - 1) div 10 then leadingFraction cs x scale True
     else (let y = x * 10 + (of_char c - 48) in
       if y > 2 ^ 63 then leadingFraction cs x scale True else leadingFraction cs y (float64 (scale * 10)) False))"

text \<open>The units in nanoseconds; the micro sign has two codes.\<close>

definition unitMap :: "(string \<times> nat) list" where
  "unitMap = [(''ns'', 1), (''us'', 10 ^ 3), ([CHR 0xC2, CHR 0xB5, CHR ''s''], 10 ^ 3), ([CHR 0xCE, CHR 0xBC, CHR ''s''], 10 ^ 3),
     (''ms'', 10 ^ 6), (''s'', 10 ^ 9), (''m'', 60 * 10 ^ 9), (''h'', 3600 * 10 ^ 9)]"

definition inUnit :: "char \<Rightarrow> bool" where
  "inUnit c \<longleftrightarrow> c \<noteq> CHR ''.'' \<and> \<not> isDigit c"

text \<open>One number with its unit, as \<open>uint64\<close>, and what is left.\<close>

definition durationPart :: "string \<Rightarrow> (nat \<times> string) option" where
  "durationPart s = (if s = [] \<or> inUnit (s ! 0) then None
     else (case leadingInt s 0 of
       None \<Rightarrow> None
     | Some (v, r) \<Rightarrow>
        (let (f, scale, r') = (if r \<noteq> [] \<and> r ! 0 = CHR ''.'' then leadingFraction (drop 1 r) 0 1 False else (0, 1, r));
             pre = (length r \<noteq> length s);
             post = (r \<noteq> [] \<and> r ! 0 = CHR ''.'' \<and> length r' \<noteq> length (drop 1 r))
         in if \<not> pre \<and> \<not> post \<or> takeWhile inUnit r' = [] then None
            else (case map_of unitMap (takeWhile inUnit r') of
              None \<Rightarrow> None
            | Some unit \<Rightarrow> if v > 2 ^ 63 div unit then None
                else (let v' = v * unit + (if f > 0 then nat \<lfloor>float64 (float64 (of_nat f) * float64 (of_nat unit / scale))\<rfloor> else 0) in
                  if f > 0 \<and> v' > 2 ^ 63 then None else Some (v', dropWhile inUnit r'))))))"

lemma leadingInt_length: "leadingInt s x = Some (v, r) \<Longrightarrow> length r \<le> length s"
  by (induction s x rule: leadingInt.induct) (auto simp: Let_def split: if_splits)

lemma leadingFraction_length: "leadingFraction s x sc ov = (f, sc', r) \<Longrightarrow> length r \<le> length s"
  by (induction s x sc ov rule: leadingFraction.induct) (auto simp: Let_def isDigit_def split: if_splits)

lemma durationPart_length:
  assumes "durationPart s = Some (v, r)"
  shows "length r < length s"
proof -
  obtain x t where t: "leadingInt s 0 = Some (x, t)"
    using assms by (auto simp: durationPart_def split: if_splits option.splits)
  obtain f sc r' where r': "(if t \<noteq> [] \<and> t ! 0 = CHR ''.'' then leadingFraction (drop 1 t) 0 1 False else (0, 1, t)) = (f, sc, r')"
    by (metis prod_cases3)
  have "length r' \<le> length t"
    using r' leadingFraction_length[of "drop 1 t" 0 1 False f sc r'] by (auto split: if_splits)
  moreover have "takeWhile inUnit r' \<noteq> []" "r = dropWhile inUnit r'"
    using assms t r' by (auto simp: durationPart_def Let_def split: if_splits option.splits)
  moreover have "length (takeWhile inUnit r') + length (dropWhile inUnit r') = length r'"
    by (metis length_append takeWhile_dropWhile_id)
  ultimately show ?thesis using leadingInt_length[OF t] by (cases "takeWhile inUnit r'") auto
qed

function durationLoop :: "string \<Rightarrow> nat \<Rightarrow> nat option" where
  "durationLoop s d = (if s = [] then Some d
     else (case durationPart s of
       None \<Rightarrow> None
     | Some (v, r) \<Rightarrow> (let d' = (d + v) mod 2 ^ 64 in if d' > 2 ^ 63 then None else durationLoop r d')))"
  by pat_completeness auto
termination
  by (relation "measure (\<lambda>(s, d). length s)") (auto dest: durationPart_length)

declare durationLoop.simps [simp del]

definition ParseDuration :: "string \<Rightarrow> int option" where
  "ParseDuration s = (let neg = (s \<noteq> [] \<and> s ! 0 = CHR ''-''); r = (if s \<noteq> [] \<and> s ! 0 \<in> set ''+-'' then drop 1 s else s) in
     if r = ''0'' then Some 0
     else if r = [] then None
     else (case durationLoop r 0 of
       None \<Rightarrow> None
     | Some d \<Rightarrow> if neg then Some (- int d) else if d > 2 ^ 63 - 1 then None else Some (int d)))"

section \<open>Flags\<close>

text \<open>A flag sets a value of the configuration \<open>'c\<close>, or refuses with an error.\<close>

record 'c flag =
  flName :: string
  flIsBool :: bool
  flSet :: "string \<Rightarrow> 'c \<Rightarrow> string + 'c"

definition VarFlag :: "string \<Rightarrow> (string \<Rightarrow> 'c \<Rightarrow> string + 'c) \<Rightarrow> 'c flag" where
  "VarFlag name f = \<lparr>flName = name, flIsBool = False, flSet = f\<rparr>"

definition StringVar :: "string \<Rightarrow> (string \<Rightarrow> 'c \<Rightarrow> 'c) \<Rightarrow> 'c flag" where
  "StringVar name upd = VarFlag name (\<lambda>v c. Inr (upd v c))"

definition IntVar :: "string \<Rightarrow> (int \<Rightarrow> 'c \<Rightarrow> 'c) \<Rightarrow> 'c flag" where
  "IntVar name upd = VarFlag name (\<lambda>v c. case ParseInt v of
     Inl ErrSyntax \<Rightarrow> Inl ''parse error'' | Inl ErrRange \<Rightarrow> Inl ''value out of range'' | Inr i \<Rightarrow> Inr (upd i c))"

definition DurationVar :: "string \<Rightarrow> (int \<Rightarrow> 'c \<Rightarrow> 'c) \<Rightarrow> 'c flag" where
  "DurationVar name upd = VarFlag name (\<lambda>v c. case ParseDuration v of None \<Rightarrow> Inl ''parse error'' | Some d \<Rightarrow> Inr (upd d c))"

definition BoolVar :: "string \<Rightarrow> (bool \<Rightarrow> 'c \<Rightarrow> 'c) \<Rightarrow> 'c flag" where
  "BoolVar name upd = \<lparr>flName = name, flIsBool = True,
     flSet = (\<lambda>v c. case ParseBool v of None \<Rightarrow> Inl ''parse error'' | Some b \<Rightarrow> Inr (upd b c))\<rparr>"

datatype flag_error =
    BadSyntax string | NotDefined string | NeedsArgument string | InvalidValue string string string | InvalidBoolean string string string
  | ErrHelp

text \<open>\<open>parseOne\<close>: whether there was a flag, the arguments that are left, and the configuration.\<close>

definition parseOne :: "'c flag list \<Rightarrow> string list \<Rightarrow> 'c \<Rightarrow> flag_error + bool \<times> string list \<times> 'c" where
  "parseOne formal args c = (case args of
     [] \<Rightarrow> Inr (False, [], c)
   | s # rest \<Rightarrow>
     if length s < 2 \<or> s ! 0 \<noteq> CHR ''-'' then Inr (False, args, c)
     else if s = ''--'' then Inr (False, rest, c)
     else (let name = drop (if s ! 1 = CHR ''-'' then 2 else 1) s in
       if name = [] \<or> name ! 0 = CHR ''-'' \<or> name ! 0 = CHR ''='' then Inl (BadSyntax s)
       else (case Cut (CHR ''='') name of (name, value, hasValue) \<Rightarrow>
         (case find (\<lambda>f. flName f = name) formal of
           None \<Rightarrow> Inl (if name = ''help'' \<or> name = ''h'' then ErrHelp else NotDefined name)
         | Some f \<Rightarrow>
           if flIsBool f then (case flSet f (if hasValue then value else ''true'') c of
               Inl e \<Rightarrow> Inl (InvalidBoolean value name e)
             | Inr c \<Rightarrow> Inr (True, rest, c))
           else if \<not> hasValue \<and> rest = [] then Inl (NeedsArgument name)
           else (case (if hasValue then (value, rest) else (hd rest, tl rest)) of (value, rest) \<Rightarrow>
             (case flSet f value c of
               Inl e \<Rightarrow> Inl (InvalidValue value name e)
             | Inr c \<Rightarrow> Inr (True, rest, c)))))))"

lemma parseOne_shorter: "parseOne formal args c = Inr (True, rest, c') \<Longrightarrow> length rest < length args"
  by (cases args) (auto simp: parseOne_def Let_def split: if_splits prod.splits option.splits sum.splits)

text \<open>\<open>Parse\<close>: the configuration and the arguments that are no flags.\<close>

function parseFlags :: "'c flag list \<Rightarrow> string list \<Rightarrow> 'c \<Rightarrow> flag_error + 'c \<times> string list" where
  "parseFlags formal args c = (case parseOne formal args c of
     Inl e \<Rightarrow> Inl e
   | Inr (seen, rest, c) \<Rightarrow> if seen then parseFlags formal rest c else Inr (c, rest))"
  by pat_completeness auto
termination
  by (relation "measure (\<lambda>(formal, args, c). length args)") (auto dest: parseOne_shorter)

declare parseFlags.simps [simp del]

text \<open>With \<open>ExitOnError\<close> the program ends.\<close>

definition flagExit :: "flag_error \<Rightarrow> int" where
  "flagExit e = (if e = ErrHelp then 0 else 2)"

section \<open>What is printed can be read\<close>

lemma of_char_digit: "(of_char (char_of (48 + n mod 10) :: char) :: nat) = 48 + n mod 10"
  by simp

lemma digit_last: "isDigit (char_of (48 + n mod 10))" "digitVal (char_of (48 + n mod 10)) = Some (n mod 10)"
  "char_of (48 + n mod 10) \<noteq> CHR ''_''"
proof -
  show d: "isDigit (char_of (48 + n mod 10))" unfolding isDigit_def of_char_digit by simp
  then show "digitVal (char_of (48 + n mod 10)) = Some (n mod 10)" unfolding digitVal_def of_char_digit by simp
  have "\<not> isDigit (CHR ''_'')" by (simp add: isDigit_def)
  with d show "char_of (48 + n mod 10) \<noteq> CHR ''_''" by metis
qed

lemma digits_is_digit: "c \<in> set (digits n) \<Longrightarrow> isDigit c"
proof (induction n rule: digits.induct)
  case (1 n)
  then show ?case using digit_last(1)[of n] by (subst (asm) (2) digits.simps) (auto split: if_splits)
qed

lemma digits_nonempty [simp]: "digits n \<noteq> []"
  by (subst digits.simps) simp

lemma digits_hd: "0 < n \<Longrightarrow> digits n ! 0 \<noteq> CHR ''0''"
proof (induction n rule: digits.induct)
  case (1 n)
  show ?case
  proof (cases "n < 10")
    case True
    then have "(of_char (digits n ! 0) :: nat) = 48 + n" by (subst digits.simps) simp
    moreover have "(of_char (CHR ''0'') :: nat) = 48" by simp
    ultimately show ?thesis using 1(2) by (metis add_cancel_right_right nat_less_le)
  next
    case False
    then have "digits n ! 0 = digits (n div 10) ! 0" by (subst digits.simps) (simp add: nth_append)
    with 1(1)[OF False] False show ?thesis by simp
  qed
qed

lemma parseDigits_digits: "n < 2 ^ 64 \<Longrightarrow> parseDigits 10 (digits n @ r) 0 = parseDigits 10 r n"
proof (induction n arbitrary: r rule: digits.induct)
  case (1 n)
  have d: "n div 10 * 10 + n mod 10 = n" by simp
  show ?case
  proof (cases "n < 10")
    case True
    with digit_last(2,3)[of n] show ?thesis by (subst digits.simps) simp
  next
    case False
    then have "digits n @ r = digits (n div 10) @ char_of (48 + n mod 10) # r" by (subst digits.simps) simp
    moreover have "n div 10 < 2 ^ 64" using "1.prems" by linarith
    ultimately have "parseDigits 10 (digits n @ r) 0 = parseDigits 10 (char_of (48 + n mod 10) # r) (n div 10)" using "1.IH"[OF False] by simp
    moreover have "\<not> 10 \<le> n mod 10" "\<not> 2 ^ 64 \<le> n" using "1.prems" by simp_all
    ultimately show ?thesis using digit_last(2,3)[of n] by (simp only: parseDigits.simps d option.case if_False)
  qed
qed

lemma leadingInt_digits: "n \<le> 2 ^ 63 \<Longrightarrow> leadingInt (digits n @ r) 0 = leadingInt r n"
proof (induction n arbitrary: r rule: digits.induct)
  case (1 n)
  have d: "n div 10 * 10 + (of_char (char_of (48 + n mod 10) :: char) - 48) = n" unfolding of_char_digit by simp
  have s: "leadingInt (char_of (48 + n mod 10) # r) (n div 10) = leadingInt r n"
  proof -
    have "\<not> 2 ^ 63 div 10 < n div 10" "\<not> 2 ^ 63 < n" using "1.prems" div_le_mono[of n "2 ^ 63" 10] by simp_all
    with digit_last(1)[of n] show ?thesis by (simp only: leadingInt.simps d Let_def if_False simp_thms)
  qed
  show ?case
  proof (cases "n < 10")
    case True
    with s show ?thesis by (subst digits.simps) simp
  next
    case False
    then have "digits n @ r = digits (n div 10) @ char_of (48 + n mod 10) # r" by (subst digits.simps) simp
    moreover have "n div 10 \<le> 2 ^ 63" using "1.prems" by linarith
    ultimately show ?thesis using "1.IH"[OF False] s by simp
  qed
qed

lemma digits_no_sign: "digits n ! 0 \<noteq> CHR ''-''" "digits n ! 0 \<noteq> CHR ''+''" "\<not> inUnit (digits n ! 0)" "CHR ''_'' \<notin> set (digits n)"
  "CHR ''='' \<notin> set (digits n)"
proof -
  have "isDigit (digits n ! 0)" by (rule digits_is_digit[of _ n]) (cases "digits n", simp_all)
  then show "digits n ! 0 \<noteq> CHR ''-''" "digits n ! 0 \<noteq> CHR ''+''" "\<not> inUnit (digits n ! 0)"
    by (auto simp: isDigit_def inUnit_def)
  show "CHR ''_'' \<notin> set (digits n)" "CHR ''='' \<notin> set (digits n)" using digits_is_digit[of "CHR ''_''" n] digits_is_digit[of "CHR ''=''" n] by (auto simp: isDigit_def)
qed

lemma ParseUint_digits: "n < 2 ^ 64 \<Longrightarrow> ParseUint (digits n) = Inr n"
proof (cases "n = 0")
  case True
  moreover have "digits 0 = ''0''" by (subst digits.simps) code_simp
  ultimately show ?thesis by (simp add: ParseUint_def basePrefix_def)
next
  case False
  assume n: "n < 2 ^ 64"
  have "basePrefix (digits n) = (10, digits n)" using digits_hd[of n] False by (simp add: basePrefix_def)
  with parseDigits_digits[OF n, of "[]"] digits_no_sign(4)[of n] show ?thesis by (simp add: ParseUint_def)
qed

lemma ParseInt_showInt: "- (2 ^ 63) \<le> i \<Longrightarrow> i < 2 ^ 63 \<Longrightarrow> ParseInt (showInt i) = Inr i"
proof -
  assume i: "- (2 ^ 63) \<le> i" "i < 2 ^ 63"
  have "ParseUint (digits (nat \<bar>i\<bar>)) = Inr (nat \<bar>i\<bar>)" by (rule ParseUint_digits) (use i in auto)
  with i digits_no_sign(1,2)[of "nat i"] show ?thesis by (auto simp: ParseInt_def showInt_def Let_def)
qed

text \<open>A whole number of a unit.\<close>

lemma takeWhile_unit: "(u, k) \<in> set unitMap \<Longrightarrow>
    takeWhile inUnit u = u \<and> dropWhile inUnit u = [] \<and> u \<noteq> [] \<and> inUnit (hd u) \<and> map_of unitMap u = Some k \<and> 0 < k"
proof -
  assume m: "(u, k) \<in> set unitMap"
  have "distinct (map fst unitMap)" by (simp add: unitMap_def)
  with m have "map_of unitMap u = Some k" by simp
  moreover have "\<forall>u \<in> set (map fst unitMap). u \<noteq> [] \<and> list_all inUnit u" by (simp add: unitMap_def inUnit_def isDigit_def)
  with m have "u \<noteq> []" "list_all inUnit u" by force+
  moreover have "\<forall>k \<in> set (map snd unitMap). 0 < k" by (simp add: unitMap_def)
  with m have "0 < k" by force
  ultimately show ?thesis by (simp add: list_all_iff)
qed

lemma leadingInt_stop: "inUnit (hd u) \<Longrightarrow> u \<noteq> [] \<Longrightarrow> leadingInt u x = Some (x, u)"
  by (cases u) (auto simp: inUnit_def)

lemma durationPart_whole:
  assumes "leadingInt s 0 = Some (n, u)" "s \<noteq> []" "\<not> inUnit (s ! 0)" "u \<noteq> []" "u ! 0 \<noteq> CHR ''.''" "length u \<noteq> length s"
    and "takeWhile inUnit u = u" "dropWhile inUnit u = []" "map_of unitMap u = Some k" "\<not> 2 ^ 63 div k < n"
  shows "durationPart s = Some (n * k, [])"
proof -
  have c: "(u \<noteq> [] \<and> u ! 0 = CHR ''.'') = False" using assms(5) by blast
  have l: "(length u \<noteq> length s) = True" using assms(6) by blast
  show ?thesis unfolding durationPart_def assms(1) Let_def option.case prod.case c l
    unfolding if_False prod.case assms(7,8,9) option.case using assms(2-4,10) by simp
qed

lemma durationLoop_unit:
  assumes "(u, k) \<in> set unitMap" "n * k \<le> 2 ^ 63"
  shows "durationLoop (digits n @ u) 0 = Some (n * k)"
proof -
  note u = takeWhile_unit[OF assms(1)]
  have "n \<le> n * k" using u by simp
  then have "n \<le> 2 ^ 63" using assms(2) by linarith
  then have l: "leadingInt (digits n @ u) 0 = Some (n, u)" using leadingInt_digits leadingInt_stop u by simp
  have "n \<le> 2 ^ 63 div k" using u assms(2) less_eq_div_iff_mult_less_eq by blast
  then have "\<not> 2 ^ 63 div k < n" by simp
  moreover have "(digits n @ u) ! 0 = digits n ! 0" by (cases "digits n") simp_all
  moreover have "u ! 0 \<noteq> CHR ''.''" using u by (auto simp: inUnit_def hd_conv_nth)
  ultimately have p: "durationPart (digits n @ u) = Some (n * k, [])"
    using durationPart_whole[OF l] u digits_no_sign(3)[of n] by simp
  have "durationLoop [] (n * k) = Some (n * k)" by (simp add: durationLoop.simps)
  moreover have "(0 + n * k) mod 2 ^ 64 = n * k" "\<not> n * k > 2 ^ 63" using assms(2) by simp_all
  ultimately show ?thesis using p by (subst durationLoop.simps) (simp only: option.case prod.case Let_def if_False append_is_Nil_conv digits_nonempty simp_thms)
qed

lemma ParseDuration_ns: "- (2 ^ 63) \<le> i \<Longrightarrow> i < 2 ^ 63 \<Longrightarrow> ParseDuration (showInt i @ ''ns'') = Some i"
proof -
  assume i: "- (2 ^ 63) \<le> i" "i < 2 ^ 63"
  have "durationLoop (digits (nat \<bar>i\<bar>) @ ''ns'') 0 = Some (nat \<bar>i\<bar> * 1)"
    by (rule durationLoop_unit) (use i in \<open>auto simp: unitMap_def\<close>)
  moreover have "(digits n @ ''ns'') ! 0 = digits n ! 0" "digits n @ ''ns'' \<noteq> ''0''" for n
    by (cases "digits n"; simp)+
  ultimately show ?thesis using i digits_no_sign(1,2)[of "nat i"]
    by (auto simp: ParseDuration_def showInt_def Let_def)
qed

section \<open>Arguments that set a flag\<close>

text \<open>The four ways to write a setting.\<close>

datatype style = Dash1Eq | Dash2Eq | Dash1 | Dash2

fun spell :: "style \<Rightarrow> string \<Rightarrow> string \<Rightarrow> string list" where
  "spell Dash1Eq n v = [''-'' @ n @ ''='' @ v]"
| "spell Dash2Eq n v = [''--'' @ n @ ''='' @ v]"
| "spell Dash1 n v = [''-'' @ n, v]"
| "spell Dash2 n v = [''--'' @ n, v]"

definition plainName :: "string \<Rightarrow> bool" where
  "plainName n \<longleftrightarrow> n \<noteq> [] \<and> n ! 0 \<noteq> CHR ''-'' \<and> CHR ''='' \<notin> set n"

lemma parseFlags_setting:
  assumes "plainName n" "find (\<lambda>f. flName f = n) formal = Some f" "\<not> flIsBool f" "flSet f v c = Inr c'"
  shows "parseFlags formal (spell st n v @ args) c = parseFlags formal args c'"
proof -
  obtain x xs where n: "n = x # xs" "x \<noteq> CHR ''-''" "x \<noteq> CHR ''=''" "CHR ''='' \<notin> set n"
    using assms(1) by (cases n) (auto simp: plainName_def)
  have "Cut (CHR ''='') (n @ ''='' @ v) = (n, v, True)" using Cut_found[OF n(4), of v] by simp
  then have "parseOne formal (spell st n v @ args) c = Inr (True, args, c')"
    using n Cut_missing[OF n(4)] assms(2-4) by (cases st) (simp_all add: parseOne_def)
  then show ?thesis by (subst parseFlags.simps) simp
qed

lemma parseFlags_end [simp]: "parseFlags formal [] c = Inr (c, [])"
  by (subst parseFlags.simps) (simp add: parseOne_def)

text \<open>Settings of several flags, one after the other.\<close>

fun applySettings :: "'c flag list \<Rightarrow> (string \<times> string) list \<Rightarrow> 'c \<Rightarrow> 'c option" where
  "applySettings formal [] c = Some c"
| "applySettings formal ((n, v) # ws) c = (case find (\<lambda>f. flName f = n) formal of
     None \<Rightarrow> None
   | Some f \<Rightarrow> if \<not> plainName n \<or> flIsBool f then None
       else (case flSet f v c of Inl e \<Rightarrow> None | Inr c' \<Rightarrow> applySettings formal ws c'))"

lemma applySettings_append:
  "applySettings formal (xs @ ys) c = Option.bind (applySettings formal xs c) (applySettings formal ys)"
  by (induction xs arbitrary: c) (auto split: option.splits sum.splits)

definition written :: "(style \<times> string \<times> string) list \<Rightarrow> string list" where
  "written ws = concat (map (\<lambda>(st, n, v). spell st n v) ws)"

lemma parseFlags_written:
  "applySettings formal (map snd ws) c = Some c' \<Longrightarrow> parseFlags formal (written ws @ args) c = parseFlags formal args c'"
proof (induction ws arbitrary: c)
  case (Cons w ws)
  obtain st n v where w: "w = (st, n, v)" by (cases w)
  with Cons.prems obtain f c1 where "find (\<lambda>f. flName f = n) formal = Some f" "plainName n" "\<not> flIsBool f" "flSet f v c = Inr c1"
    "applySettings formal (map snd ws) c1 = Some c'" by (auto split: option.splits if_splits sum.splits)
  with parseFlags_setting[of n formal f v c c1 st "written ws @ args"] Cons.IH w show ?case by (simp add: written_def)
qed (simp add: written_def)

end
