(* ===== verification/ServerHttp.thy ===== *)
theory ServerHttp
  imports ServerState GoFlag
begin

text \<open>
  The HTTP handlers of \<open>hexz/server.go\<close>. A handler maps the request and the state of the server to the
  new state and the list of calls it makes on the \<open>ResponseWriter\<close> and on game channels, in the order of
  the code, including those after a missing \<open>return\<close>. \<open>None\<close> is a panic of the handler. Error texts are
  given without the quoting of \<open>%q\<close> and without the text of an error of the operating system.
\<close>

section \<open>Requests and responses\<close>

text \<open>\<open>rqForm\<close> is what \<open>ParseForm\<close> collects, \<open>None\<close> if it fails.\<close>

record request =
  rqMethod :: string
  rqPath :: string
  rqCookies :: "(string \<times> string) list"
  rqForm :: "(string \<times> string list) list option"
  rqBody :: string

record cookie =
  ckName :: string
  ckValue :: string
  ckPath :: string
  ckMaxAge :: int
  ckHttpOnly :: bool
  ckSecure :: bool

text \<open>\<open>LogFatal\<close> ends the process. \<open>GoMaster\<close> starts the goroutine of a game, \<open>SendControl\<close> sends an
  event to it. \<open>MovedPermanently\<close> is the \<open>http.RedirectHandler\<close> with status 301, to a path, with the
  query of the request.\<close>

datatype call =
    HttpError string nat | SetHeader string string | SetCookie cookie | HttpRedirect string nat | HttpWrite string
  | LogFatal string | GoMaster game_handle | SendControl string control_event | MovedPermanently string

text \<open>The status of the response is the first one that is written.\<close>

fun status :: "call list \<Rightarrow> nat" where
  "status [] = 200"
| "status (HttpError m c # cs) = c"
| "status (HttpRedirect u c # cs) = c"
| "status (HttpWrite b # cs) = 200"
| "status (MovedPermanently p # cs) = 301"
| "status (c # cs) = status cs"

text \<open>\<open>Form.Get\<close> and \<open>Form.Has\<close>.\<close>

definition FormGet :: "(string \<times> string list) list \<Rightarrow> string \<Rightarrow> string" where
  "FormGet f k = (case map_of f k of Some (v # vs) \<Rightarrow> v | _ \<Rightarrow> [])"

definition FormHas :: "(string \<times> string list) list \<Rightarrow> string \<Rightarrow> bool" where
  "FormHas f k = (map_of f k \<noteq> None)"

text \<open>The extension of a path: from the last dot of its last element on.\<close>

definition Ext :: "string \<Rightarrow> string" where
  "Ext p = (let e = takeWhile (\<lambda>c. c \<noteq> CHR ''/'' \<and> c \<noteq> CHR ''.'') (rev p)
            in (case drop (length e) (rev p) of c # cs \<Rightarrow> if c = CHR ''.'' then c # rev e else [] | [] \<Rightarrow> []))"

text \<open>\<open>path.Base\<close> of a path that does not end in a slash.\<close>

definition Base :: "string \<Rightarrow> string" where
  "Base p = (let e = rev (takeWhile (\<lambda>c. c \<noteq> CHR ''/'') (rev p)) in if e = [] then ''.'' else e)"

section \<open>Constants and helpers\<close>

definition playerIdCookieName :: string where "playerIdCookieName = ''playerId''"
definition gameHtmlFilename :: string where "gameHtmlFilename = ''game.html''"
definition loginHtmlFilename :: string where "loginHtmlFilename = ''login.html''"
definition newGameHtmlFilename :: string where "newGameHtmlFilename = ''new.html''"
definition rulesHtmlFilename :: string where "rulesHtmlFilename = ''rules.html''"

definition validResourceFileExts :: "string \<Rightarrow> string option" where
  "validResourceFileExts = map_of [(''.html'', ''text/html''), (''.png'', ''image/png''), (''.gif'', ''image/gif'')]"

definition faviconUrlPaths :: "string list" where
  "faviconUrlPaths = [''/favicon-16x16.png'', ''/favicon-32x32.png'', ''/favicon-48x48.png'', ''/apple-touch-icon.png'']"

definition isFavicon :: "string \<Rightarrow> bool" where
  "isFavicon path = list_ex (\<lambda>p. p = path) faviconUrlPaths"

definition gameIdFromPath :: "string \<Rightarrow> string" where
  "gameIdFromPath path = (let pathSegs = Split CHR ''/'' path; l = length pathSegs in
     if l \<ge> 2 \<and> pathSegs ! 1 = ''hexz'' then pathSegs ! (l - 1) else [])"

text \<open>The regular expression of the player names: every rune is a letter of the Latin script, a digit
  or one of three signs. \<open>latin\<close> is the table \<open>unicode.Latin\<close>.\<close>

definition nameRune :: "(nat \<Rightarrow> bool) \<Rightarrow> nat \<Rightarrow> bool" where
  "nameRune latin r \<longleftrightarrow> latin r \<or> 48 \<le> r \<and> r \<le> 57 \<or> r = 95 \<or> r = 46 \<or> r = 45"

definition isValidPlayerName :: "(nat \<Rightarrow> bool) \<Rightarrow> string \<Rightarrow> bool" where
  "isValidPlayerName latin name \<longleftrightarrow> length name \<ge> 3 \<and> length name \<le> 20 \<and>
     runes name \<noteq> [] \<and> list_all (nameRune latin) (runes name)"

definition makePlayerCookie :: "string \<Rightarrow> int \<Rightarrow> cookie" where
  "makePlayerCookie i ttl = \<lparr>ckName = playerIdCookieName, ckValue = i, ckPath = ''/hexz'',
     ckMaxAge = sgn ttl * (\<bar>ttl\<bar> div 1000000000), ckHttpOnly = True, ckSecure = False\<rparr>"

text \<open>\<open>files\<close> is the content of the files below the document root.\<close>

definition readFile :: "(string \<Rightarrow> string option) \<Rightarrow> string \<Rightarrow> server \<Rightarrow> string option \<times> server" where
  "readFile files filename s = (files filename, IncCounter_server ''/storage/files/readfile'' s)"

definition lookupPlayerFromCookie :: "request \<Rightarrow> int \<Rightarrow> server \<Rightarrow> (string + player) \<times> server" where
  "lookupPlayerFromCookie r now s = (case map_of (rqCookies r) playerIdCookieName of
     None \<Rightarrow> (Inl ''missing cookie'', s)
   | Some v \<Rightarrow> (case lookupPlayer v now s of
       (None, s) \<Rightarrow> (Inl ''player not found'', s)
     | (Some p, s) \<Rightarrow> (Inr p, s)))"

definition validatePostRequest :: "request \<Rightarrow> int \<Rightarrow> server \<Rightarrow> (string + player) \<times> server" where
  "validatePostRequest r now s = (if rqMethod r \<noteq> ''POST'' then (Inl ''invalid method'', s)
     else (case lookupPlayerFromCookie r now s of
       (Inl e, s) \<Rightarrow> (Inl ''invalid method'', s)
     | (Inr p, s) \<Rightarrow> (Inr p, s)))"

text \<open>\<open>Player{}\<close>, which the handlers go on with after an error.\<close>

definition noPlayer :: player where
  "noPlayer = \<lparr>plId = [], plName = [], plLastActive = 0\<rparr>"

section \<open>Pages\<close>

definition handleLoginPage :: "(string \<Rightarrow> string option) \<Rightarrow> server \<Rightarrow> server \<times> call list" where
  "handleLoginPage files s = (case readFile files loginHtmlFilename s of
     (None, s) \<Rightarrow> (s, [HttpError ''Failed to load login screen'' 500, LogFatal ''Cannot read login HTML page: ''])
   | (Some html, s) \<Rightarrow> (s, [SetHeader ''Content-Type'' ''text/html'', HttpWrite html]))"

definition handleLoginRequest :: "(nat \<Rightarrow> bool) \<Rightarrow> string \<Rightarrow> request \<Rightarrow> int \<Rightarrow> server \<Rightarrow> server \<times> call list" where
  "handleLoginRequest latin newId r now s =
    (let s = IncCounter_server ''/requests/login/total'' s in
     if rqMethod r \<noteq> ''POST'' then (s, [HttpError ''Only POST allowed'' 400])
     else (case rqForm r of
       None \<Rightarrow> (s, [HttpError ''Invalid form'' 400])
     | Some f \<Rightarrow>
         let name = TrimSpace (FormGet f ''name'') in
         if name = [] then (s, [HttpError ''Missing 'user' form parameter'' 400])
         else if \<not> isValidPlayerName latin name then (s, [HttpError (''Invalid username '' @ name) 400])
         else (case loginPlayer newId name now s of (ok, s) \<Rightarrow>
           (IncCounter_server ''/requests/login/success'' s,
            (if \<not> ok then [HttpError ''Cannot log in right now'' 412] else []) @
            [SetCookie (makePlayerCookie newId (LoginTtl (srvConfig s))), HttpRedirect ''/hexz'' 303]))))"

definition handleHexz :: "(string \<Rightarrow> string option) \<Rightarrow> request \<Rightarrow> int \<Rightarrow> server \<Rightarrow> server \<times> call list" where
  "handleHexz files r now s = (case lookupPlayerFromCookie r now s of
     (Inl e, s) \<Rightarrow> handleLoginPage files s
   | (Inr p, s) \<Rightarrow> (case readFile files newGameHtmlFilename s of
       (None, s) \<Rightarrow> (s, [HttpError ''Failed to load html'' 500, LogFatal ''Cannot read new game HTML page: ''])
     | (Some html, s) \<Rightarrow> (s, [SetHeader ''Content-Type'' ''text/html'',
         SetCookie (makePlayerCookie (plId p) (LoginTtl (srvConfig s))), HttpWrite html])))"

definition handleGame :: "(string \<Rightarrow> string option) \<Rightarrow> request \<Rightarrow> int \<Rightarrow> server \<Rightarrow> server \<times> call list" where
  "handleGame files r now s = (case lookupPlayerFromCookie r now s of
     (Inl e, s) \<Rightarrow> (s, [HttpRedirect ''/hexz'' 303])
   | (Inr p, s) \<Rightarrow>
       if lookupGame (gameIdFromPath (rqPath r)) s = None then (s, [HttpRedirect ''/hexz'' 303])
       else (case readFile files gameHtmlFilename s of (html, s) \<Rightarrow>
         (s, (if html = None then [HttpError [] 500] else []) @
             [SetHeader ''Content-Type'' ''text/html'', SetCookie (makePlayerCookie (plId p) (LoginTtl (srvConfig s))),
              HttpWrite (case html of None \<Rightarrow> [] | Some h \<Rightarrow> h)])))"

definition handleFile :: "(string \<Rightarrow> string option) \<Rightarrow> string \<Rightarrow> server \<Rightarrow> server \<times> call list" where
  "handleFile files filepath s = (case validResourceFileExts (Ext filepath) of
     None \<Rightarrow> (s, [HttpError [] 404])
   | Some contentType \<Rightarrow> (case readFile files filepath s of
       (None, s) \<Rightarrow> (s, [HttpError [] 404])
     | (Some contents, s) \<Rightarrow> (s, [SetHeader ''Content-Type'' contentType, HttpWrite contents])))"

definition handleStaticResource :: "(string \<Rightarrow> string option) \<Rightarrow> request \<Rightarrow> server \<Rightarrow> server \<times> call list" where
  "handleStaticResource files r s = (let hexz = ''/hexz/'' in
     if \<not> HasPrefix (rqPath r) hexz then (s, [HttpError [] 404])
     else handleFile files (drop (length hexz) (rqPath r)) s)"

definition defaultHandler :: "(string \<Rightarrow> string option) \<Rightarrow> request \<Rightarrow> server \<Rightarrow> server \<times> call list" where
  "defaultHandler files r s = (if rqPath r = ''/'' then (s, [HttpRedirect ''/hexz'' 303])
     else if isFavicon (rqPath r) then
       (case readFile files (''images/'' @ Base (rqPath r)) (IncCounter_server ''/requests/favicon'' s) of
          (None, s) \<Rightarrow> (s, [HttpError ''favicon not found'' 404])
        | (Some ico, s) \<Rightarrow> (s, [SetHeader ''Content-Type'' ''image/png'', HttpWrite ico]))
     else (IncCounter_server ''/requests/other'' s, [HttpError [] 404]))"

section \<open>Games\<close>

text \<open>The conversion \<open>GameType(typeParam)\<close> of a valid name.\<close>

definition gameTypeOf :: "string \<Rightarrow> game_type" where
  "gameTypeOf n = (if n = game_type_name GameTypeClassic then GameTypeClassic
     else if n = game_type_name GameTypeFlagz then GameTypeFlagz else GameTypeFreeform)"

lemma gameTypeOf_name [simp]: "gameTypeOf (game_type_name t) = t"
  by (cases t) (simp_all add: gameTypeOf_def)

text \<open>
  The end of \<open>handleNewGame\<close>, with the value of the parameter \<open>singlePlayer\<close>, \<open>None\<close> if it is not a
  boolean. After a failed \<open>startNewGame\<close> the handler goes on and dereferences the nil game.
\<close>

definition newGameOf :: "player \<Rightarrow> game_type \<Rightarrow> bool option \<Rightarrow> int \<Rightarrow> rng \<Rightarrow> server \<Rightarrow> (server \<times> call list) option" where
  "newGameOf p gameType single now rs s =
    (if single = None then Some (s, [HttpError (''Invalid value for 'singlePlayer'' @ [CHR 0x27]) 400])
     else if single = Some True \<and> \<not> supportsSinglePlayer gameType
     then Some (s, [HttpError ''Single player mode not supported'' 400])
     else do {
       (game, s) \<leftarrow> startNewGame (plName p) gameType (single = Some True) now rs s;
       (case game of
          Inl e \<Rightarrow> None
        | Inr g \<Rightarrow> Some (IncCounter_server ''/games/started'' s, [GoMaster g, HttpRedirect (''/hexz/'' @ ghId g) 303]))
     })"

definition handleNewGame :: "(string \<Rightarrow> string option) \<Rightarrow> request \<Rightarrow> int \<Rightarrow> rng \<Rightarrow> server \<Rightarrow> (server \<times> call list) option" where
  "handleNewGame files r now rs s =
    (if rqMethod r \<noteq> ''POST'' then Some (s, [HttpError ''Invalid method'' 400])
     else (case lookupPlayerFromCookie r now s of
       (Inl e, s) \<Rightarrow> Some (handleLoginPage files s)
     | (Inr p, s) \<Rightarrow> (case rqForm r of
         None \<Rightarrow> Some (s, [HttpError ''Invalid form'' 400])
       | Some f \<Rightarrow>
           let typeParam = FormGet f ''type'' in
           if typeParam = [] then Some (s, [HttpError ''Missing 'type' form parameter'' 400])
           else if \<not> validGameType typeParam then Some (s, [HttpError (''Invalid value for 'type'' @ [CHR 0x27]) 400])
           else newGameOf p (gameTypeOf typeParam)
             (if FormHas f ''singlePlayer'' then ParseBool (FormGet f ''singlePlayer'') else Some False) now rs s)))"

text \<open>The JSON decoders are arguments; they return an error text or the decoded body.\<close>

definition handleMove_http :: "(string \<Rightarrow> string + move_request) \<Rightarrow> request \<Rightarrow> int \<Rightarrow> server \<Rightarrow> server \<times> call list" where
  "handleMove_http decode r now s = (case validatePostRequest r now s of (pe, s) \<Rightarrow>
     let invalid = (case pe of Inl e \<Rightarrow> [HttpError e 400] | Inr p \<Rightarrow> []);
         player = (case pe of Inl e \<Rightarrow> noPlayer | Inr p \<Rightarrow> p)
     in (case decode (rqBody r) of
       Inl e \<Rightarrow> (s, invalid @ [HttpError e 400])
     | Inr req \<Rightarrow>
         if \<not> cellType_valid (ReqType req) then (s, invalid @ [HttpError ''Invalid cell type'' 400])
         else
           let gameId = gameIdFromPath (rqPath r) in
           (case lookupGame gameId s of
              None \<Rightarrow> (s, invalid @ [HttpError (''No game with ID '' @ gameId) 404])
            | Some game \<Rightarrow> (s, invalid @ [SendControl (ghId game) (ControlEventMove (plId player) req 0)]))))"

definition handleReset_http :: "(string \<Rightarrow> string + string) \<Rightarrow> request \<Rightarrow> int \<Rightarrow> server \<Rightarrow> server \<times> call list" where
  "handleReset_http decode r now s = (case validatePostRequest r now s of (pe, s) \<Rightarrow>
     let invalid = (case pe of Inl e \<Rightarrow> [HttpError e 400] | Inr p \<Rightarrow> []);
         p = (case pe of Inl e \<Rightarrow> noPlayer | Inr p \<Rightarrow> p);
         undecoded = (case decode (rqBody r) of Inl e \<Rightarrow> [HttpError e 400] | Inr m \<Rightarrow> []);
         message = (case decode (rqBody r) of Inl e \<Rightarrow> [] | Inr m \<Rightarrow> m);
         gameId = gameIdFromPath (rqPath r)
     in (case lookupGame gameId s of
       None \<Rightarrow> (s, invalid @ undecoded @ [HttpError (''No game with ID '' @ gameId) 404])
     | Some game \<Rightarrow> (s, invalid @ undecoded @ [SendControl (ghId game) (ControlEventReset (plId p) message)])))"

text \<open>\<open>handleGamez\<close>, given the JSON encoder.\<close>

definition handleGamez :: "(game_info list \<Rightarrow> string) \<Rightarrow> server \<Rightarrow> server \<times> call list" where
  "handleGamez encode s = (s, [SetHeader ''Content-Type'' ''application/json'', HttpWrite (encode (listRecentGames 5 s))])"

section \<open>Server-sent events\<close>

text \<open>The part of \<open>handleSse\<close> up to the registration: an answer, or the player to register and the game.\<close>

definition sseOpen :: "request \<Rightarrow> int \<Rightarrow> server \<Rightarrow> server \<times> (call list + player \<times> game_handle)" where
  "sseOpen r now s = (case lookupPlayerFromCookie r now (IncCounter_server ''/requests/sse/incoming'' s) of
     (Inl e, s) \<Rightarrow> (s, Inl [HttpError e 400])
   | (Inr p, s) \<Rightarrow>
       let gameId = gameIdFromPath (rqPath r) in
       (case lookupGame gameId s of
          None \<Rightarrow> (s, Inl [HttpError (''Game '' @ gameId @ '' does not exist'') 404])
        | Some game \<Rightarrow> (s, Inr (p, game))))"

text \<open>\<open>registerPlayer\<close> has returned: \<open>gameOver\<close> if the game was over.\<close>

definition sseRegistered :: "bool \<Rightarrow> player \<Rightarrow> game_handle \<Rightarrow> server \<Rightarrow> server \<times> call list" where
  "sseRegistered gameOver p game s =
    (if gameOver then (s, [HttpError (''cannot register player '' @ plId p @ '' in game '' @ ghId game @ '': game over'') 412])
     else (IncCounter_server ''/requests/sse/accepted'' s,
       [SetHeader ''Content-Type'' ''text/event-stream'', SetHeader ''Cache-Control'' ''no-store'']))"

text \<open>One receive from the event channel, \<open>None\<close> if it is closed: the state, the calls and whether the
  handler returns.\<close>

definition sseReceive :: "(server_event \<Rightarrow> string) \<Rightarrow> server_event option \<Rightarrow> server \<Rightarrow> server \<times> call list \<times> bool" where
  "sseReceive encode ev s = (let s = IncCounter_server ''/requests/sse/events'' s;
     e = (case ev of None \<Rightarrow> zeroEvent\<lparr>evLastEvent := True\<rparr> | Some e \<Rightarrow> e)
     in (s, [HttpWrite (''data: '' @ encode e @ [CHR 0x0A, CHR 0x0A])], ev = None))"

text \<open>The client has gone.\<close>

definition sseDone :: "player \<Rightarrow> game_handle \<Rightarrow> call list" where
  "sseDone p game = [SendControl (ghId game) (ControlEventUnregister (plId p))]"

section \<open>Access to the status page\<close>

text \<open>\<open>basicAuthHandlerFunc\<close>. \<open>local\<close> says that the request comes from a loopback address, \<open>auth\<close> is the
  password sent, if any, and \<open>sha256\<close> the hexadecimal digest.\<close>

definition basicAuthHandlerFunc ::
  "(string \<Rightarrow> string) \<Rightarrow> bool \<Rightarrow> string option \<Rightarrow> (server \<Rightarrow> server \<times> call list) \<Rightarrow> server \<Rightarrow> server \<times> call list" where
  "basicAuthHandlerFunc sha256 isLocal auth h s =
    (if isLocal then h (IncCounter_server ''/auth/granted/local'' s)
     else if AuthTokenSha256 (srvConfig s) = [] then
       (IncCounter_server ''/auth/rejected/nonlocal'' s, [HttpError ''Forbidden'' 403])
     else (let pass = (case auth of None \<Rightarrow> [] | Some p \<Rightarrow> p); passSha256 = sha256 pass in
       if auth = None \<or> passSha256 \<noteq> AuthTokenSha256 (srvConfig s)
       then (IncCounter_server (if auth = None then ''/auth/rejected/missing_token'' else ''/auth/rejected/bad_passwd'') s,
             [SetHeader ''WWW-Authenticate'' ''Basic realm=\"restricted\", charset=\"UTF-8\"'', HttpError ''Unauthorized'' 401])
       else h (IncCounter_server ''/auth/granted/basic_auth'' s)))"

section \<open>Routes\<close>

datatype route =
    RMove | RReset | RSse | RLogin | RRules | RImages | RHexz | RNew | RGamez | RGame | RStatusz | RDefault
  | RMoved string

definition routes :: "(string \<times> route) list" where
  "routes = [(''/hexz/move/'', RMove), (''/hexz/reset/'', RReset), (''/hexz/sse/'', RSse), (''/hexz/login'', RLogin),
     (''/hexz/rules'', RRules), (''/hexz/images/'', RImages), (''/hexz'', RHexz), (''/hexz/new'', RNew),
     (''/hexz/gamez'', RGamez), (''/hexz/'', RGame), (''/statusz'', RStatusz), (''/'', RDefault)]"

text \<open>\<open>http.ServeMux\<close>: a pattern that ends in a slash matches every path below it, and the longest
  pattern that matches wins.\<close>

definition matches :: "string \<Rightarrow> string \<Rightarrow> bool" where
  "matches path pat \<longleftrightarrow> (if HasSuffix pat ''/'' then HasPrefix path pat else path = pat)"

definition muxMatch :: "string \<Rightarrow> route option" where
  "muxMatch path = (case sortSlice (\<lambda>a b. length (fst b) < length (fst a)) (filter (\<lambda>(pat, _). matches path pat) routes) of
     [] \<Rightarrow> None | (pat, rt) # _ \<Rightarrow> Some rt)"

text \<open>\<open>path.Clean\<close> of a path that starts with a slash, and the \<open>cleanPath\<close> of the multiplexer.\<close>

fun cleanSegs :: "string list \<Rightarrow> string list \<Rightarrow> string list" where
  "cleanSegs acc [] = rev acc"
| "cleanSegs acc (x # xs) = (if x = [] \<or> x = ''.'' then cleanSegs acc xs
     else if x = ''..'' then cleanSegs (drop 1 acc) xs else cleanSegs (x # acc) xs)"

definition Clean_rooted :: "string \<Rightarrow> string" where
  "Clean_rooted path = ''/'' @ Join ''/'' (cleanSegs [] (Split (CHR ''/'') path))"

definition cleanPath :: "string \<Rightarrow> string" where
  "cleanPath path = (let p = (if HasPrefix path ''/'' then path else ''/'' @ path); np = Clean_rooted p
     in if HasSuffix p ''/'' \<and> np \<noteq> ''/'' then np @ ''/'' else np)"

text \<open>A path that is no pattern, but would be one with a slash behind it, is sent there.\<close>

definition redirectToPathSlash :: "string \<Rightarrow> string option" where
  "redirectToPathSlash path =
    (if \<not> list_ex (\<lambda>(pat, _). pat = path) routes \<and> list_ex (\<lambda>(pat, _). pat = path @ ''/'') routes \<and>
        path \<noteq> [] \<and> \<not> HasSuffix path ''/'' then Some (path @ ''/'') else None)"

text \<open>The handler for a path; a path that is not clean is redirected. A \<open>CONNECT\<close> request is not cleaned.\<close>

definition dispatch :: "string \<Rightarrow> route option" where
  "dispatch path = (let p = cleanPath path in case redirectToPathSlash p of
     Some u \<Rightarrow> Some (RMoved u)
   | None \<Rightarrow> if p \<noteq> path then Some (RMoved p) else muxMatch path)"

definition muxHandler :: "request \<Rightarrow> route option" where
  "muxHandler r = (if rqMethod r = ''CONNECT''
     then (case redirectToPathSlash (rqPath r) of Some u \<Rightarrow> Some (RMoved u) | None \<Rightarrow> muxMatch (rqPath r))
     else dispatch (rqPath r))"

end
