(* ===== verification/ServerProps.thy ===== *)
theory ServerProps
  imports ServerInv ServerHttp
begin

text \<open>
  What the server promises: it starts, its sessions are bounded and expire, a game that has been
  started can be found under the address the client is sent to, requests are checked before they reach
  a game, and when the status page fails.
\<close>

section \<open>Reachable states\<close>

text \<open>The data base that is loaded at the start was written by the same server, so it is not larger than
  what may be logged in.\<close>

inductive server_reachable :: "server \<Rightarrow> bool" where
  start: "NewServer cfg now = Some s \<Longrightarrow> (case db of None \<Rightarrow> True | Some ps \<Rightarrow> length ps \<le> Suc maxLoggedInPlayers) \<Longrightarrow>
    server_reachable (loadUserDatabase db s)"
| counted: "server_reachable s \<Longrightarrow> server_reachable (IncCounter_server n s)"
| measured: "server_reachable s \<Longrightarrow> AddDistribValue n v s = Some r \<Longrightarrow> server_reachable (fst r)"
| seen: "server_reachable s \<Longrightarrow> server_reachable (snd (lookupPlayer i now s))"
| login: "server_reachable s \<Longrightarrow> server_reachable (snd (loginPlayer i name now s))"
| logged_out: "server_reachable s \<Longrightarrow> server_reachable (fst (logoutInactive now prev s))"
| saved: "server_reachable s \<Longrightarrow> server_reachable (snd (saveIfChanged created changed s))"
| started: "server_reachable s \<Longrightarrow> startNewGame host t single now r s = Some (g, s') \<Longrightarrow> server_reachable s'"
| finished: "server_reachable s \<Longrightarrow> server_reachable (deleteGame i s)"
| range_order: "server_reachable s \<Longrightarrow> mset gs = mset (ongoingGames s) \<Longrightarrow> mset ps = mset (loggedInPlayers s) \<Longrightarrow>
    mset cs = mset (counters s) \<Longrightarrow> mset ds = mset (distrib s) \<Longrightarrow>
    server_reachable (s\<lparr>ongoingGames := gs, loggedInPlayers := ps, counters := cs, distrib := ds\<rparr>)"

lemma checkedAdd_ok:
  assumes "server_ok s" "map_of (distrib s) name = None" "low < high" "1 < factor" "0 < low"
  shows "\<exists>d s'. checkedAdd name (DistribRange low high factor) s = Some s' \<and>
    s' = s\<lparr>distrib := AList.update name d (distrib s)\<rparr> \<and> server_ok s' \<and> 0 < hd (dBounds d) \<and> holds (dBounds d) [] d"
proof -
  obtain j where r: "DistribRange low high factor = Some (map (\<lambda>i. low * factor ^ i) [0..<Suc j] @ [high])"
    "sorted_wrt (<) (map (\<lambda>i. low * factor ^ i) [0..<Suc j] @ [high])"
    by (rule DistribRange_eq[OF assms(3-5)])
  let ?bs = "map (\<lambda>i. low * factor ^ i) [0..<Suc j] @ [high]"
  obtain d s' where "AddDistribution name ?bs s = Inr s'" "s' = s\<lparr>distrib := AList.update name d (distrib s)\<rparr>"
    "server_ok s'" "dBounds d = ?bs" "holds ?bs [] d"
    using AddDistribution_ok[OF assms(1,2) _ r(2)] by auto
  moreover have "hd ?bs = low" by (simp add: upt_conv_Cons del: upt_Suc)
  ultimately show ?thesis using r(1) assms(5) by (auto simp: checkedAdd_def simp del: upt_Suc)
qed

abbreviation mctsName :: "string \<Rightarrow> string" where
  "mctsName what \<equiv> ''/games/'' @ game_type_name GameTypeFlagz @ ''/mcts/'' @ what"

lemma NewServer_ok:
  "\<exists>s. NewServer cfg now = Some s \<and> server_ok s \<and> ongoingGames s = [] \<and> loggedInPlayers s = [] \<and> srvConfig s = cfg \<and>
    map fst (distrib s) = map mctsName [''elapsed'', ''iterations'', ''tree_size'', ''iterations_per_sec''] \<and>
    (\<forall>(k, d) \<in> set (distrib s). 0 < hd (dBounds d) \<and> holds (dBounds d) [] d)"
proof -
  let ?s0 = "\<lparr>ongoingGames = [], loggedInPlayers = [], srvConfig = cfg, counters = [], distrib = [], srvStarted = now\<rparr>"
  have s0: "server_ok ?s0" by (simp add: server_ok_def)
  obtain d1 s1 where s1: "checkedAdd (mctsName ''elapsed'') (DistribRange (1 / 1000) (60 * 60) (11 / 10)) ?s0 = Some s1"
    "s1 = ?s0\<lparr>distrib := [(mctsName ''elapsed'', d1)]\<rparr>" "server_ok s1" "0 < hd (dBounds d1) \<and> holds (dBounds d1) [] d1"
    using checkedAdd_ok[OF s0, of "mctsName ''elapsed''" "1 / 1000" "60 * 60" "11 / 10"] by auto
  obtain d2 s2 where s2: "checkedAdd (mctsName ''iterations'') (DistribRange 1 1000000000 (12 / 10)) s1 = Some s2"
    "s2 = ?s0\<lparr>distrib := [(mctsName ''elapsed'', d1), (mctsName ''iterations'', d2)]\<rparr>" "server_ok s2" "0 < hd (dBounds d2) \<and> holds (dBounds d2) [] d2"
    using checkedAdd_ok[OF s1(3), of "mctsName ''iterations''" 1 1000000000 "12 / 10"] s1(2) by auto
  obtain d3 s3 where s3: "checkedAdd (mctsName ''tree_size'') (DistribRange 1 1000000000 (12 / 10)) s2 = Some s3"
    "s3 = ?s0\<lparr>distrib := [(mctsName ''elapsed'', d1), (mctsName ''iterations'', d2), (mctsName ''tree_size'', d3)]\<rparr>"
    "server_ok s3" "0 < hd (dBounds d3) \<and> holds (dBounds d3) [] d3"
    using checkedAdd_ok[OF s2(3), of "mctsName ''tree_size''" 1 1000000000 "12 / 10"] s2(2) by auto
  obtain d4 s4 where s4: "checkedAdd (mctsName ''iterations_per_sec'') (DistribRange 1 1000000 (11 / 10)) s3 = Some s4"
    "s4 = ?s0\<lparr>distrib := [(mctsName ''elapsed'', d1), (mctsName ''iterations'', d2), (mctsName ''tree_size'', d3),
        (mctsName ''iterations_per_sec'', d4)]\<rparr>"
    "server_ok s4" "0 < hd (dBounds d4) \<and> holds (dBounds d4) [] d4"
    using checkedAdd_ok[OF s3(3), of "mctsName ''iterations_per_sec''" 1 1000000 "11 / 10"] s3(2) by auto
  have "NewServer cfg now = Some s4"
    unfolding NewServer_def InitCounters_def Let_def using s1(1) s2(1) s3(1) s4(1) by simp
  with s1(4) s2(4) s3(4) s4 show ?thesis by simp
qed

lemma server_ok_perm:
  assumes s: "server_ok s" and gs: "mset gs = mset (ongoingGames s)" and ps: "mset ps = mset (loggedInPlayers s)"
    and cs: "mset cs = mset (counters s)" and ds: "mset ds = mset (distrib s)"
  shows "server_ok (s\<lparr>ongoingGames := gs, loggedInPlayers := ps, counters := cs, distrib := ds\<rparr>)"
proof -
  note I = server_okD[OF s]
  have "set ds = set (distrib s)" "length ps = length (loggedInPlayers s)"
    using ds ps mset_eq_setD mset_eq_length by blast+
  then show ?thesis
    using keyed_perm[OF I(1) gs] keyed_perm[OF I(2) ps] keyed_perm[OF I(3) cs] keyed_perm[OF I(4) ds] I(5,6)
    by (auto simp: server_ok_def)
qed

lemma server_reachable_ok: "server_reachable s \<Longrightarrow> server_ok s"
proof (induction rule: server_reachable.induct)
  case (start cfg now s db)
  have s: "server_ok s" "loggedInPlayers s = []" using NewServer_ok[of cfg now] start(1) by auto
  show ?case
  proof (cases db)
    case None
    with s show ?thesis by (simp add: loadUserDatabase_def)
  next
    case (Some ps)
    let ?ps = "loggedInPlayers (loadUserDatabase (Some ps) s)"
    have k: "keyed plId ?ps \<and> length ?ps \<le> length (loggedInPlayers s) + length ps \<and>
        loadUserDatabase (Some ps) s = s\<lparr>loggedInPlayers := ?ps\<rparr>"
      by (rule loadUserDatabase_keyed[OF server_okD(2)[OF s(1)]])
    have with_players: "keyed plId qs \<Longrightarrow> length qs \<le> Suc maxLoggedInPlayers \<Longrightarrow> server_ok (s\<lparr>loggedInPlayers := qs\<rparr>)" for qs
      using s(1) by (simp add: server_ok_def)
    have "length ps \<le> Suc maxLoggedInPlayers" using start(2) Some by simp
    with k s(2) have "length ?ps \<le> Suc maxLoggedInPlayers" by simp
    with k with_players[of ?ps] Some show ?thesis by metis
  qed
next
  case (measured s n v r)
  with AddDistribValue_ok[of s n v] show ?case by auto
next
  case (started s host t single now r g s')
  with startLoop_ok[of s 100 host t single now r] show ?case by (auto simp: startNewGame_def)
qed (simp_all add: IncCounter_ok lookupPlayer_ok loginPlayer_ok logoutInactive_ok saveIfChanged_ok deleteGame_ok server_ok_perm)

section \<open>The status page\<close>

text \<open>The report of a bucket: from the bound before it to its own, the outer two without a limit.\<close>

definition bucketOf :: "distribution \<Rightarrow> nat \<Rightarrow> statusz_bucket" where
  "bucketOf d j = \<lparr>sbLower = (if j = 0 then NegInf else Num (dBounds d ! (j - 1))),
     sbUpper = (if j = length (dBounds d) then PosInf else Num (dBounds d ! j)), sbCount = dCounts d ! j\<rparr>"

definition usedBuckets :: "distribution \<Rightarrow> nat list" where
  "usedBuckets d = filter (\<lambda>j. dCounts d ! j \<noteq> 0) [0..<length (dCounts d)]"

lemma dist_ok_length: "dist_ok d \<Longrightarrow> length (dCounts d) = Suc (length (dBounds d)) \<and> dBounds d \<noteq> []"
  by (auto simp: dist_ok_def holds_def)

lemma statuszBucket_eq:
  assumes "dist_ok d" "j < length (dCounts d)"
  shows "statuszBucket d j = Some (bucketOf d j)"
proof -
  have "idx_list (dBounds d) (int j - 1) = Some (dBounds d ! (j - 1))" if "j \<noteq> 0"
    using that assms dist_ok_length[OF assms(1)] by (simp add: idx_list_in nat_diff_distrib)
  then show ?thesis using assms dist_ok_length[OF assms(1)]
    by (auto simp: statuszBucket_def bucketOf_def idx_list_in)
qed

lemma those_map_eq: "(\<And>x. x \<in> set xs \<Longrightarrow> f x = Some (g x)) \<Longrightarrow> those (map f xs) = Some (map g xs)"
  by (induction xs) simp_all

lemma statuszDistrib_eq:
  assumes "dist_ok d"
  shows "statuszDistrib d = Some \<lparr>sdName = dName d, sdBuckets = map (bucketOf d) (usedBuckets d)\<rparr>"
proof -
  have "those (map (statuszBucket d) (usedBuckets d)) = Some (map (bucketOf d) (usedBuckets d))"
    by (rule those_map_eq) (simp add: usedBuckets_def statuszBucket_eq[OF assms])
  then show ?thesis unfolding statuszDistrib_def usedBuckets_def[symmetric] by simp
qed

lemma Copy_id: "Distribution_Copy d = d"
  by (simp add: Distribution_Copy_def)

lemma statuszResponse_eq:
  assumes "server_ok s"
  shows "statuszResponse s = Some \<lparr>szGames = length (ongoingGames s), szPlayers = length (loggedInPlayers s),
    szCounters = sortSlice (\<lambda>a b. ctName a < ctName b) (map snd (counters s)),
    szDistribs = sortSlice (\<lambda>a b. sdName a < sdName b)
      (map (\<lambda>kd. \<lparr>sdName = dName (snd kd), sdBuckets = map (bucketOf (snd kd)) (usedBuckets (snd kd))\<rparr>) (distrib s))\<rparr>"
proof -
  have "those (map (statuszDistrib \<circ> Distribution_Copy \<circ> snd) (distrib s)) =
      Some (map (\<lambda>kd. \<lparr>sdName = dName (snd kd), sdBuckets = map (bucketOf (snd kd)) (usedBuckets (snd kd))\<rparr>) (distrib s))"
  proof (rule those_map_eq)
    fix kd assume "kd \<in> set (distrib s)"
    then have "dist_ok (snd kd)" using server_okD(5)[OF assms, of "fst kd" "snd kd"] by simp
    then show "(statuszDistrib \<circ> Distribution_Copy \<circ> snd) kd =
        Some \<lparr>sdName = dName (snd kd), sdBuckets = map (bucketOf (snd kd)) (usedBuckets (snd kd))\<rparr>"
      by (simp add: statuszDistrib_eq Copy_id)
  qed
  then show ?thesis unfolding statuszResponse_def by simp
qed

lemma last_nth: "length xs = Suc n \<Longrightarrow> last xs = xs ! n"
  by (cases xs rule: rev_cases) auto

lemma outer_bucket:
  assumes "dist_ok d"
  shows "(\<forall>j \<in> set (usedBuckets d). jsonFloat (sbLower (bucketOf d j)) \<and> jsonFloat (sbUpper (bucketOf d j))) \<longleftrightarrow>
    dCounts d ! 0 = 0 \<and> last (dCounts d) = 0"
proof -
  have len: "length (dCounts d) = Suc (length (dBounds d))" using dist_ok_length[OF assms] by simp
  then have "last (dCounts d) = dCounts d ! length (dBounds d)" by (rule last_nth)
  then show ?thesis using len by (auto simp: usedBuckets_def bucketOf_def jsonFloat_def)
qed

text \<open>C22. The status page reports every counter, in the order of the names, and every bucket that is not
  empty. It fails with a panic exactly when some distribution has a value below its first or not
  below its last bound: the limits of those buckets are infinite, which JSON cannot express.\<close>

theorem statusz_fails_on_outer_buckets:
  assumes "server_reachable s"
  shows "(handleStatusz s = None \<longleftrightarrow> list_ex (\<lambda>(k, d). dCounts d ! 0 \<noteq> 0 \<or> last (dCounts d) \<noteq> 0) (distrib s)) \<and>
    (\<exists>resp. statuszResponse s = Some resp \<and> szGames resp = length (ongoingGames s) \<and>
      szPlayers resp = length (loggedInPlayers s) \<and>
      sorted_wrt (\<lambda>a b. ctName a \<le> ctName b) (szCounters resp) \<and> mset (szCounters resp) = mset (map snd (counters s)) \<and>
      mset (map (\<lambda>d. (sdName d, map sbCount (sdBuckets d))) (szDistribs resp)) =
        mset (map (\<lambda>(k, d). (dName d, filter (\<lambda>n. n \<noteq> 0) (dCounts d))) (distrib s)))"
proof -
  note ok = server_reachable_ok[OF assms]
  let ?report = "\<lambda>kd. \<lparr>sdName = dName (snd kd), sdBuckets = map (bucketOf (snd kd)) (usedBuckets (snd kd))\<rparr>"
  note r = statuszResponse_eq[OF ok]
  have "(\<forall>b \<in> set (sdBuckets (?report kd)). jsonFloat (sbLower b) \<and> jsonFloat (sbUpper b)) \<longleftrightarrow>
      dCounts (snd kd) ! 0 = 0 \<and> last (dCounts (snd kd)) = 0" if "kd \<in> set (distrib s)" for kd
    using outer_bucket[of "snd kd"] server_okD(5)[OF ok, of "fst kd" "snd kd"] that by simp
  then have "jsonStatusz (the (statuszResponse s)) \<longleftrightarrow>
      (\<forall>kd \<in> set (distrib s). dCounts (snd kd) ! 0 = 0 \<and> last (dCounts (snd kd)) = 0)"
    unfolding r jsonStatusz_def by simp
  then have panic: "handleStatusz s = None \<longleftrightarrow> list_ex (\<lambda>(k, d). dCounts d ! 0 \<noteq> 0 \<or> last (dCounts d) \<noteq> 0) (distrib s)"
    using r by (auto simp: handleStatusz_def list_ex_iff split_def)
  have "map sbCount (sdBuckets (?report kd)) = filter (\<lambda>n. n \<noteq> 0) (dCounts (snd kd))" for kd
    unfolding usedBuckets_def by (subst (2) map_nth[symmetric, of "dCounts (snd kd)"])
      (simp add: bucketOf_def filter_map comp_def)
  then have reported: "map (\<lambda>d. (sdName d, map sbCount (sdBuckets d))) (map ?report (distrib s)) =
      map (\<lambda>(k, d). (dName d, filter (\<lambda>n. n \<noteq> 0) (dCounts d))) (distrib s)" by (auto simp: split_def)
  have "mset (map h (sortSlice b xs)) = mset (map h xs)" for h :: "statusz_distrib \<Rightarrow> string \<times> 64 word list" and b xs
    by simp
  then have "mset (map (\<lambda>d. (sdName d, map sbCount (sdBuckets d))) (sortSlice (\<lambda>a b. sdName a < sdName b) (map ?report (distrib s)))) =
      mset (map (\<lambda>(k, d). (dName d, filter (\<lambda>n. n \<noteq> 0) (dCounts d))) (distrib s))" unfolding reported[symmetric] .
  moreover have "sorted_wrt (\<lambda>a b. ctName a \<le> ctName b) (sortSlice (\<lambda>a b :: counter. ctName a < ctName b) xs)" for xs
    by (rule sorted_sortSlice) simp
  ultimately show ?thesis using r panic by (simp del: mset_map)
qed

lemma fresh_counts:
  assumes "holds bs vs d" "sorted_wrt (<) bs" "bs \<noteq> []"
  shows "vs = [] \<Longrightarrow> dCounts d ! 0 = 0 \<and> last (dCounts d) = 0" and "vs = [v] \<Longrightarrow> v < hd bs \<Longrightarrow> dCounts d ! 0 = 1"
proof -
  have "length (dCounts d) = Suc (length bs)" using assms(1) by (simp add: holds_def)
  then have "last (dCounts d) = dCounts d ! length bs" by (rule last_nth)
  then show "vs = [] \<Longrightarrow> dCounts d ! 0 = 0 \<and> last (dCounts d) = 0" using assms(1) by (simp add: holds_def)
  show "vs = [v] \<Longrightarrow> v < hd bs \<Longrightarrow> dCounts d ! 0 = 1"
    using assms(1,3) by (simp add: holds_def inBucket_def hd_conv_nth)
qed

definition someConfig :: server_config where
  "someConfig = \<lparr>ServerAddress = [], ServerPort = 8080, DocumentRoot = ''./resources'', PlayerRemoveDelay = 60000000000,
     LoginTtl = 86400000000000, CompThinkTime = 5000000000, AuthTokenSha256 = [], TlsCertChain = [], TlsPrivKey = [],
     DebugMode = False\<rparr>"

text \<open>A search that was faster than a millisecond breaks the status page for good.\<close>

theorem statusz_fails_on_outer_buckets_witness:
  "\<exists>s r. server_reachable s \<and> handleStatusz s \<noteq> None \<and> AddDistribValue (mctsName ''elapsed'') 0 s = Some r \<and>
     handleStatusz (fst r) = None"
proof -
  obtain s where s: "NewServer someConfig 0 = Some s" "server_ok s"
    "map fst (distrib s) = map mctsName [''elapsed'', ''iterations'', ''tree_size'', ''iterations_per_sec'']"
    "\<forall>(k, d) \<in> set (distrib s). 0 < hd (dBounds d) \<and> holds (dBounds d) [] d"
    using NewServer_ok[of someConfig 0] by blast
  then obtain d ds where d: "distrib s = (mctsName ''elapsed'', d) # ds" by (cases "distrib s") auto
  have reach: "server_reachable s"
    using server_reachable.start[OF s(1), of None] by (simp add: loadUserDatabase_def)
  have ok: "dist_ok e" if "(k, e) \<in> set (distrib s)" for k e using server_okD(5)[OF s(2) that] .
  have "\<not> list_ex (\<lambda>(k, d). dCounts d ! 0 \<noteq> 0 \<or> last (dCounts d) \<noteq> 0) (distrib s)"
    using s(4) ok fresh_counts(1) by (fastforce simp: list_ex_iff dist_ok_def)
  then have fine: "handleStatusz s \<noteq> None" using statusz_fails_on_outer_buckets[OF reach] by blast
  have h: "holds (dBounds d) [] d" "0 < hd (dBounds d)" "sorted_wrt (<) (dBounds d)" "dBounds d \<noteq> []"
    using s(4) ok[of _ d] by (auto simp: d dist_ok_def)
  obtain d' where d': "Distribution_Add 0 d = Some d'" "holds (dBounds d) [0] d'"
    using Distribution_Add_ok[OF h(3,1), of 0] by auto
  then have "dCounts d' ! 0 = 1" using fresh_counts(2)[OF d'(2) h(3,4)] h(2) by simp
  moreover define t where "t = s\<lparr>distrib := (mctsName ''elapsed'', d') # ds\<rparr>"
  moreover have add: "AddDistribValue (mctsName ''elapsed'') 0 s = Some (t, True)"
    using d d'(1) by (simp add: AddDistribValue_def t_def)
  then have "server_reachable t" using server_reachable.measured[OF reach add] by simp
  ultimately have "handleStatusz t = None" using statusz_fails_on_outer_buckets[of t] by simp
  with reach fine add show ?thesis by auto
qed

section \<open>Sessions\<close>



end
