(* ===== verification/HttpProps.thy ===== *)
theory HttpProps
  imports ServerProps
begin

text \<open>
  What the HTTP handlers promise: a new game is found under the address the client is sent to, only
  well-formed moves reach a game, and names and pages are harmless.
\<close>

section \<open>Starting a game\<close>

lemma gameIdFromPath_game: "CHR ''/'' \<notin> set i \<Longrightarrow> gameIdFromPath (''/hexz/'' @ i) = i"
  by (simp add: gameIdFromPath_def Split_single)

lemma gameIdFromPath_below: "CHR ''/'' \<notin> set w \<Longrightarrow> CHR ''/'' \<notin> set i \<Longrightarrow> gameIdFromPath (''/hexz/'' @ w @ ''/'' @ i) = i"
  by (simp add: gameIdFromPath_def Split_single Split_append)

text \<open>The address of a game is served by \<open>handleGame\<close>: it is clean, and no other pattern is as long.\<close>

lemma dispatch_game:
  assumes "set i \<subseteq> set alphabet" "length i = 6"
  shows "dispatch (''/hexz/'' @ i) = Some RGame"
proof -
  obtain c cs where i: "i = c # cs" "length cs = 5" using assms(2) by (cases i) auto
  have c: "c \<in> set alphabet" using assms(1) i by simp
  then have upper: "c \<noteq> CHR ''m'' \<and> c \<noteq> CHR ''r'' \<and> c \<noteq> CHR ''s'' \<and> c \<noteq> CHR ''l'' \<and> c \<noteq> CHR ''i'' \<and> c \<noteq> CHR ''n'' \<and>
      c \<noteq> CHR ''g'' \<and> c \<noteq> CHR ''.''"
    by (auto simp: alphabet_def)
  have slash: "CHR ''/'' \<notin> set i" using assms(1) by (auto simp: alphabet_def)
  obtain ds d where "i = ds @ [d]" using i(1) rev_exhaust[of i] by blast
  with slash have "\<not> HasSuffix (''/hexz/'' @ i) ''/''" by (auto simp: HasSuffix_def)
  moreover have "cleanSegs [] (Split (CHR ''/'') (''/hexz/'' @ i)) = [''hexz'', i]"
  proof -
    have "i \<noteq> []" "i \<noteq> ''.''" "i \<noteq> ''..''" using upper i(1) by auto
    then show ?thesis by (simp add: Split_single[OF slash])
  qed
  ultimately have clean: "cleanPath (''/hexz/'' @ i) = ''/hexz/'' @ i"
    by (simp add: cleanPath_def Clean_rooted_def HasPrefix_def)
  have "redirectToPathSlash (''/hexz/'' @ i) = None"
    using upper by (auto simp: redirectToPathSlash_def routes_def i(1))
  moreover have m: "filter (\<lambda>(pat, _). matches (''/hexz/'' @ i) pat) routes = [(''/hexz/'', RGame), (''/'', RDefault)]"
    using upper by (simp add: routes_def matches_def HasSuffix_def HasPrefix_def i(1))
  ultimately show ?thesis using clean unfolding dispatch_def muxMatch_def m by (simp add: sortSlice_def)
qed

lemma newGameOf_started:
  assumes "newGameOf p t single now rs s = Some (s', calls)" "GoMaster g \<in> set calls"
  obtains s2 where "single = Some True \<longrightarrow> supportsSinglePlayer t"
    "startNewGame (plName p) t (single = Some True) now rs s = Some (Inr g, s2)"
    "s' = IncCounter_server ''/games/started'' s2" "calls = [GoMaster g, HttpRedirect (''/hexz/'' @ ghId g) 303]"
proof -
  have c: "single \<noteq> None" "\<not> (single = Some True \<and> \<not> supportsSinglePlayer t)"
    using assms by (auto simp: newGameOf_def split: if_splits)
  have eq: "newGameOf p t single now rs s = Option.bind (startNewGame (plName p) t (single = Some True) now rs s)
      (\<lambda>gs. case fst gs of Inl e \<Rightarrow> None
        | Inr g \<Rightarrow> Some (IncCounter_server ''/games/started'' (snd gs), [GoMaster g, HttpRedirect (''/hexz/'' @ ghId g) 303]))"
    using c unfolding newGameOf_def split_def by (simp only: if_False)
  obtain gs where gs: "startNewGame (plName p) t (single = Some True) now rs s = Some gs"
    using assms(1) unfolding eq by (cases "startNewGame (plName p) t (single = Some True) now rs s") simp_all
  obtain g' where g': "fst gs = Inr g'" using assms(1) gs unfolding eq by (cases "fst gs") simp_all
  have "Some (s', calls) = Some (IncCounter_server ''/games/started'' (snd gs), [GoMaster g', HttpRedirect (''/hexz/'' @ ghId g') 303])"
    using assms(1) unfolding eq gs by (simp add: g')
  then have r: "s' = IncCounter_server ''/games/started'' (snd gs)" "calls = [GoMaster g', HttpRedirect (''/hexz/'' @ ghId g') 303]"
    by simp_all
  with assms(2) have "g' = g" by simp
  with that[OF _ _ r(1)] c(2) gs g' r(2) show thesis by (metis prod.collapse)
qed

lemma handleNewGame_cases:
  assumes "handleNewGame files r now rs s = Some (s', calls)" "GoMaster g \<in> set calls"
  obtains p s1 f single where "lookupPlayerFromCookie r now s = (Inr p, s1)" "rqForm r = Some f"
    "newGameOf p (gameTypeOf (FormGet f ''type'')) single now rs s1 = Some (s', calls)"
proof -
  obtain pe s1 where l: "lookupPlayerFromCookie r now s = (pe, s1)" by (cases "lookupPlayerFromCookie r now s")
  have post: "rqMethod r = ''POST''" using assms by (auto simp: handleNewGame_def split: if_splits)
  obtain p where p: "pe = Inr p"
  proof (cases pe)
    case (Inl e)
    with assms l post have "(s', calls) = handleLoginPage files s1" by (simp add: handleNewGame_def)
    with assms(2) show thesis by (auto simp: handleLoginPage_def split: prod.splits option.splits)
  qed blast
  obtain f where f: "rqForm r = Some f" using assms l p post by (cases "rqForm r") (auto simp: handleNewGame_def)
  have "newGameOf p (gameTypeOf (FormGet f ''type''))
      (if FormHas f ''singlePlayer'' then ParseBool (FormGet f ''singlePlayer'') else Some False) now rs s1 = Some (s', calls)"
    using assms l p post f by (auto simp: handleNewGame_def Let_def split: if_splits)
  from that[OF l[unfolded p] f this] show thesis .
qed

text \<open>A session is looked up under the cookie, and its player has that id.\<close>

lemma lookupPlayerFromCookie_Inr:
  assumes "server_reachable s" "lookupPlayerFromCookie r now s = (Inr p, s')"
  shows "map_of (rqCookies r) playerIdCookieName = Some (plId p) \<and> map_of (loggedInPlayers s') (plId p) = Some p \<and>
    (\<exists>q. map_of (loggedInPlayers s) (plId p) = Some q \<and> p = q\<lparr>plLastActive := now\<rparr>) \<and>
    server_reachable s' \<and> ongoingGames s' = ongoingGames s"
proof -
  obtain v where v: "map_of (rqCookies r) playerIdCookieName = Some v"
    using assms(2) by (auto simp: lookupPlayerFromCookie_def split: option.splits)
  then obtain q where q: "map_of (loggedInPlayers s) v = Some q" "p = q\<lparr>plLastActive := now\<rparr>" "s' = snd (lookupPlayer v now s)"
    using assms(2) by (auto simp: lookupPlayerFromCookie_def lookupPlayer_def Let_def split: option.splits)
  have "plId q = v" using keyed_lookup[OF server_okD(2)[OF server_reachable_ok[OF assms(1)]] q(1)] .
  with v q server_reachable.seen[OF assms(1), of v now] show ?thesis
    by (simp add: lookupPlayer_def update_conv' Let_def)
qed

text \<open>C24. A game that \<open>handleNewGame\<close> starts has a new id of six letters, is hosted by the player, has the
  type of the form and is in single player mode only if the type supports it. The address that the
  client is sent to is served by the game page, and the id found in it, there and below
  the addresses for moves and events, leads to this game. No other game is changed.\<close>

theorem new_game_is_found:
  assumes "server_reachable s" "handleNewGame files r now rs s = Some (s', calls)" "GoMaster g \<in> set calls"
  shows "calls = [GoMaster g, HttpRedirect (''/hexz/'' @ ghId g) 303] \<and>
    dispatch (''/hexz/'' @ ghId g) = Some RGame \<and>
    list_all (\<lambda>path. lookupGame (gameIdFromPath path) s' = Some g)
      [''/hexz/'' @ ghId g, ''/hexz/move/'' @ ghId g, ''/hexz/reset/'' @ ghId g, ''/hexz/sse/'' @ ghId g] \<and>
    lookupGame (ghId g) s = None \<and> ghHost g \<in> plName ` set (map snd (loggedInPlayers s)) \<and>
    (ghSingle g \<longrightarrow> supportsSinglePlayer (ghType g)) \<and>
    (\<forall>i. i \<noteq> ghId g \<longrightarrow> lookupGame i s' = lookupGame i s)"
proof -
  obtain p s1 f single where c: "lookupPlayerFromCookie r now s = (Inr p, s1)" "rqForm r = Some f"
    "newGameOf p (gameTypeOf (FormGet f ''type'')) single now rs s1 = Some (s', calls)"
    by (rule handleNewGame_cases[OF assms(2,3)])
  obtain s2 where n: "single = Some True \<longrightarrow> supportsSinglePlayer (gameTypeOf (FormGet f ''type''))"
    "startNewGame (plName p) (gameTypeOf (FormGet f ''type'')) (single = Some True) now rs s1 = Some (Inr g, s2)"
    "s' = IncCounter_server ''/games/started'' s2" "calls = [GoMaster g, HttpRedirect (''/hexz/'' @ ghId g) 303]"
    by (rule newGameOf_started[OF c(3) assms(3)])
  note L = lookupPlayerFromCookie_Inr[OF assms(1) c(1)]
  have s1: "server_ok s1" using L server_reachable_ok by blast
  from startLoop_ok[OF s1, of 100 "plName p" "gameTypeOf (FormGet f ''type'')" "single = Some True" now rs] n(2)
  have g: "map_of (ongoingGames s1) (ghId g) = None" "length (ghId g) = 6" "set (ghId g) \<subseteq> set alphabet"
    "g = \<lparr>ghId = ghId g, ghStarted = now, ghType = gameTypeOf (FormGet f ''type''), ghHost = plName p, ghSingle = (single = Some True)\<rparr>"
    "s2 = s1\<lparr>ongoingGames := AList.update (ghId g) g (ongoingGames s1)\<rparr>"
    by (auto simp: startNewGame_def)
  have slash: "CHR ''/'' \<notin> set (ghId g)" using g(3) by (auto simp: alphabet_def)
  have look: "lookupGame i s' = (if i = ghId g then Some g else lookupGame i s)" for i
    using L by (simp add: lookupGame_def n(3) g(5) update_conv')
  have ids: "gameIdFromPath (''/hexz/'' @ ghId g) = ghId g" "gameIdFromPath (''/hexz/move/'' @ ghId g) = ghId g"
    "gameIdFromPath (''/hexz/reset/'' @ ghId g) = ghId g" "gameIdFromPath (''/hexz/sse/'' @ ghId g) = ghId g"
    using gameIdFromPath_game[OF slash] gameIdFromPath_below[OF _ slash, of "''move''"]
      gameIdFromPath_below[OF _ slash, of "''reset''"] gameIdFromPath_below[OF _ slash, of "''sse''"] by simp_all
  have fields: "ghHost g = plName p" "ghSingle g = (single = Some True)" "ghType g = gameTypeOf (FormGet f ''type'')"
    by (subst g(4), simp)+
  obtain q where "map_of (loggedInPlayers s) (plId p) = Some q" "p = q\<lparr>plLastActive := now\<rparr>" using L by blast
  then have "plName p \<in> plName ` set (map snd (loggedInPlayers s))" using map_of_SomeD by (force simp: image_iff)
  moreover have "lookupGame (ghId g) s = None" using g(1) L by (simp add: lookupGame_def)
  ultimately show ?thesis using n(1,4) dispatch_game[OF g(3,2)] look ids fields by simp
qed

definition newGameRequest :: "string \<Rightarrow> request" where
  "newGameRequest i = \<lparr>rqMethod = ''POST'', rqPath = ''/hexz/new'', rqCookies = [(''playerId'', i)],
     rqForm = Some [(''type'', [game_type_name GameTypeFlagz]), (''singlePlayer'', [''true''])], rqBody = []\<rparr>"

definition someRequest :: request where
  "someRequest = newGameRequest ''7''"

lemma server_with_player: "\<exists>s. server_reachable s \<and> loggedInPlayers s = [(''7'', \<lparr>plId = ''7'', plName = ''Ann'', plLastActive = 0\<rparr>)] \<and>
    ongoingGames s = []"
proof -
  obtain s where s: "NewServer someConfig 0 = Some s" "loggedInPlayers s = []" "ongoingGames s = []"
    using NewServer_ok[of someConfig 0] by blast
  then have "server_reachable s" using server_reachable.start[OF s(1), of None] by (simp add: loadUserDatabase_def)
  from server_reachable.login[OF this, of "''7''" "''Ann''" 0] s show ?thesis
    by (intro exI[of _ "snd (loginPlayer ''7'' ''Ann'' 0 s)"]) (simp add: loginPlayer_def Let_def)
qed

lemma new_game_from:
  assumes "loggedInPlayers s = [(j, \<lparr>plId = j, plName = ''Ann'', plLastActive = 0\<rparr>)]" "ongoingGames s = []"
  shows "\<exists>s' g u. handleNewGame files (newGameRequest j) 1 (sconst 0) s = Some (s', [GoMaster g, HttpRedirect u 303])"
proof -
  obtain i r' where i: "generateGameId (sconst 0) = Some (i, r')" using generateGameId_ok by blast
  let ?p = "\<lparr>plId = j, plName = ''Ann'', plLastActive = 1\<rparr>"
  let ?s1 = "s\<lparr>loggedInPlayers := [(j, ?p)]\<rparr>"
  have "lookupPlayerFromCookie (newGameRequest j) 1 s = (Inr ?p, ?s1)"
    using assms(1) by (simp add: lookupPlayerFromCookie_def playerIdCookieName_def lookupPlayer_def newGameRequest_def Let_def)
  moreover have "FormGet (the (rqForm (newGameRequest j))) ''type'' = game_type_name GameTypeFlagz"
    "FormHas (the (rqForm (newGameRequest j))) ''singlePlayer''" "ParseBool (FormGet (the (rqForm (newGameRequest j))) ''singlePlayer'') = Some True"
    by (simp_all add: newGameRequest_def FormGet_def FormHas_def ParseBool_def)
  moreover have "validGameType (game_type_name GameTypeFlagz)" "game_type_name GameTypeFlagz \<noteq> []" by (simp_all add: validGameType_def)
  ultimately have h: "handleNewGame files (newGameRequest j) 1 (sconst 0) s = newGameOf ?p GameTypeFlagz (Some True) 1 (sconst 0) ?s1"
    by (simp add: handleNewGame_def Let_def) (simp add: newGameRequest_def gameTypeOf_def)
  have "startNewGame ''Ann'' GameTypeFlagz True 1 (sconst 0) ?s1 =
      Some (Inr \<lparr>ghId = i, ghStarted = 1, ghType = GameTypeFlagz, ghHost = ''Ann'', ghSingle = True\<rparr>,
        ?s1\<lparr>ongoingGames := [(i, \<lparr>ghId = i, ghStarted = 1, ghType = GameTypeFlagz, ghHost = ''Ann'', ghSingle = True\<rparr>)]\<rparr>)"
    unfolding startNewGame_def numeral_nat by (simp add: i assms(2) Let_def)
  with h show ?thesis by (simp add: newGameOf_def supportsSinglePlayer_def)
qed

lemma some_new_game: "\<exists>s s' calls g. server_reachable s \<and> handleNewGame Map.empty someRequest 1 (sconst 0) s = Some (s', calls) \<and>
    GoMaster g \<in> set calls"
proof -
  obtain s where s: "server_reachable s" "loggedInPlayers s = [(''7'', \<lparr>plId = ''7'', plName = ''Ann'', plLastActive = 0\<rparr>)]"
    "ongoingGames s = []" using server_with_player by blast
  with new_game_from[OF s(2,3), of Map.empty] show ?thesis unfolding someRequest_def by fastforce
qed

theorem new_game_is_found_witness:
  "\<exists>s s' calls g. handleNewGame Map.empty someRequest 1 (sconst 0) s = Some (s', calls) \<and>
     lookupGame (gameIdFromPath (''/hexz/'' @ ghId g)) s' = Some g"
proof -
  obtain s s' calls g where "server_reachable s" "handleNewGame Map.empty someRequest 1 (sconst 0) s = Some (s', calls)"
    "GoMaster g \<in> set calls" using some_new_game by blast
  with new_game_is_found[OF this] show ?thesis by auto
qed

section \<open>Moves\<close>

text \<open>C25. A move reaches a game only if the body can be decoded and names a cell type, so that the type
  the game works with is the one sent; the game is the one named in the path and is going on. The
  move is made in the name of the player of the session, or, after a request that has already been
  answered with an error, in the name of nobody, and is then ignored by a game in which nobody has
  joined under the empty id.\<close>

theorem moves_sent_are_well_formed:
  assumes "server_reachable s" "handleMove_http decode r now s = (s', calls)" "SendControl i ev \<in> set calls"
  shows "\<exists>j req. ev = ControlEventMove j req 0 \<and> decode (rqBody r) = Inr req \<and>
    int (cell_iota (mvType (moveOf q req))) = ReqType req \<and>
    i = gameIdFromPath (rqPath r) \<and> lookupGame i s' \<noteq> None \<and> server_reachable s' \<and>
    (if status calls = 200
     then rqMethod r = ''POST'' \<and> map_of (rqCookies r) playerIdCookieName = Some j \<and> map_of (loggedInPlayers s') j \<noteq> None
     else status calls = 400 \<and> j = [] \<and>
       (\<forall>g. map_of (gmPlayers g) [] = None \<longrightarrow> handleControl ts ev g = Some (g, [])))"
proof -
  obtain pe s1 where v: "validatePostRequest r now s = (pe, s1)" by (cases "validatePostRequest r now s")
  obtain req where d: "decode (rqBody r) = Inr req" "cellType_valid (ReqType req)"
    using assms(2,3) v by (auto simp: handleMove_http_def Let_def split: sum.splits if_splits)
  obtain game where g: "lookupGame (gameIdFromPath (rqPath r)) s1 = Some game"
    using assms(2,3) v d by (auto simp: handleMove_http_def Let_def split: sum.splits option.splits)
  have r: "s' = s1" "calls = (case pe of Inl e \<Rightarrow> [HttpError e 400] | Inr p \<Rightarrow> []) @
      [SendControl (ghId game) (ControlEventMove (plId (case pe of Inl e \<Rightarrow> noPlayer | Inr p \<Rightarrow> p)) req 0)]"
    using assms(2) v d g by (simp_all add: handleMove_http_def Let_def)
  have same: "int (cell_iota (mvType (moveOf q req))) = ReqType req"
    using d(2) by (auto simp: moveOf_def cellType_valid_iff)
  have reach: "server_reachable s1"
    using v assms(1) server_reachable.seen[OF assms(1)]
    by (force simp: validatePostRequest_def lookupPlayerFromCookie_def lookupPlayer_def Let_def split: if_splits option.splits)
  have gid: "ghId game = gameIdFromPath (rqPath r)"
    using keyed_lookup[OF server_okD(1)[OF server_reachable_ok[OF reach]]] g by (simp add: lookupGame_def)
  show ?thesis
  proof (cases pe)
    case (Inl e)
    then show ?thesis using assms(3) r d(1) same g gid reach
      by (auto simp: noPlayer_def handleMove_def)
  next
    case (Inr p)
    then have "rqMethod r = ''POST''" "lookupPlayerFromCookie r now s = (Inr p, s1)"
      using v by (auto simp: validatePostRequest_def split: if_splits prod.splits sum.splits)
    with lookupPlayerFromCookie_Inr[OF assms(1)] show ?thesis using Inr assms(3) r d(1) same g gid reach by auto
  qed
qed

text \<open>A request without a session, for a game that goes on: the client is told 400, and the event is
  sent to the game all the same.\<close>

theorem moves_sent_are_well_formed_witness:
  "\<exists>s r s' calls i ev. handleMove_http (\<lambda>b. Inr \<lparr>ReqMove = 0, ReqRow = 0, ReqCol = 0, ReqType = 5\<rparr>) r 1 s = (s', calls) \<and>
     SendControl i ev \<in> set calls \<and> status calls = 400 \<and>
     (\<forall>g. map_of (gmPlayers g) [] = None \<longrightarrow> handleControl [] ev g = Some (g, []))"
proof -
  let ?decode = "\<lambda>b. Inr \<lparr>ReqMove = 0, ReqRow = 0, ReqCol = 0, ReqType = 5\<rparr> :: string + move_request"
  obtain s s' calls g where n: "server_reachable s" "handleNewGame Map.empty someRequest 1 (sconst 0) s = Some (s', calls)"
    "GoMaster g \<in> set calls" using some_new_game by blast
  obtain p s1 f single where c: "lookupPlayerFromCookie someRequest 1 s = (Inr p, s1)"
    "newGameOf p (gameTypeOf (FormGet f ''type'')) single 1 (sconst 0) s1 = Some (s', calls)"
    by (rule handleNewGame_cases[OF n(2,3)])
  note L = lookupPlayerFromCookie_Inr[OF n(1) c(1)]
  obtain s2 where s2: "startNewGame (plName p) (gameTypeOf (FormGet f ''type'')) (single = Some True) 1 (sconst 0) s1 = Some (Inr g, s2)"
    by (rule newGameOf_started[OF c(2) n(3)])
  have reach: "server_reachable s2" using L s2 server_reachable.started by blast
  from startLoop_ok[OF server_reachable_ok, of s1 100 "plName p" "gameTypeOf (FormGet f ''type'')" "single = Some True" 1 "sconst 0"] L s2
  have g: "set (ghId g) \<subseteq> set alphabet" "lookupGame (ghId g) s2 = Some g"
    by (auto simp: startNewGame_def lookupGame_def update_conv')
  let ?r = "\<lparr>rqMethod = ''POST'', rqPath = ''/hexz/'' @ ghId g, rqCookies = [], rqForm = None, rqBody = []\<rparr>"
  have "CHR ''/'' \<notin> set (ghId g)" using g(1) by (auto simp: alphabet_def)
  note gid = gameIdFromPath_game[OF this]
  have h: "handleMove_http ?decode ?r 1 s2 = (s2, [HttpError ''invalid method'' 400,
      SendControl (ghId g) (ControlEventMove [] \<lparr>ReqMove = 0, ReqRow = 0, ReqCol = 0, ReqType = 5\<rparr> 0)])"
    using g(2) gid by (simp add: handleMove_http_def validatePostRequest_def lookupPlayerFromCookie_def cellType_valid_def
        cellTypeLen_def noPlayer_def Let_def)
  let ?ev = "ControlEventMove [] \<lparr>ReqMove = 0, ReqRow = 0, ReqCol = 0, ReqType = 5\<rparr> 0"
  have "\<forall>g. map_of (gmPlayers g) [] = None \<longrightarrow> handleControl [] ?ev g = Some (g, [])"
    using moves_sent_are_well_formed[OF reach h, of "ghId g" ?ev undefined "[]"] by simp
  then show ?thesis using h
    by (intro exI[of _ s2] exI[of _ ?r] exI[of _ "[HttpError ''invalid method'' 400, SendControl (ghId g) ?ev]"]
        exI[of _ "ghId g"] exI[of _ ?ev]) simp
qed

text \<open>A reset with a body that is not JSON is answered with 400 and resets the game all the same.\<close>

lemma reset_despite_error:
  assumes "rqMethod r = ''POST''" "lookupPlayerFromCookie r now s = (Inr p, s')" "decode (rqBody r) = Inl e"
    "lookupGame (gameIdFromPath (rqPath r)) s' = Some game"
  shows "handleReset_http decode r now s = (s', [HttpError e 400, SendControl (ghId game) (ControlEventReset (plId p) [])])"
  using assms by (simp add: handleReset_http_def validatePostRequest_def Let_def)

text \<open>A login that is refused because too many players are logged in is counted as a success and sets
  the cookie.\<close>

lemma login_refused_goes_on:
  assumes "rqMethod r = ''POST''" "rqForm r = Some f" "isValidPlayerName latin (TrimSpace (FormGet f ''name''))"
    "length (loggedInPlayers s) > maxLoggedInPlayers"
  shows "\<exists>s'. handleLoginRequest latin i r now s = (IncCounter_server ''/requests/login/success'' s',
      [HttpError ''Cannot log in right now'' 412, SetCookie (makePlayerCookie i (LoginTtl (srvConfig s))), HttpRedirect ''/hexz'' 303]) \<and>
    loggedInPlayers s' = loggedInPlayers s"
  using assms by (auto simp: handleLoginRequest_def loginPlayer_def isValidPlayerName_def Let_def)

section \<open>Names and pages\<close>

text \<open>A byte of a character beyond ASCII, or an ASCII letter, digit, underscore, dot or dash.\<close>

definition plain :: "char \<Rightarrow> bool" where
  "plain c \<longleftrightarrow> (let r = byte c in 128 \<le> r \<or> 65 \<le> r \<and> r \<le> 90 \<or> 97 \<le> r \<and> r \<le> 122 \<or> 48 \<le> r \<and> r \<le> 57 \<or> r \<in> {95, 46, 45})"

lemma valid_name_plain:
  assumes "\<And>r. r < 128 \<Longrightarrow> latin r \<longleftrightarrow> 65 \<le> r \<and> r \<le> 90 \<or> 97 \<le> r \<and> r \<le> 122" "isValidPlayerName latin name"
  shows "3 \<le> length name \<and> length name \<le> 20 \<and> list_all plain name"
proof -
  have "plain c" if "c \<in> set name" for c
  proof (cases "byte c < 128")
    case True
    with ascii_is_rune[OF that] assms(2) have "nameRune latin (byte c)" by (simp add: isValidPlayerName_def list_all_iff)
    with assms(1)[OF True] show ?thesis by (auto simp: nameRune_def plain_def Let_def)
  qed (simp add: plain_def Let_def)
  then show ?thesis using assms(2) by (simp add: isValidPlayerName_def list_all_iff)
qed

lemma handleLoginRequest_players:
  assumes "handleLoginRequest latin i r now s = (s', calls)"
  shows "loggedInPlayers s' = loggedInPlayers s \<or> (\<exists>name. isValidPlayerName latin name \<and>
    loggedInPlayers s' = AList.update i \<lparr>plId = i, plName = name, plLastActive = now\<rparr> (loggedInPlayers s))"
proof (cases "rqMethod r = ''POST'' \<and> rqForm r \<noteq> None \<and> isValidPlayerName latin (TrimSpace (FormGet (the (rqForm r)) ''name''))")
  case True
  then obtain f where f: "rqForm r = Some f" by auto
  let ?name = "TrimSpace (FormGet f ''name'')"
  have v: "isValidPlayerName latin ?name" "?name \<noteq> []" using True f by (auto simp: isValidPlayerName_def)
  have "loggedInPlayers s' = loggedInPlayers s \<or>
      loggedInPlayers s' = AList.update i \<lparr>plId = i, plName = ?name, plLastActive = now\<rparr> (loggedInPlayers s)"
    using assms True f v by (simp add: handleLoginRequest_def loginPlayer_def Let_def split: if_splits) auto
  with v show ?thesis by blast
next
  case False
  then show ?thesis using assms by (auto simp: handleLoginRequest_def Let_def split: if_splits option.splits)
qed

text \<open>The name of a player who logs in has 3 to 20 bytes, and its characters below 128 are letters,
  digits, dots, dashes and underscores: no white space, quotation marks or angle brackets, so that
  it can be put into a page. The hypothesis says what \<open>unicode.Latin\<close> contains below 128.
  A page is the content of a file with one of three extensions, named in the path.\<close>

theorem names_and_pages_harmless:
  assumes "\<And>r. r < 128 \<Longrightarrow> latin r \<longleftrightarrow> 65 \<le> r \<and> r \<le> 90 \<or> 97 \<le> r \<and> r \<le> 122"
    "handleLoginRequest latin i r now s = (s', calls)"
  shows "(case map_of (loggedInPlayers s') i of
      None \<Rightarrow> True
    | Some p \<Rightarrow> map_of (loggedInPlayers s) i = Some p \<or>
        3 \<le> length (plName p) \<and> length (plName p) \<le> 20 \<and> list_all plain (plName p)) \<and>
    (HttpWrite b \<in> set (snd (handleStaticResource files q s)) \<longrightarrow>
      (\<exists>f. rqPath q = ''/hexz/'' @ f \<and> files f = Some b \<and> Ext f \<in> {''.html'', ''.png'', ''.gif''}))"
proof (intro conjI impI)
  show "case map_of (loggedInPlayers s') i of None \<Rightarrow> True
    | Some p \<Rightarrow> map_of (loggedInPlayers s) i = Some p \<or>
        3 \<le> length (plName p) \<and> length (plName p) \<le> 20 \<and> list_all plain (plName p)"
    using handleLoginRequest_players[OF assms(2)] valid_name_plain[OF assms(1)]
    by (auto simp: update_conv' split: option.splits)
  assume "HttpWrite b \<in> set (snd (handleStaticResource files q s))"
  then obtain f where f: "rqPath q = ''/hexz/'' @ f" "HttpWrite b \<in> set (snd (handleFile files f s))"
    by (auto simp: handleStaticResource_def HasPrefix_iff Let_def split: if_splits)
  then obtain t where "validResourceFileExts (Ext f) = Some t" "files f = Some b"
    by (auto simp: handleFile_def readFile_def split: option.splits)
  with f(1) show "\<exists>f. rqPath q = ''/hexz/'' @ f \<and> files f = Some b \<and> Ext f \<in> {''.html'', ''.png'', ''.gif''}"
    by (auto simp: validResourceFileExts_def split: if_splits)
qed

definition asciiLetters :: "nat \<Rightarrow> bool" where
  "asciiLetters r \<longleftrightarrow> 65 \<le> r \<and> r \<le> 90 \<or> 97 \<le> r \<and> r \<le> 122"

theorem names_and_pages_harmless_witness:
  "\<exists>s s' calls p. handleLoginRequest asciiLetters ''8''
     \<lparr>rqMethod = ''POST'', rqPath = ''/hexz/login'', rqCookies = [], rqForm = Some [(''name'', ['' Bob.2 ''])], rqBody = []\<rparr> 1 s = (s', calls) \<and>
     status calls = 303 \<and> map_of (loggedInPlayers s') ''8'' = Some p \<and> plName p = ''Bob.2'' \<and> list_all plain (plName p)"
proof -
  let ?r = "\<lparr>rqMethod = ''POST'', rqPath = ''/hexz/login'', rqCookies = [], rqForm = Some [(''name'', ['' Bob.2 ''])], rqBody = []\<rparr>"
  obtain s :: server where s: "loggedInPlayers s = [(''7'', \<lparr>plId = ''7'', plName = ''Ann'', plLastActive = 0\<rparr>)]"
    using server_with_player by blast
  have name: "TrimSpace '' Bob.2 '' = ''Bob.2''" "isValidPlayerName asciiLetters ''Bob.2''"
    by (simp_all add: TrimSpace_def pieces_ascii byte_def IsSpace_def isValidPlayerName_def runes_def nameRune_def asciiLetters_def)
  obtain s' calls where h: "handleLoginRequest asciiLetters ''8'' ?r 1 s = (s', calls)"
    by (cases "handleLoginRequest asciiLetters ''8'' ?r 1 s")
  have "map_of (loggedInPlayers s') ''8'' = Some \<lparr>plId = ''8'', plName = ''Bob.2'', plLastActive = 1\<rparr> \<and> status calls = 303"
    using h s name by (auto simp: handleLoginRequest_def FormGet_def loginPlayer_def maxLoggedInPlayers_def Let_def)
  moreover from this names_and_pages_harmless[OF _ h] have "list_all plain ''Bob.2''"
    using s by (auto simp: asciiLetters_def)
  ultimately show ?thesis using h by force
qed

end
