(* ===== verification/HexzBench.thy ===== *)
theory HexzBench
  imports MctsProps
begin

text \<open>
  The benchmark \<open>hexz/cmd/bench/bench.go\<close>: two tree searches, one with the parameters to evaluate, play
  Flagz against each other until the time is over or somebody interrupts.
\<close>

section \<open>The program\<close>

record bench_flags =
  bfMaxFlagPositions :: int
  bfUctFactor :: real
  bfThinkTime :: int
  bfOppThinkTime :: int
  bfFlagsFirst :: bool

text \<open>Everything from outside: whether there is time for game \<open>r\<close>, and for its move \<open>k\<close>; whether an
  interrupt has arrived; the clock, the random numbers and the duration of the search for a move.\<close>

record bench_env =
  timeForGame :: "nat \<Rightarrow> bool"
  timeForMove :: "nat \<Rightarrow> nat \<Rightarrow> bool"
  interrupted :: "nat \<Rightarrow> nat \<Rightarrow> bool"
  thinkOver :: "nat \<Rightarrow> nat \<Rightarrow> int \<Rightarrow> nat \<Rightarrow> bool"
  searchRnd :: "nat \<Rightarrow> nat \<Rightarrow> rng"
  searchElapsed :: "nat \<Rightarrow> nat \<Rightarrow> int"

type_synonym move_log = "(mcts_stats \<times> int) list"

definition getThinkTime :: "bench_flags \<Rightarrow> move_log \<Rightarrow> bool \<Rightarrow> int" where
  "getThinkTime f stats isBenchPlayer =
    (let moveThinkTime = (if isBenchPlayer then bfThinkTime f else bfOppThinkTime f) in
     if stats \<noteq> [] \<and> (\<not> uct_less (MinQ Inf (sMoves (fst (last stats)))) (Fin (98 / 100)) \<or>
         \<not> uct_less (Fin (2 / 100)) (MinQ Inf (sMoves (fst (last stats)))))
     then 100 * 1000000 else moveThinkTime)"

text \<open>The players' searches.\<close>

definition benchMcts :: "bench_flags \<Rightarrow> int \<Rightarrow> mcts arr2" where
  "benchMcts f benchPlayer = put2 (Arr2 NewMCTS NewMCTS) (benchPlayer - 1)
     (NewMCTS\<lparr>MaxFlagPositions := bfMaxFlagPositions f, UctFactor := bfUctFactor f, FlagsFirst := bfFlagsFirst f\<rparr>)"

text \<open>One round of \<open>Gameloop\<close>, and the loop, from move \<open>k\<close> of game \<open>r\<close> on; its result says whether it was
  interrupted. A refused move ends the program.\<close>

definition playMove :: "bench_env \<Rightarrow> bench_flags \<Rightarrow> mcts arr2 \<Rightarrow> int \<Rightarrow> nat \<Rightarrow> nat \<Rightarrow> flagz \<Rightarrow> move_log arr2 \<Rightarrow>
    (flagz \<times> move_log arr2) option" where
  "playMove env f mcts benchPlayer r k ge logs = do {
     let t = Turn (Brd ge) - 1;
     moves \<leftarrow> get2 logs t;
     p \<leftarrow> get2 mcts t;
     let moveThinkTime = getThinkTime f moves (benchPlayer = Turn (Brd ge));
     (m, stats) \<leftarrow> SuggestMove p (thinkOver env r k moveThinkTime) (searchRnd env r k) ge;
     logs \<leftarrow> set2 logs t (moves @ [(stats, searchElapsed env r k)]);
     (ge, ok) \<leftarrow> Flagz_MakeMove ge m;
     if \<not> ok then None else Some (ge, logs) }"

partial_function (option) gameLoop :: "bench_env \<Rightarrow> bench_flags \<Rightarrow> mcts arr2 \<Rightarrow> int \<Rightarrow> nat \<Rightarrow> nat \<Rightarrow> flagz \<Rightarrow> move_log arr2 \<Rightarrow>
    (flagz \<times> move_log arr2 \<times> bool) option" where
  "gameLoop env f mcts benchPlayer r k ge logs =
    (if \<not> Flagz_IsDone ge \<and> timeForMove env r k then
       if interrupted env r k then Some (ge, logs, True)
       else Option.bind (playMove env f mcts benchPlayer r k ge logs) (\<lambda>q.
         gameLoop env f mcts benchPlayer r (k + 1) (fst q) (snd q))
     else Some (ge, logs, False))"

record wstat =
  wins :: int
  losses :: int
  draws :: int

definition countResult :: "int \<Rightarrow> flagz \<Rightarrow> wstat \<Rightarrow> wstat" where
  "countResult benchPlayer ge w = (if Flagz_IsDone ge then
     (let winner = Flagz_Winner ge in
      if winner = benchPlayer then w\<lparr>wins := wins w + 1\<rparr>
      else if winner > 0 then w\<lparr>losses := losses w + 1\<rparr>
      else w\<lparr>draws := draws w + 1\<rparr>) else w)"

text \<open>The statistics of a player that are printed after a game.\<close>

record agg_stats =
  aggIterations :: int
  aggElapsed :: int
  aggMaxDepth :: int
  aggTreeSize :: int

definition aggregate :: "move_log \<Rightarrow> agg_stats" where
  "aggregate moves = fold (\<lambda>(s, elapsed) a. \<lparr>aggIterations = aggIterations a + sIterations s, aggElapsed = aggElapsed a + elapsed,
     aggMaxDepth = (if aggMaxDepth a < sMaxDepth s then sMaxDepth s else aggMaxDepth a),
     aggTreeSize = (if aggTreeSize a < sTreeSize s then sTreeSize s else aggTreeSize a)\<rparr>) moves
     \<lparr>aggIterations = 0, aggElapsed = 0, aggMaxDepth = 0, aggTreeSize = 0\<rparr>"

text \<open>Game \<open>r\<close>: the results, the random numbers left, whether it was interrupted, and what is printed.\<close>

definition benchPlayerOf :: "nat \<Rightarrow> int" where
  "benchPlayerOf r = int (r mod 2) + 1"

definition benchGame :: "bench_env \<Rightarrow> bench_flags \<Rightarrow> nat \<Rightarrow> wstat arr2 \<Rightarrow> rng \<Rightarrow>
    (wstat arr2 \<times> rng \<times> bool \<times> agg_stats arr2) option" where
  "benchGame env f r wstats src = do {
     ge \<leftarrow> NewGameEngineFlagz src;
     let benchPlayer = benchPlayerOf r;
     (ge, logs, cancelled) \<leftarrow> gameLoop env f (benchMcts f benchPlayer) benchPlayer r 0 ge (Arr2 [] []);
     w \<leftarrow> get2 wstats (benchPlayer - 1);
     wstats \<leftarrow> set2 wstats (benchPlayer - 1) (countResult benchPlayer ge w);
     Some (wstats, rnd ge, cancelled, Arr2 (aggregate (el0 logs)) (aggregate (el1 logs))) }"

partial_function (option) benchLoop :: "bench_env \<Rightarrow> bench_flags \<Rightarrow> nat \<Rightarrow> wstat arr2 \<Rightarrow> rng \<Rightarrow> bool \<Rightarrow> (nat \<times> wstat arr2) option" where
  "benchLoop env f r wstats src cancelled =
    (if timeForGame env r \<and> \<not> cancelled
     then Option.bind (benchGame env f r wstats src) (\<lambda>q. benchLoop env f (r + 1) (fst q) (fst (snd q)) (fst (snd (snd q))))
     else Some (r, wstats))"

definition noResults :: wstat where
  "noResults = \<lparr>wins = 0, losses = 0, draws = 0\<rparr>"

definition runBench :: "bench_env \<Rightarrow> bench_flags \<Rightarrow> rng \<Rightarrow> (nat \<times> wstat arr2) option" where
  "runBench env f src = benchLoop env f 0 (Arr2 noResults noResults) src False"

section \<open>Every game is played by the rules\<close>

text \<open>The flags and the clock of a search: it has time to begin with, and not forever.\<close>

definition bench_ok :: "bench_env \<Rightarrow> bench_flags \<Rightarrow> bool" where
  "bench_ok env f \<longleftrightarrow> 1 \<le> bfMaxFlagPositions f \<and> 0 \<le> bfUctFactor f \<and>
     (\<forall>r k t. \<not> thinkOver env r k t 0 \<and> (\<exists>j. thinkOver env r k t (64 * j)))"

definition moveCount :: "move_log arr2 \<Rightarrow> nat" where
  "moveCount logs = length (el0 logs) + length (el1 logs)"

lemma benchMcts_ok:
  assumes "bench_ok env f" and "pidx i"
  shows "1 \<le> MaxFlagPositions (at2 (benchMcts f benchPlayer) i) \<and> 0 \<le> UctFactor (at2 (benchMcts f benchPlayer) i)"
  using assms by (auto simp: benchMcts_def bench_ok_def put2_def at2_def NewMCTS_def)

lemma playMove_ok:
  assumes env: "bench_ok env f" and ge: "flagz_inv ge" "\<not> over ge"
  obtains ge' logs' where "playMove env f (benchMcts f benchPlayer) benchPlayer r k ge logs = Some (ge', logs')"
    "flagz_inv ge'" "Flagz_rest ge' < Flagz_rest ge" "moveCount logs' = Suc (moveCount logs)" "Move (Brd ge') = Move (Brd ge) + 1"
proof -
  let ?t = "Turn (Brd ge) - 1" and ?mcts = "benchMcts f benchPlayer"
  have t: "pidx ?t" by (rule pos_turn[OF inv_pos[OF ge(1)]])
  define think where "think = getThinkTime f (at2 logs ?t) (benchPlayer = Turn (Brd ge))"
  obtain j where up: "\<not> thinkOver env r k think 0" "thinkOver env r k think (64 * j)" using env unfolding bench_ok_def by blast
  obtain tree md b where s: "SuggestMove (at2 ?mcts ?t) (thinkOver env r k think) (searchRnd env r k) ge =
      Some (nodeMove (Brd ge) (nd b), statsOf (at2 ?mcts ?t) tree md)"
    "b \<in> set (children tree)" "\<forall>c \<in> set (children tree). legal ge (nodeMove (Brd ge) (nd c)) \<and> stat_ok (nd c)"
    by (rule SuggestMove_ok[OF ge conjunct1[OF benchMcts_ok[OF env t]] conjunct2[OF benchMcts_ok[OF env t]] up])
  have m: "legal ge (nodeMove (Brd ge) (nd b))" using s(2,3) by blast
  obtain ge' where ge': "Flagz_MakeMove ge (nodeMove (Brd ge) (nd b)) = Some (ge', True)" "flagz_inv ge'"
    "moved ge (nodeMove (Brd ge) (nd b)) ge'" "Move (Brd ge') = Move (Brd ge) + 1"
    using MakeMove_inv[OF ge(1), of "nodeMove (Brd ge) (nd b)"] m by (auto split: if_splits)
  define logs' where "logs' = put2 logs ?t (at2 logs ?t @ [(statsOf (at2 ?mcts ?t) tree md, searchElapsed env r k)])"
  have "playMove env f ?mcts benchPlayer r k ge logs = Some (ge', logs')"
    using s(1) ge'(1) unfolding playMove_def Let_def get2_in[OF t] set2_in[OF t] think_def logs'_def by simp
  moreover have "moveCount logs' = Suc (moveCount logs)"
    using t by (auto simp: moveCount_def logs'_def put2_def at2_def)
  ultimately show thesis using that ge'(2,4) moved_rest[OF inv_pos[OF ge(1)] m ge'(3)] by blast
qed

text \<open>A game ends: it is over, or the time is, or somebody has interrupted it.\<close>

lemma gameLoop_ok:
  assumes env: "bench_ok env f" and ge: "flagz_inv ge"
  shows "\<exists>ge' logs' c. gameLoop env f (benchMcts f benchPlayer) benchPlayer r k ge logs = Some (ge', logs', c) \<and> flagz_inv ge' \<and>
    moveCount logs' \<le> moveCount logs + Flagz_rest ge \<and>
    (Flagz_IsDone ge' \<or> (\<exists>k'. \<not> timeForMove env r k' \<or> interrupted env r k'))"
  using ge
proof (induction "Flagz_rest ge" arbitrary: k ge logs rule: less_induct)
  case less
  note gameLoop = gameLoop.simps[of env f "benchMcts f benchPlayer" benchPlayer r k ge logs]
  show ?case
  proof (cases "Flagz_IsDone ge \<or> \<not> timeForMove env r k \<or> interrupted env r k")
    case True
    with less.prems gameLoop show ?thesis by auto
  next
    case False
    then have "\<not> over ge" using Flagz_isDone[OF less.prems] by simp
    from playMove_ok[OF env less.prems this] obtain ge1 logs1 where
      p: "playMove env f (benchMcts f benchPlayer) benchPlayer r k ge logs = Some (ge1, logs1)"
        "flagz_inv ge1" "Flagz_rest ge1 < Flagz_rest ge" "moveCount logs1 = Suc (moveCount logs)" by blast
    from less.hyps[OF p(3,2), of "k + 1" logs1] obtain ge' logs' c where
      "gameLoop env f (benchMcts f benchPlayer) benchPlayer r (k + 1) ge1 logs1 = Some (ge', logs', c)" "flagz_inv ge'"
      "moveCount logs' \<le> moveCount logs1 + Flagz_rest ge1"
      "Flagz_IsDone ge' \<or> (\<exists>k'. \<not> timeForMove env r k' \<or> interrupted env r k')" by blast
    with False p gameLoop show ?thesis by (intro exI[of _ ge'] exI[of _ logs'] exI[of _ c]) auto
  qed
qed

definition games :: "wstat \<Rightarrow> int" where
  "games w = wins w + losses w + draws w"

definition results_ok :: "bool \<Rightarrow> nat \<Rightarrow> wstat arr2 \<Rightarrow> bool" where
  "results_ok full r w \<longleftrightarrow>
     (\<forall>x \<in> {el0 w, el1 w}. 0 \<le> wins x \<and> 0 \<le> losses x \<and> 0 \<le> draws x) \<and>
     games (el0 w) \<le> int ((r + 1) div 2) \<and> games (el1 w) \<le> int (r div 2) \<and>
     (full \<longrightarrow> games (el0 w) = int ((r + 1) div 2) \<and> games (el1 w) = int (r div 2))"

lemma countResult_games:
  "games (countResult p ge w) = games w + (if Flagz_IsDone ge then 1 else 0)"
  "0 \<le> wins w \<and> 0 \<le> losses w \<and> 0 \<le> draws w \<Longrightarrow>
    0 \<le> wins (countResult p ge w) \<and> 0 \<le> losses (countResult p ge w) \<and> 0 \<le> draws (countResult p ge w)"
  by (auto simp: countResult_def games_def Let_def)

lemma benchGame_ok:
  assumes env: "bench_ok env f" and w: "results_ok full r w"
    and full: "full \<Longrightarrow> \<forall>r k. timeForMove env r k \<and> \<not> interrupted env r k"
  shows "\<exists>w' src' c agg. benchGame env f r w src = Some (w', src', c, agg) \<and> results_ok full (r + 1) w'"
proof -
  obtain ge where ge: "NewGameEngineFlagz src = Some ge" "flagz_inv ge"
    using Reset_ok by (auto simp: NewGameEngineFlagz_def)
  obtain ge' logs c where g: "gameLoop env f (benchMcts f (benchPlayerOf r)) (benchPlayerOf r) r 0 ge (Arr2 [] []) = Some (ge', logs, c)"
    "Flagz_IsDone ge' \<or> (\<exists>k'. \<not> timeForMove env r k' \<or> interrupted env r k')"
    using gameLoop_ok[OF env ge(2), of "benchPlayerOf r" r 0 "Arr2 [] []"] by blast
  define i where "i = benchPlayerOf r - 1"
  have i: "i = int (r mod 2)" "pidx i" by (auto simp: i_def benchPlayerOf_def)
  define w' where "w' = put2 w i (countResult (benchPlayerOf r) ge' (at2 w i))"
  have "benchGame env f r w src = Some (w', rnd ge', c, Arr2 (aggregate (el0 logs)) (aggregate (el1 logs)))"
    using g(1) by (simp add: benchGame_def ge(1) i_def[symmetric] get2_in[OF i(2)] set2_in[OF i(2)] w'_def)
  moreover have "full \<longrightarrow> Flagz_IsDone ge'" using g(2) full by blast
  then have "results_ok full (r + 1) w'"
    using w by (cases "even r")
      (auto simp: results_ok_def w'_def put2_def at2_def i(1) countResult_games odd_iff_mod_2_eq_one even_iff_mod_2_eq_zero
        elim!: evenE oddE)
  ultimately show ?thesis by blast
qed

text \<open>With parameters a search can work with, a clock that leaves every search some time and stops it
  at some point, and a time limit that is reached, the benchmark ends. No suggested move is refused, nothing
  panics, and the results add up: every game counts at most once, for the seat in which the parameters
  were evaluated, first and second seat in turn, and exactly once if all games can be finished.\<close>

theorem benchmark_results_add_up:
  assumes "bench_ok env f" and "\<not> timeForGame env n"
  shows "\<exists>r w. runBench env f src = Some (r, w) \<and> r \<le> n \<and>
    results_ok (\<forall>r k. timeForMove env r k \<and> \<not> interrupted env r k) r w"
proof -
  define full where "full \<longleftrightarrow> (\<forall>r k. timeForMove env r k \<and> \<not> interrupted env r k)"
  have "r \<le> n \<Longrightarrow> results_ok full r w \<Longrightarrow>
      \<exists>r' w'. benchLoop env f r w src c = Some (r', w') \<and> r' \<le> n \<and> results_ok full r' w'" for r w src c
  proof (induction "n - r" arbitrary: r w src c)
    case 0
    with assms(2) show ?case by (simp add: benchLoop.simps[of env f r])
  next
    case (Suc d)
    show ?case
    proof (cases "timeForGame env r \<and> \<not> c")
      case True
      obtain w1 src1 c1 agg where g: "benchGame env f r w src = Some (w1, src1, c1, agg)" "results_ok full (r + 1) w1"
        using benchGame_ok[OF assms(1) Suc.prems(2), of src] unfolding full_def by blast
      have "d = n - (r + 1)" "r + 1 \<le> n" using Suc.hyps(2) by simp_all
      from Suc.hyps(1)[OF this g(2), of src1 c1] g(1) True show ?thesis
        unfolding benchLoop.simps[of env f r w src c] by simp
    next
      case False
      with Suc.prems show ?thesis by (auto simp: benchLoop.simps[of env f r w src c])
    qed
  qed
  from this[of 0 "Arr2 noResults noResults" src False]
  show ?thesis by (simp add: runBench_def full_def[symmetric] results_ok_def noResults_def games_def)
qed

definition threeGames :: bench_env where
  "threeGames = \<lparr>timeForGame = (\<lambda>r. r < 3), timeForMove = (\<lambda>_ _. True), interrupted = (\<lambda>_ _. False),
     thinkOver = (\<lambda>_ _ _ n. 100 \<le> n), searchRnd = (\<lambda>_ _. sconst 0), searchElapsed = (\<lambda>_ _. 1)\<rparr>"

definition defaultFlags :: bench_flags where
  "defaultFlags = \<lparr>bfMaxFlagPositions = 5, bfUctFactor = 1, bfThinkTime = 2000000000, bfOppThinkTime = 2000000000, bfFlagsFirst = False\<rparr>"

theorem benchmark_results_add_up_witness:
  "\<exists>r w. runBench threeGames defaultFlags (sconst 0) = Some (r, w) \<and> r \<le> 3 \<and> games (el0 w) = int ((r + 1) div 2)"
proof -
  have "bench_ok threeGames defaultFlags"
    by (auto simp: bench_ok_def threeGames_def defaultFlags_def intro: exI[of _ 2])
  moreover have "\<not> timeForGame threeGames 3" by (simp add: threeGames_def)
  ultimately have "\<exists>r w. runBench threeGames defaultFlags (sconst 0) = Some (r, w) \<and> r \<le> 3 \<and>
      results_ok (\<forall>r k. timeForMove threeGames r k \<and> \<not> interrupted threeGames r k) r w"
    by (rule benchmark_results_add_up)
  then show ?thesis by (auto simp: results_ok_def threeGames_def)
qed

text \<open>The think time is that of the flags or a tenth of a second.\<close>

lemma getThinkTime_cases:
  "getThinkTime f moves p \<in> {if p then bfThinkTime f else bfOppThinkTime f, 100000000}"
  by (simp add: getThinkTime_def Let_def)

end
