(* ===== verification/Hex42.thy ===== *)
theory Hex42
  imports GoStrings
begin

text \<open>
  The program \<open>hexz/cmd/hex42/hex42.go\<close>: it fills a hexagonal board of side 11 at random with the pieces of
  two players and prints it three times: with all pieces, with those of the first, with those of the second
  player. Its comment promises that one of the two always has a path across the board; the theory proves it
  for the printed text, and that never both have one.

  The proof goes by the game of Y, played on a triangle: each cell of the triangle of side \<open>n\<close> takes the
  colour of the majority of a small triangle of three cells in the one of side \<open>n + 1\<close>, which keeps the
  winner. The board of the program is a part of a triangle of twice its side.
\<close>

section \<open>The program\<close>

definition sideLen :: nat where
  "sideLen = 11"

definition setCell :: "string list \<Rightarrow> nat \<Rightarrow> nat \<Rightarrow> char \<Rightarrow> string list option" where
  "setCell b i j c = do { r \<leftarrow> idx_list b (int i); r \<leftarrow> upd_list r (int j) c; upd_list b (int i) r }"

definition fillCell :: "nat \<Rightarrow> nat \<Rightarrow> string list \<times> rng \<Rightarrow> (string list \<times> rng) option" where
  "fillCell i j = (\<lambda>(b, s). do {
     b \<leftarrow> setCell b i j (CHR ''X'');
     (k, s) \<leftarrow> Intn 2 s;
     b \<leftarrow> (if k = 0 then setCell b i j (CHR ''O'') else Some b);
     Some (b, s) })"

definition fillBoard :: "rng \<Rightarrow> (string list \<times> rng) option" where
  "fillBoard s = foldM (\<lambda>i. foldM (fillCell i) [0..<sideLen]) [0..<sideLen]
     (replicate sideLen (replicate sideLen (CHR 0x00)), s)"

definition newline :: char where
  "newline = CHR 0x0A"

text \<open>One line of a picture, and a picture, of the pieces to \<open>keep\<close>.\<close>

definition printRow :: "(char \<Rightarrow> bool) \<Rightarrow> nat \<Rightarrow> string \<Rightarrow> string" where
  "printRow keep i r = replicate i (CHR '' '') @
     concat (map (\<lambda>c. if keep c then [c, CHR '' ''] else [CHR '' '', CHR '' '']) r) @ [newline]"

definition printBoard :: "(char \<Rightarrow> bool) \<Rightarrow> string list \<Rightarrow> string" where
  "printBoard keep b = concat (map (\<lambda>(i, r). printRow keep i r) (enumerate 0 b)) @ [newline]"

definition hex42 :: "rng \<Rightarrow> string option" where
  "hex42 s = do {
     (b, s) \<leftarrow> fillBoard s;
     Some (printBoard (\<lambda>_. True) b @ printBoard (\<lambda>c. c = CHR ''X'') b @ printBoard (\<lambda>c. c = CHR ''O'') b) }"

section \<open>The game of Y\<close>

text \<open>Cells are pairs, the triangle of side \<open>n\<close> has the cells with \<open>i + j < n\<close>; cells on a diagonal touch.\<close>

type_synonym cell = "nat \<times> nat"

fun adj :: "cell \<Rightarrow> cell \<Rightarrow> bool" where
  "adj (i, j) (i', j') \<longleftrightarrow> (i' = i \<and> (j' = j + 1 \<or> j = j' + 1)) \<or> (j' = j \<and> (i' = i + 1 \<or> i = i' + 1)) \<or>
     (i' = i + 1 \<and> j = j' + 1) \<or> (i = i' + 1 \<and> j' = j + 1)"

definition tri :: "nat \<Rightarrow> cell set" where
  "tri n = {(i, j). i + j < n}"

definition joined :: "nat \<Rightarrow> (cell \<Rightarrow> bool) \<Rightarrow> bool \<Rightarrow> (cell \<times> cell) set" where
  "joined n B c = {(u, v). adj u v \<and> u \<in> tri n \<and> v \<in> tri n \<and> B u = c \<and> B v = c}"

definition yWin :: "nat \<Rightarrow> (cell \<Rightarrow> bool) \<Rightarrow> bool \<Rightarrow> bool" where
  "yWin n B c \<longleftrightarrow> (\<exists>u v w. u \<in> tri n \<and> v \<in> tri n \<and> w \<in> tri n \<and> B u = c \<and> B v = c \<and> B w = c \<and>
     fst u = 0 \<and> snd v = 0 \<and> Suc (fst w + snd w) = n \<and> (u, v) \<in> (joined n B c)\<^sup>* \<and> (u, w) \<in> (joined n B c)\<^sup>*)"

definition tris :: "cell \<Rightarrow> cell set" where
  "tris t = {t, (Suc (fst t), snd t), (fst t, Suc (snd t))}"

definition reduce :: "(cell \<Rightarrow> bool) \<Rightarrow> cell \<Rightarrow> bool" where
  "reduce B t = (if B t then B (Suc (fst t), snd t) \<or> B (fst t, Suc (snd t)) else B (Suc (fst t), snd t) \<and> B (fst t, Suc (snd t)))"

lemma adj_sym: "adj u v \<Longrightarrow> adj v u"
  by (cases u; cases v) auto

lemma joined_sym: "sym (joined n B c)"
  by (auto simp: sym_def joined_def adj_sym)

lemma joined_rev: "(u, v) \<in> (joined n B c)\<^sup>* \<Longrightarrow> (v, u) \<in> (joined n B c)\<^sup>*"
  using sym_rtrancl[OF joined_sym] by (auto dest: symD)

lemma tris_in: "t \<in> tri n \<Longrightarrow> u \<in> tris t \<Longrightarrow> u \<in> tri (Suc n)"
  by (auto simp: tris_def tri_def)

text \<open>Two cells of the same small triangle touch or are equal; two of its cells have the colour of the majority.\<close>

lemma tris_joined:
  assumes "t \<in> tri n" "u \<in> tris t" "v \<in> tris t" "B u = c" "B v = c"
  shows "(u, v) \<in> (joined (Suc n) B c)\<^sup>*"
proof (cases "u = v")
  case False
  then have "adj u v" using assms(2,3) by (cases t) (auto simp: tris_def)
  then show ?thesis using assms tris_in by (intro r_into_rtrancl) (auto simp: joined_def)
qed simp

lemma tris_two:
  "reduce B t = c \<longleftrightarrow> (\<exists>u v. u \<in> tris t \<and> v \<in> tris t \<and> u \<noteq> v \<and> B u = c \<and> B v = c)"
proof -
  let ?q = "(Suc (fst t), snd t)" and ?r = "(fst t, Suc (snd t))"
  have "t \<noteq> ?q" "t \<noteq> ?r" "?q \<noteq> ?r" by (cases t; simp)+
  then have "(\<exists>u v. u \<in> tris t \<and> v \<in> tris t \<and> u \<noteq> v \<and> B u = c \<and> B v = c) \<longleftrightarrow>
      (B t = c \<and> (B ?q = c \<or> B ?r = c)) \<or> (B ?q = c \<and> B ?r = c)" unfolding tris_def by blast
  also have "\<dots> \<longleftrightarrow> reduce B t = c" by (cases c) (auto simp: reduce_def)
  finally show ?thesis by simp
qed

lemma tris_others:
  assumes "reduce B t = c" "x \<in> tris t" "B x \<noteq> c" "y \<in> tris t" "y \<noteq> x"
  shows "B y = c"
proof -
  obtain u v where uv: "u \<in> tris t" "v \<in> tris t" "u \<noteq> v" "B u = c" "B v = c" using assms(1) unfolding tris_two by blast
  have "y = u \<or> y = v" using uv assms unfolding tris_def by blast
  with uv show ?thesis by blast
qed

text \<open>Small triangles that touch share a cell, and beside it they touch again, so they have touching cells of their colour.\<close>

lemma tris_shared:
  assumes "adj s t"
  obtains x y z where "x \<in> tris s" "x \<in> tris t" "y \<in> tris s" "z \<in> tris t" "y \<noteq> x" "z \<noteq> x" "adj y z"
proof -
  obtain i j i' j' where st: "s = (i, j)" "t = (i', j')" by (cases s; cases t)
  consider "i' = i \<and> j' = j + 1" | "i' = i \<and> j = j' + 1" | "j' = j \<and> i' = i + 1" | "j' = j \<and> i = i' + 1" |
      "i' = i + 1 \<and> j = j' + 1" | "i = i' + 1 \<and> j' = j + 1"
    using assms st by auto
  then show thesis
  proof cases
    case 1 then show ?thesis using st by (intro that[of "(i, j + 1)" "(i + 1, j)" "(i + 1, j + 1)"]) (auto simp: tris_def)
  next
    case 2 then show ?thesis using st by (intro that[of "(i, j)" "(i + 1, j)" "(i + 1, j')"]) (auto simp: tris_def)
  next
    case 3 then show ?thesis using st by (intro that[of "(i + 1, j)" "(i, j + 1)" "(i + 1, j + 1)"]) (auto simp: tris_def)
  next
    case 4 then show ?thesis using st by (intro that[of "(i, j)" "(i, j + 1)" "(i', j + 1)"]) (auto simp: tris_def)
  next
    case 5 then show ?thesis using st by (intro that[of "(i + 1, j)" "(i, j)" "(i + 1, j')"]) (auto simp: tris_def)
  next
    case 6 then show ?thesis using st by (intro that[of "(i, j + 1)" "(i, j)" "(i', j + 1)"]) (auto simp: tris_def)
  qed
qed

lemma tris_touch:
  assumes "adj s t" "reduce B s = c" "reduce B t = c"
  shows "\<exists>u v. u \<in> tris s \<and> v \<in> tris t \<and> B u = c \<and> B v = c \<and> (u = v \<or> adj u v)"
proof -
  obtain x y z where x: "x \<in> tris s" "x \<in> tris t" "y \<in> tris s" "z \<in> tris t" "y \<noteq> x" "z \<noteq> x" "adj y z"
    using tris_shared[OF assms(1)] .
  show ?thesis using x assms(2,3) tris_others[OF assms(2) x(1)] tris_others[OF assms(3) x(2)] by (cases "B x = c") blast+
qed

text \<open>A chain of small triangles gives a chain of cells.\<close>

lemma chain_up:
  assumes "(s, t) \<in> (joined n (reduce B) c)\<^sup>*" "s \<in> tri n" "u \<in> tris s" "B u = c" "v \<in> tris t" "B v = c"
  shows "(u, v) \<in> (joined (Suc n) B c)\<^sup>*"
  using assms(1,5,6)
proof (induction arbitrary: v)
  case base
  with assms(2-4) show ?case by (blast intro: tris_joined)
next
  case (step t t')
  from step.hyps(2) have t: "adj t t'" "t \<in> tri n" "t' \<in> tri n" "reduce B t = c" "reduce B t' = c" by (auto simp: joined_def)
  obtain x y where xy: "x \<in> tris t" "y \<in> tris t'" "B x = c" "B y = c" "x = y \<or> adj x y" using tris_touch[OF t(1,4,5)] by blast
  have "(u, x) \<in> (joined (Suc n) B c)\<^sup>*" by (rule step.IH[OF xy(1,3)])
  also have "(x, y) \<in> (joined (Suc n) B c)\<^sup>*"
    using xy tris_in[OF t(2) xy(1)] tris_in[OF t(3) xy(2)] by (cases "x = y") (auto simp: joined_def intro!: r_into_rtrancl)
  also have "(y, v) \<in> (joined (Suc n) B c)\<^sup>*" by (rule tris_joined[OF t(3) xy(2) step.prems(1) xy(4) step.prems(2)])
  finally show ?case .
qed

text \<open>Every edge lies in a small triangle, and small triangles with a common cell are equal or touch.\<close>

lemma edge_tris:
  assumes "adj u v" "u \<in> tri (Suc n)" "v \<in> tri (Suc n)"
  shows "\<exists>t \<in> tri n. u \<in> tris t \<and> v \<in> tris t"
proof -
  obtain i j i' j' where uv: "u = (i, j)" "v = (i', j')" by (cases u; cases v)
  consider "i' = i \<and> j' = j + 1" | "i' = i \<and> j = j' + 1" | "j' = j \<and> i' = i + 1" | "j' = j \<and> i = i' + 1" |
      "i' = i + 1 \<and> j = j' + 1" | "i = i' + 1 \<and> j' = j + 1"
    using assms uv by auto
  then show ?thesis
    using assms(2,3) uv by cases
      (auto simp: tris_def tri_def intro!: bexI[of _ "(min i i', min j j')"])
qed

lemma tris_common:
  assumes "u \<in> tris s" "u \<in> tris t" "s \<noteq> t"
  shows "adj s t"
  using assms by (cases s; cases t) (auto simp: tris_def)

lemma edge_reduce: "(u, v) \<in> joined (Suc n) B c \<Longrightarrow> \<exists>t \<in> tri n. u \<in> tris t \<and> v \<in> tris t \<and> reduce B t = c"
proof -
  assume uv: "(u, v) \<in> joined (Suc n) B c"
  then have e: "adj u v" "u \<in> tri (Suc n)" "v \<in> tri (Suc n)" "B u = c" "B v = c" by (auto simp: joined_def)
  obtain t where t: "t \<in> tri n" "u \<in> tris t" "v \<in> tris t" using edge_tris[OF e(1-3)] by blast
  have "u \<noteq> v" using e(1) by (cases u) auto
  with t e(4,5) have "reduce B t = c" unfolding tris_two by blast
  with t show ?thesis by blast
qed

lemma common_chain:
  assumes "u \<in> tris s" "u \<in> tris t" "s \<in> tri n" "t \<in> tri n" "reduce B s = c" "reduce B t = c"
  shows "(s, t) \<in> (joined n (reduce B) c)\<^sup>*"
  using assms tris_common[OF assms(1,2)] by (cases "s = t") (auto simp: joined_def intro!: r_into_rtrancl)

lemma chain_down:
  assumes "(u, v) \<in> (joined (Suc n) B c)\<^sup>*" "u \<in> tris s" "s \<in> tri n" "reduce B s = c" "v \<in> tris t" "t \<in> tri n" "reduce B t = c"
  shows "(s, t) \<in> (joined n (reduce B) c)\<^sup>*"
  using assms(1,5-7)
proof (induction arbitrary: t)
  case base
  with assms(2-4) show ?case by (blast intro: common_chain)
next
  case (step v w)
  obtain t' where t': "t' \<in> tri n" "v \<in> tris t'" "w \<in> tris t'" "reduce B t' = c" using edge_reduce[OF step.hyps(2)] by blast
  have "(s, t') \<in> (joined n (reduce B) c)\<^sup>*" by (rule step.IH[OF t'(2,1,4)])
  also have "(t', t) \<in> (joined n (reduce B) c)\<^sup>*"
    by (rule common_chain[OF t'(3) step.prems(1) t'(1) step.prems(2) t'(4) step.prems(3)])
  finally show ?case .
qed

lemma has_edge:
  assumes "(u, v) \<in> (joined n B c)\<^sup>*" "u \<noteq> v"
  shows "\<exists>x. (u, x) \<in> joined n B c"
  using assms by (meson converse_rtranclE)

text \<open>A small triangle with two cells on a side has one of its colour there. It keeps the winner.\<close>

lemma side_cell:
  assumes "reduce B t = c" "x \<in> tris t" "y \<in> tris t" "x \<noteq> y" "P x" "P y"
  shows "\<exists>z. z \<in> tris t \<and> B z = c \<and> P z"
  using tris_others[OF assms(1,2) _ assms(3)] assms by (cases "B x = c") blast+

lemma yWin_up:
  assumes "yWin n (reduce B) c" shows "yWin (Suc n) B c"
proof -
  obtain r s t where t: "r \<in> tri n" "s \<in> tri n" "t \<in> tri n" "reduce B r = c" "reduce B s = c" "reduce B t = c"
      "fst r = 0" "snd s = 0" "Suc (fst t + snd t) = n"
      "(r, s) \<in> (joined n (reduce B) c)\<^sup>*" "(r, t) \<in> (joined n (reduce B) c)\<^sup>*"
    using assms unfolding yWin_def by blast
  have "\<exists>z. z \<in> tris r \<and> B z = c \<and> fst z = 0"
    by (rule side_cell[OF t(4), of "r" "(fst r, Suc (snd r))"]) (use t(7) in \<open>simp_all add: tris_def prod_eq_iff\<close>)
  then obtain u where u: "u \<in> tris r" "B u = c" "fst u = 0" by blast
  have "\<exists>z. z \<in> tris s \<and> B z = c \<and> snd z = 0"
    by (rule side_cell[OF t(5), of "s" "(Suc (fst s), snd s)"]) (use t(8) in \<open>simp_all add: tris_def prod_eq_iff\<close>)
  then obtain v where v: "v \<in> tris s" "B v = c" "snd v = 0" by blast
  have "\<exists>z. z \<in> tris t \<and> B z = c \<and> fst z + snd z = n"
    by (rule side_cell[OF t(6), of "(Suc (fst t), snd t)" "(fst t, Suc (snd t))"]) (use t(9) in \<open>simp_all add: tris_def prod_eq_iff\<close>)
  then obtain w where w: "w \<in> tris t" "B w = c" "fst w + snd w = n" by blast
  show ?thesis unfolding yWin_def
    using u v w t tris_in[OF t(1) u(1)] tris_in[OF t(2) v(1)] tris_in[OF t(3) w(1)]
      chain_up[OF t(10,1) u(1,2) v(1,2)] chain_up[OF t(11,1) u(1,2) w(1,2)]
    by (intro exI[of _ u] exI[of _ v] exI[of _ w]) simp
qed

lemma yWin_down:
  assumes "yWin (Suc n) B c" "0 < n" shows "yWin n (reduce B) c"
proof -
  let ?J = "joined (Suc n) B c"
  obtain u v w where u: "u \<in> tri (Suc n)" "v \<in> tri (Suc n)" "w \<in> tri (Suc n)" "B u = c" "B v = c" "B w = c"
      "fst u = 0" "snd v = 0" "fst w + snd w = n" "(u, v) \<in> ?J\<^sup>*" "(u, w) \<in> ?J\<^sup>*"
    using assms(1) unfolding yWin_def by auto
  have vw: "(v, u) \<in> ?J\<^sup>*" "(w, u) \<in> ?J\<^sup>*" "(v, w) \<in> ?J\<^sup>*" "(w, v) \<in> ?J\<^sup>*"
    using u(10,11) joined_rev by (blast intro: rtrancl_trans)+
  have "u \<noteq> v \<or> u \<noteq> w" using u(7-9) assms(2) by auto
  then have "\<exists>x. (u, x) \<in> ?J" "\<exists>x. (v, x) \<in> ?J" "\<exists>x. (w, x) \<in> ?J"
    using u(10,11) vw has_edge by metis+
  then obtain r s t where t: "r \<in> tri n" "u \<in> tris r" "reduce B r = c" "s \<in> tri n" "v \<in> tris s" "reduce B s = c"
      "t \<in> tri n" "w \<in> tris t" "reduce B t = c"
    using edge_reduce by meson
  have "fst r = 0" using t(2) u(7) by (auto simp: tris_def)
  moreover have "snd s = 0" using t(5) u(8) by (auto simp: tris_def)
  moreover have "Suc (fst t + snd t) = n" using t(7,8) u(9) by (cases t) (auto simp: tris_def tri_def)
  ultimately show ?thesis unfolding yWin_def
    using t chain_down[OF u(10) t(2,1,3) t(5,4,6)] chain_down[OF u(11) t(2,1,3) t(8,7,9)] by blast
qed

theorem y_has_one_winner: "0 < n \<Longrightarrow> yWin n B True \<longleftrightarrow> \<not> yWin n B False"
proof (induction n arbitrary: B)
  case (Suc n)
  show ?case
  proof (cases n)
    case 0
    have t: "tri 1 = {(0, 0)}" by (auto simp: tri_def)
    have "yWin 1 B c \<longleftrightarrow> B (0, 0) = c" for c unfolding yWin_def t by auto
    with 0 show ?thesis by auto
  next
    case (Suc m)
    with Suc.IH[of "reduce B"] yWin_up yWin_down[of n B] show ?thesis by blast
  qed
qed simp

section \<open>The board of the program\<close>

text \<open>A square board; player \<open>True\<close> connects the first and the last row, player \<open>False\<close> the first and the last
  column. \<open>along c\<close> counts in the direction of a player, \<open>across c\<close> in the other.\<close>

definition square :: "nat \<Rightarrow> cell set" where
  "square n = {(i, j). i < n \<and> j < n}"

definition hexJoined :: "nat \<Rightarrow> (cell \<Rightarrow> bool) \<Rightarrow> bool \<Rightarrow> (cell \<times> cell) set" where
  "hexJoined n H c = {(u, v). adj u v \<and> u \<in> square n \<and> v \<in> square n \<and> H u = c \<and> H v = c}"

definition along :: "bool \<Rightarrow> cell \<Rightarrow> nat" where
  "along c u = (if c then fst u else snd u)"

definition across :: "bool \<Rightarrow> cell \<Rightarrow> nat" where
  "across c u = (if c then snd u else fst u)"

definition cellAt :: "bool \<Rightarrow> nat \<Rightarrow> nat \<Rightarrow> cell" where
  "cellAt c a b = (if c then (a, b) else (b, a))"

definition hexWin :: "nat \<Rightarrow> (cell \<Rightarrow> bool) \<Rightarrow> bool \<Rightarrow> bool" where
  "hexWin n H c \<longleftrightarrow> (\<exists>u v. u \<in> square n \<and> v \<in> square n \<and> H u = c \<and> H v = c \<and>
     along c u = 0 \<and> Suc (along c v) = n \<and> (u, v) \<in> (hexJoined n H c)\<^sup>*)"

definition embed :: "nat \<Rightarrow> (cell \<Rightarrow> bool) \<Rightarrow> cell \<Rightarrow> bool" where
  "embed n H u = (if u \<in> square n then H u else n \<le> fst u)"

lemma embed_iff: "u \<in> tri (2 * n - 1) \<Longrightarrow> embed n H u = c \<longleftrightarrow> (u \<in> square n \<and> H u = c) \<or> n \<le> along c u"
  by (cases u; cases c) (auto simp: embed_def square_def tri_def along_def)

lemma square_tri: "0 < n \<Longrightarrow> square n \<subseteq> tri (2 * n - 1)"
  by (auto simp: square_def tri_def)

lemma adj_along: "adj u v \<Longrightarrow> along c v \<le> Suc (along c u)"
  by (cases u; cases v) (auto simp: along_def)

lemma in_square: "u \<in> square n \<longleftrightarrow> along c u < n \<and> across c u < n"
  by (cases u) (auto simp: square_def along_def across_def)

lemma in_tri: "u \<in> tri n \<longleftrightarrow> along c u + across c u < n"
  by (cases u) (auto simp: tri_def along_def across_def)

lemma cellAt_simps [simp]: "along c (cellAt c a b) = a" "across c (cellAt c a b) = b" "cellAt c (along c u) (across c u) = u"
  by (auto simp: cellAt_def along_def across_def)

lemma adj_cellAt: "adj (cellAt c a b) (cellAt c a' b') = adj (a, b) (a', b')"
  by (auto simp: cellAt_def)

lemma adj_up: "Suc (along c u) = a \<Longrightarrow> across c u = b \<or> across c u = Suc b \<Longrightarrow> adj u (cellAt c a b)"
  by (cases u) (auto simp: cellAt_def along_def across_def split: if_splits)

lemma hexJoined_sub: "0 < n \<Longrightarrow> hexJoined n H c \<subseteq> joined (2 * n - 1) (embed n H) c"
  using square_tri[of n] by (auto simp: hexJoined_def joined_def embed_def)

text \<open>A chain in the triangle that starts on the board stays there until it reaches the last row.\<close>

lemma walk_along:
  assumes "(u, v) \<in> (joined (2 * n - 1) (embed n H) c)\<^sup>*" "u \<in> square n"
  shows "(v \<in> square n \<and> (u, v) \<in> (hexJoined n H c)\<^sup>*) \<or>
    (\<exists>w \<in> square n. Suc (along c w) = n \<and> (u, w) \<in> (hexJoined n H c)\<^sup>*)"
  using assms(1)
proof (induction)
  case (step v v')
  from step.IH show ?case
  proof
    assume v: "v \<in> square n \<and> (u, v) \<in> (hexJoined n H c)\<^sup>*"
    have e: "adj v v'" "embed n H v = c" "embed n H v' = c" "v' \<in> tri (2 * n - 1)"
      using step.hyps(2) by (auto simp: joined_def)
    show ?thesis
    proof (cases "Suc (along c v) = n")
      case False
      then have "along c v' < n" using v adj_along[OF e(1), of c] in_square[of v n c] by simp
      then have "v' \<in> square n \<and> H v' = c" using e(3,4) embed_iff by auto
      then show ?thesis using v e(1,2) by (auto simp: hexJoined_def embed_def intro: rtrancl_into_rtrancl)
    qed (use v in blast)
  qed blast
qed (use assms(2) in simp)

lemma yWin_hexWin:
  assumes "yWin (2 * n - 1) (embed n H) c" "0 < n" shows "hexWin n H c"
proof -
  let ?J = "joined (2 * n - 1) (embed n H) c"
  obtain u v w where u: "u \<in> tri (2 * n - 1)" "v \<in> tri (2 * n - 1)" "w \<in> tri (2 * n - 1)"
      "embed n H u = c" "embed n H v = c" "embed n H w = c" "fst u = 0" "snd v = 0" "Suc (fst w + snd w) = 2 * n - 1"
      "(u, v) \<in> ?J\<^sup>*" "(u, w) \<in> ?J\<^sup>*"
    using assms(1) unfolding yWin_def by blast
  obtain p where p: "p \<in> tri (2 * n - 1)" "embed n H p = c" "along c p = 0" "(p, w) \<in> ?J\<^sup>*"
    using that[of u] that[of v] u rtrancl_trans[OF joined_rev[OF u(10)] u(11)] by (cases c) (simp_all add: along_def)
  have sq: "p \<in> square n" "H p = c" using p(1-3) assms(2) embed_iff by auto
  have "along c w + across c w = 2 * n - 2" using u(9) by (auto simp: along_def across_def)
  then have "n - 1 \<le> along c w" using embed_iff[OF u(3), of H c] u(6) in_square[of w n c] by auto
  with walk_along[OF p(4) sq(1)] obtain q where "q \<in> square n" "Suc (along c q) = n" "(p, q) \<in> (hexJoined n H c)\<^sup>*"
    using that[of w] in_square[of w n c] assms(2) by force
  moreover from this have "H q = c" using sq(2) by (auto simp: hexJoined_def elim: rtranclE)
  ultimately show ?thesis unfolding hexWin_def using sq p(3) by blast
qed

text \<open>Beside the board every player has a row of his own that reaches the other two sides of the triangle.\<close>

lemma own_row:
  assumes "2 \<le> n" "b \<le> n - 2"
  shows "(cellAt c n 0, cellAt c n b) \<in> (joined (2 * n - 1) (embed n H) c)\<^sup>*"
  using assms(2)
proof (induction b)
  case (Suc b)
  have "(cellAt c n b, cellAt c n (Suc b)) \<in> joined (2 * n - 1) (embed n H) c"
    using Suc.prems assms(1) by (auto simp: joined_def adj_cellAt in_tri[of _ _ c] embed_iff)
  with Suc show ?case by (auto intro: rtrancl_into_rtrancl)
qed simp

lemma hexWin_yWin:
  assumes "hexWin n H c" shows "yWin (2 * n - 1) (embed n H) c"
proof -
  let ?J = "joined (2 * n - 1) (embed n H) c"
  obtain u v where uv: "u \<in> square n" "v \<in> square n" "H u = c" "H v = c" "along c u = 0" "Suc (along c v) = n"
      "(u, v) \<in> (hexJoined n H c)\<^sup>*"
    using assms unfolding hexWin_def by blast
  then have n: "0 < n" by simp
  have J: "(u, v) \<in> ?J\<^sup>*" using uv(7) rtrancl_mono[OF hexJoined_sub[OF n, of H c]] by blast
  have c: "embed n H u = c" "embed n H v = c" "u \<in> tri (2 * n - 1)" "v \<in> tri (2 * n - 1)"
    using uv square_tri[OF n] by (auto simp: embed_def)
  obtain p q where pq: "embed n H p = c" "embed n H q = c" "p \<in> tri (2 * n - 1)" "q \<in> tri (2 * n - 1)"
      "across c p = 0" "Suc (along c q + across c q) = 2 * n - 1" "(u, p) \<in> ?J\<^sup>*" "(u, q) \<in> ?J\<^sup>*"
  proof (cases "n = 1")
    case True
    then have "across c v = 0" "along c v = 0" using uv(2,6) in_square[of v n c] by auto
    with True c J that show ?thesis by simp
  next
    case False
    then have n2: "2 \<le> n" using n by simp
    define b where "b = (if across c v \<le> n - 2 then across c v else n - 2)"
    have b: "b \<le> n - 2" "across c v = b \<or> across c v = Suc b"
      using n2 uv(2) in_square[of v n c] by (auto simp: b_def)
    have row: "cellAt c n b' \<in> tri (2 * n - 1) \<and> embed n H (cellAt c n b') = c" if "b' \<le> n - 2" for b'
      using that n2 by (auto simp: in_tri[of _ _ c] embed_iff)
    have "adj v (cellAt c n b)" by (rule adj_up[OF uv(6) b(2)])
    then have "(v, cellAt c n b) \<in> ?J" using c row[OF b(1)] by (auto simp: joined_def)
    with J have "(u, cellAt c n b) \<in> ?J\<^sup>*" by (rule rtrancl_into_rtrancl)
    then have "(u, cellAt c n 0) \<in> ?J\<^sup>*" using joined_rev[OF own_row[OF n2 b(1)]] by (rule rtrancl_trans)
    moreover from this have "(u, cellAt c n (n - 2)) \<in> ?J\<^sup>*" using own_row[OF n2 order_refl] by (rule rtrancl_trans)
    ultimately show ?thesis using that[of "cellAt c n 0" "cellAt c n (n - 2)"] row[of 0] row[of "n - 2"] n2 by simp
  qed
  show ?thesis
  proof (cases c)
    case True
    then show ?thesis unfolding yWin_def using uv(5) c pq by (intro exI[of _ u] exI[of _ p] exI[of _ q]) (auto simp: along_def across_def)
  next
    case False
    have "(p, u) \<in> ?J\<^sup>*" "(p, q) \<in> ?J\<^sup>*" using pq(7,8) joined_rev by (blast intro: rtrancl_trans)+
    then show ?thesis unfolding yWin_def using False uv(5) c pq by (intro exI[of _ p] exI[of _ u] exI[of _ q]) (auto simp: along_def across_def add.commute)
  qed
qed

lemma hex_has_one_winner: "0 < n \<Longrightarrow> hexWin n H True \<longleftrightarrow> \<not> hexWin n H False"
  using y_has_one_winner[of "2 * n - 1" "embed n H"] hexWin_yWin yWin_hexWin by auto


section \<open>The filled board and its pictures\<close>

definition filledCell :: "string list \<Rightarrow> cell \<Rightarrow> bool" where
  "filledCell b u \<longleftrightarrow> b ! fst u ! snd u \<in> {CHR ''X'', CHR ''O''}"

definition squareBoard :: "string list \<Rightarrow> bool" where
  "squareBoard b \<longleftrightarrow> length b = sideLen \<and> (\<forall>i < sideLen. length (b ! i) = sideLen)"

lemma setCell_ok:
  assumes "squareBoard b" "i < sideLen" "j < sideLen"
  shows "setCell b i j c = Some (b[i := (b ! i)[j := c]]) \<and> squareBoard (b[i := (b ! i)[j := c]])"
  using assms by (simp add: setCell_def squareBoard_def go_simps nth_list_update)

lemma fillCell_ok:
  assumes "squareBoard b" "i < sideLen" "j < sideLen" "\<forall>u \<in> S. filledCell b u"
  shows "\<exists>b' s'. fillCell i j (b, s) = Some (b', s') \<and> squareBoard b' \<and> (\<forall>u \<in> insert (i, j) S. filledCell b' u)"
proof -
  have fc: "filledCell (b[i := (b ! i)[j := c]]) u"
    if "c \<in> {CHR ''X'', CHR ''O''}" "u \<in> insert (i, j) S" for c u
  proof (cases "u = (i, j)")
    case True with that assms show ?thesis by (auto simp: filledCell_def squareBoard_def)
  next
    case False with that(2) have "filledCell b u" using assms(4) by blast
    with that(1) assms(1-3) show ?thesis
      by (cases u; cases "fst u = i"; cases "snd u = j") (auto simp: filledCell_def squareBoard_def nth_list_update)
  qed
  define k where "k = fst (the (Intn 2 s))"
  define b1 where "b1 = b[i := (b ! i)[j := CHR ''X'']]"
  have b1: "setCell b i j (CHR ''X'') = Some b1" "squareBoard b1" using setCell_ok[OF assms(1-3)] by (simp_all add: b1_def)
  have b2: "setCell b1 i j (CHR ''O'') = Some (b[i := (b ! i)[j := CHR ''O'']])" "squareBoard (b[i := (b ! i)[j := CHR ''O'']])"
    using setCell_ok[OF b1(2) assms(2,3)] setCell_ok[OF assms(1-3)] assms(1,2) by (simp_all add: b1_def squareBoard_def)
  show ?thesis using b1 b2 fc
    by (cases "int (shd s) mod 2 = 0") (auto simp: fillCell_def Intn_in b1_def)
qed

lemma fillBoard_ok:
  "\<exists>b s'. fillBoard s = Some (b, s') \<and> squareBoard b \<and> (\<forall>u \<in> square sideLen. filledCell b u)"
proof -
  define P where "P = (\<lambda>S (b, s :: rng). squareBoard b \<and> (\<forall>u \<in> S. filledCell b u))"
  have row: "\<exists>y. foldM (fillCell i) [0..<sideLen] x = Some y \<and> P (S \<union> {(i, j) |j. j < sideLen}) y"
    if "i < sideLen" "P S x" for i S x
  proof -
    have "\<exists>y. foldM (fillCell i) [0..<sideLen] x = Some y \<and> P (S \<union> Pair i ` set [0..<sideLen]) y"
    proof (rule foldM_prefix_rule[where P = "\<lambda>ys. P (S \<union> Pair i ` set ys)"])
      fix ys j zs t
      assume j: "[0..<sideLen] = ys @ j # zs" and t: "P (S \<union> Pair i ` set ys) t"
      have "j \<in> set [0..<sideLen]" unfolding j by simp
      then have "j < sideLen" by simp
      then show "\<exists>y. fillCell i j t = Some y \<and> P (S \<union> Pair i ` set (ys @ [j])) y"
        using fillCell_ok[of "fst t" i j "S \<union> Pair i ` set ys" "snd t"] that(1) t
        by (cases t) (auto simp: P_def)
    qed (use that(2) in simp)
    moreover have "Pair i ` set [0..<sideLen] = {(i, j) |j. j < sideLen}" by auto
    ultimately show ?thesis by simp
  qed
  have "\<exists>y. fillBoard s = Some y \<and> P {(i, j). i \<in> set [0..<sideLen] \<and> j < sideLen} y" unfolding fillBoard_def
  proof (rule foldM_prefix_rule[where P = "\<lambda>ys. P {(i, j). i \<in> set ys \<and> j < sideLen}"])
    show "P {(i, j). i \<in> set [] \<and> j < sideLen} (replicate sideLen (replicate sideLen (CHR 0x00)), s)"
      by (simp add: P_def squareBoard_def)
  next
    fix ys i zs t
    assume i: "[0..<sideLen] = ys @ i # zs" and t: "P {(i, j). i \<in> set ys \<and> j < sideLen} t"
    have "i \<in> set [0..<sideLen]" unfolding i by simp
    then have "i < sideLen" by simp
    moreover have "{(i, j). i \<in> set ys \<and> j < sideLen} \<union> {(i, j) |j. j < sideLen} = {(k, j). k \<in> set (ys @ [i]) \<and> j < sideLen}" by auto
    ultimately show "\<exists>y. foldM (fillCell i) [0..<sideLen] t = Some y \<and> P {(k, j). k \<in> set (ys @ [i]) \<and> j < sideLen} y"
      using row[of i "{(i, j). i \<in> set ys \<and> j < sideLen}" t] t by simp
  qed
  then show ?thesis by (auto simp: P_def square_def)
qed


text \<open>The printed text, as a reader sees it: the character in a column of a line.\<close>

definition charAt :: "string \<Rightarrow> nat \<Rightarrow> nat \<Rightarrow> char option" where
  "charAt out l c = (let ls = Split newline out in if l < length ls \<and> c < length (ls ! l) then Some (ls ! l ! c) else None)"

definition lineText :: "(char \<Rightarrow> bool) \<Rightarrow> nat \<Rightarrow> string \<Rightarrow> string" where
  "lineText keep i r = replicate i (CHR '' '') @ concat (map (\<lambda>c. [if keep c then c else CHR '' '', CHR '' '']) r)"

lemma Split_lines:
  "\<forall>l \<in> set ls. newline \<notin> set l \<Longrightarrow> Split newline (concat (map (\<lambda>l. l @ [newline]) ls) @ rest) = ls @ Split newline rest"
  by (induction ls) (auto simp: Split_append)

lemma printBoard_lines:
  "printBoard keep b = concat (map (\<lambda>l. l @ [newline]) (map (\<lambda>(i, r). lineText keep i r) (enumerate 0 b) @ [[]]))"
proof -
  have "(\<lambda>c. if keep c then [c, CHR '' ''] else [CHR '' '', CHR '' '']) = (\<lambda>c. [if keep c then c else CHR '' '', CHR '' ''])" by auto
  then have "printRow keep i r = lineText keep i r @ [newline]" for i r by (simp add: printRow_def lineText_def)
  then show ?thesis by (simp add: printBoard_def comp_def case_prod_beta')
qed

lemma nth_pairs:
  "k < 2 * length r \<Longrightarrow> concat (map (\<lambda>c. [f c, d]) r) ! k = (if even k then f (r ! (k div 2)) else d)"
proof (induction r arbitrary: k)
  case (Cons c r)
  show ?case
  proof (cases "k < 2")
    case False
    then obtain m where "k = Suc (Suc m)" by (metis add_2_eq_Suc le_Suc_ex not_less)
    with Cons show ?thesis by simp
  qed (auto simp: less_2_cases_iff)
qed simp

lemma length_lineText: "length (lineText keep i r) = i + 2 * length r"
  by (induction r) (simp_all add: lineText_def)

lemma lineText_piece:
  assumes "p \<noteq> CHR '' ''"
  shows "c < length (lineText keep i r) \<and> lineText keep i r ! c = p \<longleftrightarrow>
    (\<exists>j < length r. c = i + 2 * j \<and> keep (r ! j) \<and> r ! j = p)"
proof (cases "i \<le> c \<and> c < i + 2 * length r")
  case True
  then obtain k where k: "c = i + k" "k < 2 * length r" by (metis le_Suc_ex nat_add_left_cancel_less)
  have "lineText keep i r ! c = (if even k then if keep (r ! (k div 2)) then r ! (k div 2) else CHR '' '' else CHR '' '')"
    using k nth_pairs[OF k(2), of "\<lambda>c. if keep c then c else CHR '' ''" "CHR '' ''"] by (simp add: lineText_def nth_append)
  with k assms show ?thesis by (auto simp: length_lineText elim!: evenE)
next
  case False
  show ?thesis
  proof (cases "c < i")
    case True
    then have "lineText keep i r ! c = CHR '' ''" by (simp add: lineText_def nth_append)
    with True assms show ?thesis by auto
  next
    case False
    with \<open>\<not> (i \<le> c \<and> c < i + 2 * length r)\<close> have "\<not> c < length (lineText keep i r)" by (simp add: length_lineText)
    with False \<open>\<not> (i \<le> c \<and> c < i + 2 * length r)\<close> show ?thesis by auto
  qed
qed

text \<open>Where the three pictures begin, and which characters touch in a picture: on a line every other
  character is a cell, and a line is shifted by one against the one above.\<close>

definition pieceIn :: "string \<Rightarrow> nat \<Rightarrow> char \<Rightarrow> nat \<times> nat \<Rightarrow> bool" where
  "pieceIn out top0 p lc \<longleftrightarrow> top0 \<le> fst lc \<and> fst lc < top0 + sideLen \<and> charAt out (fst lc) (snd lc) = Some p"

fun textAdj :: "nat \<times> nat \<Rightarrow> nat \<times> nat \<Rightarrow> bool" where
  "textAdj (l, c) (l', c') \<longleftrightarrow> (l' = l \<and> (c' = c + 2 \<or> c = c' + 2)) \<or> ((l' = l + 1 \<or> l = l' + 1) \<and> (c' = c + 1 \<or> c = c' + 1))"

definition textJoined :: "string \<Rightarrow> nat \<Rightarrow> char \<Rightarrow> ((nat \<times> nat) \<times> (nat \<times> nat)) set" where
  "textJoined out top0 p = {(u, v). textAdj u v \<and> pieceIn out top0 p u \<and> pieceIn out top0 p v}"

text \<open>In the second picture a path of \<open>X\<close> from its first to its last line; in the third a path of \<open>O\<close> from
  the first to the last character of a line.\<close>

definition xPath :: "string \<Rightarrow> bool" where
  "xPath out \<longleftrightarrow> (\<exists>u v. pieceIn out 12 (CHR ''X'') u \<and> pieceIn out 12 (CHR ''X'') v \<and> fst u = 12 \<and> fst v = 22 \<and>
     (u, v) \<in> (textJoined out 12 (CHR ''X''))\<^sup>*)"

definition oPath :: "string \<Rightarrow> bool" where
  "oPath out \<longleftrightarrow> (\<exists>u v. pieceIn out 24 (CHR ''O'') u \<and> pieceIn out 24 (CHR ''O'') v \<and> snd u = fst u - 24 \<and>
     snd v = fst v - 24 + 20 \<and> (u, v) \<in> (textJoined out 24 (CHR ''O''))\<^sup>*)"

definition onText :: "nat \<Rightarrow> cell \<Rightarrow> nat \<times> nat" where
  "onText top0 u = (top0 + fst u, fst u + 2 * snd u)"

lemma onText_simps [simp]: "fst (onText top0 u) = top0 + fst u" "snd (onText top0 u) = fst u + 2 * snd u"
  by (simp_all add: onText_def)

lemma textAdj_onText: "textAdj (onText top0 u) (onText top0 v) \<longleftrightarrow> adj u v"
proof -
  obtain i j i' j' where uv: "u = (i, j)" "v = (i', j')" by (cases u; cases v)
  consider "i' = i" | "i' = Suc i" | "i = Suc i'" | "i' \<noteq> i" "i' \<noteq> Suc i" "i \<noteq> Suc i'" by blast
  then show ?thesis unfolding uv onText_def by cases auto
qed

lemma onText_inj: "onText top0 u = onText top0 v \<longleftrightarrow> u = v"
  by (cases u; cases v) (auto simp: onText_def)

lemma textJoined_onText:
  assumes piece: "\<And>u. pieceIn out top0 p u \<longleftrightarrow> (\<exists>x \<in> square n. H x = c \<and> u = onText top0 x)"
    and x: "x \<in> square n" "H x = c" and y: "y \<in> square n" "H y = c"
  shows "(onText top0 x, onText top0 y) \<in> (textJoined out top0 p)\<^sup>* \<longleftrightarrow> (x, y) \<in> (hexJoined n H c)\<^sup>*"
proof
  assume "(x, y) \<in> (hexJoined n H c)\<^sup>*"
  then show "(onText top0 x, onText top0 y) \<in> (textJoined out top0 p)\<^sup>*"
  proof (induction)
    case (step y z)
    then have "(onText top0 y, onText top0 z) \<in> textJoined out top0 p"
      unfolding textJoined_def hexJoined_def using piece textAdj_onText by blast
    with step.IH show ?case by (rule rtrancl_into_rtrancl)
  qed simp
next
  assume "(onText top0 x, onText top0 y) \<in> (textJoined out top0 p)\<^sup>*"
  moreover have "(onText top0 x, u) \<in> (textJoined out top0 p)\<^sup>* \<Longrightarrow> \<exists>y. u = onText top0 y \<and> (x, y) \<in> (hexJoined n H c)\<^sup>*" for u
  proof (induction rule: rtrancl_induct)
    case (step u v)
    then obtain y where y: "u = onText top0 y" "(x, y) \<in> (hexJoined n H c)\<^sup>*" by blast
    from step.hyps(2) have "textAdj u v" "pieceIn out top0 p u" "pieceIn out top0 p v" by (auto simp: textJoined_def)
    then obtain y' z where z: "v = onText top0 z" "z \<in> square n" "H z = c" "u = onText top0 y'" "y' \<in> square n" "H y' = c"
      unfolding piece by blast
    then have "y' = y" "adj y z" using y(1) onText_inj textAdj_onText \<open>textAdj u v\<close> by auto
    with z have "(y, z) \<in> hexJoined n H c" by (simp add: hexJoined_def)
    with y z show ?case by (blast intro: rtrancl_into_rtrancl)
  qed blast
  ultimately obtain z where "onText top0 y = onText top0 z" "(x, z) \<in> (hexJoined n H c)\<^sup>*" by blast
  then show "(x, y) \<in> (hexJoined n H c)\<^sup>*" by (simp add: onText_inj)
qed

lemma paths_on_text:
  assumes piece: "\<And>u. pieceIn out top0 p u \<longleftrightarrow> (\<exists>x \<in> square n. H x = c \<and> u = onText top0 x)"
  shows "(\<exists>u v. pieceIn out top0 p u \<and> pieceIn out top0 p v \<and> R u \<and> S v \<and> (u, v) \<in> (textJoined out top0 p)\<^sup>*) \<longleftrightarrow>
    (\<exists>x y. x \<in> square n \<and> y \<in> square n \<and> H x = c \<and> H y = c \<and> R (onText top0 x) \<and> S (onText top0 y) \<and>
      (x, y) \<in> (hexJoined n H c)\<^sup>*)"
  (is "?text = ?board")
proof
  assume ?text
  then obtain x y where "x \<in> square n" "y \<in> square n" "H x = c" "H y = c" "R (onText top0 x)" "S (onText top0 y)"
    "(onText top0 x, onText top0 y) \<in> (textJoined out top0 p)\<^sup>*" unfolding piece by blast
  then show ?board using textJoined_onText[OF piece, of x y] by blast
next
  assume ?board
  then obtain x y where "x \<in> square n" "y \<in> square n" "H x = c" "H y = c" "R (onText top0 x)" "S (onText top0 y)"
    "(onText top0 x, onText top0 y) \<in> (textJoined out top0 p)\<^sup>*" using textJoined_onText[OF piece] by blast
  then show ?text unfolding piece by blast
qed

lemma hex42_lines:
  assumes "fillBoard s = Some (b, s')" "squareBoard b" "\<forall>u \<in> square sideLen. filledCell b u"
  shows "\<exists>out. hex42 s = Some out \<and> Split newline out =
    map (\<lambda>i. lineText (\<lambda>_. True) i (b ! i)) [0..<sideLen] @ [[]] @
    map (\<lambda>i. lineText (\<lambda>c. c = CHR ''X'') i (b ! i)) [0..<sideLen] @ [[]] @
    map (\<lambda>i. lineText (\<lambda>c. c = CHR ''O'') i (b ! i)) [0..<sideLen] @ [[], []]"
proof -
  have len: "length b = sideLen" "\<And>i. i < sideLen \<Longrightarrow> length (b ! i) = sideLen" using assms(2) by (auto simp: squareBoard_def)
  have en: "map (\<lambda>(i, r). f i r) (enumerate 0 b) = map (\<lambda>i. f i (b ! i)) [0..<sideLen]" for f :: "nat \<Rightarrow> string \<Rightarrow> string"
    by (rule nth_equalityI) (simp_all add: len(1) nth_enumerate_eq)
  have nl: "newline \<notin> set (lineText keep i (b ! i))" if i: "i < sideLen" for keep i
  proof -
    have "c \<noteq> newline" if "c \<in> set (b ! i)" for c
      using that assms(3) i len(2)[OF i] by (force simp: in_set_conv_nth square_def filledCell_def newline_def)
    then show ?thesis by (auto simp: lineText_def newline_def)
  qed
  let ?ls = "\<lambda>keep. map (\<lambda>i. lineText keep i (b ! i)) [0..<sideLen] @ [[]]"
  have pb: "Split newline (printBoard keep b @ rest) = ?ls keep @ Split newline rest" for keep rest
    unfolding printBoard_lines en using nl by (subst Split_lines) auto
  show ?thesis using assms(1) pb[of _ "[]"] by (simp add: hex42_def pb)
qed

lemma nth_block: "i < length ys \<Longrightarrow> top0 = length xs \<Longrightarrow> (xs @ ys @ zs) ! (top0 + i) = ys ! i"
  by (simp add: nth_append)

lemma pieceIn_picture:
  assumes out: "Split newline out = xs @ map (\<lambda>i. lineText (\<lambda>c. c = p) i (b ! i)) [0..<sideLen] @ zs"
    and top0: "top0 = length xs" and b: "squareBoard b" and p: "p \<noteq> CHR '' ''"
  shows "pieceIn out top0 p u \<longleftrightarrow> (\<exists>x \<in> square sideLen. b ! fst x ! snd x = p \<and> u = onText top0 x)"
proof (cases "top0 \<le> fst u \<and> fst u < top0 + sideLen")
  case False
  then show ?thesis by (auto simp: pieceIn_def square_def onText_def)
next
  case True
  then obtain i c where u: "u = (top0 + i, c)" "i < sideLen" by (cases u) (auto dest: le_Suc_ex)
  have "pieceIn out top0 p u \<longleftrightarrow> c < length (lineText (\<lambda>c. c = p) i (b ! i)) \<and> lineText (\<lambda>c. c = p) i (b ! i) ! c = p"
    using u(2) nth_block[of i "map (\<lambda>i. lineText (\<lambda>c. c = p) i (b ! i)) [0..<sideLen]" top0 xs zs] top0
    by (simp add: u(1) pieceIn_def charAt_def Let_def out)
  also have "\<dots> \<longleftrightarrow> (\<exists>j < sideLen. c = i + 2 * j \<and> b ! i ! j = p)"
    using lineText_piece[OF p] b u(2) by (auto simp: squareBoard_def)
  also have "\<dots> \<longleftrightarrow> (\<exists>x \<in> square sideLen. b ! fst x ! snd x = p \<and> u = onText top0 x)"
    using u by (auto simp: square_def onText_def)
  finally show ?thesis .
qed

text \<open>C39. Whatever the random numbers are, the program prints a board on which exactly one of the two
  players has connected his sides: either there is a path of \<open>X\<close> from the top to the bottom in the
  second picture, or one of \<open>O\<close> from left to right in the third, never both.\<close>

theorem hex42_exactly_one_path:
  "\<exists>out. hex42 s = Some out \<and> (xPath out \<longleftrightarrow> \<not> oPath out)"
proof -
  obtain b s' where b: "fillBoard s = Some (b, s')" "squareBoard b" "\<forall>u \<in> square sideLen. filledCell b u"
    using fillBoard_ok by blast
  from hex42_lines[OF b] obtain out where out: "hex42 s = Some out" "Split newline out =
      map (\<lambda>i. lineText (\<lambda>_. True) i (b ! i)) [0..<sideLen] @ [[]] @
      map (\<lambda>i. lineText (\<lambda>c. c = CHR ''X'') i (b ! i)) [0..<sideLen] @ [[]] @
      map (\<lambda>i. lineText (\<lambda>c. c = CHR ''O'') i (b ! i)) [0..<sideLen] @ [[], []]" by blast
  define H where "H = (\<lambda>u. b ! fst u ! snd u = CHR ''X'')"
  have O: "u \<in> square sideLen \<Longrightarrow> b ! fst u ! snd u = CHR ''O'' \<longleftrightarrow> H u = False" for u
    using b(3) by (auto simp: filledCell_def H_def)
  have px: "pieceIn out 12 (CHR ''X'') u \<longleftrightarrow> (\<exists>x \<in> square sideLen. H x = True \<and> u = onText 12 x)" for u
    using pieceIn_picture[of out "map (\<lambda>i. lineText (\<lambda>_. True) i (b ! i)) [0..<sideLen] @ [[]]" "CHR ''X''" b _ 12 u] out(2) b(2)
    by (simp add: sideLen_def H_def)
  have po: "pieceIn out 24 (CHR ''O'') u \<longleftrightarrow> (\<exists>x \<in> square sideLen. H x = False \<and> u = onText 24 x)" for u
    using pieceIn_picture[of out "map (\<lambda>i. lineText (\<lambda>_. True) i (b ! i)) [0..<sideLen] @ [[]] @
        map (\<lambda>i. lineText (\<lambda>c. c = CHR ''X'') i (b ! i)) [0..<sideLen] @ [[]]" "CHR ''O''" b _ 24 u] out(2) b(2) O
    by (simp add: sideLen_def cong: bex_cong_simp)
  have "xPath out \<longleftrightarrow> hexWin sideLen H True"
    unfolding xPath_def hexWin_def paths_on_text[of out 12 "CHR ''X''" sideLen H True, OF px]
    by (simp add: along_def sideLen_def)
  moreover have "oPath out \<longleftrightarrow> hexWin sideLen H False"
    unfolding oPath_def hexWin_def paths_on_text[of out 24 "CHR ''O''" sideLen H False, OF po]
    by (simp add: along_def sideLen_def)
  ultimately show ?thesis using out(1) hex_has_one_winner[of sideLen H] by (simp add: sideLen_def)
qed

end
