(* ===== verification/SolazConfig.thy ===== *)
theory SolazConfig
  imports GoRunes "HOL-Library.AList"
begin

text \<open>
  The configuration of solaz: \<open>solaz/internal/solace/config.go\<close> and the command line of
  \<open>solaz/cmd/solaz/solaz.go\<close>. Files are given by their content, the JSON decoder is an argument, and a
  Go map is the list of its entries in the order in which \<open>range\<close> visits them.
\<close>

section \<open>Errors\<close>

text \<open>One constructor per error of the source, with what its text mentions.\<close>

datatype config_error =
    OpenError string
  | MissingEquals string nat
  | EmptyKey string nat
  | LineTooLong string
  | ParsingError string string
  | NoProfiles string
  | NoName string nat
  | DuplicateName string string
  | ProfileNotFound string string string
  | RequiredFields string string
  | MissingVariables "string list"
  | TopicRequired
  | NoProtoPaths string

section \<open>The file of variables\<close>

text \<open>A file: its content, or the reason why it cannot be opened.\<close>

datatype file_content = NotExist | OpenFails string | Content string

text \<open>\<open>bufio.ScanLines\<close>: the text up to the next line feed, without a carriage return at its end; nothing
  after the last line feed if that is the end.\<close>

definition dropCR :: "string \<Rightarrow> string" where
  "dropCR l = TrimSuffix l [CHR 0x0D]"

definition rawLines :: "string \<Rightarrow> string list" where
  "rawLines s = (let ls = Split (CHR 0x0A) s in if last ls = [] then butlast ls else ls)"

text \<open>A line that does not fit into the buffer of the scanner ends the loop.\<close>

definition maxScanTokenSize :: nat where
  "maxScanTokenSize = 64 * 1024"

text \<open>The loop over the lines, from line number \<open>n\<close> on.\<close>

fun varsLoop :: "string \<Rightarrow> nat \<Rightarrow> string list \<Rightarrow> (string \<times> string) list \<Rightarrow> config_error + (string \<times> string) list" where
  "varsLoop path n [] vars = Inr vars"
| "varsLoop path n (raw # ls) vars =
    (if length raw \<ge> maxScanTokenSize then Inl (LineTooLong path)
     else (let line = TrimSpace (dropCR raw) in
       if line = [] \<or> HasPrefix line ''#'' then varsLoop path (n + 1) ls vars
       else (case Cut (CHR ''='') line of (k, v, ok) \<Rightarrow>
         if \<not> ok then Inl (MissingEquals path n)
         else (let k = TrimSpace k in
           if k = [] then Inl (EmptyKey path n)
           else varsLoop path (n + 1) ls (AList.update k (TrimSpace v) vars)))))"

definition LoadVarsFile :: "string \<Rightarrow> file_content \<Rightarrow> config_error + (string \<times> string) list" where
  "LoadVarsFile path f = (case f of
     NotExist \<Rightarrow> Inr []
   | OpenFails e \<Rightarrow> Inl (OpenError e)
   | Content s \<Rightarrow> varsLoop path 1 (rawLines s) [])"

text \<open>\<open>filepath.Ext\<close>: from the last dot of the last element on.\<close>

definition fileExt :: "string \<Rightarrow> string" where
  "fileExt p = (let e = takeWhile (\<lambda>c. c \<noteq> CHR ''/'' \<and> c \<noteq> CHR ''.'') (rev p)
                in (case drop (length e) (rev p) of c # cs \<Rightarrow> if c = CHR ''.'' then c # rev e else [] | [] \<Rightarrow> []))"

definition VarsPath :: "string \<Rightarrow> string" where
  "VarsPath configPath = TrimSuffix configPath (fileExt configPath) @ ''.vars''"

section \<open>Profiles\<close>

record profile =
  prName :: string
  Host :: string
  VPN :: string
  ClientCertFile :: string
  ClientKeyFile :: string
  ClientKeyPass :: string
  ClientCertUserName :: string
  TrustStoreDir :: string
  ClientName :: string
  InsecureSkipVerify :: bool
  ProtoPaths :: "string list"
  TopicTypes :: "(string \<times> string) list"

record config =
  Profiles :: "profile list"

text \<open>The loop of \<open>LoadConfig\<close>, with the names seen so far.\<close>

fun checkNames :: "string \<Rightarrow> nat \<Rightarrow> profile list \<Rightarrow> string list \<Rightarrow> config_error option" where
  "checkNames path i [] seen = None"
| "checkNames path i (p # ps) seen =
    (if prName p = [] then Some (NoName path i)
     else if prName p \<in> set seen then Some (DuplicateName path (prName p))
     else checkNames path (i + 1) ps (prName p # seen))"

definition LoadConfig :: "(string \<Rightarrow> string + config) \<Rightarrow> string \<Rightarrow> file_content \<Rightarrow> config_error + config" where
  "LoadConfig unmarshal path f = (case f of
     NotExist \<Rightarrow> Inl (OpenError path)
   | OpenFails e \<Rightarrow> Inl (OpenError e)
   | Content data \<Rightarrow> (case unmarshal data of
       Inl e \<Rightarrow> Inl (ParsingError path e)
     | Inr c \<Rightarrow>
         if length (Profiles c) = 0 then Inl (NoProfiles path)
         else (case checkNames path 0 (Profiles c) [] of Some e \<Rightarrow> Inl e | None \<Rightarrow> Inr c)))"

definition ProfileNames :: "config \<Rightarrow> string" where
  "ProfileNames c = Join '', '' (sortSlice (<) (map prName (Profiles c)))"

text \<open>\<open>SelectProfile\<close> returns a pointer into the slice, an index here.\<close>

fun selectFrom :: "string \<Rightarrow> nat \<Rightarrow> profile list \<Rightarrow> nat option" where
  "selectFrom name i [] = None"
| "selectFrom name i (p # ps) = (if prName p = name then Some i else selectFrom name (i + 1) ps)"

definition SelectProfile :: "config \<Rightarrow> string \<Rightarrow> string \<Rightarrow> config_error + nat" where
  "SelectProfile c name configPath = (if name = [] then Inr 0
     else (case selectFrom name 0 (Profiles c) of
       Some i \<Rightarrow> Inr i
     | None \<Rightarrow> Inl (ProfileNotFound name configPath (ProfileNames c))))"

definition ValidateProfile :: "profile \<Rightarrow> string \<Rightarrow> config_error option" where
  "ValidateProfile p configPath =
    (if Host p = [] \<or> VPN p = [] \<or> ClientCertFile p = [] \<or> ClientKeyFile p = []
     then Some (RequiredFields configPath (prName p)) else None)"

section \<open>Expanding variables\<close>

text \<open>\<open>os.Expand\<close> and its parser of names, from the standard library.\<close>

definition isShellSpecialVar :: "char \<Rightarrow> bool" where
  "isShellSpecialVar c \<longleftrightarrow> c \<in> set ''*#$@!?-0123456789''"

definition isAlphaNum :: "char \<Rightarrow> bool" where
  "isAlphaNum c \<longleftrightarrow> (let r = byte c in r = 95 \<or> 48 \<le> r \<and> r \<le> 57 \<or> 97 \<le> r \<and> r \<le> 122 \<or> 65 \<le> r \<and> r \<le> 90)"

text \<open>The name at the start of a non-empty text, and the length that is consumed.\<close>

definition getShellName :: "string \<Rightarrow> string \<times> nat" where
  "getShellName s =
    (if hd s = CHR ''{'' then
       (if length s > 2 \<and> isShellSpecialVar (s ! 1) \<and> s ! 2 = CHR ''}'' then ([s ! 1], 3)
        else (let name = takeWhile (\<lambda>c. c \<noteq> CHR ''}'') (tl s) in
          if length name = length (tl s) then ([], 1)
          else if name = [] then ([], 2)
          else (name, length name + 2)))
     else if isShellSpecialVar (hd s) then ([hd s], 1)
     else (takeWhile isAlphaNum s, length (takeWhile isAlphaNum s)))"

text \<open>The mapping has a state, which \<open>Expand\<close> threads through.\<close>

function Expand :: "(string \<Rightarrow> 'm \<Rightarrow> string \<times> 'm) \<Rightarrow> string \<Rightarrow> 'm \<Rightarrow> string \<times> 'm" where
  "Expand mapping [] m = ([], m)"
| "Expand mapping (c # s) m =
    (if c = CHR ''$'' \<and> s \<noteq> [] then
       (let (name, w) = getShellName s;
            (v, m) = (if name = [] \<and> w > 0 then ([], m) else if name = [] then ([c], m) else mapping name m);
            (r, m) = Expand mapping (drop w s) m
        in (v @ r, m))
     else (let (r, m) = Expand mapping s m in (c # r, m)))"
  by pat_completeness auto

termination
  by (relation "measure (\<lambda>(_, s, _). length s)") auto

text \<open>The mapper of \<open>ExpandProfile\<close>; its state is the list of missing names, whose elements are the
  keys of \<open>seen\<close>.\<close>

definition mapper :: "(string \<times> string) list \<Rightarrow> string \<Rightarrow> string list \<Rightarrow> string \<times> string list" where
  "mapper vars key missing = (case map_of vars key of
     Some v \<Rightarrow> (v, missing)
   | None \<Rightarrow> ([], if key \<notin> set missing then missing @ [key] else missing))"

fun expandAll :: "(string \<times> string) list \<Rightarrow> string list \<Rightarrow> string list \<Rightarrow> string list \<times> string list" where
  "expandAll vars [] m = ([], m)"
| "expandAll vars (s # ss) m = (let (r, m) = Expand (mapper vars) s m; (rs, m) = expandAll vars ss m in (r # rs, m))"

fun expandTypes :: "(string \<times> string) list \<Rightarrow> (string \<times> string) list \<Rightarrow> (string \<times> string) list \<Rightarrow> string list \<Rightarrow>
    (string \<times> string) list \<times> string list" where
  "expandTypes vars [] expanded m = (expanded, m)"
| "expandTypes vars ((k, v) # kvs) expanded m =
    (let (k, m) = Expand (mapper vars) k m; (v, m) = Expand (mapper vars) v m
     in expandTypes vars kvs (AList.update k v expanded) m)"

text \<open>The strings that \<open>ExpandProfile\<close> expands in place, and the profile with new ones.\<close>

definition profileFields :: "profile \<Rightarrow> string list" where
  "profileFields p = [prName p, Host p, VPN p, ClientCertFile p, ClientKeyFile p, ClientKeyPass p,
     ClientCertUserName p, TrustStoreDir p, ClientName p]"

definition withFields :: "string list \<Rightarrow> profile \<Rightarrow> profile" where
  "withFields fs p = p\<lparr>prName := fs ! 0, Host := fs ! 1, VPN := fs ! 2, ClientCertFile := fs ! 3, ClientKeyFile := fs ! 4,
     ClientKeyPass := fs ! 5, ClientCertUserName := fs ! 6, TrustStoreDir := fs ! 7, ClientName := fs ! 8\<rparr>"

text \<open>The profile is changed even if there is an error.\<close>

definition ExpandProfile :: "profile \<Rightarrow> (string \<times> string) list \<Rightarrow> profile \<times> config_error option" where
  "ExpandProfile p vars =
    (let (fs, m) = expandAll vars (profileFields p) [];
         (ps, m) = expandAll vars (ProtoPaths p) m;
         (ts, m) = (if length (TopicTypes p) > 0 then expandTypes vars (TopicTypes p) [] m else (TopicTypes p, m));
         p = (withFields fs p)\<lparr>ProtoPaths := ps, TopicTypes := ts\<rparr>
     in (p, if length m > 0 then Some (MissingVariables m) else None))"

section \<open>Connection properties\<close>

text \<open>The keys and constants are those of the messaging library.\<close>

datatype prop_key =
    TransportLayerPropertyHost | ServicePropertyVPNName | AuthenticationPropertyScheme
  | SSLClientCertFile | SSLClientPrivateKeyFile | ClientCertPrivateKeyFilePassword | ClientCertUserNameKey
  | TrustStorePath | ClientPropertyName | CertValidated | CertValidateServername

datatype prop_value = StringValue string | BoolValue bool | SchemeClientCertificate

definition serviceProps :: "profile \<Rightarrow> (prop_key \<times> prop_value) list" where
  "serviceProps p =
    [(TransportLayerPropertyHost, StringValue (Host p)), (ServicePropertyVPNName, StringValue (VPN p)),
     (AuthenticationPropertyScheme, SchemeClientCertificate), (SSLClientCertFile, StringValue (ClientCertFile p)),
     (SSLClientPrivateKeyFile, StringValue (ClientKeyFile p))] @
    (if ClientKeyPass p \<noteq> [] then [(ClientCertPrivateKeyFilePassword, StringValue (ClientKeyPass p))] else []) @
    (if ClientCertUserName p \<noteq> [] then [(ClientCertUserNameKey, StringValue (ClientCertUserName p))] else []) @
    (if TrustStoreDir p \<noteq> [] \<and> \<not> InsecureSkipVerify p then [(TrustStorePath, StringValue (TrustStoreDir p))] else []) @
    (if ClientName p \<noteq> [] then [(ClientPropertyName, StringValue (ClientName p))] else []) @
    (if InsecureSkipVerify p then [(CertValidated, BoolValue False), (CertValidateServername, BoolValue False)] else [])"

section \<open>The command line\<close>

text \<open>\<open>topicsFlag\<close> and \<open>varsFlag\<close>: repeated flags.\<close>

definition topics_Set :: "string list \<Rightarrow> string \<Rightarrow> string list" where
  "topics_Set t s = t @ [s]"

definition topics_String :: "string list \<Rightarrow> string" where
  "topics_String t = Join '','' t"

definition vars_String :: "(string \<times> string) list \<Rightarrow> string" where
  "vars_String m = (if m = [] then []
     else (let keys = sortSlice (<) (map fst m) in
       Join '','' (map (\<lambda>k. k @ ''='' @ (case map_of m k of None \<Rightarrow> [] | Some v \<Rightarrow> v)) keys)))"

definition vars_Set :: "(string \<times> string) list \<Rightarrow> string \<Rightarrow> string + (string \<times> string) list" where
  "vars_Set m s = (case Cut (CHR ''='') s of (k, val, ok) \<Rightarrow>
     if \<not> ok \<or> k = [] then Inl s else Inr (AList.update k val m))"

text \<open>\<open>loadProfile\<close>, with the content of the files as a function of the path and the default path of the
  configuration as arguments. A fatal error is the result \<open>Inl\<close>.\<close>

definition mergeVars :: "(string \<times> string) list \<Rightarrow> (string \<times> string) list \<Rightarrow> (string \<times> string) list" where
  "mergeVars fileVars vars = fold (\<lambda>(k, v). AList.update k v) vars (fold (\<lambda>(k, v). AList.update k v) fileVars [])"

definition loadProfile :: "(string \<Rightarrow> string + config) \<Rightarrow> (string \<Rightarrow> file_content) \<Rightarrow> string \<Rightarrow> string \<Rightarrow> string \<Rightarrow>
    (string \<times> string) list \<Rightarrow> bool \<Rightarrow> config_error + profile" where
  "loadProfile unmarshal files defaultPath configPath profileName vars validate =
    (let configPath = (if configPath = [] then defaultPath else configPath);
         varsPath = VarsPath configPath
     in (case LoadVarsFile varsPath (files varsPath) of
       Inl e \<Rightarrow> Inl e
     | Inr fileVars \<Rightarrow> (let merged = mergeVars fileVars vars in
         (case LoadConfig unmarshal configPath (files configPath) of
           Inl e \<Rightarrow> Inl e
         | Inr cfg \<Rightarrow> (case SelectProfile cfg profileName configPath of
             Inl e \<Rightarrow> Inl e
           | Inr i \<Rightarrow> (case ExpandProfile (Profiles cfg ! i) merged of
               (p, Some e) \<Rightarrow> Inl e
             | (p, None) \<Rightarrow>
                 if validate then (case ValidateProfile p configPath of Some e \<Rightarrow> Inl e | None \<Rightarrow> Inr p)
                 else Inr p))))))"

end
