(* ===== verification/ConfigProps.thy ===== *)
theory ConfigProps
  imports SolazConfig
begin

text \<open>
  What the configuration of solaz promises: a file of variables means the bindings of its lines, and a
  profile is expanded with them, or all missing variables are reported.
\<close>

section \<open>White space in ASCII texts\<close>

definition ascii :: "string \<Rightarrow> bool" where
  "ascii s \<longleftrightarrow> (\<forall>c \<in> set s. byte c < 128)"

abbreviation blank :: "char \<Rightarrow> bool" where
  "blank c \<equiv> IsSpace (byte c)"

text \<open>White space at the right end.\<close>

definition trimRight :: "string \<Rightarrow> string" where
  "trimRight s = rev (dropWhile blank (rev s))"

lemma ascii_append [simp]: "ascii (s @ t) \<longleftrightarrow> ascii s \<and> ascii t"
  by (auto simp: ascii_def)

lemma ascii_Cons [simp]: "ascii (c # s) \<longleftrightarrow> byte c < 128 \<and> ascii s"
  by (auto simp: ascii_def)

lemma TrimSpace_ascii: "ascii s \<Longrightarrow> TrimSpace s = trimRight (dropWhile blank s)"
proof -
  have "concat (map (snd \<circ> (\<lambda>c. (byte c, [c]))) xs) = xs" for xs :: string by (induction xs) auto
  moreover assume "ascii s"
  ultimately show ?thesis
    by (simp add: TrimSpace_def trimRight_def pieces_ascii ascii_def dropWhile_map rev_map o_def)
qed

lemma trimRight_Nil [simp]: "trimRight [] = []"
  by (simp add: trimRight_def)

lemma trimRight_Nil_iff: "trimRight s = [] \<longleftrightarrow> (\<forall>c \<in> set s. blank c)"
  by (simp add: trimRight_def dropWhile_eq_Nil_conv)

lemma trimRight_simps:
  "\<not> blank c \<Longrightarrow> trimRight (s @ c # t) = s @ c # trimRight t"
  "blank c \<Longrightarrow> trimRight (s @ [c]) = trimRight s"
  by (auto simp: trimRight_def dropWhile_append)

lemma ascii_parts: "ascii s \<Longrightarrow> ascii (dropWhile blank s) \<and> ascii (trimRight s)"
  by (auto simp: ascii_def trimRight_def dest!: set_dropWhileD)

lemma dropWhile_idem [simp]: "dropWhile P (dropWhile P s) = dropWhile P s"
  by (induction s) auto

lemma trimRight_idem [simp]: "trimRight (trimRight s) = trimRight s"
  by (simp add: trimRight_def)

lemma dropWhile_trimRight: "dropWhile blank (trimRight s) = trimRight (dropWhile blank s)"
proof (induction s)
  case (Cons c s)
  show ?case
  proof (cases "blank c")
    case True
    show ?thesis
    proof (cases "\<forall>x \<in> set s. blank x")
      case True
      with \<open>blank c\<close> have "trimRight (c # s) = []" "dropWhile blank (c # s) = []"
        by (simp_all add: trimRight_Nil_iff dropWhile_eq_Nil_conv)
      then show ?thesis by simp
    next
      case False
      then have "trimRight (c # s) = c # trimRight s" by (auto simp: trimRight_def dropWhile_append)
      with Cons \<open>blank c\<close> show ?thesis by simp
    qed
  next
    case False
    with trimRight_simps(1)[of c "[]" s] show ?thesis by simp
  qed
qed simp

lemma TrimSpace_trimmed:
  assumes "ascii s"
  shows "TrimSpace (dropWhile blank s) = TrimSpace s" and "TrimSpace (trimRight s) = TrimSpace s"
  using ascii_parts[OF assms] assms by (simp_all add: TrimSpace_ascii dropWhile_trimRight)

lemma byte_consts [simp]: "byte (CHR ''='') = 61" "byte (CHR ''#'') = 35" "byte (CHR 0x0D) = 13" "byte (CHR 0x0A) = 10"
  by (simp_all add: byte_def)

lemma not_blank_consts [simp]: "\<not> IsSpace 61" "\<not> IsSpace 35" "IsSpace 13"
  by (simp_all add: IsSpace_def)

lemma TrimSpace_dropCR: "ascii l \<Longrightarrow> TrimSpace (dropCR l) = TrimSpace l"
proof (cases "HasSuffix l [CHR 0x0D]")
  case True
  then obtain r where r: "l = r @ [CHR 0x0D]" by (auto simp: HasSuffix_iff)
  moreover assume "ascii l"
  ultimately show ?thesis using TrimSpace_trimmed(2)[of l] TrimSpace_trimmed(2)[of r]
    by (simp add: dropCR_def trimRight_simps)
qed (simp add: dropCR_def TrimSuffix_def)

text \<open>A line with an equals sign, and its two sides.\<close>

lemma TrimSpace_binding:
  assumes "ascii k" and "ascii v"
  shows "TrimSpace (k @ CHR ''='' # v) = dropWhile blank k @ CHR ''='' # trimRight v"
  using assms by (simp add: TrimSpace_ascii dropWhile_append trimRight_simps trimRight_simps(1)[of _ "[]", simplified])

lemma Cut_binding:
  assumes "ascii k" and "ascii v" and "CHR ''='' \<notin> set k"
  shows "Cut (CHR ''='') (TrimSpace (k @ CHR ''='' # v)) = (dropWhile blank k, trimRight v, True)"
  unfolding TrimSpace_binding[OF assms(1,2)] using assms(3) by (intro Cut_found) (auto dest: set_dropWhileD)

lemma dropWhile_all_blank: "\<forall>x \<in> set (dropWhile P k). P x \<Longrightarrow> dropWhile P k = []"
  using hd_dropWhile list.set_sel(1) by blast

lemma TrimSpace_Nil_iff:
  assumes "ascii k"
  shows "TrimSpace k = [] \<longleftrightarrow> dropWhile blank k = []"
proof -
  have "(\<forall>c \<in> set (dropWhile blank k). blank c) \<longleftrightarrow> dropWhile blank k = []"
    by (rule iffI, erule dropWhile_all_blank, simp only: list.set(1) ball_empty)
  then show ?thesis unfolding TrimSpace_ascii[OF assms] trimRight_Nil_iff .
qed

section \<open>The file of variables\<close>

lemma rawLines_line: "CHR 0x0A \<notin> set l \<Longrightarrow> rawLines (l @ CHR 0x0A # s) = l # rawLines s"
  by (simp add: rawLines_def Split_append Let_def)

lemma rawLines_last:
  assumes "CHR 0x0A \<notin> set l" "l \<noteq> []" "after = [] \<or> (\<exists>rest. after = CHR 0x0A # rest)"
  shows "\<exists>ls. rawLines (l @ after) = l # ls"
proof (cases "after = []")
  case True
  with assms(1,2) show ?thesis by (simp add: rawLines_def Split_single Let_def)
qed (use assms(3) rawLines_line[OF assms(1)] in auto)

text \<open>What the author of a file may write on a line: nothing but white space or a comment, or a binding.\<close>

datatype vars_line = Ignored string | Binding string string

fun lineText :: "vars_line \<Rightarrow> string" where
  "lineText (Ignored l) = l"
| "lineText (Binding k v) = k @ CHR ''='' # v"

fun line_ok :: "vars_line \<Rightarrow> bool" where
  "line_ok (Ignored l) \<longleftrightarrow> TrimSpace l = [] \<or> HasPrefix (TrimSpace l) ''#''"
| "line_ok (Binding k v) \<longleftrightarrow> CHR ''='' \<notin> set k \<and> TrimSpace k \<noteq> [] \<and> \<not> HasPrefix (TrimSpace k) ''#''"

definition text_ok :: "string \<Rightarrow> bool" where
  "text_ok l \<longleftrightarrow> ascii l \<and> CHR 0x0A \<notin> set l \<and> length l < maxScanTokenSize"

definition bindings :: "vars_line list \<Rightarrow> (string \<times> string) list" where
  "bindings ls = List.map_filter (\<lambda>l. case l of Ignored _ \<Rightarrow> None | Binding k v \<Rightarrow> Some (TrimSpace k, TrimSpace v)) ls"

definition fileText :: "string list \<Rightarrow> string" where
  "fileText ls = concat (map (\<lambda>l. l @ [CHR 0x0A]) ls)"

lemma rawLines_fileText: "\<forall>l \<in> set ls. text_ok l \<Longrightarrow> rawLines (fileText ls @ s) = ls @ rawLines s"
  by (induction ls) (auto simp: fileText_def rawLines_line text_ok_def)

lemma HasPrefix_hash: "HasPrefix s ''#'' \<longleftrightarrow> s \<noteq> [] \<and> hd s = CHR ''#''"
  by (cases s) (auto simp: HasPrefix_iff)

text \<open>One line of the file.\<close>

lemma varsLoop_ignored:
  assumes "text_ok l" and "line_ok (Ignored l)"
  shows "varsLoop path n (l # ls) vars = varsLoop path (n + 1) ls vars"
  using assms by (simp add: text_ok_def TrimSpace_dropCR not_le Let_def)

lemma hash_binding:
  assumes "ascii k" and "ascii v" and "TrimSpace k \<noteq> []"
  shows "HasPrefix (TrimSpace (k @ CHR ''='' # v)) ''#'' \<longleftrightarrow> HasPrefix (TrimSpace k) ''#''"
proof -
  from assms(3) TrimSpace_Nil_iff[OF assms(1)] obtain c t where ct: "dropWhile blank k = c # t"
    by (cases "dropWhile blank k") auto
  then have "\<not> blank c" by (metis dropWhile_eq_Cons_conv)
  with ct trimRight_simps(1)[of c "[]" t] show ?thesis
    by (simp add: HasPrefix_hash TrimSpace_binding[OF assms(1,2)] TrimSpace_ascii[OF assms(1)])
qed

lemma varsLoop_binding:
  assumes "text_ok (k @ CHR ''='' # v)" and "CHR ''='' \<notin> set k" and "\<not> HasPrefix (TrimSpace k) ''#''"
  shows "varsLoop path n ((k @ CHR ''='' # v) # ls) vars =
    (if TrimSpace k = [] then Inl (EmptyKey path n) else varsLoop path (n + 1) ls (AList.update (TrimSpace k) (TrimSpace v) vars))"
proof -
  from assms(1) have a: "ascii k" "ascii v" "ascii (k @ CHR ''='' # v)" "length (k @ CHR ''='' # v) < maxScanTokenSize"
    by (simp_all add: text_ok_def)
  have "TrimSpace (k @ CHR ''='' # v) \<noteq> []" by (simp add: TrimSpace_binding[OF a(1,2)])
  moreover have "\<not> HasPrefix (TrimSpace (k @ CHR ''='' # v)) ''#''"
  proof (cases "TrimSpace k = []")
    case True
    with TrimSpace_Nil_iff[OF a(1)] have "dropWhile blank k = []" by simp
    then show ?thesis unfolding TrimSpace_binding[OF a(1,2)] HasPrefix_hash by (simp only: append_Nil list.sel) simp
  next
    case False
    with hash_binding[OF a(1,2)] assms(3) show ?thesis by simp
  qed
  ultimately show ?thesis
    using a(4) TrimSpace_trimmed[OF a(1)] TrimSpace_trimmed[OF a(2)]
    by (simp add: TrimSpace_dropCR[OF a(3)] Cut_binding[OF a(1,2) assms(2)] Let_def)
qed

lemma varsLoop_lines:
  assumes "\<forall>l \<in> set ls. text_ok (lineText l) \<and> line_ok l"
  shows "varsLoop path n (map lineText ls @ rest) vars =
    varsLoop path (n + length ls) rest (fold (\<lambda>(k, v). AList.update k v) (bindings ls) vars)"
  using assms
proof (induction ls arbitrary: n vars)
  case (Cons l ls)
  then show ?case
  proof (cases l)
    case (Ignored t)
    with Cons.prems have "text_ok t" "line_ok (Ignored t)" by simp_all
    from varsLoop_ignored[OF this] Cons Ignored show ?thesis by (simp add: bindings_def map_filter_simps)
  next
    case (Binding k v)
    with Cons.prems have "text_ok (k @ CHR ''='' # v)" "CHR ''='' \<notin> set k" "\<not> HasPrefix (TrimSpace k) ''#''" "TrimSpace k \<noteq> []"
      by simp_all
    from varsLoop_binding[OF this(1,2,3)] this(4) Cons Binding show ?thesis by (simp add: bindings_def map_filter_simps)
  qed
qed (simp add: bindings_def map_filter_simps)

lemma map_of_updates: "map_of (fold (\<lambda>(k, v). AList.update k v) kvs m) = map_of m ++ map_of (rev kvs)"
  by (induction kvs arbitrary: m) (auto simp: update_conv' map_add_upd_left map_add_def split: option.split)

text \<open>C30. A file of variables, in ASCII, whose lines are comments, white space or bindings and shorter than
  64 KiB, means the last binding of every key, with the white space around keys and values removed; the last
  line may lack its line feed. If a line is none of that, the first such line makes the load fail, whatever
  follows it: a line without an equals sign and a line with an empty key with their number, an over-long
  line (of any bytes) with the scanner's error, which has no line number.\<close>

theorem vars_file_meaning:
  assumes "\<forall>l \<in> set ls. text_ok (lineText l) \<and> line_ok l"
    and "after = [] \<or> (\<exists>rest. after = CHR 0x0A # rest)"
  shows "(\<exists>vars. LoadVarsFile path (Content (fileText (map lineText ls))) = Inr vars \<and>
      map_of vars = map_of (rev (bindings ls))) \<and>
    (text_ok (lineText l) \<and> line_ok l \<longrightarrow>
      (\<exists>vars. LoadVarsFile path (Content (fileText (map lineText ls) @ lineText l)) = Inr vars \<and>
        map_of vars = map_of (rev (bindings (ls @ [l]))))) \<and>
    (text_ok bad \<and> CHR ''='' \<notin> set bad \<and> \<not> line_ok (Ignored bad) \<longrightarrow>
      LoadVarsFile path (Content (fileText (map lineText ls) @ bad @ after)) = Inl (MissingEquals path (length ls + 1))) \<and>
    (text_ok (k @ CHR ''='' # v) \<and> TrimSpace k = [] \<longrightarrow>
      LoadVarsFile path (Content (fileText (map lineText ls) @ (k @ CHR ''='' # v) @ after)) = Inl (EmptyKey path (length ls + 1))) \<and>
    (CHR 0x0A \<notin> set bad \<and> maxScanTokenSize \<le> length bad \<longrightarrow>
      LoadVarsFile path (Content (fileText (map lineText ls) @ bad @ after)) = Inl (LineTooLong path))"
proof (intro conjI impI)
  have load: "LoadVarsFile path (Content (fileText (map lineText ls) @ s)) =
      varsLoop path (1 + length ls) (rawLines s) (fold (\<lambda>(k, v). AList.update k v) (bindings ls) [])" for s
    using rawLines_fileText[of "map lineText ls" s] assms(1) varsLoop_lines[OF assms(1), of path 1]
    by (simp add: LoadVarsFile_def)
  have nil: "rawLines [] = []" by (simp add: rawLines_def)
  show "\<exists>vars. LoadVarsFile path (Content (fileText (map lineText ls))) = Inr vars \<and>
      map_of vars = map_of (rev (bindings ls))"
    using load[of "[]"] by (simp add: nil map_of_updates)
  show "\<exists>vars. LoadVarsFile path (Content (fileText (map lineText ls) @ lineText l)) = Inr vars \<and>
      map_of vars = map_of (rev (bindings (ls @ [l])))" if l: "text_ok (lineText l) \<and> line_ok l"
  proof (cases "lineText l = []")
    case True
    then have "bindings (ls @ [l]) = bindings ls" by (cases l) (simp_all add: bindings_def map_filter_def)
    with True load[of "[]"] show ?thesis by (simp add: nil map_of_updates)
  next
    case False
    have "rawLines (lineText l) = [lineText l]"
      using l False by (simp add: rawLines_def text_ok_def Split_single Let_def)
    moreover have "bindings (ls @ [l]) = bindings ls @ bindings [l]" by (simp add: bindings_def map_filter_def)
    ultimately show ?thesis
      using load[of "lineText l"] varsLoop_lines[of "[l]" path "1 + length ls" "[]"] l by (simp add: map_of_updates)
  qed
  show "LoadVarsFile path (Content (fileText (map lineText ls) @ bad @ after)) = Inl (MissingEquals path (length ls + 1))"
    if bad: "text_ok bad \<and> CHR ''='' \<notin> set bad \<and> \<not> line_ok (Ignored bad)"
  proof -
    have "CHR ''='' \<notin> set (TrimSpace bad)" using TrimSpace_part[of bad] bad by (metis Un_iff set_append)
    moreover have "bad \<noteq> []" using bad by (auto simp: TrimSpace_ascii ascii_def trimRight_def)
    then obtain ls' where "rawLines (bad @ after) = bad # ls'"
      using rawLines_last[OF _ _ assms(2)] bad by (auto simp: text_ok_def)
    ultimately show ?thesis
      using bad unfolding load by (simp add: text_ok_def TrimSpace_dropCR Cut_missing Let_def)
  qed
  show "LoadVarsFile path (Content (fileText (map lineText ls) @ (k @ CHR ''='' # v) @ after)) = Inl (EmptyKey path (length ls + 1))"
    if k: "text_ok (k @ CHR ''='' # v) \<and> TrimSpace k = []"
  proof -
    from k have "dropWhile blank k = []" using TrimSpace_Nil_iff[of k] by (simp add: text_ok_def)
    then have eq: "CHR ''='' \<notin> set k" by (metis dropWhile_eq_Nil_conv byte_consts(1) not_blank_consts(1))
    obtain ls' where "rawLines ((k @ CHR ''='' # v) @ after) = (k @ CHR ''='' # v) # ls'"
      using rawLines_last[OF _ _ assms(2)] k unfolding text_ok_def by (metis append_is_Nil_conv list.distinct(1))
    with varsLoop_binding[OF _ eq, of v path "1 + length ls" ls'] k show ?thesis
      unfolding load by (simp add: HasPrefix_hash del: varsLoop.simps)
  qed
  show "LoadVarsFile path (Content (fileText (map lineText ls) @ bad @ after)) = Inl (LineTooLong path)"
    if bad: "CHR 0x0A \<notin> set bad \<and> maxScanTokenSize \<le> length bad"
  proof -
    have "bad \<noteq> []" using bad by (auto simp: maxScanTokenSize_def)
    then obtain ls' where "rawLines (bad @ after) = bad # ls'" using rawLines_last[OF _ _ assms(2)] bad by blast
    with bad show ?thesis unfolding load by simp
  qed
qed

theorem vars_file_meaning_witness:
  "\<exists>vars. LoadVarsFile ''f'' (Content (fileText [''# c'', ''a = 1'', []] @ ''a=2 '')) = Inr vars \<and> map_of vars = [''a'' \<mapsto> ''2''] \<and>
    LoadVarsFile ''f'' (Content (fileText [''# c'', ''a = 1'', []] @ ''b'' @ CHR 0x0A # ''=1'')) = Inl (MissingEquals ''f'' 4)"
proof -
  let ?ls = "[Ignored ''# c'', Binding ''a '' '' 1'', Ignored []]"
  have trims: "TrimSpace ''# c'' = ''# c''" "TrimSpace ''a '' = ''a''" "TrimSpace '' 1'' = ''1''" "TrimSpace ''a'' = ''a''"
    "TrimSpace ''2 '' = ''2''" "TrimSpace ''b'' = ''b''" "TrimSpace [] = []"
    by (simp_all add: TrimSpace_ascii ascii_def byte_def IsSpace_def trimRight_def)
  have "\<forall>l \<in> set ?ls. text_ok (lineText l) \<and> line_ok l"
    by (simp add: trims HasPrefix_hash text_ok_def ascii_def byte_def maxScanTokenSize_def)
  from vars_file_meaning[OF this, of "CHR 0x0A # ''=1''" "''f''" "Binding ''a'' ''2 ''" "''b''"] show ?thesis
    by (simp add: trims HasPrefix_hash text_ok_def ascii_def byte_def maxScanTokenSize_def bindings_def map_filter_simps)
qed

section \<open>Templates\<close>

text \<open>A text parsed into what is copied and the names of variables.\<close>

datatype part = Copied string | Variable string

function partsOf :: "string \<Rightarrow> part list" where
  "partsOf [] = []"
| "partsOf (c # s) =
    (if c = CHR ''$'' \<and> s \<noteq> [] then
       (let (name, w) = getShellName s
        in (if name = [] \<and> w > 0 then [] else if name = [] then [Copied [c]] else [Variable name]) @ partsOf (drop w s))
     else Copied [c] # partsOf s)"
  by pat_completeness auto

termination
  by (relation "measure length") auto

fun runParts :: "(string \<Rightarrow> 'm \<Rightarrow> string \<times> 'm) \<Rightarrow> part list \<Rightarrow> 'm \<Rightarrow> string \<times> 'm" where
  "runParts f [] m = ([], m)"
| "runParts f (Copied t # ps) m = (case runParts f ps m of (r, m) \<Rightarrow> (t @ r, m))"
| "runParts f (Variable n # ps) m = (case f n m of (v, m) \<Rightarrow> (case runParts f ps m of (r, m) \<Rightarrow> (v @ r, m)))"

lemma Expand_parts: "Expand f s m = runParts f (partsOf s) m"
proof (induction f s m rule: Expand.induct)
  case (2 f c s m)
  show ?case
  proof (cases "c = CHR ''$'' \<and> s \<noteq> []")
    case True
    obtain name w where n: "getShellName s = (name, w)" by (cases "getShellName s")
    from 2(1)[OF True n[symmetric]] True n show ?thesis
      by (auto simp: Let_def split: prod.split)
  next
    case False
    with 2(2)[OF False] show ?thesis by (auto split: prod.split)
  qed
qed simp

text \<open>The names a text mentions, and the text with the values of the variables.\<close>

definition varNames :: "string \<Rightarrow> string list" where
  "varNames s = List.map_filter (\<lambda>p. case p of Copied _ \<Rightarrow> None | Variable n \<Rightarrow> Some n) (partsOf s)"

definition substitute :: "(string \<times> string) list \<Rightarrow> string \<Rightarrow> string" where
  "substitute vars s = concat (map (\<lambda>p. case p of Copied t \<Rightarrow> t
     | Variable n \<Rightarrow> (case map_of vars n of None \<Rightarrow> [] | Some v \<Rightarrow> v)) (partsOf s))"

definition missNew :: "(string \<times> string) list \<Rightarrow> string \<Rightarrow> string list \<Rightarrow> string list" where
  "missNew vars n m = (if n \<in> fst ` set vars \<or> n \<in> set m then m else m @ [n])"

lemma mapper_alt: "mapper vars n m = (case map_of vars n of None \<Rightarrow> [] | Some v \<Rightarrow> v, missNew vars n m)"
proof -
  have "n \<in> fst ` set vars \<longleftrightarrow> map_of vars n \<noteq> None" by (simp add: map_of_eq_None_iff)
  then show ?thesis by (auto simp: mapper_def missNew_def)
qed

lemma Expand_mapper: "Expand (mapper vars) s m = (substitute vars s, fold (missNew vars) (varNames s) m)"
proof -
  have "runParts (mapper vars) ps m = (concat (map (\<lambda>p. case p of Copied t \<Rightarrow> t
       | Variable n \<Rightarrow> (case map_of vars n of None \<Rightarrow> [] | Some v \<Rightarrow> v)) ps),
     fold (missNew vars) (List.map_filter (\<lambda>p. case p of Copied _ \<Rightarrow> None | Variable n \<Rightarrow> Some n) ps) m)" for ps
    by (induction ps arbitrary: m rule: list.induct) (auto simp: map_filter_simps mapper_alt split: part.split)
  then show ?thesis by (simp add: Expand_parts substitute_def varNames_def)
qed

lemma expandAll_mapper:
  "expandAll vars ss m = (map (substitute vars) ss, fold (missNew vars) (concat (map varNames ss)) m)"
  by (induction ss arbitrary: m) (simp_all add: Expand_mapper)

lemma expandTypes_mapper:
  "expandTypes vars kvs expanded m =
    (fold (\<lambda>(k, v). AList.update k v) (map (map_prod (substitute vars) (substitute vars)) kvs) expanded,
     fold (missNew vars) (concat (map varNames (concat (map (\<lambda>(k, v). [k, v]) kvs)))) m)"
  by (induction vars kvs expanded m rule: expandTypes.induct) (simp_all add: Expand_mapper)

text \<open>The elements of a list without repetitions, in the order of their first occurrences.\<close>

definition firsts :: "'a list \<Rightarrow> 'a list" where
  "firsts xs = rev (remdups (rev xs))"

lemma firsts_props [simp]: "distinct (firsts xs)" "set (firsts xs) = set xs" "firsts xs = [] \<longleftrightarrow> xs = []"
  by (simp_all add: firsts_def)

lemma fold_missNew: "fold (missNew vars) ns [] = firsts (filter (\<lambda>n. n \<notin> fst ` set vars) ns)"
proof (induction ns rule: rev_induct)
  case (snoc n ns)
  then show ?case by (auto simp: missNew_def firsts_def)
qed (simp add: firsts_def)

text \<open>All texts of a profile in which variables are expanded, in the order of the expansion.\<close>

definition profileTexts :: "profile \<Rightarrow> string list" where
  "profileTexts p = [prName p, Host p, VPN p, ClientCertFile p, ClientKeyFile p, ClientKeyPass p, ClientCertUserName p,
     TrustStoreDir p, ClientName p] @ ProtoPaths p @ concat (map (\<lambda>(k, v). [k, v]) (TopicTypes p))"

text \<open>A profile with \<open>f\<close> applied to each of its single texts.\<close>

definition mapTexts :: "(string \<Rightarrow> string) \<Rightarrow> profile \<Rightarrow> profile" where
  "mapTexts f p = p\<lparr>prName := f (prName p), Host := f (Host p), VPN := f (VPN p), ClientCertFile := f (ClientCertFile p),
     ClientKeyFile := f (ClientKeyFile p), ClientKeyPass := f (ClientKeyPass p), ClientCertUserName := f (ClientCertUserName p),
     TrustStoreDir := f (TrustStoreDir p), ClientName := f (ClientName p)\<rparr>"

lemma withFields_mapTexts: "withFields (map f (profileFields p)) p = mapTexts f p"
  by (simp add: withFields_def profileFields_def mapTexts_def)

lemma ExpandProfile_alt:
  "ExpandProfile p vars = (let m = fold (missNew vars) (concat (map varNames (profileTexts p))) [] in
    ((mapTexts (substitute vars) p)\<lparr>ProtoPaths := map (substitute vars) (ProtoPaths p),
       TopicTypes := fold (\<lambda>(k, v). AList.update k v) (map (map_prod (substitute vars) (substitute vars)) (TopicTypes p)) []\<rparr>,
     if m = [] then None else Some (MissingVariables m)))"
  by (cases "TopicTypes p = []")
     (simp_all add: ExpandProfile_def expandAll_mapper expandTypes_mapper profileTexts_def profileFields_def Let_def
        flip: withFields_mapTexts)

text \<open>C31. Expanding a profile replaces every variable in every text of it by its value, also in the keys
  and values of the topic types, where the last of several equal keys wins. It fails exactly if a
  variable has no value, with all such names once, in the order in which they are first used.\<close>

theorem expand_profile:
  "let (q, e) = ExpandProfile p vars;
       missing = firsts (filter (\<lambda>n. n \<notin> fst ` set vars) (concat (map varNames (profileTexts p))))
   in e = (if missing = [] then None else Some (MissingVariables missing)) \<and>
     q = (mapTexts (substitute vars) p)\<lparr>ProtoPaths := map (substitute vars) (ProtoPaths p), TopicTypes := TopicTypes q\<rparr> \<and>
     map_of (TopicTypes q) = map_of (rev (map (map_prod (substitute vars) (substitute vars)) (TopicTypes p)))"
  unfolding ExpandProfile_alt fold_missNew Let_def prod.case by (simp add: map_of_updates)

text \<open>A text that is written as a template, with every name in braces, is read as that template.\<close>

fun partText :: "part \<Rightarrow> string" where
  "partText (Copied t) = t"
| "partText (Variable n) = CHR ''$'' # CHR ''{'' # n @ ''}''"

fun part_ok :: "part \<Rightarrow> bool" where
  "part_ok (Copied t) \<longleftrightarrow> CHR ''$'' \<notin> set t"
| "part_ok (Variable n) \<longleftrightarrow> n \<noteq> [] \<and> CHR ''}'' \<notin> set n"

lemma partsOf_copied: "CHR ''$'' \<notin> set t \<Longrightarrow> partsOf (t @ s) = map (\<lambda>c. Copied [c]) t @ partsOf s"
  by (induction t) auto

lemma takeWhile_brace: "CHR ''}'' \<notin> set n \<Longrightarrow> takeWhile (\<lambda>c. c \<noteq> CHR ''}'') (n @ CHR ''}'' # s) = n"
  by (induction n) auto

lemma getShellName_brace:
  assumes "n \<noteq> []" and "CHR ''}'' \<notin> set n"
  shows "getShellName (CHR ''{'' # n @ CHR ''}'' # s) = (n, length n + 2)"
proof (cases "tl n")
  case Nil
  with assms(1) obtain c where "n = [c]" by (cases n) auto
  with assms(2) show ?thesis by (simp add: getShellName_def)
next
  case (Cons d r)
  with assms obtain c where n: "n = c # d # r" by (cases n) auto
  with assms(2) have "d \<noteq> CHR ''}''" by auto
  with n assms(2) takeWhile_brace[OF assms(2), of s] show ?thesis by (simp add: getShellName_def Let_def)
qed

lemma partsOf_variable:
  "n \<noteq> [] \<Longrightarrow> CHR ''}'' \<notin> set n \<Longrightarrow> partsOf (CHR ''$'' # CHR ''{'' # n @ CHR ''}'' # s) = Variable n # partsOf s"
  by (simp add: getShellName_brace)

lemma concat_singles [simp]: "concat (map (\<lambda>c. [c]) t) = t"
  by (induction t) auto

theorem template_substituted:
  assumes "\<forall>p \<in> set ps. part_ok p"
  shows "substitute vars (concat (map partText ps)) = concat (map (\<lambda>p. case p of Copied t \<Rightarrow> t
       | Variable n \<Rightarrow> (case map_of vars n of None \<Rightarrow> [] | Some v \<Rightarrow> v)) ps)"
    and "varNames (concat (map partText ps)) = List.map_filter (\<lambda>p. case p of Copied _ \<Rightarrow> None | Variable n \<Rightarrow> Some n) ps"
  using assms
proof (induction ps)
  case (Cons p ps)
  note parts = partsOf_copied partsOf_variable
  have none: "List.map_filter (\<lambda>p. case p of Copied _ \<Rightarrow> None | Variable n \<Rightarrow> Some n) (map (\<lambda>c. Copied [c]) t @ xs) =
      List.map_filter (\<lambda>p. case p of Copied _ \<Rightarrow> None | Variable n \<Rightarrow> Some n) xs" for t and xs
    by (induction t) (simp_all add: map_filter_simps)
  {
    case 1
    with Cons show ?case by (cases p) (simp_all add: substitute_def parts o_def del: partsOf.simps(2))
  next
    case 2
    with Cons show ?case by (cases p) (simp_all add: varNames_def parts none map_filter_simps del: partsOf.simps(2))
  }
qed (simp_all add: substitute_def varNames_def map_filter_simps)

section \<open>Loading a profile\<close>

lemma selectFrom_Some: "selectFrom name i ps = Some k \<Longrightarrow> i \<le> k \<and> k < i + length ps \<and> prName (ps ! (k - i)) = name"
proof (induction ps arbitrary: i)
  case (Cons p ps)
  show ?case
  proof (cases "prName p = name")
    case False
    with Cons have "i + 1 \<le> k" "k < i + 1 + length ps" "prName (ps ! (k - (i + 1))) = name" by fastforce+
    then show ?thesis by (simp add: nth_Cons' Suc_diff_le)
  qed (use Cons.prems in auto)
qed simp

lemma selectFrom_None: "selectFrom name i ps = None \<longleftrightarrow> name \<notin> prName ` set ps"
  by (induction ps arbitrary: i) auto

lemma SelectProfile_ok:
  assumes "SelectProfile c name path = Inr i" and "Profiles c \<noteq> []"
  shows "i < length (Profiles c) \<and> (if name = [] then i = 0 else prName (Profiles c ! i) = name)"
  using assms selectFrom_Some[of name 0 "Profiles c" i]
  by (auto simp: SelectProfile_def split: if_splits option.splits)

lemma LoadConfig_nonempty: "LoadConfig unmarshal path f = Inr c \<Longrightarrow> Profiles c \<noteq> []"
  by (auto simp: LoadConfig_def split: file_content.splits sum.splits if_splits option.splits)

lemma mergeVars_lookup: "map_of (mergeVars fileVars vars) = map_of (rev fileVars) ++ map_of (rev vars)"
  by (simp add: mergeVars_def map_of_updates)

lemma expand_fields:
  assumes "ExpandProfile p vars = (q, None)"
  shows "q = (mapTexts (substitute vars) p)\<lparr>ProtoPaths := map (substitute vars) (ProtoPaths p), TopicTypes := TopicTypes q\<rparr>"
    and "\<forall>s \<in> set (profileTexts p). set (varNames s) \<subseteq> fst ` set vars"
proof -
  have "q = fst (ExpandProfile p vars)" "None = snd (ExpandProfile p vars)" using assms by simp_all
  moreover from this(2) have "fold (missNew vars) (concat (map varNames (profileTexts p))) [] = []"
    by (simp add: ExpandProfile_alt Let_def split: if_splits)
  ultimately show "q = (mapTexts (substitute vars) p)\<lparr>ProtoPaths := map (substitute vars) (ProtoPaths p), TopicTypes := TopicTypes q\<rparr>"
    and "\<forall>s \<in> set (profileTexts p). set (varNames s) \<subseteq> fst ` set vars"
    by (auto simp: ExpandProfile_alt Let_def fold_missNew filter_empty_conv)
qed

text \<open>A profile that has been loaded is the one that was asked for, with every variable replaced by its
  value, those of the command line before those of the file; a profile to connect with has everything
  that a connection needs.\<close>

theorem loaded_profile:
  assumes "loadProfile unmarshal files defaultPath configPath name vars validate = Inr q"
  shows "\<exists>cfg p merged fileVars path. path = (if configPath = [] then defaultPath else configPath) \<and>
    LoadConfig unmarshal path (files path) = Inr cfg \<and> p \<in> set (Profiles cfg) \<and>
    (if name = [] then p = hd (Profiles cfg) else prName p = name) \<and>
    LoadVarsFile (VarsPath path) (files (VarsPath path)) = Inr fileVars \<and>
    map_of merged = map_of (rev fileVars) ++ map_of (rev vars) \<and>
    q = (mapTexts (substitute merged) p)\<lparr>ProtoPaths := map (substitute merged) (ProtoPaths p), TopicTypes := TopicTypes q\<rparr> \<and>
    (\<forall>s \<in> set (profileTexts p). set (varNames s) \<subseteq> fst ` set merged) \<and>
    (validate \<longrightarrow> Host q \<noteq> [] \<and> VPN q \<noteq> [] \<and> ClientCertFile q \<noteq> [] \<and> ClientKeyFile q \<noteq> [])"
proof -
  define path where "path = (if configPath = [] then defaultPath else configPath)"
  from assms obtain fileVars cfg i where
    steps: "LoadVarsFile (VarsPath path) (files (VarsPath path)) = Inr fileVars" "LoadConfig unmarshal path (files path) = Inr cfg"
      "SelectProfile cfg name path = Inr i"
    and expand: "ExpandProfile (Profiles cfg ! i) (mergeVars fileVars vars) = (q, None)"
    and valid: "validate \<longrightarrow> ValidateProfile q path = None"
    by (auto simp: loadProfile_def Let_def path_def split: sum.splits prod.splits option.splits if_splits)
  from SelectProfile_ok[OF steps(3) LoadConfig_nonempty[OF steps(2)]]
  have i: "i < length (Profiles cfg)" "if name = [] then i = 0 else prName (Profiles cfg ! i) = name" by simp_all
  from i(1) have "Profiles cfg ! 0 = hd (Profiles cfg)" by (intro hd_conv_nth[symmetric]) auto
  with i steps(1,2) mergeVars_lookup[of fileVars vars] expand_fields[OF expand] valid show ?thesis
    by (intro exI[of _ cfg] exI[of _ "Profiles cfg ! i"] exI[of _ "mergeVars fileVars vars"] exI[of _ fileVars] exI[of _ path] conjI)
      (simp_all add: path_def[symmetric] ValidateProfile_def split: if_splits)
qed

end
