(* ===== verification/SolazRun.thy ===== *)
theory SolazRun
  imports SolazConfig TopicMatch GoNumbers
begin

text \<open>
  Receiving messages, \<open>solaz/internal/solace/solace.go\<close> and \<open>registry.go\<close>: the receive loop, the three
  handlers and the registry of message types. The messaging library, the protobuf compiler and the
  clock are arguments; what the code does with them is a list of effects.
\<close>

section \<open>Messages and output\<close>

text \<open>An inbound message: what its getters return. Times are formatted, a payload that cannot be read is
  empty, and an expiration that is not set is \<open>None\<close>.\<close>

record inbound_message =
  Destination :: string
  AppMessageID :: "string option"
  AppMessageType :: "string option"
  HTTPContentType :: "string option"
  HTTPContentEncoding :: "string option"
  CorrelationID :: "string option"
  SenderID :: "string option"
  SenderTimestamp :: "string option"
  ReceiveTimestamp :: "string option"
  SequenceNumber :: "int option"
  Expiration :: "string option"
  Priority :: "int option"
  ClassOfService :: int
  Payload :: string
  Properties :: "(string \<times> string) list"

text \<open>What is printed: a line, or a table whose cells a \<open>tabwriter\<close> aligns.\<close>

datatype printed = Line string | Table "string list list"

definition formatBytes :: "rat \<Rightarrow> string" where
  "formatBytes b = (if b < 1000000 then TrimSuffix (showTenths b) ''.0''
     else (let unit = 1024 in
       if b < unit * unit * unit then showTenths (b / (unit * unit)) @ ''M''
       else showTenths (b / (unit * unit * unit)) @ ''G''))"

section \<open>The registry\<close>

text \<open>Descriptors of the protobuf library, as far as the code looks into them: the message types of a file
  with the types nested in them, and what a name stands for.\<close>

datatype message_descriptor = Descriptor (mdFullName: string) (mdMessages: "message_descriptor list")

fun collectMessageNames :: "message_descriptor list \<Rightarrow> string list \<Rightarrow> string list" where
  "collectMessageNames [] out = out"
| "collectMessageNames (Descriptor name ms # mds) out =
    collectMessageNames mds (collectMessageNames ms (out @ [name]))"

definition MessageNames :: "message_descriptor list list \<Rightarrow> string list" where
  "MessageNames files = sortSlice (<) (fold collectMessageNames files [])"

text \<open>\<open>FindDescriptorByName\<close> returns an error, a message or something else.\<close>

definition FindMessage :: "(string \<Rightarrow> string + 'd option) \<Rightarrow> string \<Rightarrow> string + 'd" where
  "FindMessage lookup name = (case lookup name of
     Inl e \<Rightarrow> Inl e
   | Inr None \<Rightarrow> Inl (name @ '' is not a message'')
   | Inr (Some d) \<Rightarrow> Inr d)"

definition FindFileByPath :: "(string \<Rightarrow> string + 'f) \<Rightarrow> (string \<Rightarrow> 'f option) \<Rightarrow> string \<Rightarrow> string + 'f" where
  "FindFileByPath fallback globalFiles path = (case fallback path of
     Inr r \<Rightarrow> Inr r
   | Inl e \<Rightarrow> (case globalFiles path of Some fd \<Rightarrow> Inr fd | None \<Rightarrow> Inl e))"

text \<open>The files below the search paths: \<open>walk\<close> returns name, kind and relative path of all entries.\<close>

fun protoFiles :: "(string \<Rightarrow> string + (string \<times> bool \<times> string) list) \<Rightarrow> string list \<Rightarrow> string list \<Rightarrow> string + string list" where
  "protoFiles walk [] out = Inr out"
| "protoFiles walk (p # ps) out = (case walk p of
     Inl e \<Rightarrow> Inl (''walk '' @ p @ '': '' @ e)
   | Inr es \<Rightarrow> protoFiles walk ps (out @ map (\<lambda>(name, isDir, rel). rel)
       (filter (\<lambda>(name, isDir, rel). \<not> isDir \<and> HasSuffix name ''.proto'') es)))"

definition NewProtoRegistry :: "(string \<Rightarrow> string + (string \<times> bool \<times> string) list) \<Rightarrow>
    (string list \<Rightarrow> string list \<Rightarrow> string + 'r) \<Rightarrow> 'r \<Rightarrow> string list \<Rightarrow> string + 'r" where
  "NewProtoRegistry walk compile emptyRegistry paths = (case protoFiles walk paths [] of
     Inl e \<Rightarrow> Inl e
   | Inr fs \<Rightarrow> if length fs = 0 then Inr emptyRegistry
       else (case compile paths fs of Inl e \<Rightarrow> Inl (''compile: '' @ e) | Inr r \<Rightarrow> Inr r))"

section \<open>Handlers\<close>

datatype run_error =
    Connect string | BuildReceiver string | StartReceiver string | Receive string
  | Ambiguous lookup_error | EmptyPayload | NoRegistry | TypeUnknown string | DescriptorNotFound string string
  | Unmarshal string | Marshal string | UnknownMode string

text \<open>The protobuf library: looking up a type in a registry, decoding with it and encoding as JSON.\<close>

record ('r, 'd, 'm) proto_lib =
  findDescriptor :: "'r \<Rightarrow> string \<Rightarrow> string + 'd option"
  unmarshal :: "'d \<Rightarrow> string \<Rightarrow> string + 'm"
  marshalJSON :: "'r \<Rightarrow> 'm \<Rightarrow> string + string"

record topic_stats =
  tsCount :: int
  tsTotalSize :: int

datatype 'r handler =
    HeadersHandler
  | PrintJSONHandler "'r option" string "topicTypeEntry list option"
  | StatsHandler "(string \<times> topic_stats) list"

text \<open>A row of the table of headers, if the header is set.\<close>

definition headerRow :: "string \<Rightarrow> string option \<Rightarrow> string list list" where
  "headerRow name v = (case v of None \<Rightarrow> [] | Some s \<Rightarrow> [[name @ '':'', s]])"

definition headers_handle :: "inbound_message \<Rightarrow> printed list" where
  "headers_handle msg =
    Table ([[''Destination:'', Destination msg]] @
      headerRow ''AppMessageID'' (AppMessageID msg) @ headerRow ''AppMessageType'' (AppMessageType msg) @
      headerRow ''HTTPContentType'' (HTTPContentType msg) @ headerRow ''HTTPContentEncoding'' (HTTPContentEncoding msg) @
      headerRow ''CorrelationID'' (CorrelationID msg) @ headerRow ''SenderID'' (SenderID msg) @
      headerRow ''SenderTimestamp'' (SenderTimestamp msg) @ headerRow ''ReceiveTimestamp'' (ReceiveTimestamp msg) @
      headerRow ''SequenceNumber'' (map_option showInt (SequenceNumber msg)) @
      headerRow ''Expiration'' (Expiration msg) @ headerRow ''Priority'' (map_option showInt (Priority msg)) @
      [[''ClassOfService:'', showInt (ClassOfService msg)], [''PayloadBytes:'', showInt (int (length (Payload msg)))]]) #
    (let props = Properties msg in
     if length props > 0 then
       [Line ''Properties:'',
        Table (map (\<lambda>k. [''  '' @ k, ''='', case map_of props k of None \<Rightarrow> [] | Some v \<Rightarrow> v]) (sortSlice (<) (map fst props)))]
     else [])"

text \<open>The message type: the flag, else the mapping of topics, else the header of the message.\<close>

definition messageTypeFor :: "string \<Rightarrow> topicTypeEntry list option \<Rightarrow> inbound_message \<Rightarrow> run_error + string" where
  "messageTypeFor messageType topicIndex msg =
    (case (if messageType = [] then (case Lookup topicIndex (Destination msg) of Inl e \<Rightarrow> Inl (Ambiguous e) | Inr mt \<Rightarrow> Inr mt)
           else Inr messageType) of
       Inl e \<Rightarrow> Inl e
     | Inr t \<Rightarrow> Inr (if t = [] then (case AppMessageType msg of Some v \<Rightarrow> v | None \<Rightarrow> t) else t))"

definition afterSlash :: "string \<Rightarrow> string" where
  "afterSlash t = (let ix = LastIndex t CHR ''/'' in if ix \<ge> 0 then drop (nat (ix + 1)) t else t)"

definition printJSON_handle :: "('r, 'd, 'm) proto_lib \<Rightarrow> 'r option \<Rightarrow> string \<Rightarrow> topicTypeEntry list option \<Rightarrow>
    inbound_message \<Rightarrow> run_error + printed list" where
  "printJSON_handle lib registry messageType topicIndex msg = (case messageTypeFor messageType topicIndex msg of
     Inl e \<Rightarrow> Inl e
   | Inr msgType \<Rightarrow>
       if length (Payload msg) = 0 then Inl EmptyPayload
       else (case registry of
         None \<Rightarrow> Inl NoRegistry
       | Some reg \<Rightarrow>
           if msgType = [] then Inl (TypeUnknown (Destination msg))
           else (let msgType = afterSlash msgType in
             (case FindMessage (findDescriptor lib reg) msgType of
               Inl e \<Rightarrow> Inl (DescriptorNotFound msgType e)
             | Inr desc \<Rightarrow> (case unmarshal lib desc (Payload msg) of
                 Inl e \<Rightarrow> Inl (Unmarshal e)
               | Inr dyn \<Rightarrow> (case marshalJSON lib reg dyn of
                   Inl e \<Rightarrow> Inl (Marshal e)
                 | Inr json \<Rightarrow> Inr [Line json]))))))"

definition stats_handle :: "inbound_message \<Rightarrow> (string \<times> topic_stats) list \<Rightarrow> (string \<times> topic_stats) list" where
  "stats_handle msg topics = (let topic = Destination msg;
     s = (case map_of topics topic of None \<Rightarrow> \<lparr>tsCount = 0, tsTotalSize = 0\<rparr> | Some s \<Rightarrow> s)
     in AList.update topic \<lparr>tsCount = tsCount s + 1, tsTotalSize = tsTotalSize s + int (length (Payload msg))\<rparr> topics)"

text \<open>\<open>h.topics[name]\<close> for a name that is a key.\<close>

definition statsOfTopic :: "(string \<times> topic_stats) list \<Rightarrow> string \<Rightarrow> topic_stats" where
  "statsOfTopic topics t = (case map_of topics t of None \<Rightarrow> \<lparr>tsCount = 0, tsTotalSize = 0\<rparr> | Some s \<Rightarrow> s)"

definition statsRow :: "string \<Rightarrow> int \<Rightarrow> int \<Rightarrow> string list" where
  "statsRow name n bytes = [name, showInt n, formatBytes (float64 (of_int bytes)),
     formatBytes (float64 (float64 (of_int bytes) / float64 (of_int n)))]"

definition stats_finish :: "(string \<times> topic_stats) list \<Rightarrow> printed list" where
  "stats_finish topics = (if length topics = 0 then []
     else (let names = sortSlice (\<lambda>a b. let ci = tsCount (statsOfTopic topics a); cj = tsCount (statsOfTopic topics b) in
                 if ci \<noteq> cj then ci > cj else a < b) (map fst topics);
               totalCount = sum_list (map (tsCount \<circ> snd) topics);
               totalBytes = sum_list (map (tsTotalSize \<circ> snd) topics)
           in [Line [], Table ([[''TOPIC'', ''COUNT'', ''BYTES'', ''AVG BYTES'']] @
                map (\<lambda>t. statsRow t (tsCount (statsOfTopic topics t)) (tsTotalSize (statsOfTopic topics t))) names @
                [statsRow ''TOTAL'' totalCount totalBytes])]))"

definition handle :: "('r, 'd, 'm) proto_lib \<Rightarrow> 'r handler \<Rightarrow> inbound_message \<Rightarrow> run_error + 'r handler \<times> printed list" where
  "handle lib h msg = (case h of
     HeadersHandler \<Rightarrow> Inr (h, headers_handle msg)
   | PrintJSONHandler reg t ix \<Rightarrow> (case printJSON_handle lib reg t ix msg of Inl e \<Rightarrow> Inl e | Inr out \<Rightarrow> Inr (h, out))
   | StatsHandler topics \<Rightarrow> Inr (StatsHandler (stats_handle msg topics), []))"

definition finish :: "'r handler \<Rightarrow> printed list" where
  "finish h = (case h of StatsHandler topics \<Rightarrow> stats_finish topics | _ \<Rightarrow> [])"

section \<open>The receive loop\<close>

record 'r receive_options =
  Topics :: "string list"
  Timeout :: int
  MaxRuntime :: int
  Registry :: "'r option"
  MessageType :: string
  OptTopicTypes :: "(string \<times> string) list"
  Mode :: string
  Count :: int

definition newHandler :: "'r receive_options \<Rightarrow> run_error + 'r handler" where
  "newHandler opts = (if Mode opts = ''headers'' then Inr HeadersHandler
     else if Mode opts = ''payload'' then
       Inr (PrintJSONHandler (Registry opts) (MessageType opts) (newTopicTypeIndex (OptTopicTypes opts)))
     else if Mode opts = ''stats'' then Inr (StatsHandler [])
     else Inl (UnknownMode (Mode opts)))"

datatype receive_result = Message inbound_message | TimeoutError | OtherError string

datatype effect =
    DoConnect | DoDisconnect | DoBuild "string list" | DoStart | DoTerminate | DoReceive int | Print printed | Warn string

text \<open>
  The broker and the clock: the errors of the calls, the result of the \<open>i\<close>-th receive, and the time when
  the deadline is set, before the \<open>i\<close>-th receive and after it.
\<close>

record broker =
  connectError :: "string option"
  buildError :: "string option"
  startError :: "string option"
  received :: "nat \<Rightarrow> receive_result"
  startTime :: int
  timeBefore :: "nat \<Rightarrow> int"
  timeAfter :: "nat \<Rightarrow> int"
  terminateError :: "string option"
  disconnectError :: "string option"

text \<open>The loop from round \<open>i\<close> on, with \<open>n\<close> rounds left.\<close>

fun receiveLoop :: "('r, 'd, 'm) proto_lib \<Rightarrow> broker \<Rightarrow> 'r receive_options \<Rightarrow> int option \<Rightarrow> nat \<Rightarrow> nat \<Rightarrow> 'r handler \<Rightarrow>
      effect list \<times> run_error option"
  and receiveRound :: "('r, 'd, 'm) proto_lib \<Rightarrow> broker \<Rightarrow> 'r receive_options \<Rightarrow> int option \<Rightarrow> nat \<Rightarrow> nat \<Rightarrow> 'r handler \<Rightarrow>
      int \<Rightarrow> effect list \<times> run_error option" where
  "receiveLoop lib b opts deadline i 0 h = (map Print (finish h), None)"
| "receiveLoop lib b opts deadline i (Suc n) h =
    (case deadline of
       Some d \<Rightarrow> if d - timeBefore b i \<le> 0 then (map Print (finish h), None)
         else receiveRound lib b opts deadline i n h
           (if d - timeBefore b i < Timeout opts then d - timeBefore b i else Timeout opts)
     | None \<Rightarrow> receiveRound lib b opts deadline i n h (Timeout opts))"
| "receiveRound lib b opts deadline i n h timeout =
    (case received b i of
       Message msg \<Rightarrow> (case handle lib h msg of
         Inl e \<Rightarrow> ([DoReceive timeout], Some e)
       | Inr (h, out) \<Rightarrow> (case receiveLoop lib b opts deadline (i + 1) n h of
           (effs, e) \<Rightarrow> ([DoReceive timeout] @ map Print out @ effs, e)))
     | TimeoutError \<Rightarrow>
         if deadline \<noteq> None \<and> \<not> timeAfter b i < the deadline
         then (DoReceive timeout # map Print (finish h), None)
         else ([DoReceive timeout], Some (Receive ''timeout''))
     | OtherError e \<Rightarrow> ([DoReceive timeout], Some (Receive e)))"

text \<open>\<open>Run\<close>: the deferred calls end the receiver and the connection. An incomplete delivery is no warning,
  so \<open>terminateError\<close> is any other error.\<close>

definition warning :: "string \<Rightarrow> string option \<Rightarrow> effect list" where
  "warning what e = (case e of None \<Rightarrow> [] | Some t \<Rightarrow> [Warn (''warning: '' @ what @ '': '' @ t)])"

definition Run :: "('r, 'd, 'm) proto_lib \<Rightarrow> broker \<Rightarrow> 'r receive_options \<Rightarrow> effect list \<times> run_error option" where
  "Run lib b opts = (case newHandler opts of
     Inl e \<Rightarrow> ([], Some e)
   | Inr h \<Rightarrow> (case connectError b of
       Some e \<Rightarrow> ([DoConnect], Some (Connect e))
     | None \<Rightarrow> (let close = DoDisconnect # warning ''disconnect'' (disconnectError b) in
         (case buildError b of
           Some e \<Rightarrow> ([DoConnect, DoBuild (Topics opts)] @ close, Some (BuildReceiver e))
         | None \<Rightarrow> (case startError b of
             Some e \<Rightarrow> ([DoConnect, DoBuild (Topics opts), DoStart] @ close, Some (StartReceiver e))
           | None \<Rightarrow>
               (let deadline = (if MaxRuntime opts > 0 then Some (startTime b + MaxRuntime opts) else None) in
                (case receiveLoop lib b opts deadline 0 (nat (Count opts)) h of (effs, err) \<Rightarrow>
                  ([DoConnect, DoBuild (Topics opts), DoStart] @ effs @
                   [DoTerminate] @ warning ''terminate receiver'' (terminateError b) @ close, err))))))))"

section \<open>The commands\<close>

text \<open>The flags of a command after parsing, and their defaults.\<close>

record cli =
  cliConfig :: string
  cliProfile :: string
  cliTimeout :: int
  cliMaxRuntime :: int
  cliType :: string
  cliCount :: int
  cliVars :: "(string \<times> string) list"
  cliTopics :: "string list"

definition second :: int where "second = 1000000000"

definition headersDefaults :: cli where
  "headersDefaults = \<lparr>cliConfig = [], cliProfile = [], cliTimeout = 60 * second, cliMaxRuntime = 0, cliType = [], cliCount = 1,
     cliVars = [], cliTopics = []\<rparr>"

definition payloadDefaults :: cli where
  "payloadDefaults = \<lparr>cliConfig = [], cliProfile = [], cliTimeout = 30 * second, cliMaxRuntime = 0, cliType = [], cliCount = 1,
     cliVars = [], cliTopics = []\<rparr>"

definition statsDefaults :: cli where
  "statsDefaults = \<lparr>cliConfig = [], cliProfile = [], cliTimeout = 30 * second, cliMaxRuntime = 0, cliType = [], cliCount = 100,
     cliVars = [], cliTopics = []\<rparr>"

text \<open>The profile and the options a command runs with; \<open>load\<close> is \<open>loadProfile\<close> with the files.\<close>

definition runHeaders :: "(cli \<Rightarrow> bool \<Rightarrow> config_error + profile) \<Rightarrow> cli \<Rightarrow> config_error + profile \<times> 'r receive_options" where
  "runHeaders load c = (if length (cliTopics c) = 0 then Inl TopicRequired
     else (case load c True of
       Inl e \<Rightarrow> Inl e
     | Inr p \<Rightarrow> Inr (p, \<lparr>Topics = cliTopics c, Timeout = cliTimeout c, MaxRuntime = cliMaxRuntime c, Registry = None,
         MessageType = [], OptTopicTypes = [], Mode = ''headers'', Count = 1\<rparr>)))"

definition runPayload :: "(cli \<Rightarrow> bool \<Rightarrow> config_error + profile) \<Rightarrow> (string list \<Rightarrow> string + 'r) \<Rightarrow> cli \<Rightarrow>
    (config_error + string) + profile \<times> 'r receive_options" where
  "runPayload load newRegistry c = (if length (cliTopics c) = 0 then Inl (Inl TopicRequired)
     else (case load c True of
       Inl e \<Rightarrow> Inl (Inl e)
     | Inr p \<Rightarrow> (case (if length (ProtoPaths p) > 0 then map_sum id Some (newRegistry (ProtoPaths p)) else Inr None) of
         Inl e \<Rightarrow> Inl (Inr e)
       | Inr reg \<Rightarrow> Inr (p, \<lparr>Topics = cliTopics c, Timeout = cliTimeout c, MaxRuntime = cliMaxRuntime c, Registry = reg,
           MessageType = cliType c, OptTopicTypes = TopicTypes p, Mode = ''payload'', Count = cliCount c\<rparr>))))"

definition runStats :: "(cli \<Rightarrow> bool \<Rightarrow> config_error + profile) \<Rightarrow> cli \<Rightarrow> config_error + profile \<times> 'r receive_options" where
  "runStats load c = (if length (cliTopics c) = 0 then Inl TopicRequired
     else (case load c True of
       Inl e \<Rightarrow> Inl e
     | Inr p \<Rightarrow> Inr (p, \<lparr>Topics = cliTopics c, Timeout = cliTimeout c, MaxRuntime = cliMaxRuntime c, Registry = None,
         MessageType = [], OptTopicTypes = [], Mode = ''stats'', Count = cliCount c\<rparr>)))"

definition runTypes :: "(cli \<Rightarrow> bool \<Rightarrow> config_error + profile) \<Rightarrow> (string list \<Rightarrow> string + message_descriptor list list) \<Rightarrow> cli \<Rightarrow>
    (config_error + string) + string list" where
  "runTypes load newRegistry c = (case load c False of
     Inl e \<Rightarrow> Inl (Inl e)
   | Inr p \<Rightarrow> if length (ProtoPaths p) = 0 then Inl (Inl (NoProtoPaths (prName p)))
       else (case newRegistry (ProtoPaths p) of Inl e \<Rightarrow> Inl (Inr e) | Inr files \<Rightarrow> Inr (MessageNames files)))"

text \<open>\<open>runReceive\<close>: the service is built from the properties of the profile.\<close>

definition runReceive :: "((prop_key \<times> prop_value) list \<Rightarrow> string + broker) \<Rightarrow> ('r, 'd, 'm) proto_lib \<Rightarrow> profile \<Rightarrow>
    'r receive_options \<Rightarrow> string + effect list \<times> run_error option" where
  "runReceive build lib p opts = (case build (serviceProps p) of
     Inl e \<Rightarrow> Inl (''build messaging service: '' @ e)
   | Inr b \<Rightarrow> Inr (Run lib b opts))"

text \<open>\<open>main\<close>: the usage with an exit code, a command with its arguments, or a fatal error.\<close>

datatype solaz_action = Usage int | Command string "string list" | UnknownCommand string

definition solaz_main :: "string list \<Rightarrow> solaz_action" where
  "solaz_main osArgs = (if length osArgs < 2 then Usage 1
     else (let cmd = osArgs ! 1; args = drop 2 osArgs in
       if cmd = ''-h'' \<or> cmd = ''--help'' then Usage 0
       else if cmd \<in> {''headers'', ''payload'', ''stats'', ''types''} then Command cmd args
       else UnknownCommand cmd))"

end
