(* ===== verification/SolazProps.thy ===== *)
theory SolazProps
  imports SolazRun
begin

text \<open>
  What \<open>Run\<close> of solaz promises: the calls on the messaging service follow its protocol, no receive waits
  beyond the deadline, and the output is that of the handler for the messages received, in their order.
\<close>

section \<open>The protocol of the messaging service\<close>

datatype phase = Fresh | Connected | Built | Started | Terminated | Closed

text \<open>The phase after an effect; \<open>None\<close> if the effect is not allowed in the phase.\<close>

definition svcStep :: "broker \<Rightarrow> effect \<Rightarrow> phase \<Rightarrow> phase option" where
  "svcStep b e ph = (case e of
     DoConnect \<Rightarrow> if ph = Fresh then Some (if connectError b = None then Connected else Fresh) else None
   | DoBuild _ \<Rightarrow> if ph = Connected then Some (if buildError b = None then Built else Connected) else None
   | DoStart \<Rightarrow> if ph = Built then Some (if startError b = None then Started else Built) else None
   | DoReceive _ \<Rightarrow> if ph = Started then Some Started else None
   | DoTerminate \<Rightarrow> if ph = Started then Some Terminated else None
   | DoDisconnect \<Rightarrow> if ph \<in> {Connected, Built, Terminated} then Some Closed else None
   | Print _ \<Rightarrow> Some ph
   | Warn _ \<Rightarrow> Some ph)"

lemma svcStep_simps [simp]:
  "svcStep b DoConnect Fresh = Some (if connectError b = None then Connected else Fresh)"
  "svcStep b (DoBuild ts) Connected = Some (if buildError b = None then Built else Connected)"
  "svcStep b DoStart Built = Some (if startError b = None then Started else Built)"
  "svcStep b (DoReceive t) Started = Some Started"
  "svcStep b DoTerminate Started = Some Terminated"
  "ph \<in> {Connected, Built, Terminated} \<Longrightarrow> svcStep b DoDisconnect ph = Some Closed"
  "svcStep b (Print p) ph = Some ph"
  "svcStep b (Warn w) ph = Some ph"
  by (simp_all add: svcStep_def)

lemma protocol_output [simp]:
  "foldM (svcStep b) (map Print ps) ph = Some ph"
  "foldM (svcStep b) (warning w e) ph = Some ph"
  by (induction ps) (auto simp: warning_def split: option.splits)

section \<open>The receive loop\<close>

text \<open>The rounds of the loop as one case distinction.\<close>

definition roundTimeout :: "broker \<Rightarrow> 'r receive_options \<Rightarrow> int option \<Rightarrow> nat \<Rightarrow> int" where
  "roundTimeout b opts deadline i = (case deadline of None \<Rightarrow> Timeout opts
     | Some d \<Rightarrow> if d - timeBefore b i < Timeout opts then d - timeBefore b i else Timeout opts)"

definition expired :: "broker \<Rightarrow> int option \<Rightarrow> nat \<Rightarrow> bool" where
  "expired b deadline i \<longleftrightarrow> (case deadline of None \<Rightarrow> False | Some d \<Rightarrow> d - timeBefore b i \<le> 0)"

lemma receiveLoop_Suc:
  "receiveLoop lib b opts deadline i (Suc n) h =
    (if expired b deadline i then (map Print (finish h), None)
     else receiveRound lib b opts deadline i n h (roundTimeout b opts deadline i))"
  by (cases deadline) (simp_all add: expired_def roundTimeout_def del: receiveRound.simps)

declare receiveLoop.simps(2) [simp del]

text \<open>Induction over the loop: it ends, or it handles a message and goes on.\<close>

lemma receiveLoop_rule [consumes 1, case_names stop failed more]:
  assumes "receiveLoop lib b opts deadline i n h = (effs, e)"
    and "\<And>i n h effs. effs = map Print (finish h) \<or>
        0 < n \<and> \<not> expired b deadline i \<and> received b i = TimeoutError \<and> effs = DoReceive (roundTimeout b opts deadline i) # map Print (finish h)
        \<Longrightarrow> P i n h effs None"
    and "\<And>i n h err. 0 < n \<Longrightarrow> \<not> expired b deadline i \<Longrightarrow> P i n h [DoReceive (roundTimeout b opts deadline i)] (Some err)"
    and "\<And>i n h msg h' out effs e. \<not> expired b deadline i \<Longrightarrow> received b i = Message msg \<Longrightarrow> handle lib h msg = Inr (h', out) \<Longrightarrow>
        P (i + 1) n h' effs e \<Longrightarrow>
        P i (Suc n) h (DoReceive (roundTimeout b opts deadline i) # map Print out @ effs) e"
  shows "P i n h effs e"
  using assms(1)
proof (induction n arbitrary: i h effs e)
  case 0
  then show ?case using assms(2) by auto
next
  case (Suc n)
  show ?case
  proof (cases "expired b deadline i")
    case True
    with Suc.prems assms(2) show ?thesis by (auto simp: receiveLoop_Suc)
  next
    case False
    show ?thesis
    proof (cases "received b i")
      case (Message msg)
      show ?thesis
      proof (cases "handle lib h msg")
        case (Inl err)
        with Suc.prems False Message have "effs = [DoReceive (roundTimeout b opts deadline i)]" "e = Some err"
          by (auto simp: receiveLoop_Suc)
        with assms(3)[of "Suc n" i h err] False show ?thesis by simp
      next
        case (Inr r)
        obtain h' out where r: "r = (h', out)" by (cases r)
        obtain effs' e' where rest: "receiveLoop lib b opts deadline (i + 1) n h' = (effs', e')"
          by (cases "receiveLoop lib b opts deadline (i + 1) n h'")
        with Suc.prems False Message Inr r
        have "effs = DoReceive (roundTimeout b opts deadline i) # map Print out @ effs'" "e = e'"
          by (auto simp: receiveLoop_Suc)
        with assms(4)[OF False Message _ Suc.IH[OF rest]] Inr r show ?thesis by simp
      qed
    next
      case TimeoutError
      with Suc.prems False show ?thesis
        using assms(2)[of effs h "Suc n" i] assms(3)[of "Suc n" i h "Receive ''timeout''"]
        by (auto simp: receiveLoop_Suc split: if_splits)
    next
      case (OtherError t)
      with Suc.prems False have "effs = [DoReceive (roundTimeout b opts deadline i)]" "e = Some (Receive t)"
        by (auto simp: receiveLoop_Suc)
      with assms(3)[of "Suc n" i h "Receive t"] False show ?thesis by simp
    qed
  qed
qed

section \<open>Protocol and bounds\<close>

lemma loop_protocol:
  "receiveLoop lib b opts deadline i n h = (effs, e) \<Longrightarrow> foldM (svcStep b) effs Started = Some Started"
  by (induction i n h effs e rule: receiveLoop_rule) (auto simp: foldM_append)

text \<open>\<open>Run\<close> after the handler has been made.\<close>

lemma Run_cases [consumes 1, case_names mode connect build start loop]:
  assumes "Run lib b opts = (effs, e)"
    and "\<And>err. newHandler opts = Inl err \<Longrightarrow> effs = [] \<Longrightarrow> e = Some err \<Longrightarrow> Q"
    and "\<And>t. connectError b = Some t \<Longrightarrow> effs = [DoConnect] \<Longrightarrow> e = Some (Connect t) \<Longrightarrow> Q"
    and "\<And>t. connectError b = None \<Longrightarrow> buildError b = Some t \<Longrightarrow>
        effs = [DoConnect, DoBuild (Topics opts)] @ DoDisconnect # warning ''disconnect'' (disconnectError b) \<Longrightarrow>
        e = Some (BuildReceiver t) \<Longrightarrow> Q"
    and "\<And>t. connectError b = None \<Longrightarrow> buildError b = None \<Longrightarrow> startError b = Some t \<Longrightarrow>
        effs = [DoConnect, DoBuild (Topics opts), DoStart] @ DoDisconnect # warning ''disconnect'' (disconnectError b) \<Longrightarrow>
        e = Some (StartReceiver t) \<Longrightarrow> Q"
    and "\<And>h loop deadline. newHandler opts = Inr h \<Longrightarrow> connectError b = None \<Longrightarrow> buildError b = None \<Longrightarrow> startError b = None \<Longrightarrow>
        deadline = (if MaxRuntime opts > 0 then Some (startTime b + MaxRuntime opts) else None) \<Longrightarrow>
        receiveLoop lib b opts deadline 0 (nat (Count opts)) h = (loop, e) \<Longrightarrow>
        effs = [DoConnect, DoBuild (Topics opts), DoStart] @ loop @ [DoTerminate] @
          warning ''terminate receiver'' (terminateError b) @ DoDisconnect # warning ''disconnect'' (disconnectError b) \<Longrightarrow> Q"
  shows Q
proof (cases "newHandler opts")
  case (Inl err)
  with assms(1,2) show ?thesis by (auto simp: Run_def)
next
  case (Inr h)
  define deadline where "deadline = (if MaxRuntime opts > 0 then Some (startTime b + MaxRuntime opts) else None)"
  obtain loop e' where l: "receiveLoop lib b opts deadline 0 (nat (Count opts)) h = (loop, e')"
    by (cases "receiveLoop lib b opts deadline 0 (nat (Count opts)) h")
  from assms(1) Inr show ?thesis
    unfolding Run_def Let_def deadline_def[symmetric]
    by (simp add: l split: option.splits)
       (use assms(3,4,5) assms(6)[OF Inr _ _ _ deadline_def, of loop] l in auto)
qed

text \<open>C28. \<open>Run\<close> uses the messaging service as its protocol demands: connect, build a receiver, start it,
  receive only from a started receiver, terminate a started receiver before the connection is closed, and
  nothing after that. Whatever fails on the way, a connection that was opened is closed exactly once.\<close>

theorem run_follows_protocol:
  "foldM (svcStep b) (fst (Run lib b opts)) Fresh =
     Some (if (\<exists>h. newHandler opts = Inr h) \<and> connectError b = None then Closed else Fresh)"
proof -
  obtain effs e where r: "Run lib b opts = (effs, e)" by (cases "Run lib b opts")
  then show ?thesis
  proof (cases rule: Run_cases)
    case (loop h loop deadline)
    from loop_protocol[OF loop(6)] loop r show ?thesis by (simp add: foldM_append)
  qed (use r in \<open>auto simp: foldM_append Run_def split: sum.splits\<close>)
qed

fun timeouts :: "effect list \<Rightarrow> int list" where
  "timeouts [] = []"
| "timeouts (DoReceive t # es) = t # timeouts es"
| "timeouts (e # es) = timeouts es"

lemma timeouts_append [simp]: "timeouts (xs @ ys) = timeouts xs @ timeouts ys"
  by (induction xs rule: timeouts.induct) auto

lemma timeouts_output [simp]: "timeouts (map Print ps) = []" "timeouts (warning w e) = []"
  by (induction ps) (auto simp: warning_def split: option.splits)

lemma roundTimeout_bounds:
  "roundTimeout b opts deadline i \<le> Timeout opts"
  "timeBefore b i + roundTimeout b opts (Some d) i \<le> d"
  by (auto simp: roundTimeout_def split: option.split)

lemma loop_timeouts:
  "receiveLoop lib b opts deadline i n h = (effs, e) \<Longrightarrow>
    length (timeouts effs) \<le> n \<and>
    (\<forall>j < length (timeouts effs). timeouts effs ! j = roundTimeout b opts deadline (i + j) \<and> \<not> expired b deadline (i + j))"
proof (induction i n h effs e rule: receiveLoop_rule)
  case (more i n h msg h' out effs e)
  then show ?case by (auto simp: nth_Cons split: nat.split)
qed auto

text \<open>\<open>Run\<close> receives at most \<open>Count\<close> times, waits at most \<open>Timeout\<close> for a message, and with a maximal
  run time every wait ends at the deadline and none starts after it.\<close>

theorem receives_within_bounds:
  assumes "ts = timeouts (fst (Run lib b opts))"
  shows "length ts \<le> nat (Count opts) \<and> (\<forall>t \<in> set ts. t \<le> Timeout opts) \<and>
    (0 < MaxRuntime opts \<longrightarrow> (\<forall>j < length ts. timeBefore b j + ts ! j \<le> startTime b + MaxRuntime opts \<and>
       timeBefore b j < startTime b + MaxRuntime opts))"
proof -
  obtain effs e where r: "Run lib b opts = (effs, e)" by (cases "Run lib b opts")
  then show ?thesis
  proof (cases rule: Run_cases)
    case (loop h loop deadline)
    with r assms have ts: "ts = timeouts loop" by simp
    have each: "ts ! j = roundTimeout b opts deadline j" "\<not> expired b deadline j" if "j < length ts" for j
      using loop_timeouts[OF loop(6)] that ts by auto
    have "\<forall>t \<in> set ts. t \<le> Timeout opts"
      using each(1) roundTimeout_bounds(1)[where b = b and opts = opts and deadline = deadline] by (metis in_set_conv_nth)
    moreover have "length ts \<le> nat (Count opts)" using loop_timeouts[OF loop(6)] ts by simp
    ultimately show ?thesis
      using each roundTimeout_bounds(2)[where b = b and opts = opts] loop(5) by (auto simp: expired_def not_le)
  qed (use assms r in auto)
qed

section \<open>What is printed\<close>

fun prints :: "effect list \<Rightarrow> printed list" where
  "prints [] = []"
| "prints (Print p # es) = p # prints es"
| "prints (e # es) = prints es"

lemma prints_append [simp]: "prints (xs @ ys) = prints xs @ prints ys"
  by (induction xs rule: prints.induct) auto

lemma prints_output [simp]: "prints (map Print ps) = ps" "prints (warning w e) = []"
  by (induction ps) (auto simp: warning_def split: option.splits)

text \<open>The messages among the results of \<open>n\<close> receives, from the \<open>i\<close>-th on.\<close>

definition messages :: "broker \<Rightarrow> nat \<Rightarrow> nat \<Rightarrow> inbound_message list" where
  "messages b i n = List.map_filter (\<lambda>j. case received b j of Message m \<Rightarrow> Some m | _ \<Rightarrow> None) [i..<i + n]"

lemma messages_0 [simp]: "messages b i 0 = []"
  by (simp add: messages_def)

lemma messages_Suc:
  "messages b i (Suc n) = (case received b i of Message m \<Rightarrow> [m] | _ \<Rightarrow> []) @ messages b (i + 1) n"
proof -
  have "[i..<i + Suc n] = i # [i + 1..<i + 1 + n]" by (simp add: upt_conv_Cons)
  then show ?thesis
    unfolding messages_def by (simp del: upt_Suc split: receive_result.split)
qed

text \<open>
  A handler keeps a relation between the messages handled, what has been printed for them and its own
  state. Whatever the relation, it holds of the messages received when the loop has ended without an error,
  and the rest of the output is that of \<open>finish\<close>.
\<close>

locale message_handler =
  fixes lib :: "('r, 'd, 'm) proto_lib"
    and inv :: "inbound_message list \<Rightarrow> printed list \<Rightarrow> 'r handler \<Rightarrow> bool"
  assumes inv_handle: "inv ms outs h \<Longrightarrow> handle lib h msg = Inr (h', out) \<Longrightarrow> inv (ms @ [msg]) (outs @ out) h'"
begin

lemma loop_inv:
  assumes "receiveLoop lib b opts deadline i n h = (effs, None)" and "inv ms outs h"
  shows "\<exists>h' outs'. inv (ms @ messages b i (length (timeouts effs))) (outs @ outs') h' \<and> prints effs = outs' @ finish h'"
proof -
  have "receiveLoop lib b opts deadline i n h = (effs, e) \<Longrightarrow> e = None \<Longrightarrow> inv ms outs h \<Longrightarrow>
      \<exists>h' outs'. inv (ms @ messages b i (length (timeouts effs))) (outs @ outs') h' \<and> prints effs = outs' @ finish h'" for e
  proof (induction i n h effs e arbitrary: ms outs rule: receiveLoop_rule)
    case (stop i n h effs)
    then have "messages b i (length (timeouts effs)) = []" "prints effs = finish h" by (auto simp: messages_Suc)
    with stop show ?case by (intro exI[of _ h] exI[of _ "[]"]) auto
  next
    case (more i n h msg h' out effs e)
    from more(4)[OF more(5) inv_handle[OF more(6) more(3)]] obtain h2 outs2 where
      "inv ((ms @ [msg]) @ messages b (i + 1) (length (timeouts effs))) ((outs @ out) @ outs2) h2"
      "prints effs = outs2 @ finish h2" by blast
    with more(2) show ?case
      by (intro exI[of _ h2] exI[of _ "out @ outs2"]) (simp add: messages_Suc)
  qed simp
  with assms show ?thesis by blast
qed

lemma run_inv:
  assumes "Run lib b opts = (effs, None)" and "\<And>h. newHandler opts = Inr h \<Longrightarrow> inv [] [] h"
  obtains h outs where "inv (messages b 0 (length (timeouts effs))) outs h" "prints effs = outs @ finish h"
  using assms(1)
proof (cases rule: Run_cases)
  case (loop h loop deadline)
  from loop_inv[OF loop(6) assms(2)[OF loop(1)]] obtain h' outs where
    "inv (messages b 0 (length (timeouts loop))) outs h'" "prints loop = outs @ finish h'" by auto
  with loop(7) that show ?thesis by simp
qed auto

end

section \<open>The three handlers\<close>

text \<open>The headers and the payload of every message are printed when it is handled.\<close>

interpretation headers: message_handler lib
  "\<lambda>ms outs h. h = HeadersHandler \<and> outs = concat (map headers_handle ms)"
  for lib :: "('r, 'd, 'm) proto_lib"
  by unfold_locales (auto simp: handle_def)

interpretation payload: message_handler lib
  "\<lambda>ms outs h. h = PrintJSONHandler reg t ix \<and>
     list_all2 (\<lambda>m out. printJSON_handle lib reg t ix m = Inr [out]) ms outs"
  for lib :: "('r, 'd, 'm) proto_lib" and reg t ix
proof
  fix ms outs h msg h' out
  assume "h = PrintJSONHandler reg t ix \<and> list_all2 (\<lambda>m out. printJSON_handle lib reg t ix m = Inr [out]) ms outs"
    and "handle lib h msg = Inr (h', out)"
  moreover from this have "\<exists>l. out = [l]"
    by (auto simp: handle_def printJSON_handle_def Let_def split: sum.splits option.splits if_splits)
  ultimately show "h' = PrintJSONHandler reg t ix \<and>
      list_all2 (\<lambda>m out. printJSON_handle lib reg t ix m = Inr [out]) (ms @ [msg]) (outs @ out)"
    by (auto simp: handle_def split: sum.splits intro!: list_all2_appendI)
qed

text \<open>The statistics of a topic, from the messages.\<close>

definition onTopic :: "inbound_message list \<Rightarrow> string \<Rightarrow> inbound_message list" where
  "onTopic ms t = filter (\<lambda>m. Destination m = t) ms"

definition payloadBytes :: "inbound_message list \<Rightarrow> int" where
  "payloadBytes ms = sum_list (map (\<lambda>m. int (length (Payload m))) ms)"

definition stats_ok :: "inbound_message list \<Rightarrow> (string \<times> topic_stats) list \<Rightarrow> bool" where
  "stats_ok ms topics \<longleftrightarrow> distinct (map fst topics) \<and> fst ` set topics = Destination ` set ms \<and>
     (\<forall>t. statsOfTopic topics t = \<lparr>tsCount = int (length (onTopic ms t)), tsTotalSize = payloadBytes (onTopic ms t)\<rparr>) \<and>
     sum_list (map (tsCount \<circ> snd) topics) = int (length ms) \<and>
     sum_list (map (tsTotalSize \<circ> snd) topics) = payloadBytes ms"

lemma payloadBytes_simps [simp]:
  "payloadBytes [] = 0" "payloadBytes (ms @ ns) = payloadBytes ms + payloadBytes ns"
  "payloadBytes (m # ms) = int (length (Payload m)) + payloadBytes ms"
  by (simp_all add: payloadBytes_def)

lemma stats_handle_alt:
  "stats_handle msg topics = (let t = Destination msg; s = statsOfTopic topics t in
     AList.update t \<lparr>tsCount = tsCount s + 1, tsTotalSize = tsTotalSize s + int (length (Payload msg))\<rparr> topics)"
  by (simp add: stats_handle_def statsOfTopic_def)

lemma sum_update:
  fixes f :: "topic_stats \<Rightarrow> int"
  assumes "distinct (map fst al)" and "f \<lparr>tsCount = 0, tsTotalSize = 0\<rparr> = 0"
  shows "sum_list (map (f \<circ> snd) (AList.update k v al)) = sum_list (map (f \<circ> snd) al) - f (statsOfTopic al k) + f v"
  using assms(1) by (induction al) (auto simp: statsOfTopic_def assms(2) map_of_eq_None_iff split: option.splits)

lemma stats_ok_handle: "stats_ok ms topics \<Longrightarrow> stats_ok (ms @ [msg]) (stats_handle msg topics)"
  by (auto simp: stats_ok_def stats_handle_alt Let_def sum_update distinct_update onTopic_def dom_update
      statsOfTopic_def update_conv')

interpretation stats: message_handler lib
  "\<lambda>ms outs h. outs = [] \<and> (\<exists>topics. h = StatsHandler topics \<and> stats_ok ms topics)"
  for lib :: "('r, 'd, 'm) proto_lib"
  by unfold_locales (auto simp: handle_def stats_ok_handle)

section \<open>The output of a run\<close>

lemma newHandler_modes [simp]:
  "Mode opts = ''headers'' \<Longrightarrow> newHandler opts = Inr HeadersHandler"
  "Mode opts = ''payload'' \<Longrightarrow>
     newHandler opts = Inr (PrintJSONHandler (Registry opts) (MessageType opts) (newTopicTypeIndex (OptTopicTypes opts)))"
  "Mode opts = ''stats'' \<Longrightarrow> newHandler opts = Inr (StatsHandler [])"
  by (simp_all add: newHandler_def)

theorem headers_in_order:
  assumes "Mode opts = ''headers''" and "Run lib b opts = (effs, None)"
  shows "prints effs = concat (map headers_handle (messages b 0 (length (timeouts effs))))"
  by (rule headers.run_inv[OF assms(2)]) (use assms(1) in \<open>auto simp: finish_def\<close>)

theorem payloads_in_order:
  assumes "Mode opts = ''payload''" and "Run lib b opts = (effs, None)"
  shows "list_all2 (\<lambda>m out. printJSON_handle lib (Registry opts) (MessageType opts) (newTopicTypeIndex (OptTopicTypes opts)) m = Inr [out])
    (messages b 0 (length (timeouts effs))) (prints effs)"
  by (rule payload.run_inv[OF assms(2)]) (use assms(1) in \<open>auto simp: finish_def\<close>)

lemma sorted_wrt_distinct: "sorted_wrt P xs \<Longrightarrow> distinct xs \<Longrightarrow> sorted_wrt (\<lambda>x y. P x y \<and> x \<noteq> y) xs"
  by (induction xs) auto

lemma stats_ok_Nil: "stats_ok [] []"
  by (simp add: stats_ok_def statsOfTopic_def onTopic_def)

lemma stats_finish_ok:
  assumes "stats_ok ms topics" and "ms \<noteq> []"
  shows "\<exists>names. stats_finish topics = [Line [], Table ([[''TOPIC'', ''COUNT'', ''BYTES'', ''AVG BYTES'']] @
       map (\<lambda>t. statsRow t (int (length (onTopic ms t))) (payloadBytes (onTopic ms t))) names @
       [statsRow ''TOTAL'' (int (length ms)) (payloadBytes ms)])] \<and>
     distinct names \<and> set names = Destination ` set ms \<and>
     sorted_wrt (\<lambda>s t. length (onTopic ms t) < length (onTopic ms s) \<or>
       length (onTopic ms s) = length (onTopic ms t) \<and> s < t) names"
proof -
  define before where "before = (\<lambda>a b. let ci = tsCount (statsOfTopic topics a); cj = tsCount (statsOfTopic topics b) in
     if ci \<noteq> cj then ci > cj else a < b)"
  define names where "names = sortSlice before (map fst topics)"
  define k where "k = (\<lambda>t. (- int (length (onTopic ms t)), t))"
  have count: "tsCount (statsOfTopic topics t) = int (length (onTopic ms t))"
    "tsTotalSize (statsOfTopic topics t) = payloadBytes (onTopic ms t)" for t
    using assms(1) by (simp_all add: stats_ok_def)
  have "before a b \<longleftrightarrow> k a < k b" for a b by (auto simp: before_def count Let_def k_def)
  then have sorted: "sorted_wrt (\<lambda>a b. k a \<le> k b) names" unfolding names_def by (rule sorted_sortSlice)
  from assms(1) have "distinct (map fst topics)" "set (map fst topics) = Destination ` set ms"
    by (simp_all add: stats_ok_def)
  moreover have "mset names = mset (map fst topics)" by (simp add: names_def)
  ultimately have names: "distinct names" "set names = Destination ` set ms"
    using mset_eq_imp_distinct_iff mset_eq_setD by metis+
  have "sorted_wrt (\<lambda>s t. length (onTopic ms t) < length (onTopic ms s) \<or>
       length (onTopic ms s) = length (onTopic ms t) \<and> s < t) names"
    by (rule sorted_wrt_mono_rel[OF _ sorted_wrt_distinct[OF sorted names(1)]]) (auto simp: k_def)
  moreover from assms have "topics \<noteq> []" by (auto simp: stats_ok_def)
  then have "stats_finish topics = [Line [], Table ([[''TOPIC'', ''COUNT'', ''BYTES'', ''AVG BYTES'']] @
       map (\<lambda>t. statsRow t (int (length (onTopic ms t))) (payloadBytes (onTopic ms t))) names @
       [statsRow ''TOTAL'' (int (length ms)) (payloadBytes ms)])]"
    using assms(1) unfolding stats_finish_def Let_def names_def before_def count by (simp add: stats_ok_def)
  ultimately show ?thesis using names by blast
qed

text \<open>C29. In the mode \<open>stats\<close>, a run that ends without an error has printed nothing if no message was
  received, and otherwise one table: a row for every topic of the messages received, with their number and
  the bytes of their payloads, the topics with most messages first and equal ones by name, and a last row
  with the totals over all messages.\<close>

theorem stats_table:
  assumes "Mode opts = ''stats''" and "Run lib b opts = (effs, None)"
    and "ms = messages b 0 (length (timeouts effs))"
  shows "ms = [] \<and> prints effs = [] \<or>
    ms \<noteq> [] \<and> (\<exists>names. prints effs = [Line [], Table ([[''TOPIC'', ''COUNT'', ''BYTES'', ''AVG BYTES'']] @
         map (\<lambda>t. statsRow t (int (length (onTopic ms t))) (payloadBytes (onTopic ms t))) names @
         [statsRow ''TOTAL'' (int (length ms)) (payloadBytes ms)])] \<and>
       distinct names \<and> set names = Destination ` set ms \<and>
       sorted_wrt (\<lambda>s t. length (onTopic ms t) < length (onTopic ms s) \<or>
         length (onTopic ms s) = length (onTopic ms t) \<and> s < t) names)"
proof -
  obtain topics where "stats_ok (messages b 0 (length (timeouts effs))) topics" "prints effs = stats_finish topics"
    by (rule stats.run_inv[OF assms(2)]) (use assms(1) stats_ok_Nil in \<open>auto simp: finish_def\<close>)
  note topics = this[folded assms(3)]
  show ?thesis
  proof (cases "ms = []")
    case True
    with topics(1) have "topics = []" by (auto simp: stats_ok_def)
    with True topics(2) show ?thesis by (simp add: stats_finish_def)
  next
    case False
    with stats_finish_ok[OF topics(1)] topics(2) show ?thesis by simp
  qed
qed

text \<open>A broker that delivers three messages, and runs against it.\<close>

definition notice :: "string \<Rightarrow> string \<Rightarrow> inbound_message" where
  "notice topic payload = \<lparr>Destination = topic, AppMessageID = None, AppMessageType = None, HTTPContentType = None,
     HTTPContentEncoding = None, CorrelationID = None, SenderID = None, SenderTimestamp = None, ReceiveTimestamp = None,
     SequenceNumber = None, Expiration = None, Priority = None, ClassOfService = 0, Payload = payload, Properties = []\<rparr>"

definition threeNotes :: broker where
  "threeNotes = \<lparr>connectError = None, buildError = None, startError = None,
     received = (\<lambda>i. if i = 0 then Message (notice ''b'' ''xy'') else if i = 1 then Message (notice ''a'' ''z'')
       else if i = 2 then Message (notice ''a'' ''xyz'') else TimeoutError),
     startTime = 0, timeBefore = (\<lambda>i. int i * 4), timeAfter = (\<lambda>i. int i * 4 + 4), terminateError = None, disconnectError = None\<rparr>"

definition noProto :: "(unit, unit, unit) proto_lib" where
  "noProto = \<lparr>findDescriptor = (\<lambda>_ n. Inl n), unmarshal = (\<lambda>_ p. Inl p), marshalJSON = (\<lambda>_ _. Inr [])\<rparr>"

definition statsOptions :: "unit receive_options" where
  "statsOptions = \<lparr>Topics = [''>''], Timeout = 5, MaxRuntime = 14, Registry = None, MessageType = [], OptTopicTypes = [],
     Mode = ''stats'', Count = 100\<rparr>"

lemma statsOptions_run:
  "Run noProto threeNotes statsOptions =
    ([DoConnect, DoBuild [''>''], DoStart, DoReceive 5, DoReceive 5, DoReceive 5, DoReceive 2] @
     map Print (stats_finish (fold stats_handle [notice ''b'' ''xy'', notice ''a'' ''z'', notice ''a'' ''xyz''] [])) @
     [DoTerminate, DoDisconnect], None)"
  by (simp add: Run_def statsOptions_def threeNotes_def receiveLoop_Suc eval_nat_numeral expired_def roundTimeout_def
      handle_def warning_def finish_def)

lemma statsOptions_receives: "length (timeouts (fst (Run noProto threeNotes statsOptions))) = 4"
  by (simp add: statsOptions_run)

lemma statsOptions_simps:
  "Mode statsOptions = ''stats''" "Count statsOptions = 100" "Timeout statsOptions = 5" "MaxRuntime statsOptions = 14"
  "startTime threeNotes = 0"
  by (simp_all add: statsOptions_def threeNotes_def)

theorem stats_table_witness:
  "\<exists>names. set names = {''a'', ''b''} \<and> prints (fst (Run noProto threeNotes statsOptions)) =
     [Line [], Table ([[''TOPIC'', ''COUNT'', ''BYTES'', ''AVG BYTES'']] @
       map (\<lambda>t. statsRow t (if t = ''a'' then 2 else 1) (if t = ''a'' then 4 else 2)) names @ [statsRow ''TOTAL'' 3 6])]"
proof -
  define ms where "ms = [notice ''b'' ''xy'', notice ''a'' ''z'', notice ''a'' ''xyz'']"
  have "messages threeNotes 0 4 = ms"
    by (simp add: messages_Suc eval_nat_numeral threeNotes_def ms_def)
  then have m: "ms = messages threeNotes 0 (length (timeouts (fst (Run noProto threeNotes statsOptions))))"
    by (simp only: statsOptions_receives)
  have "Run noProto threeNotes statsOptions = (fst (Run noProto threeNotes statsOptions), None)"
    by (simp add: statsOptions_run)
  from stats_table[OF statsOptions_simps(1) this m] ms_def
  obtain names where names: "set names = Destination ` set ms"
    "prints (fst (Run noProto threeNotes statsOptions)) = [Line [], Table ([[''TOPIC'', ''COUNT'', ''BYTES'', ''AVG BYTES'']] @
         map (\<lambda>t. statsRow t (int (length (onTopic ms t))) (payloadBytes (onTopic ms t))) names @
         [statsRow ''TOTAL'' (int (length ms)) (payloadBytes ms)])]"
    unfolding ms_def by blast
  moreover have "map (\<lambda>t. statsRow t (int (length (onTopic ms t))) (payloadBytes (onTopic ms t))) names =
      map (\<lambda>t. statsRow t (if t = ''a'' then 2 else 1) (if t = ''a'' then 4 else 2)) names"
    using names(1) by (auto simp: ms_def notice_def onTopic_def)
  ultimately show ?thesis by (intro exI[of _ names]) (auto simp: ms_def notice_def)
qed

theorem receives_within_bounds_witness:
  "length (timeouts (fst (Run noProto threeNotes statsOptions))) \<le> 100 \<and>
   timeBefore threeNotes 3 + timeouts (fst (Run noProto threeNotes statsOptions)) ! 3 \<le> 14"
proof -
  have "timeBefore threeNotes j + timeouts (fst (Run noProto threeNotes statsOptions)) ! j \<le> 14" if "j < 4" for j
    using receives_within_bounds[OF refl, of noProto threeNotes statsOptions] that
    unfolding statsOptions_receives statsOptions_simps by simp
  from this[of 3] show ?thesis by (simp add: statsOptions_receives)
qed

end
