(* ===== verification/RpzCounter.thy ===== *)
theory RpzCounter
  imports GoFlag "HOL-Library.Word" "HOL-Library.Signed_Division"
begin

text \<open>
  The counter benchmark of \<open>rpz/cmd/counter/main.go\<close>: four counters that many goroutines increment. A run
  is a sequence of events, each the next step of one goroutine, in any order; \<open>Incr\<close> of the mutex counter
  takes several steps, and a goroutine that waits cannot make one. Counters are 64-bit integers.
\<close>

section \<open>The benchmark\<close>

text \<open>One step of a goroutine in \<open>Incr\<close>: it has to wait, the program panics, or it goes on, with a new
  position inside \<open>Incr\<close>, whether it has returned, and the new state of the counter.\<close>

datatype ('p, 's) incr_step = Blocked | Panics | Goes 'p bool 's

text \<open>A counter: the steps of \<open>Incr\<close> for goroutine number, number of the call and position, the position
  before a call, the steps of a goroutine of the counter's own, and \<open>Value\<close>, which may have to wait.\<close>

record ('p, 's) counter_ops =
  Incr :: "nat \<Rightarrow> nat \<Rightarrow> 'p \<Rightarrow> 's \<Rightarrow> ('p, 's) incr_step"
  idle :: 'p
  helper :: "'s \<Rightarrow> 's option"
  ValueOf :: "'s \<Rightarrow> 64 word option"

text \<open>A goroutine of \<open>runConcurrentTest\<close>: before it is ready, at the barrier, after \<open>k\<close> calls of \<open>Incr\<close>
  and at a position in the next one, finished.\<close>

datatype 'p goro = Starting | AtBarrier | Working nat 'p | Finished

record ('p, 's) bench =
  goros :: "'p goro list"
  barrierOpen :: bool
  finalValue :: "64 word option"
  shared :: 's

datatype event = Go nat | HelperGo | MainGo

datatype 'b outcome = Waits | Crash | Next 'b

definition startBench :: "nat \<Rightarrow> 's \<Rightarrow> ('p, 's) bench" where
  "startBench goroCount s = \<lparr>goros = replicate goroCount Starting, barrierOpen = False, finalValue = None, shared = s\<rparr>"

text \<open>The next step of a goroutine, whose body makes \<open>iterCount\<close> calls.\<close>

definition goroStep :: "('p, 's) counter_ops \<Rightarrow> nat \<Rightarrow> nat \<Rightarrow> ('p, 's) bench \<Rightarrow> ('p, 's) bench outcome" where
  "goroStep c iterCount g b = (if g < length (goros b) then (case goros b ! g of
       Starting \<Rightarrow> Next (b\<lparr>goros := (goros b)[g := AtBarrier]\<rparr>)
     | AtBarrier \<Rightarrow> if barrierOpen b then Next (b\<lparr>goros := (goros b)[g := Working 0 (idle c)]\<rparr>) else Waits
     | Working k p \<Rightarrow> if k < iterCount then (case Incr c g k p (shared b) of
           Blocked \<Rightarrow> Waits
         | Panics \<Rightarrow> Crash
         | Goes p' returned s \<Rightarrow>
             Next (b\<lparr>goros := (goros b)[g := (if returned then Working (k + 1) (idle c) else Working k p')], shared := s\<rparr>))
         else Next (b\<lparr>goros := (goros b)[g := Finished]\<rparr>)
     | Finished \<Rightarrow> Waits) else Waits)"

text \<open>The main goroutine waits until all are ready, opens the barrier, waits until all are done and reads
  the value.\<close>

definition mainStep :: "('p, 's) counter_ops \<Rightarrow> ('p, 's) bench \<Rightarrow> ('p, 's) bench outcome" where
  "mainStep c b =
    (if \<not> barrierOpen b then (if Starting \<in> set (goros b) then Waits else Next (b\<lparr>barrierOpen := True\<rparr>))
     else if finalValue b = None \<and> list_all (\<lambda>g. g = Finished) (goros b)
       then (case ValueOf c (shared b) of None \<Rightarrow> Waits | Some v \<Rightarrow> Next (b\<lparr>finalValue := Some v\<rparr>))
     else Waits)"

definition benchStep :: "('p, 's) counter_ops \<Rightarrow> nat \<Rightarrow> event \<Rightarrow> ('p, 's) bench \<Rightarrow> ('p, 's) bench outcome" where
  "benchStep c iterCount e b = (case e of
     Go g \<Rightarrow> goroStep c iterCount g b
   | HelperGo \<Rightarrow> (case helper c (shared b) of None \<Rightarrow> Waits | Some s \<Rightarrow> Next (b\<lparr>shared := s\<rparr>))
   | MainGo \<Rightarrow> mainStep c b)"

text \<open>A run of \<open>n\<close> steps.\<close>

inductive bench_run :: "('p, 's) counter_ops \<Rightarrow> nat \<Rightarrow> ('p, 's) bench \<Rightarrow> nat \<Rightarrow> ('p, 's) bench \<Rightarrow> bool"
  for c iterCount b0 where
  start: "bench_run c iterCount b0 0 b0"
| step: "bench_run c iterCount b0 n b \<Longrightarrow> benchStep c iterCount e b = Next b' \<Longrightarrow> bench_run c iterCount b0 (Suc n) b'"

text \<open>\<open>ok\<close> in \<open>runBenchmark\<close>: the product is a 64-bit \<open>int\<close>.\<close>

definition benchOk :: "nat \<Rightarrow> nat \<Rightarrow> 64 word \<Rightarrow> bool" where
  "benchOk goroCount iterCount v \<longleftrightarrow> v = of_nat goroCount * of_nat iterCount"

section \<open>The counters\<close>

text \<open>\<open>MutexCounter\<close>: \<open>Incr\<close> locks, loads, stores and unlocks.\<close>

datatype mutex_pc = Outside | Locked | Loaded "64 word" | Stored

record mutex_state =
  mut :: "nat option"
  mutN :: "64 word"

definition mutexIncr :: "nat \<Rightarrow> nat \<Rightarrow> mutex_pc \<Rightarrow> mutex_state \<Rightarrow> (mutex_pc, mutex_state) incr_step" where
  "mutexIncr g i p c = (case p of
     Outside \<Rightarrow> if mut c = None then Goes Locked False (c\<lparr>mut := Some g\<rparr>) else Blocked
   | Locked \<Rightarrow> Goes (Loaded (mutN c)) False c
   | Loaded v \<Rightarrow> Goes Stored False (c\<lparr>mutN := v + 1\<rparr>)
   | Stored \<Rightarrow> Goes Outside True (c\<lparr>mut := None\<rparr>))"

definition mutexValue :: "mutex_state \<Rightarrow> 64 word option" where
  "mutexValue c = (if mut c = None then Some (mutN c) else None)"

definition MutexCounter :: "(mutex_pc, mutex_state) counter_ops" where
  "MutexCounter = \<lparr>Incr = mutexIncr, idle = Outside, helper = (\<lambda>_. None), ValueOf = mutexValue\<rparr>"

text \<open>\<open>AtomicCounter\<close>\<close>

definition atomicIncr :: "nat \<Rightarrow> nat \<Rightarrow> unit \<Rightarrow> 64 word \<Rightarrow> (unit, 64 word) incr_step" where
  "atomicIncr g i p n = Goes () True (n + 1)"

definition AtomicCounter :: "(unit, 64 word) counter_ops" where
  "AtomicCounter = \<lparr>Incr = atomicIncr, idle = (), helper = (\<lambda>_. None), ValueOf = Some\<rparr>"

text \<open>\<open>ShardedAtomicCounter\<close>: the shard of a call is computed with 64-bit integers whose remainder has the
  sign of the dividend; a remainder by zero and an index out of range panic.\<close>

definition NewShardedAtomicCounter :: "nat \<Rightarrow> 64 word list" where
  "NewShardedAtomicCounter shards = replicate shards 0"

definition shardOf :: "nat \<Rightarrow> nat \<Rightarrow> nat \<Rightarrow> nat \<Rightarrow> int" where
  "shardOf iterCount shards g i = sint (of_nat g * of_nat iterCount + of_nat i :: 64 word) smod int shards"

definition shardedIncr :: "int \<Rightarrow> 64 word list \<Rightarrow> 64 word list option" where
  "shardedIncr shard ns = (case idx_list ns shard of None \<Rightarrow> None | Some v \<Rightarrow> upd_list ns shard (v + 1))"

definition shardedStep :: "nat \<Rightarrow> nat \<Rightarrow> nat \<Rightarrow> unit \<Rightarrow> 64 word list \<Rightarrow> (unit, 64 word list) incr_step" where
  "shardedStep iterCount g i p ns = (if length ns = 0 then Panics
     else (case shardedIncr (shardOf iterCount (length ns) g i) ns of None \<Rightarrow> Panics | Some ns \<Rightarrow> Goes () True ns))"

definition shardedValue :: "64 word list \<Rightarrow> 64 word" where
  "shardedValue ns = fold (\<lambda>n v. v + n) ns 0"

definition ShardedAtomicCounter :: "nat \<Rightarrow> (unit, 64 word list) counter_ops" where
  "ShardedAtomicCounter iterCount = \<lparr>Incr = shardedStep iterCount, idle = (), helper = (\<lambda>_. None), ValueOf = Some \<circ> shardedValue\<rparr>"

text \<open>\<open>ChannelBasedCounter\<close>: the channel has no buffer, so a send waits for the counting goroutine, which
  adds the value it has received in a step of its own before it receives the next one. \<open>Value\<close> waits until
  that goroutine has left its loop.\<close>

datatype channel_state = Channel (chanTotal: "64 word") (chanReceived: "64 word option")

definition channelSend :: "nat \<Rightarrow> nat \<Rightarrow> unit \<Rightarrow> channel_state \<Rightarrow> (unit, channel_state) incr_step" where
  "channelSend g i p c = (case chanReceived c of
     None \<Rightarrow> Goes () True (Channel (chanTotal c) (Some 1))
   | Some v \<Rightarrow> Blocked)"

definition channelCount :: "channel_state \<Rightarrow> channel_state option" where
  "channelCount c = (case chanReceived c of None \<Rightarrow> None | Some v \<Rightarrow> Some (Channel (chanTotal c + v) None))"

definition channelValue :: "channel_state \<Rightarrow> 64 word option" where
  "channelValue c = (case chanReceived c of None \<Rightarrow> Some (chanTotal c) | Some v \<Rightarrow> None)"

definition ChannelBasedCounter :: "(unit, channel_state) counter_ops" where
  "ChannelBasedCounter = \<lparr>Incr = channelSend, idle = (), helper = channelCount, ValueOf = channelValue\<rparr>"

section \<open>The command\<close>

record counter_flags =
  ctGoroutines :: int
  ctIterations :: int
  ctShards :: int

definition counterDefaults :: counter_flags where
  "counterDefaults = \<lparr>ctGoroutines = 500, ctIterations = 100000, ctShards = 0\<rparr>"

definition counterFlags :: "counter_flags flag list" where
  "counterFlags = [IntVar ''goroutines'' (\<lambda>n f. f\<lparr>ctGoroutines := n\<rparr>), IntVar ''iterations'' (\<lambda>n f. f\<lparr>ctIterations := n\<rparr>),
     IntVar ''shards'' (\<lambda>n f. f\<lparr>ctShards := n\<rparr>)]"

text \<open>The tests that are made one after the other, and whether the program gets to its end: a slice of negative
  length panics. There is memory for the shards.\<close>

datatype counter_test = MutexTest | AtomicTest | ShardedTest nat | ChannelTest

definition counterTests :: "counter_flags \<Rightarrow> counter_test list \<times> bool" where
  "counterTests f = (let shards = (if ctShards f = 0 then ctGoroutines f else ctShards f) in
     if shards < 0 then ([MutexTest, AtomicTest], False)
     else ([MutexTest, AtomicTest, ShardedTest (nat shards), ChannelTest], True))"

definition counterProgram :: "string list \<Rightarrow> flag_error + counter_flags \<times> counter_test list \<times> bool" where
  "counterProgram args = (case parseFlags counterFlags args counterDefaults of
     Inl e \<Rightarrow> Inl e | Inr (f, rest) \<Rightarrow> Inr (f, counterTests f))"

section \<open>What a counter promises\<close>

lemma sum_map_update:
  fixes f :: "'a \<Rightarrow> nat"
  shows "g < length xs \<Longrightarrow> sum_list (map f (xs[g := x])) + f (xs ! g) = sum_list (map f xs) + f x"
  by (induction xs arbitrary: g) (auto simp: nth_Cons split: nat.split)

text \<open>
  The contract: \<open>inv\<close> relates the positions of all goroutines in \<open>Incr\<close> to the state, \<open>total\<close> is the number
  of increments that have taken effect, of which \<open>credit\<close> counts those of calls that have not returned, and
  \<open>rank\<close> and \<open>work\<close> bound the steps that are left of a call and of the helper.
\<close>

locale counter_contract =
  fixes c :: "('p, 's) counter_ops" and s0 :: 's and goroCount iterCount :: nat
    and inv :: "(nat \<Rightarrow> 'p) \<Rightarrow> 's \<Rightarrow> bool" and total :: "'s \<Rightarrow> 64 word" and credit rank :: "'p \<Rightarrow> nat" and work :: "'s \<Rightarrow> nat"
  assumes init: "inv (\<lambda>_. idle c) s0" "total s0 = 0" "credit (idle c) = 0" "work s0 = 0"
    and incr_ok: "inv ps s \<Longrightarrow> g < goroCount \<Longrightarrow> i < iterCount \<Longrightarrow> Incr c g i (ps g) s \<noteq> Panics"
    and incr_step: "inv ps s \<Longrightarrow> g < goroCount \<Longrightarrow> i < iterCount \<Longrightarrow> Incr c g i (ps g) s = Goes p' returned s' \<Longrightarrow>
      inv (ps(g := if returned then idle c else p')) s' \<and>
      total s' + of_nat (credit (ps g)) = total s + of_nat (if returned then 1 else credit p') \<and>
      (if returned then 0 else rank p') + work s' < rank (ps g) + work s"
    and incr_wait: "inv ps s \<Longrightarrow> Incr c g i (ps g) s = Blocked \<Longrightarrow>
      helper c s \<noteq> None \<or> (\<exists>h < goroCount. ps h \<noteq> idle c \<and> (\<forall>j. Incr c h j (ps h) s \<noteq> Blocked))"
    and helper_step: "inv ps s \<Longrightarrow> helper c s = Some s' \<Longrightarrow> inv ps s' \<and> total s' = total s \<and> work s' < work s"
    and value_read: "inv (\<lambda>_. idle c) s \<Longrightarrow> ValueOf c s = Some v \<Longrightarrow> v = total s"
    and value_wait: "inv (\<lambda>_. idle c) s \<Longrightarrow> ValueOf c s = None \<Longrightarrow> helper c s \<noteq> None"
begin

text \<open>The positions of the goroutines, their finished calls, and the steps that are left.\<close>

definition pcs :: "('p, 's) bench \<Rightarrow> nat \<Rightarrow> 'p" where
  "pcs b g = (if g < length (goros b) then (case goros b ! g of Working k p \<Rightarrow> p | _ \<Rightarrow> idle c) else idle c)"

definition calls :: "'p goro \<Rightarrow> nat" where
  "calls g = (case g of Working k p \<Rightarrow> k + credit p | Finished \<Rightarrow> iterCount | _ \<Rightarrow> 0)"

definition left :: "'p goro \<Rightarrow> nat" where
  "left g = (case g of
     Starting \<Rightarrow> rank (idle c) * iterCount + 3
   | AtBarrier \<Rightarrow> rank (idle c) * iterCount + 2
   | Working k p \<Rightarrow> if k < iterCount then rank (idle c) * (iterCount - 1 - k) + rank p + 1 else 1
   | Finished \<Rightarrow> 0)"

definition wf_goro :: "bool \<Rightarrow> 'p goro \<Rightarrow> bool" where
  "wf_goro opened g \<longleftrightarrow> (case g of Starting \<Rightarrow> \<not> opened | AtBarrier \<Rightarrow> True
     | Working k p \<Rightarrow> opened \<and> k \<le> iterCount \<and> (k = iterCount \<longrightarrow> p = idle c) | Finished \<Rightarrow> opened)"

definition remaining :: "('p, 's) bench \<Rightarrow> nat" where
  "remaining b = sum_list (map left (goros b)) + work (shared b) +
     (if \<not> barrierOpen b then 2 else if finalValue b = None then 1 else 0)"

definition bench_inv :: "('p, 's) bench \<Rightarrow> bool" where
  "bench_inv b \<longleftrightarrow> length (goros b) = goroCount \<and> inv (pcs b) (shared b) \<and>
     total (shared b) = of_nat (sum_list (map calls (goros b))) \<and>
     (\<forall>g \<in> set (goros b). wf_goro (barrierOpen b) g) \<and>
     (\<forall>v. finalValue b = Some v \<longrightarrow> barrierOpen b \<and> (\<forall>g \<in> set (goros b). g = Finished) \<and> v = total (shared b))"

lemma pcs_update:
  "g < length (goros b) \<Longrightarrow>
    pcs (b\<lparr>goros := (goros b)[g := x], shared := s\<rparr>) = (pcs b)(g := (case x of Working k p \<Rightarrow> p | _ \<Rightarrow> idle c))"
  by (auto simp: pcs_def fun_eq_iff nth_list_update)

lemma pcs_fields [simp]:
  "pcs (b\<lparr>barrierOpen := o'\<rparr>) = pcs b" "pcs (b\<lparr>finalValue := v\<rparr>) = pcs b" "pcs (b\<lparr>shared := s\<rparr>) = pcs b"
  by (simp_all add: pcs_def fun_eq_iff)

text \<open>Replacing one goroutine.\<close>

lemma update_inv:
  assumes b: "bench_inv b" "finalValue b = None" "g < length (goros b)"
    and x: "wf_goro (barrierOpen b) x" "inv ((pcs b)(g := (case x of Working k p \<Rightarrow> p | _ \<Rightarrow> idle c))) s"
      "total s + of_nat (calls (goros b ! g)) = total (shared b) + of_nat (calls x)"
      "left x + work s < left (goros b ! g) + work (shared b)"
  shows "bench_inv (b\<lparr>goros := (goros b)[g := x], shared := s\<rparr>) \<and>
    remaining (b\<lparr>goros := (goros b)[g := x], shared := s\<rparr>) < remaining b"
proof -
  note sum = sum_map_update[OF b(3), of _ x]
  have "total s + of_nat (calls (goros b ! g)) = of_nat (sum_list (map calls (goros b)) + calls x)"
    using b(1) x(3) by (simp add: bench_inv_def)
  also have "\<dots> = of_nat (sum_list (map calls ((goros b)[g := x]))) + of_nat (calls (goros b ! g))"
    by (metis sum of_nat_add)
  finally have "total s = of_nat (sum_list (map calls ((goros b)[g := x])))" by simp
  moreover have "\<forall>h \<in> set ((goros b)[g := x]). wf_goro (barrierOpen b) h"
    using b(1) x(1) by (auto simp: bench_inv_def dest!: set_update_subset_insert[THEN subsetD])
  ultimately have "bench_inv (b\<lparr>goros := (goros b)[g := x], shared := s\<rparr>)"
    using b x(2) unfolding bench_inv_def pcs_update[OF b(3)] by simp
  moreover have "remaining (b\<lparr>goros := (goros b)[g := x], shared := s\<rparr>) < remaining b"
    using sum[of left] x(4) by (simp add: remaining_def)
  ultimately show ?thesis by blast
qed

lemma wf_nth: "bench_inv b \<Longrightarrow> g < length (goros b) \<Longrightarrow> wf_goro (barrierOpen b) (goros b ! g)"
  by (simp add: bench_inv_def)

lemma not_final:
  assumes "bench_inv b" and "g < length (goros b)" and "goros b ! g \<noteq> Finished"
  shows "finalValue b = None"
  using assms by (cases "finalValue b") (auto simp: bench_inv_def)

lemma goroStep_ok:
  assumes b: "bench_inv b"
  shows "goroStep c iterCount g b \<noteq> Crash \<and>
    (\<forall>b'. goroStep c iterCount g b = Next b' \<longrightarrow> bench_inv b' \<and> remaining b' < remaining b)"
proof (cases "g < length (goros b)")
  case True
  note upd = update_inv[OF b not_final[OF b True] True, where s = "shared b"]
  have pc: "pcs b g = (case goros b ! g of Working k p \<Rightarrow> p | _ \<Rightarrow> idle c)" using True by (simp add: pcs_def)
  have i: "inv (pcs b) (shared b)" using b by (simp add: bench_inv_def)
  show ?thesis
  proof (cases "goros b ! g")
    case Starting
    then have "pcs b g = idle c" by (simp add: pc)
    with upd[of AtBarrier] i True Starting show ?thesis
      by (simp add: goroStep_def wf_goro_def calls_def left_def fun_upd_idem)
  next
    case AtBarrier
    then have "pcs b g = idle c" by (simp add: pc)
    with upd[of "Working 0 (idle c)"] i True AtBarrier init(3) show ?thesis
      by (auto simp: goroStep_def wf_goro_def calls_def left_def fun_upd_idem algebra_simps)
  next
    case Finished
    with True show ?thesis by (simp add: goroStep_def)
  next
    case (Working k p)
    then have p: "pcs b g = p" by (simp add: pc)
    have k: "barrierOpen b" "k \<le> iterCount" "k = iterCount \<longrightarrow> p = idle c"
      using wf_nth[OF b True] Working by (simp_all add: wf_goro_def)
    show ?thesis
    proof (cases "k < iterCount")
      case False
      with k have "k = iterCount" "p = idle c" by simp_all
      with upd[of Finished] i p True Working k init(3) show ?thesis
        by (simp add: goroStep_def wf_goro_def calls_def left_def fun_upd_idem)
    next
      case lt: True
      from b True have g: "g < goroCount" by (simp add: bench_inv_def)
      show ?thesis
      proof (cases "Incr c g k p (shared b)")
        case Panics
        with incr_ok[OF i g lt] p show ?thesis by simp
      next
        case Blocked
        with True Working lt show ?thesis by (simp add: goroStep_def)
      next
        case (Goes p' returned s)
        have step: "inv ((pcs b)(g := if returned then idle c else p')) s"
          "total s + of_nat (credit p) = total (shared b) + of_nat (if returned then 1 else credit p')"
          "(if returned then 0 else rank p') + work s < rank p + work (shared b)"
          using incr_step[OF i g lt, of p' returned s] Goes p by simp_all
        define x where "x = (if returned then Working (k + 1) (idle c) else Working k p')"
        have "rank (idle c) * (iterCount - 1 - k) = rank (idle c) * (iterCount - 1 - (k + 1)) + rank (idle c)" if "k + 1 < iterCount"
          by (metis Suc_diff_Suc add.commute diff_Suc_eq_diff_pred less_diff_conv mult_Suc_right plus_1_eq_Suc that)
        then have "left x + work s < left (goros b ! g) + work (shared b)"
          using step(3) lt Working by (auto simp: x_def left_def)
        moreover have "total s + of_nat (calls (goros b ! g)) = total (shared b) + of_nat (calls x)"
          using step(2) Working init(3) by (auto simp: x_def calls_def algebra_simps)
        moreover have "inv ((pcs b)(g := (case x of Working k p \<Rightarrow> p | _ \<Rightarrow> idle c))) s" using step(1) by (auto simp: x_def)
        moreover have "wf_goro (barrierOpen b) x" using k lt by (simp add: x_def wf_goro_def)
        ultimately show ?thesis
          using update_inv[OF b not_final[OF b True] True, where s = s and x = x] Goes True Working lt
          by (simp add: goroStep_def x_def)
      qed
    qed
  qed
qed (simp add: goroStep_def)

lemma all_finished:
  assumes "bench_inv b" and "\<forall>g \<in> set (goros b). g = Finished"
  shows "pcs b = (\<lambda>_. idle c)" and "total (shared b) = of_nat goroCount * of_nat iterCount"
proof -
  have fin: "goros b ! g = Finished" if "g < length (goros b)" for g using assms(2) that by simp
  then show "pcs b = (\<lambda>_. idle c)" by (simp add: pcs_def fun_eq_iff)
  have "map calls (goros b) = replicate (length (goros b)) iterCount"
    using fin by (intro nth_equalityI) (simp_all add: calls_def)
  with assms(1) show "total (shared b) = of_nat goroCount * of_nat iterCount"
    by (simp add: bench_inv_def sum_list_replicate)
qed

lemma mainStep_ok:
  assumes b: "bench_inv b"
  shows "mainStep c b \<noteq> Crash \<and> (\<forall>b'. mainStep c b = Next b' \<longrightarrow> bench_inv b' \<and> remaining b' < remaining b)"
proof -
  have "bench_inv (b\<lparr>barrierOpen := True\<rparr>) \<and> remaining (b\<lparr>barrierOpen := True\<rparr>) < remaining b"
    if "\<not> barrierOpen b" "Starting \<notin> set (goros b)"
  proof -
    have "wf_goro True g" if "g \<in> set (goros b)" for g
      using b \<open>Starting \<notin> set (goros b)\<close> that by (auto simp: bench_inv_def wf_goro_def split: goro.splits)
    with that b show ?thesis by (auto simp: bench_inv_def remaining_def pcs_def)
  qed
  moreover have "bench_inv (b\<lparr>finalValue := Some v\<rparr>) \<and> remaining (b\<lparr>finalValue := Some v\<rparr>) < remaining b"
    if "barrierOpen b" "finalValue b = None" "\<forall>g \<in> set (goros b). g = Finished" "ValueOf c (shared b) = Some v" for v
  proof -
    have "inv (\<lambda>_. idle c) (shared b)" using b all_finished(1)[OF b that(3)] by (simp add: bench_inv_def)
    from value_read[OF this that(4)] that b show ?thesis by (auto simp: bench_inv_def remaining_def pcs_def)
  qed
  ultimately show ?thesis by (auto simp: mainStep_def list_all_iff split: option.split)
qed

lemma step_ok:
  assumes b: "bench_inv b"
  shows "benchStep c iterCount e b \<noteq> Crash \<and>
    (\<forall>b'. benchStep c iterCount e b = Next b' \<longrightarrow> bench_inv b' \<and> remaining b' < remaining b)"
proof (cases e)
  case (Go g)
  with goroStep_ok[OF b] show ?thesis by (simp add: benchStep_def)
next
  case MainGo
  with mainStep_ok[OF b] show ?thesis by (simp add: benchStep_def)
next
  case HelperGo
  have "bench_inv (b\<lparr>shared := s\<rparr>) \<and> remaining (b\<lparr>shared := s\<rparr>) < remaining b" if "helper c (shared b) = Some s" for s
    using b helper_step[OF _ that, of "pcs b"] by (auto simp: bench_inv_def remaining_def pcs_def)
  with HelperGo show ?thesis by (auto simp: benchStep_def split: option.split)
qed

text \<open>As long as the value has not been read, somebody can go on.\<close>

lemma somebody_goes:
  assumes b: "bench_inv b" and "finalValue b = None"
  shows "\<exists>e b'. benchStep c iterCount e b = Next b'"
proof (rule ccontr)
  assume "\<not> ?thesis"
  then have stuck: "benchStep c iterCount e b = Waits" for e
    using step_ok[OF b, of e] by (cases "benchStep c iterCount e b") auto
  have i: "inv (pcs b) (shared b)" and len: "length (goros b) = goroCount" using b by (simp_all add: bench_inv_def)
  have h: "helper c (shared b) = None" using stuck[of HelperGo] by (simp add: benchStep_def split: option.splits)
  have go: "goroStep c iterCount g b = Waits" for g using stuck[of "Go g"] by (simp add: benchStep_def)
  have main: "mainStep c b = Waits" using stuck[of MainGo] by (simp add: benchStep_def)
  have waits: "(goros b ! g = AtBarrier \<and> \<not> barrierOpen b) \<or> goros b ! g = Finished \<or>
      (\<exists>k p. goros b ! g = Working k p \<and> k < iterCount \<and> Incr c g k p (shared b) = Blocked)" if "g < goroCount" for g
    using go[of g] that len
    by (cases "goros b ! g") (auto simp: goroStep_def split: if_splits incr_step.splits)
  then have "Starting \<notin> set (goros b)" using len by (fastforce simp: in_set_conv_nth)
  with main have opened: "barrierOpen b" by (simp add: mainStep_def split: if_splits)
  have "goros b ! g = Finished" if g: "g < goroCount" for g
  proof (rule ccontr)
    assume "goros b ! g \<noteq> Finished"
    with waits[OF g] opened obtain k p where "goros b ! g = Working k p" "Incr c g k p (shared b) = Blocked" by auto
    with g len have "Incr c g k (pcs b g) (shared b) = Blocked" by (simp add: pcs_def)
    from incr_wait[OF i this] h obtain g' where g': "g' < goroCount" "pcs b g' \<noteq> idle c"
      "\<And>j. Incr c g' j (pcs b g') (shared b) \<noteq> Blocked" by blast
    with waits[OF g'(1)] len show False by (auto simp: pcs_def)
  qed
  with len have fin: "\<forall>g \<in> set (goros b). g = Finished" by (auto simp: in_set_conv_nth)
  have "ValueOf c (shared b) \<noteq> None" using value_wait[of "shared b"] i h unfolding all_finished(1)[OF b fin] by blast
  with main opened fin assms(2) show False by (auto simp: mainStep_def list_all_iff)
qed

lemma start_inv: "bench_inv (startBench goroCount s0)"
proof -
  have "pcs (startBench goroCount s0) = (\<lambda>_. idle c)" by (auto simp: pcs_def startBench_def fun_eq_iff)
  with init(1) show ?thesis
    by (simp add: bench_inv_def init(2) startBench_def calls_def wf_goro_def sum_list_replicate)
qed

lemma remaining_start: "remaining (startBench goroCount s0) = goroCount * (rank (idle c) * iterCount + 3) + 2"
  by (simp add: remaining_def startBench_def left_def init(4) sum_list_replicate)

text \<open>The benchmark works with every counter that keeps the contract.\<close>

lemma bench_run_ok:
  assumes "bench_run c iterCount (startBench goroCount s0) n b"
  shows "bench_inv b \<and> n + remaining b \<le> goroCount * (rank (idle c) * iterCount + 3) + 2"
  using assms
proof (induction rule: bench_run.induct)
  case start
  show ?case using start_inv remaining_start by simp
next
  case (step n b e b')
  with step_ok[of b e] show ?case by auto
qed

lemma bench_works:
  assumes "bench_run c iterCount (startBench goroCount s0) n b"
  shows "benchStep c iterCount e b \<noteq> Crash"
    and "n \<le> goroCount * (rank (idle c) * iterCount + 3) + 2"
    and "case finalValue b of Some v \<Rightarrow> benchOk goroCount iterCount v | None \<Rightarrow> \<exists>e b'. benchStep c iterCount e b = Next b'"
proof -
  from bench_run_ok[OF assms] have b: "bench_inv b" and n: "n + remaining b \<le> goroCount * (rank (idle c) * iterCount + 3) + 2"
    by simp_all
  from step_ok[OF b] show "benchStep c iterCount e b \<noteq> Crash" by blast
  from n show "n \<le> goroCount * (rank (idle c) * iterCount + 3) + 2" by simp
  show "case finalValue b of Some v \<Rightarrow> benchOk goroCount iterCount v | None \<Rightarrow> \<exists>e b'. benchStep c iterCount e b = Next b'"
    using somebody_goes[OF b] b all_finished(2)[OF b]
    by (cases "finalValue b") (auto simp: bench_inv_def benchOk_def)
qed

end

end
