(* ===== verification/RpzCounterProps.thy ===== *)
theory RpzCounterProps
  imports RpzCounter
begin

text \<open>
  The four counters keep the contract of \<open>RpzCounter\<close>, so the benchmark reports \<open>ok\<close> for each of them,
  whatever the order in which the goroutines run.
\<close>

section \<open>The contracts\<close>

text \<open>At most one goroutine is between locking and unlocking, and what it has loaded is still the value.\<close>

definition mutexInv :: "nat \<Rightarrow> (nat \<Rightarrow> mutex_pc) \<Rightarrow> mutex_state \<Rightarrow> bool" where
  "mutexInv goroCount ps s \<longleftrightarrow> (case mut s of
     None \<Rightarrow> (\<forall>g. ps g = Outside)
   | Some h \<Rightarrow> h < goroCount \<and> ps h \<noteq> Outside \<and> (\<forall>g. g \<noteq> h \<longrightarrow> ps g = Outside) \<and> (\<forall>v. ps h = Loaded v \<longrightarrow> v = mutN s))"

definition mutexCredit :: "mutex_pc \<Rightarrow> nat" where
  "mutexCredit p = (case p of Stored \<Rightarrow> 1 | _ \<Rightarrow> 0)"

definition mutexRank :: "mutex_pc \<Rightarrow> nat" where
  "mutexRank p = (case p of Outside \<Rightarrow> 4 | Locked \<Rightarrow> 3 | Loaded _ \<Rightarrow> 2 | Stored \<Rightarrow> 1)"

lemma mutexInv_holder:
  assumes "mutexInv G ps s" and "ps g \<noteq> Outside"
  shows "mut s = Some g \<and> g < G \<and> (\<forall>h. h \<noteq> g \<longrightarrow> ps h = Outside) \<and> (\<forall>v. ps g = Loaded v \<longrightarrow> v = mutN s)"
proof (cases "mut s")
  case None
  with assms show ?thesis by (simp add: mutexInv_def)
next
  case (Some h)
  with assms have "h = g" by (auto simp: mutexInv_def)
  with assms(1) Some show ?thesis by (simp add: mutexInv_def)
qed

interpretation mutex: counter_contract MutexCounter "\<lparr>mut = None, mutN = 0\<rparr>" goroCount iterCount
  "mutexInv goroCount" mutN mutexCredit mutexRank "\<lambda>_. 0" for goroCount iterCount
proof unfold_locales
  fix ps s g i p' returned s'
  assume inv: "mutexInv goroCount ps s" and g: "g < goroCount" and s: "Incr MutexCounter g i (ps g) s = Goes p' returned s'"
  have inc: "mutexIncr g i (ps g) s = Goes p' returned s'" using s by (simp add: MutexCounter_def)
  show "mutexInv goroCount (ps(g := if returned then idle MutexCounter else p')) s' \<and>
      mutN s' + of_nat (mutexCredit (ps g)) = mutN s + of_nat (if returned then 1 else mutexCredit p') \<and>
      (if returned then 0 else mutexRank p') + 0 < mutexRank (ps g) + 0"
  proof (cases "ps g")
    case Outside
    with inc inv g show ?thesis
      by (auto simp: mutexIncr_def mutexInv_def MutexCounter_def mutexCredit_def mutexRank_def split: if_splits)
  qed (use inc mutexInv_holder[OF inv, of g] in \<open>auto simp: mutexIncr_def mutexInv_def MutexCounter_def mutexCredit_def mutexRank_def\<close>)
next
  fix ps s g i
  assume inv: "mutexInv goroCount ps s" and s: "Incr MutexCounter g i (ps g) s = Blocked"
  then obtain h where "mut s = Some h"
    by (auto simp: MutexCounter_def mutexIncr_def split: mutex_pc.splits if_splits)
  with inv have "h < goroCount" "ps h \<noteq> Outside" by (auto simp: mutexInv_def)
  then have "\<exists>h < goroCount. ps h \<noteq> idle MutexCounter \<and> (\<forall>j. Incr MutexCounter h j (ps h) s \<noteq> Blocked)"
    by (intro exI[of _ h]) (auto simp: MutexCounter_def mutexIncr_def split: mutex_pc.splits)
  then show "helper MutexCounter s \<noteq> None \<or>
      (\<exists>h < goroCount. ps h \<noteq> idle MutexCounter \<and> (\<forall>j. Incr MutexCounter h j (ps h) s \<noteq> Blocked))" ..
qed (auto simp: MutexCounter_def mutexInv_def mutexIncr_def mutexValue_def mutexCredit_def split: option.splits mutex_pc.splits if_splits)

interpretation atomic: counter_contract AtomicCounter 0 goroCount iterCount
  "\<lambda>_ _. True" "\<lambda>n. n" "\<lambda>_. 0" "\<lambda>_. 1" "\<lambda>_. 0" for goroCount iterCount
  by unfold_locales (auto simp: AtomicCounter_def atomicIncr_def)

interpretation channel: counter_contract ChannelBasedCounter "Channel 0 None" goroCount iterCount
  "\<lambda>_ _. True" "\<lambda>s. chanTotal s + (case chanReceived s of None \<Rightarrow> 0 | Some v \<Rightarrow> v)" "\<lambda>_. 0" "\<lambda>_. 2"
  "\<lambda>s. if chanReceived s = None then 0 else 1" for goroCount iterCount
  by unfold_locales (auto simp: ChannelBasedCounter_def channelSend_def channelCount_def channelValue_def split: option.splits)

text \<open>The shard is an index of the slice if the product of the arguments fits into an \<open>int\<close>.\<close>

lemma sint_small:
  assumes "m < 2 ^ 63"
  shows "sint (word_of_int (int m) :: 64 word) = int m"
proof -
  have "int m < 2 ^ 63" using assms by (metis of_nat_less_iff of_nat_numeral of_nat_power)
  then show ?thesis unfolding sint_sbintrunc' by (intro signed_take_bit_int_eq_self) simp_all
qed

lemma shardOf_in_range:
  assumes "g < goroCount" and "i < iterCount" and "goroCount * iterCount < 2 ^ 63" and "0 < shards"
  shows "shardOf iterCount shards g i = int ((g * iterCount + i) mod shards)"
proof -
  have "g * iterCount + i < (g + 1) * iterCount" using assms(2) by simp
  also have "\<dots> \<le> goroCount * iterCount" using assms(1) by (intro mult_le_mono1) simp
  finally have small: "g * iterCount + i < 2 ^ 63" using assms(3) by simp
  from sint_small[OF this] have "sint (word_of_int (int (g * iterCount + i)) :: 64 word) = int (g * iterCount + i)" .
  then have "sint (of_nat g * of_nat iterCount + of_nat i :: 64 word) = int (g * iterCount + i)" by simp
  with assms(4) show ?thesis unfolding shardOf_def by (simp add: smod_mod_positive zmod_int del: of_nat_add of_nat_mult)
qed

text \<open>The number of shards does not change, and the value is the sum over them.\<close>

lemma shardedValue_update:
  "k < length ns \<Longrightarrow> shardedValue (ns[k := v]) + ns ! k = shardedValue ns + v"
proof -
  have "fold (\<lambda>n v. v + n) ns a = a + sum_list ns" for ns :: "64 word list" and a
    by (induction ns arbitrary: a) (simp_all add: add.assoc)
  then have eq: "shardedValue ns = sum_list ns" for ns by (simp add: shardedValue_def)
  show "k < length ns \<Longrightarrow> shardedValue (ns[k := v]) + ns ! k = shardedValue ns + v"
    unfolding eq
  proof (induction ns arbitrary: k)
    case (Cons n ns)
    then show ?case by (cases k) (simp_all add: algebra_simps)
  qed simp
qed

lemma shardedStep_goes:
  assumes "g < goroCount" and "i < iterCount" and "goroCount * iterCount < 2 ^ 63" and "0 < length ns"
  defines "k \<equiv> (g * iterCount + i) mod length ns"
  shows "shardedStep iterCount g i p ns = Goes () True (ns[k := ns ! k + 1])" and "k < length ns"
proof -
  show k: "k < length ns" using assms(4) by (simp add: k_def)
  then show "shardedStep iterCount g i p ns = Goes () True (ns[k := ns ! k + 1])"
    unfolding shardedStep_def shardedIncr_def shardOf_in_range[OF assms(1-4)] k_def[symmetric]
    using assms(4) by (simp add: idx_list_def upd_list_def)
qed

lemma sharded_contract:
  assumes "goroCount = 0 \<or> 0 < shards" and "goroCount * iterCount < 2 ^ 63"
  shows "counter_contract (ShardedAtomicCounter iterCount) (NewShardedAtomicCounter shards) goroCount iterCount
    (\<lambda>_ ns. length ns = shards) shardedValue (\<lambda>_. 0) (\<lambda>_. 1) (\<lambda>_. 0)"
proof unfold_locales
  have "fold (\<lambda>n v. v + n) (replicate shards 0) v = v" for v :: "64 word" by (induction shards) simp_all
  then show "shardedValue (NewShardedAtomicCounter shards) = 0" by (simp add: shardedValue_def NewShardedAtomicCounter_def)
next
  fix ps :: "nat \<Rightarrow> unit" and ns :: "64 word list" and g i p' returned s'
  assume len: "length ns = shards" and g: "g < goroCount" and i: "i < iterCount"
  then have pos: "0 < length ns" using assms(1) by auto
  note goes = shardedStep_goes[OF g i assms(2) pos]
  show "Incr (ShardedAtomicCounter iterCount) g i (ps g) ns \<noteq> Panics"
    using goes(1) by (simp add: ShardedAtomicCounter_def)
  assume "Incr (ShardedAtomicCounter iterCount) g i (ps g) ns = Goes p' returned s'"
  then have s': "returned" "s' = ns[(g * iterCount + i) mod length ns := ns ! ((g * iterCount + i) mod length ns) + 1]"
    using goes(1) by (simp_all add: ShardedAtomicCounter_def)
  have "shardedValue s' = shardedValue ns + 1"
    using shardedValue_update[OF goes(2), of "ns ! ((g * iterCount + i) mod length ns) + 1"] by (simp add: s'(2) algebra_simps)
  with s' len show "length s' = shards \<and>
      shardedValue s' + of_nat 0 = shardedValue ns + of_nat (if returned then 1 else 0) \<and> (if returned then 0 else 1) + 0 < (1::nat) + 0"
    by simp
qed (auto simp: ShardedAtomicCounter_def NewShardedAtomicCounter_def shardedStep_def split: option.splits if_splits)

interpretation sharded_defaults: counter_contract "ShardedAtomicCounter 100000" "NewShardedAtomicCounter 500" 500 100000
  "\<lambda>_ ns. length ns = 500" shardedValue "\<lambda>_. 0" "\<lambda>_. 1" "\<lambda>_. 0"
  by (rule sharded_contract) simp_all

section \<open>The benchmark\<close>

text \<open>A counter passes its test: whatever the interleaving, nothing panics, there is an end after a bounded
  number of steps, and before it somebody can go on; the value reported is right.\<close>

definition passes :: "('p, 's) counter_ops \<Rightarrow> 's \<Rightarrow> nat \<Rightarrow> nat \<Rightarrow> bool" where
  "passes c s0 goroCount iterCount \<longleftrightarrow> (\<forall>n b e. bench_run c iterCount (startBench goroCount s0) n b \<longrightarrow>
     benchStep c iterCount e b \<noteq> Crash \<and> n \<le> goroCount * (4 * iterCount + 3) + 2 \<and>
     (case finalValue b of Some v \<Rightarrow> benchOk goroCount iterCount v | None \<Rightarrow> \<exists>e b'. benchStep c iterCount e b = Next b'))"

definition test_passes :: "nat \<Rightarrow> nat \<Rightarrow> counter_test \<Rightarrow> bool" where
  "test_passes goroCount iterCount t = (case t of
     MutexTest \<Rightarrow> passes MutexCounter \<lparr>mut = None, mutN = 0\<rparr> goroCount iterCount
   | AtomicTest \<Rightarrow> passes AtomicCounter 0 goroCount iterCount
   | ShardedTest shards \<Rightarrow> passes (ShardedAtomicCounter iterCount) (NewShardedAtomicCounter shards) goroCount iterCount
   | ChannelTest \<Rightarrow> passes ChannelBasedCounter (Channel 0 None) goroCount iterCount)"

lemma contract_passes:
  assumes "counter_contract c s0 goroCount iterCount iv tot cr rank work" "rank (idle c) \<le> 4"
  shows "passes c s0 goroCount iterCount"
proof -
  have "goroCount * (rank (idle c) * iterCount + 3) + 2 \<le> goroCount * (4 * iterCount + 3) + 2"
    using assms(2) by (simp add: mult_le_mono)
  with counter_contract.bench_works[OF assms(1)] show ?thesis unfolding passes_def by (meson order_trans)
qed

text \<open>C32. The command with a number of goroutines and iterations that is not negative and whose product
  fits into an \<open>int\<close>, and with a number of shards that is not negative, makes all four tests, and each
  passes: in every interleaving of the goroutines' steps nothing panics, as long as the value has not been
  reported somebody can make a step, there are at most \<open>G * (4 * I + 3) + 2\<close> steps, and the value reported is
  the number of all increments, so none is lost.\<close>

theorem counter_command_passes:
  assumes "counterProgram args = Inr (f, tests, ended)"
    and "0 \<le> ctGoroutines f" "0 \<le> ctIterations f" "0 \<le> ctShards f" "ctGoroutines f * ctIterations f < 2 ^ 63"
  shows "ended \<and>
    tests = [MutexTest, AtomicTest, ShardedTest (nat (if ctShards f = 0 then ctGoroutines f else ctShards f)), ChannelTest] \<and>
    (\<forall>t \<in> set tests. test_passes (nat (ctGoroutines f)) (nat (ctIterations f)) t)"
proof -
  let ?G = "nat (ctGoroutines f)" and ?I = "nat (ctIterations f)"
  define n where "n = nat (if ctShards f = 0 then ctGoroutines f else ctShards f)"
  have t: "tests = [MutexTest, AtomicTest, ShardedTest n, ChannelTest]" "ended"
    using assms(1,2,4) by (auto simp: counterProgram_def counterTests_def Let_def n_def split: sum.splits prod.splits if_splits)
  have "?G = 0 \<or> 0 < n" using assms(2,4) by (auto simp: n_def)
  moreover have "?G * ?I < 2 ^ 63" using assms(2,3,5) by (metis nat_less_numeral_power_cancel_iff nat_mult_distrib)
  ultimately have "passes (ShardedAtomicCounter ?I) (NewShardedAtomicCounter n) ?G ?I"
    by (intro contract_passes[OF sharded_contract]) simp_all
  moreover have "passes MutexCounter \<lparr>mut = None, mutN = 0\<rparr> ?G ?I"
    by (rule contract_passes[OF mutex.counter_contract_axioms]) (simp add: MutexCounter_def mutexRank_def)
  moreover have "passes AtomicCounter 0 ?G ?I" by (rule contract_passes[OF atomic.counter_contract_axioms]) simp
  moreover have "passes ChannelBasedCounter (Channel 0 None) ?G ?I" by (rule contract_passes[OF channel.counter_contract_axioms]) simp
  ultimately show ?thesis using t by (simp add: test_passes_def n_def)
qed

theorem counter_command_passes_witness:
  "counterProgram [''-goroutines=3'', ''--iterations'', ''7''] =
     Inr (\<lparr>ctGoroutines = 3, ctIterations = 7, ctShards = 0\<rparr>, [MutexTest, AtomicTest, ShardedTest 3, ChannelTest], True) \<and>
   test_passes 3 7 MutexTest \<and> test_passes 3 7 AtomicTest \<and> test_passes 3 7 (ShardedTest 3) \<and> test_passes 3 7 ChannelTest"
proof -
  have i: "ParseInt ''3'' = Inr 3" "ParseInt ''7'' = Inr 7"
    by (simp_all add: ParseInt_def ParseUint_def basePrefix_def digitVal_def isDigit_def)
  let ?ws = "[(Dash1Eq, ''goroutines'', ''3''), (Dash2, ''iterations'', ''7'')]"
  have "applySettings counterFlags (map snd ?ws) counterDefaults = Some \<lparr>ctGoroutines = 3, ctIterations = 7, ctShards = 0\<rparr>"
    by (simp add: counterFlags_def IntVar_def VarFlag_def plainName_def i counterDefaults_def)
  from parseFlags_written[OF this, of "[]"]
  have p: "counterProgram [''-goroutines=3'', ''--iterations'', ''7''] =
     Inr (\<lparr>ctGoroutines = 3, ctIterations = 7, ctShards = 0\<rparr>, [MutexTest, AtomicTest, ShardedTest 3, ChannelTest], True)"
    by (simp add: counterProgram_def written_def counterTests_def)
  from counter_command_passes[OF p] p show ?thesis by simp
qed

text \<open>With the mutex counter, every interleaving of the goroutines' steps leads to the result: nothing
  panics, as long as the value has not been reported somebody can make a step, there are at most
  \<open>G * (4 * I + 3) + 2\<close> steps, and the value that is reported is the number of all increments as a 64-bit
  integer, so no increment is lost.\<close>

theorem mutex_benchmark_ok:
  assumes "bench_run MutexCounter iterCount (startBench goroCount \<lparr>mut = None, mutN = 0\<rparr>) n b"
  shows "benchStep MutexCounter iterCount e b \<noteq> Crash \<and> n \<le> goroCount * (4 * iterCount + 3) + 2 \<and>
    (case finalValue b of
       Some v \<Rightarrow> benchOk goroCount iterCount v
     | None \<Rightarrow> \<exists>e b'. benchStep MutexCounter iterCount e b = Next b')"
  using mutex.bench_works[OF assms] by (simp add: MutexCounter_def mutexRank_def)

text \<open>With the sharded counter, a positive number of shards and a number of increments that fits into
  an \<open>int\<close>, no call uses a shard that does not exist, and every interleaving leads to the sum of all
  increments over the shards.\<close>

theorem sharded_benchmark_ok:
  assumes "0 < shards" and "goroCount * iterCount < 2 ^ 63"
    and "bench_run (ShardedAtomicCounter iterCount) iterCount (startBench goroCount (NewShardedAtomicCounter shards)) n b"
  shows "benchStep (ShardedAtomicCounter iterCount) iterCount e b \<noteq> Crash \<and> n \<le> goroCount * (iterCount + 3) + 2 \<and>
    (case finalValue b of
       Some v \<Rightarrow> benchOk goroCount iterCount v
     | None \<Rightarrow> \<exists>e b'. benchStep (ShardedAtomicCounter iterCount) iterCount e b = Next b')"
  using counter_contract.bench_works[OF sharded_contract[OF disjI2[OF assms(1)] assms(2)] assms(3)] by simp

theorem atomic_benchmark_ok:
  assumes "bench_run AtomicCounter iterCount (startBench goroCount 0) n b"
  shows "benchStep AtomicCounter iterCount e b \<noteq> Crash \<and> n \<le> goroCount * (iterCount + 3) + 2 \<and>
    (case finalValue b of
       Some v \<Rightarrow> benchOk goroCount iterCount v
     | None \<Rightarrow> \<exists>e b'. benchStep AtomicCounter iterCount e b = Next b')"
  using atomic.bench_works[OF assms] by simp

theorem channel_benchmark_ok:
  assumes "bench_run ChannelBasedCounter iterCount (startBench goroCount (Channel 0 None)) n b"
  shows "benchStep ChannelBasedCounter iterCount e b \<noteq> Crash \<and> n \<le> goroCount * (2 * iterCount + 3) + 2 \<and>
    (case finalValue b of
       Some v \<Rightarrow> benchOk goroCount iterCount v
     | None \<Rightarrow> \<exists>e b'. benchStep ChannelBasedCounter iterCount e b = Next b')"
  using channel.bench_works[OF assms] by simp

text \<open>Running given events.\<close>

fun runEvents :: "('p, 's) counter_ops \<Rightarrow> nat \<Rightarrow> event list \<Rightarrow> ('p, 's) bench \<Rightarrow> ('p, 's) bench option" where
  "runEvents c iterCount [] b = Some b"
| "runEvents c iterCount (e # es) b = (case benchStep c iterCount e b of Next b' \<Rightarrow> runEvents c iterCount es b' | _ \<Rightarrow> None)"

lemma runEvents_run:
  "bench_run c iterCount b0 n b \<Longrightarrow> runEvents c iterCount es b = Some b' \<Longrightarrow> bench_run c iterCount b0 (n + length es) b'"
proof (induction es arbitrary: n b)
  case (Cons e es)
  then obtain b1 where b1: "benchStep c iterCount e b = Next b1" "runEvents c iterCount es b1 = Some b'"
    by (auto split: outcome.splits)
  from Cons.IH[OF bench_run.step[OF Cons.prems(1) b1(1)] b1(2)] show ?case by simp
qed simp

text \<open>Two goroutines increment once each. The second one cannot lock while the first one is between
  loading and storing.\<close>

theorem mutex_benchmark_ok_witness:
  "\<exists>b. runEvents MutexCounter 1 ([Go 0, Go 1, MainGo, Go 0, Go 1] @ replicate 4 (Go 0) @ replicate 4 (Go 1) @ [Go 0, Go 1, MainGo])
      (startBench 2 \<lparr>mut = None, mutN = 0\<rparr>) = Some b \<and> finalValue b = Some 2 \<and> benchOk 2 1 2"
proof -
  let ?es = "[Go 0, Go 1, MainGo, Go 0, Go 1] @ replicate 4 (Go 0) @ replicate 4 (Go 1) @ [Go 0, Go 1, MainGo]"
  let ?b0 = "startBench 2 \<lparr>mut = None, mutN = 0\<rparr>"
  have "\<exists>b. runEvents MutexCounter 1 ?es ?b0 = Some b \<and> finalValue b = Some 2"
    by (simp add: eval_nat_numeral startBench_def benchStep_def goroStep_def mainStep_def MutexCounter_def mutexIncr_def mutexValue_def)
  then obtain b where b: "runEvents MutexCounter 1 ?es ?b0 = Some b" "finalValue b = Some 2" by blast
  from mutex_benchmark_ok[OF runEvents_run[OF bench_run.start b(1)]] b show ?thesis by auto
qed

theorem sharded_benchmark_ok_witness:
  "\<exists>b. runEvents (ShardedAtomicCounter 1) 1 [Go 0, Go 1, MainGo, Go 0, Go 1, Go 1, Go 0, Go 0, Go 1, MainGo]
      (startBench 2 (NewShardedAtomicCounter 2)) = Some b \<and> finalValue b = Some 2 \<and> benchOk 2 1 2"
proof -
  let ?es = "[Go 0, Go 1, MainGo, Go 0, Go 1, Go 1, Go 0, Go 0, Go 1, MainGo]"
  let ?b0 = "startBench 2 (NewShardedAtomicCounter 2) :: (unit, 64 word list) bench"
  have "shardedStep 1 0 0 p ns = Goes () True (ns[0 := ns ! 0 + 1])" "shardedStep 1 1 0 p ns = Goes () True (ns[1 := ns ! 1 + 1])"
    if "length ns = 2" for p ns
    using shardedStep_goes(1)[of 0 2 0 1 ns p] shardedStep_goes(1)[of 1 2 0 1 ns p] that by simp_all
  then have "\<exists>b. runEvents (ShardedAtomicCounter 1) 1 ?es ?b0 = Some b \<and> finalValue b = Some 2"
    by (simp add: eval_nat_numeral startBench_def benchStep_def goroStep_def mainStep_def ShardedAtomicCounter_def
        NewShardedAtomicCounter_def shardedValue_def)
  then obtain b where b: "runEvents (ShardedAtomicCounter 1) 1 ?es ?b0 = Some b" "finalValue b = Some 2" by blast
  from sharded_benchmark_ok[OF _ _ runEvents_run[OF bench_run.start b(1)]] b show ?thesis by auto
qed

end
