(* ===== verification/RpzStore.thy ===== *)
theory RpzStore
  imports GoStrings
begin

text \<open>
  The item services of \<open>rpz\<close>: the gRPC server, the HTTP server, the access to the database and the program
  that fills it. Protobuf's JSON and the database driver are arguments; the maps of the servers are guarded
  by a mutex in every access, so a request is one step.
\<close>

section \<open>Items and random payloads\<close>

record item =
  itId :: string
  itName :: string
  itTimestamp :: int
  itPayload :: string

record rpz_config =
  Insecure :: bool
  CertFile :: string
  KeyFile :: string
  PayloadBytes :: int

definition letters :: string where
  "letters = ''abcdefghijklmnopqrstuvwxyzABCDEFGHIJKLMNOPQRSTUVWXYZ0123456789''"

fun randomLetters :: "nat \<Rightarrow> rng \<Rightarrow> (string \<times> rng) option" where
  "randomLetters 0 r = Some ([], r)"
| "randomLetters (Suc n) r = do {
     (k, r) \<leftarrow> Intn (int (length letters)) r;
     c \<leftarrow> idx_list letters k;
     (cs, r) \<leftarrow> randomLetters n r;
     Some (c # cs, r) }"

text \<open>\<open>make([]byte, n)\<close> panics for a negative length.\<close>

definition RandomString :: "int \<Rightarrow> rng \<Rightarrow> (string \<times> rng) option" where
  "RandomString n r = (if n < 0 then None else randomLetters (nat n) r)"

lemma RandomString_ok: "0 \<le> n \<Longrightarrow> \<exists>s r'. RandomString n r = Some (s, r') \<and> length s = nat n \<and> set s \<subseteq> set letters"
proof -
  have "\<exists>s r'. randomLetters m r = Some (s, r') \<and> length s = m \<and> set s \<subseteq> set letters" for m
  proof (induction m arbitrary: r)
    case (Suc m)
    have "0 < int (length letters)" by (simp add: letters_def)
    from Intn_Some[OF this, of r] obtain k r1 where k: "Intn (int (length letters)) r = Some (k, r1)" "0 \<le> k" "k < int (length letters)"
      by blast
    from Suc[of r1] obtain s r2 where "randomLetters m r1 = Some (s, r2)" "length s = m" "set s \<subseteq> set letters" by blast
    with k show ?case by (auto simp: idx_list_def)
  qed simp
  then show "0 \<le> n \<Longrightarrow> ?thesis" by (simp add: RandomString_def)
qed

section \<open>The gRPC server\<close>

definition NewGRPCServer :: "string \<Rightarrow> item option" where
  "NewGRPCServer = Map.empty"

definition CreateItem :: "int \<Rightarrow> string \<Rightarrow> string \<Rightarrow> (string \<Rightarrow> item option) \<Rightarrow> item \<times> (string \<Rightarrow> item option)" where
  "CreateItem now reqId reqName items =
    (let item = \<lparr>itId = reqId, itName = reqName, itTimestamp = now, itPayload = []\<rparr> in (item, items(itId item \<mapsto> item)))"

datatype rpc_error = NotFound

definition GetItem :: "string \<Rightarrow> (string \<Rightarrow> item option) \<Rightarrow> rpc_error + item" where
  "GetItem reqId items = (case items reqId of None \<Rightarrow> Inl NotFound | Some item \<Rightarrow> Inr item)"

section \<open>The HTTP server\<close>

text \<open>A response: an error text, or JSON with its status. An item that cannot be written ends the program.\<close>

datatype rpz_response = ErrorText string nat | JSON nat string

definition NewHTTPServer :: "string \<Rightarrow> item option" where
  "NewHTTPServer = Map.empty"

definition handleGetItem :: "(item \<Rightarrow> string option) \<Rightarrow> string \<Rightarrow> (string \<Rightarrow> item option) \<Rightarrow> rpz_response option" where
  "handleGetItem marshal itemID items = (case items itemID of
     None \<Rightarrow> Some (ErrorText ''item not found'' 404)
   | Some item \<Rightarrow> (case marshal item of None \<Rightarrow> None | Some out \<Rightarrow> Some (JSON 200 out)))"

text \<open>The body is \<open>None\<close> if it cannot be read. The map is changed before the response is written.\<close>

definition handlePostItem :: "(string \<Rightarrow> item option) \<Rightarrow> (item \<Rightarrow> string option) \<Rightarrow> rpz_config \<Rightarrow> string option \<Rightarrow> int \<Rightarrow> rng \<Rightarrow>
    (string \<Rightarrow> item option) \<Rightarrow> (rpz_response \<times> (string \<Rightarrow> item option) \<times> rng) option" where
  "handlePostItem parse marshal config body now r items = (case body of
     None \<Rightarrow> Some (ErrorText ''cannot read http request body'' 500, items, r)
   | Some bs \<Rightarrow> (case parse bs of
       None \<Rightarrow> Some (ErrorText ''invalid JSON'' 400, items, r)
     | Some item \<Rightarrow> do {
         let item = item\<lparr>itTimestamp := now\<rparr>;
         (item, r) \<leftarrow> (if PayloadBytes config > 0
           then map_option (\<lambda>(s, r). (item\<lparr>itPayload := s\<rparr>, r)) (RandomString (PayloadBytes config) r)
           else Some (item, r));
         let items = items(itId item \<mapsto> item);
         out \<leftarrow> marshal item;
         Some (JSON 201 out, items, r) }))"

text \<open>Address and certificate of the two servers.\<close>

definition grpcServe :: "rpz_config \<Rightarrow> string \<times> (string \<times> string) option" where
  "grpcServe config = ('':9090'', if \<not> Insecure config then Some (CertFile config, KeyFile config) else None)"

definition httpServe :: "rpz_config \<Rightarrow> string \<times> (string \<times> string) option" where
  "httpServe config = (if \<not> Insecure config then ('':8443'', Some (CertFile config, KeyFile config)) else ('':8080'', None))"

section \<open>The database\<close>

record db_item =
  dbID :: string
  dbName :: string
  dbPayload :: string
  dbCreateTime :: "int option"

datatype row = NoRows | RowError string | Row db_item

text \<open>The connection pool: copying rows into the table, inserting one, selecting one by its id, and all ids
  with an error that ends the rows.\<close>

record 'd pgx_pool =
  copyFrom :: "db_item list \<Rightarrow> 'd \<Rightarrow> string option \<times> 'd"
  execInsert :: "db_item \<Rightarrow> 'd \<Rightarrow> string option \<times> 'd"
  selectById :: "string \<Rightarrow> 'd \<Rightarrow> row"
  selectIds :: "'d \<Rightarrow> string + (string + string) list \<times> string option"

definition BatchInsertItems :: "'d pgx_pool \<Rightarrow> db_item list \<Rightarrow> 'd \<Rightarrow> string option \<times> 'd" where
  "BatchInsertItems pool items d = (if length items = 0 then (None, d) else copyFrom pool items d)"

definition InsertItem :: "'d pgx_pool \<Rightarrow> int \<Rightarrow> db_item \<Rightarrow> 'd \<Rightarrow> string option \<times> 'd" where
  "InsertItem pool now item d =
    (let item = (if dbCreateTime item = None then item\<lparr>dbCreateTime := Some now\<rparr> else item) in execInsert pool item d)"

definition GetItemByID :: "'d pgx_pool \<Rightarrow> string \<Rightarrow> 'd \<Rightarrow> string + db_item option" where
  "GetItemByID pool i d = (case selectById pool i d of
     NoRows \<Rightarrow> Inr None | RowError e \<Rightarrow> Inl e | Row item \<Rightarrow> Inr (Some item))"

fun scanIds :: "(string + string) list \<Rightarrow> string + string list" where
  "scanIds [] = Inr []"
| "scanIds (Inl e # rs) = Inl e"
| "scanIds (Inr i # rs) = map_sum id ((#) i) (scanIds rs)"

definition GetAllItemIDs :: "'d pgx_pool \<Rightarrow> 'd \<Rightarrow> string + string list" where
  "GetAllItemIDs pool d = (case selectIds pool d of
     Inl e \<Rightarrow> Inl e
   | Inr (rs, err) \<Rightarrow> (case scanIds rs of
       Inl e \<Rightarrow> Inl e
     | Inr ids \<Rightarrow> (case err of Some e \<Rightarrow> Inl e | None \<Rightarrow> Inr ids)))"

section \<open>Filling and querying the database\<close>

text \<open>\<open>%06d\<close> of a number that is not negative.\<close>

definition padded :: "nat \<Rightarrow> nat \<Rightarrow> string" where
  "padded w n = replicate (w - length (digits n)) CHR ''0'' @ digits n"

definition itemID :: "nat \<Rightarrow> string" where
  "itemID k = ''item'' @ padded 6 k"

definition batchSize :: nat where
  "batchSize = 1024"

text \<open>The items of a batch from number \<open>k\<close> on.\<close>

fun makeBatch :: "int \<Rightarrow> int \<Rightarrow> nat \<Rightarrow> nat \<Rightarrow> rng \<Rightarrow> (db_item list \<times> rng) option" where
  "makeBatch payloadLen now k 0 r = Some ([], r)"
| "makeBatch payloadLen now k (Suc b) r = do {
     (s, r) \<leftarrow> RandomString payloadLen r;
     (items, r) \<leftarrow> makeBatch payloadLen now (k + 1) b r;
     Some (\<lparr>dbID = itemID k, dbName = ''Name '' @ digits k, dbPayload = s, dbCreateTime = Some now\<rparr> # items, r) }"

lemma makeBatch_ids: "makeBatch payloadLen now k b r = Some (items, r') \<Longrightarrow> map dbID items = map itemID [k..<k + b]"
proof (induction b arbitrary: k r items r')
  case (Suc b)
  then obtain s r1 rest where "makeBatch payloadLen now (k + 1) b r1 = Some (rest, r')"
    "items = \<lparr>dbID = itemID k, dbName = ''Name '' @ digits k, dbPayload = s, dbCreateTime = Some now\<rparr> # rest"
    by (auto split: Option.bind_splits)
  with Suc.IH[of "k + 1" r1] show ?case by (simp add: upt_conv_Cons del: upt_Suc)
qed simp

lemma makeBatch_length: "makeBatch payloadLen now k b r = Some (items, r') \<Longrightarrow> length items = b"
  using makeBatch_ids by (metis add_diff_cancel_left' length_map length_upt)

text \<open>The loop of \<open>insertItems\<close>: the ids inserted so far, in order.\<close>

function insertLoop :: "'d pgx_pool \<Rightarrow> nat \<Rightarrow> int \<Rightarrow> int \<Rightarrow> string list \<Rightarrow> rng \<Rightarrow> 'd \<Rightarrow> ((string + string list) \<times> rng \<times> 'd) option" where
  "insertLoop pool itemCount payloadLen now ids r d =
    (if length ids < itemCount then (case makeBatch payloadLen now (length ids) (min (itemCount - length ids) batchSize) r of
       None \<Rightarrow> None
     | Some (batch, r) \<Rightarrow> (case BatchInsertItems pool batch d of
         (Some e, d) \<Rightarrow> Some (Inl (''failed to batch insert items: '' @ e), r, d)
       | (None, d) \<Rightarrow> insertLoop pool itemCount payloadLen now (ids @ map dbID batch) r d))
     else Some (Inr ids, r, d))"
  by pat_completeness auto

termination
proof (relation "measure (\<lambda>(pool, itemCount, payloadLen, now, ids, r, d). itemCount - length ids)", goal_cases)
  case (2 pool itemCount payloadLen now ids r d x batch r')
  then have "length batch = min (itemCount - length ids) batchSize" using makeBatch_length by metis
  with 2(1) show ?case by (simp add: batchSize_def)
qed simp

declare insertLoop.simps [simp del]

definition insertItems :: "'d pgx_pool \<Rightarrow> nat \<Rightarrow> int \<Rightarrow> int \<Rightarrow> rng \<Rightarrow> 'd \<Rightarrow> ((string + string list) \<times> rng \<times> 'd) option" where
  "insertItems pool itemCount payloadLen now r d = insertLoop pool itemCount payloadLen now [] r d"

fun queryRandomItems :: "'d pgx_pool \<Rightarrow> string list \<Rightarrow> nat \<Rightarrow> rng \<Rightarrow> 'd \<Rightarrow> (string option \<times> rng) option" where
  "queryRandomItems pool itemIDs 0 r d = Some (None, r)"
| "queryRandomItems pool itemIDs (Suc n) r d = do {
     (j, r) \<leftarrow> Intn (int (length itemIDs)) r;
     i \<leftarrow> idx_list itemIDs j;
     (case GetItemByID pool i d of
       Inl e \<Rightarrow> Some (Some (''error querying item '' @ i @ '': '' @ e), r)
     | Inr None \<Rightarrow> Some (Some (''item with ID '' @ i @ '' not found''), r)
     | Inr (Some item) \<Rightarrow> queryRandomItems pool itemIDs n r d) }"

end
