(* ===== verification/RpzProps.thy ===== *)
theory RpzProps
  imports RpzStore GoRunes
begin

text \<open>
  What the item services promise: a client that reads an item gets what was last stored under its id, on
  both servers; and the database benchmark finds every item that it has inserted.
\<close>

section \<open>A store of items\<close>

text \<open>The contract of a server: a request stores at most one item, and nothing else changes.\<close>

locale item_store =
  fixes empty :: 's and store :: "'req \<Rightarrow> 's \<Rightarrow> 's" and get :: "string \<Rightarrow> 's \<Rightarrow> item option"
    and stored :: "'req \<Rightarrow> (string \<times> item) option"
  assumes get_empty: "get i empty = None"
    and get_store: "get i (store r s) = (case stored r of
      Some (k, x) \<Rightarrow> if i = k then Some x else get i s | None \<Rightarrow> get i s)"
begin

lemma get_last: "get i (fold store rs empty) = map_of (rev (List.map_filter stored rs)) i"
proof (induction rs rule: rev_induct)
  case Nil
  then show ?case by (simp add: get_empty map_filter_simps)
next
  case (snoc r rs)
  have "List.map_filter stored (rs @ [r]) = List.map_filter stored rs @ (case stored r of None \<Rightarrow> [] | Some p \<Rightarrow> [p])"
    by (induction rs) (auto simp: map_filter_simps split: option.split)
  with snoc show ?case by (auto simp: get_store split: option.split)
qed

end

text \<open>A request of the gRPC server: time, id and name.\<close>

definition grpcStored :: "int \<times> string \<times> string \<Rightarrow> string \<times> item" where
  "grpcStored r = (case r of (now, i, name) \<Rightarrow> (i, \<lparr>itId = i, itName = name, itTimestamp = now, itPayload = []\<rparr>))"

interpretation grpc: item_store NewGRPCServer "\<lambda>(now, i, name) s. snd (CreateItem now i name s)"
  "\<lambda>i s. case GetItem i s of Inl _ \<Rightarrow> None | Inr x \<Rightarrow> Some x" "Some \<circ> grpcStored"
  by unfold_locales
     (auto simp: NewGRPCServer_def GetItem_def CreateItem_def grpcStored_def Let_def split: option.splits if_splits)

text \<open>A request of the HTTP server: body, time and random numbers. An item that cannot be written ends
  the program.\<close>

definition httpPost :: "(string \<Rightarrow> item option) \<Rightarrow> (item \<Rightarrow> string option) \<Rightarrow> rpz_config \<Rightarrow> string option \<times> int \<times> rng \<Rightarrow>
    (string \<Rightarrow> item option) \<Rightarrow> (string \<Rightarrow> item option)" where
  "httpPost parse marshal config r s = (case r of (body, now, rs) \<Rightarrow>
     (case handlePostItem parse marshal config body now rs s of Some (_, s, _) \<Rightarrow> s | None \<Rightarrow> s))"

definition httpStored :: "(string \<Rightarrow> item option) \<Rightarrow> rpz_config \<Rightarrow> string option \<times> int \<times> rng \<Rightarrow> (string \<times> item) option" where
  "httpStored parse config r = (case r of (body, now, rs) \<Rightarrow> (case Option.bind body parse of
     None \<Rightarrow> None
   | Some x \<Rightarrow> Some (itId x, x\<lparr>itTimestamp := now, itPayload := (if PayloadBytes config > 0
       then fst (the (RandomString (PayloadBytes config) rs)) else itPayload x)\<rparr>)))"

text \<open>Those that go on: the item could be written.\<close>

definition httpWritten :: "(string \<Rightarrow> item option) \<Rightarrow> (item \<Rightarrow> string option) \<Rightarrow> rpz_config \<Rightarrow> string option \<times> int \<times> rng \<Rightarrow>
    (string \<times> item) option" where
  "httpWritten parse marshal config r = (case httpStored parse config r of
     None \<Rightarrow> None | Some (k, x) \<Rightarrow> if marshal x = None then None else Some (k, x))"

lemma httpPost_written:
  "httpPost parse marshal config r s i = (case httpWritten parse marshal config r of
    Some (k, x) \<Rightarrow> if i = k then Some x else s i | None \<Rightarrow> s i)"
proof -
  obtain body now rs where r: "r = (body, now, rs)" by (cases r)
  show ?thesis
  proof (cases "Option.bind body parse")
    case None
    then show ?thesis
      by (auto simp: r httpPost_def httpWritten_def httpStored_def handlePostItem_def split: option.splits Option.bind_splits)
  next
    case (Some x)
    then obtain bs where bs: "body = Some bs" "parse bs = Some x" by (cases body) auto
    obtain t r' where t: "0 < PayloadBytes config \<longrightarrow> RandomString (PayloadBytes config) rs = Some (t, r')"
      using RandomString_ok[of "PayloadBytes config" rs] by (metis less_imp_le)
    then show ?thesis
      by (auto simp: r bs httpPost_def httpWritten_def httpStored_def handlePostItem_def Let_def split: Option.bind_splits option.splits)
  qed
qed

interpretation http: item_store NewHTTPServer "httpPost parse marshal config" "\<lambda>i s. s i" "httpWritten parse marshal config"
  for parse marshal config
  by unfold_locales (simp_all add: NewHTTPServer_def httpPost_written)

text \<open>What \<open>protojson\<close> documents: a string that is not valid UTF-8 is an error, for \<open>Unmarshal\<close> and for \<open>Marshal\<close>,
  and so is a timestamp before the year 1 or after the year 9999 for \<open>Marshal\<close>; any other item can be written.\<close>

definition texts_valid :: "item \<Rightarrow> bool" where
  "texts_valid x \<longleftrightarrow> ValidString (itId x) \<and> ValidString (itName x) \<and> ValidString (itPayload x)"

definition timestamp_ok :: "int \<Rightarrow> bool" where
  "timestamp_ok t \<longleftrightarrow> - 62135596800 * 1000000000 \<le> t \<and> t < 253402300800 * 1000000000"

definition protojson_ok :: "(string \<Rightarrow> item option) \<Rightarrow> (item \<Rightarrow> string option) \<Rightarrow> bool" where
  "protojson_ok parse marshal \<longleftrightarrow> (\<forall>bs x. parse bs = Some x \<longrightarrow> texts_valid x) \<and>
     (\<forall>x. texts_valid x \<and> timestamp_ok (itTimestamp x) \<longrightarrow> marshal x \<noteq> None)"

text \<open>What is stored comes from an item that was read.\<close>

lemma httpStored_from:
  assumes "httpStored parse config (body, now, rs) = Some (k, x)"
  obtains bs x0 where "parse bs = Some x0" "k = itId x0" "x = x0\<lparr>itTimestamp := now, itPayload :=
    (if PayloadBytes config > 0 then fst (the (RandomString (PayloadBytes config) rs)) else itPayload x0)\<rparr>"
  using assms that by (auto simp: httpStored_def split: option.splits Option.bind_splits)

lemma httpStored_payload:
  assumes "httpStored parse config r = Some (k, x)"
  shows "k = itId x \<and>
    (0 < PayloadBytes config \<longrightarrow> int (length (itPayload x)) = PayloadBytes config \<and> set (itPayload x) \<subseteq> set letters)"
proof -
  obtain body now rs where r: "r = (body, now, rs)" by (cases r)
  obtain bs x0 where x: "parse bs = Some x0" "k = itId x0" "x = x0\<lparr>itTimestamp := now, itPayload :=
      (if PayloadBytes config > 0 then fst (the (RandomString (PayloadBytes config) rs)) else itPayload x0)\<rparr>"
    using httpStored_from assms unfolding r by metis
  show ?thesis
  proof (cases "0 < PayloadBytes config")
    case True
    then obtain t r' where "RandomString (PayloadBytes config) rs = Some (t, r')" "length t = nat (PayloadBytes config)"
      "set t \<subseteq> set letters" using RandomString_ok[of "PayloadBytes config" rs] by auto
    with True show ?thesis by (simp add: x(2,3))
  qed (simp add: x(2,3))
qed

lemma letters_valid: "set s \<subseteq> set letters \<Longrightarrow> ValidString s"
proof (rule ValidString_ascii)
  have "\<forall>c \<in> set letters. byte c < 128" by (simp add: letters_def byte_def)
  then show "set s \<subseteq> set letters \<Longrightarrow> \<forall>c \<in> set s. byte c < 128" by blast
qed

lemma httpStored_written:
  assumes "protojson_ok parse marshal" "timestamp_ok (fst (snd r))"
  shows "httpWritten parse marshal config r = httpStored parse config r"
proof (cases "httpStored parse config r")
  case (Some p)
  obtain k x where p: "p = (k, x)" by (cases p)
  obtain body now rs where r: "r = (body, now, rs)" by (cases r)
  obtain bs x0 where x0: "parse bs = Some x0" "x = x0\<lparr>itTimestamp := now, itPayload :=
      (if PayloadBytes config > 0 then fst (the (RandomString (PayloadBytes config) rs)) else itPayload x0)\<rparr>"
    using httpStored_from Some unfolding p r by metis
  have valid: "texts_valid x0" using assms(1) x0(1) by (simp add: protojson_ok_def)
  have "ValidString (itPayload x)"
    using httpStored_payload[OF Some[unfolded p]] letters_valid valid by (cases "0 < PayloadBytes config") (auto simp: x0(2) texts_valid_def)
  then have "texts_valid x" "itTimestamp x = now" using valid by (simp_all add: x0(2) texts_valid_def)
  with assms have "marshal x \<noteq> None" by (simp add: protojson_ok_def r)
  with Some p show ?thesis by (auto simp: httpWritten_def)
qed (simp add: httpWritten_def)

lemma map_filter_cong: "(\<And>x. x \<in> set xs \<Longrightarrow> f x = g x) \<Longrightarrow> List.map_filter f xs = List.map_filter g xs"
  by (induction xs) (auto simp: map_filter_simps split: option.split)

text \<open>C33. Reading an item from either server returns what the last request that could be read stored under
  its id: the id and name it was given with the time of that request; on the gRPC server without a
  payload, whatever \<open>--payload-bytes\<close> says, and on the HTTP server with the payload of the request or, with a
  positive number of payload bytes, that many random letters. An id that nobody has stored is not
  found. The hypotheses are that \<open>protojson\<close> does what it documents, on valid UTF-8 and on times up to the
  year 9999, and that the clock shows such times.\<close>

theorem services_return_last_stored:
  assumes "protojson_ok parse marshal" "\<forall>r \<in> set posts. timestamp_ok (fst (snd r))"
  shows "GetItem i (fold (\<lambda>(now, i, name) s. snd (CreateItem now i name s)) reqs NewGRPCServer) =
      (case map_of (rev (map grpcStored reqs)) i of None \<Rightarrow> Inl NotFound | Some x \<Rightarrow> Inr x) \<and>
    handleGetItem marshal i (fold (httpPost parse marshal config) posts NewHTTPServer) =
      (case map_of (rev (List.map_filter (httpStored parse config) posts)) i of
         None \<Rightarrow> Some (ErrorText ''item not found'' 404)
       | Some x \<Rightarrow> Some (JSON 200 (the (marshal x)))) \<and>
    (\<forall>k x r. httpStored parse config r = Some (k, x) \<longrightarrow> k = itId x \<and>
      (0 < PayloadBytes config \<longrightarrow> int (length (itPayload x)) = PayloadBytes config \<and> set (itPayload x) \<subseteq> set letters))"
proof (intro conjI)
  have "List.map_filter (Some \<circ> grpcStored) reqs = map grpcStored reqs" by (induction reqs) (simp_all add: map_filter_simps)
  with grpc.get_last[of i reqs]
  show "GetItem i (fold (\<lambda>(now, i, name) s. snd (CreateItem now i name s)) reqs NewGRPCServer) =
      (case map_of (rev (map grpcStored reqs)) i of None \<Rightarrow> Inl NotFound | Some x \<Rightarrow> Inr x)"
    by (auto simp: GetItem_def split: option.splits)
next
  let ?all = "rev (List.map_filter (httpStored parse config) posts)"
  have w: "List.map_filter (httpWritten parse marshal config) posts = List.map_filter (httpStored parse config) posts"
    using assms httpStored_written by (intro map_filter_cong) blast
  have got: "fold (httpPost parse marshal config) posts NewHTTPServer i = map_of ?all i"
    using http.get_last[where i = i and parse = parse and marshal = marshal and config = config and rs = posts] w by simp
  have "marshal x \<noteq> None" if "map_of ?all i = Some x" for x
  proof -
    have "(i, x) \<in> set (List.map_filter (httpWritten parse marshal config) posts)" using map_of_SomeD[OF that] w by simp
    then obtain r where "httpWritten parse marshal config r = Some (i, x)" by (auto simp: map_filter_def)
    then show ?thesis by (auto simp: httpWritten_def split: option.splits if_splits)
  qed
  then show "handleGetItem marshal i (fold (httpPost parse marshal config) posts NewHTTPServer) =
      (case map_of ?all i of None \<Rightarrow> Some (ErrorText ''item not found'' 404) | Some x \<Rightarrow> Some (JSON 200 (the (marshal x))))"
    unfolding handleGetItem_def got by (auto split: option.splits)
next
  show "\<forall>k x r. httpStored parse config r = Some (k, x) \<longrightarrow> k = itId x \<and>
      (0 < PayloadBytes config \<longrightarrow> int (length (itPayload x)) = PayloadBytes config \<and> set (itPayload x) \<subseteq> set letters)"
    using httpStored_payload by blast
qed

text \<open>A reader of bodies that are an id, and a writer that refuses what \<open>protojson\<close> refuses.\<close>

definition readId :: "string \<Rightarrow> item option" where
  "readId bs = (if ValidString bs then Some \<lparr>itId = bs, itName = ''x'', itTimestamp = 0, itPayload = []\<rparr> else None)"

definition jsonText :: "item \<Rightarrow> string option" where
  "jsonText x = (if texts_valid x \<and> timestamp_ok (itTimestamp x) then Some (itId x @ '':'' @ itPayload x) else None)"

theorem services_return_last_stored_witness:
  "GetItem ''a'' (fold (\<lambda>(now, i, name) s. snd (CreateItem now i name s)) [(1, ''a'', ''x''), (2, ''b'', ''y''), (3, ''a'', ''z'')] NewGRPCServer) =
      Inr \<lparr>itId = ''a'', itName = ''z'', itTimestamp = 3, itPayload = []\<rparr> \<and>
    handleGetItem jsonText ''c'' (fold (httpPost readId jsonText \<lparr>Insecure = True, CertFile = [], KeyFile = [], PayloadBytes = 2\<rparr>)
      [(Some ''c'', 5, sconst 0), (None, 6, sconst 0), (Some ''d'', 7, sconst 1)] NewHTTPServer) = Some (JSON 200 ''c:aa'')"
proof -
  let ?cfg = "\<lparr>Insecure = True, CertFile = [], KeyFile = [], PayloadBytes = 2\<rparr>" and ?x = "\<lparr>itId = ''c'', itName = ''x'', itTimestamp = 5, itPayload = ''aa''\<rparr>"
  have valid: "ValidString ''c''" "ValidString ''d''" "ValidString ''x''" "ValidString ''aa''"
    by (simp_all add: ValidString_ascii byte_def)
  have json: "protojson_ok readId jsonText"
    using valid by (auto simp: protojson_ok_def readId_def jsonText_def texts_valid_def)
  have times: "\<forall>r \<in> set [(Some ''c'', 5 :: int, sconst 0), (None, 6, sconst 0), (Some ''d'', 7, sconst 1)]. timestamp_ok (fst (snd r))"
    by (simp add: timestamp_ok_def)
  have rnd: "RandomString 2 (sconst 0) = Some (''aa'', sconst 0)" 
    by (simp add: RandomString_def numeral_2_eq_2 letters_def Intn_def idx_list_def)
  have "map_of (rev (List.map_filter (httpStored readId ?cfg) [(Some ''c'', 5, sconst 0), (None, 6, sconst 0), (Some ''d'', 7, sconst 1)])) ''c'' = Some ?x"
    by (simp add: map_filter_simps httpStored_def readId_def valid rnd)
  moreover have "jsonText ?x = Some ''c:aa''" using valid by (simp add: jsonText_def texts_valid_def timestamp_ok_def)
  ultimately show ?thesis
    using services_return_last_stored[OF json times, of "''a''" "[(1, ''a'', ''x''), (2, ''b'', ''y''), (3, ''a'', ''z'')]"]
      services_return_last_stored[OF json times, of "''c''" "[]" ?cfg]
    by (simp add: grpcStored_def)
qed

section \<open>The database benchmark\<close>

text \<open>Different numbers have different ids.\<close>

definition readDigits :: "string \<Rightarrow> nat" where
  "readDigits s = fold (\<lambda>c n. 10 * n + (of_char c - 48)) s 0"

lemma readDigits_digits: "readDigits (digits n) = n"
proof (induction n rule: digits.induct)
  case (1 n)
  show ?case
  proof (cases "n < 10")
    case True
    then show ?thesis by (subst digits.simps) (simp add: readDigits_def)
  next
    case False
    with 1 show ?thesis by (subst digits.simps) (simp add: readDigits_def)
  qed
qed

lemma readDigits_padded: "readDigits (padded w n) = n"
proof -
  have "fold (\<lambda>c n. 10 * n + (of_char c - 48)) (replicate m CHR ''0'') 0 = (0::nat)" for m by (induction m) simp_all
  with readDigits_digits[of n] show ?thesis by (simp add: padded_def readDigits_def)
qed

lemma inj_itemID: "inj itemID"
proof (rule injI)
  fix m n assume "itemID m = itemID n"
  then have "padded 6 m = padded 6 n" by (simp add: itemID_def)
  then show "m = n" using readDigits_padded by metis
qed

text \<open>The table as the database documents it: \<open>rows\<close> is its content, copying rows with new and different
  ids adds them, and selecting by an id returns its row.\<close>

definition table_ok :: "'d pgx_pool \<Rightarrow> ('d \<Rightarrow> string \<Rightarrow> db_item option) \<Rightarrow> bool" where
  "table_ok pool rows \<longleftrightarrow>
     (\<forall>items d. distinct (map dbID items) \<longrightarrow> (\<forall>x \<in> set items. rows d (dbID x) = None) \<longrightarrow>
        fst (copyFrom pool items d) = None \<and>
        rows (snd (copyFrom pool items d)) = rows d ++ map_of (map (\<lambda>x. (dbID x, x)) items)) \<and>
     (\<forall>i d. selectById pool i d = (case rows d i of None \<Rightarrow> NoRows | Some x \<Rightarrow> Row x))"

lemma makeBatch_ok: "0 \<le> payloadLen \<Longrightarrow> \<exists>items r'. makeBatch payloadLen now k b r = Some (items, r')"
proof (induction b arbitrary: k r)
  case (Suc b)
  from RandomString_ok[OF Suc.prems, of r] obtain s r1 where s: "RandomString payloadLen r = Some (s, r1)" by blast
  from Suc.IH[OF Suc.prems, of "k + 1" r1] obtain items r2 where "makeBatch payloadLen now (k + 1) b r1 = Some (items, r2)" by blast
  with s show ?case by simp
qed simp

lemma insertLoop_ok:
  assumes "table_ok pool rows" and "0 \<le> payloadLen"
    and "ids = map itemID [0..<length ids]" and "length ids \<le> itemCount"
    and "\<forall>k. rows d (itemID k) \<noteq> None \<longleftrightarrow> k < length ids"
  shows "\<exists>r' d'. insertLoop pool itemCount payloadLen now ids r d = Some (Inr (map itemID [0..<itemCount]), r', d') \<and>
    (\<forall>k. rows d' (itemID k) \<noteq> None \<longleftrightarrow> k < itemCount)"
  using assms
proof (induction pool itemCount payloadLen now ids r d rule: insertLoop.induct)
  case (1 pool itemCount payloadLen now ids r d)
  show ?case
  proof (cases "length ids < itemCount")
    case False
    with 1(5) have "length ids = itemCount" by simp
    with 1 False show ?thesis by (subst insertLoop.simps) simp
  next
    case True
    define k b where "k = length ids" and "b = min (itemCount - length ids) batchSize"
    obtain batch r1 where batch: "makeBatch payloadLen now k b r = Some (batch, r1)" using makeBatch_ok[OF 1(3)] by blast
    have bids: "map dbID batch = map itemID [k..<k + b]" by (rule makeBatch_ids[OF batch])
    have sbids: "dbID ` set batch = itemID ` {k..<k + b}" using arg_cong[OF bids, of set] by simp
    have b: "0 < b" "k + b \<le> itemCount" using True by (auto simp: b_def k_def batchSize_def)
    have "batch \<noteq> []" using bids b(1) by auto
    then have ins: "BatchInsertItems pool batch d = copyFrom pool batch d" by (simp add: BatchInsertItems_def)
    have "distinct (map dbID batch)" unfolding bids using inj_itemID by (simp add: distinct_map inj_on_def)
    moreover have "\<forall>x \<in> set batch. rows d (dbID x) = None"
    proof
      fix x assume "x \<in> set batch"
      then have "dbID x \<in> itemID ` {k..<k + b}" using sbids by blast
      then obtain j where "dbID x = itemID j" "\<not> j < length ids" by (auto simp: k_def)
      with 1(6) show "rows d (dbID x) = None" by metis
    qed
    ultimately have copied: "fst (copyFrom pool batch d) = None"
      "rows (snd (copyFrom pool batch d)) = rows d ++ map_of (map (\<lambda>x. (dbID x, x)) batch)"
      using 1(2) unfolding table_ok_def by blast+
    obtain d1 where d1: "copyFrom pool batch d = (None, d1)" "rows d1 = rows d ++ map_of (map (\<lambda>x. (dbID x, x)) batch)"
      using copied by (cases "copyFrom pool batch d") simp
    have len: "length (ids @ map dbID batch) = k + b" using makeBatch_length[OF batch] by (simp add: k_def)
    have "ids @ map dbID batch = map itemID [0..<k + b]"
      unfolding bids using 1(4) by (simp add: k_def upt_add_eq_append[of 0, simplified] del: upt_Suc)
    then have "ids @ map dbID batch = map itemID [0..<length (ids @ map dbID batch)]" unfolding len .
    moreover have "rows d1 (itemID j) \<noteq> None \<longleftrightarrow> j < length (ids @ map dbID batch)" for j
    proof -
      have "rows d1 (itemID j) \<noteq> None \<longleftrightarrow> rows d (itemID j) \<noteq> None \<or> itemID j \<in> dbID ` set batch"
        by (auto simp: d1(2) map_add_None map_of_eq_None_iff image_image)
      also have "\<dots> \<longleftrightarrow> j < k \<or> j \<in> {k..<k + b}"
        unfolding sbids inj_image_mem_iff[OF inj_itemID] using 1(6) by (simp add: k_def)
      finally show ?thesis unfolding len using b(1) by auto
    qed
    ultimately have "\<exists>r' d'. insertLoop pool itemCount payloadLen now (ids @ map dbID batch) r1 d1 =
        Some (Inr (map itemID [0..<itemCount]), r', d') \<and> (\<forall>k. rows d' (itemID k) \<noteq> None \<longleftrightarrow> k < itemCount)"
      using 1(1)[OF True batch[unfolded k_def b_def] refl ins[unfolded d1(1), symmetric] refl 1(2,3)] b(2) len by simp
    moreover have "insertLoop pool itemCount payloadLen now ids r d = insertLoop pool itemCount payloadLen now (ids @ map dbID batch) r1 d1"
      using True by (subst insertLoop.simps) (simp add: batch[unfolded k_def b_def] ins d1(1))
    ultimately show ?thesis by simp
  qed
qed

text \<open>Querying ids that are in the table never fails; without any id the choice of one panics.\<close>

lemma queryRandomItems_ok:
  assumes "table_ok pool rows" and "ids \<noteq> []" and "\<forall>i \<in> set ids. rows d i \<noteq> None"
  shows "\<exists>r'. queryRandomItems pool ids n r d = Some (None, r')"
proof (induction n arbitrary: r)
  case (Suc n)
  have "0 < int (length ids)" using assms(2) by simp
  from Intn_Some[OF this, of r] obtain j r1 where j: "Intn (int (length ids)) r = Some (j, r1)" "0 \<le> j" "j < int (length ids)"
    by blast
  then obtain x where x: "rows d (ids ! nat j) = Some x" using assms(3) by (metis nat_less_iff nth_mem option.exhaust)
  with assms(1) have "GetItemByID pool (ids ! nat j) d = Inr (Some x)" by (simp add: table_ok_def GetItemByID_def)
  with j Suc[of r1] show ?case by (simp add: idx_list_def)
qed simp

lemma query_without_items: "queryRandomItems pool [] (Suc n) r d = None"
  by (simp add: Intn_def)

theorem benchmark_finds_inserted:
  assumes "table_ok pool rows" and "0 \<le> payloadLen" and "\<forall>k. rows d (itemID k) = None" and "0 < itemCount"
  shows "\<exists>ids r' d'. insertItems pool itemCount payloadLen now r d = Some (Inr ids, r', d') \<and>
    length ids = itemCount \<and> distinct ids \<and> (\<exists>r''. queryRandomItems pool ids n r' d' = Some (None, r''))"
proof -
  from insertLoop_ok[OF assms(1,2), of "[]" itemCount d now r] assms(3) obtain r' d' where
    ins: "insertItems pool itemCount payloadLen now r d = Some (Inr (map itemID [0..<itemCount]), r', d')"
    and rows: "\<forall>k. rows d' (itemID k) \<noteq> None \<longleftrightarrow> k < itemCount" by (auto simp: insertItems_def)
  from rows assms(4) have "\<exists>r''. queryRandomItems pool (map itemID [0..<itemCount]) n r' d' = Some (None, r'')"
    by (intro queryRandomItems_ok[OF assms(1)]) auto
  with ins show ?thesis using inj_itemID by (auto simp: distinct_map inj_on_def)
qed

end
