(* ===== verification/GoHex.thy ===== *)
theory GoHex
  imports GoStrings
begin

text \<open>
  Bytes in hexadecimal digits, as Go's \<open>%x\<close> and its package \<open>encoding/hex\<close> write them.
\<close>

definition hexDigit :: "nat \<Rightarrow> char" where
  "hexDigit n = ''0123456789abcdef'' ! (n mod 16)"

definition hexEncode :: "char list \<Rightarrow> string" where
  "hexEncode bs = concat (map (\<lambda>b. [hexDigit (of_char b div 16), hexDigit (of_char b)]) bs)"

definition lowerHex :: "char \<Rightarrow> bool" where
  "lowerHex c \<longleftrightarrow> c \<in> set ''0123456789abcdef''"

lemma lowerHex_hexDigit [simp]: "lowerHex (hexDigit n)"
proof -
  have "n mod 16 < length ''0123456789abcdef''" by simp
  then show ?thesis unfolding lowerHex_def hexDigit_def by (rule nth_mem)
qed

lemma length_hexEncode [simp]: "length (hexEncode bs) = 2 * length bs"
  by (induction bs) (simp_all add: hexEncode_def)

lemma hexEncode_lower: "\<forall>c \<in> set (hexEncode bs). lowerHex c"
  by (auto simp: hexEncode_def)

lemma hexDigit_inj: "hexDigit m = hexDigit n \<longleftrightarrow> m mod 16 = n mod 16"
proof -
  have "distinct ''0123456789abcdef''" by simp
  then show ?thesis using nth_eq_iff_index_eq[of "''0123456789abcdef''" "m mod 16" "n mod 16"] by (simp add: hexDigit_def)
qed

text \<open>Different bytes have different digits.\<close>

lemma hexEncode_inj: "hexEncode bs = hexEncode cs \<longleftrightarrow> bs = cs"
proof (induction bs arbitrary: cs)
  case Nil
  then show ?case by (cases cs) (simp_all add: hexEncode_def)
next
  case (Cons b bs)
  have byte: "hexDigit (of_char x div 16) = hexDigit (of_char y div 16) \<and> hexDigit (of_char x) = hexDigit (of_char y) \<longleftrightarrow> x = y" for x y :: char
  proof -
    have lt: "(of_char x :: nat) div 16 < 16" "(of_char y :: nat) div 16 < 16"
      using nat_of_char_less_256[of x] nat_of_char_less_256[of y] by (simp_all only: less_mult_imp_div_less[of _ 16 16, simplified])
    have "(of_char x :: nat) = of_char y \<longleftrightarrow> of_char x div 16 = (of_char y :: nat) div 16 \<and> of_char x mod 16 = (of_char y :: nat) mod 16"
      by (metis div_mult_mod_eq)
    then show ?thesis using lt by (simp add: hexDigit_inj del: div_less_iff_less_mult)
  qed
  show ?case
  proof (cases cs)
    case (Cons c ds)
    then show ?thesis using Cons.IH[of ds] byte[of b c] by (auto simp: hexEncode_def)
  qed (simp add: hexEncode_def)
qed

end
