(* ===== verification/Discoverz.thy ===== *)
theory Discoverz
  imports GoFlag GoHex
begin

text \<open>
  The program \<open>discoverz/discoverz.go\<close>: clients find the servers of a local network with a packet to a
  multicast address, which every server answers with a packet about itself. The encoding of the messages as
  JSON and the network are arguments.
\<close>

section \<open>Network interfaces\<close>

text \<open>An address is a sequence of bytes, and empty for \<open>nil\<close>; the addresses of an interface, or \<open>None\<close>
  for an error.\<close>

datatype net_addr = IPNet string | IPAddr string | OtherAddr

record iface =
  ifName :: string
  ifUp :: bool
  ifLoopback :: bool
  ifAddrs :: "net_addr list option"
  ifMAC :: string

text \<open>Methods of \<open>net.IP\<close>: the four bytes of an IPv4 address, also of one that is embedded in 16 bytes.\<close>

definition To4 :: "string \<Rightarrow> string option" where
  "To4 ip = (if length ip = 4 then Some ip
     else if length ip = 16 \<and> take 10 ip = replicate 10 (CHR 0x00) \<and> take 2 (drop 10 ip) = [CHR 0xFF, CHR 0xFF] then Some (drop 12 ip)
     else None)"

definition IsLoopback :: "string \<Rightarrow> bool" where
  "IsLoopback ip4 \<longleftrightarrow> ip4 ! 0 = char_of (127 :: nat)"

definition IsLinkLocalUnicast :: "string \<Rightarrow> bool" where
  "IsLinkLocalUnicast ip4 \<longleftrightarrow> ip4 ! 0 = char_of (169 :: nat) \<and> ip4 ! 1 = char_of (254 :: nat)"

definition showIPv4 :: "string \<Rightarrow> string" where
  "showIPv4 ip4 = Join ''.'' (map (\<lambda>b. digits (of_char b)) ip4)"

fun addrIP :: "net_addr \<Rightarrow> string option" where
  "addrIP (IPNet ip) = Some ip"
| "addrIP (IPAddr ip) = Some ip"
| "addrIP OtherAddr = None"

fun hasIPv4 :: "net_addr list \<Rightarrow> bool" where
  "hasIPv4 [] = False"
| "hasIPv4 (addr # addrs) =
    (if (case addrIP addr of None \<Rightarrow> False | Some ip \<Rightarrow> To4 ip \<noteq> None) then True else hasIPv4 addrs)"

fun keepIPv4 :: "iface list \<Rightarrow> iface list" where
  "keepIPv4 [] = []"
| "keepIPv4 (i # is) =
    (if \<not> ifUp i \<or> ifLoopback i then keepIPv4 is
     else (case ifAddrs i of
         None \<Rightarrow> keepIPv4 is
       | Some addrs \<Rightarrow> if \<not> hasIPv4 addrs then keepIPv4 is else i # keepIPv4 is))"

text \<open>The argument is the result of \<open>net.Interfaces\<close>, an error of which ends the program.\<close>

definition listIPv4Interfaces :: "iface list option \<Rightarrow> iface list option" where
  "listIPv4Interfaces ifaces = (case ifaces of None \<Rightarrow> None | Some is \<Rightarrow> Some (keepIPv4 is))"

text \<open>\<open>getLocalIPv4Addr\<close>; \<open>None\<close> is its error.\<close>

fun firstUsable :: "net_addr list \<Rightarrow> string option" where
  "firstUsable [] = None"
| "firstUsable (addr # addrs) =
    (case addrIP addr of
       None \<Rightarrow> firstUsable addrs
     | Some ip \<Rightarrow> (case To4 ip of
         None \<Rightarrow> firstUsable addrs
       | Some ip4 \<Rightarrow> if IsLoopback ip4 \<or> IsLinkLocalUnicast ip4 then firstUsable addrs else Some ip4))"

definition getLocalIPv4Addr :: "iface \<Rightarrow> string option" where
  "getLocalIPv4Addr i = (case ifAddrs i of None \<Rightarrow> None | Some addrs \<Rightarrow> firstUsable addrs)"

section \<open>Messages\<close>

record message =
  mType :: string
  mMessage :: string

definition MessageTypeDiscovery :: string where
  "MessageTypeDiscovery = ''discovery''"

definition MessageTypeStatus :: string where
  "MessageTypeStatus = ''status''"

record status_message =
  stTimestamp :: int
  stHostname :: string
  stMAC :: string
  stIPv4 :: string
  stOS :: string
  stRunID :: string
  stUptimeSeconds :: rat
  stUptime :: string
  stPacketCount :: int
  stCustomMessage :: string

text \<open>\<open>json.Marshal\<close> and \<open>json.Unmarshal\<close> at the types of the program; \<open>None\<close> is an error.\<close>

record codec =
  encMessage :: "message \<Rightarrow> string option"
  decMessage :: "string \<Rightarrow> message option"
  encStatus :: "status_message \<Rightarrow> string option"
  decStatus :: "string \<Rightarrow> status_message option"
  encDiscovery :: "int \<Rightarrow> string option"

definition newMessage :: "string \<Rightarrow> string option \<Rightarrow> message option" where
  "newMessage msgType msg = (case msg of None \<Rightarrow> None | Some msgBytes \<Rightarrow> Some \<lparr>mType = msgType, mMessage = msgBytes\<rparr>)"

text \<open>Durations in nanoseconds: \<open>Seconds\<close>, and \<open>Round(time.Second).String()\<close> for those that are not negative.\<close>

definition durationSeconds :: "int \<Rightarrow> rat" where
  "durationSeconds d = float64 (float64 (of_int (d div 1000000000)) + float64 (float64 (of_int (d mod 1000000000)) / 1000000000))"

definition roundedSeconds :: "int \<Rightarrow> nat" where
  "roundedSeconds d = nat (if 2 * (d mod 1000000000) < 1000000000 then d div 1000000000 else d div 1000000000 + 1)"

definition showSeconds :: "nat \<Rightarrow> string" where
  "showSeconds s = (if 3600 \<le> s then digits (s div 3600) @ ''h'' else []) @
     (if 60 \<le> s then digits (s div 60 mod 60) @ ''m'' else []) @ digits (s mod 60) @ ''s''"

section \<open>The server\<close>

definition bufSize :: nat where
  "bufSize = 1024"

text \<open>A read from the socket: an error, or a datagram and its sender. What does not fit the buffer is lost.\<close>

datatype 'a udp_read = ReadFails | Datagram string 'a

text \<open>What a server knows before its loop.\<close>

record server_data =
  svIface :: iface
  svStarted :: int
  svHostname :: string
  svLocalAddr :: string
  svOsArch :: string
  svRunID :: string
  svCustomMessage :: string

definition statusOf :: "server_data \<Rightarrow> int \<Rightarrow> int \<Rightarrow> status_message" where
  "statusOf d now packetCount = (let uptime = now - svStarted d in
    \<lparr>stTimestamp = now, stHostname = svHostname d, stMAC = ifMAC (svIface d), stIPv4 = showIPv4 (svLocalAddr d), stOS = svOsArch d,
     stRunID = svRunID d, stUptimeSeconds = durationSeconds uptime, stUptime = showSeconds (roundedSeconds uptime),
     stPacketCount = packetCount, stCustomMessage = svCustomMessage d\<rparr>)"

text \<open>One round of the loop: the new count of packets and what is sent, or \<open>None\<close> if the program ends because
  a message cannot be encoded. That a packet cannot be sent is only logged.\<close>

definition serverRound :: "codec \<Rightarrow> server_data \<Rightarrow> int \<Rightarrow> 'a udp_read \<Rightarrow> int \<Rightarrow> (int \<times> (string \<times> 'a) list) option" where
  "serverRound c d now r packetCount = (case r of
     ReadFails \<Rightarrow> Some (packetCount, [])
   | Datagram packet remoteAddr \<Rightarrow>
       (let packetCount = packetCount + 1 in
        case decMessage c (take bufSize packet) of
          None \<Rightarrow> Some (packetCount, [])
        | Some m \<Rightarrow>
            if mType m = MessageTypeDiscovery then do {
              response \<leftarrow> newMessage MessageTypeStatus (encStatus c (statusOf d now packetCount));
              responseBytes \<leftarrow> encMessage c response;
              Some (packetCount, [(responseBytes, remoteAddr)]) }
            else Some (packetCount, [])))"

text \<open>The loop over the reads that have happened, each with its time.\<close>

fun serverLoop :: "codec \<Rightarrow> server_data \<Rightarrow> (int \<times> 'a udp_read) list \<Rightarrow> int \<Rightarrow> (int \<times> (string \<times> 'a) list) option" where
  "serverLoop c d [] packetCount = Some (packetCount, [])"
| "serverLoop c d ((now, r) # rs) packetCount = do {
     (packetCount, out) \<leftarrow> serverRound c d now r packetCount;
     (packetCount, outs) \<leftarrow> serverLoop c d rs packetCount;
     Some (packetCount, out @ outs) }"

text \<open>What the operating system offers: sockets that can be opened or not, interfaces by name, the clock, the
  name of the host, random bytes.\<close>

record 'a os_env =
  osListens :: bool
  osIface :: "string \<Rightarrow> iface option"
  osJoins :: bool
  osHostname :: "string option"
  osArch :: string
  osRandom :: "nat \<Rightarrow> string option"
  osNow :: int
  osResolve :: "string \<Rightarrow> 'a option"
  osWrites :: bool

definition getHostname :: "'a os_env \<Rightarrow> string" where
  "getHostname e = (case osHostname e of None \<Rightarrow> [] | Some h \<Rightarrow> h)"

definition getUID :: "'a os_env \<Rightarrow> nat \<Rightarrow> string option" where
  "getUID e nBytes = (case osRandom e nBytes of None \<Rightarrow> None | Some b \<Rightarrow> Some (hexEncode b))"

text \<open>The beginning of \<open>runServer\<close>; \<open>None\<close> is the end of the program with an error.\<close>

definition startServer :: "'a os_env \<Rightarrow> string \<Rightarrow> string \<Rightarrow> server_data option" where
  "startServer e ifaceName customMessage = do {
     _ \<leftarrow> (if osListens e then Some () else None);
     iface \<leftarrow> osIface e ifaceName;
     _ \<leftarrow> (if osJoins e then Some () else None);
     localAddr \<leftarrow> getLocalIPv4Addr iface;
     runID \<leftarrow> getUID e 8;
     Some \<lparr>svIface = iface, svStarted = osNow e, svHostname = getHostname e, svLocalAddr = localAddr,
       svOsArch = osArch e, svRunID = runID, svCustomMessage = customMessage\<rparr> }"

definition runServer :: "codec \<Rightarrow> 'a os_env \<Rightarrow> string \<Rightarrow> string \<Rightarrow> (int \<times> 'a udp_read) list \<Rightarrow> (int \<times> (string \<times> 'a) list) option" where
  "runServer c e ifaceName customMessage rs = do {
     d \<leftarrow> startServer e ifaceName customMessage;
     serverLoop c d rs 0 }"

section \<open>The client\<close>

text \<open>The packet that is sent.\<close>

definition discoveryPacket :: "codec \<Rightarrow> int \<Rightarrow> string option" where
  "discoveryPacket c now = do {
     message \<leftarrow> newMessage MessageTypeDiscovery (encDiscovery c now);
     encMessage c message }"

text \<open>A datagram that has been read: what is printed for it.\<close>

definition clientPrints :: "codec \<Rightarrow> string \<Rightarrow> 'a \<Rightarrow> ('a \<times> status_message) list" where
  "clientPrints c packet remoteAddr = (case decMessage c (take bufSize packet) of
     None \<Rightarrow> []
   | Some m \<Rightarrow>
       if mType m = MessageTypeStatus then
         (case decStatus c (mMessage m) of None \<Rightarrow> [] | Some s \<Rightarrow> [(remoteAddr, s)])
       else [])"

text \<open>The loop; each round with the time of its test. A read that fails or takes too long ends it.\<close>

fun clientLoop :: "codec \<Rightarrow> int \<Rightarrow> (int \<times> 'a udp_read) list \<Rightarrow> ('a \<times> status_message) list" where
  "clientLoop c deadline [] = []"
| "clientLoop c deadline ((now, r) # rs) =
    (if now < deadline then
       (case r of ReadFails \<Rightarrow> []
        | Datagram packet remoteAddr \<Rightarrow> clientPrints c packet remoteAddr @ clientLoop c deadline rs)
     else [])"

text \<open>\<open>runClient\<close>: the packet that is sent with its address, and what is printed.\<close>

definition runClient :: "codec \<Rightarrow> 'a os_env \<Rightarrow> string \<Rightarrow> string \<Rightarrow> int \<Rightarrow> int \<Rightarrow> (int \<times> 'a udp_read) list \<Rightarrow>
    ((string \<times> 'a) \<times> ('a \<times> status_message) list) option" where
  "runClient c e ifaceName multicastAddr port timeout rs = do {
     addr \<leftarrow> osResolve e (multicastAddr @ '':'' @ showInt port);
     iface \<leftarrow> osIface e ifaceName;
     localAddr \<leftarrow> getLocalIPv4Addr iface;
     _ \<leftarrow> (if osListens e then Some () else None);
     messageBytes \<leftarrow> discoveryPacket c (osNow e);
     _ \<leftarrow> (if osWrites e then Some () else None);
     Some ((messageBytes, addr), clientLoop c (osNow e + timeout) rs) }"

section \<open>The program\<close>

text \<open>The flags with their defaults, and what the program does; an error that ends it is \<open>None\<close>.\<close>

record discoverz_flags =
  fIface :: string
  fServer :: bool
  fMulticastAddr :: string
  fPort :: int
  fTimeout :: int
  fCustomMessage :: string
  fListIfaces :: bool
  fDebug :: bool

definition discoverzDefaults :: discoverz_flags where
  "discoverzDefaults = \<lparr>fIface = [], fServer = False, fMulticastAddr = ''239.36.36.36'', fPort = 12345, fTimeout = 1000000000,
     fCustomMessage = [], fListIfaces = False, fDebug = False\<rparr>"

definition discoverzFlags :: "discoverz_flags flag list" where
  "discoverzFlags = [StringVar ''iface'' (\<lambda>v f. f\<lparr>fIface := v\<rparr>), BoolVar ''server'' (\<lambda>b f. f\<lparr>fServer := b\<rparr>),
     StringVar ''multicast-addr'' (\<lambda>v f. f\<lparr>fMulticastAddr := v\<rparr>), IntVar ''port'' (\<lambda>n f. f\<lparr>fPort := n\<rparr>),
     DurationVar ''timeout'' (\<lambda>d f. f\<lparr>fTimeout := d\<rparr>), StringVar ''custom-message'' (\<lambda>v f. f\<lparr>fCustomMessage := v\<rparr>),
     BoolVar ''list-ifaces'' (\<lambda>b f. f\<lparr>fListIfaces := b\<rparr>), BoolVar ''debug'' (\<lambda>b f. f\<lparr>fDebug := b\<rparr>)]"

datatype discoverz_action =
    PrintInterfaces "iface list" | StartServer string string int string | StartClient string string int int

definition chooseInterface :: "string \<Rightarrow> iface list option \<Rightarrow> string option" where
  "chooseInterface ifaceName interfaces =
    (if ifaceName = [] then do {
       ifaces \<leftarrow> listIPv4Interfaces interfaces;
       if length ifaces = 1 then Some (ifName (ifaces ! 0)) else None }
     else Some ifaceName)"

definition discoverz_main :: "discoverz_flags \<Rightarrow> iface list option \<Rightarrow> discoverz_action option" where
  "discoverz_main f interfaces =
    (if fListIfaces f then map_option PrintInterfaces (listIPv4Interfaces interfaces)
     else do {
       ifaceName \<leftarrow> chooseInterface (fIface f) interfaces;
       Some (if fServer f then StartServer ifaceName (fMulticastAddr f) (fPort f) (fCustomMessage f)
         else StartClient ifaceName (fMulticastAddr f) (fPort f) (fTimeout f)) })"

definition discoverzProgram :: "string list \<Rightarrow> iface list option \<Rightarrow> flag_error + discoverz_action option" where
  "discoverzProgram args interfaces = (case parseFlags discoverzFlags args discoverzDefaults of
     Inl e \<Rightarrow> Inl e | Inr (f, rest) \<Rightarrow> Inr (discoverz_main f interfaces))"

end
