(* ===== verification/DiscoverzProps.thy ===== *)
theory DiscoverzProps
  imports Discoverz GoRunes
begin

text \<open>
  What servers and clients of \<open>discoverz\<close> do together: every discovery is answered once by every server,
  answers are never answered, and a client prints the answers that fit its buffer.
\<close>

section \<open>What the programs rely on\<close>

text \<open>Messages that survive JSON: strings in valid UTF-8, times before the year 10000, 64-bit counters. For
  those, what has been encoded can be decoded, and as an encoded object ends with its closing brace, nothing
  shorter can. Nothing is assumed of other strings, in which \<open>encoding/json\<close> replaces the invalid bytes.\<close>

definition time_ok :: "int \<Rightarrow> bool" where
  "time_ok t \<longleftrightarrow> 0 \<le> t \<and> t < 253402300800 * 1000000000"

definition status_plain :: "status_message \<Rightarrow> bool" where
  "status_plain s \<longleftrightarrow>
     list_all ValidString [stHostname s, stMAC s, stIPv4 s, stOS s, stRunID s, stUptime s, stCustomMessage s] \<and>
     time_ok (stTimestamp s) \<and> 0 \<le> stPacketCount s \<and> stPacketCount s < 2 ^ 63 \<and>
     (\<exists>d. 0 \<le> d \<and> stUptimeSeconds s = durationSeconds d)"

definition carried :: "codec \<Rightarrow> message \<Rightarrow> string \<Rightarrow> bool" where
  "carried c m p \<longleftrightarrow> encMessage c m = Some p \<and> decMessage c p = Some m \<and> (\<forall>n < length p. decMessage c (take n p) = None)"

definition codec_ok :: "codec \<Rightarrow> bool" where
  "codec_ok c \<longleftrightarrow>
     (\<forall>s. status_plain s \<longrightarrow> (\<exists>b p. encStatus c s = Some b \<and> decStatus c b = Some s \<and> carried c \<lparr>mType = MessageTypeStatus, mMessage = b\<rparr> p)) \<and>
     (\<forall>t. time_ok t \<longrightarrow> (\<exists>b p. encDiscovery c t = Some b \<and> carried c \<lparr>mType = MessageTypeDiscovery, mMessage = b\<rparr> p \<and> length p \<le> bufSize))"

text \<open>A server whose name, hardware address, system and message are valid UTF-8. What it adds to a status is
  plain text by itself: the digits of its address, of its random id and of its uptime.\<close>

definition server_plain :: "server_data \<Rightarrow> bool" where
  "server_plain d \<longleftrightarrow> ValidString (svHostname d) \<and> ValidString (ifMAC (svIface d)) \<and> ValidString (svOsArch d) \<and>
     ValidString (svCustomMessage d)"

definition hexID :: "server_data \<Rightarrow> bool" where
  "hexID d \<longleftrightarrow> (\<exists>bs. svRunID d = hexEncode bs)"

lemma startServer_hexID: "startServer e ifaceName msg = Some d \<Longrightarrow> hexID d"
  by (auto simp: startServer_def hexID_def getUID_def split: Option.bind_splits option.splits if_splits)

definition plain_char :: "char \<Rightarrow> bool" where
  "plain_char c \<longleftrightarrow> byte c < 128"

lemma plain_chars: "\<forall>c \<in> set s. plain_char c \<Longrightarrow> ValidString s"
  by (rule ValidString_ascii) (simp add: plain_char_def)

lemma digits_plain: "\<forall>c \<in> set (digits n). plain_char c"
proof (induction n rule: digits.induct)
  case (1 n)
  have "plain_char (char_of (48 + m mod 10))" for m :: nat
  proof -
    have "48 + m mod 10 < 128" using mod_less_divisor[of 10 m] by linarith
    then show ?thesis by (simp add: plain_char_def byte_def del: mod_less_divisor)
  qed
  from this[of n] 1 show ?case by (subst digits.simps) auto
qed

lemma Join_plain: "\<forall>c \<in> set sep. plain_char c \<Longrightarrow> \<forall>x \<in> set xs. \<forall>c \<in> set x. plain_char c \<Longrightarrow>
    \<forall>c \<in> set (Join sep xs). plain_char c"
  by (induction sep xs rule: Join.induct) auto

lemma showIPv4_valid: "ValidString (showIPv4 ip)"
  unfolding showIPv4_def using digits_plain by (intro plain_chars Join_plain) (auto simp: plain_char_def byte_def)

lemma showSeconds_valid: "ValidString (showSeconds s)"
  using digits_plain by (intro plain_chars) (auto simp: showSeconds_def plain_char_def byte_def split: if_splits)

lemma hexEncode_valid: "ValidString (hexEncode bs)"
proof (rule plain_chars)
  have "lowerHex c \<Longrightarrow> plain_char c" for c by (auto simp: lowerHex_def plain_char_def byte_def)
  then show "\<forall>c \<in> set (hexEncode bs). plain_char c" using hexEncode_lower by blast
qed

text \<open>The packet a server sends with a status.\<close>

definition statusPacket :: "codec \<Rightarrow> status_message \<Rightarrow> string" where
  "statusPacket c s = (case encStatus c s of None \<Rightarrow> [] | Some b \<Rightarrow>
     (case encMessage c \<lparr>mType = MessageTypeStatus, mMessage = b\<rparr> of None \<Rightarrow> [] | Some p \<Rightarrow> p))"

lemma status_plain_statusOf:
  assumes "server_plain d" "hexID d" "time_ok now" "svStarted d \<le> now" "0 \<le> k" "k < 2 ^ 63"
  shows "status_plain (statusOf d now k)"
  using assms showIPv4_valid showSeconds_valid hexEncode_valid
  by (auto simp: status_plain_def server_plain_def hexID_def statusOf_def Let_def intro!: exI[of _ "now - svStarted d"])

lemma carried_status:
  assumes "codec_ok c" "status_plain s"
  obtains b where "encStatus c s = Some b" "decStatus c b = Some s"
    "carried c \<lparr>mType = MessageTypeStatus, mMessage = b\<rparr> (statusPacket c s)"
  using assms unfolding codec_ok_def statusPacket_def carried_def by fastforce

lemma types_differ: "MessageTypeStatus \<noteq> MessageTypeDiscovery"
  by (simp add: MessageTypeStatus_def MessageTypeDiscovery_def)

text \<open>What is read of a packet: all of it, or something that cannot be decoded.\<close>

lemma carried_read:
  "carried c m p \<Longrightarrow> decMessage c (take bufSize p) = (if length p \<le> bufSize then Some m else None)"
  by (auto simp: carried_def)

section \<open>The server\<close>

definition asks :: "codec \<Rightarrow> string \<Rightarrow> bool" where
  "asks c packet \<longleftrightarrow> (\<exists>m. decMessage c (take bufSize packet) = Some m \<and> mType m = MessageTypeDiscovery)"

lemma serverRound_asks:
  assumes "codec_ok c" "status_plain (statusOf d now (k + 1))" "asks c packet"
  shows "serverRound c d now (Datagram packet a) k = Some (k + 1, [(statusPacket c (statusOf d now (k + 1)), a)])"
proof -
  obtain b where "encStatus c (statusOf d now (k + 1)) = Some b"
    "encMessage c \<lparr>mType = MessageTypeStatus, mMessage = b\<rparr> = Some (statusPacket c (statusOf d now (k + 1)))"
    using carried_status[OF assms(1,2)] unfolding carried_def by metis
  with assms(3) show ?thesis by (auto simp: serverRound_def asks_def newMessage_def Let_def)
qed

lemma serverRound_other:
  "\<not> asks c packet \<Longrightarrow> serverRound c d now (Datagram packet a) k = Some (k + 1, [])"
  by (auto simp: serverRound_def asks_def Let_def split: option.splits)

text \<open>Answers are not answered, whatever part of them asRead.\<close>

lemma answer_asks_not:
  assumes "codec_ok c" "status_plain s" shows "\<not> asks c (statusPacket c s)"
  using carried_status[OF assms] types_differ by (metis asks_def carried_read message.select_convs(1) option.distinct(1) option.inject)

definition datagrams :: "(int \<times> 'a udp_read) list \<Rightarrow> int" where
  "datagrams rs = int (length (filter (\<lambda>(_, r). r \<noteq> ReadFails) rs))"

text \<open>The answers in terms of what has been read: one to every packet that asks, with the number of packets so far.\<close>

fun answerAt :: "codec \<Rightarrow> server_data \<Rightarrow> (int \<times> 'a udp_read) list \<Rightarrow> nat \<Rightarrow> (string \<times> 'a) list" where
  "answerAt c d rs i = (case rs ! i of
     (now, Datagram packet a) \<Rightarrow>
       if asks c packet then [(statusPacket c (statusOf d now (datagrams (take (Suc i) rs))), a)] else []
   | (now, ReadFails) \<Rightarrow> [])"

declare answerAt.simps [simp del]

definition times_ok :: "server_data \<Rightarrow> (int \<times> 'a udp_read) list \<Rightarrow> bool" where
  "times_ok d rs \<longleftrightarrow> (\<forall>(now, r) \<in> set rs. time_ok now \<and> svStarted d \<le> now) \<and> int (length rs) < 2 ^ 63"

lemma datagrams_snoc: "datagrams (rs @ [(now, r)]) = datagrams rs + (if r = ReadFails then 0 else 1)"
  by (simp add: datagrams_def)

lemma datagrams_bounds: "0 \<le> datagrams rs" "datagrams rs \<le> int (length rs)"
  by (simp_all add: datagrams_def)

lemma serverLoop_snoc:
  "serverLoop c d (rs @ [(now, r)]) k = do {
     (k, outs) \<leftarrow> serverLoop c d rs k;
     (k, out) \<leftarrow> serverRound c d now r k;
     Some (k, outs @ out) }"
proof (induction rs arbitrary: k)
  case Nil
  show ?case by (cases "serverRound c d now r k") auto
next
  case (Cons x rs)
  obtain t y where x: "x = (t, y)" by (cases x)
  show ?case
  proof (cases "serverRound c d t y k")
    case (Some z)
    then show ?thesis unfolding x by (cases z; cases "serverLoop c d rs (fst z)"; cases "serverRound c d now r (fst (the (serverLoop c d rs (fst z))))")
      (auto simp: Cons.IH)
  qed (simp add: x)
qed

lemma serverLoop_answers:
  assumes "codec_ok c" "server_plain d" "hexID d" "times_ok d rs"
  shows "serverLoop c d rs 0 = Some (datagrams rs, concat (map (answerAt c d rs) [0..<length rs]))"
  using assms(4)
proof (induction rs rule: rev_induct)
  case Nil
  show ?case by (simp add: datagrams_def)
next
  case (snoc x rs)
  obtain now r where x: "x = (now, r)" by (cases x)
  from snoc.prems have ok: "times_ok d rs" "time_ok now" "svStarted d \<le> now" "int (length rs) + 1 < 2 ^ 63"
    by (auto simp: times_ok_def x)
  have old: "map (answerAt c d (rs @ [x])) [0..<length rs] = map (answerAt c d rs) [0..<length rs]"
  proof (rule map_cong[OF refl])
    fix i assume "i \<in> set [0..<length rs]"
    then have "i < length rs" by simp
    moreover from this have "take (Suc i) (rs @ [x]) = take (Suc i) rs" by simp
    ultimately show "answerAt c d (rs @ [x]) i = answerAt c d rs i" 
      by (cases "rs ! i"; cases "snd (rs ! i)") (simp_all add: answerAt.simps nth_append del: take_append)
  qed
  have "0 \<le> datagrams rs + 1" "datagrams rs + 1 < 2 ^ 63" using datagrams_bounds[of rs] ok(4) by simp_all
  then have plain: "status_plain (statusOf d now (datagrams rs + 1))" by (rule status_plain_statusOf[OF assms(2,3) ok(2,3)])
  have "serverRound c d now r (datagrams rs) = Some (datagrams (rs @ [x]), answerAt c d (rs @ [x]) (length rs))"
  proof (cases r)
    case ReadFails
    then show ?thesis by (simp add: serverRound_def x datagrams_snoc answerAt.simps)
  next
    case (Datagram packet a)
    then show ?thesis using serverRound_asks[OF assms(1) plain, of packet a] serverRound_other[of c packet d now a]
      by (cases "asks c packet") (simp_all add: x datagrams_snoc answerAt.simps)
  qed
  moreover have "concat (map (answerAt c d (rs @ [x])) [0..<length rs]) = concat (map (answerAt c d rs) [0..<length rs])"
    by (rule arg_cong[OF old])
  ultimately show ?case using snoc.IH[OF ok(1)] by (simp add: x serverLoop_snoc del: map_eq_conv)
qed

text \<open>C34. A server that has started, with a name and message in valid UTF-8, goes on for all packets it
  reads, whatever is in them: it counts them, answers each that asks with exactly one status to its
  sender, with the number of packets so far, and nothing else. Answers do not ask: no server answers one,
  whether it fits the buffer or not, so servers that hear each other do not send forever.\<close>

theorem server_answers_discoveries:
  assumes "codec_ok c" "startServer e ifaceName msg = Some d" "server_plain d" "times_ok d rs"
  shows "runServer c e ifaceName msg rs = Some (datagrams rs, concat (map (answerAt c d rs) [0..<length rs])) \<and>
    (\<forall>(p, a) \<in> set (concat (map (answerAt c d rs) [0..<length rs])).
      \<forall>d' now k b. serverRound c d' now (Datagram p b) k = Some (k + 1, []))"
proof
  show "runServer c e ifaceName msg rs = Some (datagrams rs, concat (map (answerAt c d rs) [0..<length rs]))"
    using serverLoop_answers[OF assms(1,3) startServer_hexID[OF assms(2)] assms(4)] assms(2) by (simp add: runServer_def)
next
  have "\<not> asks c p" if "i < length rs" and p: "(p, a) \<in> set (answerAt c d rs i)" for i p a
  proof -
    obtain now packet where r: "rs ! i = (now, Datagram packet a)" "p = statusPacket c (statusOf d now (datagrams (take (Suc i) rs)))"
      using p by (cases "rs ! i"; cases "snd (rs ! i)") (auto simp: answerAt.simps split: if_splits)
    have "time_ok now \<and> svStarted d \<le> now" using nth_mem[OF that(1)] assms(4) unfolding r(1) times_ok_def by blast
    moreover have "0 \<le> datagrams (take (Suc i) rs)" "datagrams (take (Suc i) rs) < 2 ^ 63"
      using datagrams_bounds[of "take (Suc i) rs"] assms(4) that(1) by (simp_all add: times_ok_def)
    ultimately have "status_plain (statusOf d now (datagrams (take (Suc i) rs)))" using status_plain_statusOf[OF assms(3) startServer_hexID[OF assms(2)]] by blast
    then show ?thesis unfolding r(2) by (rule answer_asks_not[OF assms(1)])
  qed
  then show "\<forall>(p, a) \<in> set (concat (map (answerAt c d rs) [0..<length rs])).
      \<forall>d' now k b. serverRound c d' now (Datagram p b) k = Some (k + 1, [])"
    using serverRound_other by fastforce
qed


section \<open>The client\<close>

lemma clientPrints_status:
  assumes "codec_ok c" "status_plain s"
  shows "clientPrints c (statusPacket c s) a = (if length (statusPacket c s) \<le> bufSize then [(a, s)] else [])"
proof -
  obtain b where "encStatus c s = Some b" "decStatus c b = Some s"
    "carried c \<lparr>mType = MessageTypeStatus, mMessage = b\<rparr> (statusPacket c s)" using carried_status[OF assms] .
  then show ?thesis by (simp add: clientPrints_def carried_read)
qed

lemma clientLoop_until:
  "(\<forall>(now, r) \<in> set rs. now < deadline \<and> r \<noteq> ReadFails) \<Longrightarrow>
    clientLoop c deadline (rs @ rest) = concat (map (\<lambda>(now, r). case r of Datagram packet a \<Rightarrow> clientPrints c packet a | ReadFails \<Rightarrow> []) rs) @
      clientLoop c deadline rest"
  by (induction rs) (auto split: udp_read.splits)

text \<open>The client ends when a read fails or the deadline is over.\<close>

lemma clientLoop_ends: "clientLoop c deadline ((now, r) # rs) = [] \<or> now < deadline \<and> r \<noteq> ReadFails"
  by (auto split: udp_read.splits)

text \<open>A server on the network: its data, the packets it has counted, when it gets the discovery, its address.\<close>

record 'a node =
  ndData :: server_data
  ndCount :: int
  ndTime :: int
  ndAddr :: 'a

definition node_ok :: "'a node \<Rightarrow> bool" where
  "node_ok n \<longleftrightarrow> server_plain (ndData n) \<and> hexID (ndData n) \<and> time_ok (ndTime n) \<and> svStarted (ndData n) \<le> ndTime n \<and> 0 \<le> ndCount n \<and> ndCount n < 2 ^ 63 - 1"

definition nodeStatus :: "'a node \<Rightarrow> status_message" where
  "nodeStatus n = statusOf (ndData n) (ndTime n) (ndCount n + 1)"

lemma nodeStatus_plain: "node_ok n \<Longrightarrow> status_plain (nodeStatus n)"
  unfolding nodeStatus_def node_ok_def by (intro status_plain_statusOf) auto

text \<open>What asRead at the client: the answer of a server, or anything else.\<close>

datatype 'a arrival = Answer "'a node" | Other string 'a

fun asRead :: "codec \<Rightarrow> 'a arrival \<Rightarrow> 'a udp_read" where
  "asRead c (Answer n) = Datagram (statusPacket c (nodeStatus n)) (ndAddr n)"
| "asRead c (Other p a) = Datagram p a"

text \<open>Other packets have no status in what the buffer holds of them.\<close>

definition noStatus :: "codec \<Rightarrow> string \<Rightarrow> bool" where
  "noStatus c p \<longleftrightarrow> (case decMessage c (take bufSize p) of
     None \<Rightarrow> True | Some m \<Rightarrow> mType m \<noteq> MessageTypeStatus \<or> decStatus c (mMessage m) = None)"

fun arrival_ok :: "codec \<Rightarrow> 'a arrival \<Rightarrow> bool" where
  "arrival_ok c (Answer n) = node_ok n"
| "arrival_ok c (Other p a) = noStatus c p"

text \<open>The servers found: those whose answers fit.\<close>

fun printedFor :: "codec \<Rightarrow> 'a arrival \<Rightarrow> ('a \<times> status_message) option" where
  "printedFor c (Answer n) = (if length (statusPacket c (nodeStatus n)) \<le> bufSize then Some (ndAddr n, nodeStatus n) else None)"
| "printedFor c (Other p a) = None"

lemma clientLoop_arrivals:
  assumes "codec_ok c" "length ts = length xs" "\<forall>t \<in> set ts. t < deadline" "\<forall>x \<in> set xs. arrival_ok c x"
  shows "clientLoop c deadline (zip ts (map (asRead c) xs) @ rest) = List.map_filter (printedFor c) xs @ clientLoop c deadline rest"
  using assms(2-)
proof (induction ts xs rule: list_induct2)
  case Nil
  show ?case by (simp add: map_filter_simps)
next
  case (Cons t ts x xs)
  then have IH: "clientLoop c deadline (zip ts (map (asRead c) xs) @ rest) = List.map_filter (printedFor c) xs @ clientLoop c deadline rest"
    by simp
  show ?case
  proof (cases x)
    case (Answer n)
    then have "status_plain (nodeStatus n)" using Cons.prems(2) by (auto intro: nodeStatus_plain)
    from clientPrints_status[OF assms(1) this, of "ndAddr n"] IH Cons.prems(1) show ?thesis by (simp add: Answer map_filter_simps)
  next
    case (Other p a)
    then have "clientPrints c p a = []" using Cons.prems(2) by (auto simp: noStatus_def clientPrints_def split: option.splits)
    with IH Cons.prems(1) show ?thesis by (simp add: Other map_filter_simps)
  qed
qed

text \<open>The end of the reads: one that fails, or the deadline.\<close>

definition endsAt :: "int \<Rightarrow> (int \<times> 'a udp_read) list \<Rightarrow> bool" where
  "endsAt deadline rest \<longleftrightarrow> (case rest of [] \<Rightarrow> True | (now, r) # _ \<Rightarrow> r = ReadFails \<or> deadline \<le> now)"

text \<open>C35. A client that can start sends one packet. Every server that gets it, and whose strings are valid
  UTF-8, answers with one packet. Of the packets that the client reads before a read fails or the deadline
  is over, in any order and with any other packets in between, it prints the status of every answer that is
  at most 1024 bytes long, once, in the order of arrival, as the server has sent it, and nothing for the
  others. A longer answer, as with a long \<open>--custom-message\<close>, is lost without a message.\<close>

theorem discovery_finds_servers:
  fixes e :: "'a os_env" and arrivals :: "'a arrival list"
  assumes "codec_ok c" and "time_ok (osNow e)"
    and "osResolve e (multicastAddr @ '':'' @ showInt port) = Some dest" "osIface e ifaceName = Some i"
      "getLocalIPv4Addr i \<noteq> None" "osListens e" "osWrites e"
    and "\<forall>x \<in> set arrivals. arrival_ok c x" "\<forall>t \<in> set ts. t < osNow e + timeout" "length ts = length arrivals"
    and "endsAt (osNow e + timeout) rest"
  shows "\<exists>p. (\<forall>rs. \<exists>out. runClient c e ifaceName multicastAddr port timeout rs = Some ((p, dest), out)) \<and>
    (\<forall>n :: 'a node. node_ok n \<longrightarrow> serverRound c (ndData n) (ndTime n) (Datagram p client) (ndCount n) =
      Some (ndCount n + 1, [(statusPacket c (nodeStatus n), client)])) \<and>
    runClient c e ifaceName multicastAddr port timeout (zip ts (map (asRead c) arrivals) @ rest) =
      Some ((p, dest), List.map_filter (printedFor c) arrivals)"
proof -
  obtain b p where p: "encDiscovery c (osNow e) = Some b" "carried c \<lparr>mType = MessageTypeDiscovery, mMessage = b\<rparr> p" "length p \<le> bufSize"
    using assms(1,2) unfolding codec_ok_def by blast
  have sent: "discoveryPacket c (osNow e) = Some p" using p(1,2) by (simp add: discoveryPacket_def newMessage_def carried_def)
  have run: "runClient c e ifaceName multicastAddr port timeout rs = Some ((p, dest), clientLoop c (osNow e + timeout) rs)" for rs
    using assms(3-7) sent by (auto simp: runClient_def)
  have "asks c p" unfolding asks_def carried_read[OF p(2)] using p(3) by simp
  then have "node_ok n \<Longrightarrow> serverRound c (ndData n) (ndTime n) (Datagram p client) (ndCount n) =
      Some (ndCount n + 1, [(statusPacket c (nodeStatus n), client)])" for n :: "'a node"
    using serverRound_asks[OF assms(1) nodeStatus_plain[unfolded nodeStatus_def]] by (simp add: nodeStatus_def)
  moreover have "clientLoop c (osNow e + timeout) rest = []"
    using assms(11) by (cases rest) (auto simp: endsAt_def)
  then have "clientLoop c (osNow e + timeout) (zip ts (map (asRead c) arrivals) @ rest) = List.map_filter (printedFor c) arrivals"
    using clientLoop_arrivals[OF assms(1,10,9,8), of rest] by simp
  ultimately show ?thesis by (intro exI[of _ p] conjI allI impI) (simp_all add: run)
qed

text \<open>An answer contains the message of the user, so with a message of more than 1024 bytes a server is
  never found.\<close>

lemma long_message_not_found:
  assumes "codec_ok c" "status_plain s" "length (stCustomMessage s) \<le> length (statusPacket c s)" "bufSize < length (stCustomMessage s)"
  shows "clientPrints c (statusPacket c s) a = []"
  using clientPrints_status[OF assms(1,2)] assms(3,4) by simp

section \<open>Interfaces\<close>

lemma keepIPv4_filter:
  "keepIPv4 is = filter (\<lambda>i. ifUp i \<and> \<not> ifLoopback i \<and> (\<exists>addrs. ifAddrs i = Some addrs \<and> hasIPv4 addrs)) is"
  by (induction "is" rule: keepIPv4.induct) (auto split: option.splits)

lemma hasIPv4_iff: "hasIPv4 addrs \<longleftrightarrow> (\<exists>addr \<in> set addrs. \<exists>ip. addrIP addr = Some ip \<and> To4 ip \<noteq> None)"
  by (induction addrs) (auto split: option.splits)

lemma firstUsable_None:
  "firstUsable addrs = None \<longleftrightarrow> (\<forall>addr \<in> set addrs. \<forall>ip ip4. addrIP addr = Some ip \<longrightarrow> To4 ip = Some ip4 \<longrightarrow> IsLoopback ip4 \<or> IsLinkLocalUnicast ip4)"
  by (induction addrs) (auto split: option.splits)

text \<open>The interface that is chosen without \<open>--iface\<close> may be one that cannot be used: link-local addresses count
  for the choice only.\<close>

lemma chosen_interface_without_address:
  assumes "ifUp i" "\<not> ifLoopback i" "ifAddrs i = Some [IPNet [char_of (169 :: nat), char_of (254 :: nat), CHR 0x01, CHR 0x01]]"
  shows "chooseInterface [] (Some [i]) = Some (ifName i) \<and> getLocalIPv4Addr i = None"
  using assms by (simp add: chooseInterface_def listIPv4Interfaces_def To4_def getLocalIPv4Addr_def IsLinkLocalUnicast_def)


section \<open>An encoding that keeps the rules\<close>

text \<open>Strings one after the other, each character behind an \<open>a\<close> and each string closed by a \<open>b\<close>.\<close>

definition encStr :: "string \<Rightarrow> string" where
  "encStr s = concat (map (\<lambda>x. [CHR ''a'', x]) s) @ ''b''"

fun readStr :: "string \<Rightarrow> (string \<times> string) option" where
  "readStr [] = None"
| "readStr (x # xs) = (if x = CHR ''b'' then Some ([], xs)
     else (case xs of [] \<Rightarrow> None | y # ys \<Rightarrow> map_option (\<lambda>(s, r). (y # s, r)) (readStr ys)))"

fun readStrs :: "nat \<Rightarrow> string \<Rightarrow> string list option" where
  "readStrs 0 x = (if x = [] then Some [] else None)"
| "readStrs (Suc k) x = do { (s, r) \<leftarrow> readStr x; ss \<leftarrow> readStrs k r; Some (s # ss) }"

lemma encStr_simps: "encStr [] = ''b''" "encStr (x # s) = CHR ''a'' # x # encStr s"
  by (simp_all add: encStr_def)

lemma readStr_encStr: "readStr (encStr s @ r) = Some (s, r)"
  by (induction s) (simp_all add: encStr_simps)

lemma readStr_part: "n < length (encStr s) \<Longrightarrow> readStr (take n (encStr s @ r)) = None"
proof (induction s arbitrary: n)
  case (Cons x s)
  show ?case
  proof (cases "n < 2")
    case True
    then show ?thesis by (auto simp: encStr_simps less_2_cases_iff)
  next
    case False
    then obtain m where "n = Suc (Suc m)" by (metis add_2_eq_Suc le_Suc_ex not_less)
    with Cons show ?thesis by (simp add: encStr_simps)
  qed
qed (simp add: encStr_simps)

lemma readStrs_all: "readStrs (length ss) (concat (map encStr ss)) = Some ss"
  by (induction ss) (simp_all add: readStr_encStr)

lemma readStrs_part: "n < length (concat (map encStr ss)) \<Longrightarrow> readStrs (length ss) (take n (concat (map encStr ss))) = None"
proof (induction ss arbitrary: n)
  case (Cons s ss)
  show ?case
  proof (cases "n < length (encStr s)")
    case True
    then show ?thesis using readStr_part[of n s "concat (map encStr ss)"] by simp
  next
    case False
    then obtain m where m: "n = length (encStr s) + m" by (metis le_Suc_ex not_less)
    with Cons.prems Cons.IH[of m] show ?thesis by (simp add: readStr_encStr)
  qed
qed simp

definition unary :: "int \<Rightarrow> string" where
  "unary i = replicate (nat i) (CHR ''1'')"

definition plainCodec :: codec where
  "plainCodec = \<lparr>
     encMessage = (\<lambda>m. Some (concat (map encStr [mType m, mMessage m]))),
     decMessage = (\<lambda>p. case readStrs 2 p of Some [t, b] \<Rightarrow> Some \<lparr>mType = t, mMessage = b\<rparr> | _ \<Rightarrow> None),
     encStatus = (\<lambda>s. Some (concat (map encStr [unary (stTimestamp s), stHostname s, stMAC s, stIPv4 s, stOS s, stRunID s,
       unary (fst (quotient_of (stUptimeSeconds s))), unary (snd (quotient_of (stUptimeSeconds s))), stUptime s,
       unary (stPacketCount s), stCustomMessage s]))),
     decStatus = (\<lambda>b. case readStrs 11 b of
       Some [t, h, m, i, os, r, p, q, u, n, c] \<Rightarrow>
         Some \<lparr>stTimestamp = int (length t), stHostname = h, stMAC = m, stIPv4 = i, stOS = os, stRunID = r,
           stUptimeSeconds = Fract (int (length p)) (int (length q)), stUptime = u, stPacketCount = int (length n), stCustomMessage = c\<rparr>
     | _ \<Rightarrow> None),
     encDiscovery = (\<lambda>t. Some (digits (nat t)))\<rparr>"

lemma length_digits: "n < 10 ^ k \<Longrightarrow> 0 < k \<Longrightarrow> length (digits n) \<le> k"
proof (induction n arbitrary: k rule: digits.induct)
  case (1 n)
  show ?case
  proof (cases "n < 10")
    case False
    then obtain j where j: "k = Suc j" "0 < j" using "1.prems" by (cases k; cases "k - 1") auto
    then have "n div 10 < 10 ^ j" using "1.prems"(1) by (simp add: less_mult_imp_div_less mult.commute)
    from "1.IH"[OF False this j(2)] False j(1) show ?thesis by (simp add: digits.simps[of n])
  qed (use "1.prems"(2) in \<open>simp add: digits.simps[of n]\<close>)
qed

lemma carried_plain: "encMessage plainCodec m = Some p \<Longrightarrow> carried plainCodec m p"
  using readStrs_all[of "[mType m, mMessage m]"] readStrs_part[of _ "[mType m, mMessage m]"]
  by (auto simp: carried_def plainCodec_def numeral_2_eq_2)

lemma float64_nonneg: "0 \<le> float64 x"
  by (auto simp: float64_def pow2_def Let_def split: prod.splits)

lemma plainCodec_ok: "codec_ok plainCodec"
  unfolding codec_ok_def
proof (intro conjI allI impI)
  fix s assume s: "status_plain s"
  let ?ss = "[unary (stTimestamp s), stHostname s, stMAC s, stIPv4 s, stOS s, stRunID s,
       unary (fst (quotient_of (stUptimeSeconds s))), unary (snd (quotient_of (stUptimeSeconds s))), stUptime s,
       unary (stPacketCount s), stCustomMessage s]"
  obtain p q where pq: "quotient_of (stUptimeSeconds s) = (p, q)" by (cases "quotient_of (stUptimeSeconds s)")
  have q: "0 < q" "stUptimeSeconds s = Fract p q"
    using quotient_of_denom_pos[OF pq] quotient_of_div[OF pq] by (simp_all add: Fract_of_int_quotient)
  moreover have "0 \<le> stUptimeSeconds s" using s float64_nonneg by (auto simp: status_plain_def durationSeconds_def)
  ultimately have "0 \<le> p" by (simp add: zero_le_Fract_iff)
  have "readStrs 11 (concat (map encStr ?ss)) = Some ?ss" using readStrs_all[of ?ss] by (simp add: numeral_eq_Suc)
  then have "decStatus plainCodec (concat (map encStr ?ss)) = Some s"
    using s pq q \<open>0 \<le> p\<close> unfolding plainCodec_def by (simp add: unary_def status_plain_def time_ok_def)
  moreover have "encStatus plainCodec s = Some (concat (map encStr ?ss))" by (simp add: plainCodec_def)
  ultimately show "\<exists>b p. encStatus plainCodec s = Some b \<and> decStatus plainCodec b = Some s \<and>
      carried plainCodec \<lparr>mType = MessageTypeStatus, mMessage = b\<rparr> p"
    using carried_plain by (fastforce simp: plainCodec_def)
next
  fix t assume t: "time_ok t"
  then have "length (digits (nat t)) \<le> 21" by (intro length_digits) (auto simp: time_ok_def nat_less_iff)
  moreover have "length (encStr x) = 2 * length x + 1" for x by (induction x) (simp_all add: encStr_simps)
  ultimately have "length (concat (map encStr [MessageTypeDiscovery, digits (nat t)])) \<le> bufSize"
    by (simp add: MessageTypeDiscovery_def bufSize_def)
  then show "\<exists>b p. encDiscovery plainCodec t = Some b \<and> carried plainCodec \<lparr>mType = MessageTypeDiscovery, mMessage = b\<rparr> p \<and> length p \<le> bufSize"
    using carried_plain by (fastforce simp: plainCodec_def)
qed


definition lab_iface :: iface where
  "lab_iface = \<lparr>ifName = ''eth0'', ifUp = True, ifLoopback = False,
     ifAddrs = Some [IPNet [char_of (192 :: nat), char_of (168 :: nat), CHR 0x01, CHR 0x02]], ifMAC = ''02:00:00:00:00:01''\<rparr>"

definition lab_env :: "string os_env" where
  "lab_env = \<lparr>osListens = True, osIface = (\<lambda>_. Some lab_iface), osJoins = True, osHostname = Some ''lab'', osArch = ''linux/amd64'',
     osRandom = (\<lambda>n. Some (replicate n (CHR 0x0F))), osNow = 0, osResolve = (\<lambda>a. Some a), osWrites = True\<rparr>"

definition lab_server :: server_data where
  "lab_server = \<lparr>svIface = lab_iface, svStarted = 0, svHostname = ''lab'',
     svLocalAddr = [char_of (192 :: nat), char_of (168 :: nat), CHR 0x01, CHR 0x02], svOsArch = ''linux/amd64'',
     svRunID = ''0f0f0f0f0f0f0f0f'', svCustomMessage = ''hi''\<rparr>"

lemma lab_starts: "startServer lab_env ''eth0'' ''hi'' = Some lab_server"
  by code_simp

lemma lab_plain: "server_plain lab_server"
  by (simp add: server_plain_def lab_server_def lab_iface_def ValidString_ascii byte_def)


theorem server_answers_discoveries_witness:
  "\<exists>outs. runServer plainCodec lab_env ''eth0'' ''hi'' [(1, ReadFails), (2, Datagram ''junk'' ''x''),
      (3, Datagram (concat (map encStr [MessageTypeDiscovery, ''0''])) ''y'')] = Some (2, outs) \<and> length outs = 1"
proof -
  let ?rs = "[(1 :: int, ReadFails), (2, Datagram ''junk'' ''x''), (3, Datagram (concat (map encStr [MessageTypeDiscovery, ''0''])) ''y'')]"
  have "times_ok lab_server ?rs" by (simp add: times_ok_def time_ok_def lab_server_def)
  from server_answers_discoveries[OF plainCodec_ok lab_starts lab_plain this]
  have run: "runServer plainCodec lab_env ''eth0'' ''hi'' ?rs = Some (datagrams ?rs, concat (map (answerAt plainCodec lab_server ?rs) [0..<length ?rs]))"
    by (rule conjunct1)
  have "\<not> asks plainCodec ''junk''" by (simp add: asks_def plainCodec_def bufSize_def numeral_2_eq_2)
  moreover have "carried plainCodec \<lparr>mType = MessageTypeDiscovery, mMessage = ''0''\<rparr> (concat (map encStr [MessageTypeDiscovery, ''0'']))"
    by (rule carried_plain) (simp add: plainCodec_def)
  then have "asks plainCodec (concat (map encStr [MessageTypeDiscovery, ''0'']))"
    unfolding asks_def by (subst carried_read) (auto simp: bufSize_def encStr_def MessageTypeDiscovery_def)
  ultimately have "length (concat (map (answerAt plainCodec lab_server ?rs) [0..<length ?rs])) = 1"
    by (simp add: answerAt.simps upt_rec[of 0] upt_rec[of 1] upt_rec[of 2])
  with run show ?thesis by (simp add: datagrams_def)
qed

lemma length_encStr: "length (encStr s) = 2 * length s + 1"
  by (induction s) (simp_all add: encStr_simps)

lemma lab_packet_fits: "length (statusPacket plainCodec (statusOf lab_server 0 1)) \<le> bufSize"
proof -
  have "durationSeconds 0 = 0" by (simp add: durationSeconds_def float64_def)
  moreover have "length (showSeconds (roundedSeconds 0)) = 2" by (simp add: showSeconds_def roundedSeconds_def digits.simps)
  moreover have "length (showIPv4 (svLocalAddr lab_server)) = 11" by (simp add: showIPv4_def lab_server_def digits.simps)
  ultimately show ?thesis
    by (simp add: statusPacket_def plainCodec_def statusOf_def Let_def length_encStr unary_def bufSize_def lab_server_def lab_iface_def
        MessageTypeStatus_def)
qed

theorem discovery_finds_servers_witness:
  "\<exists>p s. runClient plainCodec lab_env ''eth0'' ''239.36.36.36'' 12345 1000000000
      [(5, Datagram ''junk'' ''x''), (6, Datagram (statusPacket plainCodec s) ''192.168.1.2''), (1000000000, Datagram ''late'' ''y'')] =
      Some ((p, ''239.36.36.36:'' @ showInt 12345), [(''192.168.1.2'', s)]) \<and> stCustomMessage s = ''hi''"
proof -
  let ?n = "\<lparr>ndData = lab_server, ndCount = 0, ndTime = 0, ndAddr = ''192.168.1.2''\<rparr>"
  let ?g = "''239.36.36.36'' @ '':'' @ showInt 12345"
  have "noStatus plainCodec ''junk''" by (simp add: noStatus_def plainCodec_def bufSize_def numeral_2_eq_2)
  moreover have "node_ok ?n" using lab_plain startServer_hexID[OF lab_starts] by (simp add: node_ok_def time_ok_def lab_server_def)
  ultimately have node: "\<forall>x \<in> set [Other ''junk'' ''x'', Answer ?n]. arrival_ok plainCodec x" by simp
  have env: "time_ok (osNow lab_env)" "osResolve lab_env ?g = Some ?g" "osIface lab_env ''eth0'' = Some lab_iface"
      "getLocalIPv4Addr lab_iface \<noteq> None" "osListens lab_env" "osWrites lab_env"
    by (simp_all add: time_ok_def lab_env_def lab_iface_def getLocalIPv4Addr_def To4_def IsLoopback_def IsLinkLocalUnicast_def)
  have time: "\<forall>t \<in> set [5 :: int, 6]. t < osNow lab_env + 1000000000" "length [5 :: int, 6] = length [Other ''junk'' ''x'', Answer ?n]"
    "endsAt (osNow lab_env + 1000000000) [(1000000000, Datagram ''late'' ''y'')]"
    by (simp_all add: lab_env_def endsAt_def)
  have "nodeStatus ?n = statusOf lab_server 0 1" by (simp add: nodeStatus_def)
  moreover have "stCustomMessage (statusOf lab_server 0 1) = ''hi''" by (simp add: statusOf_def lab_server_def Let_def)
  ultimately show ?thesis
    using discovery_finds_servers[OF plainCodec_ok env node time, where client = "''me''"] lab_packet_fits
    by (elim exE) (auto simp: map_filter_simps intro!: exI[of _ "statusOf lab_server 0 1"])
qed

end
