(* ===== verification/Gosql.thy ===== *)
theory Gosql
  imports GoNumbers GoRunes
begin

text \<open>
  The program \<open>gosql/cmd/gosql/main.go\<close>: a column type that is stored as JSON, a connector that prepares
  every connection, and four commands. Of the database the model has the tables; that any call may fail is
  an argument, and so are JSON and the driver.
\<close>

section \<open>The column type\<close>

text \<open>What a driver hands over.\<close>

datatype driver_value = DText string | DBlob string | DInt int | DReal real | DBool bool | DTime int | DNull

datatype 'e scan_error = UnsupportedSource | DecodeError 'e

text \<open>\<open>Value\<close> stores the text even if there is an error; the caller gets both.\<close>

definition JSON_Value :: "('v \<Rightarrow> string \<times> 'e option) \<Rightarrow> 'v \<Rightarrow> driver_value \<times> 'e option" where
  "JSON_Value marshal v = (case marshal v of (b, err) \<Rightarrow> (DText b, err))"

definition JSON_Scan :: "(string \<Rightarrow> 'e + 'v) \<Rightarrow> driver_value \<Rightarrow> 'e scan_error + 'v" where
  "JSON_Scan unmarshal src =
    (let decode = (\<lambda>b. case unmarshal b of Inl e \<Rightarrow> Inl (DecodeError e) | Inr v \<Rightarrow> Inr v) in
     case src of DText s \<Rightarrow> decode s | DBlob s \<Rightarrow> decode s | _ \<Rightarrow> Inl UnsupportedSource)"

section \<open>The connector\<close>

datatype connector_call = COpen string | CExec string | CClose

datatype 'e connect_error = OpenFails 'e | NoExecer | PragmaFails string 'e

text \<open>The driver: whether it opens a connection, whether that can execute, and the error of a statement.\<close>

record 'e driver =
  drvOpen :: "'e option"
  drvExecer :: bool
  drvExec :: "string \<Rightarrow> 'e option"

fun execPragmas :: "'e driver \<Rightarrow> string list \<Rightarrow> 'e connect_error option \<times> connector_call list" where
  "execPragmas d [] = (None, [])"
| "execPragmas d (p # ps) = (case drvExec d p of
     Some e \<Rightarrow> (Some (PragmaFails p e), [CExec p, CClose])
   | None \<Rightarrow> (case execPragmas d ps of (r, calls) \<Rightarrow> (r, CExec p # calls)))"

text \<open>The error, or \<open>None\<close> if a connection is returned, and the calls on the driver.\<close>

definition Connect :: "'e driver \<Rightarrow> string \<Rightarrow> string list \<Rightarrow> 'e connect_error option \<times> connector_call list" where
  "Connect d dsn pragmas = (case drvOpen d of
     Some e \<Rightarrow> (Some (OpenFails e), [COpen dsn])
   | None \<Rightarrow>
       if \<not> drvExecer d then (Some NoExecer, [COpen dsn, CClose])
       else (case execPragmas d pragmas of (r, calls) \<Rightarrow> (r, COpen dsn # calls)))"

section \<open>The command \<open>concurrent\<close>\<close>

definition numWorkers :: nat where
  "numWorkers = 10"

definition numInserts :: nat where
  "numInserts = 20"

text \<open>A row of the table \<open>events\<close>: worker, number and time.\<close>

type_synonym event_row = "nat \<times> nat \<times> string"

text \<open>A worker is about to insert its row \<open>seq\<close>, or to report that this has failed, or at its end. The
  main goroutine waits for the workers, or has its result: an error, or none.\<close>

datatype worker = Inserting nat | Reporting nat | Finished

record concurrent =
  wks :: "worker list"
  errc :: "(nat \<times> nat) list"
  events :: "event_row list"
  mainResult :: "(nat \<times> nat) option option"

text \<open>What may happen next: worker \<open>w\<close> takes a step, at which an insert at a time may succeed or not, or the
  main goroutine does.\<close>

datatype turn = WorkerTurn nat "string option" | MainTurn

definition errcCap :: nat where
  "errcCap = numWorkers"

definition workerStep :: "nat \<Rightarrow> string option \<Rightarrow> concurrent \<Rightarrow> concurrent option" where
  "workerStep w ok c = (if length (wks c) \<le> w then None else (case wks c ! w of
     Inserting seq \<Rightarrow>
       if seq < numInserts then (case ok of
           Some ts \<Rightarrow> Some (c\<lparr>events := events c @ [(w, seq, ts)], wks := (wks c)[w := Inserting (seq + 1)]\<rparr>)
         | None \<Rightarrow> Some (c\<lparr>wks := (wks c)[w := Reporting seq]\<rparr>))
       else Some (c\<lparr>wks := (wks c)[w := Finished]\<rparr>)
   | Reporting seq \<Rightarrow>
       if length (errc c) < errcCap then Some (c\<lparr>errc := errc c @ [(w, seq)], wks := (wks c)[w := Finished]\<rparr>) else None
   | Finished \<Rightarrow> None))"

text \<open>\<open>wg.Wait\<close>, closing the channel and the first value from it; a closed channel that is empty has none.\<close>

definition mainTurn :: "concurrent \<Rightarrow> concurrent option" where
  "mainTurn c = (if mainResult c = None \<and> (\<forall>w \<in> set (wks c). w = Finished)
     then Some (c\<lparr>mainResult := Some (case errc c of [] \<Rightarrow> None | e # _ \<Rightarrow> Some e)\<rparr>) else None)"

definition takeTurn :: "turn \<Rightarrow> concurrent \<Rightarrow> concurrent option" where
  "takeTurn t c = (case t of WorkerTurn w ok \<Rightarrow> workerStep w ok c | MainTurn \<Rightarrow> mainTurn c)"

definition startWorkers :: "event_row list \<Rightarrow> concurrent" where
  "startWorkers old = \<lparr>wks = replicate numWorkers (Inserting 0), errc = [], events = old, mainResult = None\<rparr>"

text \<open>The report: \<open>SELECT worker_id, COUNT, MIN(ts), MAX(ts) \<dots> GROUP BY worker_id ORDER BY worker_id\<close>.\<close>

definition minStr :: "string list \<Rightarrow> string" where
  "minStr xs = fold min (tl xs) (hd xs)"

definition maxStr :: "string list \<Rightarrow> string" where
  "maxStr xs = fold max (tl xs) (hd xs)"

definition report :: "event_row list \<Rightarrow> (nat \<times> nat \<times> string \<times> string) list" where
  "report rs = map (\<lambda>w. let ts = map (snd \<circ> snd) (filter (\<lambda>r. fst r = w) rs) in (w, length ts, minStr ts, maxStr ts))
     (sort (remdups (map fst rs)))"

definition padRight :: "nat \<Rightarrow> string \<Rightarrow> string" where
  "padRight n s = s @ replicate (n - length (pieces s)) (CHR '' '')"

definition reportLine :: "nat \<times> nat \<times> string \<times> string \<Rightarrow> string" where
  "reportLine = (\<lambda>(w, n, mn, mx). padRight 9 (digits w) @ ''  '' @ padRight 6 (digits n) @ ''  '' @ padRight 35 mn @ ''  '' @ mx)"

definition reportHeader :: "string list" where
  "reportHeader = [padRight 9 ''Worker'' @ ''  '' @ padRight 6 ''Rows'' @ ''  '' @ padRight 35 ''First write'' @ ''  '' @ ''Last write'',
     padRight 9 ''---------'' @ ''  '' @ padRight 6 ''------'' @ ''  '' @ padRight 35 (replicate 35 (CHR ''-'')) @ ''  '' @ replicate 35 (CHR ''-'')]"

section \<open>Calls that may fail\<close>

text \<open>Every call on the database takes the next entry of a list of outcomes: an error or none. A command
  yields the error it returns, if any.\<close>

type_synonym 'e outcomes = "'e option stream"

text \<open>A table with a key that the database counts up: the next key and the rows.\<close>

record 'r dbtable =
  nextId :: nat
  rowsOf :: "(nat \<times> 'r) list"

definition insertRow :: "'r \<Rightarrow> 'r dbtable \<Rightarrow> 'r dbtable" where
  "insertRow r t = t\<lparr>nextId := nextId t + 1, rowsOf := rowsOf t @ [(nextId t, r)]\<rparr>"

fun insertAll :: "'r list \<Rightarrow> 'r dbtable \<Rightarrow> 'e outcomes \<Rightarrow> 'e option \<times> 'r dbtable \<times> 'e outcomes" where
  "insertAll [] t o' = (None, t, o')"
| "insertAll (r # rs) t o' = (case shd o' of
     Some e \<Rightarrow> (Some e, t, stl o')
   | None \<Rightarrow> insertAll rs (insertRow r t) (stl o'))"

text \<open>The rows of a query, each of which is scanned and printed; \<open>rows.Err\<close> is the last call.\<close>

fun printRows :: "('r \<Rightarrow> 'e + string) \<Rightarrow> 'r list \<Rightarrow> 'e outcomes \<Rightarrow> 'e option \<times> string list" where
  "printRows scan [] o' = (shd o', [])"
| "printRows scan (r # rs) o' = (case shd o' of
     Some e \<Rightarrow> (Some e, [])
   | None \<Rightarrow> (case scan r of
       Inl e \<Rightarrow> (Some e, [])
     | Inr line \<Rightarrow> (case printRows scan rs (stl o') of (err, out) \<Rightarrow> (err, line # out))))"

text \<open>What the command \<open>concurrent\<close> does when the main goroutine has its result.\<close>

datatype 'e concurrent_error = DatabaseFails 'e | WorkerFails "nat \<times> nat"

definition finishConcurrent :: "(nat \<times> nat) option \<Rightarrow> event_row list \<Rightarrow> 'e outcomes \<Rightarrow> 'e concurrent_error option \<times> string list" where
  "finishConcurrent res rs o' = (case res of
     Some e \<Rightarrow> (Some (WorkerFails e), [])
   | None \<Rightarrow> (case shd o' of
       Some e \<Rightarrow> (Some (DatabaseFails e), [])
     | None \<Rightarrow> (case printRows (\<lambda>r. Inr (reportLine r)) (report rs) (stl o') of
         (err, out) \<Rightarrow> (map_option DatabaseFails err, reportHeader @ out))))"

section \<open>The commands \<open>hello\<close> and \<open>json\<close>\<close>

definition greetings :: "string list" where
  "greetings = [''Hello, world!'', ''Bonjour, le monde!'', ''Hola, mundo!'', ''Hallo, Welt!'']"

definition helloLine :: "nat \<times> string \<times> string \<Rightarrow> string" where
  "helloLine = (\<lambda>(i, m, t). padRight 4 (digits i) @ ''  '' @ padRight 30 m @ ''  '' @ t)"

definition helloHeader :: "string list" where
  "helloHeader = [padRight 4 ''ID'' @ ''  '' @ padRight 30 ''Message'' @ ''  '' @ ''Created'',
     padRight 4 ''----'' @ ''  '' @ padRight 30 (replicate 30 (CHR ''-'')) @ ''  '' @ replicate 20 (CHR ''-'')]"

text \<open>Opening, creating the table, the inserts, the query; the error, the table, what is printed.\<close>

definition cmdHello :: "string \<Rightarrow> (string \<times> string) dbtable \<Rightarrow> 'e outcomes \<Rightarrow> 'e option \<times> (string \<times> string) dbtable \<times> string list" where
  "cmdHello now t o' = (case shd o' of Some e \<Rightarrow> (Some e, t, []) | None \<Rightarrow>
     (case shd (stl o') of Some e \<Rightarrow> (Some e, t, []) | None \<Rightarrow>
     (case insertAll (map (\<lambda>m. (m, now)) greetings) t (stl (stl o')) of
        (Some e, t, o') \<Rightarrow> (Some e, t, [])
      | (None, t, o') \<Rightarrow>
          (case shd o' of Some e \<Rightarrow> (Some e, t, []) | None \<Rightarrow>
             (case printRows (\<lambda>r. Inr (helloLine r)) (rowsOf t) (stl o') of (err, out) \<Rightarrow> (err, t, helloHeader @ out))))))"

record attributes =
  Color :: string
  WeightKg :: rat
  Tags :: "string list"

definition products :: "(string \<times> attributes) list" where
  "products = [
     (''Bicycle'', \<lparr>Color = ''red'', WeightKg = float64 (85 / 10), Tags = [''sport'', ''outdoor'']\<rparr>),
     (''Laptop'', \<lparr>Color = ''silver'', WeightKg = float64 (14 / 10), Tags = [''tech'', ''work'']\<rparr>),
     (''Tent'', \<lparr>Color = ''green'', WeightKg = float64 (21 / 10), Tags = [''outdoor'', ''camping'']\<rparr>)]"

text \<open>The dash of the output is a character of three bytes.\<close>

definition emDash :: string where
  "emDash = [CHR 0xE2, CHR 0x80, CHR 0x94]"

definition productLine :: "nat \<Rightarrow> string \<Rightarrow> attributes \<Rightarrow> string" where
  "productLine i name a = ''['' @ digits i @ ''] '' @ name @ '' '' @ emDash @ '' color='' @ Color a @
     '' weight='' @ showTenths (WeightKg a) @ ''kg tags=['' @ Join '' '' (Tags a) @ '']''"

text \<open>What the database stores for a product, which fails if the value has an error.\<close>

fun insertProducts :: "(attributes \<Rightarrow> string \<times> 'e option) \<Rightarrow> (string \<times> attributes) list \<Rightarrow> (string \<times> driver_value) dbtable \<Rightarrow> 'e outcomes \<Rightarrow>
    'e option \<times> (string \<times> driver_value) dbtable \<times> 'e outcomes" where
  "insertProducts marshal [] t o' = (None, t, o')"
| "insertProducts marshal ((name, a) # ps) t o' = (case JSON_Value marshal a of
     (_, Some e) \<Rightarrow> (Some e, t, o')
   | (v, None) \<Rightarrow> (case shd o' of
       Some e \<Rightarrow> (Some e, t, stl o')
     | None \<Rightarrow> insertProducts marshal ps (insertRow (name, v) t) (stl o')))"

definition scanProduct :: "(string \<Rightarrow> 'e + attributes) \<Rightarrow> ('e scan_error \<Rightarrow> 'e) \<Rightarrow> nat \<times> string \<times> driver_value \<Rightarrow> 'e + string" where
  "scanProduct unmarshal wrap = (\<lambda>(i, name, v). case JSON_Scan unmarshal v of Inl e \<Rightarrow> Inl (wrap e) | Inr a \<Rightarrow> Inr (productLine i name a))"

definition cmdJSON :: "(attributes \<Rightarrow> string \<times> 'e option) \<Rightarrow> (string \<Rightarrow> 'e + attributes) \<Rightarrow> ('e scan_error \<Rightarrow> 'e) \<Rightarrow>
    (string \<times> driver_value) dbtable \<Rightarrow> 'e outcomes \<Rightarrow> 'e option \<times> (string \<times> driver_value) dbtable \<times> string list" where
  "cmdJSON marshal unmarshal wrap t o' = (case shd o' of Some e \<Rightarrow> (Some e, t, []) | None \<Rightarrow>
     (case shd (stl o') of Some e \<Rightarrow> (Some e, t, []) | None \<Rightarrow>
     (case insertProducts marshal products t (stl (stl o')) of
        (Some e, t, o') \<Rightarrow> (Some e, t, [])
      | (None, t, o') \<Rightarrow>
          (case shd o' of Some e \<Rightarrow> (Some e, t, []) | None \<Rightarrow>
             (case printRows (scanProduct unmarshal wrap) (rowsOf t) (stl o') of (err, out) \<Rightarrow> (err, t, out))))))"

section \<open>The command \<open>txn\<close>\<close>

text \<open>Calls on the database with the number of the connection or transaction. An account has one balance
  that is committed; a transaction sees the balance at its first read, and what it has written. This much of
  SQLite's isolation (\<open>BEGIN\<close> with the write-ahead log) is part of the model; whether a call
  fails, as the second write does when it meets a newer commit, is an argument.\<close>

datatype txn_call =
    TCreate | TSeed | TConn nat | TBegin nat | TRead nat | TWrite nat int | TCommit nat | TRollback nat | TFinal
  | TCloseConn nat | TCloseDB

record txn_db =
  committed :: int
  snapshot :: "nat \<Rightarrow> int option"
  written :: "nat \<Rightarrow> int option"

fun applyCall :: "txn_call \<Rightarrow> txn_db \<Rightarrow> txn_db" where
  "applyCall TSeed d = d\<lparr>committed := 0\<rparr>"
| "applyCall (TRead n) d = (case snapshot d n of None \<Rightarrow> d\<lparr>snapshot := (snapshot d)(n \<mapsto> committed d)\<rparr> | Some _ \<Rightarrow> d)"
| "applyCall (TWrite n v) d = d\<lparr>written := (written d)(n \<mapsto> v)\<rparr>"
| "applyCall (TCommit n) d = (case written d n of None \<Rightarrow> d | Some v \<Rightarrow> d\<lparr>committed := v, written := (written d)(n := None)\<rparr>)"
| "applyCall (TRollback n) d = d\<lparr>written := (written d)(n := None)\<rparr>"
| "applyCall _ d = d"

text \<open>A run: the database, the calls so far with whether they have succeeded, the output, the outcomes left.\<close>

record 'e txn_run =
  trDb :: txn_db
  trLog :: "(txn_call \<times> bool) list"
  trOut :: "string list"
  trNext :: "'e outcomes"

definition dbCall :: "txn_call \<Rightarrow> 'e txn_run \<Rightarrow> 'e option \<times> 'e txn_run" where
  "dbCall c r = (case shd (trNext r) of
     Some e \<Rightarrow> (Some e, r\<lparr>trLog := trLog r @ [(c, False)], trNext := stl (trNext r)\<rparr>)
   | None \<Rightarrow> (None, r\<lparr>trDb := applyCall c (trDb r), trLog := trLog r @ [(c, True)], trNext := stl (trNext r)\<rparr>))"

text \<open>Calls whose errors are ignored, and what the deferred calls do, the last one first.\<close>

definition ignoring :: "txn_call list \<Rightarrow> 'e txn_run \<Rightarrow> 'e txn_run" where
  "ignoring cs r = fold (\<lambda>c r. snd (dbCall c r)) cs r"

text \<open>A call, with what is done if it fails, before its error is returned, and how it goes on otherwise.\<close>

definition attempt :: "txn_call \<Rightarrow> txn_call list \<Rightarrow> ('e txn_run \<Rightarrow> 'e option \<times> 'e txn_run) \<Rightarrow> 'e txn_run \<Rightarrow> 'e option \<times> 'e txn_run" where
  "attempt c cleanup k r = (case dbCall c r of (Some e, r) \<Rightarrow> (Some e, ignoring cleanup r) | (None, r) \<Rightarrow> k r)"

definition say :: "string \<Rightarrow> 'e txn_run \<Rightarrow> 'e txn_run" where
  "say l r = r\<lparr>trOut := trOut r @ [l]\<rparr>"

definition balanceRead :: "nat \<Rightarrow> 'e txn_run \<Rightarrow> int" where
  "balanceRead n r = (case snapshot (trDb r) n of None \<Rightarrow> 0 | Some v \<Rightarrow> v)"

definition deferredCalls :: "nat \<Rightarrow> txn_call list" where
  "deferredCalls n = (if n = 2 then [TCloseConn 2, TCloseConn 1, TCloseDB] else if n = 1 then [TCloseConn 1, TCloseDB] else [TCloseDB])"

definition bothRolledBack :: "txn_call list" where
  "bothRolledBack = [TRollback 1, TRollback 2] @ deferredCalls 2"

text \<open>The second transaction, whose conflict is only reported, and the last query.\<close>

definition secondTxn :: "('e \<Rightarrow> string) \<Rightarrow> int \<Rightarrow> 'e txn_run \<Rightarrow> 'e txn_run" where
  "secondTxn showErr bal2 r = (case dbCall (TWrite 2 (bal2 + 200)) r of
     (Some e, r) \<Rightarrow> say (''tx2 write failed (expected): '' @ showErr e) (ignoring [TRollback 2] r)
   | (None, r) \<Rightarrow> (case dbCall (TCommit 2) r of
       (Some e, r) \<Rightarrow> say (''tx2 commit failed (expected): '' @ showErr e) (ignoring [TRollback 2] r)
     | (None, r) \<Rightarrow> say (''tx2 committed (no conflict detected '' @ emDash @ '' lost update!)'') r))"

definition reportFinal :: "'e txn_run \<Rightarrow> 'e option \<times> 'e txn_run" where
  "reportFinal r = (None, ignoring (deferredCalls 2)
     (say (''final balance='' @ showInt (committed (trDb r)) @ '' (expected 100 if G1 won)'') r))"

definition finalQuery :: "'e txn_run \<Rightarrow> 'e option \<times> 'e txn_run" where
  "finalQuery = attempt TFinal (deferredCalls 2) reportFinal"

text \<open>Both transactions have read.\<close>

definition transactions :: "('e \<Rightarrow> string) \<Rightarrow> 'e txn_run \<Rightarrow> 'e option \<times> 'e txn_run" where
  "transactions showErr r = (let bal1 = balanceRead 1 r; bal2 = balanceRead 2 r in
     attempt (TWrite 1 (bal1 + 100)) bothRolledBack (attempt (TCommit 1) bothRolledBack (\<lambda>r.
       finalQuery (secondTxn showErr bal2 (say ''tx1 committed balance+100'' r))))
     (say (''tx2 read balance='' @ showInt bal2) (say (''tx1 read balance='' @ showInt bal1) r)))"

definition cmdTxn :: "('e \<Rightarrow> string) \<Rightarrow> 'e txn_run \<Rightarrow> 'e option \<times> 'e txn_run" where
  "cmdTxn showErr =
     attempt TCreate (deferredCalls 0) (attempt TSeed (deferredCalls 0)
     (attempt (TConn 1) (deferredCalls 0) (attempt (TConn 2) (deferredCalls 1)
     (attempt (TBegin 1) (deferredCalls 2) (attempt (TBegin 2) (TRollback 1 # deferredCalls 2)
     (attempt (TRead 1) bothRolledBack (attempt (TRead 2) bothRolledBack
       (transactions showErr))))))))"

section \<open>The program\<close>

datatype gosql_action = RunHello | RunConcurrent | RunJSON | RunTxn | PrintUsage | UnknownCommand string

definition gosql_main :: "string list \<Rightarrow> gosql_action" where
  "gosql_main osArgs = (if length osArgs < 2 then PrintUsage
     else (let a = osArgs ! 1 in
       if a = ''hello'' then RunHello
       else if a = ''concurrent'' then RunConcurrent
       else if a = ''json'' then RunJSON
       else if a = ''txn'' then RunTxn
       else UnknownCommand a))"

end
