(* ===== verification/GosqlProps.thy ===== *)
theory GosqlProps
  imports Gosql
begin

text \<open>
  Properties of \<open>gosql\<close>: what the ten workers insert under every interleaving, what the JSON column gives
  back, and that no transaction or connection stays open whatever fails.
\<close>

section \<open>The connector\<close>

lemma execPragmas_ok:
  "execPragmas d ps = (None, map CExec ps) \<or>
   (\<exists>qs p e rest. ps = qs @ p # rest \<and> drvExec d p = Some e \<and> execPragmas d ps = (Some (PragmaFails p e), map CExec qs @ [CExec p, CClose]))"
proof (induction ps)
  case (Cons p ps)
  show ?case
  proof (cases "drvExec d p")
    case (Some e)
    then show ?thesis by (intro disjI2 exI[of _ "[]"] exI[of _ p] exI[of _ e] exI[of _ ps]) simp
  next
    case None
    from Cons.IH show ?thesis
    proof (elim disjE exE conjE)
      fix qs q e rest
      assume "ps = qs @ q # rest" "drvExec d q = Some e" "execPragmas d ps = (Some (PragmaFails q e), map CExec qs @ [CExec q, CClose])"
      with None show ?thesis by (intro disjI2 exI[of _ "p # qs"] exI[of _ q] exI[of _ e] exI[of _ rest]) simp
    qed (use None in simp)
  qed
qed simp

text \<open>A connection that is returned has all pragmas and is open; one that was opened and is not returned is closed.\<close>

lemma Connect_closes:
  "(fst (Connect d dsn ps) = None \<longrightarrow> snd (Connect d dsn ps) = COpen dsn # map CExec ps) \<and>
   (drvOpen d = None \<longrightarrow> (fst (Connect d dsn ps) \<noteq> None \<longleftrightarrow> CClose \<in> set (snd (Connect d dsn ps))))"
  using execPragmas_ok[of d ps] by (auto simp: Connect_def split: option.splits)

section \<open>Concurrent inserts\<close>

text \<open>The rows of a worker, the next one it inserts, and whether one has failed.\<close>

definition rowsBy :: "nat \<Rightarrow> event_row list \<Rightarrow> nat list" where
  "rowsBy w rs = map (fst \<circ> snd) (filter (\<lambda>r. fst r = w) rs)"

definition failedBy :: "nat \<Rightarrow> concurrent \<Rightarrow> nat list" where
  "failedBy w c = map snd (filter (\<lambda>e. fst e = w) (errc c))"

text \<open>The invariant of a worker: it has inserted its rows in order up to where it is, or to its error.\<close>

definition worker_ok :: "nat list \<Rightarrow> concurrent \<Rightarrow> nat \<Rightarrow> bool" where
  "worker_ok old c w \<longleftrightarrow> (\<exists>k \<le> numInserts. rowsBy w (events c) = old @ [0..<k] \<and>
     (case wks c ! w of
        Inserting seq \<Rightarrow> seq = k \<and> failedBy w c = []
      | Reporting seq \<Rightarrow> seq = k \<and> k < numInserts \<and> failedBy w c = []
      | Finished \<Rightarrow> if k < numInserts then failedBy w c = [k] else failedBy w c = []))"

definition conc_ok :: "event_row list \<Rightarrow> concurrent \<Rightarrow> bool" where
  "conc_ok old c \<longleftrightarrow> length (wks c) = numWorkers \<and> (\<forall>w < numWorkers. worker_ok (rowsBy w old) c w) \<and>
     (\<forall>w \<ge> numWorkers. rowsBy w (events c) = rowsBy w old) \<and> (\<forall>e \<in> set (errc c). fst e < numWorkers) \<and>
     int (length (errc c)) \<le> cnt (\<lambda>x. x = Finished) (wks c) \<and>
     (mainResult c \<noteq> None \<longrightarrow> (\<forall>w < numWorkers. wks c ! w = Finished) \<and> mainResult c = Some (case errc c of [] \<Rightarrow> None | e # _ \<Rightarrow> Some e))"

lemma rowsBy_snoc: "rowsBy w (rs @ [(v, seq, ts)]) = rowsBy w rs @ (if v = w then [seq] else [])"
  by (simp add: rowsBy_def)

lemma worker_ok_cong:
  assumes "wks c' ! w = wks c ! w" "rowsBy w (events c') = rowsBy w (events c)" "failedBy w c' = failedBy w c"
  shows "worker_ok old c' w = worker_ok old c w"
  unfolding worker_ok_def assms by (rule refl)

text \<open>A step keeps the invariant if it does so for the worker, and the others do not notice.\<close>

lemma conc_ok_step:
  assumes c: "conc_ok old c" "w < numWorkers" "wks c ! w \<noteq> Finished"
    and c': "wks c' = (wks c)[w := x]" "mainResult c' = mainResult c" "worker_ok (rowsBy w old) c' w"
    and others: "\<And>v. v \<noteq> w \<Longrightarrow> rowsBy v (events c') = rowsBy v (events c) \<and> failedBy v c' = failedBy v c"
    and e: "errc c' = errc c \<or> (\<exists>s. errc c' = errc c @ [(w, s)] \<and> x = Finished)"
  shows "conc_ok old c'"
proof -
  have len: "length (wks c) = numWorkers" using c(1) by (simp add: conc_ok_def)
  have "worker_ok (rowsBy v old) c' v" if "v < numWorkers" for v
  proof (cases "v = w")
    case False
    then have "worker_ok (rowsBy v old) c' v = worker_ok (rowsBy v old) c v" using others by (intro worker_ok_cong) (simp_all add: c'(1))
    then show ?thesis using c(1) that by (simp add: conc_ok_def)
  qed (use c'(3) in simp)
  moreover have "mainResult c' = None" using c unfolding conc_ok_def c'(2) by (metis not_None_eq)
  moreover have "cnt (\<lambda>x. x = Finished) (wks c') = cnt (\<lambda>x. x = Finished) (wks c) + of_bool (x = Finished)"
    using c(2,3) len cnt_update[of w "wks c" "\<lambda>x. x = Finished" x] by (simp add: c'(1))
  ultimately show ?thesis using c(1,2) others e unfolding conc_ok_def by (auto simp: c'(1))
qed

lemma worker_turn_ok:
  assumes "conc_ok old c" "workerStep w ok c = Some c'"
  shows "conc_ok old c'"
proof -
  have len: "length (wks c) = numWorkers" using assms(1) by (simp add: conc_ok_def)
  have w: "w < numWorkers" using assms(2) len by (auto simp: workerStep_def split: if_splits)
  then obtain k where k: "k \<le> numInserts" "rowsBy w (events c) = rowsBy w old @ [0..<k]"
    "case wks c ! w of Inserting seq \<Rightarrow> seq = k \<and> failedBy w c = []
      | Reporting seq \<Rightarrow> seq = k \<and> k < numInserts \<and> failedBy w c = []
      | Finished \<Rightarrow> if k < numInserts then failedBy w c = [k] else failedBy w c = []"
    using assms(1) unfolding conc_ok_def worker_ok_def by meson
  show ?thesis
  proof (cases "wks c ! w")
    case (Inserting seq)
    with k(3) have seq: "seq = k" "failedBy w c = []" by simp_all
    consider (row) ts where "k < numInserts" "c' = c\<lparr>events := events c @ [(w, k, ts)], wks := (wks c)[w := Inserting (k + 1)]\<rparr>"
      | (err) "k < numInserts" "c' = c\<lparr>wks := (wks c)[w := Reporting k]\<rparr>"
      | (fin) "\<not> k < numInserts" "c' = c\<lparr>wks := (wks c)[w := Finished]\<rparr>"
      using assms(2) Inserting seq(1) w len by (auto simp: workerStep_def split: if_splits option.splits)
    then show ?thesis
    proof cases
      case row
      show ?thesis
        using row k seq w len Inserting
        by (intro conc_ok_step[OF assms(1) w, of c' "Inserting (k + 1)"])
          (auto simp: worker_ok_def rowsBy_snoc failedBy_def intro!: exI[of _ "Suc k"])
    next
      case err
      show ?thesis
        using err k seq w len Inserting
        by (intro conc_ok_step[OF assms(1) w, of c' "Reporting k"]) (auto simp: worker_ok_def failedBy_def intro!: exI[of _ k])
    next
      case fin
      show ?thesis
        using fin k seq w len Inserting
        by (intro conc_ok_step[OF assms(1) w, of c' Finished]) (auto simp: worker_ok_def failedBy_def intro!: exI[of _ k])
    qed
  next
    case (Reporting seq)
    then have c': "c' = c\<lparr>errc := errc c @ [(w, k)], wks := (wks c)[w := Finished]\<rparr>" and k': "k < numInserts" "failedBy w c = []"
      using assms(2) k(3) w len by (auto simp: workerStep_def split: if_splits)
    show ?thesis
      using k k' w len Reporting
      by (intro conc_ok_step[OF assms(1) w, of c' Finished]) (auto simp: c' worker_ok_def failedBy_def intro!: exI[of _ k])
  next
    case Finished
    with assms(2) show ?thesis by (simp add: workerStep_def split: if_splits)
  qed
qed

lemma main_turn_ok:
  assumes "conc_ok old c" "mainTurn c = Some c'" shows "conc_ok old c'"
proof -
  have c': "c' = c\<lparr>mainResult := Some (case errc c of [] \<Rightarrow> None | e # _ \<Rightarrow> Some e)\<rparr>" "\<forall>x \<in> set (wks c). x = Finished"
    using assms(2) by (auto simp: mainTurn_def split: if_splits)
  have "worker_ok old' c' w = worker_ok old' c w" for old' w
    by (rule worker_ok_cong) (simp_all add: c'(1) failedBy_def)
  with assms(1) c' show ?thesis by (simp add: conc_ok_def)
qed

lemma startWorkers_ok: "conc_ok old (startWorkers old)"
  by (auto simp: conc_ok_def startWorkers_def worker_ok_def failedBy_def numWorkers_def)

text \<open>Steps that are left at most; every turn takes one.\<close>

fun stepsLeft :: "worker \<Rightarrow> nat" where
  "stepsLeft (Inserting seq) = numInserts - seq + 2"
| "stepsLeft (Reporting seq) = 1"
| "stepsLeft Finished = 0"

definition turnsLeft :: "concurrent \<Rightarrow> nat" where
  "turnsLeft c = sum_list (map stepsLeft (wks c)) + (if mainResult c = None then 1 else 0)"

lemma stepsLeft_update:
  assumes "w < length ws" "stepsLeft x < stepsLeft (ws ! w)"
  shows "sum_list (map stepsLeft (ws[w := x])) < sum_list (map stepsLeft ws)"
proof -
  have "stepsLeft (ws ! w) \<le> sum_list (map stepsLeft ws)" using assms(1) by (intro member_le_sum_list) simp_all
  then show ?thesis using assms by (simp add: map_update sum_list_update)
qed

lemma turn_left:
  assumes "takeTurn t c = Some c'" shows "turnsLeft c' < turnsLeft c"
proof (cases t)
  case MainTurn
  with assms show ?thesis by (auto simp: takeTurn_def mainTurn_def turnsLeft_def split: if_splits)
next
  case (WorkerTurn w ok)
  then have s: "workerStep w ok c = Some c'" using assms by (simp add: takeTurn_def)
  then have w: "w < length (wks c)" by (auto simp: workerStep_def split: if_splits)
  obtain x where "wks c' = (wks c)[w := x]" "mainResult c' = mainResult c" "stepsLeft x < stepsLeft (wks c ! w)"
    using s w by (cases "wks c ! w") (auto simp: workerStep_def split: if_splits option.splits)
  with stepsLeft_update[OF w] show ?thesis by (simp add: turnsLeft_def)
qed

text \<open>Somebody can always go on.\<close>

lemma conc_progress:
  assumes "conc_ok old c" "mainResult c = None" shows "\<exists>t c'. takeTurn t c = Some c'"
proof (cases "\<forall>x \<in> set (wks c). x = Finished")
  case True
  with assms(2) have "takeTurn MainTurn c \<noteq> None" by (simp add: takeTurn_def mainTurn_def)
  then show ?thesis by blast
next
  case False
  then obtain w where w: "w < length (wks c)" "wks c ! w \<noteq> Finished" by (auto simp: in_set_conv_nth)
  have "cnt (\<lambda>x. x = Finished) ((wks c)[w := Finished]) \<le> int (length (wks c))" using cnt_le_length[of _ "(wks c)[w := Finished]"] by simp
  then have "cnt (\<lambda>x. x = Finished) (wks c) < int numWorkers" using assms(1) w cnt_update[of w "wks c" "\<lambda>x. x = Finished" Finished] by (simp add: conc_ok_def)
  then have "length (errc c) < errcCap" using assms(1) by (simp add: conc_ok_def errcCap_def)
  then have "takeTurn (WorkerTurn w None) c \<noteq> None" using w
    by (cases "wks c ! w") (auto simp: takeTurn_def workerStep_def)
  then show ?thesis by blast
qed

section \<open>Runs\<close>

definition runTurns :: "turn list \<Rightarrow> concurrent \<Rightarrow> concurrent option" where
  "runTurns = foldM takeTurn"

lemma turn_ok:
  assumes "conc_ok old c" "takeTurn t c = Some c'" shows "conc_ok old c'"
proof (cases t)
  case (WorkerTurn w ok)
  with assms(2) have "workerStep w ok c = Some c'" by (simp add: takeTurn_def)
  with assms(1) show ?thesis by (rule worker_turn_ok)
next
  case MainTurn
  with assms(2) have "mainTurn c = Some c'" by (simp add: takeTurn_def)
  with assms(1) show ?thesis by (rule main_turn_ok)
qed

lemma turns_ok:
  assumes "runTurns ts c = Some c'" "conc_ok old c"
  shows "conc_ok old c' \<and> length ts + turnsLeft c' \<le> turnsLeft c"
  using assms unfolding runTurns_def
proof (induction ts arbitrary: c)
  case (Cons t ts)
  then obtain d where d: "takeTurn t c = Some d" "foldM takeTurn ts d = Some c'" by (auto split: Option.bind_splits)
  have "conc_ok old d" by (rule turn_ok[OF Cons.prems(2) d(1)])
  from Cons.IH[OF d(2) this] turn_left[OF d(1)] show ?case by simp
qed simp

text \<open>An error comes from an insert that has failed.\<close>

definition failing :: "concurrent \<Rightarrow> nat set" where
  "failing c = fst ` set (errc c) \<union> {w. \<exists>seq. w < length (wks c) \<and> wks c ! w = Reporting seq}"

lemma failing_step:
  assumes "takeTurn t c = Some c'" "w \<in> failing c'" shows "w \<in> failing c \<or> t = WorkerTurn w None"
proof (cases t)
  case MainTurn
  with assms show ?thesis by (auto simp: takeTurn_def mainTurn_def failing_def split: if_splits)
next
  case (WorkerTurn v ok)
  with assms(1) have "workerStep v ok c = Some c'" by (simp add: takeTurn_def)
  then show ?thesis using assms(2) WorkerTurn
    by (cases "wks c ! v"; cases "v = w") (auto simp: workerStep_def failing_def split: if_splits option.splits)
qed

lemma failing_run:
  assumes "runTurns ts c = Some c'" "w \<in> failing c'" shows "w \<in> failing c \<or> WorkerTurn w None \<in> set ts"
  using assms unfolding runTurns_def
proof (induction ts arbitrary: c)
  case (Cons t ts)
  then obtain d where "takeTurn t c = Some d" "foldM takeTurn ts d = Some c'" by (auto split: Option.bind_splits)
  with Cons.IH[of d] Cons.prems(2) failing_step[of t c d w] show ?case by auto
qed simp

text \<open>The report has one line for each worker with rows, with their number.\<close>

lemma report_counts:
  "map (\<lambda>(w, n, _). (w, n)) (report rs) = map (\<lambda>w. (w, length (rowsBy w rs))) (sort (remdups (map fst rs)))"
  by (simp add: report_def rowsBy_def comp_def Let_def)

lemma rowsBy_workers: "w \<in> set (map fst rs) \<longleftrightarrow> rowsBy w rs \<noteq> []"
  by (auto simp: rowsBy_def filter_empty_conv)


lemma conc_end:
  assumes "conc_ok old c" "mainResult c = Some r"
  shows "r = None \<and> (\<forall>w. rowsBy w (events c) = rowsBy w old @ (if w < numWorkers then [0..<numInserts] else [])) \<or>
    (\<exists>w seq. r = Some (w, seq) \<and> w < numWorkers \<and> seq < numInserts \<and> rowsBy w (events c) = rowsBy w old @ [0..<seq] \<and> w \<in> failing c)"
proof (cases "errc c")
  case Nil
  have "rowsBy w (events c) = rowsBy w old @ (if w < numWorkers then [0..<numInserts] else [])" for w
  proof (cases "w < numWorkers")
    case True
    then have "wks c ! w = Finished" "worker_ok (rowsBy w old) c w" using assms by (auto simp: conc_ok_def)
    with Nil True show ?thesis by (auto simp: worker_ok_def failedBy_def split: if_splits)
  next
    case False
    then show ?thesis using assms(1) by (simp add: conc_ok_def)
  qed
  then show ?thesis using assms Nil by (auto simp: conc_ok_def)
next
  case (Cons e es)
  obtain w seq where e: "e = (w, seq)" by (cases e)
  have w: "w < numWorkers" "wks c ! w = Finished" "worker_ok (rowsBy w old) c w" "r = Some (w, seq)"
    using assms Cons e by (auto simp: conc_ok_def)
  have "failedBy w c \<noteq> []" "hd (failedBy w c) = seq" using Cons e by (auto simp: failedBy_def)
  with w(2,3) have "seq < numInserts \<and> rowsBy w (events c) = rowsBy w old @ [0..<seq]"
    by (auto simp: worker_ok_def split: if_splits)
  then show ?thesis using w Cons e by (auto simp: failing_def)
qed

section \<open>The run read off the turns\<close>

text \<open>The inserts that a worker has tried, in order, with their time or failed; further turns of it are the report
  of an error or its end. So its rows are those before the first failure, and 20 at most.\<close>

definition outcomesOf :: "nat \<Rightarrow> turn list \<Rightarrow> string option list" where
  "outcomesOf w ts = List.map_filter (\<lambda>t. case t of WorkerTurn v ok \<Rightarrow> if v = w then Some ok else None | MainTurn \<Rightarrow> None) ts"

definition insertedIn :: "string option list \<Rightarrow> nat" where
  "insertedIn os = length (takeWhile (\<lambda>ok. ok \<noteq> None) (take numInserts os))"

definition insertedBy :: "nat \<Rightarrow> turn list \<Rightarrow> nat" where
  "insertedBy w ts = insertedIn (outcomesOf w ts)"

text \<open>The errors in the order in which they are reported: by the turn of a worker after its failed insert.\<close>

definition reportOf :: "turn list \<Rightarrow> turn \<Rightarrow> (nat \<times> nat) list" where
  "reportOf past t = (case t of
     WorkerTurn w ok \<Rightarrow> (let os = outcomesOf w past in
       if os \<noteq> [] \<and> List.last os = None \<and> length os \<le> numInserts then [(w, length os - 1)] else [])
   | MainTurn \<Rightarrow> [])"

fun reportsAfter :: "turn list \<Rightarrow> turn list \<Rightarrow> (nat \<times> nat) list" where
  "reportsAfter past [] = []"
| "reportsAfter past (t # ts) = reportOf past t @ reportsAfter (past @ [t]) ts"

definition reports :: "turn list \<Rightarrow> (nat \<times> nat) list" where
  "reports ts = reportsAfter [] ts"

lemma reports_simps: "reports [] = []" "reports (ts @ [t]) = reports ts @ reportOf ts t"
proof -
  have "reportsAfter past (ts @ [t]) = reportsAfter past ts @ reportOf (past @ ts) t" for past
    by (induction ts arbitrary: past) simp_all
  from this[of "[]"] show "reports (ts @ [t]) = reports ts @ reportOf ts t" by (simp add: reports_def)
qed (simp add: reports_def)

lemma outcomesOf_snoc:
  "outcomesOf w (ts @ [t]) = outcomesOf w ts @ (case t of WorkerTurn v ok \<Rightarrow> if v = w then [ok] else [] | MainTurn \<Rightarrow> [])"
  by (auto simp: outcomesOf_def map_filter_def split: turn.split)

text \<open>Where a worker is after its turns.\<close>

definition workerAt :: "string option list \<Rightarrow> worker" where
  "workerAt os = (if length os = insertedIn os then Inserting (insertedIn os)
     else if length os = insertedIn os + 1 \<and> insertedIn os < numInserts then Reporting (insertedIn os) else Finished)"

lemma insertedIn_le: "insertedIn os \<le> length os" "insertedIn os \<le> numInserts"
  using length_takeWhile_le[of "\<lambda>ok. ok \<noteq> None" "take numInserts os"] by (auto simp: insertedIn_def)

lemma insertedIn_snoc:
  "insertedIn (os @ [ok]) = insertedIn os + of_bool (length os = insertedIn os \<and> insertedIn os < numInserts \<and> ok \<noteq> None)"
proof (cases "length os < numInserts")
  case True
  show ?thesis
  proof (cases "\<forall>x \<in> set os. x \<noteq> None")
    case all: True
    then have "takeWhile (\<lambda>ok. ok \<noteq> None) os = os"
      "takeWhile (\<lambda>ok. ok \<noteq> None) (os @ [ok]) = os @ takeWhile (\<lambda>ok. ok \<noteq> None) [ok]"
      by (simp_all add: takeWhile_eq_all_conv)
    then have "length (takeWhile (\<lambda>ok. ok \<noteq> None) os) = length os"
      "length (takeWhile (\<lambda>ok. ok \<noteq> None) (os @ [ok])) = length os + of_bool (ok \<noteq> None)"
      by (simp_all del: takeWhile_eq_all_conv takeWhile_append)
    with True show ?thesis by (simp add: insertedIn_def del: not_None_eq takeWhile_append)
  next
    case False
    then obtain x where x: "x \<in> set os" "x = None" by blast
    then have "takeWhile (\<lambda>ok. ok \<noteq> None) (os @ xs) = takeWhile (\<lambda>ok. ok \<noteq> None) os" for xs
      by (intro takeWhile_append1) auto
    moreover have "takeWhile (\<lambda>ok. ok \<noteq> None) os \<noteq> os" using x by (metis (mono_tags) set_takeWhileD)
    then have "length (takeWhile (\<lambda>ok. ok \<noteq> None) os) \<noteq> length os" by (metis takeWhile_eq_take take_all le_refl)
    ultimately show ?thesis using True by (simp add: insertedIn_def)
  qed
next
  case False
  then have "take numInserts (os @ [ok]) = take numInserts os" by simp
  moreover have "\<not> (length os = insertedIn os \<and> insertedIn os < numInserts)" using False by auto
  ultimately show ?thesis by (simp only: insertedIn_def) simp
qed

lemma insertedIn_failed: "length os = insertedIn os + 1 \<Longrightarrow> insertedIn os < numInserts \<Longrightarrow> List.last os = None"
proof (induction os rule: rev_induct)
  case (snoc ok os)
  then show ?case using insertedIn_snoc[of os ok] insertedIn_le(1)[of os]
    by (cases "length os = insertedIn os") (auto simp: of_bool_def split: if_splits)
qed simp

text \<open>What holds of the state after the turns.\<close>

definition run_ok :: "event_row list \<Rightarrow> turn list \<Rightarrow> concurrent \<Rightarrow> bool" where
  "run_ok old ts c \<longleftrightarrow> length (wks c) = numWorkers \<and> errc c = reports ts \<and>
     (\<forall>w < numWorkers. wks c ! w = workerAt (outcomesOf w ts)) \<and> (\<forall>w \<ge> numWorkers. outcomesOf w ts = []) \<and>
     (\<forall>w. rowsBy w (events c) = rowsBy w old @ [0..<insertedBy w ts])"

lemma run_ok_step:
  assumes c: "run_ok old ts c" and t: "takeTurn t c = Some c'"
  shows "run_ok old (ts @ [t]) c'"
proof (cases t)
  case MainTurn
  then have "wks c' = wks c" "errc c' = errc c" "events c' = events c"
    using t by (auto simp: takeTurn_def mainTurn_def split: if_splits)
  with c MainTurn show ?thesis by (simp add: run_ok_def reports_simps reportOf_def outcomesOf_snoc insertedBy_def)
next
  case (WorkerTurn w ok)
  let ?os = "outcomesOf w ts"
  have len: "length (wks c) = numWorkers" using c by (simp add: run_ok_def)
  have s: "workerStep w ok c = Some c'" using t WorkerTurn by (simp add: takeTurn_def)
  then have w: "w < numWorkers" using len by (auto simp: workerStep_def split: if_splits)
  have at: "wks c ! w = workerAt ?os" using c w by (simp add: run_ok_def)
  have le: "insertedIn ?os \<le> length ?os" "insertedIn ?os \<le> numInserts" by (rule insertedIn_le)+
  have out: "outcomesOf v (ts @ [t]) = (if v = w then ?os @ [ok] else outcomesOf v ts)" for v
    by (simp add: outcomesOf_snoc WorkerTurn)
  have new: "wks c' = (wks c)[w := workerAt (?os @ [ok])] \<and> errc c' = errc c @ reportOf ts t \<and>
      (\<forall>v. rowsBy v (events c') = rowsBy v (events c) @ (if v = w then [insertedIn ?os..<insertedIn (?os @ [ok])] else []))"
  proof (cases "wks c ! w")
    case (Inserting seq)
    then have k: "length ?os = insertedIn ?os" "seq = insertedIn ?os" using at by (auto simp: workerAt_def split: if_splits)
    have no: "reportOf ts t = []" 
    proof -
      have "List.last ?os \<noteq> None \<or> ?os = [] \<or> numInserts < length ?os" 
      proof (cases ?os rule: rev_cases)
        case (snoc os x)
        with k(1) insertedIn_snoc[of os x] insertedIn_le(1)[of os] show ?thesis by (auto split: if_splits)
      qed simp
      then show ?thesis by (auto simp: reportOf_def WorkerTurn)
    qed
    consider (row) tm where "seq < numInserts" "ok = Some tm" "c' = c\<lparr>events := events c @ [(w, seq, tm)], wks := (wks c)[w := Inserting (seq + 1)]\<rparr>"
      | (err) "seq < numInserts" "ok = None" "c' = c\<lparr>wks := (wks c)[w := Reporting seq]\<rparr>"
      | (fin) "seq = numInserts" "c' = c\<lparr>wks := (wks c)[w := Finished]\<rparr>"
      using s Inserting w len le(2) k(2) by (auto simp: workerStep_def split: if_splits option.splits)
    then show ?thesis
      by cases (use k no in \<open>simp_all add: workerAt_def insertedIn_snoc rowsBy_snoc\<close>)
  next
    case (Reporting seq)
    then have k: "length ?os = insertedIn ?os + 1" "seq = insertedIn ?os" "seq < numInserts"
      using at by (auto simp: workerAt_def split: if_splits)
    have rep: "reportOf ts t = [(w, seq)]"
    proof -
      have "?os \<noteq> []" using k(1) by auto
      with insertedIn_failed[of ?os] k show ?thesis by (simp add: reportOf_def WorkerTurn Let_def)
    qed
    have "c' = c\<lparr>errc := errc c @ [(w, seq)], wks := (wks c)[w := Finished]\<rparr>"
      using s Reporting w len by (auto simp: workerStep_def split: if_splits)
    with k rep show ?thesis by (simp add: workerAt_def insertedIn_snoc)
  next
    case Finished
    with s show ?thesis by (simp add: workerStep_def split: if_splits)
  qed
  have "rowsBy v (events c') = rowsBy v old @ [0..<insertedBy v (ts @ [t])]" for v
  proof (cases "v = w")
    case True
    have "insertedIn ?os \<le> insertedIn (?os @ [ok])" by (simp add: insertedIn_snoc)
    then have "[0..<insertedIn ?os] @ [insertedIn ?os..<insertedIn (?os @ [ok])] = [0..<insertedIn (?os @ [ok])]"
      by (metis le0 upt_add_eq_append le_add_diff_inverse)
    with new c True show ?thesis by (simp add: run_ok_def insertedBy_def out)
  next
    case False
    with new c show ?thesis by (simp add: run_ok_def insertedBy_def out)
  qed
  with new c w show ?thesis by (auto simp: run_ok_def reports_simps out nth_list_update)
qed

lemma run_ok_run: "runTurns ts (startWorkers old) = Some c \<Longrightarrow> run_ok old ts c"
proof (induction ts arbitrary: c rule: rev_induct)
  case Nil
  then show ?case
    by (auto simp: runTurns_def run_ok_def startWorkers_def reports_simps outcomesOf_def map_filter_simps workerAt_def insertedIn_def insertedBy_def)
next
  case (snoc t ts)
  then obtain d where "runTurns ts (startWorkers old) = Some d" "takeTurn t d = Some c"
    by (auto simp: runTurns_def foldM_snoc split: Option.bind_splits)
  with run_ok_step snoc.IH show ?case by blast
qed

text \<open>C36. Whatever the order in which the ten workers run and whichever inserts fail: the command is never
  stuck, as there is room in the channel for every error, and is at its end after at most 221 steps. Each
  worker inserts its rows in order exactly up to its first failed insert, or all 20, and nobody inserts
  anything else. The result is the first error in the order in which they are reported, by a worker that
  has failed with the row that is missing; there is none exactly if no insert has failed. Then every worker
  has added its 20 rows, and the report on a new table says so.\<close>

theorem concurrent_inserts:
  assumes "runTurns ts (startWorkers old) = Some c"
  shows "(mainResult c = None \<longrightarrow> (\<exists>t c'. takeTurn t c = Some c')) \<and> length ts \<le> 221 \<and>
    (\<forall>w. rowsBy w (events c) = rowsBy w old @ [0..<insertedBy w ts]) \<and>
    (\<forall>r. mainResult c = Some r \<longrightarrow>
      r = (case reports ts of [] \<Rightarrow> None | e # _ \<Rightarrow> Some e) \<and>
      (r \<noteq> None \<longleftrightarrow> (\<exists>w < numWorkers. insertedBy w ts < numInserts)) \<and>
      (\<forall>w seq. r = Some (w, seq) \<longrightarrow> WorkerTurn w None \<in> set ts \<and> w < numWorkers \<and> seq = insertedBy w ts \<and> seq < numInserts) \<and>
      (r = None \<longrightarrow> (\<forall>w < numWorkers. rowsBy w (events c) = rowsBy w old @ [0..<numInserts])) \<and>
      (r = None \<and> old = [] \<longrightarrow> map (\<lambda>(w, n, _). (w, n)) (report (events c)) = map (\<lambda>w. (w, 20)) [0..<10]))"
proof -
  have ok: "conc_ok old c" "length ts + turnsLeft c \<le> turnsLeft (startWorkers old)"
    using turns_ok[OF assms startWorkers_ok] by auto
  have run: "run_ok old ts c" by (rule run_ok_run[OF assms])
  have rows: "rowsBy w (events c) = rowsBy w old @ [0..<insertedBy w ts]" for w using run by (simp add: run_ok_def)
  have "turnsLeft (startWorkers old) = 221" by (simp add: turnsLeft_def startWorkers_def numWorkers_def numInserts_def sum_list_replicate)
  with ok(2) have len: "length ts \<le> 221" by simp
  have "failing (startWorkers old) = {}" by (auto simp: failing_def startWorkers_def)
  then have fail: "WorkerTurn w None \<in> set ts" if "w \<in> failing c" for w using failing_run[OF assms that] by simp
  have rep: "map (\<lambda>(w, n, _). (w, n)) (report (events c)) = map (\<lambda>w. (w, 20)) [0..<10]"
    if all: "\<And>w. rowsBy w (events c) = (if w < numWorkers then [0..<numInserts] else [])"
  proof -
    have "w \<in> set (map fst (events c)) \<longleftrightarrow> w < 10" for w
      unfolding rowsBy_workers by (simp add: all numWorkers_def numInserts_def)
    then have "set (map fst (events c)) = set [0..<10]" by (intro set_eqI) simp
    then have "sort (remdups (map fst (events c))) = [0..<10]"
      by (metis distinct_remdups distinct_upt set_remdups set_sort sorted_distinct_set_unique sorted_sort sorted_upt distinct_sort)
    then show ?thesis unfolding report_counts by (simp add: all numWorkers_def numInserts_def)
  qed
  have fin: "(r \<noteq> None \<longleftrightarrow> (\<exists>w < numWorkers. insertedBy w ts < numInserts)) \<and>
      (\<forall>w seq. r = Some (w, seq) \<longrightarrow> WorkerTurn w None \<in> set ts \<and> w < numWorkers \<and> seq = insertedBy w ts \<and> seq < numInserts) \<and>
      (r = None \<longrightarrow> (\<forall>w < numWorkers. rowsBy w (events c) = rowsBy w old @ [0..<numInserts])) \<and>
      (r = None \<and> old = [] \<longrightarrow> map (\<lambda>(w, n, _). (w, n)) (report (events c)) = map (\<lambda>w. (w, 20)) [0..<10])"
    if r: "mainResult c = Some r" for r
    using conc_end[OF ok(1) r]
  proof (elim disjE exE conjE)
    assume none: "r = None" and all: "\<forall>w. rowsBy w (events c) = rowsBy w old @ (if w < numWorkers then [0..<numInserts] else [])"
    then have "[0..<insertedBy w ts] = [0..<numInserts]" if "w < numWorkers" for w using rows[of w] that by simp
    then have "insertedBy w ts = numInserts" if "w < numWorkers" for w using that by (metis length_upt minus_nat.diff_0)
    with none all rep show ?thesis by (auto simp: rowsBy_def)
  next
    fix w seq
    assume e: "r = Some (w, seq)" "w < numWorkers" "seq < numInserts" "rowsBy w (events c) = rowsBy w old @ [0..<seq]" "w \<in> failing c"
    then have "[0..<insertedBy w ts] = [0..<seq]" using rows[of w] by simp
    then have "insertedBy w ts = seq" by (metis length_upt minus_nat.diff_0)
    with e fail show ?thesis by auto
  qed
  have first: "r = (case reports ts of [] \<Rightarrow> None | e # _ \<Rightarrow> Some e)" if "mainResult c = Some r" for r
    using ok(1) run that by (simp add: conc_ok_def run_ok_def)
  show ?thesis using conc_progress[OF ok(1)] len rows fin first by simp
qed


section \<open>The JSON column\<close>

text \<open>What is stored and what comes back.\<close>

lemma JSON_Scan_Value:
  "marshal v = (b, None) \<Longrightarrow> unmarshal b = Inr v \<Longrightarrow> JSON_Scan unmarshal (fst (JSON_Value marshal v)) = Inr v"
  by (simp add: JSON_Scan_def JSON_Value_def)

definition json_ok :: "(attributes \<Rightarrow> string \<times> 'e option) \<Rightarrow> (string \<Rightarrow> 'e + attributes) \<Rightarrow> bool" where
  "json_ok marshal unmarshal \<longleftrightarrow> (\<forall>(name, a) \<in> set products. \<exists>b. marshal a = (b, None) \<and> unmarshal b = Inr a)"

text \<open>The rows that are added for a list of products, from a key on.\<close>

definition productRows :: "(attributes \<Rightarrow> string \<times> 'e option) \<Rightarrow> nat \<Rightarrow> (string \<times> attributes) list \<Rightarrow> (nat \<times> string \<times> driver_value) list" where
  "productRows marshal i ps = map (\<lambda>(k, name, a). (k, name, DText (fst (marshal a)))) (enumerate i ps)"

text \<open>The inserts have stored the first \<open>n\<close> products.\<close>

definition inserted where
  "inserted marshal ps t o' n r \<longleftrightarrow> n \<le> length ps \<and>
     fst (snd r) = t\<lparr>nextId := nextId t + n, rowsOf := rowsOf t @ productRows marshal (nextId t) (take n ps)\<rparr> \<and>
     (fst r = None \<longleftrightarrow> (\<forall>i < length ps. o' !! i = None)) \<and>
     (fst r = None \<longrightarrow> n = length ps \<and> snd (snd r) = sdrop (length ps) o')"

lemma insertProducts_rows:
  assumes "\<forall>(name, a) \<in> set ps. snd (marshal a) = None"
  shows "\<exists>n. inserted marshal ps t o' n (insertProducts marshal ps t o')"
  using assms
proof (induction ps arbitrary: t o')
  case Nil
  show ?case by (simp add: inserted_def productRows_def)
next
  case (Cons p ps)
  obtain name a where p: "p = (name, a)" by (cases p)
  have a: "JSON_Value marshal a = (DText (fst (marshal a)), None)" using Cons.prems p by (cases "marshal a") (auto simp: JSON_Value_def)
  show ?case
  proof (cases "shd o'")
    case None
    have "\<forall>(name, a) \<in> set ps. snd (marshal a) = None" using Cons.prems by auto
    from Cons.IH[OF this] obtain n where n: "inserted marshal ps (insertRow (name, DText (fst (marshal a))) t) (stl o') n
      (insertProducts marshal ps (insertRow (name, DText (fst (marshal a))) t) (stl o'))" ..
    have all: "(\<forall>i < Suc (length ps). o' !! i = None) \<longleftrightarrow> (\<forall>i < length ps. stl o' !! i = None)"
      using None by (auto simp: less_Suc_eq_0_disj)
    show ?thesis using n None
      by (intro exI[of _ "Suc n"]) (simp add: inserted_def p a all insertRow_def productRows_def)
  next
    case (Some e)
    then have "\<not> (\<forall>i < Suc (length ps). o' !! i = None)" by (auto intro!: exI[of _ 0])
    with Some show ?thesis by (intro exI[of _ 0]) (simp add: inserted_def p a productRows_def)
  qed
qed

lemma printRows_all:
  assumes "\<forall>r \<in> set rs. \<exists>l. scan r = Inr l" "\<forall>i \<le> length rs. o' !! i = None"
  shows "printRows scan rs o' = (None, map (\<lambda>r. projr (scan r)) rs)"
  using assms
proof (induction rs arbitrary: o')
  case Nil
  from Nil.prems(2)[rule_format, of 0] show ?case by simp
next
  case (Cons r rs)
  have "shd o' = None" using Cons.prems(2)[rule_format, of 0] by simp
  moreover have "\<forall>i \<le> length rs. stl o' !! i = None" using Cons.prems(2) by (metis Suc_le_mono length_Cons snth.simps(2))
  ultimately show ?case using Cons.IH[of "stl o'"] Cons.prems(1) by auto
qed

lemma printRows_None: "fst (printRows scan rs o') = None \<Longrightarrow> snd (printRows scan rs o') = map (\<lambda>r. projr (scan r)) rs"
proof (induction rs arbitrary: o')
  case (Cons r rs)
  then show ?case using Cons.IH[of "stl o'"] by (cases "printRows scan rs (stl o')") (auto split: option.splits sum.splits)
qed simp

lemma in_enumerate: "(k, x) \<in> set (enumerate i xs) \<Longrightarrow> x \<in> set xs"
  using set_zip_rightD[of k x "[i..<i + length xs]" xs] by (simp add: enumerate_eq_zip)

lemma scanProduct_new:
  assumes "json_ok marshal unmarshal" "(name, a) \<in> set products"
  shows "scanProduct unmarshal wrap (k, name, DText (fst (marshal a))) = Inr (productLine k name a)"
  using assms by (auto simp: json_ok_def scanProduct_def JSON_Scan_def)

lemma products_scanned:
  assumes "json_ok marshal unmarshal"
  shows "map (\<lambda>r. projr (scanProduct unmarshal wrap r)) (productRows marshal i products) = map (\<lambda>(k, name, a). productLine k name a) (enumerate i products)"
  unfolding productRows_def map_map
proof (rule map_cong[OF refl])
  fix x assume x: "x \<in> set (enumerate i products)"
  obtain k name a where [simp]: "x = (k, name, a)" by (cases x)
  from x have "(name, a) \<in> set products" by (simp add: in_enumerate)
  from scanProduct_new[OF assms this] show "((\<lambda>r. projr (scanProduct unmarshal wrap r)) \<circ> (\<lambda>(k, name, a). (k, name, DText (fst (marshal a))))) x =
      (case x of (k, name, a) \<Rightarrow> productLine k name a)" by simp
qed

text \<open>C38. If the JSON of the three products can be read back, then, whatever calls fail: earlier rows stay as
  they are and the first few of the products are added in order under new keys, all of them if no error is
  returned. Then a line has been printed for every row of the table, and for each new row it shows the
  colour, weight and tags that were stored. If nothing fails and the earlier rows can be read, no error is
  returned.\<close>

theorem json_column_gives_back:
  assumes json: "json_ok marshal unmarshal" and run: "cmdJSON marshal unmarshal wrap t o' = (err, t', out)"
  shows "\<exists>n \<le> length products. t' = t\<lparr>nextId := nextId t + n, rowsOf := rowsOf t @ productRows marshal (nextId t) (take n products)\<rparr> \<and>
    (err = None \<longrightarrow> n = length products \<and>
      out = map (\<lambda>r. projr (scanProduct unmarshal wrap r)) (rowsOf t) @ map (\<lambda>(k, name, a). productLine k name a) (enumerate (nextId t) products)) \<and>
    ((\<forall>i. o' !! i = None) \<and> (\<forall>r \<in> set (rowsOf t). \<exists>l. scanProduct unmarshal wrap r = Inr l) \<longrightarrow> err = None)"
proof (cases "shd o' = None \<and> shd (stl o') = None")
  case False
  then have "\<not> (\<forall>i. o' !! i = None)" by (metis snth.simps)
  with False run show ?thesis by (intro exI[of _ 0]) (auto simp: cmdJSON_def productRows_def split: option.splits)
next
  case True
  have "\<forall>(name, a) \<in> set products. snd (marshal a) = None" using json by (auto simp: json_ok_def)
  then obtain n where "inserted marshal products t (stl (stl o')) n (insertProducts marshal products t (stl (stl o')))"
    using insertProducts_rows by blast
  moreover obtain e t1 o1 where ins: "insertProducts marshal products t (stl (stl o')) = (e, t1, o1)"
    by (cases "insertProducts marshal products t (stl (stl o'))")
  ultimately have n: "n \<le> length products" "t1 = t\<lparr>nextId := nextId t + n, rowsOf := rowsOf t @ productRows marshal (nextId t) (take n products)\<rparr>"
      "e = None \<longleftrightarrow> (\<forall>i < length products. stl (stl o') !! i = None)"
      "e = None \<longrightarrow> n = length products \<and> o1 = sdrop (length products) (stl (stl o'))"
    by (simp_all add: inserted_def)
  have t': "t' = t1" using run True ins by (auto simp: cmdJSON_def split: option.splits prod.splits)
  have done': "e = None \<and> out = map (\<lambda>r. projr (scanProduct unmarshal wrap r)) (rowsOf t1)" if "err = None"
    using run True ins that printRows_None[of "scanProduct unmarshal wrap" "rowsOf t1" "stl o1"]
    by (auto simp: cmdJSON_def split: option.splits prod.splits)
  have new: "\<forall>r \<in> set (productRows marshal (nextId t) products). \<exists>l. scanProduct unmarshal wrap r = Inr l"
  proof
    fix r assume "r \<in> set (productRows marshal (nextId t) products)"
    then obtain k name a where "(k, name, a) \<in> set (enumerate (nextId t) products)" "r = (k, name, DText (fst (marshal a)))"
      by (auto simp: productRows_def)
    then show "\<exists>l. scanProduct unmarshal wrap r = Inr l" using scanProduct_new[OF json in_enumerate] by blast
  qed
  have fine: "err = None" if all: "\<forall>i. o' !! i = None" "\<forall>r \<in> set (rowsOf t). \<exists>l. scanProduct unmarshal wrap r = Inr l"
  proof -
    have none: "stl (stl o') !! i = None" for i using all(1)[rule_format, of "Suc (Suc i)"] by simp
    then have e: "e = None" "n = length products" "o1 = sdrop (length products) (stl (stl o'))" using n(3,4) by simp_all
    have o1: "o1 !! i = None" for i unfolding e(3) sdrop_snth using none by simp
    have "\<forall>r \<in> set (rowsOf t1). \<exists>l. scanProduct unmarshal wrap r = Inr l"
      using all(2) n(2) e(2) new by auto
    then have "printRows (scanProduct unmarshal wrap) (rowsOf t1) (stl o1) = (None, map (\<lambda>r. projr (scanProduct unmarshal wrap r)) (rowsOf t1))"
      using o1 by (intro printRows_all) (metis snth.simps(2))+
    then show ?thesis using run True ins e(1) o1[of 0] by (simp add: cmdJSON_def)
  qed
  show ?thesis
    using n(1,2,4) t' done' fine products_scanned[OF json, of wrap "nextId t"] by (intro exI[of _ n]) auto
qed


section \<open>Transactions\<close>

text \<open>What is open: connections, transactions, the database. A log of calls with their outcomes is in order if
  a transaction is begun on an open connection and used and ended while it is open, and nothing is closed
  before what depends on it. A commit that fails leaves the transaction open, so that it has to be rolled
  back, although \<open>database/sql\<close> refuses that rollback with \<open>ErrTxDone\<close>: the stricter reading. A
  rollback ends the transaction even if it reports an error.\<close>

record resources =
  opConns :: "nat list"
  opTxs :: "nat list"
  opDb :: bool

definition removed :: "nat \<Rightarrow> nat list \<Rightarrow> nat list" where
  "removed n xs = filter (\<lambda>x. x \<noteq> n) xs"

fun track :: "txn_call \<times> bool \<Rightarrow> resources \<Rightarrow> resources option" where
  "track (TConn n, ok) s = (if opDb s \<and> n \<notin> set (opConns s) then Some (if ok then s\<lparr>opConns := n # opConns s\<rparr> else s) else None)"
| "track (TBegin n, ok) s = (if n \<in> set (opConns s) \<and> n \<notin> set (opTxs s) then Some (if ok then s\<lparr>opTxs := n # opTxs s\<rparr> else s) else None)"
| "track (TRead n, ok) s = (if n \<in> set (opTxs s) then Some s else None)"
| "track (TWrite n v, ok) s = (if n \<in> set (opTxs s) then Some s else None)"
| "track (TCommit n, ok) s = (if n \<in> set (opTxs s) then Some (if ok then s\<lparr>opTxs := removed n (opTxs s)\<rparr> else s) else None)"
| "track (TRollback n, ok) s = (if n \<in> set (opTxs s) then Some (s\<lparr>opTxs := removed n (opTxs s)\<rparr>) else None)"
| "track (TCloseConn n, ok) s = (if n \<in> set (opConns s) \<and> n \<notin> set (opTxs s) then Some (s\<lparr>opConns := removed n (opConns s)\<rparr>) else None)"
| "track (TCloseDB, ok) s = (if opDb s \<and> opConns s = [] then Some (s\<lparr>opDb := False\<rparr>) else None)"
| "track (_, ok) s = (if opDb s then Some s else None)"

definition allOpen :: "nat list \<Rightarrow> nat list \<Rightarrow> resources" where
  "allOpen cs ts = \<lparr>opConns = cs, opTxs = ts, opDb = True\<rparr>"

definition allClosed :: resources where
  "allClosed = \<lparr>opConns = [], opTxs = [], opDb = False\<rparr>"

definition tracked :: "'e txn_run \<Rightarrow> resources \<Rightarrow> bool" where
  "tracked r s \<longleftrightarrow> foldM track (trLog r) (allOpen [] []) = Some s"

text \<open>Calls that lead to the end whether they succeed or not.\<close>

fun cleans :: "txn_call list \<Rightarrow> resources \<Rightarrow> resources \<Rightarrow> bool" where
  "cleans [] s e \<longleftrightarrow> s = e"
| "cleans (c # cs) s e \<longleftrightarrow> (case track (c, True) s of None \<Rightarrow> False | Some s' \<Rightarrow> track (c, False) s = Some s' \<and> cleans cs s' e)"

lemma call_tracked:
  assumes "tracked r s" "dbCall c r = (err, r')"
  shows "foldM track (trLog r') (allOpen [] []) = track (c, err = None) s"
proof (cases "shd (trNext r)")
  case None
  with assms show ?thesis by (cases "track (c, True) s") (auto simp: tracked_def dbCall_def foldM_append)
next
  case (Some x)
  with assms(2) have "err = Some x" "trLog r' = trLog r @ [(c, False)]" by (auto simp: dbCall_def)
  with assms(1) show ?thesis by (cases "track (c, False) s") (auto simp: tracked_def foldM_append)
qed

lemma ignoring_tracked: "tracked r s \<Longrightarrow> cleans cs s e \<Longrightarrow> tracked (ignoring cs r) e"
proof (induction cs arbitrary: r s)
  case Nil
  then show ?case by (simp add: ignoring_def)
next
  case (Cons c cs)
  obtain s' where s': "track (c, True) s = Some s'" "track (c, False) s = Some s'" "cleans cs s' e"
    using Cons.prems(2) by (auto split: option.splits)
  obtain err r' where r': "dbCall c r = (err, r')" by (cases "dbCall c r")
  have "track (c, err = None) s = Some s'" using s' by (cases err) simp_all
  then have "tracked r' s'" using call_tracked[OF Cons.prems(1) r'] by (simp add: tracked_def)
  from Cons.IH[OF this s'(3)] show ?case by (simp add: ignoring_def r')
qed

text \<open>The rule for a call with its cleaning up.\<close>

lemma attempt_tracked:
  assumes "tracked r s" "track (c, True) s = Some sOk" "track (c, False) s = Some sErr" "cleans cs sErr e"
    and "\<And>r'. tracked r' sOk \<Longrightarrow> tracked (snd (k r')) e"
  shows "tracked (snd (attempt c cs k r)) e"
proof -
  obtain err r' where r': "dbCall c r = (err, r')" by (cases "dbCall c r")
  show ?thesis
  proof (cases err)
    case None
    then have "tracked r' sOk" using call_tracked[OF assms(1) r'] assms(2) by (simp add: tracked_def)
    with assms(5) None r' show ?thesis by (simp add: attempt_def)
  next
    case (Some x)
    then have "tracked r' sErr" using call_tracked[OF assms(1) r'] assms(3) by (simp add: tracked_def)
    from ignoring_tracked[OF this assms(4)] Some r' show ?thesis by (simp add: attempt_def)
  qed
qed

lemma say_tracked [simp]: "tracked (say l r) s = tracked r s"
  by (simp add: tracked_def say_def)

lemmas tracking = allOpen_def allClosed_def removed_def deferredCalls_def bothRolledBack_def

lemma secondTxn_tracked:
  assumes "tracked r (allOpen [2, 1] [2])" shows "tracked (secondTxn showErr bal2 r) (allOpen [2, 1] [])"
proof -
  obtain e1 r1 where r1: "dbCall (TWrite 2 (bal2 + 200)) r = (e1, r1)" by (cases "dbCall (TWrite 2 (bal2 + 200)) r")
  then have t1: "tracked r1 (allOpen [2, 1] [2])" using call_tracked[OF assms r1] by (simp add: tracked_def tracking)
  obtain e2 r2 where r2: "dbCall (TCommit 2) r1 = (e2, r2)" by (cases "dbCall (TCommit 2) r1")
  have t2: "tracked r2 (if e2 = None then allOpen [2, 1] [] else allOpen [2, 1] [2])" using call_tracked[OF t1 r2] by (simp add: tracked_def tracking)
  have c: "cleans [TRollback 2] (allOpen [2, 1] [2]) (allOpen [2, 1] [])" by (simp add: tracking)
  show ?thesis using ignoring_tracked[OF t1 c] ignoring_tracked[OF _ c, of r2] t2 by (auto simp: secondTxn_def r1 r2 split: option.splits)
qed

lemma finalQuery_tracked: "tracked r (allOpen [2, 1] []) \<Longrightarrow> tracked (snd (finalQuery r)) allClosed"
  unfolding finalQuery_def
  by (rule attempt_tracked[where s = "allOpen [2, 1] []" and sOk = "allOpen [2, 1] []" and sErr = "allOpen [2, 1] []"])
    (auto simp: reportFinal_def tracking intro!: ignoring_tracked[where s = "\<lparr>opConns = [2, Suc 0], opTxs = [], opDb = True\<rparr>"])

lemma transactions_tracked:
  assumes "tracked r (allOpen [2, 1] [2, 1])" shows "tracked (snd (transactions showErr r)) allClosed"
proof -
  have c: "tracked (snd (attempt (TCommit 1) bothRolledBack (\<lambda>r. finalQuery (secondTxn showErr b (say l r))) r)) allClosed"
    if r: "tracked r (allOpen [2, 1] [2, 1])" for r :: "'a txn_run" and b l
    by (rule attempt_tracked[OF r, where sOk = "allOpen [2, 1] [2]" and sErr = "allOpen [2, 1] [2, 1]"])
      (simp_all only: finalQuery_tracked secondTxn_tracked say_tracked, simp_all add: tracking)
  show ?thesis unfolding transactions_def Let_def
    by (rule attempt_tracked[where s = "allOpen [2, 1] [2, 1]" and sOk = "allOpen [2, 1] [2, 1]" and sErr = "allOpen [2, 1] [2, 1]"])
      (simp_all only: c say_tracked assms, simp_all add: tracking)
qed

lemma cmdTxn_tracked:
  assumes "trLog r = []" shows "tracked (snd (cmdTxn showErr r)) allClosed"
proof -
  have txns: "tracked (snd (transactions showErr r)) allClosed" if "tracked r (allOpen [2, 1] [2, 1])" for r :: "'a txn_run"
    using that by (rule transactions_tracked)
  have k0: "tracked (snd ((attempt (TRead 2) bothRolledBack (transactions showErr)) r)) allClosed" if r: "tracked r (allOpen [2, 1] [2, 1])" for r :: "'a txn_run"
    by (rule attempt_tracked[OF r, where sOk = "allOpen [2, 1] [2, 1]" and sErr = "allOpen [2, 1] [2, 1]"])
      (simp_all only: txns, simp_all add: tracking)
  have k1: "tracked (snd ((attempt (TRead 1) bothRolledBack (attempt (TRead 2) bothRolledBack (transactions showErr))) r)) allClosed" if r: "tracked r (allOpen [2, 1] [2, 1])" for r :: "'a txn_run"
    by (rule attempt_tracked[OF r, where sOk = "allOpen [2, 1] [2, 1]" and sErr = "allOpen [2, 1] [2, 1]"])
      (simp_all only: k0, simp_all add: tracking)
  have k2: "tracked (snd ((attempt (TBegin 2) (TRollback 1 # deferredCalls 2) (attempt (TRead 1) bothRolledBack (attempt (TRead 2) bothRolledBack (transactions showErr)))) r)) allClosed" if r: "tracked r (allOpen [2, 1] [1])" for r :: "'a txn_run"
    by (rule attempt_tracked[OF r, where sOk = "allOpen [2, 1] [2, 1]" and sErr = "allOpen [2, 1] [1]"])
      (simp_all only: k1, simp_all add: tracking)
  have k3: "tracked (snd ((attempt (TBegin 1) (deferredCalls 2) (attempt (TBegin 2) (TRollback 1 # deferredCalls 2) (attempt (TRead 1) bothRolledBack (attempt (TRead 2) bothRolledBack (transactions showErr))))) r)) allClosed" if r: "tracked r (allOpen [2, 1] [])" for r :: "'a txn_run"
    by (rule attempt_tracked[OF r, where sOk = "allOpen [2, 1] [1]" and sErr = "allOpen [2, 1] []"])
      (simp_all only: k2, simp_all add: tracking)
  have k4: "tracked (snd ((attempt (TConn 2) (deferredCalls 1) (attempt (TBegin 1) (deferredCalls 2) (attempt (TBegin 2) (TRollback 1 # deferredCalls 2) (attempt (TRead 1) bothRolledBack (attempt (TRead 2) bothRolledBack (transactions showErr)))))) r)) allClosed" if r: "tracked r (allOpen [1] [])" for r :: "'a txn_run"
    by (rule attempt_tracked[OF r, where sOk = "allOpen [2, 1] []" and sErr = "allOpen [1] []"])
      (simp_all only: k3, simp_all add: tracking)
  have k5: "tracked (snd ((attempt (TConn 1) (deferredCalls 0) (attempt (TConn 2) (deferredCalls 1) (attempt (TBegin 1) (deferredCalls 2) (attempt (TBegin 2) (TRollback 1 # deferredCalls 2) (attempt (TRead 1) bothRolledBack (attempt (TRead 2) bothRolledBack (transactions showErr))))))) r)) allClosed" if r: "tracked r (allOpen [] [])" for r :: "'a txn_run"
    by (rule attempt_tracked[OF r, where sOk = "allOpen [1] []" and sErr = "allOpen [] []"])
      (simp_all only: k4, simp_all add: tracking)
  have k6: "tracked (snd ((attempt (TSeed) (deferredCalls 0) (attempt (TConn 1) (deferredCalls 0) (attempt (TConn 2) (deferredCalls 1) (attempt (TBegin 1) (deferredCalls 2) (attempt (TBegin 2) (TRollback 1 # deferredCalls 2) (attempt (TRead 1) bothRolledBack (attempt (TRead 2) bothRolledBack (transactions showErr)))))))) r)) allClosed" if r: "tracked r (allOpen [] [])" for r :: "'a txn_run"
    by (rule attempt_tracked[OF r, where sOk = "allOpen [] []" and sErr = "allOpen [] []"])
      (simp_all only: k5, simp_all add: tracking)
  have k7: "tracked (snd ((attempt (TCreate) (deferredCalls 0) (attempt (TSeed) (deferredCalls 0) (attempt (TConn 1) (deferredCalls 0) (attempt (TConn 2) (deferredCalls 1) (attempt (TBegin 1) (deferredCalls 2) (attempt (TBegin 2) (TRollback 1 # deferredCalls 2) (attempt (TRead 1) bothRolledBack (attempt (TRead 2) bothRolledBack (transactions showErr))))))))) r)) allClosed" if r: "tracked r (allOpen [] [])" for r :: "'a txn_run"
    by (rule attempt_tracked[OF r, where sOk = "allOpen [] []" and sErr = "allOpen [] []"])
      (simp_all only: k6, simp_all add: tracking)
  have "tracked r (allOpen [] [])" using assms by (simp add: tracked_def)
  from k7[OF this] show ?thesis by (simp add: cmdTxn_def)
qed


text \<open>What the calls do to the balance if no error is returned.\<close>

lemma attempt_None:
  assumes "fst (attempt c cs k r) = None"
  obtains r' where "attempt c cs k r = k r'" "fst (k r') = None" "trDb r' = applyCall c (trDb r)" "trLog r' = trLog r @ [(c, True)]"
  using assms by (cases "shd (trNext r)") (auto simp: attempt_def dbCall_def)

lemma ignoring_closing:
  assumes "\<forall>c \<in> set cs. \<exists>n. c \<in> {TRollback n, TCloseConn n, TCloseDB}"
  shows "committed (trDb (ignoring cs r)) = committed (trDb r) \<and> ((TCommit n, True) \<in> set (trLog (ignoring cs r)) \<longleftrightarrow> (TCommit n, True) \<in> set (trLog r))"
  using assms
proof (induction cs arbitrary: r)
  case (Cons c cs)
  have "committed (trDb (snd (dbCall c r))) = committed (trDb r) \<and> ((TCommit n, True) \<in> set (trLog (snd (dbCall c r))) \<longleftrightarrow> (TCommit n, True) \<in> set (trLog r))"
    using Cons.prems by (cases "shd (trNext r)") (auto simp: dbCall_def)
  with Cons.IH[of "snd (dbCall c r)"] Cons.prems show ?case by (simp add: ignoring_def)
qed (simp add: ignoring_def)

lemma say_simps [simp]: "trDb (say l r) = trDb r" "trLog (say l r) = trLog r"
  by (simp_all add: say_def)

lemma secondTxn_balance:
  assumes "(TCommit 2, True) \<notin> set (trLog r)" "committed (trDb r) = 100"
  shows "committed (trDb (secondTxn showErr 0 r)) = (if (TCommit 2, True) \<in> set (trLog (secondTxn showErr 0 r)) then 200 else 100)"
proof -
  have rb: "committed (trDb (ignoring [TRollback 2] r)) = committed (trDb r)"
    "(TCommit 2, True) \<in> set (trLog (ignoring [TRollback 2] r)) \<longleftrightarrow> (TCommit 2, True) \<in> set (trLog r)" for r :: "'a txn_run"
    using ignoring_closing[of "[TRollback 2]" r] by auto
  show ?thesis using assms
    by (cases "shd (trNext r)"; cases "shd (stl (trNext r))") (simp_all add: secondTxn_def dbCall_def rb)
qed

lemma finalQuery_balance:
  assumes "fst (finalQuery r) = None"
  shows "committed (trDb (snd (finalQuery r))) = committed (trDb r) \<and>
    ((TCommit 2, True) \<in> set (trLog (snd (finalQuery r))) \<longleftrightarrow> (TCommit 2, True) \<in> set (trLog r))"
proof -
  obtain r' where r': "finalQuery r = reportFinal r'" "trDb r' = applyCall TFinal (trDb r)" "trLog r' = trLog r @ [(TFinal, True)]"
    using assms unfolding finalQuery_def by (elim attempt_None) blast
  obtain l where "snd (reportFinal r') = ignoring (deferredCalls 2) (say l r')" unfolding reportFinal_def by simp
  then show ?thesis using r' ignoring_closing[of "deferredCalls 2" "say l r'" 2] by (auto simp: deferredCalls_def)
qed

definition fresh_run :: "'e txn_run \<Rightarrow> bool" where
  "fresh_run r \<longleftrightarrow> trLog r = [] \<and> trOut r = [] \<and> snapshot (trDb r) = Map.empty \<and> written (trDb r) = Map.empty"

lemma cmdTxn_balance:
  assumes "fresh_run r" "fst (cmdTxn showErr r) = None"
  shows "committed (trDb (snd (cmdTxn showErr r))) = (if (TCommit 2, True) \<in> set (trLog (snd (cmdTxn showErr r))) then 200 else 100)"
proof -
  from assms(2) obtain r1 where r1: "cmdTxn showErr r = transactions showErr r1" "fst (transactions showErr r1) = None"
      "committed (trDb r1) = 0" "snapshot (trDb r1) = [1 \<mapsto> 0, 2 \<mapsto> 0]" "written (trDb r1) = Map.empty" "(TCommit 2, True) \<notin> set (trLog r1)"
    unfolding cmdTxn_def using assms(1) by (elim attempt_None) (auto simp: fresh_run_def)
  have b: "balanceRead 1 r1 = 0" "balanceRead 2 r1 = 0" using r1(4) by (simp_all add: balanceRead_def)
  from r1(2) obtain r2 where r2: "transactions showErr r1 = finalQuery (secondTxn showErr 0 r2)" "fst (finalQuery (secondTxn showErr 0 r2)) = None"
      "committed (trDb r2) = 100" "(TCommit 2, True) \<notin> set (trLog r2)"
    unfolding transactions_def Let_def b by (elim attempt_None) (use r1(5,6) in auto)
  show ?thesis unfolding r1(1) r2(1) using secondTxn_balance[OF r2(4,3), of showErr] finalQuery_balance[OF r2(2)] by simp
qed

text \<open>C37. Whatever calls fail, the command leaves nothing open: a transaction that has been begun is committed
  or rolled back, then both connections are closed, and then the database, each once and in an order that is
  allowed. If no error is returned, the balance at the end tells who has won: 200 exactly if the second
  transaction was allowed to commit over the first, otherwise 100.\<close>

theorem txn_leaves_nothing_open:
  assumes "fresh_run r"
  shows "foldM track (trLog (snd (cmdTxn showErr r))) (allOpen [] []) = Some allClosed \<and>
    (fst (cmdTxn showErr r) = None \<longrightarrow>
      committed (trDb (snd (cmdTxn showErr r))) = (if (TCommit 2, True) \<in> set (trLog (snd (cmdTxn showErr r))) then 200 else 100))"
  using cmdTxn_tracked[of r showErr] cmdTxn_balance[OF assms] assms by (simp add: tracked_def fresh_run_def)

definition conflict_run :: "string txn_run" where
  "conflict_run = \<lparr>trDb = \<lparr>committed = 0, snapshot = Map.empty, written = Map.empty\<rparr>, trLog = [], trOut = [],
     trNext = replicate 10 None @- Some ''database is locked'' ## sconst None\<rparr>"

theorem txn_leaves_nothing_open_witness:
  "foldM track (trLog (snd (cmdTxn id conflict_run))) (allOpen [] []) = Some allClosed \<and> committed (trDb (snd (cmdTxn id conflict_run))) \<in> {100, 200}"
proof -
  have "fresh_run conflict_run" by (simp add: fresh_run_def conflict_run_def)
  from txn_leaves_nothing_open[OF this, of id]
  have "foldM track (trLog (snd (cmdTxn id conflict_run))) (allOpen [] []) = Some allClosed"
    "fst (cmdTxn id conflict_run) = None \<Longrightarrow> committed (trDb (snd (cmdTxn id conflict_run))) \<in> {100, 200}" by (simp_all split: if_splits)
  moreover have "fst (cmdTxn id conflict_run) = None"
    by (simp add: cmdTxn_def transactions_def secondTxn_def finalQuery_def reportFinal_def attempt_def dbCall_def ignoring_def say_def deferredCalls_def conflict_run_def
        numeral_eq_Suc Let_def)
  ultimately show ?thesis by simp
qed

theorem concurrent_inserts_witness:
  "\<exists>c. runTurns [WorkerTurn 3 (Some ''t0''), WorkerTurn 7 None, WorkerTurn 7 None, WorkerTurn 3 (Some ''t1'')] (startWorkers []) = Some c \<and>
    mainResult c = None \<and> (\<exists>t c'. takeTurn t c = Some c')"
proof -
  obtain c where c: "runTurns [WorkerTurn 3 (Some ''t0''), WorkerTurn 7 None, WorkerTurn 7 None, WorkerTurn 3 (Some ''t1'')] (startWorkers []) = Some c"
      "mainResult c = None"
    by (simp add: runTurns_def takeTurn_def workerStep_def startWorkers_def numWorkers_def numInserts_def errcCap_def nth_list_update)
  from concurrent_inserts[OF c(1)] c show ?thesis by blast
qed

definition colourOnly :: "attributes \<Rightarrow> string \<times> string option" where
  "colourOnly a = (Color a, None)"

definition byColour :: "string \<Rightarrow> string + attributes" where
  "byColour b = (case filter (\<lambda>(_, a). Color a = b) products of [] \<Rightarrow> Inl ''no such colour'' | (_, a) # _ \<Rightarrow> Inr a)"

theorem json_column_gives_back_witness:
  "\<exists>t' out. cmdJSON colourOnly byColour (\<lambda>_. ''scan'') \<lparr>nextId = 7, rowsOf = []\<rparr> (sconst None) = (None, t', out) \<and>
    length (rowsOf t') = 3 \<and> out = map (\<lambda>(k, name, a). productLine k name a) (enumerate 7 products)"
proof -
  have "json_ok colourOnly byColour" by (simp add: json_ok_def colourOnly_def byColour_def products_def)
  moreover obtain err t' out where run: "cmdJSON colourOnly byColour (\<lambda>_. ''scan'') \<lparr>nextId = 7, rowsOf = []\<rparr> (sconst None) = (err, t', out)"
    by (cases "cmdJSON colourOnly byColour (\<lambda>_. ''scan'') \<lparr>nextId = 7, rowsOf = []\<rparr> (sconst None)")
  ultimately have "err = None" and all: "err = None \<Longrightarrow> out = map (\<lambda>(k, name, a). productLine k name a) (enumerate 7 products)"
      "err = None \<Longrightarrow> length (rowsOf t') = 3"
    using json_column_gives_back[of colourOnly byColour "\<lambda>_. ''scan''" "\<lparr>nextId = 7, rowsOf = []\<rparr>" "sconst None" err t' out]
    by (auto simp: productRows_def products_def)
  with run all(1)[OF \<open>err = None\<close>] show ?thesis by auto
qed

end
