(* ===== verification/HexzMain.thy ===== *)
theory HexzMain
  imports ServerProps GoHex GoNumbers
begin

text \<open>
  The command \<open>hexz/cmd/server\<close> and the start of the server: the check of the token at the start, what
  \<open>Serve\<close> does before it listens, and who gets to see the status page with that token.
\<close>

section \<open>The command\<close>

text \<open>The flags and their defaults.\<close>

definition defaultConfig :: server_config where
  "defaultConfig = \<lparr>ServerAddress = [], ServerPort = 8084, DocumentRoot = ''./resources'', PlayerRemoveDelay = 60 * 1000000000,
     LoginTtl = 24 * 3600 * 1000000000, CompThinkTime = 5 * 1000000000, AuthTokenSha256 = [], TlsCertChain = [], TlsPrivKey = [], DebugMode = False\<rparr>"

definition hexzFlags :: "server_config flag list" where
  "hexzFlags = [StringVar ''address'' (\<lambda>v c. c\<lparr>ServerAddress := v\<rparr>), IntVar ''port'' (\<lambda>n c. c\<lparr>ServerPort := n\<rparr>),
     StringVar ''resources-dir'' (\<lambda>v c. c\<lparr>DocumentRoot := v\<rparr>),
     DurationVar ''remove-delay'' (\<lambda>d c. c\<lparr>PlayerRemoveDelay := d\<rparr>), DurationVar ''login-ttl'' (\<lambda>d c. c\<lparr>LoginTtl := d\<rparr>),
     DurationVar ''comp-think-time'' (\<lambda>d c. c\<lparr>CompThinkTime := d\<rparr>), BoolVar ''debug'' (\<lambda>b c. c\<lparr>DebugMode := b\<rparr>),
     StringVar ''auth-token'' (\<lambda>v c. c\<lparr>AuthTokenSha256 := v\<rparr>), StringVar ''tls-cert'' (\<lambda>v c. c\<lparr>TlsCertChain := v\<rparr>),
     StringVar ''tls-key'' (\<lambda>v c. c\<lparr>TlsPrivKey := v\<rparr>)]"

text \<open>\<open>[a-fA-F0-9]+\<close> as \<open>MatchString\<close> takes it: there is a match somewhere in the string.\<close>

definition hexClass :: "char \<Rightarrow> bool" where
  "hexClass c \<longleftrightarrow> c \<in> set ''abcdefABCDEF0123456789''"

definition hexMatch :: "string \<Rightarrow> bool" where
  "hexMatch s \<longleftrightarrow> (\<exists>c \<in> set s. hexClass c)"

text \<open>An error message that ends the program, or the configuration of the server.\<close>

definition hexzMain :: "server_config \<Rightarrow> string + server_config" where
  "hexzMain cfg = (if AuthTokenSha256 cfg \<noteq> [] \<and> (length (AuthTokenSha256 cfg) \<noteq> 64 \<or> \<not> hexMatch (AuthTokenSha256 cfg))
     then Inl ''-auth-token must be a SHA256 hex digest'' else Inr cfg)"

section \<open>Helpers of the server\<close>

text \<open>\<open>sha\<close> is SHA-256, with 32 bytes.\<close>

definition sha256HexDigest :: "(string \<Rightarrow> char list) \<Rightarrow> string \<Rightarrow> string" where
  "sha256HexDigest sha pass = hexEncode (sha pass)"

text \<open>The argument are the random bytes.\<close>

definition generatePlayerId :: "char list \<Rightarrow> string" where
  "generatePlayerId p = hexEncode p"

text \<open>\<open>net.SplitHostPort\<close>, of which only the host is used; \<open>loopback\<close> says whether a host is the address of
  a loopback interface, and is \<open>None\<close> if it is no address.\<close>

definition SplitHost :: "string \<Rightarrow> string option" where
  "SplitHost hostport = (let i = LastIndex hostport (CHR '':'') in
     if i < 0 then None
     else if hostport ! 0 = CHR ''['' then
       (if CHR '']'' \<notin> set hostport then None
        else (let end' = length (takeWhile (\<lambda>c. c \<noteq> CHR '']'') hostport); host = drop 1 (take end' hostport) in
          if int end' + 1 = i \<and> CHR ''['' \<notin> set (drop 1 hostport) \<and> CHR '']'' \<notin> set (drop (end' + 1) hostport) then Some host else None))
     else (let host = take (nat i) hostport in
       if CHR '':'' \<in> set host \<or> CHR ''['' \<in> set hostport \<or> CHR '']'' \<in> set hostport then None else Some host))"

definition isLocalAddr :: "(string \<Rightarrow> bool option) \<Rightarrow> string \<Rightarrow> bool" where
  "isLocalAddr loopback addr = (case SplitHost addr of
     None \<Rightarrow> False
   | Some host \<Rightarrow> (case loopback host of None \<Rightarrow> False | Some b \<Rightarrow> b))"

text \<open>Every request is counted before its handler is called.\<close>

definition loggingHandler :: "(server \<Rightarrow> 'a) \<Rightarrow> server \<Rightarrow> 'a" where
  "loggingHandler h s = h (IncCounter_server ''/requests/total'' s)"

text \<open>\<open>Serve\<close>: the page of the game must be readable, the players are loaded; then it listens, with TLS if
  there are both a certificate and a key. \<open>None\<close> is the end of the program.\<close>

record listening =
  lsAddr :: string
  lsTls :: "(string \<times> string) option"

definition Serve :: "(string \<Rightarrow> string option) \<Rightarrow> player list option \<Rightarrow> server \<Rightarrow> (server \<times> listening) option" where
  "Serve files db s = (let cfg = srvConfig s; addr = ServerAddress cfg @ '':'' @ showInt (ServerPort cfg) in
     case readFile files gameHtmlFilename s of
       (None, s) \<Rightarrow> None
     | (Some _, s) \<Rightarrow> Some (loadUserDatabase db s, \<lparr>lsAddr = addr,
         lsTls = (if TlsCertChain cfg \<noteq> [] \<and> TlsPrivKey cfg \<noteq> [] then Some (TlsCertChain cfg, TlsPrivKey cfg) else None)\<rparr>))"

text \<open>The command up to the point where it listens.\<close>

definition startHexz :: "(string \<Rightarrow> string option) \<Rightarrow> player list option \<Rightarrow> int \<Rightarrow> server_config \<Rightarrow> (server \<times> listening) option" where
  "startHexz files db now cfg = (case hexzMain cfg of
     Inl e \<Rightarrow> None
   | Inr cfg \<Rightarrow> do { s \<leftarrow> NewServer cfg now; Serve files db s })"

text \<open>The same from the command line on: a flag that is refused, a fatal error, or the server that listens.\<close>

definition hexzProgram :: "(string \<Rightarrow> string option) \<Rightarrow> player list option \<Rightarrow> int \<Rightarrow> string list \<Rightarrow> flag_error + (server \<times> listening) option" where
  "hexzProgram files db now args = (case parseFlags hexzFlags args defaultConfig of
     Inl e \<Rightarrow> Inl e
   | Inr (cfg, rest) \<Rightarrow> Inr (startHexz files db now cfg))"

text \<open>The route to the status page: logging, then the check of the password.\<close>

definition statuszRoute :: "(string \<Rightarrow> bool option) \<Rightarrow> (string \<Rightarrow> char list) \<Rightarrow> string \<Rightarrow> string option \<Rightarrow>
    (server \<Rightarrow> server \<times> call list) \<Rightarrow> server \<Rightarrow> server \<times> call list" where
  "statuszRoute loopback sha remoteAddr auth h =
     loggingHandler (basicAuthHandlerFunc (sha256HexDigest sha) (isLocalAddr loopback remoteAddr) auth h)"

section \<open>Who sees the status page\<close>

lemma IncCounter_config [simp]: "srvConfig (IncCounter_server n s) = srvConfig s"
  by (simp add: IncCounter_server_def Counter_def Let_def split: prod.splits option.splits)

lemma loadUserDatabase_config [simp]: "srvConfig (loadUserDatabase db s) = srvConfig s"
proof -
  have "srvConfig (fold (\<lambda>p s. if map_of (loggedInPlayers s) (plId p) = None
       then s\<lparr>loggedInPlayers := AList.update (plId p) p (loggedInPlayers s)\<rparr> else s) ps s) = srvConfig s" for ps
    by (induction ps arbitrary: s) simp_all
  then show ?thesis by (simp add: loadUserDatabase_def split: option.splits)
qed

text \<open>The program starts exactly if its flags and its game page are in order, and listens with its flags.\<close>

lemma startHexz_iff:
  "startHexz files db now cfg \<noteq> None \<longleftrightarrow>
     (AuthTokenSha256 cfg = [] \<or> length (AuthTokenSha256 cfg) = 64 \<and> hexMatch (AuthTokenSha256 cfg)) \<and> files gameHtmlFilename \<noteq> None"
  using NewServer_ok[of cfg now] by (auto simp: startHexz_def hexzMain_def Serve_def readFile_def Let_def split: option.splits)

lemma startHexz_config:
  assumes "startHexz files db now cfg = Some (s, l)" shows "srvConfig s = cfg"
proof -
  obtain s0 where "NewServer cfg now = Some s0" "srvConfig s0 = cfg" using NewServer_ok[of cfg now] by blast
  with assms show ?thesis by (auto simp: startHexz_def hexzMain_def Serve_def readFile_def Let_def split: if_splits option.splits)
qed

lemma hexzProgram_started:
  "hexzProgram files db now args = Inr (Some (s, l)) \<Longrightarrow> \<exists>cfg. startHexz files db now cfg = Some (s, l)"
  by (auto simp: hexzProgram_def split: sum.splits prod.splits)

definition lockedOut :: "call list \<Rightarrow> bool" where
  "lockedOut calls \<longleftrightarrow> (\<exists>msg code. code \<in> {401, 403} \<and> last calls = HttpError msg code \<and> calls \<noteq> [])"

lemma statuszRoute_granted:
  assumes "\<not> isLocalAddr loopback addr" "AuthTokenSha256 (srvConfig s) \<noteq> []" "sha256HexDigest sha pass = AuthTokenSha256 (srvConfig s)"
  shows "statuszRoute loopback sha addr (Some pass) h s =
    h (IncCounter_server ''/auth/granted/basic_auth'' (IncCounter_server ''/requests/total'' s))"
  using assms by (simp add: statuszRoute_def loggingHandler_def basicAuthHandlerFunc_def Let_def)

lemma statuszRoute_refused:
  assumes "\<not> isLocalAddr loopback addr"
    and "AuthTokenSha256 (srvConfig s) = [] \<or> auth = None \<or> sha256HexDigest sha (the auth) \<noteq> AuthTokenSha256 (srvConfig s)"
  shows "\<exists>s' calls. lockedOut calls \<and> (\<forall>h. statuszRoute loopback sha addr auth h s = (s', calls))"
proof (cases "AuthTokenSha256 (srvConfig s) = []")
  case True
  then have "\<forall>h. statuszRoute loopback sha addr auth h s =
      (IncCounter_server ''/auth/rejected/nonlocal'' (IncCounter_server ''/requests/total'' s), [HttpError ''Forbidden'' 403])"
    using assms(1) by (simp add: statuszRoute_def loggingHandler_def basicAuthHandlerFunc_def)
  then show ?thesis by (intro exI conjI) (auto simp: lockedOut_def)
next
  case False
  then have "\<forall>h. statuszRoute loopback sha addr auth h s =
      (IncCounter_server (if auth = None then ''/auth/rejected/missing_token'' else ''/auth/rejected/bad_passwd'') (IncCounter_server ''/requests/total'' s),
       [SetHeader ''WWW-Authenticate'' ''Basic realm=\"restricted\", charset=\"UTF-8\"'', HttpError ''Unauthorized'' 401])"
    using assms by (cases auth) (simp_all add: statuszRoute_def loggingHandler_def basicAuthHandlerFunc_def Let_def)
  then show ?thesis by (intro exI conjI) (auto simp: lockedOut_def)
qed

text \<open>C40. On a server that has been started with a token, a request from elsewhere reaches the status page
  exactly if the digest of its password is the token; without a token no such request does. All others get
  401 or 403, and the page is not computed. The digest has 64 lower-case digits, so a token of another
  form, which the check at the start may accept (64 characters with a hexadecimal digit among them, or
  digits in upper case), locks out everybody.\<close>

theorem status_page_needs_password:
  assumes "startHexz files db now cfg = Some (s0, l)" and "srvConfig s = srvConfig s0" and "\<not> isLocalAddr loopback addr"
  shows "(AuthTokenSha256 cfg \<noteq> [] \<and> auth = Some pass \<and> sha256HexDigest sha pass = AuthTokenSha256 cfg \<longrightarrow>
      (\<exists>s'. srvConfig s' = cfg \<and> (\<forall>h. statuszRoute loopback sha addr auth h s = h s'))) \<and>
    (AuthTokenSha256 cfg = [] \<or> auth = None \<or> sha256HexDigest sha (the auth) \<noteq> AuthTokenSha256 cfg \<longrightarrow>
      (\<exists>s' calls. lockedOut calls \<and> (\<forall>h. statuszRoute loopback sha addr auth h s = (s', calls)))) \<and>
    ((\<exists>c \<in> set (AuthTokenSha256 cfg). \<not> lowerHex c) \<longrightarrow> sha256HexDigest sha pass \<noteq> AuthTokenSha256 cfg)"
proof (intro conjI impI)
  have cfg: "srvConfig s = cfg" using startHexz_config[OF assms(1)] assms(2) by simp
  show "\<exists>s'. srvConfig s' = cfg \<and> (\<forall>h. statuszRoute loopback sha addr auth h s = h s')"
    if "AuthTokenSha256 cfg \<noteq> [] \<and> auth = Some pass \<and> sha256HexDigest sha pass = AuthTokenSha256 cfg"
    using that statuszRoute_granted[OF assms(3), of s sha pass] cfg
    by (intro exI[of _ "IncCounter_server ''/auth/granted/basic_auth'' (IncCounter_server ''/requests/total'' s)"]) simp
  show "\<exists>s' calls. lockedOut calls \<and> (\<forall>h. statuszRoute loopback sha addr auth h s = (s', calls))"
    if "AuthTokenSha256 cfg = [] \<or> auth = None \<or> sha256HexDigest sha (the auth) \<noteq> AuthTokenSha256 cfg"
    using statuszRoute_refused[OF assms(3)] that cfg by blast
next
  assume "\<exists>c \<in> set (AuthTokenSha256 cfg). \<not> lowerHex c"
  then show "sha256HexDigest sha pass \<noteq> AuthTokenSha256 cfg" using hexEncode_lower by (metis sha256HexDigest_def)
qed

text \<open>Such a token passes the check.\<close>

definition upperToken :: server_config where
  "upperToken = defaultConfig\<lparr>AuthTokenSha256 := replicate 63 (CHR ''Z'') @ ''A''\<rparr>"

lemma upperToken_accepted: "startHexz (\<lambda>_. Some []) None 0 upperToken \<noteq> None"
  unfolding startHexz_iff by (simp add: upperToken_def defaultConfig_def hexMatch_def hexClass_def)

theorem status_page_needs_password_witness:
  "\<exists>s l. startHexz (\<lambda>_. Some []) None 0 upperToken = Some (s, l) \<and>
     lockedOut (snd (statuszRoute (\<lambda>_. None) (\<lambda>_. replicate 32 (CHR 0x00)) ''10.0.0.1:99'' (Some ''secret'') (\<lambda>s. (s, [])) s))"
proof -
  obtain s l where s: "startHexz (\<lambda>_. Some []) None 0 upperToken = Some (s, l)" using upperToken_accepted by auto
  have "\<not> isLocalAddr (\<lambda>_. None) ''10.0.0.1:99''" by (simp add: isLocalAddr_def split: option.splits)
  note t = status_page_needs_password[OF s refl this]
  have "\<exists>c \<in> set (AuthTokenSha256 upperToken). \<not> lowerHex c" by (simp add: upperToken_def lowerHex_def)
  then have "sha256HexDigest (\<lambda>_. replicate 32 (CHR 0x00)) ''secret'' \<noteq> AuthTokenSha256 upperToken"
    using t[of None "''secret''" "\<lambda>_. replicate 32 (CHR 0x00)"] by blast
  then obtain s' calls where "lockedOut calls"
    "\<forall>h. statuszRoute (\<lambda>_. None) (\<lambda>_. replicate 32 (CHR 0x00)) ''10.0.0.1:99'' (Some ''secret'') h s = (s', calls)"
    using t[of "Some ''secret''" "''secret''" "\<lambda>_. replicate 32 (CHR 0x00)"] by auto
  with s show ?thesis by simp
qed

text \<open>Different random bytes give different players.\<close>

lemma generatePlayerId_inj: "generatePlayerId p = generatePlayerId q \<longleftrightarrow> p = q"
  by (simp add: generatePlayerId_def hexEncode_inj)

lemma SplitHost_examples:
  "SplitHost ''127.0.0.1:80'' = Some ''127.0.0.1''" "SplitHost ''[::1]:80'' = Some ''::1''" "SplitHost ''::1:80'' = None" "SplitHost ''localhost'' = None"
  by (simp_all add: SplitHost_def LastIndex_def Let_def)

end
