(* ===== verification/HexzSystem.thy ===== *)
theory HexzSystem
  imports GameSystemProps HttpProps HexzMain
begin

text \<open>
  The whole server: the routes of \<open>Serve\<close> in \<open>hexz/server.go\<close>, the state of \<open>Server\<close>, and the goroutines
  of all games that have been started. Requests are handled one at a time here, as every access of a
  handler to the shared state is guarded by a mutex; the steps of the games come in between.
\<close>

section \<open>Requests\<close>

text \<open>What the handlers take from outside: files, the table of letters, the JSON codecs, the address of the
  client, SHA-256.\<close>

record hexz_env =
  heFiles :: "string \<Rightarrow> string option"
  heLatin :: "nat \<Rightarrow> bool"
  heMove :: "string \<Rightarrow> string + move_request"
  heReset :: "string \<Rightarrow> string + string"
  heGames :: "game_info list \<Rightarrow> string"
  heStatus :: "statusz \<Rightarrow> string"
  heLoopback :: "string \<Rightarrow> bool option"
  heSha :: "string \<Rightarrow> char list"

text \<open>The random numbers of a request, the address it comes from, and its password.\<close>

record context_of =
  cxBytes :: "char list"
  cxRng :: rng
  cxAddr :: string
  cxAuth :: "string option"

text \<open>How a handler ends: it returns, it panics (\<open>net/http\<close> recovers), or it goes on with the
  registration of a player for the events of a game.\<close>

datatype ending = Done | Panicked | Register player game_handle

abbreviation returns :: "server \<times> call list \<Rightarrow> server \<times> call list \<times> ending" where
  "returns r \<equiv> (fst r, snd r, Done)"

text \<open>A handler that panics has already written an error. \<open>handleNewGame\<close> panics after the counter.\<close>

definition newGameRoute :: "hexz_env \<Rightarrow> context_of \<Rightarrow> request \<Rightarrow> int \<Rightarrow> server \<Rightarrow> server \<times> call list \<times> ending" where
  "newGameRoute e cx r now s = (case handleNewGame (heFiles e) r now (cxRng cx) s of
     Some sc \<Rightarrow> returns sc
   | None \<Rightarrow> (IncCounter_server ''/games/started'' (snd (lookupPlayerFromCookie r now s)),
       [HttpError ''cannot start a new game'' 412], Panicked))"

definition statuszPage :: "hexz_env \<Rightarrow> server \<Rightarrow> server \<times> call list" where
  "statuszPage e s = (s, SetHeader ''Content-Type'' ''application/json'' # (case handleStatusz s of
     None \<Rightarrow> [HttpError ''Serialization error'' 500] | Some resp \<Rightarrow> [HttpWrite (heStatus e resp)]))"

definition sseRoute :: "request \<Rightarrow> int \<Rightarrow> server \<Rightarrow> server \<times> call list \<times> ending" where
  "sseRoute r now s = (case sseOpen r now s of
     (s, Inl calls) \<Rightarrow> (s, calls, Done)
   | (s, Inr (p, g)) \<Rightarrow> (s, [], Register p g))"

definition serveRoute :: "hexz_env \<Rightarrow> context_of \<Rightarrow> request \<Rightarrow> int \<Rightarrow> server \<Rightarrow> route \<Rightarrow> server \<times> call list \<times> ending" where
  "serveRoute e cx r now s rt = (case rt of
     RMove \<Rightarrow> returns (handleMove_http (heMove e) r now s)
   | RReset \<Rightarrow> returns (handleReset_http (heReset e) r now s)
   | RSse \<Rightarrow> sseRoute r now s
   | RLogin \<Rightarrow> returns (handleLoginRequest (heLatin e) (generatePlayerId (cxBytes cx)) r now s)
   | RRules \<Rightarrow> returns (handleFile (heFiles e) rulesHtmlFilename s)
   | RImages \<Rightarrow> returns (handleStaticResource (heFiles e) r s)
   | RHexz \<Rightarrow> returns (handleHexz (heFiles e) r now s)
   | RNew \<Rightarrow> newGameRoute e cx r now s
   | RGamez \<Rightarrow> returns (handleGamez (heGames e) s)
   | RGame \<Rightarrow> returns (handleGame (heFiles e) r now s)
   | RStatusz \<Rightarrow> (case basicAuthHandlerFunc (sha256HexDigest (heSha e)) (isLocalAddr (heLoopback e) (cxAddr cx)) (cxAuth cx) (statuszPage e) s of
       (s', calls) \<Rightarrow> (s', calls, if List.last calls = HttpError ''Serialization error'' 500 then Panicked else Done))
   | RDefault \<Rightarrow> returns (defaultHandler (heFiles e) r s)
   | RMoved path \<Rightarrow> (s, [MovedPermanently path], Done))"

definition serveHTTP :: "hexz_env \<Rightarrow> context_of \<Rightarrow> request \<Rightarrow> int \<Rightarrow> server \<Rightarrow> server \<times> call list \<times> ending" where
  "serveHTTP e cx r now = loggingHandler (\<lambda>s. case muxHandler r of
     None \<Rightarrow> (s, [HttpError ''404 page not found'' 404], Done)
   | Some rt \<Rightarrow> serveRoute e cx r now s rt)"

section \<open>The server and its games\<close>

text \<open>The games in the order in which they were started, the latest first.\<close>

record hexz =
  hxServer :: server
  hxGames :: "(string \<times> sys) list"

text \<open>The handler of a request arrives at the game with that id, which is the latest.\<close>

definition arriveAt :: "string \<Rightarrow> client \<Rightarrow> (string \<times> sys) list \<Rightarrow> (string \<times> sys) list" where
  "arriveAt i c = AList.map_entry i (\<lambda>t. t\<lparr>sysClients := sysClients t @ [c]\<rparr>)"

fun perform :: "rng \<Rightarrow> call \<Rightarrow> (string \<times> sys) list \<Rightarrow> (string \<times> sys) list" where
  "perform src (SendControl i ev) gs = arriveAt i (CPost ev) gs"
| "perform src (GoMaster g) gs = (case startMaster (ghId g) (ghType g) (ghSingle g) src of
     None \<Rightarrow> gs | Some (m, acts) \<Rightarrow> (ghId g, startSys m acts) # gs)"
| "perform src c gs = gs"

definition register :: "ending \<Rightarrow> (string \<times> sys) list \<Rightarrow> (string \<times> sys) list" where
  "register out gs = (case out of Register p g \<Rightarrow> arriveAt (ghId g) (CRegister p) gs | _ \<Rightarrow> gs)"

text \<open>What an action of a master does to the server.\<close>

fun serverEffect :: "action \<Rightarrow> server \<Rightarrow> server" where
  "serverEffect (IncCounter n) s = IncCounter_server n s"
| "serverEffect (DeleteGame i) s = deleteGame i s"
| "serverEffect a s = s"

text \<open>The updates of the statistics by the computer player; a search takes time, so a rate is finite.\<close>

fun updateStat :: "stat_update \<Rightarrow> server \<Rightarrow> server" where
  "updateStat (IncStat n) s = IncCounter_server n s"
| "updateStat (AddStat n v) s = (case v of Fin x \<Rightarrow> (case AddDistribValue n x s of None \<Rightarrow> s | Some r \<Rightarrow> fst r) | _ \<Rightarrow> s)"

inductive hexz_step :: "hexz \<Rightarrow> hexz \<Rightarrow> bool" where
  request: "length (cxBytes cx) = 16 \<Longrightarrow> serveHTTP e cx r now (hxServer h) = (s, calls, out) \<Longrightarrow>
    hexz_step h \<lparr>hxServer = s, hxGames = register out (fold (perform src) calls (hxGames h))\<rparr>"
| master: "k < length (hxGames h) \<Longrightarrow> hxGames h ! k = (i, t) \<Longrightarrow> sysActs t = a # as \<Longrightarrow> master_step t t' \<Longrightarrow>
    hexz_step h \<lparr>hxServer = serverEffect a (hxServer h), hxGames = (hxGames h)[k := (i, t')]\<rparr>"
| select: "k < length (hxGames h) \<Longrightarrow> hxGames h ! k = (i, t) \<Longrightarrow> select_step t t' \<Longrightarrow>
    hexz_step h (h\<lparr>hxGames := (hxGames h)[k := (i, t')]\<rparr>)"
| other: "k < length (hxGames h) \<Longrightarrow> hxGames h ! k = (i, t) \<Longrightarrow> other_step t t' \<Longrightarrow>
    length (sysClients t') = length (sysClients t) \<Longrightarrow> hexz_step h (h\<lparr>hxGames := (hxGames h)[k := (i, t')]\<rparr>)"
| streamed: "n \<in> {''/requests/sse/accepted'', ''/requests/sse/events''} \<Longrightarrow>
    hexz_step h (h\<lparr>hxServer := IncCounter_server n (hxServer h)\<rparr>)"
| measured: "u \<in> set (mctsStats GameTypeFlagz stats elapsed) \<Longrightarrow> hexz_step h (h\<lparr>hxServer := updateStat u (hxServer h)\<rparr>)"
| logged_out: "hexz_step h (h\<lparr>hxServer := fst (logoutInactive now prev (hxServer h))\<rparr>)"
| saved: "hexz_step h (h\<lparr>hxServer := snd (saveIfChanged created changed (hxServer h))\<rparr>)"
| visit: "mset gs = mset (ongoingGames (hxServer h)) \<Longrightarrow> mset ps = mset (loggedInPlayers (hxServer h)) \<Longrightarrow>
    mset cs = mset (counters (hxServer h)) \<Longrightarrow> mset ds = mset (distrib (hxServer h)) \<Longrightarrow>
    hexz_step h (h\<lparr>hxServer := (hxServer h)\<lparr>ongoingGames := gs, loggedInPlayers := ps, counters := cs, distrib := ds\<rparr>\<rparr>)"

text \<open>The data base that is loaded at the start was written by a server, whose ids are random.\<close>

definition db_ok :: "player list option \<Rightarrow> bool" where
  "db_ok db = (case db of None \<Rightarrow> True
   | Some ps \<Rightarrow> length ps \<le> Suc maxLoggedInPlayers \<and> list_all (\<lambda>p. length (plId p) = 32) ps)"

inductive hexz_reachable :: "hexz \<Rightarrow> bool" where
  start: "hexzProgram files db now args = Inr (Some (s, l)) \<Longrightarrow> db_ok db \<Longrightarrow> hexz_reachable \<lparr>hxServer = s, hxGames = []\<rparr>"
| step: "hexz_reachable h \<Longrightarrow> hexz_step h h' \<Longrightarrow> hexz_reachable h'"

section \<open>Games that are listed\<close>

text \<open>A master lists its game until it has carried out its last \<open>DeleteGame\<close>.\<close>

definition deletes :: "action list \<Rightarrow> string list" where
  "deletes as = concat (map (\<lambda>a. case a of DeleteGame i \<Rightarrow> [i] | _ \<Rightarrow> []) as)"

lemma deletes_simps [simp]:
  "deletes [] = []" "deletes (DeleteGame i # as) = i # deletes as" "deletes (as @ bs) = deletes as @ deletes bs"
  "(\<forall>i. a \<noteq> DeleteGame i) \<Longrightarrow> deletes (a # as) = deletes as"
  by (simp_all add: deletes_def split: action.splits)

lemma deletes_none: "deletes as = [] \<longleftrightarrow> (\<forall>i. DeleteGame i \<notin> set as)"
  by (force simp: deletes_def split: action.splits)

definition listed :: "sys \<Rightarrow> bool" where
  "listed t \<longleftrightarrow> \<not> sysOver t \<or> deletes (sysActs t) \<noteq> []"

definition delete_inv :: "sys \<Rightarrow> bool" where
  "delete_inv t \<longleftrightarrow> deletes (sysActs t) = [] \<or> sysOver t \<and> deletes (sysActs t) = [gmId (sysGm t)]"

lemma control_deletes:
  assumes "gm_reachable g" "from_client ev" "handleControl now ev g = Some (g', acts)"
  shows "deletes acts = [] \<and> gmId g' = gmId g \<and> gmType g' = gmType g \<and> gmSingle g' = gmSingle g"
proof -
  obtain cl rest where o: "acts = map CloseCancel cl @ repliesTo g ev @ rest" "produces g ev g' cl rest"
    using control_produces[OF gm_reachable_inv[OF assms(1)] assms(2,3) gm_reachable_inv[OF gm_reachable.control[OF assms]]] by blast
  have "DeleteGame i \<notin> set (map CloseCancel cl @ repliesTo g ev)" for i by (cases ev) (auto simp: repliesTo_def)
  moreover have "DeleteGame i \<notin> set rest" for i using o(2) by (auto simp: produces_def)
  ultimately show ?thesis
    using o(1) control_type[OF gm_reachable_inv[OF assms(1)] assms(2,3)] control_tok[OF assms] by (auto simp: deletes_none)
qed

lemma removal_deletes:
  assumes "gm_reachable g" "handleRemoval now i g = Some (bc @ deferred g)"
  shows "deletes (bc @ deferred (g\<lparr>gmListeners := ls\<rparr>)) = [gmId g]"
proof -
  obtain e where "broadcast now g e = Some bc"
    using assms(2) by (auto simp: handleRemoval_def split: Option.bind_splits)
  from broadcast_quiet[OF gm_reachable_inv[OF assms(1)] this] have "deletes bc = []" unfolding deletes_none by fastforce
  moreover have "deletes (map (\<lambda>(i, ch). CloseListener ch) ls) = []" unfolding deletes_none by auto
  ultimately show ?thesis by (simp add: deferred_def)
qed

text \<open>What a step of a game does to its place in the list.\<close>

definition same_game :: "sys \<Rightarrow> sys \<Rightarrow> bool" where
  "same_game t t' \<longleftrightarrow> gmId (sysGm t') = gmId (sysGm t) \<and> gmType (sysGm t') = gmType (sysGm t) \<and> gmSingle (sysGm t') = gmSingle (sysGm t)"

lemma master_game:
  assumes "delete_inv t" "master_step t t'" "sysActs t = a # as"
  shows "delete_inv t' \<and> same_game t t' \<and>
    (case a of DeleteGame i \<Rightarrow> i = gmId (sysGm t) \<and> listed t \<and> \<not> listed t' | _ \<Rightarrow> listed t' = listed t)"
proof -
  have s: "sysActs t' = as" "sysGm t' = sysGm t" "sysOver t' = sysOver t" using master_step_same[OF assms(2)] assms(3) by auto
  show ?thesis using assms(1,3) s by (cases a) (auto simp: delete_inv_def same_game_def listed_def)
qed

lemma select_game:
  assumes "base_inv t" "delete_inv t" "select_step t t'"
  shows "delete_inv t' \<and> same_game t t' \<and> listed t \<and> listed t'"
proof -
  have g: "gm_reachable (sysGm t)" using assms(1) by (simp add: base_inv_def)
  from assms(1,3) show ?thesis
  proof (cases rule: select_cases)
    case (1 k ev now)
    with control_deletes[OF g 1(4,5)] show ?thesis by (simp add: delete_inv_def same_game_def listed_def idle_def)
  next
    case (2 ev now)
    with control_deletes[OF g is_post_from_client[OF 2(3)] 2(4)] show ?thesis
      by (simp add: delete_inv_def same_game_def listed_def idle_def)
  next
    case (3 now)
    have "deletes (broadcastPing now (sysGm t) ''ping'') = []" unfolding deletes_none by (auto simp: broadcastPing_def)
    with 3 show ?thesis by (simp add: delete_inv_def same_game_def listed_def idle_def)
  next
    case (4 now i bc ls)
    with removal_deletes[OF g 4(2), of ls] show ?thesis by (simp add: delete_inv_def same_game_def listed_def idle_def)
  qed
qed

lemma other_game: "other_step t t' \<Longrightarrow> delete_inv t \<Longrightarrow> delete_inv t' \<and> same_game t t' \<and> listed t' = listed t"
  using other_step_same[of t t'] by (auto simp: delete_inv_def same_game_def listed_def)

section \<open>The list of games\<close>

definition matches_handle :: "game_handle \<Rightarrow> sys \<Rightarrow> bool" where
  "matches_handle g t \<longleftrightarrow> gmType (sysGm t) = ghType g \<and> gmSingle (sysGm t) = ghSingle g"

definition latest :: "(string \<times> sys) list \<Rightarrow> nat \<Rightarrow> bool" where
  "latest gs k \<longleftrightarrow> (\<forall>j < k. fst (gs ! j) \<noteq> fst (gs ! k))"

definition entries_ok :: "(string \<times> sys) list \<Rightarrow> bool" where
  "entries_ok gs \<longleftrightarrow> (\<forall>(i, t) \<in> set gs. sys_reachable t \<and> delete_inv t \<and> gmId (sysGm t) = i)"

definition games_listed :: "(string \<times> game_handle) list \<Rightarrow> (string \<times> sys) list \<Rightarrow> bool" where
  "games_listed og gs \<longleftrightarrow> (\<forall>k < length gs. listed (snd (gs ! k)) \<longrightarrow>
     latest gs k \<and> (\<exists>g. map_of og (fst (gs ! k)) = Some g \<and> matches_handle g (snd (gs ! k))))"

definition games_running :: "(string \<times> game_handle) list \<Rightarrow> (string \<times> sys) list \<Rightarrow> bool" where
  "games_running og gs \<longleftrightarrow> (\<forall>i. map_of og i \<noteq> None \<longrightarrow> (\<exists>k < length gs. fst (gs ! k) = i \<and> listed (snd (gs ! k))))"

lemma latest_map_of: "k < length gs \<Longrightarrow> latest gs k \<Longrightarrow> map_of gs (fst (gs ! k)) = Some (snd (gs ! k))"
proof (induction gs arbitrary: k)
  case (Cons x gs)
  show ?case
  proof (cases k)
    case (Suc j)
    have "fst x \<noteq> fst (gs ! j)" using Cons.prems(2) Suc unfolding latest_def by (metis nth_Cons_0 nth_Cons_Suc zero_less_Suc)
    moreover have "latest gs j" using Cons.prems(2) Suc unfolding latest_def by (metis Suc_mono nth_Cons_Suc)
    ultimately show ?thesis using Cons.IH[of j] Cons.prems(1) Suc by simp
  qed (cases x, simp)
qed simp

lemma latest_update: "k < length gs \<Longrightarrow> gs ! k = (i, t) \<Longrightarrow> latest (gs[k := (i, t')]) = latest gs"
  unfolding latest_def by (rule ext) (metis (no_types, opaque_lifting) fst_conv nth_list_update nth_list_update_neq)

text \<open>An entry that stays listed, or not, changes nothing.\<close>

lemma update_games:
  assumes "k < length gs" "gs ! k = (i, t)" "games_listed og gs" "games_running og gs" "same_game t t'" "listed t' = listed t"
  shows "games_listed og (gs[k := (i, t')]) \<and> games_running og (gs[k := (i, t')])"
proof -
  have f: "fst (gs[k := (i, t')] ! j) = fst (gs ! j)" "listed (snd (gs[k := (i, t')] ! j)) = listed (snd (gs ! j))"
    "matches_handle g (snd (gs[k := (i, t')] ! j)) = matches_handle g (snd (gs ! j))" if "j < length gs" for j g
    using that assms by (cases "j = k"; simp add: matches_handle_def same_game_def)+
  have "games_listed og (gs[k := (i, t')])" using assms(3) f by (simp add: games_listed_def latest_update[OF assms(1,2)])
  moreover have "games_running og (gs[k := (i, t')])"
    using assms(4) f(1,2) unfolding games_running_def length_list_update by metis
  ultimately show ?thesis by blast
qed

text \<open>The last \<open>DeleteGame\<close>.\<close>

lemma delete_games:
  assumes "k < length gs" "gs ! k = (i, t)" "games_listed og gs" "games_running og gs" "listed t" "\<not> listed t'"
  shows "games_listed (AList.delete i og) (gs[k := (i, t')]) \<and> games_running (AList.delete i og) (gs[k := (i, t')])"
proof -
  have only: "fst (gs ! j) \<noteq> i" if "j < length gs" "listed (snd (gs ! j))" "j \<noteq> k" for j
  proof -
    have "latest gs j" "latest gs k" using assms(1-3,5) that by (auto simp: games_listed_def)
    with assms(2) that(3) show ?thesis unfolding latest_def by (metis fst_conv linorder_neqE_nat)
  qed
  have "games_listed (AList.delete i og) (gs[k := (i, t')])"
    unfolding games_listed_def
  proof (intro allI impI)
    fix j assume j: "j < length (gs[k := (i, t')])" "listed (snd (gs[k := (i, t')] ! j))"
    then have "j \<noteq> k" using assms(1,6) by auto
    with j only[of j] assms(3) show "latest (gs[k := (i, t')]) j \<and>
        (\<exists>g. map_of (AList.delete i og) (fst (gs[k := (i, t')] ! j)) = Some g \<and> matches_handle g (snd (gs[k := (i, t')] ! j)))"
      by (simp add: games_listed_def latest_update[OF assms(1,2)] delete_conv')
  qed
  moreover have "games_running (AList.delete i og) (gs[k := (i, t')])"
    unfolding games_running_def
  proof (intro allI impI)
    fix x assume "map_of (AList.delete i og) x \<noteq> None"
    then have x: "x \<noteq> i" "map_of og x \<noteq> None" by (auto simp: delete_conv' split: if_splits)
    then obtain j where "j < length gs" "fst (gs ! j) = x" "listed (snd (gs ! j))" using assms(4) unfolding games_running_def by blast
    moreover from this x(1) assms(2) have "j \<noteq> k" by auto
    ultimately show "\<exists>j < length (gs[k := (i, t')]). fst (gs[k := (i, t')] ! j) = x \<and> listed (snd (gs[k := (i, t')] ! j))"
      by (intro exI[of _ j]) simp
  qed
  ultimately show ?thesis by blast
qed

text \<open>A new game with an id that is not in use.\<close>

lemma new_game:
  assumes "games_listed og gs" "games_running og gs" "map_of og i = None" "listed t" "matches_handle g t"
  shows "games_listed (AList.update i g og) ((i, t) # gs) \<and> games_running (AList.update i g og) ((i, t) # gs)"
proof -
  have "games_listed (AList.update i g og) ((i, t) # gs)"
    unfolding games_listed_def
  proof (intro allI impI)
    fix k assume k: "k < length ((i, t) # gs)" "listed (snd (((i, t) # gs) ! k))"
    show "latest ((i, t) # gs) k \<and> (\<exists>h. map_of (AList.update i g og) (fst (((i, t) # gs) ! k)) = Some h \<and>
        matches_handle h (snd (((i, t) # gs) ! k)))"
    proof (cases k)
      case 0
      with assms(5) show ?thesis by (simp add: latest_def update_conv')
    next
      case (Suc j)
      with k assms(1) obtain h where h: "latest gs j" "map_of og (fst (gs ! j)) = Some h" "matches_handle h (snd (gs ! j))"
        by (auto simp: games_listed_def)
      then have "fst (gs ! j) \<noteq> i" using assms(3) by auto
      moreover have "latest ((i, t) # gs) k" unfolding latest_def
      proof (intro allI impI)
        fix m assume "m < k"
        with h(1) \<open>fst (gs ! j) \<noteq> i\<close> Suc show "fst (((i, t) # gs) ! m) \<noteq> fst (((i, t) # gs) ! k)"
          by (cases m) (auto simp: latest_def)
      qed
      ultimately show ?thesis using h Suc by (simp add: update_conv')
    qed
  qed
  moreover have "games_running (AList.update i g og) ((i, t) # gs)"
    unfolding games_running_def
  proof (intro allI impI)
    fix x assume x: "map_of (AList.update i g og) x \<noteq> None"
    show "\<exists>k < length ((i, t) # gs). fst (((i, t) # gs) ! k) = x \<and> listed (snd (((i, t) # gs) ! k))"
    proof (cases "x = i")
      case True
      with assms(4) show ?thesis by (intro exI[of _ 0]) simp
    next
      case False
      with x assms(2) obtain j where "j < length gs" "fst (gs ! j) = x" "listed (snd (gs ! j))"
        by (auto simp: games_running_def update_conv')
      then show ?thesis by (intro exI[of _ "Suc j"]) simp
    qed
  qed
  ultimately show ?thesis by blast
qed

lemma arriveAt_cases:
  "map_of gs i = None \<and> arriveAt i c gs = gs \<or>
   (\<exists>k t. k < length gs \<and> gs ! k = (i, t) \<and> arriveAt i c gs = gs[k := (i, t\<lparr>sysClients := sysClients t @ [c]\<rparr>)])"
  unfolding arriveAt_def
proof (induction gs)
  case (Cons x gs)
  show ?case
  proof (cases "fst x = i")
    case True
    then show ?thesis by (intro disjI2 exI[of _ 0] exI[of _ "snd x"]) auto
  next
    case False
    with Cons.IH show ?thesis
    proof (elim disjE exE conjE)
      fix k t assume "k < length gs" "gs ! k = (i, t)"
        "AList.map_entry i (\<lambda>t. t\<lparr>sysClients := sysClients t @ [c]\<rparr>) gs = gs[k := (i, t\<lparr>sysClients := sysClients t @ [c]\<rparr>)]"
      with False show ?thesis by (intro disjI2 exI[of _ "Suc k"] exI[of _ t]) simp
    qed (use False in \<open>cases x, simp\<close>)
  qed
qed simp

text \<open>The invariant of the games, and that arrivals keep it.\<close>

definition games_inv :: "(string \<times> game_handle) list \<Rightarrow> (string \<times> sys) list \<Rightarrow> bool" where
  "games_inv og gs \<longleftrightarrow> entries_ok gs \<and> games_listed og gs \<and> games_running og gs"

lemma entries_update:
  assumes "entries_ok gs" "sys_reachable t" "delete_inv t" "gmId (sysGm t) = i"
  shows "entries_ok (gs[k := (i, t)])"
  using assms by (auto simp: entries_ok_def dest!: in_update)

lemma games_inv_update:
  assumes "games_inv og gs" "k < length gs" "gs ! k = (i, t)" "sys_reachable t'" "delete_inv t'" "same_game t t'" "listed t' = listed t"
  shows "games_inv og (gs[k := (i, t')])"
proof -
  have "gmId (sysGm t) = i" using assms(1-3) nth_mem[OF assms(2)] by (auto simp: games_inv_def entries_ok_def)
  then have "gmId (sysGm t') = i" using assms(6) by (simp add: same_game_def)
  then show ?thesis
    using assms entries_update[OF _ assms(4,5)] update_games[OF assms(2,3) _ _ assms(6,7)] by (simp add: games_inv_def)
qed

lemma games_inv_entry:
  assumes "games_inv og gs" "k < length gs" "gs ! k = (i, t)"
  shows "sys_reachable t" "delete_inv t" "gmId (sysGm t) = i"
  using assms nth_mem[OF assms(2)] by (auto simp: games_inv_def entries_ok_def)

lemma arrive_games:
  assumes "games_inv og gs" "arrives c"
  shows "games_inv og (arriveAt i c gs)"
  using arriveAt_cases[of gs i c]
proof (elim disjE exE conjE)
  fix k t assume k: "k < length gs" "gs ! k = (i, t)" "arriveAt i c gs = gs[k := (i, t\<lparr>sysClients := sysClients t @ [c]\<rparr>)]"
  note e = games_inv_entry[OF assms(1) k(1,2)]
  have o: "other_step t (t\<lparr>sysClients := sysClients t @ [c]\<rparr>)" by (rule other_step.arrive[OF assms(2)])
  from other_game[OF o e(2)] show ?thesis
    unfolding k(3) using games_inv_update[OF assms(1) k(1,2) sys_step_intros(3)[OF e(1) o]] by blast
qed (use assms in simp)

section \<open>What the handlers do to the server\<close>

definition sessions_ok :: "server \<Rightarrow> bool" where
  "sessions_ok s \<longleftrightarrow> (\<forall>p \<in> set (loggedInPlayers s). length (fst p) = 32)"

definition good :: "server \<Rightarrow> bool" where
  "good s \<longleftrightarrow> server_reachable s \<and> sessions_ok s"

text \<open>A handler keeps the server in order and does not touch the games.\<close>

definition keeps :: "server \<Rightarrow> server \<Rightarrow> bool" where
  "keeps s s' \<longleftrightarrow> (good s \<longrightarrow> good s') \<and> ongoingGames s' = ongoingGames s"

lemma keeps_refl [simp]: "keeps s s"
  by (simp add: keeps_def)

lemma keeps_trans [trans]: "keeps s s' \<Longrightarrow> keeps s' s'' \<Longrightarrow> keeps s s''"
  by (simp add: keeps_def)

lemma keeps_count: "keeps s s' \<Longrightarrow> keeps s (IncCounter_server n s')"
  using server_reachable.counted by (auto simp: keeps_def good_def sessions_ok_def)

lemma keeps_read: "keeps s s' \<Longrightarrow> keeps s (snd (readFile files n s'))"
  by (simp add: readFile_def keeps_count)

lemma set_fst_update: "p \<in> set (AList.update i v al) \<Longrightarrow> fst p = i \<or> p \<in> set al"
  by (induction al) (auto split: if_splits)

lemma keeps_lookup: "keeps s s' \<Longrightarrow> keeps s (snd (lookupPlayer i now s'))"
proof -
  assume k: "keeps s s'"
  have "sessions_ok (snd (lookupPlayer i now s'))" if "sessions_ok s'"
  proof (cases "map_of (loggedInPlayers s') i")
    case (Some p)
    then have "length i = 32" using that map_of_set[OF Some] by (force simp: sessions_ok_def)
    with Some that show ?thesis by (auto simp: lookupPlayer_def Let_def sessions_ok_def dest!: set_fst_update)
  qed (use that in \<open>simp add: lookupPlayer_def\<close>)
  moreover have "ongoingGames (snd (lookupPlayer i now s')) = ongoingGames s'"
    by (simp add: lookupPlayer_def Let_def split: option.splits)
  ultimately show ?thesis using k server_reachable.seen[of s' i now] by (simp add: keeps_def good_def)
qed

lemma keeps_cookie: "keeps s s' \<Longrightarrow> keeps s (snd (lookupPlayerFromCookie r now s'))"
proof -
  assume k: "keeps s s'"
  have "snd (lookupPlayerFromCookie r now s') = (case map_of (rqCookies r) playerIdCookieName of
      None \<Rightarrow> s' | Some v \<Rightarrow> snd (lookupPlayer v now s'))"
    by (simp add: lookupPlayerFromCookie_def split: option.splits prod.splits)
  with k keeps_lookup[OF k] show ?thesis by (simp split: option.splits)
qed

lemma keeps_post: "keeps s s' \<Longrightarrow> keeps s (snd (validatePostRequest r now s'))"
  using keeps_cookie[of s s' r now] by (auto simp: validatePostRequest_def split: prod.splits sum.splits)

lemma keeps_login: "length i = 32 \<Longrightarrow> keeps s s' \<Longrightarrow> keeps s (snd (loginPlayer i name now s'))"
  using server_reachable.login[of s' i name now]
  by (auto simp: keeps_def good_def loginPlayer_def Let_def sessions_ok_def dest!: set_fst_update)

text \<open>The calls of a handler that starts no game.\<close>

definition calls_ok :: "call list \<Rightarrow> bool" where
  "calls_ok calls \<longleftrightarrow> (\<forall>c \<in> set calls. case c of SendControl i ev \<Rightarrow> is_post ev | GoMaster g \<Rightarrow> False | _ \<Rightarrow> True)"

lemma calls_ok_simps [simp]:
  "calls_ok []" "calls_ok (c # cs) = ((case c of SendControl i ev \<Rightarrow> is_post ev | GoMaster g \<Rightarrow> False | _ \<Rightarrow> True) \<and> calls_ok cs)"
  "calls_ok (xs @ ys) = (calls_ok xs \<and> calls_ok ys)"
  by (auto simp: calls_ok_def)

definition fine :: "server \<Rightarrow> server \<times> call list \<Rightarrow> bool" where
  "fine s r \<longleftrightarrow> keeps s (fst r) \<and> calls_ok (snd r)"

lemma fine_read:
  assumes "keeps s s'" "\<And>x t. keeps s t \<Longrightarrow> fine s (f (x, t))"
  shows "fine s (f (readFile files n s'))"
  using keeps_read[OF assms(1), of files n] assms(2) by (metis prod.collapse)

lemma fine_cookie:
  assumes "keeps s s'" "\<And>x t. keeps s t \<Longrightarrow> fine s (f (x, t))"
  shows "fine s (f (lookupPlayerFromCookie r now s'))"
  using keeps_cookie[OF assms(1), of r now] assms(2) by (metis prod.collapse)

lemma fine_post:
  assumes "keeps s s'" "\<And>x t. keeps s t \<Longrightarrow> fine s (f (x, t))"
  shows "fine s (f (validatePostRequest r now s'))"
  using keeps_post[OF assms(1), of r now] assms(2) by (metis prod.collapse)

lemma fine_login:
  assumes "keeps s s'" "length i = 32" "\<And>x t. keeps s t \<Longrightarrow> fine s (f (x, t))"
  shows "fine s (f (loginPlayer i name now s'))"
  using keeps_login[OF assms(2,1), of name now] assms(3) by (metis prod.collapse)

lemma fine_loginPage: "keeps s s' \<Longrightarrow> fine s (handleLoginPage files s')"
  unfolding handleLoginPage_def by (rule fine_read) (auto simp: fine_def split: option.splits)

lemma fine_file: "keeps s s' \<Longrightarrow> fine s (handleFile files p s')"
proof (cases "validResourceFileExts (Ext p)")
  case None
  assume "keeps s s'"
  with None show ?thesis by (simp add: handleFile_def fine_def)
next
  case (Some ty)
  assume k: "keeps s s'"
  show ?thesis unfolding handleFile_def Some option.case
    by (rule fine_read[OF k]) (auto simp: fine_def split: option.splits)
qed

lemma fine_static: "keeps s s' \<Longrightarrow> fine s (handleStaticResource files r s')"
  using fine_file[of s s' files] by (simp add: handleStaticResource_def Let_def fine_def)

lemma fine_hexz: "keeps s s' \<Longrightarrow> fine s (handleHexz files r now s')"
  unfolding handleHexz_def
proof (rule fine_cookie, assumption)
  fix x t assume t: "keeps s t"
  show "fine s (case (x, t) of (Inl e, s) \<Rightarrow> handleLoginPage files s
   | (Inr p, s) \<Rightarrow> (case readFile files newGameHtmlFilename s of
       (None, s) \<Rightarrow> (s, [HttpError ''Failed to load html'' 500, LogFatal ''Cannot read new game HTML page: ''])
     | (Some html, s) \<Rightarrow> (s, [SetHeader ''Content-Type'' ''text/html'',
         SetCookie (makePlayerCookie (plId p) (LoginTtl (srvConfig s))), HttpWrite html])))"
  proof (cases x)
    case (Inr p)
    show ?thesis unfolding Inr prod.case sum.case
      by (rule fine_read[OF t]) (auto simp: fine_def split: option.splits)
  qed (simp add: fine_loginPage[OF t])
qed

lemma fine_loginRequest:
  assumes "length i = 32" "keeps s s'"
  shows "fine s (handleLoginRequest latin i r now s')"
proof -
  have "fine s (case loginPlayer i name now t of (ok, s) \<Rightarrow> (IncCounter_server ''/requests/login/success'' s,
      (if \<not> ok then [HttpError ''Cannot log in right now'' 412] else []) @
      [SetCookie (makePlayerCookie i (LoginTtl (srvConfig s))), HttpRedirect ''/hexz'' 303]))" if "keeps s t" for name t
    by (rule fine_login[OF that assms(1)]) (simp add: fine_def keeps_count)
  then show ?thesis
    using keeps_count[OF assms(2)] by (simp add: handleLoginRequest_def Let_def fine_def split: option.splits)
qed

lemma fine_default: "keeps s s' \<Longrightarrow> fine s (defaultHandler files r s')"
proof -
  assume k: "keeps s s'"
  have "fine s (case readFile files n t of (None, s) \<Rightarrow> (s, [HttpError ''favicon not found'' 404])
      | (Some ico, s) \<Rightarrow> (s, [SetHeader ''Content-Type'' ''image/png'', HttpWrite ico]))" if "keeps s t" for n t
    by (rule fine_read[OF that]) (auto simp: fine_def split: option.splits)
  from this[OF keeps_count[OF k]] show ?thesis using k keeps_count[OF k] by (simp add: defaultHandler_def fine_def)
qed

lemma fine_game: "keeps s s' \<Longrightarrow> fine s (handleGame files r now s')"
  unfolding handleGame_def
proof (rule fine_cookie, assumption)
  fix x t assume t: "keeps s t"
  show "fine s (case (x, t) of (Inl e, s) \<Rightarrow> (s, [HttpRedirect ''/hexz'' 303])
   | (Inr p, s) \<Rightarrow>
       if lookupGame (gameIdFromPath (rqPath r)) s = None then (s, [HttpRedirect ''/hexz'' 303])
       else (case readFile files gameHtmlFilename s of (html, s) \<Rightarrow>
         (s, (if html = None then [HttpError [] 500] else []) @
             [SetHeader ''Content-Type'' ''text/html'', SetCookie (makePlayerCookie (plId p) (LoginTtl (srvConfig s))),
              HttpWrite (case html of None \<Rightarrow> [] | Some h \<Rightarrow> h)])))"
  proof (cases x)
    case (Inr p)
    have "fine s (case readFile files gameHtmlFilename t of (html, s) \<Rightarrow>
         (s, (if html = None then [HttpError [] 500] else []) @
             [SetHeader ''Content-Type'' ''text/html'', SetCookie (makePlayerCookie (plId p) (LoginTtl (srvConfig s))),
              HttpWrite (case html of None \<Rightarrow> [] | Some h \<Rightarrow> h)]))"
      by (rule fine_read[OF t]) (simp add: fine_def)
    with Inr t show ?thesis by (simp add: fine_def)
  qed (simp add: fine_def t)
qed

lemma fine_move: "keeps s s' \<Longrightarrow> fine s (handleMove_http dec r now s')"
  unfolding handleMove_http_def
  by (rule fine_post) (auto simp: fine_def Let_def is_post_def split: sum.splits option.splits)

lemma fine_reset: "keeps s s' \<Longrightarrow> fine s (handleReset_http dec r now s')"
  unfolding handleReset_http_def
  by (rule fine_post) (auto simp: fine_def Let_def is_post_def split: sum.splits option.splits)

lemma fine_statusz: "keeps s s' \<Longrightarrow> fine s (basicAuthHandlerFunc sha isLocal auth (statuszPage e) s')"
  using keeps_count[of s s'] by (simp add: basicAuthHandlerFunc_def Let_def statuszPage_def fine_def split: option.splits)

section \<open>Every request\<close>

lemma not_computer: "length i = 32 \<Longrightarrow> i \<noteq> playerIdComputer"
  by (auto simp: playerIdComputer_def)

definition outcome_ok :: "ending \<Rightarrow> bool" where
  "outcome_ok out \<longleftrightarrow> (case out of Register p g \<Rightarrow> plId p \<noteq> playerIdComputer | _ \<Rightarrow> True)"

definition plain :: "server \<Rightarrow> server \<times> call list \<times> ending \<Rightarrow> bool" where
  "plain s r \<longleftrightarrow> (good s \<longrightarrow> good (fst r) \<and> outcome_ok (snd (snd r))) \<and> ongoingGames (fst r) = ongoingGames s \<and> calls_ok (fst (snd r))"

definition starts :: "server \<Rightarrow> server \<times> call list \<times> ending \<Rightarrow> bool" where
  "starts s r \<longleftrightarrow> (\<exists>g u. (good s \<longrightarrow> good (fst r)) \<and> snd r = ([GoMaster g, HttpRedirect u 303], Done) \<and>
     map_of (ongoingGames s) (ghId g) = None \<and> ongoingGames (fst r) = AList.update (ghId g) g (ongoingGames s) \<and>
     (ghSingle g \<longrightarrow> supportsSinglePlayer (ghType g)))"

lemma fine_plain: "fine s r \<Longrightarrow> plain s (returns r)"
  by (simp add: fine_def plain_def keeps_def outcome_ok_def)

lemma sse_plain: "keeps s s' \<Longrightarrow> plain s (sseRoute r now s')"
proof -
  assume k: "keeps s s'"
  let ?s = "IncCounter_server ''/requests/sse/incoming'' s'"
  have k': "keeps s ?s" by (rule keeps_count[OF k])
  obtain x t where l: "lookupPlayerFromCookie r now ?s = (x, t)" by (cases "lookupPlayerFromCookie r now ?s")
  have t: "keeps s t" using keeps_cookie[OF k', of r now] l by simp
  show ?thesis
  proof (cases x)
    case (Inl e)
    with l t show ?thesis by (simp add: sseRoute_def sseOpen_def plain_def keeps_def outcome_ok_def)
  next
    case (Inr p)
    have "plId p \<noteq> playerIdComputer" if "good s"
    proof -
      have g: "good ?s" "good t" using k' t that by (simp_all add: keeps_def)
      from lookupPlayerFromCookie_Inr[of ?s r now p t] g(1) l Inr have "map_of (loggedInPlayers t) (plId p) = Some p"
        by (simp add: good_def)
      then have "length (plId p) = 32" using g(2) map_of_set by (force simp: good_def sessions_ok_def)
      then show ?thesis by (rule not_computer)
    qed
    with l t Inr show ?thesis
      by (auto simp: sseRoute_def sseOpen_def plain_def keeps_def outcome_ok_def Let_def split: option.splits)
  qed
qed

lemma newGameOf_route:
  assumes "keeps s t" "server_ok t" "newGameOf p ty single now rs t = Some (s', calls)"
  shows "fine s (s', calls) \<or> starts s (s', calls, Done)"
proof (cases "\<exists>g. GoMaster g \<in> set calls")
  case True
  then obtain g s2 where n: "single = Some True \<longrightarrow> supportsSinglePlayer ty"
    "startNewGame (plName p) ty (single = Some True) now rs t = Some (Inr g, s2)"
    "s' = IncCounter_server ''/games/started'' s2" "calls = [GoMaster g, HttpRedirect (''/hexz/'' @ ghId g) 303]"
    using newGameOf_started[OF assms(3)] by metis
  from startLoop_ok[OF assms(2), of 100 "plName p" ty "single = Some True" now rs] n(2)
  have g: "map_of (ongoingGames t) (ghId g) = None" "s2 = t\<lparr>ongoingGames := AList.update (ghId g) g (ongoingGames t)\<rparr>"
    "g = \<lparr>ghId = ghId g, ghStarted = now, ghType = ty, ghHost = plName p, ghSingle = (single = Some True)\<rparr>"
    by (auto simp: startNewGame_def)
  have f: "ghType g = ty" "ghSingle g = (single = Some True)" by (subst g(3), simp)+
  have "good s2" if "good t"
    using that server_reachable.started[of t _ _ _ _ _ "Inr g" s2] n(2) g(2) by (auto simp: good_def sessions_ok_def)
  then have "good s \<longrightarrow> good s'" using assms(1) keeps_count[OF keeps_refl, of s2] n(3) by (simp add: keeps_def)
  with n g f assms(1) show ?thesis by (auto simp: starts_def keeps_def)
next
  case False
  consider "s' = t" "calls_ok calls" | g where "GoMaster g \<in> set calls"
    using assms(3) by (auto simp: newGameOf_def split: if_splits Option.bind_splits sum.splits)
  then show ?thesis
  proof cases
    case 1
    with assms(1) show ?thesis by (simp add: fine_def)
  qed (use False in blast)
qed

lemma newGame_route:
  assumes "good s" "keeps s s'"
  shows "plain s (newGameRoute e cx r now s') \<or> starts s (newGameRoute e cx r now s')"
proof (cases "handleNewGame (heFiles e) r now (cxRng cx) s'")
  case None
  have "keeps s (IncCounter_server ''/games/started'' (snd (lookupPlayerFromCookie r now s')))"
    by (rule keeps_count[OF keeps_cookie[OF assms(2)]])
  with None show ?thesis by (simp add: newGameRoute_def plain_def keeps_def outcome_ok_def)
next
  case (Some sc)
  obtain x t where l: "lookupPlayerFromCookie r now s' = (x, t)" by (cases "lookupPlayerFromCookie r now s'")
  have t: "keeps s t" using keeps_cookie[OF assms(2), of r now] l by simp
  then have "server_ok t" using assms(1) server_reachable_ok by (simp add: keeps_def good_def)
  note N = newGameOf_route[OF t this]
  have "fine s sc \<or> starts s (returns sc)"
  proof (cases "rqMethod r = ''POST''")
    case False
    with Some assms(2) show ?thesis by (auto simp: handleNewGame_def fine_def)
  next
    case True
    show ?thesis
    proof (cases x)
      case (Inl er)
      with Some True l fine_loginPage[OF t] show ?thesis by (auto simp: handleNewGame_def)
    next
      case (Inr p)
      with Some True l t N show ?thesis
        by (cases sc) (auto simp: handleNewGame_def Let_def fine_def split: option.splits if_splits)
    qed
  qed
  then show ?thesis using Some fine_plain by (auto simp: newGameRoute_def)
qed

lemma serve_route:
  assumes "good s" "length (cxBytes cx) = 16" "keeps s s'"
  shows "plain s (serveRoute e cx r now s' rt) \<or> starts s (serveRoute e cx r now s' rt)"
proof (cases rt)
  case RNew
  with newGame_route[OF assms(1,3)] show ?thesis by (simp add: serveRoute_def)
next
  case RSse
  with sse_plain[OF assms(3)] show ?thesis by (simp add: serveRoute_def)
next
  case RStatusz
  obtain s2 calls where b: "basicAuthHandlerFunc (sha256HexDigest (heSha e)) (isLocalAddr (heLoopback e) (cxAddr cx)) (cxAuth cx)
      (statuszPage e) s' = (s2, calls)" by fastforce
  have "fine s (s2, calls)"
    using fine_statusz[OF assms(3), of "sha256HexDigest (heSha e)" "isLocalAddr (heLoopback e) (cxAddr cx)" "cxAuth cx" e] b by simp
  with b RStatusz show ?thesis by (simp add: serveRoute_def plain_def fine_def keeps_def outcome_ok_def)
next
  case RLogin
  have "length (generatePlayerId (cxBytes cx)) = 32" using assms(2) by (simp add: generatePlayerId_def)
  from fine_plain[OF fine_loginRequest[OF this assms(3)]] RLogin show ?thesis by (simp add: serveRoute_def)
next
  case RGamez
  with assms(3) show ?thesis by (simp add: serveRoute_def handleGamez_def plain_def keeps_def outcome_ok_def)
next
  case RMove
  with fine_plain[OF fine_move[OF assms(3)]] show ?thesis by (simp add: serveRoute_def)
next
  case RReset
  with fine_plain[OF fine_reset[OF assms(3)]] show ?thesis by (simp add: serveRoute_def)
next
  case RRules
  with fine_plain[OF fine_file[OF assms(3)]] show ?thesis by (simp add: serveRoute_def)
next
  case RImages
  with fine_plain[OF fine_static[OF assms(3)]] show ?thesis by (simp add: serveRoute_def)
next
  case RHexz
  with fine_plain[OF fine_hexz[OF assms(3)]] show ?thesis by (simp add: serveRoute_def)
next
  case RGame
  with fine_plain[OF fine_game[OF assms(3)]] show ?thesis by (simp add: serveRoute_def)
next
  case RDefault
  with fine_plain[OF fine_default[OF assms(3)]] show ?thesis by (simp add: serveRoute_def)
next
  case (RMoved path)
  with assms(3) show ?thesis by (simp add: serveRoute_def plain_def keeps_def outcome_ok_def)
qed

lemma serve_HTTP:
  assumes "good s" "length (cxBytes cx) = 16"
  shows "plain s (serveHTTP e cx r now s) \<or> starts s (serveHTTP e cx r now s)"
proof -
  have k: "keeps s (IncCounter_server ''/requests/total'' s)" by (rule keeps_count[OF keeps_refl])
  show ?thesis
  proof (cases "muxHandler r")
    case None
    with k show ?thesis by (simp add: serveHTTP_def loggingHandler_def plain_def keeps_def outcome_ok_def)
  next
    case (Some rt)
    with serve_route[OF assms k] show ?thesis by (simp add: serveHTTP_def loggingHandler_def)
  qed
qed

section \<open>The invariant of the whole server\<close>

definition hexz_inv :: "hexz \<Rightarrow> bool" where
  "hexz_inv h \<longleftrightarrow> good (hxServer h) \<and> games_inv (ongoingGames (hxServer h)) (hxGames h)"

lemma posts_games:
  assumes "calls_ok calls" "games_inv og gs"
  shows "games_inv og (fold (perform src) calls gs)"
  using assms
proof (induction calls arbitrary: gs)
  case (Cons c calls)
  have "games_inv og (perform src c gs)"
    using Cons.prems arrive_games[OF Cons.prems(2)] by (cases c) (simp_all add: arrives_def)
  with Cons show ?case by simp
qed simp

lemma register_games:
  assumes "outcome_ok out" "games_inv og gs"
  shows "games_inv og (register out gs)"
  using assms arrive_games[OF assms(2)] by (cases out) (simp_all add: register_def outcome_ok_def arrives_def)

lemma go_games:
  assumes "games_inv og gs" "map_of og (ghId g) = None" "ghSingle g \<longrightarrow> supportsSinglePlayer (ghType g)"
  shows "games_inv (AList.update (ghId g) g og) (perform src (GoMaster g) gs)"
proof -
  obtain m where m: "startMaster (ghId g) (ghType g) (ghSingle g) src = Some (m, [gameCounter m ''/started''])"
    "gmSingle m = ghSingle g" "gmType m = ghType g" using startMaster_ok[OF assms(3), of "ghId g" src] by blast
  have "gmId m = ghId g" using m(1) by (auto simp: startMaster_def Let_def split: Option.bind_splits)
  moreover have "sys_reachable (startSys m [gameCounter m ''/started''])" by (rule sys_reachable.start[OF m(1) assms(3)])
  moreover have "delete_inv (startSys m [gameCounter m ''/started''])" "listed (startSys m [gameCounter m ''/started''])"
    by (simp_all add: delete_inv_def listed_def startSys_def gameCounter_def)
  moreover have "matches_handle g (startSys m [gameCounter m ''/started''])" using m by (simp add: matches_handle_def startSys_def)
  ultimately show ?thesis
    using assms(1) m(1) new_game[of og gs "ghId g"] assms(2) by (auto simp: games_inv_def entries_ok_def startSys_def)
qed

lemma good_intros:
  "good s \<Longrightarrow> good (IncCounter_server n s)" "good s \<Longrightarrow> good (deleteGame i s)"
  "good s \<Longrightarrow> good (fst (logoutInactive now prev s))" "good s \<Longrightarrow> good (updateStat u s)"
  "good s \<Longrightarrow> mset gs = mset (ongoingGames s) \<Longrightarrow> mset ps = mset (loggedInPlayers s) \<Longrightarrow>
    mset cs = mset (counters s) \<Longrightarrow> mset ds = mset (distrib s) \<Longrightarrow>
    good (s\<lparr>ongoingGames := gs, loggedInPlayers := ps, counters := cs, distrib := ds\<rparr>)"
proof -
  show inc: "good (IncCounter_server n s)" if "good s" for n s using keeps_count[OF keeps_refl] that by (simp add: keeps_def)
  show "good (deleteGame i s)" if "good s"
    using that server_reachable.finished by (auto simp: good_def sessions_ok_def deleteGame_def)
  have "set (fold (\<lambda>p. AList.delete (plId p)) del al) \<subseteq> set al" for del and al :: "(string \<times> player) list"
  proof (induction del arbitrary: al)
    case (Cons p del)
    from Cons[of "AList.delete (plId p) al"] delete_set_subset[of "plId p" al] show ?case by auto
  qed simp
  then show "good (fst (logoutInactive now prev s))" if "good s"
    using that server_reachable.logged_out[of s now prev] by (fastforce simp: good_def sessions_ok_def logoutInactive_players)
  show "good (updateStat u s)" if "good s"
  proof (cases u)
    case (AddStat n v)
    have "loggedInPlayers (fst r) = loggedInPlayers s" if "AddDistribValue n x s = Some r" for x r
      using that by (auto simp: AddDistribValue_def split: option.splits)
    with AddStat \<open>good s\<close> server_reachable.measured[of s n] show ?thesis
      by (auto simp: good_def sessions_ok_def split: uct.splits option.splits)
  qed (use inc that in simp)
  show "good (s\<lparr>ongoingGames := gs, loggedInPlayers := ps, counters := cs, distrib := ds\<rparr>)"
    if "good s" "mset gs = mset (ongoingGames s)" "mset ps = mset (loggedInPlayers s)"
      "mset cs = mset (counters s)" "mset ds = mset (distrib s)"
    using that server_reachable.range_order mset_eq_setD[OF that(3)] by (simp add: good_def sessions_ok_def)
qed

lemma request_inv:
  assumes "hexz_inv h" "length (cxBytes cx) = 16" "serveHTTP e cx r now (hxServer h) = (s, calls, out)"
  shows "hexz_inv \<lparr>hxServer = s, hxGames = register out (fold (perform src) calls (hxGames h))\<rparr>"
proof -
  have g: "good (hxServer h)" and gi: "games_inv (ongoingGames (hxServer h)) (hxGames h)" using assms(1) by (simp_all add: hexz_inv_def)
  from serve_HTTP[OF g assms(2), of e r now] assms(3) consider "plain (hxServer h) (s, calls, out)" | "starts (hxServer h) (s, calls, out)" by auto
  then show ?thesis
  proof cases
    case 1
    then have p: "good s" "outcome_ok out" "ongoingGames s = ongoingGames (hxServer h)" "calls_ok calls" using g by (simp_all add: plain_def)
    from register_games[OF p(2) posts_games[OF p(4) gi]] p show ?thesis by (simp add: hexz_inv_def)
  next
    case 2
    then obtain k u where k: "good s" "calls = [GoMaster k, HttpRedirect u 303]" "out = Done" "map_of (ongoingGames (hxServer h)) (ghId k) = None"
      "ongoingGames s = AList.update (ghId k) k (ongoingGames (hxServer h))" "ghSingle k \<longrightarrow> supportsSinglePlayer (ghType k)"
      using g by (auto simp: starts_def)
    from go_games[OF gi k(4,6), of src] k show ?thesis by (simp add: hexz_inv_def register_def)
  qed
qed

lemma master_inv:
  assumes "hexz_inv h" "k < length (hxGames h)" "hxGames h ! k = (i, t)" "sysActs t = a # as" "master_step t t'"
  shows "hexz_inv \<lparr>hxServer = serverEffect a (hxServer h), hxGames = (hxGames h)[k := (i, t')]\<rparr>"
proof -
  have g: "good (hxServer h)" and gi: "games_inv (ongoingGames (hxServer h)) (hxGames h)" using assms(1) by (simp_all add: hexz_inv_def)
  note e = games_inv_entry[OF gi assms(2,3)]
  note M = master_game[OF e(2) assms(5,4)]
  have r: "sys_reachable t'" by (rule sys_step_intros(1)[OF e(1) assms(5)])
  have "good (serverEffect a (hxServer h))" using g good_intros(1,2) by (cases a) simp_all
  moreover have "games_inv (ongoingGames (serverEffect a (hxServer h))) ((hxGames h)[k := (i, t')])"
  proof (cases "\<exists>j. a = DeleteGame j")
    case True
    then have "a = DeleteGame i" "listed t" "\<not> listed t'" "delete_inv t'" "gmId (sysGm t') = i"
      using M e(3) by (auto simp: same_game_def)
    with delete_games[OF assms(2,3)] entries_update[OF _ r] gi show ?thesis by (simp add: games_inv_def deleteGame_def)
  next
    case False
    then have "listed t' = listed t" "ongoingGames (serverEffect a (hxServer h)) = ongoingGames (hxServer h)"
      using M keeps_count[OF keeps_refl] by (cases a; simp add: keeps_def)+
    with games_inv_update[OF gi assms(2,3) r] M show ?thesis by simp
  qed
  ultimately show ?thesis by (simp add: hexz_inv_def)
qed

lemma AddDistribValue_games: "AddDistribValue n x s = Some r \<Longrightarrow> ongoingGames (fst r) = ongoingGames s"
  by (auto simp: AddDistribValue_def split: option.splits)

lemma updateStat_games: "ongoingGames (updateStat u s) = ongoingGames s"
  using keeps_count[OF keeps_refl] AddDistribValue_games by (cases u) (auto simp: keeps_def split: uct.splits option.splits)

lemma maintenance_games:
  "ongoingGames (fst (logoutInactive now prev s)) = ongoingGames s"
  "ongoingGames (snd (saveIfChanged created changed s)) = ongoingGames s"
  "good s \<Longrightarrow> good (snd (saveIfChanged created changed s))"
  using keeps_count[OF keeps_refl] good_intros(1)
  by (simp_all add: logoutInactive_def saveIfChanged_state Let_def keeps_def)

lemma games_inv_perm:
  assumes "games_inv og gs" "distinct (map fst og)" "mset og' = mset og"
  shows "games_inv og' gs"
proof -
  have "map_of og' = map_of og" by (rule map_of_inject_set[THEN iffD2])
      (use assms mset_distinct_map[OF assms(3), of fst] mset_eq_setD[OF assms(3)] in simp_all)
  with assms(1) show ?thesis by (simp add: games_inv_def games_listed_def games_running_def)
qed

lemma hexz_inv_step:
  assumes "hexz_inv h" "hexz_step h h'"
  shows "hexz_inv h'"
proof -
  have g: "good (hxServer h)" and gi: "games_inv (ongoingGames (hxServer h)) (hxGames h)" using assms(1) by (simp_all add: hexz_inv_def)
  from assms(2) show ?thesis
  proof cases
    case (request cx e r now s calls out src)
    with request_inv[OF assms(1)] show ?thesis by simp
  next
    case (master k i t a as t')
    with master_inv[OF assms(1)] show ?thesis by simp
  next
    case (select k i t t')
    note e = games_inv_entry[OF gi select(2,3)]
    from select_game[OF sys_reachable_base[OF e(1)] e(2) select(4)]
      games_inv_update[OF gi select(2,3) sys_step_intros(2)[OF e(1) select(4)]] g select(1)
    show ?thesis by (simp add: hexz_inv_def)
  next
    case (other k i t t')
    note e = games_inv_entry[OF gi other(2,3)]
    from other_game[OF other(4) e(2)] games_inv_update[OF gi other(2,3) sys_step_intros(3)[OF e(1) other(4)]] g other(1)
    show ?thesis by (simp add: hexz_inv_def)
  next
    case (streamed n)
    with g gi good_intros(1) keeps_count[OF keeps_refl] show ?thesis by (simp add: hexz_inv_def keeps_def)
  next
    case (measured u stats elapsed)
    with g gi good_intros(4) updateStat_games show ?thesis by (simp add: hexz_inv_def)
  next
    case (logged_out now prev)
    with g gi good_intros(3) maintenance_games(1) show ?thesis by (simp add: hexz_inv_def)
  next
    case (saved created changed)
    with g gi maintenance_games(2,3) show ?thesis by (simp add: hexz_inv_def)
  next
    case (visit gs ps cs ds)
    have "distinct (map fst (ongoingGames (hxServer h)))"
      using g server_okD(1)[OF server_reachable_ok] by (simp add: good_def keyed_def)
    from games_inv_perm[OF gi this visit(2)] good_intros(5)[OF g visit(2-5)] visit(1) show ?thesis by (simp add: hexz_inv_def)
  qed
qed

text \<open>One player of the data base.\<close>

abbreviation addSession :: "player \<Rightarrow> server \<Rightarrow> server" where
  "addSession p s \<equiv> if map_of (loggedInPlayers s) (plId p) = None
     then s\<lparr>loggedInPlayers := AList.update (plId p) p (loggedInPlayers s)\<rparr> else s"

lemma load_count: "fold addSession ps (IncCounter_server n t) = IncCounter_server n (fold addSession ps t)"
proof (induction ps arbitrary: t)
  case (Cons p ps)
  have "addSession p (IncCounter_server n t) = IncCounter_server n (addSession p t)" by (simp add: IncCounter_eq)
  with Cons show ?case by simp
qed simp

lemma load_sessions:
  "list_all (\<lambda>p. length (plId p) = 32) ps \<Longrightarrow> sessions_ok t \<Longrightarrow>
    sessions_ok (fold addSession ps t) \<and> ongoingGames (fold addSession ps t) = ongoingGames t"
proof (induction ps arbitrary: t)
  case (Cons p ps)
  have "sessions_ok (addSession p t)" using Cons.prems by (auto simp: sessions_ok_def dest!: set_fst_update)
  with Cons.IH[OF _ this] Cons.prems(1) show ?case by simp
qed simp

lemma started_server:
  assumes "startHexz files db now cfg = Some (s, l)"
  obtains s0 where "NewServer cfg now = Some s0" "ongoingGames s0 = []" "loggedInPlayers s0 = []"
    "s = IncCounter_server ''/storage/files/readfile'' (loadUserDatabase db s0)"
proof -
  let ?n = "''/storage/files/readfile''"
  obtain s0 where s0: "NewServer cfg now = Some s0" "ongoingGames s0 = []" "loggedInPlayers s0 = []" using NewServer_ok[of cfg now] by blast
  have "s = loadUserDatabase db (IncCounter_server ?n s0)"
    using assms s0(1) by (auto simp: startHexz_def hexzMain_def Serve_def readFile_def Let_def split: if_splits option.splits)
  with s0 load_count[of _ ?n s0] that show ?thesis by (simp add: loadUserDatabase_def split: option.splits)
qed

lemma started_good:
  assumes "startHexz files db now cfg = Some (s, l)" "db_ok db"
  shows "good s \<and> ongoingGames s = []"
proof -
  obtain s0 where s0: "NewServer cfg now = Some s0" "ongoingGames s0 = []" "loggedInPlayers s0 = []"
    "s = IncCounter_server ''/storage/files/readfile'' (loadUserDatabase db s0)" using started_server[OF assms(1)] .
  have "case db of None \<Rightarrow> True | Some ps \<Rightarrow> length ps \<le> Suc maxLoggedInPlayers"
    using assms(2) by (auto simp: db_ok_def split: option.splits)
  then have r: "server_reachable (loadUserDatabase db s0)" by (rule server_reachable.start[OF s0(1)])
  have "sessions_ok s0" using s0(3) by (simp add: sessions_ok_def)
  with load_sessions[OF _ this] s0(2) assms(2) have "sessions_ok (loadUserDatabase db s0) \<and> ongoingGames (loadUserDatabase db s0) = []"
    by (simp add: loadUserDatabase_def db_ok_def split: option.splits)
  then have "good (loadUserDatabase db s0)" "ongoingGames (loadUserDatabase db s0) = []" using r by (simp_all add: good_def)
  then show ?thesis using good_intros(1) keeps_count[OF keeps_refl] s0(4) by (simp add: keeps_def)
qed

lemma hexz_reachable_inv: "hexz_reachable h \<Longrightarrow> hexz_inv h"
proof (induction rule: hexz_reachable.induct)
  case (start files db now args s l)
  then obtain cfg where "startHexz files db now cfg = Some (s, l)" using hexzProgram_started by blast
  from started_good[OF this start(2)] show ?case
    by (simp add: hexz_inv_def games_inv_def entries_ok_def games_listed_def games_running_def)
qed (rule hexz_inv_step)

section \<open>The properties\<close>

text \<open>Ann, whose session was saved, starts a game.\<close>

lemma game_started: "\<exists>h i t. hexz_reachable h \<and> (i, t) \<in> set (hxGames h) \<and> \<not> sysOver t"
proof -
  let ?j = "replicate 32 (CHR ''7'')" and ?r = "sconst 0"
  let ?p = "\<lparr>plId = ?j, plName = ''Ann'', plLastActive = 0\<rparr>"
  let ?f = "\<lambda>n. Some []" and ?db = "Some [?p]" and ?c = "IncCounter_server ''/requests/total''"
  have "startHexz ?f ?db 0 defaultConfig \<noteq> None" unfolding startHexz_iff by (simp add: defaultConfig_def)
  then obtain s l where s: "startHexz ?f ?db 0 defaultConfig = Some (s, l)" by fastforce
  have db: "db_ok ?db" by (simp add: db_ok_def maxLoggedInPlayers_def)
  obtain s0 where s0: "loggedInPlayers s0 = []" "ongoingGames s0 = []" "s = IncCounter_server ''/storage/files/readfile'' (loadUserDatabase ?db s0)"
    using started_server[OF s] .
  have "loggedInPlayers (?c s) = [(?j, ?p)]" "ongoingGames (?c s) = []"
    using s0 by (simp_all add: loadUserDatabase_def IncCounter_eq)
  from new_game_from[OF this, of ?f] obtain s' g u
    where n: "handleNewGame ?f (newGameRequest ?j) 1 ?r (?c s) = Some (s', [GoMaster g, HttpRedirect u 303])" by blast
  define e where "e = \<lparr>heFiles = ?f, heLatin = (\<lambda>_. False), heMove = (\<lambda>_. Inl []), heReset = (\<lambda>_. Inl []), heGames = (\<lambda>_. []),
    heStatus = (\<lambda>_. []), heLoopback = (\<lambda>_. None), heSha = (\<lambda>_. [])\<rparr>"
  define cx where "cx = \<lparr>cxBytes = replicate 16 (CHR ''7''), cxRng = ?r, cxAddr = [], cxAuth = None\<rparr>"
  have d: "muxHandler (newGameRequest ?j) = Some RNew"
    by (simp add: newGameRequest_def muxHandler_def dispatch_def cleanPath_def Clean_rooted_def redirectToPathSlash_def
        muxMatch_def routes_def matches_def HasSuffix_def HasPrefix_def sortSlice_def)
  have h: "serveHTTP e cx (newGameRequest ?j) 1 s = (s', [GoMaster g, HttpRedirect u 303], Done)"
    unfolding serveHTTP_def loggingHandler_def d using n by (simp add: serveRoute_def newGameRoute_def e_def cx_def)
  have "hexzProgram ?f ?db 0 [] = Inr (Some (s, l))" using s by (simp add: hexzProgram_def)
  then have r: "hexz_reachable \<lparr>hxServer = s, hxGames = []\<rparr>" using db by (rule hexz_reachable.start)
  have "good s" using started_good[OF s db] by blast
  from serve_HTTP[OF this, of cx e "newGameRequest ?j" 1] h have "ghSingle g \<longrightarrow> supportsSinglePlayer (ghType g)"
    by (auto simp: cx_def starts_def plain_def)
  from startMaster_ok[OF this, of "ghId g" ?r] obtain m where m: "startMaster (ghId g) (ghType g) (ghSingle g) ?r = Some (m, [gameCounter m ''/started''])" by blast
  have "length (cxBytes cx) = 16" by (simp add: cx_def)
  from hexz_reachable.step[OF r hexz_step.request[OF this, of e "newGameRequest ?j" 1 "\<lparr>hxServer = s, hxGames = []\<rparr>" s' _ Done ?r]] h m
  have "hexz_reachable \<lparr>hxServer = s', hxGames = [(ghId g, startSys m [gameCounter m ''/started''])]\<rparr>" by (simp add: register_def)
  then show ?thesis by (intro exI conjI) (assumption, auto simp: startSys_def)
qed

text \<open>C18. Whatever requests arrive, and however the goroutines of the games are interleaved: a game that is
  in the list of the server is run by a master of its own that has not finished, with the type and the
  mode it was started with, so that a request that looks it up reaches it. Conversely every game that
  is not over is in the list under its id. All games are in a state that the theorems on the
  goroutines of one game are about.\<close>

theorem listed_games_are_running:
  assumes "hexz_reachable h"
  shows "(\<forall>i g. lookupGame i (hxServer h) = Some g \<longrightarrow>
      (\<exists>t. map_of (hxGames h) i = Some t \<and> gmId (sysGm t) = i \<and> gmType (sysGm t) = ghType g \<and>
         gmSingle (sysGm t) = ghSingle g \<and> DoneCh \<notin> set (sysClosed t))) \<and>
    (\<forall>(i, t) \<in> set (hxGames h). sys_reachable t \<and>
      (\<not> sysOver t \<longrightarrow> map_of (hxGames h) i = Some t \<and> (\<exists>g. lookupGame i (hxServer h) = Some g)))"
proof -
  let ?og = "ongoingGames (hxServer h)" and ?gs = "hxGames h"
  have gi: "games_inv ?og ?gs" using hexz_reachable_inv[OF assms] by (simp add: hexz_inv_def)
  have one: "latest ?gs k \<and> (\<exists>g. map_of ?og (fst (?gs ! k)) = Some g \<and> matches_handle g (snd (?gs ! k)))"
    if "k < length ?gs" "listed (snd (?gs ! k))" for k using gi that by (simp add: games_inv_def games_listed_def)
  have "\<exists>t. map_of ?gs i = Some t \<and> gmId (sysGm t) = i \<and> gmType (sysGm t) = ghType g \<and> gmSingle (sysGm t) = ghSingle g \<and>
      DoneCh \<notin> set (sysClosed t)" if g: "lookupGame i (hxServer h) = Some g" for i g
  proof -
    obtain k where k: "k < length ?gs" "fst (?gs ! k) = i" "listed (snd (?gs ! k))"
      using gi g by (auto simp: games_inv_def games_running_def lookupGame_def)
    let ?t = "snd (?gs ! k)"
    have e: "?gs ! k = (i, ?t)" using k(2) by (simp add: prod_eq_iff)
    note E = games_inv_entry[OF gi k(1) e]
    have "DoneCh \<notin> set (sysClosed ?t)"
    proof (cases "sysOver ?t")
      case True
      then have "sysActs ?t \<noteq> []" using k(3) by (auto simp: listed_def)
      then have "CloseDone \<in> set (sysActs ?t)"
        using sys_reachable_chans[OF E(1)] True by (metis chan_inv_def last_in_set)
      with sys_reachable_chans[OF E(1)] show ?thesis using channels_ok_disjoint by (force simp: chan_inv_def)
    next
      case False
      with sys_reachable_chans[OF E(1)] show ?thesis by (auto simp: chan_inv_def shut_def live_def)
    qed
    with latest_map_of[OF k(1)] one[OF k(1,3)] k(2) g E(3) show ?thesis by (auto simp: lookupGame_def matches_handle_def)
  qed
  moreover have "sys_reachable t \<and> (\<not> sysOver t \<longrightarrow> map_of ?gs i = Some t \<and> (\<exists>g. lookupGame i (hxServer h) = Some g))"
    if m: "(i, t) \<in> set ?gs" for i t
  proof -
    obtain k where k: "k < length ?gs" "?gs ! k = (i, t)" using m by (auto simp: in_set_conv_nth)
    have "map_of ?gs i = Some t \<and> (\<exists>g. lookupGame i (hxServer h) = Some g)" if "\<not> sysOver t"
    proof -
      have "listed t" using that by (simp add: listed_def)
      with one[OF k(1)] latest_map_of[OF k(1)] k(2) show ?thesis by (auto simp: lookupGame_def)
    qed
    with games_inv_entry[OF gi k] show ?thesis by blast
  qed
  ultimately show ?thesis by blast
qed

theorem listed_games_are_running_witness:
  "\<exists>h i g t. hexz_reachable h \<and> lookupGame i (hxServer h) = Some g \<and> map_of (hxGames h) i = Some t \<and>
     gmType (sysGm t) = ghType g \<and> gmSingle (sysGm t) = ghSingle g \<and> DoneCh \<notin> set (sysClosed t)"
proof -
  obtain h i t where h: "hexz_reachable h" "(i, t) \<in> set (hxGames h)" "\<not> sysOver t" using game_started by blast
  note L = listed_games_are_running[OF h(1)]
  from L h(2,3) obtain g where g: "lookupGame i (hxServer h) = Some g" by fastforce
  with L h(1) show ?thesis by blast
qed

end
