(* ===== verification/RpzMain.thy ===== *)
theory RpzMain
  imports RpzStore GoFlag
begin

text \<open>
  The commands \<open>rpz/cmd/server\<close> and \<open>rpz/cmd/database\<close> from their arguments on. Of the latter, goroutines query the database at the same time, the first error
  stops all of them, and the main goroutine waits until they are gone. A run is any sequence of steps of the
  goroutines; the outcome of a query is an argument.
\<close>

section \<open>The program\<close>

text \<open>A goroutine has queries to make, or is in the \<open>select\<close> with its error, or has ended. The main goroutine
  is in its \<open>select\<close>, has received an error, has cancelled the others, or is at its end.\<close>

datatype 'e querier = Querying nat | Failing 'e | Ended

datatype 'e main_pc = Selecting | Received 'e | Draining 'e | Over "'e option"

record 'e query_run =
  gors :: "'e querier list"
  cancelledCtx :: bool
  coordClosed :: bool
  mainPc :: "'e main_pc"
  succeeded :: nat
  failures :: "(nat \<times> 'e) list"

text \<open>Steps: the next query of a goroutine with its error if it fails, a goroutine hands its error to the main
  goroutine, or gives up as the context is cancelled; all have ended; the main goroutine goes on.\<close>

datatype 'e query_step = QueryTurn nat "'e option" | HandOver nat | GiveUp nat | CloseCoord | MainGoes

definition queryTurn :: "nat \<Rightarrow> 'e option \<Rightarrow> 'e query_run \<Rightarrow> 'e query_run option" where
  "queryTurn g outcome s = (if length (gors s) \<le> g then None else (case gors s ! g of
     Querying 0 \<Rightarrow> Some (s\<lparr>gors := (gors s)[g := Ended]\<rparr>)
   | Querying (Suc n) \<Rightarrow> (case outcome of
       None \<Rightarrow> Some (s\<lparr>gors := (gors s)[g := Querying n], succeeded := succeeded s + 1\<rparr>)
     | Some e \<Rightarrow> Some (s\<lparr>gors := (gors s)[g := Failing e], failures := failures s @ [(g, e)]\<rparr>))
   | _ \<Rightarrow> None))"

definition handOver :: "nat \<Rightarrow> 'e query_run \<Rightarrow> 'e query_run option" where
  "handOver g s = (if length (gors s) \<le> g then None else (case (gors s ! g, mainPc s) of
     (Failing e, Selecting) \<Rightarrow> Some (s\<lparr>gors := (gors s)[g := Ended], mainPc := Received e\<rparr>)
   | _ \<Rightarrow> None))"

definition giveUp :: "nat \<Rightarrow> 'e query_run \<Rightarrow> 'e query_run option" where
  "giveUp g s = (if length (gors s) \<le> g then None else (case gors s ! g of
     Failing e \<Rightarrow> if cancelledCtx s then Some (s\<lparr>gors := (gors s)[g := Ended]\<rparr>) else None
   | _ \<Rightarrow> None))"

definition closeCoord :: "'e query_run \<Rightarrow> 'e query_run option" where
  "closeCoord s = (if \<not> coordClosed s \<and> (\<forall>g \<in> set (gors s). g = Ended) then Some (s\<lparr>coordClosed := True\<rparr>) else None)"

definition mainGoes :: "'e query_run \<Rightarrow> 'e query_run option" where
  "mainGoes s = (case mainPc s of
     Selecting \<Rightarrow> if coordClosed s then Some (s\<lparr>mainPc := Over None\<rparr>) else None
   | Received e \<Rightarrow> Some (s\<lparr>cancelledCtx := True, mainPc := Draining e\<rparr>)
   | Draining e \<Rightarrow> if coordClosed s then Some (s\<lparr>mainPc := Over (Some e)\<rparr>) else None
   | Over _ \<Rightarrow> None)"

fun queryStep :: "'e query_step \<Rightarrow> 'e query_run \<Rightarrow> 'e query_run option" where
  "queryStep (QueryTurn g outcome) s = queryTurn g outcome s"
| "queryStep (HandOver g) s = handOver g s"
| "queryStep (GiveUp g) s = giveUp g s"
| "queryStep CloseCoord s = closeCoord s"
| "queryStep MainGoes s = mainGoes s"

definition startQueries :: "nat \<Rightarrow> nat \<Rightarrow> 'e query_run" where
  "startQueries goroCount queryCount = \<lparr>gors = replicate goroCount (Querying queryCount), cancelledCtx = False, coordClosed = False,
     mainPc = Selecting, succeeded = 0, failures = []\<rparr>"

definition runQueries :: "'e query_step list \<Rightarrow> 'e query_run \<Rightarrow> 'e query_run option" where
  "runQueries = foldM queryStep"

text \<open>The items to query: inserted now, or those that are in the table.\<close>

definition chooseItems :: "'d pgx_pool \<Rightarrow> nat \<Rightarrow> int \<Rightarrow> int \<Rightarrow> rng \<Rightarrow> 'd \<Rightarrow> ((string + string list) \<times> rng \<times> 'd) option" where
  "chooseItems pool itemCount payloadLen now r d =
    (if 0 < itemCount then insertItems pool itemCount payloadLen now r d
     else Some (GetAllItemIDs pool d, r, d))"

text \<open>The command \<open>rpz/cmd/server\<close>: which server is started.\<close>

datatype rpz_server = StartGRPC rpz_config "string \<Rightarrow> item option" | StartHTTP string rpz_config "string \<Rightarrow> item option" | UnknownMode string

definition rpzServerMain :: "string \<Rightarrow> rpz_config \<Rightarrow> rpz_server" where
  "rpzServerMain mode config = (if mode = ''grpc'' then StartGRPC config NewGRPCServer
     else if mode = ''http'' then (let proto = (if Insecure config then ''http'' else ''https'') in StartHTTP proto config NewHTTPServer)
     else UnknownMode mode)"

definition rpzServerFlags :: "(string \<times> rpz_config) flag list" where
  "rpzServerFlags = [StringVar ''mode'' (\<lambda>v (m, c). (v, c)), BoolVar ''insecure'' (\<lambda>b (m, c). (m, c\<lparr>Insecure := b\<rparr>)),
     StringVar ''tls-cert'' (\<lambda>v (m, c). (m, c\<lparr>CertFile := v\<rparr>)), StringVar ''tls-key'' (\<lambda>v (m, c). (m, c\<lparr>KeyFile := v\<rparr>)),
     IntVar ''payload-bytes'' (\<lambda>n (m, c). (m, c\<lparr>PayloadBytes := n\<rparr>))]"

definition rpzServerDefaults :: "string \<times> rpz_config" where
  "rpzServerDefaults = (''grpc'', \<lparr>Insecure = False, CertFile = ''certs/dev_cert.pem'', KeyFile = ''certs/dev_key.pem'', PayloadBytes = 0\<rparr>)"

definition rpzServerProgram :: "string list \<Rightarrow> flag_error + rpz_server" where
  "rpzServerProgram args = (case parseFlags rpzServerFlags args rpzServerDefaults of
     Inl e \<Rightarrow> Inl e | Inr ((mode, config), rest) \<Rightarrow> Inr (rpzServerMain mode config))"

text \<open>The command \<open>rpz/cmd/database\<close> up to the start of the queries: \<open>connect\<close> is \<open>db.New\<close>. A wait group that
  is told a negative number panics.\<close>

record database_flags =
  dbPayloadLen :: int
  dbItems :: int
  dbQueries :: int
  dbGoroutines :: int
  dbConn :: string

definition databaseDefaults :: database_flags where
  "databaseDefaults = \<lparr>dbPayloadLen = 1024, dbItems = 1024, dbQueries = 4096, dbGoroutines = 1,
     dbConn = ''postgres://loadtest_client@localhost/loadtest''\<rparr>"

definition databaseFlags :: "database_flags flag list" where
  "databaseFlags = [IntVar ''payload-len'' (\<lambda>n f. f\<lparr>dbPayloadLen := n\<rparr>), IntVar ''items'' (\<lambda>n f. f\<lparr>dbItems := n\<rparr>),
     IntVar ''queries'' (\<lambda>n f. f\<lparr>dbQueries := n\<rparr>), IntVar ''goroutines'' (\<lambda>n f. f\<lparr>dbGoroutines := n\<rparr>),
     StringVar ''conn'' (\<lambda>v f. f\<lparr>dbConn := v\<rparr>)]"

datatype ('d, 'e) database_end = DatabaseRefuses flag_error | DatabaseFatal string | DatabasePanic
  | DatabaseQueries "string list" rng 'd "'e query_run"

definition databaseProgram :: "'d pgx_pool \<Rightarrow> (string \<Rightarrow> string + 'd) \<Rightarrow> int \<Rightarrow> rng \<Rightarrow> string list \<Rightarrow> ('d, 'e) database_end" where
  "databaseProgram pool connect now r args = (case parseFlags databaseFlags args databaseDefaults of
     Inl e \<Rightarrow> DatabaseRefuses e
   | Inr (f, rest) \<Rightarrow> (case connect (dbConn f) of
       Inl e \<Rightarrow> DatabaseFatal e
     | Inr d \<Rightarrow> (case chooseItems pool (nat (dbItems f)) (dbPayloadLen f) now r d of
         None \<Rightarrow> DatabasePanic
       | Some (Inl e, r, d) \<Rightarrow> DatabaseFatal e
       | Some (Inr itemIDs, r, d) \<Rightarrow> if dbGoroutines f < 0 then DatabasePanic
           else DatabaseQueries itemIDs r d (startQueries (nat (dbGoroutines f)) (nat (dbQueries f))))))"

section \<open>Every run comes to an end, and no error is lost\<close>

fun queriesLeft :: "'e querier \<Rightarrow> nat" where
  "queriesLeft (Querying n) = n"
| "queriesLeft _ = 0"

fun querierSteps :: "'e querier \<Rightarrow> nat" where
  "querierSteps (Querying n) = n + 1"
| "querierSteps (Failing e) = 1"
| "querierSteps Ended = 0"

fun mainSteps :: "'e main_pc \<Rightarrow> nat" where
  "mainSteps Selecting = 3"
| "mainSteps (Received e) = 2"
| "mainSteps (Draining e) = 1"
| "mainSteps (Over r) = 0"

definition queryMeasure :: "'e query_run \<Rightarrow> nat" where
  "queryMeasure s = sum_list (map querierSteps (gors s)) + mainSteps (mainPc s) + (if coordClosed s then 0 else 1)"

fun isFailing :: "'e querier \<Rightarrow> bool" where
  "isFailing (Failing e) = True"
| "isFailing _ = False"

fun errOf :: "'e main_pc \<Rightarrow> 'e option" where
  "errOf Selecting = None"
| "errOf (Received e) = Some e"
| "errOf (Draining e) = Some e"
| "errOf (Over r) = r"

text \<open>Until the main goroutine has an error, every failure is still in the hands of its goroutine; errors come
  from failures; the order of the phases; without a failure all queries are accounted for.\<close>

definition pending :: "'e query_run \<Rightarrow> bool" where
  "pending s \<longleftrightarrow> (errOf (mainPc s) = None \<longrightarrow> int (length (failures s)) = cnt isFailing (gors s))"

definition known :: "'e query_run \<Rightarrow> bool" where
  "known s \<longleftrightarrow> (\<forall>e. Failing e \<in> set (gors s) \<longrightarrow> e \<in> snd ` set (failures s)) \<and> (\<forall>e. errOf (mainPc s) = Some e \<longrightarrow> e \<in> snd ` set (failures s))"

definition phases :: "'e query_run \<Rightarrow> bool" where
  "phases s \<longleftrightarrow> (coordClosed s \<longrightarrow> (\<forall>g \<in> set (gors s). g = Ended)) \<and> (\<forall>e. mainPc s = Draining e \<longrightarrow> cancelledCtx s) \<and>
     (\<forall>r. mainPc s = Over r \<longrightarrow> coordClosed s) \<and> (cancelledCtx s \<longrightarrow> errOf (mainPc s) \<noteq> None)"

definition accounted :: "nat \<Rightarrow> 'e query_run \<Rightarrow> bool" where
  "accounted tot s \<longleftrightarrow> (failures s = [] \<longrightarrow> succeeded s + sum_list (map queriesLeft (gors s)) = tot)"

definition query_inv :: "nat \<Rightarrow> 'e query_run \<Rightarrow> bool" where
  "query_inv tot s \<longleftrightarrow> pending s \<and> known s \<and> phases s \<and> accounted tot s"

lemma sum_update_nat:
  fixes f :: "'a \<Rightarrow> nat"
  assumes "g < length xs"
  shows "sum_list (map f (xs[g := x])) + f (xs ! g) = sum_list (map f xs) + f x"
proof -
  have "f (xs ! g) \<le> sum_list (map f xs)" using assms by (intro member_le_sum_list) simp_all
  then show ?thesis using assms by (simp add: map_update sum_list_update)
qed

lemma known_update:
  "Failing e \<in> set (xs[g := x]) \<Longrightarrow> x = Failing e \<or> Failing e \<in> set xs"
  using set_update_subset_insert[of xs g x] by blast

text \<open>A step of a goroutine \<open>g\<close>, which is not at its end, to \<open>x\<close>.\<close>

lemma gor_step_ok:
  assumes inv: "query_inv tot s" and g: "g < length (gors s)" "gors s ! g \<noteq> Ended" "querierSteps x < querierSteps (gors s ! g)"
    and s': "gors s' = (gors s)[g := x]" "coordClosed s' = coordClosed s" "cancelledCtx s' = cancelledCtx s"
    and m: "mainPc s' = mainPc s \<or> mainPc s = Selecting \<and> (\<exists>e. mainPc s' = Received e \<and> gors s ! g = Failing e)"
    and f: "failures s' = failures s \<and> (isFailing x \<longrightarrow> x = gors s ! g) \<or> (\<exists>e. failures s' = failures s @ [(g, e)] \<and> x = Failing e \<and> \<not> isFailing (gors s ! g))"
    and p: "errOf (mainPc s') = None \<Longrightarrow> failures s' = failures s \<Longrightarrow> \<not> isFailing (gors s ! g)"
    and a: "failures s' = [] \<Longrightarrow> succeeded s' + queriesLeft x = succeeded s + queriesLeft (gors s ! g)"
  shows "query_inv tot s' \<and> queryMeasure s' < queryMeasure s"
proof (intro conjI)
  have closed: "\<not> coordClosed s" using inv g(1,2) unfolding query_inv_def phases_def by (metis nth_mem)
  have c: "cnt isFailing (gors s') = cnt isFailing (gors s) - of_bool (isFailing (gors s ! g)) + of_bool (isFailing x)"
    unfolding s'(1) by (rule cnt_update[OF g(1)])
  have in_set: "gors s ! g \<in> set (gors s)" using g(1) by (rule nth_mem)
  have none: "errOf (mainPc s) = None" if "errOf (mainPc s') = None" using that m by auto
  have "pending s'" unfolding pending_def
  proof
    assume e: "errOf (mainPc s') = None"
    have old: "int (length (failures s)) = cnt isFailing (gors s)" using inv none[OF e] by (simp add: query_inv_def pending_def)
    from f show "int (length (failures s')) = cnt isFailing (gors s')"
      by (elim disjE exE conjE) (use old c p[OF e] in auto)
  qed
  moreover have "known s'" unfolding known_def
  proof (intro conjI allI impI)
    fix e assume "Failing e \<in> set (gors s')"
    then have "x = Failing e \<or> Failing e \<in> set (gors s)" unfolding s'(1) by (rule known_update)
    then show "e \<in> snd ` set (failures s')" using f inv in_set by (auto simp: query_inv_def known_def)
  next
    fix e assume "errOf (mainPc s') = Some e"
    then show "e \<in> snd ` set (failures s')" using m f inv in_set by (auto simp: query_inv_def known_def)
  qed
  moreover have "phases s'"
    using m by (elim disjE exE conjE) (use inv closed in \<open>simp_all add: query_inv_def phases_def s'(2,3)\<close>)
  moreover have "accounted tot s'"
    using inv f a sum_update_nat[OF g(1), of queriesLeft x] unfolding query_inv_def accounted_def s'(1) by auto
  ultimately show "query_inv tot s'" by (simp add: query_inv_def)
  have "mainSteps (mainPc s') \<le> mainSteps (mainPc s)" using m by auto
  then show "queryMeasure s' < queryMeasure s"
    using sum_update_nat[OF g(1), of querierSteps x] g(3) unfolding queryMeasure_def s'(1,2) by linarith
qed

lemma queryTurn_ok:
  assumes "query_inv tot s" "queryTurn g outcome s = Some s'"
  shows "query_inv tot s' \<and> queryMeasure s' < queryMeasure s"
proof -
  have g: "g < length (gors s)" using assms(2) by (auto simp: queryTurn_def split: if_splits)
  consider "gors s ! g = Querying 0" "s' = s\<lparr>gors := (gors s)[g := Ended]\<rparr>"
    | n where "gors s ! g = Querying (Suc n)" "s' = s\<lparr>gors := (gors s)[g := Querying n], succeeded := succeeded s + 1\<rparr>"
    | n e where "gors s ! g = Querying (Suc n)" "s' = s\<lparr>gors := (gors s)[g := Failing e], failures := failures s @ [(g, e)]\<rparr>"
    using assms(2) by (auto simp: queryTurn_def split: if_splits querier.splits nat.splits option.splits)
  then show ?thesis
  proof cases
    case 1
    then show ?thesis by (intro gor_step_ok[OF assms(1) g, of Ended]) simp_all
  next
    case (2 n)
    then show ?thesis by (intro gor_step_ok[OF assms(1) g, of "Querying n"]) simp_all
  next
    case (3 n e)
    then show ?thesis by (intro gor_step_ok[OF assms(1) g, of "Failing e"]) simp_all
  qed
qed

lemma handOver_ok:
  assumes "query_inv tot s" "handOver g s = Some s'"
  shows "query_inv tot s' \<and> queryMeasure s' < queryMeasure s"
proof -
  have g: "g < length (gors s)" using assms(2) by (auto simp: handOver_def split: if_splits)
  obtain e where "gors s ! g = Failing e" "mainPc s = Selecting" "s' = s\<lparr>gors := (gors s)[g := Ended], mainPc := Received e\<rparr>"
    using assms(2) by (auto simp: handOver_def split: if_splits querier.splits main_pc.splits)
  then show ?thesis by (intro gor_step_ok[OF assms(1) g, of Ended]) simp_all
qed

lemma giveUp_ok:
  assumes "query_inv tot s" "giveUp g s = Some s'"
  shows "query_inv tot s' \<and> queryMeasure s' < queryMeasure s"
proof -
  have g: "g < length (gors s)" using assms(2) by (auto simp: giveUp_def split: if_splits)
  obtain e where e: "gors s ! g = Failing e" "cancelledCtx s" "s' = s\<lparr>gors := (gors s)[g := Ended]\<rparr>"
    using assms(2) by (auto simp: giveUp_def split: if_splits querier.splits)
  have "errOf (mainPc s) \<noteq> None" using assms(1) e(2) by (simp add: query_inv_def phases_def)
  with e show ?thesis by (intro gor_step_ok[OF assms(1) g, of Ended]) simp_all
qed

lemma closeCoord_ok:
  assumes "query_inv tot s" "closeCoord s = Some s'"
  shows "query_inv tot s' \<and> queryMeasure s' < queryMeasure s"
proof -
  have "\<not> coordClosed s" "\<forall>g \<in> set (gors s). g = Ended" "s' = s\<lparr>coordClosed := True\<rparr>"
    using assms(2) by (simp_all add: closeCoord_def split: if_splits)
  with assms(1) show ?thesis
    by (simp add: query_inv_def pending_def known_def phases_def accounted_def queryMeasure_def)
qed

text \<open>A step of the main goroutine, to its next position.\<close>

lemma main_step_ok:
  assumes inv: "query_inv tot s"
    and s': "gors s' = gors s" "coordClosed s' = coordClosed s" "succeeded s' = succeeded s" "failures s' = failures s"
    and m: "errOf (mainPc s') = errOf (mainPc s)" "mainSteps (mainPc s') < mainSteps (mainPc s)"
      "\<And>e. mainPc s' = Draining e \<Longrightarrow> cancelledCtx s'" "\<And>r. mainPc s' = Over r \<Longrightarrow> coordClosed s" "cancelledCtx s' \<longrightarrow> errOf (mainPc s') \<noteq> None"
  shows "query_inv tot s' \<and> queryMeasure s' < queryMeasure s"
proof (intro conjI)
  have "pending s'" "known s'" "accounted tot s'"
    using inv m(1) by (simp_all add: s' query_inv_def pending_def known_def accounted_def)
  moreover have "phases s'" using inv m(3-5) by (simp add: s' query_inv_def phases_def)
  ultimately show "query_inv tot s'" by (simp add: query_inv_def)
  show "queryMeasure s' < queryMeasure s" using m(2) by (simp add: s' queryMeasure_def)
qed

lemma mainGoes_ok:
  assumes "query_inv tot s" "mainGoes s = Some s'"
  shows "query_inv tot s' \<and> queryMeasure s' < queryMeasure s"
proof -
  have p: "phases s" using assms(1) by (simp add: query_inv_def)
  consider "mainPc s = Selecting" "coordClosed s" "s' = s\<lparr>mainPc := Over None\<rparr>"
    | e where "mainPc s = Received e" "s' = s\<lparr>cancelledCtx := True, mainPc := Draining e\<rparr>"
    | e where "mainPc s = Draining e" "coordClosed s" "s' = s\<lparr>mainPc := Over (Some e)\<rparr>"
    using assms(2) by (cases "mainPc s") (auto simp: mainGoes_def split: if_splits)
  then show ?thesis
    by cases (rule main_step_ok[OF assms(1)]; use p in \<open>simp add: phases_def\<close>)+
qed

lemma queryStep_ok:
  assumes "query_inv tot s" "queryStep t s = Some s'"
  shows "query_inv tot s' \<and> queryMeasure s' < queryMeasure s"
proof (cases t)
  case (QueryTurn g outcome)
  with assms show ?thesis by (intro queryTurn_ok[of tot s g outcome]) simp_all
next
  case (HandOver g)
  with assms show ?thesis by (intro handOver_ok[of tot s g]) simp_all
next
  case (GiveUp g)
  with assms show ?thesis by (intro giveUp_ok[of tot s g]) simp_all
next
  case CloseCoord
  with assms show ?thesis by (intro closeCoord_ok[of tot s]) simp_all
next
  case MainGoes
  with assms show ?thesis by (intro mainGoes_ok[of tot s]) simp_all
qed

lemma runQueries_ok:
  assumes "runQueries ts s = Some s'" "query_inv tot s"
  shows "query_inv tot s' \<and> length ts + queryMeasure s' \<le> queryMeasure s"
  using assms unfolding runQueries_def
proof (induction ts arbitrary: s)
  case (Cons t ts)
  then obtain d where d: "queryStep t s = Some d" "foldM queryStep ts d = Some s'" by (auto split: Option.bind_splits)
  have "query_inv tot d \<and> queryMeasure d < queryMeasure s" by (rule queryStep_ok[OF Cons.prems(2) d(1)])
  with Cons.IH[OF d(2)] show ?case by simp
qed simp

lemma startQueries_ok: "query_inv (n * q) (startQueries n q) \<and> queryMeasure (startQueries n q) = n * (q + 1) + 4"
  by (auto simp: query_inv_def pending_def known_def phases_def accounted_def startQueries_def queryMeasure_def sum_list_replicate cnt_zero_iff)

text \<open>Somebody can always go on: who has an error finds the main goroutine, or the context cancelled.\<close>

lemma query_progress:
  assumes "query_inv tot s" "\<forall>r. mainPc s \<noteq> Over r"
  shows "\<exists>t s'. queryStep t s = Some s'"
proof (cases "mainPc s")
  case (Received e)
  then have "queryStep MainGoes s \<noteq> None" by (simp add: mainGoes_def)
  then show ?thesis by blast
next
  case (Over r)
  with assms(2) show ?thesis by simp
next
  case Selecting
  show ?thesis
  proof (cases "\<forall>g \<in> set (gors s). g = Ended")
    case True
    then have "queryStep (if coordClosed s then MainGoes else CloseCoord) s \<noteq> None" using Selecting by (simp add: mainGoes_def closeCoord_def)
    then show ?thesis by blast
  next
    case False
    then obtain g where g: "g < length (gors s)" "gors s ! g \<noteq> Ended" by (auto simp: in_set_conv_nth)
    then have "queryStep (QueryTurn g None) s \<noteq> None \<or> queryStep (HandOver g) s \<noteq> None"
      using Selecting by (cases "gors s ! g") (auto simp: queryTurn_def handOver_def split: nat.splits)
    then show ?thesis by blast
  qed
next
  case (Draining e)
  then have c: "cancelledCtx s" using assms(1) by (simp add: query_inv_def phases_def)
  show ?thesis
  proof (cases "\<forall>g \<in> set (gors s). g = Ended")
    case True
    then have "queryStep (if coordClosed s then MainGoes else CloseCoord) s \<noteq> None" using Draining by (simp add: mainGoes_def closeCoord_def)
    then show ?thesis by blast
  next
    case False
    then obtain g where g: "g < length (gors s)" "gors s ! g \<noteq> Ended" by (auto simp: in_set_conv_nth)
    then have "queryStep (QueryTurn g None) s \<noteq> None \<or> queryStep (GiveUp g) s \<noteq> None"
      using c by (cases "gors s ! g") (auto simp: queryTurn_def giveUp_def split: nat.splits)
    then show ?thesis by blast
  qed
qed

text \<open>Whatever the order of the goroutines and whichever queries fail, the benchmark is never stuck and is
  at its end after at most \<open>n * (q + 1) + 4\<close> steps, when all goroutines are gone. It reports success exactly
  if no query has failed, and then all \<open>n * q\<close> queries have been made, the number it prints; otherwise it
  reports the error of a query that has failed.\<close>

theorem query_benchmark_reports_errors:
  assumes "runQueries ts (startQueries n q) = Some s"
  shows "((\<forall>r. mainPc s \<noteq> Over r) \<longrightarrow> (\<exists>t s'. queryStep t s = Some s')) \<and> length ts \<le> n * (q + 1) + 4 \<and>
    (\<forall>r. mainPc s = Over r \<longrightarrow> (\<forall>g \<in> set (gors s). g = Ended) \<and>
      (case r of None \<Rightarrow> failures s = [] \<and> succeeded s = n * q | Some e \<Rightarrow> e \<in> snd ` set (failures s)))"
proof -
  have start: "query_inv (n * q) (startQueries n q :: 'a query_run)" "queryMeasure (startQueries n q :: 'a query_run) = n * (q + 1) + 4"
    using startQueries_ok by blast+
  have ok: "query_inv (n * q) s" "length ts + queryMeasure s \<le> n * (q + 1) + 4"
    using runQueries_ok[OF assms start(1)] start(2) by simp_all
  have fin: "(\<forall>g \<in> set (gors s). g = Ended) \<and>
      (case r of None \<Rightarrow> failures s = [] \<and> succeeded s = n * q | Some e \<Rightarrow> e \<in> snd ` set (failures s))" if r: "mainPc s = Over r" for r
  proof -
    have ended: "\<forall>g \<in> set (gors s). g = Ended" using ok(1) r by (simp add: query_inv_def phases_def)
    then have left: "sum_list (map queriesLeft (gors s)) = 0" "cnt isFailing (gors s) = 0" by (auto simp: sum_list_eq_0_iff cnt_zero_iff)
    show ?thesis using ended left ok(1) r by (cases r) (auto simp: query_inv_def pending_def known_def accounted_def simp del: sum_list_eq_0_iff)
  qed
  show ?thesis using query_progress[OF ok(1)] ok(2) fin by simp
qed

theorem query_benchmark_reports_errors_witness:
  "\<exists>s. runQueries [QueryTurn 0 None, QueryTurn 1 (Some ''timeout''), HandOver 1, MainGoes, QueryTurn 0 (Some ''cancelled''), GiveUp 0,
      CloseCoord, MainGoes] (startQueries 2 3) = Some s \<and> mainPc s = Over (Some ''timeout'') \<and> ''timeout'' \<in> snd ` set (failures s)"
proof -
  obtain s where s: "runQueries [QueryTurn 0 None, QueryTurn 1 (Some ''timeout''), HandOver 1, MainGoes, QueryTurn 0 (Some ''cancelled''), GiveUp 0,
      CloseCoord, MainGoes] (startQueries 2 3) = Some s" "mainPc s = Over (Some ''timeout'')"
    by (simp add: runQueries_def startQueries_def queryTurn_def handOver_def giveUp_def closeCoord_def mainGoes_def numeral_2_eq_2 numeral_3_eq_3)
  with query_benchmark_reports_errors[OF s(1)] show ?thesis by auto
qed

end
