(* ===== verification/SolazMain.thy ===== *)
theory SolazMain
  imports SolazProps ConfigProps GoFlag
begin

text \<open>
  The whole program \<open>solaz\<close>: from the arguments of the command line to what it does and the exit code. The
  files, the broker and the protobuf library are arguments.
\<close>

section \<open>The path of the configuration\<close>

text \<open>\<open>filepath.Clean\<close> and \<open>filepath.Join\<close>. The elements kept so far are in reverse order.\<close>

definition cleanStep :: "bool \<Rightarrow> string \<Rightarrow> string list \<Rightarrow> string list" where
  "cleanStep rooted e out = (if e = [] \<or> e = ''.'' then out
     else if e = ''..'' then (if out \<noteq> [] \<and> hd out \<noteq> ''..'' then tl out else if rooted then out else e # out)
     else e # out)"

definition Clean :: "string \<Rightarrow> string" where
  "Clean path = (if path = [] then ''.''
     else (let rooted = (path ! 0 = CHR ''/''); out = Join ''/'' (rev (fold (cleanStep rooted) (Split (CHR ''/'') path) [])) in
       if rooted then ''/'' @ out else if out = [] then ''.'' else out))"

definition JoinPath :: "string list \<Rightarrow> string" where
  "JoinPath es = (case dropWhile (\<lambda>e. e = []) es of [] \<Rightarrow> [] | es \<Rightarrow> Clean (Join ''/'' es))"

text \<open>The argument is the value of \<open>HOME\<close>, empty if it is not set.\<close>

definition DefaultConfigPath :: "string \<Rightarrow> string" where
  "DefaultConfigPath home = (if home = [] then ''.solaz.conf'' else JoinPath [home, ''.solaz.conf''])"

section \<open>The flags of the commands\<close>

definition profileFlags :: "cli flag list" where
  "profileFlags = [StringVar ''config'' (\<lambda>v c. c\<lparr>cliConfig := v\<rparr>), StringVar ''profile'' (\<lambda>v c. c\<lparr>cliProfile := v\<rparr>)]"

definition timeFlags :: "cli flag list" where
  "timeFlags = [DurationVar ''timeout'' (\<lambda>d c. c\<lparr>cliTimeout := d\<rparr>), DurationVar ''max-runtime'' (\<lambda>d c. c\<lparr>cliMaxRuntime := d\<rparr>)]"

definition varFlag :: "cli flag" where
  "varFlag = VarFlag ''var'' (\<lambda>v c. case vars_Set (cliVars c) v of
     Inl e \<Rightarrow> Inl (''invalid --var '' @ e @ '', want KEY=VALUE'') | Inr m \<Rightarrow> Inr (c\<lparr>cliVars := m\<rparr>))"

definition topicFlag :: "cli flag" where
  "topicFlag = VarFlag ''topic'' (\<lambda>v c. Inr (c\<lparr>cliTopics := topics_Set (cliTopics c) v\<rparr>))"

definition typeFlag :: "cli flag" where "typeFlag = StringVar ''type'' (\<lambda>v c. c\<lparr>cliType := v\<rparr>)"

definition countFlag :: "cli flag" where "countFlag = IntVar ''count'' (\<lambda>n c. c\<lparr>cliCount := n\<rparr>)"

definition headersFlags :: "cli flag list" where
  "headersFlags = profileFlags @ timeFlags @ [varFlag, topicFlag]"

definition payloadFlags :: "cli flag list" where
  "payloadFlags = profileFlags @ timeFlags @ [typeFlag, countFlag, varFlag, topicFlag]"

definition statsFlags :: "cli flag list" where
  "statsFlags = profileFlags @ timeFlags @ [countFlag, varFlag, topicFlag]"

definition typesFlags :: "cli flag list" where
  "typesFlags = profileFlags @ [varFlag]"

definition typesDefaults :: cli where
  "typesDefaults = \<lparr>cliConfig = [], cliProfile = [], cliTimeout = 0, cliMaxRuntime = 0, cliType = [], cliCount = 0,
     cliVars = [], cliTopics = []\<rparr>"

section \<open>The program\<close>

text \<open>What the program finds: the home directory, files, the JSON decoder, the directories of proto files and
  their compiler, the message types of a registry, the builder of the messaging service.\<close>

record ('r, 'd, 'm) solaz_world =
  swHome :: string
  swFiles :: "string \<Rightarrow> file_content"
  swJson :: "string \<Rightarrow> string + config"
  swWalk :: "string \<Rightarrow> string + (string \<times> bool \<times> string) list"
  swCompile :: "string list \<Rightarrow> string list \<Rightarrow> string + 'r"
  swEmpty :: 'r
  swMessages :: "'r \<Rightarrow> message_descriptor list list"
  swBuild :: "(prop_key \<times> prop_value) list \<Rightarrow> string + broker"
  swLib :: "('r, 'd, 'm) proto_lib"

definition loadFor :: "('r, 'd, 'm) solaz_world \<Rightarrow> cli \<Rightarrow> bool \<Rightarrow> config_error + profile" where
  "loadFor w c validate = loadProfile (swJson w) (swFiles w) (DefaultConfigPath (swHome w)) (cliConfig c) (cliProfile c) (cliVars c) validate"

definition registryFor :: "('r, 'd, 'm) solaz_world \<Rightarrow> string list \<Rightarrow> string + 'r" where
  "registryFor w = NewProtoRegistry (swWalk w) (swCompile w) (swEmpty w)"

text \<open>How the program ends: usage, a flag that was refused (or \<open>-h\<close>), a fatal error before there is a
  connection, the end of \<open>Run\<close> with its calls, or the list of types.\<close>

datatype solaz_end =
    UsageShown int | FlagsRefused flag_error | UnknownFatal string | ConfigFatal config_error | RegistryFatal string
  | ServiceFatal string | Ran "effect list" "run_error option" | TypesPrinted "string list"

definition exitCode :: "solaz_end \<Rightarrow> int" where
  "exitCode e = (case e of UsageShown n \<Rightarrow> n | FlagsRefused fe \<Rightarrow> flagExit fe | TypesPrinted ts \<Rightarrow> 0
   | Ran effs err \<Rightarrow> (if err = None then 0 else 1) | _ \<Rightarrow> 1)"

definition receiving :: "('r, 'd, 'm) solaz_world \<Rightarrow> solaz_end + profile \<times> 'r receive_options \<Rightarrow> solaz_end" where
  "receiving w r = (case r of
     Inl e \<Rightarrow> e
   | Inr (p, opts) \<Rightarrow> (case runReceive (swBuild w) (swLib w) p opts of
       Inl e \<Rightarrow> ServiceFatal e
     | Inr (effs, err) \<Rightarrow> Ran effs err))"

definition configOrRegistry :: "config_error + string \<Rightarrow> solaz_end" where
  "configOrRegistry e = (case e of Inl ce \<Rightarrow> ConfigFatal ce | Inr s \<Rightarrow> RegistryFatal s)"

definition runCommand :: "('r, 'd, 'm) solaz_world \<Rightarrow> string \<Rightarrow> cli \<Rightarrow> solaz_end" where
  "runCommand w cmd c =
    (if cmd = ''headers'' then receiving w (map_sum ConfigFatal id (runHeaders (loadFor w) c))
     else if cmd = ''payload'' then receiving w (map_sum configOrRegistry id (runPayload (loadFor w) (registryFor w) c))
     else if cmd = ''stats'' then receiving w (map_sum ConfigFatal id (runStats (loadFor w) c))
     else (case runTypes (loadFor w) (map_sum id (swMessages w) \<circ> registryFor w) c of
       Inl e \<Rightarrow> configOrRegistry e | Inr ts \<Rightarrow> TypesPrinted ts))"

definition commandFlags :: "string \<Rightarrow> cli flag list \<times> cli" where
  "commandFlags cmd = (if cmd = ''headers'' then (headersFlags, headersDefaults)
     else if cmd = ''payload'' then (payloadFlags, payloadDefaults)
     else if cmd = ''stats'' then (statsFlags, statsDefaults) else (typesFlags, typesDefaults))"

text \<open>Arguments that are no flags are ignored.\<close>

definition solaz :: "('r, 'd, 'm) solaz_world \<Rightarrow> string list \<Rightarrow> solaz_end" where
  "solaz w osArgs = (case solaz_main osArgs of
     Usage n \<Rightarrow> UsageShown n
   | UnknownCommand cmd \<Rightarrow> UnknownFatal cmd
   | Command cmd args \<Rightarrow> (case commandFlags cmd of (formal, defaults) \<Rightarrow>
       (case parseFlags formal args defaults of
          Inl e \<Rightarrow> FlagsRefused e
        | Inr (c, rest) \<Rightarrow> runCommand w cmd c)))"

section \<open>Every setting can be given on the command line\<close>

definition int64 :: "int \<Rightarrow> bool" where
  "int64 i \<longleftrightarrow> - (2 ^ 63) \<le> i \<and> i < 2 ^ 63"

definition vars_ok :: "(string \<times> string) list \<Rightarrow> bool" where
  "vars_ok vs \<longleftrightarrow> distinct (map fst vs) \<and> (\<forall>k \<in> set (map fst vs). k \<noteq> [] \<and> CHR ''='' \<notin> set k)"

text \<open>The values of a command: those it has no flag for are the defaults.\<close>

definition cli_ok :: "string \<Rightarrow> cli \<Rightarrow> bool" where
  "cli_ok cmd c \<longleftrightarrow> int64 (cliTimeout c) \<and> int64 (cliMaxRuntime c) \<and> int64 (cliCount c) \<and> vars_ok (cliVars c) \<and>
     (let d = snd (commandFlags cmd) in
       (cmd \<noteq> ''payload'' \<longrightarrow> cliType c = cliType d) \<and>
       (cmd \<notin> {''payload'', ''stats''} \<longrightarrow> cliCount c = cliCount d) \<and>
       (cmd = ''types'' \<longrightarrow> cliTimeout c = cliTimeout d \<and> cliMaxRuntime c = cliMaxRuntime d \<and> cliTopics c = cliTopics d))"

definition settingsOf :: "string \<Rightarrow> cli \<Rightarrow> (string \<times> string) list" where
  "settingsOf cmd c = [(''config'', cliConfig c), (''profile'', cliProfile c)] @
     (if cmd = ''types'' then [] else [(''timeout'', showInt (cliTimeout c) @ ''ns''), (''max-runtime'', showInt (cliMaxRuntime c) @ ''ns'')]) @
     (if cmd = ''payload'' then [(''type'', cliType c)] else []) @
     (if cmd \<in> {''payload'', ''stats''} then [(''count'', showInt (cliCount c))] else []) @
     map (\<lambda>(k, v). (''var'', k @ ''='' @ v)) (cliVars c) @
     (if cmd = ''types'' then [] else map (\<lambda>t. (''topic'', t)) (cliTopics c))"

lemmas solaz_flags = headersFlags_def payloadFlags_def statsFlags_def typesFlags_def profileFlags_def timeFlags_def
  typeFlag_def countFlag_def StringVar_def IntVar_def DurationVar_def VarFlag_def

lemma update_fresh: "k \<notin> set (map fst m) \<Longrightarrow> AList.update k v m = m @ [(k, v)]"
  by (induction m) auto

lemma apply_vars:
  assumes "find (\<lambda>f. flName f = ''var'') formal = Some varFlag" "vars_ok (cliVars c @ vs)"
  shows "applySettings formal (map (\<lambda>(k, v). (''var'', k @ ''='' @ v)) vs) c = Some (c\<lparr>cliVars := cliVars c @ vs\<rparr>)"
  using assms(2)
proof (induction vs arbitrary: c)
  case (Cons kv vs)
  obtain k v where kv: "kv = (k, v)" by (cases kv)
  with Cons.prems have k: "k \<noteq> []" "CHR ''='' \<notin> set k" "k \<notin> set (map fst (cliVars c))" by (auto simp: vars_ok_def)
  have "vars_Set (cliVars c) (k @ ''='' @ v) = Inr (cliVars c @ [kv])"
    using Cut_found[OF k(2), of v] k kv update_fresh[OF k(3), of v] by (simp add: vars_Set_def)
  then have "flSet varFlag (k @ ''='' @ v) c = Inr (c\<lparr>cliVars := cliVars c @ [kv]\<rparr>)" "\<not> flIsBool varFlag"
    by (simp_all add: varFlag_def VarFlag_def)
  moreover have "plainName ''var''" by (simp add: plainName_def)
  ultimately show ?case using Cons.IH[of "c\<lparr>cliVars := cliVars c @ [kv]\<rparr>"] Cons.prems assms(1) kv by simp
qed simp

lemma apply_topics:
  assumes "find (\<lambda>f. flName f = ''topic'') formal = Some topicFlag"
  shows "applySettings formal (map (\<lambda>t. (''topic'', t)) ts) c = Some (c\<lparr>cliTopics := cliTopics c @ ts\<rparr>)"
proof (induction ts arbitrary: c)
  case (Cons t ts)
  have "plainName ''topic''" by (simp add: plainName_def)
  with Cons[of "c\<lparr>cliTopics := cliTopics c @ [t]\<rparr>"] assms show ?case
    by (simp add: topicFlag_def VarFlag_def topics_Set_def)
qed simp

lemma applied_settings:
  assumes "cmd \<in> {''headers'', ''payload'', ''stats'', ''types''}" "cli_ok cmd c"
  shows "applySettings (fst (commandFlags cmd)) (settingsOf cmd c) (snd (commandFlags cmd)) = Some c"
proof -
  let ?vs = "map (\<lambda>(k, v). (''var'', k @ ''='' @ v)) (cliVars c)" and ?ts = "map (\<lambda>t. (''topic'', t)) (cliTopics c)"
  note S = solaz_flags plainName_def commandFlags_def settingsOf_def ParseInt_showInt ParseDuration_ns
  have ok: "int64 (cliTimeout c)" "int64 (cliMaxRuntime c)" "int64 (cliCount c)" "vars_ok (cliVars c)" using assms(2) by (simp_all add: cli_ok_def)
  have f: "find (\<lambda>f. flName f = ''var'') (fst (commandFlags cmd)) = Some varFlag"
    "cmd \<noteq> ''types'' \<longrightarrow> find (\<lambda>f. flName f = ''topic'') (fst (commandFlags cmd)) = Some topicFlag"
    using assms(1) by (auto simp: solaz_flags commandFlags_def varFlag_def topicFlag_def)
  obtain pre where pre: "settingsOf cmd c = pre @ ?vs @ (if cmd = ''types'' then [] else ?ts)"
    "applySettings (fst (commandFlags cmd)) pre (snd (commandFlags cmd)) = Some (c\<lparr>cliVars := [], cliTopics := []\<rparr>)"
    using assms ok(1-3) unfolding int64_def cli_ok_def
    by (auto simp: S headersDefaults_def payloadDefaults_def statsDefaults_def typesDefaults_def)
  have "applySettings (fst (commandFlags cmd)) ?vs (c\<lparr>cliVars := [], cliTopics := []\<rparr>) = Some (c\<lparr>cliTopics := []\<rparr>)"
    using apply_vars[OF f(1), of "c\<lparr>cliVars := [], cliTopics := []\<rparr>" "cliVars c"] ok(4) by simp
  moreover have "applySettings (fst (commandFlags cmd)) (if cmd = ''types'' then [] else ?ts) (c\<lparr>cliTopics := []\<rparr>) = Some c"
  proof (cases "cmd = ''types''")
    case True
    then have "cliTopics c = []" using assms(2) by (simp add: cli_ok_def commandFlags_def typesDefaults_def)
    with True show ?thesis by simp
  qed (use apply_topics[of "fst (commandFlags cmd)" "cliTopics c" "c\<lparr>cliTopics := []\<rparr>"] f(2) in simp)
  ultimately show ?thesis using pre by (simp add: applySettings_append)
qed

section \<open>Which broker is reached\<close>

lemma loop_builds: "receiveLoop lib b opts deadline i n h = (effs, e) \<Longrightarrow> DoBuild ts \<notin> set effs"
  by (induction i n h effs e rule: receiveLoop_rule) auto

lemma Run_builds:
  assumes "Run lib b opts = (effs, e)" "DoBuild ts \<in> set effs"
  shows "ts = Topics opts"
proof -
  have w: "DoBuild ts \<notin> set (warning t er)" for t er by (simp add: warning_def split: option.splits)
  from assms(1) show ?thesis
  proof (cases rule: Run_cases)
    case (loop h l deadline)
    with assms(2) w loop_builds[OF loop(6)] show ?thesis by auto
  qed (use assms(2) w in auto)
qed

text \<open>The profile and the options of the three commands that receive.\<close>

definition optionsOf :: "string \<Rightarrow> cli \<Rightarrow> 'r option \<Rightarrow> profile \<Rightarrow> 'r receive_options" where
  "optionsOf cmd c reg p = \<lparr>Topics = cliTopics c, Timeout = cliTimeout c, MaxRuntime = cliMaxRuntime c, Registry = reg,
     MessageType = (if cmd = ''payload'' then cliType c else []), OptTopicTypes = (if cmd = ''payload'' then TopicTypes p else []),
     Mode = cmd, Count = (if cmd = ''headers'' then 1 else cliCount c)\<rparr>"

lemma receiving_Ran:
  assumes "receiving w r = Ran effs err" "\<And>x. r \<noteq> Inl (Ran effs x)"
  obtains p opts b where "r = Inr (p, opts)" "swBuild w (serviceProps p) = Inr b" "Run (swLib w) b opts = (effs, err)"
  using assms by (auto simp: receiving_def runReceive_def split: sum.splits prod.splits)

lemma runCommand_Ran:
  assumes "runCommand w cmd c = Ran effs err" "cmd \<in> {''headers'', ''payload'', ''stats'', ''types''}"
  shows "\<exists>p reg b. cmd \<noteq> ''types'' \<and> cliTopics c \<noteq> [] \<and> loadFor w c True = Inr p \<and> swBuild w (serviceProps p) = Inr b \<and>
    Run (swLib w) b (optionsOf cmd c reg p) = (effs, err)"
proof -
  consider "cmd = ''headers''" | "cmd = ''payload''" | "cmd = ''stats''" | "cmd = ''types''" using assms(2) by auto
  then show ?thesis
  proof cases
    case 1
    with assms(1) have "receiving w (map_sum ConfigFatal id (runHeaders (loadFor w) c)) = Ran effs err" by (simp add: runCommand_def)
    then obtain p opts b where r: "map_sum ConfigFatal id (runHeaders (loadFor w) c) = Inr (p, opts)"
      "swBuild w (serviceProps p) = Inr b" "Run (swLib w) b opts = (effs, err)"
      by (rule receiving_Ran) (simp add: runHeaders_def split: sum.splits)
    with 1 show ?thesis by (auto simp: runHeaders_def optionsOf_def split: if_splits sum.splits)
  next
    case 2
    with assms(1) have "receiving w (map_sum configOrRegistry id (runPayload (loadFor w) (registryFor w) c)) = Ran effs err"
      by (simp add: runCommand_def)
    then obtain p opts b where r: "map_sum configOrRegistry id (runPayload (loadFor w) (registryFor w) c) = Inr (p, opts)"
      "swBuild w (serviceProps p) = Inr b" "Run (swLib w) b opts = (effs, err)"
      by (rule receiving_Ran) (simp add: runPayload_def configOrRegistry_def split: sum.splits)
    with 2 show ?thesis by (auto simp: runPayload_def optionsOf_def split: if_splits sum.splits)
  next
    case 3
    with assms(1) have "receiving w (map_sum ConfigFatal id (runStats (loadFor w) c)) = Ran effs err" by (simp add: runCommand_def)
    then obtain p opts b where r: "map_sum ConfigFatal id (runStats (loadFor w) c) = Inr (p, opts)"
      "swBuild w (serviceProps p) = Inr b" "Run (swLib w) b opts = (effs, err)"
      by (rule receiving_Ran) (simp add: runStats_def split: sum.splits)
    with 3 show ?thesis by (auto simp: runStats_def optionsOf_def split: if_splits sum.splits)
  next
    case 4
    with assms(1) show ?thesis by (simp add: runCommand_def configOrRegistry_def split: sum.splits)
  qed
qed

lemma solaz_command:
  assumes "solaz w osArgs = e" "\<And>n. e \<noteq> UsageShown n" "\<And>cmd. e \<noteq> UnknownFatal cmd" "\<And>fe. e \<noteq> FlagsRefused fe"
  obtains prog cmd args c rest where "osArgs = prog # cmd # args" "cmd \<in> {''headers'', ''payload'', ''stats'', ''types''}"
    "parseFlags (fst (commandFlags cmd)) args (snd (commandFlags cmd)) = Inr (c, rest)" "runCommand w cmd c = e"
proof -
  obtain cmd args where m: "solaz_main osArgs = Command cmd args" using assms by (cases "solaz_main osArgs") (auto simp: solaz_def)
  then have "length osArgs \<ge> 2" "osArgs ! 1 = cmd" "drop 2 osArgs = args" "cmd \<in> {''headers'', ''payload'', ''stats'', ''types''}"
    by (auto simp: solaz_main_def Let_def split: if_splits)
  moreover from this have "osArgs = hd osArgs # cmd # args" by (cases osArgs; cases "tl osArgs") auto
  moreover obtain c rest where "parseFlags (fst (commandFlags cmd)) args (snd (commandFlags cmd)) = Inr (c, rest)" "runCommand w cmd c = e"
    using assms m by (auto simp: solaz_def split: prod.splits sum.splits)
  ultimately show ?thesis using that by blast
qed

section \<open>The properties\<close>

lemma parse_settings:
  assumes "cmd \<in> {''headers'', ''payload'', ''stats'', ''types''}" "cli_ok cmd c" "map snd ws = settingsOf cmd c"
    and "args = [] \<or> length (hd args) < 2 \<or> hd args ! 0 \<noteq> CHR ''-''"
  shows "parseFlags (fst (commandFlags cmd)) (written ws @ args) (snd (commandFlags cmd)) = Inr (c, args)"
proof -
  have "parseOne (fst (commandFlags cmd)) args c = Inr (False, args, c)" using assms(4) by (cases args) (auto simp: parseOne_def)
  then have "parseFlags (fst (commandFlags cmd)) args c = Inr (c, args)" by (subst parseFlags.simps) simp
  with parseFlags_written[of "fst (commandFlags cmd)" ws "snd (commandFlags cmd)" c args] applied_settings[OF assms(1,2)] assms(3)
  show ?thesis by simp
qed

text \<open>C27. Everything a command can be told can be written on its command line, each setting in one of the four
  ways of the package \<open>flag\<close>, texts of any kind, times and numbers in 64 bits, variables whose names are not
  empty and have no equals sign, topics in their order: the parser returns exactly these values and the
  arguments that follow, which are ignored, and the program runs the command with them.\<close>

theorem command_line_sets_everything:
  assumes "cmd \<in> {''headers'', ''payload'', ''stats'', ''types''}" "cli_ok cmd c" "map snd ws = settingsOf cmd c"
    and "args = [] \<or> length (hd args) < 2 \<or> hd args ! 0 \<noteq> CHR ''-''"
  shows "parseFlags (fst (commandFlags cmd)) (written ws @ args) (snd (commandFlags cmd)) = Inr (c, args) \<and>
    solaz w (prog # cmd # written ws @ args) = runCommand w cmd c"
proof -
  note p = parse_settings[OF assms]
  have "solaz_main (prog # cmd # written ws @ args) = Command cmd (written ws @ args)" using assms(1) by (auto simp: solaz_main_def)
  with p show ?thesis by (simp add: solaz_def case_prod_beta)
qed

text \<open>C26. If the program gets as far as to receive, its command line was in order and named a topic; the
  service it connects with is built from the chosen profile of the configuration, in which every variable
  has the value given on the command line or else that in the file next to the configuration, and which
  has everything a connection needs; it subscribes to exactly the topics of the command line, and the exit
  code tells whether there was an error.\<close>

theorem solaz_reaches_broker:
  assumes "solaz w osArgs = Ran effs err"
  shows "\<exists>prog cmd args c rest path cfg fileVars merged p q reg b.
    osArgs = prog # cmd # args \<and> cmd \<in> {''headers'', ''payload'', ''stats''} \<and>
    parseFlags (fst (commandFlags cmd)) args (snd (commandFlags cmd)) = Inr (c, rest) \<and> cliTopics c \<noteq> [] \<and>
    path = (if cliConfig c = [] then DefaultConfigPath (swHome w) else cliConfig c) \<and>
    LoadConfig (swJson w) path (swFiles w path) = Inr cfg \<and> p \<in> set (Profiles cfg) \<and>
    (if cliProfile c = [] then p = hd (Profiles cfg) else prName p = cliProfile c) \<and>
    LoadVarsFile (VarsPath path) (swFiles w (VarsPath path)) = Inr fileVars \<and>
    map_of merged = map_of (rev fileVars) ++ map_of (rev (cliVars c)) \<and>
    q = (mapTexts (substitute merged) p)\<lparr>ProtoPaths := map (substitute merged) (ProtoPaths p), TopicTypes := TopicTypes q\<rparr> \<and>
    Host q \<noteq> [] \<and> VPN q \<noteq> [] \<and> ClientCertFile q \<noteq> [] \<and> ClientKeyFile q \<noteq> [] \<and>
    swBuild w (serviceProps q) = Inr b \<and> Run (swLib w) b (optionsOf cmd c reg q) = (effs, err) \<and>
    (\<forall>ts. DoBuild ts \<in> set effs \<longrightarrow> ts = cliTopics c) \<and>
    exitCode (Ran effs err) = (if err = None then 0 else 1)"
proof -
  obtain prog cmd args c rest where o: "osArgs = prog # cmd # args" "cmd \<in> {''headers'', ''payload'', ''stats'', ''types''}"
    "parseFlags (fst (commandFlags cmd)) args (snd (commandFlags cmd)) = Inr (c, rest)" "runCommand w cmd c = Ran effs err"
    using solaz_command[OF assms] by blast
  obtain q reg b where r: "cmd \<noteq> ''types''" "cliTopics c \<noteq> []" "loadFor w c True = Inr q" "swBuild w (serviceProps q) = Inr b"
    "Run (swLib w) b (optionsOf cmd c reg q) = (effs, err)" using runCommand_Ran[OF o(4,2)] by blast
  have t: "ts = cliTopics c" if "DoBuild ts \<in> set effs" for ts using Run_builds[OF r(5) that] by (simp add: optionsOf_def)
  obtain cfg p merged fileVars path where L: "path = (if cliConfig c = [] then DefaultConfigPath (swHome w) else cliConfig c)"
    "LoadConfig (swJson w) path (swFiles w path) = Inr cfg" "p \<in> set (Profiles cfg)"
    "if cliProfile c = [] then p = hd (Profiles cfg) else prName p = cliProfile c"
    "LoadVarsFile (VarsPath path) (swFiles w (VarsPath path)) = Inr fileVars"
    "map_of merged = map_of (rev fileVars) ++ map_of (rev (cliVars c))"
    "q = (mapTexts (substitute merged) p)\<lparr>ProtoPaths := map (substitute merged) (ProtoPaths p), TopicTypes := TopicTypes q\<rparr>"
    "Host q \<noteq> []" "VPN q \<noteq> []" "ClientCertFile q \<noteq> []" "ClientKeyFile q \<noteq> []"
    using loaded_profile[OF r(3)[unfolded loadFor_def]] by auto
  have cmd: "cmd \<in> {''headers'', ''payload'', ''stats''}" using o(2) r(1) by blast
  have ec: "exitCode (Ran effs err) = (if err = None then 0 else 1)" by (simp add: exitCode_def)
  show ?thesis
    by (intro exI[of _ prog] exI[of _ cmd] exI[of _ args] exI[of _ c] exI[of _ rest] exI[of _ path] exI[of _ cfg] exI[of _ fileVars]
        exI[of _ merged] exI[of _ p] exI[of _ q] exI[of _ reg] exI[of _ b] conjI allI impI;
        (erule t | fact))
qed

text \<open>A profile whose host is a variable, an argument for it, and three messages.\<close>

definition demoProfile :: profile where
  "demoProfile = \<lparr>prName = ''p'', Host = ''${H}'', VPN = ''v'', ClientCertFile = ''c'', ClientKeyFile = ''k'', ClientKeyPass = [],
     ClientCertUserName = [], TrustStoreDir = [], ClientName = [], InsecureSkipVerify = False, ProtoPaths = [], TopicTypes = []\<rparr>"

definition demoWorld :: "(unit, unit, unit) solaz_world" where
  "demoWorld = \<lparr>swHome = ''/home/ann/'', swFiles = (\<lambda>n. if n = ''/home/ann/.solaz.conf'' then Content [] else NotExist),
     swJson = (\<lambda>_. Inr \<lparr>Profiles = [demoProfile]\<rparr>), swWalk = (\<lambda>_. Inr []), swCompile = (\<lambda>_ _. Inl []), swEmpty = (),
     swMessages = (\<lambda>_. []), swBuild = (\<lambda>_. Inr threeNotes), swLib = noProto\<rparr>"

definition demoCli :: cli where
  "demoCli = statsDefaults\<lparr>cliTimeout := 5, cliMaxRuntime := 14, cliVars := [(''H'', ''x'')], cliTopics := [''>'']\<rparr>"

definition demoSettings :: "(style \<times> string \<times> string) list" where
  "demoSettings = map (\<lambda>s. (Dash1, s)) (settingsOf ''stats'' demoCli)"

lemma demo_ok: "cli_ok ''stats'' demoCli" "map snd demoSettings = settingsOf ''stats'' demoCli"
  by (simp_all add: cli_ok_def demoCli_def statsDefaults_def second_def int64_def vars_ok_def commandFlags_def demoSettings_def comp_def)

theorem command_line_sets_everything_witness:
  "solaz demoWorld (''solaz'' # ''stats'' # written demoSettings @ [''x'']) = runCommand demoWorld ''stats'' demoCli"
  using command_line_sets_everything[of "''stats''" demoCli demoSettings "[''x'']" demoWorld "''solaz''"] demo_ok by simp

lemma demo_profile: "loadFor demoWorld demoCli True = Inr (demoProfile\<lparr>Host := ''x''\<rparr>)"
proof -
  have "DefaultConfigPath ''/home/ann/'' = ''/home/ann/.solaz.conf''" by code_simp
  moreover have "VarsPath ''/home/ann/.solaz.conf'' = ''/home/ann/.solaz.vars''" by code_simp
  moreover have "ExpandProfile demoProfile (mergeVars [] [(''H'', ''x'')]) = (demoProfile\<lparr>Host := ''x''\<rparr>, None)" by code_simp
  ultimately show ?thesis
    by (simp add: loadFor_def loadProfile_def demoWorld_def demoCli_def statsDefaults_def LoadVarsFile_def LoadConfig_def SelectProfile_def
        demoProfile_def ValidateProfile_def)
qed

lemma demo_run: "runCommand demoWorld ''stats'' demoCli = Ran (fst (Run noProto threeNotes statsOptions)) None"
proof -
  have "swBuild demoWorld = (\<lambda>_. Inr threeNotes)" "swLib demoWorld = noProto"
    by (simp_all add: demoWorld_def)
  moreover have "\<lparr>Topics = cliTopics demoCli, Timeout = cliTimeout demoCli, MaxRuntime = cliMaxRuntime demoCli, Registry = None,
      MessageType = [], OptTopicTypes = [], Mode = ''stats'', Count = cliCount demoCli\<rparr> = statsOptions" "length (cliTopics demoCli) \<noteq> 0"
    by (simp_all add: demoCli_def statsDefaults_def statsOptions_def)
  ultimately show ?thesis
    by (simp add: runCommand_def runStats_def demo_profile receiving_def runReceive_def statsOptions_run)
qed

theorem solaz_reaches_broker_witness:
  "\<exists>effs q. solaz demoWorld (''solaz'' # ''stats'' # written demoSettings @ []) = Ran effs None \<and> Host q \<noteq> [] \<and>
     swBuild demoWorld (serviceProps q) = Inr threeNotes \<and> {ts. DoBuild ts \<in> set effs} = {[''>'']}"
proof -
  let ?args = "''solaz'' # ''stats'' # written demoSettings @ []" and ?effs = "fst (Run noProto threeNotes statsOptions)"
  note P = parse_settings[OF _ demo_ok, of "[]"]
  have s: "solaz demoWorld ?args = Ran ?effs None"
    using P demo_run by (simp add: solaz_def solaz_main_def case_prod_beta)
  show ?thesis using solaz_reaches_broker[OF s]
  proof (elim exE conjE)
    fix prog cmd args rest and c :: cli and q :: profile
    assume a: "?args = prog # cmd # args" "parseFlags (fst (commandFlags cmd)) args (snd (commandFlags cmd)) = Inr (c, rest)"
      "Host q \<noteq> []" "\<forall>ts. DoBuild ts \<in> set ?effs \<longrightarrow> ts = cliTopics c"
    have "cmd = ''stats''" "args = written demoSettings @ []" using a(1) by simp_all
    with a(2) P have "c = demoCli" by (simp only: insert_iff simp_thms sum.inject prod.inject)
    then have "cliTopics c = [''>'']" by (simp add: demoCli_def)
    moreover have "swBuild demoWorld (serviceProps q) = Inr threeNotes" by (simp add: demoWorld_def)
    moreover have "DoBuild [''>''] \<in> set ?effs" by (simp add: statsOptions_run)
    ultimately have "{ts. DoBuild ts \<in> set ?effs} = {[''>'']}" using a(4) by blast
    with s a(3) \<open>swBuild demoWorld (serviceProps q) = Inr threeNotes\<close> show ?thesis by blast
  qed
qed

end
