(* ===== verification/Yamlz.thy ===== *)
theory Yamlz
  imports GoStrings
begin

text \<open>
  The program \<open>yamlz/yml2json.go\<close>: the documents of a YAML file, each printed as JSON. The decoder and the
  encoder are arguments: what the decoder yields, one result after the other until the end of the file, and
  the JSON of a document.
\<close>

datatype yaml_exit = Exits nat | Fatal string

fun decodeDocs :: "(string + 'd) list \<Rightarrow> string + 'd list" where
  "decodeDocs [] = Inr []"
| "decodeDocs (Inl err # rs) = Inl (''Error decoding YAML document: '' @ err)"
| "decodeDocs (Inr doc # rs) = (case decodeDocs rs of Inl e \<Rightarrow> Inl e | Inr docs \<Rightarrow> Inr (doc # docs))"

fun printDocs :: "('d \<Rightarrow> string + string) \<Rightarrow> nat \<Rightarrow> 'd list \<Rightarrow> string list \<times> yaml_exit" where
  "printDocs toJSON i [] = ([], Exits 0)"
| "printDocs toJSON i (doc # docs) = (let title = ''--- Document #'' @ digits (i + 1) @ '' ---'' in
     case toJSON doc of
       Inl err \<Rightarrow> ([title], Fatal (''Error converting to JSON: '' @ err))
     | Inr json \<Rightarrow> (case printDocs toJSON (i + 1) docs of (out, x) \<Rightarrow> (title # json # out, x)))"

text \<open>The file: an error, or what the decoder yields.\<close>

definition yml2json :: "(string \<Rightarrow> string + (string + 'd) list) \<Rightarrow> ('d \<Rightarrow> string + string) \<Rightarrow> string list \<Rightarrow> string list \<times> yaml_exit" where
  "yml2json openFile toJSON osArgs = (if length osArgs \<noteq> 2 then ([], Fatal ''No YAML file specified'')
     else (case openFile (osArgs ! 1) of
       Inl err \<Rightarrow> ([], Fatal (''Error opening YAML file: '' @ err))
     | Inr results \<Rightarrow> (case decodeDocs results of
         Inl e \<Rightarrow> ([], Fatal e)
       | Inr allDocs \<Rightarrow> printDocs toJSON 0 allDocs)))"

lemma decodeDocs_ok: "decodeDocs (map Inr docs) = Inr docs"
  by (induction docs) simp_all

lemma decodeDocs_fails: "decodeDocs (map Inr docs @ Inl err # rest) = Inl (''Error decoding YAML document: '' @ err)"
  by (induction docs) simp_all

lemma decoded_or_failed:
  obtains (decoded) docs where "rs = map Inr docs" | (failed) docs err rest where "rs = map Inr docs @ Inl err # rest"
proof -
  have "(\<exists>docs. rs = map Inr docs) \<or> (\<exists>docs err rest. rs = map Inr docs @ Inl err # rest)"
  proof (induction rs)
    case (Cons r rs)
    show ?case
    proof (cases r)
      case (Inl err)
      then show ?thesis by (intro disjI2 exI[of _ "[]"]) simp
    next
      case (Inr d)
      from Cons.IH show ?thesis
      proof (elim disjE exE)
        fix docs assume "rs = map Inr docs"
        then show ?thesis using Inr by (intro disjI1 exI[of _ "d # docs"]) simp
      next
        fix docs err rest assume "rs = map Inr docs @ Inl err # rest"
        then show ?thesis using Inr by (intro disjI2 exI[of _ "d # docs"]) simp
      qed
    qed
  qed simp
  then show thesis using that by blast
qed

definition shownDoc :: "('d \<Rightarrow> string + string) \<Rightarrow> nat \<times> 'd \<Rightarrow> string list" where
  "shownDoc toJSON = (\<lambda>(k, d). [''--- Document #'' @ digits (k + 1) @ '' ---'', projr (toJSON d)])"

lemma printDocs_ok:
  assumes "\<forall>d \<in> set docs. \<exists>j. toJSON d = Inr j"
  shows "printDocs toJSON i docs = (concat (map (shownDoc toJSON) (enumerate i docs)), Exits 0)"
  using assms
proof (induction docs arbitrary: i)
  case (Cons d docs)
  then obtain j where "toJSON d = Inr j" by auto
  with Cons show ?case by (simp add: Let_def shownDoc_def)
qed simp

text \<open>Nothing is printed unless the whole file can be decoded; then, if all of them have a JSON, the documents are
  printed with their numbers.\<close>

lemma yml2json_all_or_nothing:
  assumes "length osArgs = 2" "openFile (osArgs ! 1) = Inr rs"
  shows "(\<exists>docs. rs = map Inr docs \<and> ((\<forall>d \<in> set docs. \<exists>j. toJSON d = Inr j) \<longrightarrow>
       yml2json openFile toJSON osArgs = (concat (map (shownDoc toJSON) (enumerate 0 docs)), Exits 0))) \<or>
     (\<exists>e. yml2json openFile toJSON osArgs = ([], Fatal e))"
proof (cases rs rule: decoded_or_failed)
  case (decoded docs)
  then have "yml2json openFile toJSON osArgs = printDocs toJSON 0 docs" using assms by (simp add: yml2json_def decodeDocs_ok)
  then show ?thesis using decoded printDocs_ok[of docs toJSON 0] by simp
next
  case (failed docs err rest)
  then show ?thesis using assms by (simp add: yml2json_def decodeDocs_fails)
qed

end
