(* ===== verification/Spec2Isabelle.thy ===== *)
theory Spec2Isabelle
  imports FlagzProps ClassicProps Games MctsProps Stats TopicMatch GameMasterProps CpuGame GameSystemProps HttpProps
    HexzBench Hex42 ConfigProps SolazProps RpzCounterProps RpzProps
    DiscoverzProps GosqlProps HexzSystem RpzMain SolazMain Yamlz
begin

text \<open>
  A verification of the Go programs in this repository: the game server \<open>hexz\<close>, the message subscriber
  \<open>solaz\<close>, the benchmark services \<open>rpz\<close>, the discovery service \<open>discoverz\<close>, the database experiment
  \<open>gosql\<close>, and the converter \<open>yamlz\<close>.

  \<^bold>\<open>Conventions.\<close> A Go panic is the result \<open>None\<close> of an option, an error value is the left side of a
  sum, a loop is a fold or a recursion, a Go string is a list of bytes (\<open>char\<close>), a map is an association
  list where the order of \<open>range\<close> matters and a function or map otherwise. \<open>Prelude\<close> has checked indexing,
  loops that may panic (\<open>foldM\<close> and its invariant rules), counting, and random numbers as streams of raw
  draws, so that a theorem about all streams is one about all outcomes. \<open>GoStrings\<close>, \<open>GoRunes\<close>, \<open>GoHex\<close>
  and \<open>GoNumbers\<close> are what the programs use of \<open>strings\<close>, \<open>sort\<close>, UTF-8, hexadecimal digits and the
  printing of numbers; \<open>GoFlag\<close> is the package \<open>flag\<close> with the parsing of numbers and durations, so
  that the commands are modelled from their arguments on. Goroutines are step relations, so that a theorem about reachable states is one
  about all interleavings.

  \<^bold>\<open>The game (\<open>src/hexz\<close>).\<close>
  \<^item> \<open>Api\<close>, \<open>Board\<close>, \<open>Engine\<close>: \<open>api.go\<close> and \<open>engine.go\<close>. The board is a record with rows of
    fields; \<open>neighbors\<close> is proved to be the hexagonal adjacency, \<open>ViewFor\<close> to hide what it must.
  \<^item> \<open>Flagz\<close>: the engine of \<open>flagz.go\<close>, one definition per method. \<open>FlagzInv\<close> has the invariant of the
    incremental caches, \<open>FlagzGame\<close> the rules as an abstract specification (\<open>legal\<close>, \<open>over\<close>) and the
    refinement of \<open>MakeMove\<close>, \<open>FlagzPlay\<close> random moves and set-up, \<open>FlagzProps\<close> the properties. The
    rule of capture is the inductive definition \<open>captures\<close>; the recursion that captures is at most as
    deep as there are grass cells, takes exactly what the rule says, and leaves the caches right.
  \<^item> \<open>Classic\<close>: \<open>classic.go\<close>. \<open>ClassicFill\<close> proves that flood fill finds the connected regions,
    \<open>ClassicGame\<close> the invariant of the pieces and every branch of \<open>MakeMove\<close>, \<open>ClassicProps\<close> the
    properties. \<open>Freeform\<close> is \<open>freeform.go\<close>, and \<open>Games\<close> the three engines behind one interface.
  \<^item> \<open>Mcts\<close>: the tree search of \<open>mcts.go\<close>; \<open>MctsMoves\<close> its candidate moves, \<open>MctsTree\<close> the consistency
    of the tree, \<open>MctsProps\<close> the suggestion. Clock readings are an argument; a simulation descends at
    most as many levels as there are free cells.
  \<^item> \<open>Stats\<close>: counters and distributions of \<open>stats.go\<close>, 64-bit words and reals with two infinities.
  \<^item> \<open>Solo\<close>, \<open>GameMaster\<close>, \<open>GameMasterInv\<close>, \<open>GameMasterProps\<close>: the goroutine \<open>gameMaster\<close> of
    \<open>server.go\<close> as a transition function from an event to the new state and the actions (events sent to
    listeners, timers, requests to the computer player), reachable states and their invariant.
    \<open>CpuGame\<close> is the loop of the computer player and its composition with the master.
  \<^item> \<open>GameSystem\<close>: a game with all its goroutines (master, handlers, computer player, timers of removals)
    that meet on unbuffered channels. \<open>GameSystemInv\<close> shows which channels are closed when, and that
    nobody is sent a foreign view; \<open>GameSystemLink\<close> that every listener has its handler;
    \<open>GameSystemProps\<close> that no goroutine panics, where the master can hang and when it goes on.
  \<^item> \<open>ServerState\<close>, \<open>ServerInv\<close>, \<open>ServerProps\<close>: players, sessions, games, counters and maintenance of
    \<open>Server\<close>. \<open>ServerHttp\<close>, \<open>HttpProps\<close>: the HTTP handlers as functions from a request to the new state
    and the calls on the response, and the routing between them, with the redirections of
    \<open>http.ServeMux\<close>. A round of the maintenance is two steps, between which requests are served.
  \<^item> \<open>HexzMain\<close>: \<open>cmd/server\<close> and \<open>Serve\<close> up to the listener, with the access to the status page.
    \<open>HexzSystem\<close>: the whole server as one step relation over requests, the goroutines of all games and
    the maintenance; the games in the list of the server are those whose masters run.
  \<^item> \<open>HexzBench\<close>: \<open>cmd/bench\<close>, two searches against each other. \<open>Hex42\<close>: \<open>cmd/hex42\<close>, with a proof of
    the theorem of Hex its comment states.

  \<^bold>\<open>The subscriber (\<open>src/solaz\<close>).\<close>
  \<^item> \<open>TopicMatch\<close>: \<open>topic_match.go\<close>, with the wildcard rules as an inductive definition and \<open>Lookup\<close>
    against its specification.
  \<^item> \<open>SolazConfig\<close>, \<open>ConfigProps\<close>: \<open>config.go\<close> and \<open>loadProfile\<close>. The meaning of a file of variables, the
    expansion of templates (with \<open>os.Expand\<close> of the standard library), the profile that is loaded.
  \<^item> \<open>SolazRun\<close>, \<open>SolazProps\<close>: \<open>solace.go\<close>, \<open>registry.go\<close> and the commands. \<open>Run\<close> yields the list of its
    calls on the broker and of its output; an automaton of phases is the protocol of the service. The
    locale \<open>message_handler\<close> is the contract of the three handlers, each an interpretation of it.
  \<^item> \<open>SolazMain\<close>: the program as a whole, from the command line to its exit code: which values a command
    line stands for, and which broker is reached with which topics.

  \<^bold>\<open>The services (\<open>src/rpz\<close>).\<close>
  \<^item> \<open>RpzCounter\<close>, \<open>RpzCounterProps\<close>: the counters of \<open>cmd/counter\<close>. A run is any interleaving of the
    steps of the goroutines; the locale \<open>counter_contract\<close> proves the benchmark once for every counter
    that keeps its contract (no panic, no deadlock, a bound on the steps, the right value), and the mutex,
    atomic and channel counters are interpretations, the sharded one if its arguments fit.
  \<^item> \<open>RpzStore\<close>, \<open>RpzProps\<close>: the gRPC and HTTP item servers as interpretations of \<open>item_store\<close>, and the
    database benchmark of \<open>cmd/database\<close> over a table as the database documents it. \<open>RpzMain\<close>: its querying
    goroutines with the first error that stops them, and the command lines of \<open>cmd/database\<close> and \<open>cmd/server\<close>.

  \<^bold>\<open>Smaller programs.\<close>
  \<^item> \<open>Discoverz\<close>, \<open>DiscoverzProps\<close>: clients and servers that find each other by multicast, as functions
    of the packets that arrive.
  \<^item> \<open>Gosql\<close>, \<open>GosqlProps\<close>: the connector, the JSON column and the commands, the concurrent writers as a
    step relation; any call on the database may fail.
  \<^item> \<open>Yamlz\<close>: \<open>yml2json.go\<close> with the decoder and the encoder as arguments.

  \<^bold>\<open>Bounds.\<close> Loops are structural or have a measure, except the search and the set-up loops of the
  engines, which stop with the clock or the random numbers: there the model has a bound with a proof that
  it is enough, or the theorem says when the loop ends. Machine integers are words where a counter can
  wrap; board sizes, scores and numbers of players are bounded by the invariants and kept as \<open>int\<close>, as
  are the message counts and byte totals of \<open>solaz\<close>, which would need \<open>2 ^ 63\<close> bytes to wrap.

  \<^bold>\<open>Not modelled.\<close> The network below requests and packets, the texts of usage and logging, and the table
  layout of \<open>tabwriter\<close>; the flags and the profiling of \<open>cmd/bench\<close>; the inside of encoders, drivers and
  brokers, which are arguments; generated protobuf code; the programs in other languages.
\<close>

end
